(* ===== verification/Prelude.thy ===== *)
theory Prelude
  imports Main "HOL-Library.Word" "HOL-Library.Sublist"
begin

text \<open>
  Shared types, loop combinators, list lemmas and hint collections of the development.

  The collection \<open>model_defs\<close> gathers the unfolding equations of small accessors,
  \<open>inv_intro\<close> the preservation lemmas of component invariants.  A C++ loop whose body can
  fail (an assertion, an exception, an early return with an error) is \<open>fold_opt\<close>; \<open>None\<close>
  stands for the abnormal exit.
\<close>

unbundle bit_operations_syntax

named_theorems model_defs \<open>unfolding equations of accessors and guards\<close>
named_theorems inv_intro \<open>preservation lemmas of component invariants\<close>

type_synonym u8 = "8 word"
type_synonym u16 = "16 word"
type_synonym u32 = "32 word"
type_synonym u64 = "64 word"
type_synonym bytes = "u8 list"

subsection \<open>Loops with an abnormal exit\<close>

fun fold_opt :: "('a \<Rightarrow> 's \<Rightarrow> 's option) \<Rightarrow> 'a list \<Rightarrow> 's \<Rightarrow> 's option" where
  "fold_opt f [] s = Some s"
| "fold_opt f (x # xs) s = (case f x s of None \<Rightarrow> None | Some s' \<Rightarrow> fold_opt f xs s')"

lemma fold_opt_append:
  "fold_opt f (xs @ ys) s =
     (case fold_opt f xs s of None \<Rightarrow> None | Some s' \<Rightarrow> fold_opt f ys s')"
  by (induction xs arbitrary: s) (auto split: option.splits)

lemma fold_opt_invariant:
  assumes "fold_opt f xs s = Some s'" "P s"
    and "\<And>x t t'. x \<in> set xs \<Longrightarrow> P t \<Longrightarrow> f x t = Some t' \<Longrightarrow> P t'"
  shows "P s'"
  using assms
proof (induction xs arbitrary: s)
  case (Cons x xs)
  from Cons.prems(1) obtain t where t: "f x s = Some t" "fold_opt f xs t = Some s'"
    by (auto split: option.splits)
  show ?case
  proof (rule Cons.IH [OF t(2)])
    show "P t" using Cons.prems(3) [OF _ Cons.prems(2) t(1)] by simp
  qed (use Cons.prems(3) in auto)
qed simp

lemma fold_opt_total_inv:
  assumes "P s" and "\<And>x t. x \<in> set xs \<Longrightarrow> P t \<Longrightarrow> \<exists>t'. f x t = Some t' \<and> P t'"
  shows "\<exists>s'. fold_opt f xs s = Some s' \<and> P s'"
  using assms
proof (induction xs arbitrary: s)
  case (Cons x xs)
  then obtain t where t: "f x s = Some t" "P t" by (meson list.set_intros(1))
  have "\<exists>s'. fold_opt f xs t = Some s' \<and> P s'" by (rule Cons.IH [OF t(2)]) (use Cons.prems(2) in auto)
  then show ?case using t(1) by simp
qed simp

lemma fold_opt_upt_inv:
  assumes "P 0 s" and "\<And>i t. i < n \<Longrightarrow> P i t \<Longrightarrow> \<exists>t'. f i t = Some t' \<and> P (Suc i) t'"
  shows "\<exists>s'. fold_opt f [0 ..< n] s = Some s' \<and> P n s'"
  using assms
proof (induction n)
  case (Suc n)
  then obtain t where t: "fold_opt f [0 ..< n] s = Some t" "P n t" by (meson less_SucI)
  then show ?case using Suc.prems(2) [of n t] by (auto simp: fold_opt_append)
qed simp

lemma fold_invariant_set:
  assumes "P s" and "\<And>x t. x \<in> set xs \<Longrightarrow> P t \<Longrightarrow> P (f x t)"
  shows "P (fold f xs s)"
  using assms by (induction xs arbitrary: s) auto

subsection \<open>Lists\<close>

lemma nth_upd_if: "i < length xs \<Longrightarrow> xs[j := v] ! i = (if i = j then v else xs ! i)"
  by (auto simp: nth_list_update)

lemma sum_list_append_single [simp]: "sum_list (xs @ [x]) = sum_list xs + (x :: nat)"
  by simp

lemma prefix_append_mono: "prefix xs ys \<Longrightarrow> prefix xs (ys @ zs)"
  by (auto simp: prefix_def)

lemma option_bind_eq_case: "Option.bind x f = (case x of None \<Rightarrow> None | Some y \<Rightarrow> f y)"
  by (cases x) auto

subsection \<open>Word facts used by the byte-level components\<close>

lemma unat_u8_less: "unat (b :: u8) < 256"
  using unsigned_less [of b] by simp

lemma unat_u32_less: "unat (w :: u32) < 4294967296"
  using unsigned_less [of w] by simp

lemma sint_of_nat_small: "n < 2 ^ 31 \<Longrightarrow> sint (of_nat n :: u32) = int n"
  by (simp add: signed_of_nat signed_take_bit_int_eq_self)

end
