(* ===== verification/Az_List.thy ===== *)
theory Az_List
  imports Prelude
begin

text \<open>
  The intrusive doubly linked list of \<open>libaz/az/core/list.hpp\<close> (\<open>ListNode\<close>) and the LRU
  list on top of it (\<open>libaz/az/core/lru.cpp\<close>), modelled on an explicit heap: a node is an
  address, its two pointer fields are maps from addresses to addresses, \<open>nullptr\<close> is 0, and
  every C++ assignment is one function update, in the order of the source.  \<open>ring h ns\<close> says
  that the nodes \<open>ns\<close> form a cycle of the heap in this order.
\<close>

type_synonym addr = nat

record heap =
  prev :: "addr \<Rightarrow> addr"
  nxt :: "addr \<Rightarrow> addr"

abbreviation (input) nullptr :: addr where "nullptr \<equiv> 0"

subsection \<open>ListNode\<close>

definition set_prev :: "addr \<Rightarrow> addr \<Rightarrow> heap \<Rightarrow> heap" where
  "set_prev a v h = h\<lparr>prev := (prev h)(a := v)\<rparr>"

definition set_next :: "addr \<Rightarrow> addr \<Rightarrow> heap \<Rightarrow> heap" where
  "set_next a v h = h\<lparr>nxt := (nxt h)(a := v)\<rparr>"

definition node_init :: "addr \<Rightarrow> heap \<Rightarrow> heap" where
  "node_init a h = set_next a a (set_prev a a h)"

definition node_empty :: "heap \<Rightarrow> addr \<Rightarrow> bool" where
  "node_empty h a \<longleftrightarrow> nxt h a = a"

definition node_destroy :: "addr \<Rightarrow> heap \<Rightarrow> heap" where
  "node_destroy a h =
     (let next_copy = nxt h a;
          h1 = (if prev h a \<noteq> nullptr then set_next (prev h a) nullptr h else h);
          h2 = (if next_copy \<noteq> nullptr then set_prev next_copy nullptr h1 else h1)
      in set_next a nullptr (set_prev a nullptr h2))"

definition node_move :: "addr \<Rightarrow> addr \<Rightarrow> heap \<Rightarrow> heap" where
  "node_move this other h =
     (let h1 = (if node_empty h other then set_next this this (set_prev this this h)
                else let a = set_prev this (prev h other) h;
                         b = set_next this (nxt a other) a;
                         c = set_next (prev b this) this b
                     in set_prev (nxt c this) this c)
      in set_next other nullptr (set_prev other nullptr h1))"

definition link_to :: "addr \<Rightarrow> addr \<Rightarrow> heap \<Rightarrow> heap" where
  "link_to this other h =
     (let a = set_prev (nxt h this) (prev h other) h;
          b = set_next (prev a other) (nxt a this) a;
          c = set_next this other b
      in set_prev other this c)"

definition detach :: "addr \<Rightarrow> heap \<Rightarrow> heap" where
  "detach this h =
     (let a = set_next (prev h this) (nxt h this) h;
          b = set_prev (nxt a this) (prev a this) a;
          c = set_next this this b
      in set_prev this this c)"

definition move_to :: "addr \<Rightarrow> addr \<Rightarrow> heap \<Rightarrow> heap" where
  "move_to this other h =
     (let a = set_next (prev h this) (nxt h this) h;
          b = set_prev (nxt a this) (prev a this) a;
          c = set_prev this (prev b other) b;
          d = set_next (prev c other) this c;
          e = set_next this other d
      in set_prev other this e)"

subsection \<open>LRU\<close>

record lru =
  lru_size :: nat
  lru_head :: addr

definition lru_add :: "addr \<Rightarrow> bool \<Rightarrow> lru \<times> heap \<Rightarrow> (lru \<times> heap) option" where
  "lru_add node at_head = (\<lambda>(l, h).
     if \<not> node_empty h node then None
     else Some (l\<lparr>lru_size := lru_size l + 1\<rparr>,
                if at_head then link_to (lru_head l) node h else link_to node (lru_head l) h))"

definition lru_promote :: "addr \<Rightarrow> lru \<times> heap \<Rightarrow> (lru \<times> heap) option" where
  "lru_promote node = (\<lambda>(l, h).
     if node_empty h node then None
     else Some (l, link_to (lru_head l) node (detach node h)))"

definition lru_evict :: "lru \<times> heap \<Rightarrow> (addr \<times> lru \<times> heap) option" where
  "lru_evict = (\<lambda>(l, h).
     if node_empty h (lru_head l) then None
     else let node = prev h (lru_head l)
          in Some (node, l\<lparr>lru_size := lru_size l - 1\<rparr>, detach node h))"

subsection \<open>Rings\<close>

definition linked :: "heap \<Rightarrow> addr \<Rightarrow> addr \<Rightarrow> bool" where
  "linked h a b \<longleftrightarrow> nxt h a = b \<and> prev h b = a"

fun chain :: "heap \<Rightarrow> addr list \<Rightarrow> bool" where
  "chain h (a # b # xs) \<longleftrightarrow> linked h a b \<and> chain h (b # xs)"
| "chain h _ \<longleftrightarrow> True"

definition ring :: "heap \<Rightarrow> addr list \<Rightarrow> bool" where
  "ring h ns \<longleftrightarrow> ns \<noteq> [] \<and> distinct ns \<and> nullptr \<notin> set ns \<and> chain h (ns @ [hd ns])"

lemmas node_defs = set_prev_def set_next_def

lemma chain_append:
  "chain h (xs @ a # ys) \<longleftrightarrow> chain h (xs @ [a]) \<and> chain h (a # ys)"
proof (induction xs)
  case (Cons x xs)
  then show ?case by (cases xs) auto
qed simp

lemma chain_snoc: "zs \<noteq> [] \<Longrightarrow> chain h (zs @ [b]) \<longleftrightarrow> chain h zs \<and> linked h (last zs) b"
  by (induction h zs rule: chain.induct) auto

lemma chain_cong:
  assumes "\<And>x. x \<in> set (butlast xs) \<Longrightarrow> nxt h' x = nxt h x"
    and "\<And>x. x \<in> set (tl xs) \<Longrightarrow> prev h' x = prev h x"
  shows "chain h' xs \<longleftrightarrow> chain h xs"
  using assms by (induction h xs rule: chain.induct) (auto simp: linked_def)

lemma ring_rotate1:
  assumes "ring h (a # xs)" shows "ring h (xs @ [a])"
proof (cases xs)
  case Nil
  then show ?thesis using assms by simp
next
  case (Cons b ys)
  from assms have "chain h (a # b # ys @ [a])" using Cons by (simp add: ring_def)
  then have "chain h ((b # ys) @ [a])" and "chain h (a # [b])" by auto
  then have "chain h ((b # ys) @ a # [b])" by (subst chain_append) simp
  then show ?thesis using assms Cons by (auto simp: ring_def)
qed

lemma ring_rotate: "ring h (xs @ ys) \<Longrightarrow> ring h (ys @ xs)"
proof (induction xs arbitrary: ys)
  case (Cons x xs)
  from Cons.prems have "ring h (xs @ (ys @ [x]))" using ring_rotate1 [of h x "xs @ ys"] by simp
  then show ?case using Cons.IH by fastforce
qed simp

lemma ring_ends:
  assumes "ring h (a # xs)"
  shows "nxt h a = hd (xs @ [a])" "prev h a = last (a # xs)"
proof -
  have c: "chain h (a # xs @ [a])" using assms by (simp add: ring_def)
  then show "nxt h a = hd (xs @ [a])" by (cases xs) (auto simp: linked_def)
  have "chain h (butlast (a # xs) @ [last (a # xs), a])"
    using c by (metis append_Cons append_butlast_last_id append.assoc list.distinct(1) append_Nil)
  then have "chain h (last (a # xs) # [a])" by (subst (asm) chain_append) blast
  then show "prev h a = last (a # xs)" by (simp add: linked_def)
qed

lemma ring_single: "ring h [a] \<longleftrightarrow> a \<noteq> nullptr \<and> nxt h a = a \<and> prev h a = a"
  by (auto simp: ring_def linked_def)

lemma ring_empty_iff: "ring h (a # xs) \<Longrightarrow> node_empty h a \<longleftrightarrow> xs = []"
  using ring_ends(1) [of h a xs] by (cases xs) (auto simp: node_empty_def ring_def)

text \<open>Closed forms of the two pointer surgeries, once the written cells are distinct.\<close>

lemma link_to_eq:
  assumes "other \<noteq> nxt h this"
  shows "link_to this other h =
    h\<lparr>prev := (prev h)(nxt h this := prev h other, other := this),
      nxt := (nxt h)(prev h other := nxt h this, this := other)\<rparr>"
  using assms by (simp add: link_to_def node_defs Let_def)

lemma detach_eq:
  assumes "prev h this \<noteq> this"
  shows "detach this h =
    h\<lparr>prev := (prev h)(nxt h this := prev h this, this := this),
      nxt := (nxt h)(prev h this := nxt h this, this := this)\<rparr>"
  using assms by (simp add: detach_def node_defs Let_def)

lemma link_to_ring:
  assumes a: "ring h (a # xs)" and b: "ring h (b # ys)" and disj: "set (a # xs) \<inter> set (b # ys) = {}"
  shows "ring (link_to a b h) (a # b # ys @ xs)"
proof -
  let ?h = "link_to a b h" and ?n = "hd (xs @ [a])" and ?p = "last (b # ys)"
  have e: "nxt h a = ?n" "prev h b = ?p" using ring_ends(1) [OF a] ring_ends(2) [OF b] by auto
  have n_in: "?n \<in> set (a # xs)" by (cases xs) auto
  have p_in: "?p \<in> set (b # ys)" by (rule last_in_set) simp
  have ne: "b \<noteq> nxt h a" using n_in disj e(1) by auto
  have h: "?h = h\<lparr>prev := (prev h)(?n := ?p, b := a), nxt := (nxt h)(?p := ?n, a := b)\<rparr>"
    using link_to_eq [OF ne] e by simp
  have d: "distinct (a # xs)" "distinct (b # ys)" using a b by (auto simp: ring_def)
  have pa: "?p \<noteq> a" using p_in disj by auto
  have bl: "?p \<notin> set (butlast (b # ys))"
    using d(2) append_butlast_last_id [of "b # ys"]
    by (metis distinct_append disjoint_iff list.distinct(1) list.set_intros(1))
  have c1: "chain ?h (b # ys)"
  proof -
    have "chain ?h (b # ys) \<longleftrightarrow> chain h (b # ys)"
    proof (rule chain_cong)
      fix x assume "x \<in> set (butlast (b # ys))"
      then have "x \<noteq> ?p" "x \<in> set (b # ys)" using bl in_set_butlastD by fastforce+
      then show "nxt ?h x = nxt h x" using disj unfolding h by auto
    next
      fix x assume "x \<in> set (tl (b # ys))"
      then have "x \<noteq> b" "x \<in> set (b # ys)" "x \<noteq> ?n" using d(2) n_in disj by auto
      then show "prev ?h x = prev h x" unfolding h by simp
    qed
    moreover have "chain h (b # ys)"
      using b chain_snoc [of "b # ys" h b] by (simp add: ring_def)
    ultimately show ?thesis by simp
  qed
  have c2: "chain ?h (xs @ [a])"
  proof -
    have "chain ?h (xs @ [a]) \<longleftrightarrow> chain h (xs @ [a])"
    proof (rule chain_cong)
      fix x assume "x \<in> set (butlast (xs @ [a]))"
      then have "x \<in> set xs" by simp
      then show "nxt ?h x = nxt h x" using d(1) p_in disj unfolding h by auto
    next
      fix x assume x: "x \<in> set (tl (xs @ [a]))"
      then have "x \<in> set (a # xs)" by (cases xs) auto
      moreover have "x \<noteq> ?n" using x d(1) by (cases xs) auto
      ultimately show "prev ?h x = prev h x" using disj unfolding h by auto
    qed
    moreover have "chain h (xs @ [a])" using a chain_append [of h "[a]"]
      by (cases xs) (auto simp: ring_def)
    ultimately show ?thesis by simp
  qed
  have l: "linked ?h ?p ?n" "linked ?h a b"
    using pa n_in disj by (auto simp: linked_def h)
  have "chain ?h (butlast (b # ys) @ ?p # xs @ [a])"
  proof (subst chain_append, intro conjI)
    show "chain ?h (butlast (b # ys) @ [?p])" using c1 by (metis append_butlast_last_id list.distinct(1))
    show "chain ?h (?p # xs @ [a])" using l(1) c2 by (cases xs) auto
  qed
  then have "chain ?h ((b # ys) @ xs @ [a])"
    by (metis append_Cons append_Nil append_assoc append_butlast_last_id list.distinct(1))
  then have "chain ?h (a # b # ys @ xs @ [a])" using l(2) by simp
  then show ?thesis using a b disj by (auto simp: ring_def)
qed

lemma detach_ring:
  assumes r: "ring h (b # zs)" and ne: "zs \<noteq> []"
  shows "ring (detach b h) zs" "ring (detach b h) [b]"
proof -
  let ?h = "detach b h"
  have e: "nxt h b = hd zs" "prev h b = last zs" using ring_ends [OF r] ne by auto
  have d: "distinct (b # zs)" using r by (simp add: ring_def)
  have nb: "last zs \<noteq> b" using d ne last_in_set by auto
  have h: "?h = h\<lparr>prev := (prev h)(hd zs := last zs, b := b), nxt := (nxt h)(last zs := hd zs, b := b)\<rparr>"
    using detach_eq [of h b] e nb by simp
  have "chain h (b # zs @ [b])" using r by (simp add: ring_def)
  then have "chain h (zs @ [b])" using ne by (cases zs) auto
  then have cz: "chain h zs" using chain_snoc [OF ne] by simp
  have bl: "last zs \<notin> set (butlast zs)" "hd zs \<notin> set (tl zs)"
    using d ne append_butlast_last_id [OF ne] by (metis distinct.simps(2) distinct_append disjoint_iff list.set_intros(1))
      (use d ne in \<open>cases zs; auto\<close>)
  have "chain ?h zs \<longleftrightarrow> chain h zs"
  proof (rule chain_cong)
    fix x assume "x \<in> set (butlast zs)"
    then have "x \<noteq> last zs" "x \<noteq> b" using bl d in_set_butlastD by fastforce+
    then show "nxt ?h x = nxt h x" unfolding h by simp
  next
    fix x assume "x \<in> set (tl zs)"
    then have "x \<noteq> hd zs" "x \<noteq> b" using bl d by (auto dest: list.set_sel(2) [OF ne])
    then show "prev ?h x = prev h x" unfolding h by simp
  qed
  then have "chain ?h zs" using cz by simp
  moreover have "linked ?h (last zs) (hd zs)" using nb d ne hd_in_set [OF ne] by (auto simp: linked_def h)
  ultimately have "chain ?h (zs @ [hd zs])"
    using chain_snoc [OF ne] by simp
  then show "ring ?h zs" using r ne by (auto simp: ring_def)
  have "b \<noteq> nullptr" using r by (auto simp: ring_def)
  then show "ring ?h [b]" by (simp add: ring_single h)
qed

text \<open>Nodes outside the rings that an operation touches keep their pointers.\<close>

lemma link_to_frame:
  assumes "ring h (a # xs)" "ring h (b # ys)" "set (a # xs) \<inter> set (b # ys) = {}"
    and "c \<notin> set (a # xs)" "c \<notin> set (b # ys)"
  shows "nxt (link_to a b h) c = nxt h c \<and> prev (link_to a b h) c = prev h c"
proof -
  have e: "nxt h a = hd (xs @ [a])" "prev h b = last (b # ys)"
    using ring_ends(1) [OF assms(1)] ring_ends(2) [OF assms(2)] by auto
  have m: "hd (xs @ [a]) \<in> set (a # xs)" "last (b # ys) \<in> set (b # ys)" by (cases xs; auto)+
  then have "b \<noteq> nxt h a" using e assms(3) by auto
  then show ?thesis using e m assms(4,5) by (auto simp: link_to_eq)
qed

lemma detach_frame:
  assumes r: "ring h (b # zs)" and ne: "zs \<noteq> []" and c: "c \<notin> set (b # zs)"
  shows "nxt (detach b h) c = nxt h c \<and> prev (detach b h) c = prev h c"
proof -
  have e: "nxt h b = hd zs" "prev h b = last zs" using ring_ends [OF r] ne by auto
  have "last zs \<noteq> b" using r ne last_in_set [OF ne] by (auto simp: ring_def)
  then show ?thesis using e c ne hd_in_set [OF ne] last_in_set [OF ne] by (auto simp: detach_eq)
qed

lemma detach_mid:
  assumes "ring h (xs @ b # ys)" "xs @ ys \<noteq> []"
  shows "ring (detach b h) (xs @ ys)" "ring (detach b h) [b]"
    "c \<notin> set (xs @ b # ys) \<Longrightarrow> nxt (detach b h) c = nxt h c \<and> prev (detach b h) c = prev h c"
proof -
  have r: "ring h (b # ys @ xs)" using ring_rotate [OF assms(1)] by simp
  have ne: "ys @ xs \<noteq> []" using assms(2) by auto
  show "ring (detach b h) (xs @ ys)" using ring_rotate detach_ring(1) [OF r ne] by blast
  show "ring (detach b h) [b]" by (rule detach_ring(2) [OF r ne])
  show "c \<notin> set (xs @ b # ys) \<Longrightarrow> nxt (detach b h) c = nxt h c \<and> prev (detach b h) c = prev h c"
    using detach_frame [OF r ne] by auto
qed

subsection \<open>The LRU list refines a list ordered by recency\<close>

text \<open>
  \<open>lru_rel U (l, h) xs\<close>: the nodes \<open>xs\<close> (most recently used first) hang off the head in this
  order, \<open>lru_size\<close> counts them, and every other node of the universe \<open>U\<close> is detached.
\<close>

definition lru_rel :: "addr set \<Rightarrow> lru \<times> heap \<Rightarrow> addr list \<Rightarrow> bool" where
  "lru_rel U s xs \<longleftrightarrow>
     ring (snd s) (lru_head (fst s) # xs) \<and> lru_size (fst s) = length xs \<and> set xs \<subseteq> U \<and>
     lru_head (fst s) \<notin> U \<and> (\<forall>a \<in> U - set xs. ring (snd s) [a])"

lemma lru_relD:
  assumes "lru_rel U (l, h) xs"
  shows "ring h (lru_head l # xs)" "lru_size l = length xs" "set xs \<subseteq> U" "lru_head l \<notin> U"
    "\<And>a. a \<in> U \<Longrightarrow> a \<notin> set xs \<Longrightarrow> ring h [a]" "distinct xs"
  using assms by (auto simp: lru_rel_def ring_def)

lemma ring_frame_single:
  "ring h [a] \<Longrightarrow> nxt h' a = nxt h a \<and> prev h' a = prev h a \<Longrightarrow> ring h' [a]"
  by (simp add: ring_single)

lemma lru_add_refines:
  assumes R: "lru_rel U (l, h) xs" and n: "n \<in> U" "n \<notin> set xs"
  shows "\<exists>s'. lru_add n at_head (l, h) = Some s' \<and> lru_rel U s' (if at_head then n # xs else xs @ [n])"
proof -
  note r = lru_relD [OF R]
  let ?hd = "lru_head l"
  let ?h = "if at_head then link_to ?hd n h else link_to n ?hd h"
  have rn: "ring h [n]" using r n by blast
  have disj: "set (?hd # xs) \<inter> set [n] = {}" using n r(4) by auto
  have ne: "node_empty h n" using rn by (simp add: ring_empty_iff)
  have ring': "ring ?h (?hd # (if at_head then n # xs else xs @ [n]))"
  proof (cases at_head)
    case True
    then show ?thesis using link_to_ring [OF r(1) rn disj] by simp
  next
    case False
    have "ring (link_to n ?hd h) (n # ?hd # xs)"
      using link_to_ring [OF rn r(1)] disj by auto
    then show ?thesis using ring_rotate1 False by fastforce
  qed
  have out: "ring ?h [a]" if a: "a \<in> U" "a \<notin> set xs" "a \<noteq> n" for a
  proof (rule ring_frame_single [OF r(5) [OF a(1,2)]])
    have "a \<noteq> ?hd" using a r(4) by auto
    then show "nxt ?h a = nxt h a \<and> prev ?h a = prev h a"
      using link_to_frame [OF r(1) rn disj, of a] link_to_frame [OF rn r(1), of a] disj a by auto
  qed
  have "lru_add n at_head (l, h) = Some (l\<lparr>lru_size := lru_size l + 1\<rparr>, ?h)"
    using ne by (simp add: lru_add_def)
  moreover have "lru_rel U (l\<lparr>lru_size := lru_size l + 1\<rparr>, ?h) (if at_head then n # xs else xs @ [n])"
  proof -
    have "\<forall>a \<in> U - set (if at_head then n # xs else xs @ [n]). ring ?h [a]"
      using out by (cases at_head) auto
    then show ?thesis using ring' r(2-4) n by (cases at_head) (simp_all add: lru_rel_def)
  qed
  ultimately show ?thesis by blast
qed

lemma lru_promote_refines:
  assumes R: "lru_rel U (l, h) xs" and n: "n \<in> set xs"
  shows "\<exists>s'. lru_promote n (l, h) = Some s' \<and> lru_rel U s' (n # remove1 n xs)"
proof -
  note r = lru_relD [OF R]
  let ?hd = "lru_head l"
  obtain ys zs where xs: "xs = ys @ n # zs" using n by (meson split_list)
  have ny: "n \<notin> set ys" using r(6) xs by auto
  have rm: "remove1 n xs = ys @ zs" using ny xs by (simp add: remove1_append)
  have r1: "ring h ((?hd # ys) @ n # zs)" using r(1) xs by simp
  note d = detach_mid [OF r1, simplified]
  let ?h1 = "detach n h" and ?h2 = "link_to ?hd n (detach n h)"
  have nhd: "n \<noteq> ?hd" using n r by auto
  have nemp: "\<not> node_empty h n"
    using ring_rotate [OF r1] ring_empty_iff [of h n "zs @ ?hd # ys"] by simp
  have disj: "set (?hd # ys @ zs) \<inter> set [n] = {}" using nhd r(6) xs by auto
  have ring': "ring ?h2 (?hd # n # ys @ zs)" using link_to_ring [OF d(1) d(2) disj] by simp
  have out: "ring ?h2 [a]" if a: "a \<in> U" "a \<notin> set xs" for a
  proof (rule ring_frame_single [OF r(5) [OF a]])
    have "a \<noteq> ?hd" using a r(4) by auto
    then show "nxt ?h2 a = nxt h a \<and> prev ?h2 a = prev h a"
      using link_to_frame [OF d(1) d(2) disj, of a] d(3) [of a] a xs by auto
  qed
  have "lru_promote n (l, h) = Some (l, ?h2)" using nemp by (simp add: lru_promote_def)
  moreover have "lru_rel U (l, ?h2) (n # remove1 n xs)"
    using ring' r n out xs rm by (auto simp: lru_rel_def)
  ultimately show ?thesis by blast
qed

lemma lru_evict_refines:
  assumes R: "lru_rel U (l, h) xs" and ne: "xs \<noteq> []"
  shows "\<exists>s'. lru_evict (l, h) = Some (last xs, s') \<and> lru_rel U s' (butlast xs)"
proof -
  note r = lru_relD [OF R]
  let ?hd = "lru_head l" and ?n = "last xs"
  have xs: "xs = butlast xs @ [?n]" using ne by simp
  have r1: "ring h ((?hd # butlast xs) @ ?n # [])" using r(1) xs by simp
  note d = detach_mid [OF r1, simplified]
  have p: "prev h ?hd = ?n" using ring_ends(2) [OF r(1)] ne by simp
  have "\<not> node_empty h ?hd" using ring_empty_iff [OF r(1)] ne by simp
  then have e: "lru_evict (l, h) = Some (?n, l\<lparr>lru_size := lru_size l - 1\<rparr>, detach ?n h)"
    using p by (simp add: lru_evict_def Let_def)
  have out: "ring (detach ?n h) [a]" if a: "a \<in> U" "a \<notin> set (butlast xs)" for a
  proof (cases "a = ?n")
    case False
    then have "a \<notin> set xs" using a xs by (metis Un_iff empty_iff insert_iff list.set(1) list.set(2) set_append)
    moreover have "a \<noteq> ?hd" using a r(4) by auto
    ultimately show ?thesis using ring_frame_single [OF r(5) [OF a(1)]] d(3) [of a] a False by auto
  qed (use d(2) in simp)
  have sub: "set (butlast xs) \<subseteq> U" using r(3) in_set_butlastD by fastforce
  have "lru_rel U (l\<lparr>lru_size := lru_size l - 1\<rparr>, detach ?n h) (butlast xs)"
    using d(1) r(2,4) sub out ne by (simp add: lru_rel_def)
  then show ?thesis using e by blast
qed

subsection \<open>The interface of a recency list\<close>

text \<open>
  What the expert cache relies on: a recency list offers \<open>add\<close>, \<open>promote\<close> and \<open>evict\<close> over
  some state, related by \<open>rel\<close> to the list of its nodes, most recent first.  The client's
  facts are proved once from the laws: bounded insertion, the way \<open>allocate_buffer\<close> uses the
  list, and promotion after insertion.
\<close>

locale recency_list =
  fixes rel :: "'s \<Rightarrow> 'a list \<Rightarrow> bool"
    and univ :: "'a set"
    and add :: "'a \<Rightarrow> 's \<Rightarrow> 's option"
    and promote :: "'a \<Rightarrow> 's \<Rightarrow> 's option"
    and evict :: "'s \<Rightarrow> ('a \<times> 's) option"
    and size_of :: "'s \<Rightarrow> nat"
  assumes add_ok: "rel s xs \<Longrightarrow> n \<in> univ \<Longrightarrow> n \<notin> set xs \<Longrightarrow> \<exists>s'. add n s = Some s' \<and> rel s' (n # xs)"
    and promote_ok: "rel s xs \<Longrightarrow> n \<in> set xs \<Longrightarrow> \<exists>s'. promote n s = Some s' \<and> rel s' (n # remove1 n xs)"
    and evict_ok: "rel s xs \<Longrightarrow> xs \<noteq> [] \<Longrightarrow> \<exists>s'. evict s = Some (last xs, s') \<and> rel s' (butlast xs)"
    and size_ok: "rel s xs \<Longrightarrow> size_of s = length xs"
    and rel_wf: "rel s xs \<Longrightarrow> distinct xs \<and> set xs \<subseteq> univ"
begin

lemma evict_add:
  assumes "rel s xs" "xs \<noteq> []" "n \<in> univ" "n \<notin> set xs"
  obtains s1 s2 where "evict s = Some (last xs, s1)" "add n s1 = Some s2" "rel s2 (n # butlast xs)"
proof -
  obtain s1 where s1: "evict s = Some (last xs, s1)" "rel s1 (butlast xs)" using evict_ok assms by blast
  have "n \<notin> set (butlast xs)" using assms(4) in_set_butlastD by fastforce
  then show ?thesis using that s1 add_ok assms(3) by blast
qed

lemma add_promote:
  assumes "rel s xs" "n \<in> univ" "n \<notin> set xs"
  obtains s1 s2 where "add n s = Some s1" "promote n s1 = Some s2" "rel s2 (n # xs)"
proof -
  obtain s1 where s1: "add n s = Some s1" "rel s1 (n # xs)" using add_ok assms by blast
  then obtain s2 where "promote n s1 = Some s2" "rel s2 (n # remove1 n (n # xs))"
    using promote_ok [of s1 "n # xs" n] by auto
  then show ?thesis using that s1 by simp
qed

lemma promote_perm:
  assumes "rel s xs" "n \<in> set xs" "promote n s = Some s'"
  shows "rel s' (n # remove1 n xs)" "set (n # remove1 n xs) = set xs"
    "length (n # remove1 n xs) = length xs" "hd (n # remove1 n xs) = n"
proof -
  show "rel s' (n # remove1 n xs)" using promote_ok [OF assms(1,2)] assms(3) by auto
  show "set (n # remove1 n xs) = set xs" using assms(2) rel_wf [OF assms(1)] by (auto simp: set_remove1_eq)
  show "length (n # remove1 n xs) = length xs" using assms(2)
    by (metis One_nat_def Suc_pred length_Cons length_pos_if_in_set length_remove1)
qed simp

end

interpretation az_lru: recency_list "lru_rel U" U "\<lambda>n. lru_add n True" lru_promote lru_evict
  "\<lambda>s. lru_size (fst s)" for U
proof unfold_locales
  fix s :: "lru \<times> heap" and xs and n :: addr
  obtain l h where s: "s = (l, h)" by (cases s)
  show "lru_rel U s xs \<Longrightarrow> n \<in> U \<Longrightarrow> n \<notin> set xs \<Longrightarrow> \<exists>s'. lru_add n True s = Some s' \<and> lru_rel U s' (n # xs)"
    using lru_add_refines [of U l h xs n True] s by simp
  show "lru_rel U s xs \<Longrightarrow> n \<in> set xs \<Longrightarrow> \<exists>s'. lru_promote n s = Some s' \<and> lru_rel U s' (n # remove1 n xs)"
    using lru_promote_refines s by simp
  show "lru_rel U s xs \<Longrightarrow> xs \<noteq> [] \<Longrightarrow> \<exists>s'. lru_evict s = Some (last xs, s') \<and> lru_rel U s' (butlast xs)"
    using lru_evict_refines s by simp
  show "lru_rel U s xs \<Longrightarrow> lru_size (fst s) = length xs" by (simp add: lru_rel_def)
  show "lru_rel U s xs \<Longrightarrow> distinct xs \<and> set xs \<subseteq> U" by (auto simp: lru_rel_def ring_def)
qed

subsection \<open>Properties\<close>

text \<open>
  \<open>only_touches A h h'\<close>: the two pointers of every node outside \<open>A\<close> are the same in both
  heaps.  Each operation of the list touches at most the head, the node it is called with and
  the nodes that hang off the head; the nodes of any other list of the heap keep their pointers.
\<close>

definition only_touches :: "addr set \<Rightarrow> heap \<Rightarrow> heap \<Rightarrow> bool" where
  "only_touches A h h' \<longleftrightarrow> (\<forall>c. c \<notin> A \<longrightarrow> nxt h' c = nxt h c \<and> prev h' c = prev h c)"

lemma lru_add_frame:
  assumes R: "lru_rel U (l, h) xs" and n: "n \<in> U" "n \<notin> set xs"
    and s: "lru_add n at_head (l, h) = Some (l', h')"
  shows "lru_head l' = lru_head l \<and> only_touches (insert (lru_head l) (insert n (set xs))) h h'"
proof -
  note r = lru_relD [OF R]
  have rn: "ring h [n]" using r n by blast
  have d: "set (lru_head l # xs) \<inter> set [n] = {}" "set [n] \<inter> set (lru_head l # xs) = {}"
    using n r(4) by auto
  show ?thesis
    using s link_to_frame [OF r(1) rn d(1)] link_to_frame [OF rn r(1) d(2)]
    by (auto simp: lru_add_def only_touches_def split: if_splits)
qed

lemma lru_promote_frame:
  assumes R: "lru_rel U (l, h) xs" and n: "n \<in> set xs"
    and s: "lru_promote n (l, h) = Some (l', h')"
  shows "lru_head l' = lru_head l \<and> only_touches (insert (lru_head l) (set xs)) h h'"
proof -
  note r = lru_relD [OF R]
  obtain ys zs where xs: "xs = ys @ n # zs" using n by (meson split_list)
  have r1: "ring h ((lru_head l # ys) @ n # zs)" using r(1) xs by simp
  note d = detach_mid [OF r1, simplified]
  have disj: "set (lru_head l # ys @ zs) \<inter> set [n] = {}" using r(3,4,6) n xs by auto
  have h': "l' = l" "h' = link_to (lru_head l) n (detach n h)"
    using s by (auto simp: lru_promote_def split: if_splits)
  show ?thesis using link_to_frame [OF d(1) d(2) disj] d(3) h'
    by (auto simp: only_touches_def xs)
qed

lemma lru_evict_frame:
  assumes R: "lru_rel U (l, h) xs" and ne: "xs \<noteq> []"
    and s: "lru_evict (l, h) = Some (n, l', h')"
  shows "lru_head l' = lru_head l \<and> only_touches (insert (lru_head l) (set xs)) h h'"
proof -
  note r = lru_relD [OF R]
  have xs: "xs = butlast xs @ [last xs]" using ne by simp
  have r1: "ring h ((lru_head l # butlast xs) @ last xs # [])" using r(1) xs by simp
  have p: "prev h (lru_head l) = last xs" using ring_ends(2) [OF r(1)] ne by simp
  have e: "l' = l\<lparr>lru_size := lru_size l - 1\<rparr>" "h' = detach (last xs) h"
    using s p by (auto simp: lru_evict_def Let_def split: if_splits)
  have "set ((lru_head l # butlast xs) @ last xs # []) = insert (lru_head l) (set xs)"
    using arg_cong [OF xs, of set] by auto
  then show ?thesis using detach_mid(3) [OF r1] e by (auto simp: only_touches_def)
qed

text \<open>
  C32: the pointer-level LRU list (\<open>LRU::add\<close>, \<open>promote\<close>, \<open>evict\<close> over \<open>ListNode::link_to\<close>
  and \<open>detach\<close>) refines a list ordered by recency.  In a heap where the nodes \<open>xs\<close> hang off
  the head, adding a detached node succeeds and puts it first (or last, with \<open>at_head\<close> false),
  promoting a node of the list moves it to the front, evicting from a list that is not empty
  returns the last node, and \<open>size\<close> counts the nodes throughout.  The head stays the same, and
  no pointer of a node that is neither the head, nor the added node, nor on the list changes.
\<close>

theorem lru_refines_recency_list:
  assumes "lru_rel U s xs"
  shows "(n \<in> U \<and> n \<notin> set xs \<longrightarrow>
      (\<exists>s'. lru_add n at_head s = Some s' \<and> lru_rel U s' (if at_head then n # xs else xs @ [n]) \<and>
        lru_head (fst s') = lru_head (fst s) \<and>
        only_touches (insert (lru_head (fst s)) (insert n (set xs))) (snd s) (snd s')))
    \<and> (n \<in> set xs \<longrightarrow>
      (\<exists>s'. lru_promote n s = Some s' \<and> lru_rel U s' (n # remove1 n xs) \<and>
        lru_head (fst s') = lru_head (fst s) \<and>
        only_touches (insert (lru_head (fst s)) (set xs)) (snd s) (snd s')))
    \<and> (xs \<noteq> [] \<longrightarrow>
      (\<exists>s'. lru_evict s = Some (last xs, s') \<and> lru_rel U s' (butlast xs) \<and>
        lru_head (fst s') = lru_head (fst s) \<and>
        only_touches (insert (lru_head (fst s)) (set xs)) (snd s) (snd s')))
    \<and> lru_size (fst s) = length xs"
proof -
  obtain l h where s: "s = (l, h)" by (cases s)
  note R = assms [unfolded s]
  show ?thesis unfolding s
  proof (intro conjI impI)
    assume n: "n \<in> U \<and> n \<notin> set xs"
    show "\<exists>s'. lru_add n at_head (l, h) = Some s' \<and> lru_rel U s' (if at_head then n # xs else xs @ [n]) \<and>
        lru_head (fst s') = lru_head (fst (l, h)) \<and>
        only_touches (insert (lru_head (fst (l, h))) (insert n (set xs))) (snd (l, h)) (snd s')"
      using lru_add_refines [OF R, of n at_head] lru_add_frame [OF R, of n at_head] n by fastforce
  next
    assume n: "n \<in> set xs"
    show "\<exists>s'. lru_promote n (l, h) = Some s' \<and> lru_rel U s' (n # remove1 n xs) \<and>
        lru_head (fst s') = lru_head (fst (l, h)) \<and>
        only_touches (insert (lru_head (fst (l, h))) (set xs)) (snd (l, h)) (snd s')"
      using az_lru.promote_ok [OF R n] lru_promote_frame [OF R n] by fastforce
  next
    assume n: "xs \<noteq> []"
    show "\<exists>s'. lru_evict (l, h) = Some (last xs, s') \<and> lru_rel U s' (butlast xs) \<and>
        lru_head (fst s') = lru_head (fst (l, h)) \<and>
        only_touches (insert (lru_head (fst (l, h))) (set xs)) (snd (l, h)) (snd s')"
      using az_lru.evict_ok [OF R n] lru_evict_frame [OF R n] by fastforce
  next
    show "lru_size (fst (l, h)) = length xs" using az_lru.size_ok [OF R] by simp
  qed
qed

definition demo_heap :: heap where
  "demo_heap = node_init 1 (node_init 2 (node_init 3 \<lparr>prev = (\<lambda>_. nullptr), nxt = (\<lambda>_. nullptr)\<rparr>))"

lemma demo_heap_rel: "lru_rel {2, 3} (\<lparr>lru_size = 0, lru_head = 1\<rparr>, demo_heap) []"
  by (auto simp: lru_rel_def ring_single demo_heap_def node_init_def node_defs)

lemma demo_heap_rel2:
  "lru_rel {2, 3} (\<lparr>lru_size = 2, lru_head = 1\<rparr>, link_to 1 3 (link_to 1 2 demo_heap)) [3, 2]"
  by (simp add: lru_rel_def ring_def linked_def link_to_def demo_heap_def node_init_def node_defs)

theorem lru_refines_recency_list_witness:
  "(\<exists>s'. lru_promote 2 (\<lparr>lru_size = 2, lru_head = 1\<rparr>, link_to 1 3 (link_to 1 2 demo_heap)) = Some s' \<and>
      lru_rel {2, 3} s' [2, 3]) \<and>
   (\<exists>s'. lru_evict (\<lparr>lru_size = 2, lru_head = 1\<rparr>, link_to 1 3 (link_to 1 2 demo_heap)) = Some (2, s') \<and>
      lru_rel {2, 3} s' [3] \<and>
      only_touches {1, 2, 3} (link_to 1 3 (link_to 1 2 demo_heap)) (snd s'))"
  using lru_refines_recency_list [OF demo_heap_rel2, of 2 True] by (auto simp: insert_commute)

lemma node_move_ring:
  assumes r: "ring h (other # xs)" and fr: "this \<notin> set (other # xs)" "this \<noteq> nullptr"
  shows "ring (node_move this other h) (this # xs)"
    "nxt (node_move this other h) other = nullptr" "prev (node_move this other h) other = nullptr"
proof -
  let ?h = "node_move this other h"
  show "nxt ?h other = nullptr" "prev ?h other = nullptr"
    by (simp_all add: node_move_def node_defs Let_def)
  show "ring ?h (this # xs)"
  proof (cases "xs = []")
    case True
    then show ?thesis using r fr ring_empty_iff [OF r]
      by (simp add: ring_single node_move_def node_defs Let_def)
  next
    case False
    have e: "nxt h other = hd xs" "prev h other = last xs" using ring_ends [OF r] False by auto
    have m: "hd xs \<in> set xs" "last xs \<in> set xs" using False by auto
    have d: "distinct (other # xs)" using r by (simp add: ring_def)
    have h: "?h = h\<lparr>prev := (prev h)(this := last xs, hd xs := this, other := nullptr),
                  nxt := (nxt h)(this := hd xs, last xs := this, other := nullptr)\<rparr>"
      using ring_empty_iff [OF r] False e m fr d
      by (auto simp: node_move_def node_defs Let_def)
    have c0: "chain h (xs @ [other])" using r False by (cases xs) (auto simp: ring_def)
    have bl: "last xs \<notin> set (butlast xs)" "hd xs \<notin> set (tl xs)"
      using d False append_butlast_last_id [OF False]
      by (metis distinct.simps(2) distinct_append disjoint_iff list.set_intros(1))
        (use d False in \<open>cases xs; auto\<close>)
    have "chain ?h xs \<longleftrightarrow> chain h xs"
    proof (rule chain_cong)
      fix x assume "x \<in> set (butlast xs)"
      then have "x \<noteq> last xs" "x \<in> set xs" using bl in_set_butlastD by fastforce+
      then show "nxt ?h x = nxt h x" using fr(1) d unfolding h by auto
    next
      fix x assume "x \<in> set (tl xs)"
      then have "x \<noteq> hd xs" "x \<in> set xs" using bl False by (auto dest: list.set_sel(2) [OF False])
      then show "prev ?h x = prev h x" using fr(1) d unfolding h by auto
    qed
    then have "chain ?h xs" using c0 chain_snoc [OF False] by simp
    moreover have "linked ?h (last xs) this" "linked ?h this (hd xs)"
      using m d fr(1) by (auto simp: linked_def h)
    ultimately have "chain ?h ((this # xs) @ [this])"
      using chain_snoc [OF False] False by (cases xs) auto
    then show ?thesis using r fr by (simp add: ring_def)
  qed
qed

text \<open>
  \<open>ListNode::move_to\<close> is \<open>detach\<close> followed by \<open>link_to\<close>, as its comment says, for a
  node at any place of any ring (its own one included) and any other target node.
\<close>

theorem move_to_is_detach_link_to:
  assumes "ring h (xs @ this # ys)" "this \<noteq> other"
  shows "move_to this other h = link_to this other (detach this h)"
proof -
  have r: "ring h (this # ys @ xs)" using ring_rotate [OF assms(1)] by simp
  have e: "nxt h this = hd (ys @ xs @ [this])" "prev h this = last (this # ys @ xs)"
    using ring_ends [OF r] by auto
  show ?thesis
  proof (cases "ys @ xs = []")
    case True
    then have "nxt h this = this" "prev h this = this" using e by auto
    then show ?thesis using assms(2)
      by (simp add: move_to_def link_to_def detach_def node_defs Let_def)
  next
    case False
    have "this \<notin> set (ys @ xs)" using r by (auto simp: ring_def)
    moreover have "prev h this \<in> set (ys @ xs)" using e(2) False last_in_set [OF False] by simp
    ultimately have "prev h this \<noteq> this" by auto
    then show ?thesis using assms(2)
      by (simp add: move_to_def link_to_def detach_eq node_defs Let_def fun_upd_def fun_eq_iff)
  qed
qed

theorem move_to_is_detach_link_to_witness:
  "move_to 2 1 demo_heap = link_to 2 1 (detach 2 demo_heap)"
proof (rule move_to_is_detach_link_to)
  show "ring demo_heap ([] @ 2 # [])"
    by (simp add: ring_single demo_heap_def node_init_def node_defs)
qed simp

end
