(* ===== verification/Az_Core.thy ===== *)
theory Az_Core
  imports Prelude
begin

text \<open>
  The worker utilities of \<open>libaz/az/core\<close>: the distribution of items over workers
  (\<open>utils.cpp\<close>), the row-major index of \<open>layout.hpp\<close>, the size rounding of
  \<open>aligned_alloc.cpp\<close>, and the spin barrier (\<open>spin_barrier.cpp\<close>) as a step relation in
  which any thread may run its next atomic operation.  \<open>size_t\<close> arithmetic that can wrap is
  written with \<open>sub64\<close>, \<open>add64\<close> and \<open>mul64\<close>, modulo \<open>2 ^ 64\<close>.
\<close>

definition add64 :: "nat \<Rightarrow> nat \<Rightarrow> nat" where "add64 a b = (a + b) mod 2 ^ 64"
definition mul64 :: "nat \<Rightarrow> nat \<Rightarrow> nat" where "mul64 a b = (a * b) mod 2 ^ 64"
definition sub64 :: "nat \<Rightarrow> nat \<Rightarrow> nat" where
  "sub64 a b = (if b \<le> a then a - b else (2 ^ 64 + a - b) mod 2 ^ 64)"

subsection \<open>distribute_items\<close>

record range =
  offset :: nat
  count :: nat

definition distribute_items :: "nat \<Rightarrow> nat \<Rightarrow> nat \<Rightarrow> nat \<Rightarrow> range option" where
  "distribute_items n_items n_workers worker_id block_size =
     (if \<not> worker_id < n_workers \<or> block_size = 0 then None
      else let n_blocks = sub64 (add64 n_items block_size) 1 div block_size;
               n_blocks_per_worker = n_blocks div n_workers;
               n_remain_blocks = n_blocks mod n_workers;
               offset = mul64 n_blocks_per_worker worker_id;
               count = n_blocks_per_worker;
               (offset, count) =
                 (if worker_id < n_remain_blocks then (add64 offset worker_id, add64 count 1)
                  else (add64 offset n_remain_blocks, count));
               offset = mul64 offset block_size
           in Some \<lparr>offset = offset, count = min (sub64 n_items offset) (mul64 count block_size)\<rparr>)"

definition range_first :: "range \<Rightarrow> nat" where "range_first r = offset r"

definition range_end :: "range \<Rightarrow> nat" where
  "range_end r = add64 (sub64 (add64 (offset r) (count r)) 1) 1"

definition range_items :: "range option \<Rightarrow> nat list" where
  "range_items r = (case r of None \<Rightarrow> [] | Some r \<Rightarrow> [offset r ..< offset r + count r])"

text \<open>The first block of a worker, and the blocks it gets.\<close>

definition first_block :: "nat \<Rightarrow> nat \<Rightarrow> nat \<Rightarrow> nat" where
  "first_block nb nw w = nb div nw * w + min w (nb mod nw)"

lemma first_block_Suc:
  "first_block nb nw (Suc w) = first_block nb nw w + nb div nw + (if w < nb mod nw then 1 else 0)"
  by (simp add: first_block_def algebra_simps)

lemma first_block_last: "0 < nw \<Longrightarrow> first_block nb nw nw = nb"
  by (simp add: first_block_def)

lemma first_block_mono: "w \<le> w' \<Longrightarrow> first_block nb nw w \<le> first_block nb nw w'"
  by (rule lift_Suc_mono_le [of "first_block nb nw"]) (simp_all add: first_block_Suc)

lemma upt_split_at: "i \<le> j \<Longrightarrow> j \<le> k \<Longrightarrow> [i ..< j] @ [j ..< k] = [i ..< (k :: nat)]"
  by (metis le_add_diff_inverse upt_add_eq_append)

lemma upt_min_concat:
  assumes "\<And>w. f w \<le> f (Suc w)"
  shows "concat (map (\<lambda>w. [f w ..< f (Suc w)]) [0 ..< n]) = [f 0 ..< f n]"
proof (induction n)
  case (Suc n)
  have "f 0 \<le> f n" by (rule lift_Suc_mono_le [of f, OF assms]) simp
  then show ?case using Suc.IH assms [of n] by (simp add: upt_split_at)
qed simp

lemma div_round_up_bounds:
  assumes "0 < (b :: nat)"
  shows "n \<le> (n + b - 1) div b * b" "(n + b - 1) div b * b < n + b"
proof -
  have "(n + b - 1) div b * b + (n + b - 1) mod b = n + b - 1" by (rule div_mult_mod_eq)
  moreover have "(n + b - 1) mod b < b" using assms by simp
  ultimately show "n \<le> (n + b - 1) div b * b" "(n + b - 1) div b * b < n + b"
    using assms by linarith+
qed

lemma distribute_items_range:
  assumes "w < nw" "0 < bs" "n + bs < 2 ^ 64" and nb: "nb = (n + bs - 1) div bs"
  shows "range_items (distribute_items n nw w bs) =
    [min n (first_block nb nw w * bs) ..< min n (first_block nb nw (Suc w) * bs)]"
proof -
  let ?s = "first_block nb nw w" and ?c = "nb div nw + (if w < nb mod nw then 1 else 0)"
  have nb': "sub64 (add64 n bs) 1 div bs = nb"
    using assms by (simp add: sub64_def add64_def)
  have le: "first_block nb nw (Suc w) \<le> nb"
    using first_block_mono [of "Suc w" nw nb nw] first_block_last [of nw nb] assms(1) by simp
  then have sc: "?s + ?c \<le> nb" by (simp add: first_block_Suc)
  have nbs: "nb * bs < n + bs" "n \<le> nb * bs" using div_round_up_bounds [OF assms(2), of n] nb by auto
  have big: "x * bs < 2 ^ 64" if "x \<le> nb" for x
    using mult_right_mono [OF that, of bs] nbs assms(3) by linarith
  have small: "x < 2 ^ 64" if "x \<le> nb" for x
  proof -
    have "x * 1 \<le> x * bs" using assms(2) by (intro mult_le_mono2) simp
    then show ?thesis using big [OF that] by linarith
  qed
  have d: "distribute_items n nw w bs =
      Some \<lparr>offset = ?s * bs, count = min (sub64 n (?s * bs)) (?c * bs)\<rparr>"
  proof -
    have m: "mul64 (nb div nw) w = nb div nw * w"
      using small [of "nb div nw * w"] sc by (simp add: mul64_def first_block_def)
    have a: "(if w < nb mod nw then add64 (nb div nw * w) w else add64 (nb div nw * w) (nb mod nw)) = ?s"
      using small [of ?s] sc by (auto simp: add64_def first_block_def min_def)
    have c: "add64 (nb div nw) 1 = nb div nw + 1" if "w < nb mod nw"
      using small [of "nb div nw + 1"] sc that by (simp add: add64_def)
    have t: "mul64 ?s bs = ?s * bs" "mul64 ?c bs = ?c * bs"
      using big [of ?s] big [of ?c] sc by (simp_all add: mul64_def)
    show ?thesis using assms(1,2) m a c t
      by (cases "w < nb mod nw") (simp_all add: distribute_items_def nb' [unfolded One_nat_def] Let_def)
  qed
  show ?thesis
  proof (cases "?s * bs \<le> n")
    case True
    have "(?s + ?c) * bs = ?s * bs + ?c * bs" by (simp add: algebra_simps)
    then have "?s * bs + min (n - ?s * bs) (?c * bs) = min n (first_block nb nw (Suc w) * bs)"
      using True first_block_Suc [of nb nw w] by (simp only: add.assoc)
    then show ?thesis using True by (simp add: d range_items_def sub64_def min_def)
  next
    case False
    have "\<not> ?s < nb"
    proof
      assume "?s < nb"
      then have "(?s + 1) * bs \<le> nb * bs" by (intro mult_le_mono1) simp
      then show False using False nbs by (simp add: algebra_simps)
    qed
    then have "?c = 0" using sc by linarith
    then have "first_block nb nw (Suc w) = ?s" by (simp add: first_block_Suc split: if_splits)
    then show ?thesis using False \<open>?c = 0\<close> by (simp add: d range_items_def min_def)
  qed
qed

text \<open>
  \<open>distribute_items\<close> partitions the items: the ranges of workers \<open>0, 1, ...\<close>, laid one
  after the other, are exactly \<open>0 ..< n_items\<close>, for every block size and worker count, also
  when some workers get nothing and the subtraction \<open>n_items - offset\<close> wraps.
\<close>

theorem distribute_items_partition:
  assumes "0 < n_workers" "0 < block_size" "n_items + block_size < 2 ^ 64"
  shows "concat (map (\<lambda>w. range_items (distribute_items n_items n_workers w block_size)) [0 ..< n_workers])
    = [0 ..< n_items]"
proof -
  let ?nb = "(n_items + block_size - 1) div block_size"
  let ?f = "\<lambda>w. min n_items (first_block ?nb n_workers w * block_size)"
  have "concat (map (\<lambda>w. range_items (distribute_items n_items n_workers w block_size)) [0 ..< n_workers])
      = concat (map (\<lambda>w. [?f w ..< ?f (Suc w)]) [0 ..< n_workers])"
    using distribute_items_range [OF _ assms(2,3) refl] by (intro arg_cong [where f = concat] map_cong) auto
  also have "\<dots> = [?f 0 ..< ?f n_workers]"
    by (rule upt_min_concat [of ?f])
      (meson first_block_mono lessI less_imp_le min.mono mult_le_mono1 order_refl)
  also have "\<dots> = [0 ..< n_items]"
    using first_block_last [OF assms(1)] div_round_up_bounds(1) [OF assms(2), of n_items]
    by (simp add: first_block_def min_def)
  finally show ?thesis .
qed

theorem distribute_items_partition_witness:
  "concat (map (\<lambda>w. range_items (distribute_items 10 4 w 4)) [0 ..< 4]) = [0 ..< 10]"
  by (rule distribute_items_partition) simp_all

subsection \<open>Layout and alignment\<close>

text \<open>
  \<open>Layout<N>::index\<close>: the given coordinates are checked against their dimensions, the missing
  ones count as 0.  \<open>None\<close> is the failed assertion.
\<close>

fun layout_index_from :: "nat list \<Rightarrow> nat list \<Rightarrow> nat \<Rightarrow> nat option" where
  "layout_index_from (d # ds) (v # vs) ret = (if v < d then layout_index_from ds vs (ret * d + v) else None)"
| "layout_index_from ds [] ret = Some (foldl (\<lambda>r d. r * d) ret ds)"
| "layout_index_from [] (v # vs) ret = None"

definition layout_index :: "nat list \<Rightarrow> nat list \<Rightarrow> nat option" where
  "layout_index dims args = layout_index_from dims args 0"

definition layout_init :: "nat \<Rightarrow> nat list \<Rightarrow> nat list" where
  "layout_init n args = args @ replicate (n - length args) 1"

lemma layout_index_from_bounds:
  assumes "layout_index_from ds vs r = Some i" "length vs = length ds"
  shows "r * prod_list ds \<le> i \<and> i < (r + 1) * prod_list ds"
  using assms
proof (induction ds vs r rule: layout_index_from.induct)
  case (1 d ds v vs ret)
  then have b: "(ret * d + v) * prod_list ds \<le> i" "i < (ret * d + v + 1) * prod_list ds" and v: "v < d"
    by (auto split: if_splits)
  have "(ret * d + v + 1) * prod_list ds \<le> ((ret + 1) * d) * prod_list ds"
    using v by (intro mult_le_mono1) simp
  then show ?case using b by (simp add: algebra_simps)
qed auto

lemma layout_index_from_inj:
  assumes "layout_index_from ds vs r = Some i" "layout_index_from ds us s = Some i"
    "length vs = length ds" "length us = length ds"
  shows "r = s \<and> vs = us"
  using assms
proof (induction ds vs r arbitrary: us s rule: layout_index_from.induct)
  case (1 d ds v vs ret)
  then obtain u us' where us: "us = u # us'" by (cases us) auto
  from 1(2) have v: "v < d" "layout_index_from ds vs (ret * d + v) = Some i" by (simp_all split: if_splits)
  from 1(3) us have u: "u < d" "layout_index_from ds us' (s * d + u) = Some i" by (simp_all split: if_splits)
  have e: "ret * d + v = s * d + u" "vs = us'" using 1(1) [OF v u(2)] 1(4,5) us by simp_all
  note vd = v(1) u(1)
  have "(ret * d + v) div d = ret" "(s * d + u) div d = s" using vd by auto
  then show ?case using e us by auto
next
  case (2 ds ret)
  then show ?case by simp
qed auto

text \<open>
  \<open>Layout::index\<close> is a row-major numbering: with one coordinate per dimension it stays
  below the number of elements, and different coordinates get different indices.
\<close>

theorem layout_index_bounded_injective:
  assumes "length vs = length dims" "length us = length dims"
    and "layout_index dims vs = Some i" "layout_index dims us = Some j"
  shows "i < prod_list dims \<and> (i = j \<longleftrightarrow> vs = us)"
proof -
  have e: "layout_index_from dims vs 0 = Some i" "layout_index_from dims us 0 = Some j"
    using assms(3,4) by (simp_all only: layout_index_def)
  have "i < prod_list dims" using layout_index_from_bounds [OF e(1) assms(1)] by simp
  moreover have "vs = us" if "i = j"
    using layout_index_from_inj [OF e(1) _ assms(1,2)] e(2) that by blast
  moreover have "i = j" if "vs = us" using e that by simp
  ultimately show ?thesis by blast
qed

theorem layout_index_bounded_injective_witness:
  "(5 :: nat) < prod_list [2, 3] \<and> ((5 :: nat) = 3 \<longleftrightarrow> [1, 2 :: nat] = [1, 0])"
  by (rule layout_index_bounded_injective [of "[1, 2]" "[2, 3]" "[1, 0]"])
    (simp_all add: layout_index_def)

definition aligned_size :: "nat \<Rightarrow> nat \<Rightarrow> nat" where
  "aligned_size alignment sz =
     (let remainder = sz mod alignment
      in if remainder \<noteq> 0 then sz + (alignment - remainder) else sz)"

lemma aligned_size_least:
  assumes "0 < a"
  shows "a dvd aligned_size a n" "n \<le> aligned_size a n" "aligned_size a n < n + a"
proof -
  have r: "n mod a < a" using assms by simp
  have "n div a * a + n mod a = n" by (rule div_mult_mod_eq)
  then have "n + (a - n mod a) = n div a * a + a" using r by linarith
  then have "n + (a - n mod a) = (n div a + 1) * a" by (simp add: algebra_simps)
  then show "a dvd aligned_size a n" by (auto simp: aligned_size_def Let_def)
  show "n \<le> aligned_size a n" "aligned_size a n < n + a" using assms r by (auto simp: aligned_size_def Let_def)
qed

subsection \<open>SpinBarrier\<close>

text \<open>
  \<open>wait()\<close> is two atomic accesses: the \<open>fetch_add\<close> that computes the target, then loads of
  the counter until it has reached the target.  A thread is outside (\<open>None\<close>) or spins for its
  target (\<open>Some t\<close>).  \<open>arrived\<close> and \<open>passed\<close> are ghost counters: how many times the thread
  has entered and left \<open>wait()\<close>.
\<close>

record barrier =
  width :: nat
  bcount :: nat
  spin :: "nat \<Rightarrow> nat option"
  arrived :: "nat \<Rightarrow> nat"
  passed :: "nat \<Rightarrow> nat"

definition barrier_init :: "nat \<Rightarrow> barrier" where
  "barrier_init new_width = \<lparr>width = new_width, bcount = 0, spin = (\<lambda>_. None), arrived = (\<lambda>_. 0), passed = (\<lambda>_. 0)\<rparr>"

definition wait_target :: "nat \<Rightarrow> nat \<Rightarrow> nat" where
  "wait_target current w = (current div w + 1) * w"

inductive barrier_step :: "barrier \<Rightarrow> barrier \<Rightarrow> bool" where
  arrive: "\<lbrakk>i < width b; spin b i = None; 0 < width b\<rbrakk> \<Longrightarrow>
    barrier_step b (b\<lparr>bcount := bcount b + 1, spin := (spin b)(i \<mapsto> wait_target (bcount b) (width b)),
                     arrived := (arrived b)(i := arrived b i + 1)\<rparr>)"
| keep_spinning: "\<lbrakk>i < width b; spin b i = Some t; bcount b < t\<rbrakk> \<Longrightarrow> barrier_step b b"
| leave: "\<lbrakk>i < width b; spin b i = Some t; \<not> bcount b < t\<rbrakk> \<Longrightarrow>
    barrier_step b (b\<lparr>spin := (spin b)(i := None), passed := (passed b)(i := passed b i + 1)\<rparr>)"

inductive barrier_reach :: "nat \<Rightarrow> barrier \<Rightarrow> bool" for w where
  init: "barrier_reach w (barrier_init w)"
| step: "barrier_reach w b \<Longrightarrow> barrier_step b b' \<Longrightarrow> barrier_reach w b'"

inductive_cases barrier_stepE: "barrier_step b b'"

text \<open>
  The invariant: the counter is the number of arrivals; all threads are in round \<open>m\<close> or
  \<open>m + 1\<close>, where \<open>m\<close> is the number of full rounds counted; a spinning thread waits for the
  end of its own round; no thread has passed a round that the counter has not completed.
\<close>

definition barrier_inv :: "nat \<Rightarrow> barrier \<Rightarrow> bool" where
  "barrier_inv w b \<longleftrightarrow> width b = w \<and> bcount b = (\<Sum>i<w. arrived b i) \<and>
     (\<forall>i<w. bcount b div w \<le> arrived b i \<and> arrived b i \<le> Suc (bcount b div w) \<and>
        passed b i \<le> bcount b div w \<and>
        (case spin b i of None \<Rightarrow> arrived b i = passed b i
         | Some t \<Rightarrow> arrived b i = Suc (passed b i) \<and> t = arrived b i * w))"

lemma sum_fun_upd_Suc:
  assumes "i < (w :: nat)"
  shows "(\<Sum>j<w. (f(i := Suc (f i))) j) = Suc (\<Sum>j<w. f j)"
proof -
  have "(\<Sum>j<w. (f(i := Suc (f i))) j) = Suc (f i) + (\<Sum>j\<in>{..<w} - {i}. f j)"
    using assms by (subst sum.remove [of "{..<w}" i]) auto
  also have "\<dots> = Suc (\<Sum>j<w. f j)" using assms by (subst sum.remove [of "{..<w}" i f]) auto
  finally show ?thesis .
qed

lemma div_Suc_round:
  assumes "0 < (w :: nat)"
  shows "Suc c div w = c div w \<or> (Suc c div w = Suc (c div w) \<and> Suc c = Suc (c div w) * w)"
proof (cases "Suc c mod w = 0")
  case True
  then have "Suc c div w = Suc (c div w)" by (simp add: div_Suc)
  moreover have "Suc c = Suc c div w * w" using True div_mult_mod_eq [of "Suc c" w] by simp
  ultimately show ?thesis by metis
qed (simp add: div_Suc)

lemma sum_bounded_eq:
  assumes "\<forall>j<(w :: nat). f j \<le> (k :: nat)" "(\<Sum>j<w. f j) = k * w" "i < w"
  shows "f i = k"
proof (rule ccontr)
  assume "f i \<noteq> k"
  then have "f i < k" using assms by (simp add: le_neq_implies_less)
  then have "(\<Sum>j<w. f j) < (\<Sum>j<w. k)" using assms by (intro sum_strict_mono_ex1) auto
  then show False using assms(2) by simp
qed

lemma barrier_arrive_inv:
  assumes inv: "barrier_inv w b" and i: "i < w" "spin b i = None"
  shows "barrier_inv w (b\<lparr>bcount := bcount b + 1, spin := (spin b)(i \<mapsto> wait_target (bcount b) w),
                     arrived := (arrived b)(i := arrived b i + 1)\<rparr>)" (is "barrier_inv w ?b")
proof -
  let ?m = "bcount b div w"
  have w: "0 < w" using i by simp
  have b: "\<And>j. j < w \<Longrightarrow> ?m \<le> arrived b j \<and> arrived b j \<le> Suc ?m \<and> passed b j \<le> ?m"
    and sp: "arrived b i = passed b i" using inv i by (auto simp: barrier_inv_def)
  then have ai: "arrived b i = ?m" using i by (metis le_antisym)
  have sum: "Suc (bcount b) = (\<Sum>j<w. arrived ?b j)"
    using inv sum_fun_upd_Suc [OF i(1), of "arrived b"] by (simp add: barrier_inv_def)
  have le: "\<forall>j<w. arrived ?b j \<le> Suc ?m" using b ai by auto
  have ge: "Suc (bcount b) div w \<le> arrived ?b j" if "j < w" for j
  proof (cases "Suc (bcount b) div w = ?m")
    case True
    then show ?thesis using b [OF that] by auto
  next
    case False
    then have d: "Suc (bcount b) div w = Suc ?m" "Suc (bcount b) = Suc ?m * w"
      using div_Suc_round [OF w, of "bcount b"] by metis+
    then have "arrived ?b j = Suc ?m" using sum_bounded_eq [OF le _ that] sum by metis
    then show ?thesis using d(1) by (metis order_refl)
  qed
  have mono: "?m \<le> Suc (bcount b) div w" by (rule div_le_mono) simp
  show ?thesis
    unfolding barrier_inv_def
  proof (intro conjI allI impI)
    fix j assume j: "j < w"
    show "bcount ?b div w \<le> arrived ?b j" using ge [OF j] by simp
    have "arrived ?b j \<le> Suc ?m" using le j by blast
    also have "\<dots> \<le> Suc (bcount ?b div w)" using mono by simp
    finally show "arrived ?b j \<le> Suc (bcount ?b div w)" .
    show "passed ?b j \<le> bcount ?b div w" using b [OF j] mono by (simp, meson le_trans)
    show "case spin ?b j of None \<Rightarrow> arrived ?b j = passed ?b j
      | Some t \<Rightarrow> arrived ?b j = Suc (passed ?b j) \<and> t = arrived ?b j * w"
    proof (cases "j = i")
      case False
      have "case spin b j of None \<Rightarrow> arrived b j = passed b j
        | Some t \<Rightarrow> arrived b j = Suc (passed b j) \<and> t = arrived b j * w"
        using inv j unfolding barrier_inv_def by blast
      then show ?thesis using False by (simp split: option.splits)
    qed (use ai sp in \<open>simp add: wait_target_def\<close>)
  qed (use inv sum in \<open>auto simp: barrier_inv_def\<close>)
qed

lemma barrier_leave_inv:
  assumes inv: "barrier_inv w b" and i: "i < w" "spin b i = Some t" "t \<le> bcount b"
  shows "barrier_inv w (b\<lparr>spin := (spin b)(i := None), passed := (passed b)(i := passed b i + 1)\<rparr>)"
    (is "barrier_inv w ?b")
proof -
  have a: "arrived b i = Suc (passed b i)" "t = arrived b i * w" using inv i by (auto simp: barrier_inv_def)
  then have "arrived b i \<le> bcount b div w"
    using i by (metis div_le_mono gr_implies_not0 nonzero_mult_div_cancel_right)
  then have p: "passed b i + 1 \<le> bcount b div w" using a(1) by simp
  show ?thesis
    unfolding barrier_inv_def
  proof (intro conjI allI impI)
    fix j assume j: "j < w"
    show "case spin ?b j of
        None \<Rightarrow> arrived ?b j = passed ?b j
      | Some t \<Rightarrow> arrived ?b j = Suc (passed ?b j) \<and> t = arrived ?b j * w"
      using inv a j by (cases "j = i") (auto simp: barrier_inv_def split: option.splits)
  qed (use inv p in \<open>auto simp: barrier_inv_def\<close>)
qed

lemma barrier_reach_inv: "barrier_reach w b \<Longrightarrow> barrier_inv w b"
proof (induction rule: barrier_reach.induct)
  case init
  show ?case by (simp add: barrier_inv_def barrier_init_def)
next
  case (step b b')
  have w: "width b = w" using step.IH by (simp add: barrier_inv_def)
  from step.hyps(2) show ?case
  proof (cases rule: barrier_step.cases)
    case (arrive i)
    then show ?thesis using barrier_arrive_inv [OF step.IH] w by simp
  next
    case (leave i t)
    then show ?thesis using barrier_leave_inv [OF step.IH] w by simp
  qed (use step.IH in simp)
qed

text \<open>
  C21: the spin barrier is a barrier, for every interleaving of the atomic accesses of \<open>width\<close>
  threads that use it again and again: when some thread has left its \<open>k\<close>-th \<open>wait()\<close>, every
  thread has entered its \<open>k\<close>-th \<open>wait()\<close>, and no thread is a whole round ahead.
\<close>

theorem spin_barrier_separates_rounds:
  assumes "barrier_reach w b" "i < w" "j < w"
  shows "passed b i \<le> arrived b j \<and> arrived b j \<le> Suc (arrived b i)"
proof -
  have "barrier_inv w b" by (rule barrier_reach_inv [OF assms(1)])
  then show ?thesis using assms(2,3) unfolding barrier_inv_def by (meson le_trans Suc_le_mono)
qed

definition barrier_demo :: barrier where
  "barrier_demo = (barrier_init 2)\<lparr>bcount := 1, spin := [0 \<mapsto> 2], arrived := (\<lambda>_. 0)(0 := 1)\<rparr>"

theorem spin_barrier_separates_rounds_witness:
  "passed barrier_demo 0 \<le> arrived barrier_demo 1 \<and> arrived barrier_demo 1 \<le> Suc (arrived barrier_demo 0)"
proof (rule spin_barrier_separates_rounds [of 2])
  have "barrier_step (barrier_init 2) barrier_demo"
    using barrier_step.arrive [of 0 "barrier_init 2"]
    by (simp add: barrier_init_def barrier_demo_def wait_target_def)
  then show "barrier_reach 2 barrier_demo" by (rule barrier_reach.step [OF barrier_reach.init])
qed simp_all

end
