(* ===== verification/Disk_Queue.thy ===== *)
theory Disk_Queue
  imports Prelude
begin

text \<open>
  The two queues the program hands work around with: the mutex-protected ring buffer
  \<open>threadsafe_queue\<close> of \<open>powerinfer-disk-queue.hpp\<close> and the unbounded \<open>SimpleTaskQueue\<close> of
  \<open>libaz/az/pipeline/task.hpp\<close>.  A method body runs under the lock, so it is one function
  on the state; \<open>None\<close> is a call that waits on a condition variable in this state.  Both are
  instances of one locale of first-in-first-out queues.
\<close>

subsection \<open>threadsafe_queue\<close>

record 'a tsq =
  buffer :: "'a option list"
  q_head :: nat
  q_tail :: nat
  q_count :: nat
  q_capacity :: nat

definition interrupt_signal :: nat where
  "interrupt_signal = 2 ^ 64 - 1"

definition tsq_init :: "nat \<Rightarrow> 'a tsq" where
  "tsq_init capacity = \<lparr>buffer = replicate capacity None, q_head = 0, q_tail = 0, q_count = 0,
     q_capacity = capacity\<rparr>"

definition tsq_push :: "'a \<Rightarrow> 'a tsq \<Rightarrow> 'a tsq option" where
  "tsq_push v q =
     (if \<not> q_count q < q_capacity q then None
      else Some (q\<lparr>buffer := (buffer q)[q_tail q := Some v],
                   q_tail := (q_tail q + 1) mod q_capacity q,
                   q_count := q_count q + 1\<rparr>))"

definition tsq_pop :: "bool \<Rightarrow> 'a tsq \<Rightarrow> ('a option \<times> 'a tsq) option" where
  "tsq_pop wait q =
     (if \<not> wait \<and> q_count q = 0 then Some (None, q)
      else if \<not> 0 < q_count q then None
      else if q_count q = interrupt_signal then Some (None, q)
      else Some (buffer q ! q_head q,
             q\<lparr>buffer := (buffer q)[q_head q := None],
               q_head := (q_head q + 1) mod q_capacity q,
               q_count := q_count q - 1\<rparr>))"

definition tsq_interrupt :: "'a tsq \<Rightarrow> 'a tsq" where
  "tsq_interrupt q = q\<lparr>q_count := interrupt_signal\<rparr>"

definition tsq_reset :: "'a tsq \<Rightarrow> 'a tsq" where
  "tsq_reset q = q\<lparr>q_count := 0\<rparr>"

definition tsq_empty :: "'a tsq \<Rightarrow> bool" where
  "tsq_empty q \<longleftrightarrow> q_count q = 0"

definition tsq_size :: "'a tsq \<Rightarrow> nat" where
  "tsq_size q = q_count q"

subsection \<open>SimpleTaskQueue\<close>

definition task_push :: "'a \<Rightarrow> 'a list \<Rightarrow> 'a list" where
  "task_push t q = q @ [t]"

definition task_pop :: "'a list \<Rightarrow> 'a option \<times> 'a list" where
  "task_pop q = (case q of [] \<Rightarrow> (None, []) | t # q' \<Rightarrow> (Some t, q'))"

subsection \<open>First-in-first-out queues\<close>

text \<open>
  What a client of a queue relies on: \<open>view s xs\<close> says that \<open>s\<close> holds \<open>xs\<close>, oldest first; a
  push that returns appends, a pop takes the oldest element and says so when there is none.
\<close>

fun pops :: "('s \<Rightarrow> ('a option \<times> 's) option) \<Rightarrow> nat \<Rightarrow> 's \<Rightarrow> ('a option list \<times> 's) option" where
  "pops pop 0 s = Some ([], s)"
| "pops pop (Suc n) s = (case pop s of None \<Rightarrow> None
     | Some (r, s') \<Rightarrow> (case pops pop n s' of None \<Rightarrow> None | Some (rs, s'') \<Rightarrow> Some (r # rs, s'')))"

locale fifo =
  fixes view :: "'s \<Rightarrow> 'a list \<Rightarrow> bool"
    and push :: "'a \<Rightarrow> 's \<Rightarrow> 's option"
    and pop :: "'s \<Rightarrow> ('a option \<times> 's) option"
  assumes push_view: "view s xs \<Longrightarrow> push x s = Some s' \<Longrightarrow> view s' (xs @ [x])"
    and pop_view: "view s (x # xs) \<Longrightarrow> \<exists>s'. pop s = Some (Some x, s') \<and> view s' xs"
    and pop_empty: "view s [] \<Longrightarrow> pop s = Some (None, s)"
begin

lemma push_all_view:
  "view s ys \<Longrightarrow> fold_opt push xs s = Some s' \<Longrightarrow> view s' (ys @ xs)"
proof (induction xs arbitrary: s ys)
  case (Cons x xs)
  then obtain t where "push x s = Some t" "fold_opt push xs t = Some s'" by (auto split: option.splits)
  then show ?case using Cons.IH [OF push_view [OF Cons.prems(1)]] by fastforce
qed simp

lemma pops_view:
  "view s (xs @ ys) \<Longrightarrow> \<exists>s'. pops pop (length xs) s = Some (map Some xs, s') \<and> view s' ys"
proof (induction xs arbitrary: s)
  case (Cons x xs)
  from pop_view [of s x "xs @ ys"] Cons.prems
  obtain t where t: "pop s = Some (Some x, t)" "view t (xs @ ys)" by auto
  from Cons.IH [OF t(2)] t(1) show ?case by auto
qed simp

lemma pops_exhausted: "view s [] \<Longrightarrow> pops pop n s = Some (replicate n None, s)"
  by (induction n) (simp_all add: pop_empty)

lemma fifo_order:
  assumes "view s []" "fold_opt push xs s = Some s'"
  shows "\<exists>s''. pops pop (length xs) s' = Some (map Some xs, s'') \<and> view s'' []"
  using pops_view [of s' xs "[]"] push_all_view [OF assms] by simp

end

subsection \<open>The ring buffer holds a list\<close>

definition tsq_view :: "'a tsq \<Rightarrow> 'a list \<Rightarrow> bool" where
  "tsq_view q xs \<longleftrightarrow> 0 < q_capacity q \<and> q_capacity q < interrupt_signal \<and>
     length (buffer q) = q_capacity q \<and> q_head q < q_capacity q \<and>
     q_count q = length xs \<and> q_count q \<le> q_capacity q \<and>
     q_tail q = (q_head q + q_count q) mod q_capacity q \<and>
     (\<forall>i<length xs. buffer q ! ((q_head q + i) mod q_capacity q) = Some (xs ! i))"

lemma mod_add_inj:
  assumes "(h + i) mod c = (h + j) mod c" "i < c" "j < (c :: nat)"
  shows "i = j"
proof -
  have "a = b" if "(h + a) mod c = (h + b) mod c" "b < c" "a \<le> b" for a b
  proof -
    have "c dvd (h + b) - (h + a)" using that by (metis mod_eq_dvd_iff_nat nat_add_left_cancel_le)
    then have "c dvd b - a" by simp
    then show "a = b" using that nat_dvd_not_less [of "b - a" c] by fastforce
  qed
  then show ?thesis using assms by (metis nat_le_linear)
qed

lemma tsq_view_init: "0 < c \<Longrightarrow> c < interrupt_signal \<Longrightarrow> tsq_view (tsq_init c) []"
  by (simp add: tsq_view_def tsq_init_def)

lemma tsq_push_view:
  assumes v: "tsq_view q xs" and p: "tsq_push x q = Some q'"
  shows "tsq_view q' (xs @ [x])"
proof -
  let ?c = "q_capacity q"
  from p have lt: "q_count q < ?c" and q': "q' = q\<lparr>buffer := (buffer q)[q_tail q := Some x],
      q_tail := (q_tail q + 1) mod ?c, q_count := q_count q + 1\<rparr>"
    by (auto simp: tsq_push_def split: if_splits)
  have t: "q_tail q = (q_head q + length xs) mod ?c" "q_tail q < ?c" "length xs < ?c"
    using v lt by (auto simp: tsq_view_def)
  have "buffer q' ! ((q_head q + i) mod ?c) = Some ((xs @ [x]) ! i)" if "i < length (xs @ [x])" for i
  proof (cases "i = length xs")
    case True
    moreover have "length (buffer q) = ?c" using v by (simp add: tsq_view_def)
    ultimately show ?thesis using t unfolding q' by simp
  next
    case False
    then have i: "i < length xs" using that by simp
    then have "(q_head q + i) mod ?c \<noteq> q_tail q"
      using mod_add_inj [of "q_head q" i ?c "length xs"] t by auto
    moreover have "buffer q ! ((q_head q + i) mod ?c) = Some (xs ! i)" using v i by (simp add: tsq_view_def)
    ultimately show ?thesis using i unfolding q' by (simp add: nth_append)
  qed
  moreover have "Suc ((q_head q + length xs) mod ?c) mod ?c = Suc (q_head q + length xs) mod ?c"
    by (rule mod_Suc_eq)
  moreover have "length (buffer q) = ?c" "q_count q = length xs" "q_head q < ?c" "?c < interrupt_signal"
    using v by (auto simp: tsq_view_def)
  ultimately show ?thesis using t unfolding q' tsq_view_def by simp
qed

lemma tsq_pop_view:
  assumes v: "tsq_view q (x # xs)"
  shows "\<exists>q'. tsq_pop w q = Some (Some x, q') \<and> tsq_view q' xs"
proof -
  let ?c = "q_capacity q"
  let ?q = "q\<lparr>buffer := (buffer q)[q_head q := None], q_head := (q_head q + 1) mod ?c,
      q_count := q_count q - 1\<rparr>"
  have n: "q_count q = Suc (length xs)" "Suc (length xs) \<le> ?c" "q_head q < ?c" "?c < interrupt_signal"
    using v by (auto simp: tsq_view_def)
  have at: "buffer q ! ((q_head q + i) mod ?c) = Some ((x # xs) ! i)" if "i < Suc (length xs)" for i
    using v that by (simp add: tsq_view_def)
  have "buffer ?q ! ((q_head ?q + i) mod ?c) = Some (xs ! i)" if "i < length xs" for i
  proof -
    have e: "(q_head ?q + i) mod ?c = (q_head q + Suc i) mod ?c" by (simp add: mod_simps)
    have "(q_head q + Suc i) mod ?c \<noteq> q_head q"
      using mod_add_inj [of "q_head q" "Suc i" ?c 0] n that by auto
    then show ?thesis using at [of "Suc i"] that unfolding e by simp
  qed
  then have "tsq_view ?q xs" using v n by (simp add: tsq_view_def mod_simps)
  moreover have "tsq_pop w q = Some (Some x, ?q)"
    using n at [of 0] by (simp add: tsq_pop_def)
  ultimately show ?thesis by blast
qed

interpretation tsq: fifo tsq_view tsq_push "tsq_pop False"
proof unfold_locales
  show "tsq_view q [] \<Longrightarrow> tsq_pop False q = Some (None, q)" for q :: "'a tsq"
    by (simp add: tsq_pop_def tsq_view_def)
qed (rule tsq_push_view tsq_pop_view; assumption)+

interpretation stq: fifo "\<lambda>q xs. q = xs" "\<lambda>x q. Some (task_push x q)" "\<lambda>q. Some (task_pop q)"
  by unfold_locales (auto simp: task_push_def task_pop_def)

lemma tsq_push_succeeds_iff:
  "tsq_view q xs \<Longrightarrow> (\<exists>q'. tsq_push x q = Some q') \<longleftrightarrow> length xs < q_capacity q"
  by (simp add: tsq_push_def tsq_view_def)

lemma tsq_push_all_succeeds:
  "tsq_view q ys \<Longrightarrow> length ys + length xs \<le> q_capacity q \<Longrightarrow> \<exists>q'. fold_opt tsq_push xs q = Some q'"
proof (induction xs arbitrary: q ys)
  case (Cons x xs)
  then obtain t where t: "tsq_push x q = Some t" using tsq_push_succeeds_iff by fastforce
  then have "tsq_view t (ys @ [x])" "q_capacity t = q_capacity q"
    using Cons.prems(1) by (auto simp: tsq_push_view tsq_push_def split: if_splits)
  then show ?case using Cons.IH [of t "ys @ [x]"] Cons.prems(2) t by simp
qed simp

text \<open>
  Any sequence of calls, from any number of threads, in the order in which they get the lock.  A call
  that would wait leaves the queue alone and is noted as such.  The reference is a list with a bound.
\<close>

datatype 'a queue_call = Push 'a | Pop bool | Query_size | Query_empty

datatype 'a outcome = Waits | Pushed | Popped "'a option" | Size nat | Is_empty bool

fun tsq_call :: "'a queue_call \<Rightarrow> 'a tsq \<Rightarrow> 'a outcome \<times> 'a tsq" where
  "tsq_call (Push v) q = (case tsq_push v q of None \<Rightarrow> (Waits, q) | Some q' \<Rightarrow> (Pushed, q'))"
| "tsq_call (Pop wait) q = (case tsq_pop wait q of None \<Rightarrow> (Waits, q) | Some (r, q') \<Rightarrow> (Popped r, q'))"
| "tsq_call Query_size q = (Size (tsq_size q), q)"
| "tsq_call Query_empty q = (Is_empty (tsq_empty q), q)"

fun bounded_call :: "nat \<Rightarrow> 'a queue_call \<Rightarrow> 'a list \<Rightarrow> 'a outcome \<times> 'a list" where
  "bounded_call capacity (Push v) xs = (if length xs < capacity then (Pushed, xs @ [v]) else (Waits, xs))"
| "bounded_call capacity (Pop wait) [] = (if wait then (Waits, []) else (Popped None, []))"
| "bounded_call capacity (Pop wait) (x # xs) = (Popped (Some x), xs)"
| "bounded_call capacity Query_size xs = (Size (length xs), xs)"
| "bounded_call capacity Query_empty xs = (Is_empty (xs = []), xs)"

fun calls :: "('c \<Rightarrow> 's \<Rightarrow> 'o \<times> 's) \<Rightarrow> 'c list \<Rightarrow> 's \<Rightarrow> 'o list" where
  "calls step [] s = []"
| "calls step (c # cs) s = (let (r, s') = step c s in r # calls step cs s')"

lemma tsq_call_view:
  assumes "tsq_view q xs"
  shows "\<exists>r q' xs'. tsq_call c q = (r, q') \<and> bounded_call (q_capacity q) c xs = (r, xs') \<and> tsq_view q' xs' \<and> q_capacity q' = q_capacity q"
proof (cases c)
  case (Push v)
  show ?thesis
  proof (cases "length xs < q_capacity q")
    case True
    then obtain q' where q': "tsq_push v q = Some q'" using tsq_push_succeeds_iff [OF assms] by blast
    then show ?thesis using True Push tsq_push_view [OF assms q'] by (auto simp: tsq_push_def split: if_splits)
  next
    case False
    then have "tsq_push v q = None" using assms by (simp add: tsq_push_def tsq_view_def)
    then show ?thesis using False Push assms by simp
  qed
next
  case (Pop wait)
  show ?thesis
  proof (cases xs)
    case Nil
    then show ?thesis using Pop assms by (cases wait) (auto simp: tsq_pop_def tsq_view_def)
  next
    case (Cons x ys)
    then obtain q' where q': "tsq_pop wait q = Some (Some x, q')" "tsq_view q' ys" using tsq_pop_view [of q x ys wait] assms by auto
    then have "q_capacity q' = q_capacity q" by (auto simp: tsq_pop_def split: if_splits)
    then show ?thesis using q' Cons Pop by simp
  qed
qed (use assms in \<open>auto simp: tsq_size_def tsq_empty_def tsq_view_def\<close>)

text \<open>
  C38: the ring buffer is a bounded first-in-first-out queue: for every sequence of calls on a fresh queue
  (without \<open>interrupt\<close>), each call has the outcome that a list of at most \<open>capacity\<close> elements gives: a push waits
  exactly when the list is full and appends otherwise, a pop returns the oldest element, on an empty queue
  it waits or reports that there is none, and the size and the emptiness are those of the list.  The
  indices wrap around as often as the calls make them.
\<close>

theorem threadsafe_queue_bounded_fifo:
  assumes "0 < capacity" "capacity < interrupt_signal"
  shows "calls tsq_call cs (tsq_init capacity) = calls (bounded_call capacity) cs []"
proof -
  have "calls tsq_call cs q = calls (bounded_call (q_capacity q)) cs xs" if "tsq_view q xs" for q :: "'a tsq" and xs
    using that
  proof (induction cs arbitrary: q xs)
    case (Cons c cs)
    obtain r q' xs' where "tsq_call c q = (r, q')" "bounded_call (q_capacity q) c xs = (r, xs')" "tsq_view q' xs'" "q_capacity q' = q_capacity q"
      using tsq_call_view [OF Cons.prems] by blast
    then show ?case using Cons.IH [of q' xs'] by simp
  qed simp
  from this [OF tsq_view_init [OF assms]] show ?thesis by (simp add: tsq_init_def)
qed

text \<open>Three pushes and pops through a queue of two places: the indices wrap around.\<close>

theorem threadsafe_queue_bounded_fifo_witness:
  "calls tsq_call [Push 7, Push 8, Push 9, Pop True, Push 9, Pop True, Pop True, Pop False] (tsq_init 2) =
     [Pushed, Pushed, Waits, Popped (Some (7 :: nat)), Pushed, Popped (Some 8), Popped (Some 9), Popped None]"
  by (subst threadsafe_queue_bounded_fifo) (simp_all add: interrupt_signal_def)

text \<open>
  \<open>interrupt\<close> releases every waiter and blocks every producer: whatever the queue held,
  a later \<open>pop\<close>, waiting or not, returns \<open>nullopt\<close> at once and leaves the state alone.
  \<open>reset_interrupt_signal\<close> only zeroes the count: when the queue held an element before, the
  next element pushed is not the next one popped, the stale one is.
\<close>

theorem threadsafe_queue_interrupt:
  assumes "tsq_view q (x # xs)" "length xs + 1 < q_capacity q"
  shows "tsq_pop wait (tsq_interrupt q) = Some (None, tsq_interrupt q) \<and>
     tsq_push y (tsq_interrupt q) = None \<and>
     (\<exists>q' q''. tsq_push y (tsq_reset (tsq_interrupt q)) = Some q' \<and>
        tsq_pop wait q' = Some (Some x, q''))"
proof -
  have q: "q_count q = Suc (length xs)" "q_head q < q_capacity q" "q_capacity q < interrupt_signal"
    "buffer q ! q_head q = Some x" "q_tail q = (q_head q + Suc (length xs)) mod q_capacity q"
    "length (buffer q) = q_capacity q"
    using assms(1) by (auto simp: tsq_view_def dest: spec [of _ 0])
  then have "q_tail q \<noteq> q_head q"
    using mod_add_inj [of "q_head q" "Suc (length xs)" "q_capacity q" 0] assms(2) by auto
  then show ?thesis using q assms(2)
    by (simp add: tsq_pop_def tsq_push_def tsq_interrupt_def tsq_reset_def interrupt_signal_def)
qed

definition tsq_demo :: "nat tsq" where
  "tsq_demo = \<lparr>buffer = [Some 5, None, None], q_head = 0, q_tail = 1, q_count = 1, q_capacity = 3\<rparr>"

theorem threadsafe_queue_interrupt_witness:
  "tsq_pop True (tsq_interrupt tsq_demo) = Some (None, tsq_interrupt tsq_demo) \<and>
     tsq_push 6 (tsq_interrupt tsq_demo) = None \<and>
     (\<exists>q' q''. tsq_push 6 (tsq_reset (tsq_interrupt tsq_demo)) = Some q' \<and>
        tsq_pop True q' = Some (Some 5, q''))"
  by (rule threadsafe_queue_interrupt [of _ _ "[]"])
    (simp_all add: tsq_view_def tsq_demo_def interrupt_signal_def)

end
