(* ===== verification/Az_Tasks.thy ===== *)
theory Az_Tasks
  imports Disk_Queue
begin

text \<open>
  The task graph of \<open>libaz/az/pipeline\<close>: \<open>Task\<close> (\<open>task.cpp\<close>), \<open>TaskQueue::schedule\<close>, and the
  worker loop of \<open>Pipeline::run\<close>.  A task is a number; the members of \<open>Task\<close> and
  \<open>BaseTaskQueue\<close> are maps from task and queue numbers.  The first part transcribes each
  method as a function (\<open>None\<close>: a failed \<open>AZ_DEBUG_ASSERT\<close>).  The second part splits the
  methods at their atomic accesses into a step relation, so that any number of workers and
  the thread that builds the graph interleave.  \<open>n_prev_tasks\<close> is a natural number: it counts
  the links into a task plus one, far below \<open>2 ^ 64\<close>.
\<close>

type_synonym tid = nat
type_synonym qid = nat

record tasks =
  n_prev_tasks :: "tid \<Rightarrow> nat"
  next_tasks :: "tid \<Rightarrow> tid list"
  target_queue :: "tid \<Rightarrow> qid option"
  ready :: "qid \<Rightarrow> tid list"
  n_unfinished_tasks :: "qid \<Rightarrow> nat"

subsection \<open>The methods\<close>

definition add_prev_count :: "tid \<Rightarrow> nat \<Rightarrow> 'a tasks_scheme \<Rightarrow> 'a tasks_scheme" where
  "add_prev_count t c s = s\<lparr>n_prev_tasks := (n_prev_tasks s)(t := n_prev_tasks s t + c)\<rparr>"

definition task_link_to :: "tid \<Rightarrow> tid \<Rightarrow> 'a tasks_scheme \<Rightarrow> 'a tasks_scheme" where
  "task_link_to t next_task s =
     (let s1 = add_prev_count next_task 1 s
      in s1\<lparr>next_tasks := (next_tasks s1)(t := next_tasks s1 t @ [next_task])\<rparr>)"

definition on_launch :: "tid \<Rightarrow> 'a tasks_scheme \<Rightarrow> 'a tasks_scheme option" where
  "on_launch t s = (case target_queue s t of None \<Rightarrow> None
     | Some q \<Rightarrow> Some (s\<lparr>ready := (ready s)(q := task_push t (ready s q))\<rparr>))"

definition dec_prev :: "tid \<Rightarrow> 'a tasks_scheme \<Rightarrow> (bool \<times> 'a tasks_scheme) option" where
  "dec_prev t s =
     (let n = n_prev_tasks s t
      in if \<not> 0 < n then None
         else Some (n = 1, s\<lparr>n_prev_tasks := (n_prev_tasks s)(t := n - 1)\<rparr>))"

definition on_prev_task_finished :: "tid \<Rightarrow> 'a tasks_scheme \<Rightarrow> 'a tasks_scheme option" where
  "on_prev_task_finished t s = (case dec_prev t s of None \<Rightarrow> None
     | Some (launch, s') \<Rightarrow> if launch then on_launch t s' else Some s')"

definition finish_tail :: "tid \<Rightarrow> 'a tasks_scheme \<Rightarrow> 'a tasks_scheme option" where
  "finish_tail t s =
     (let s1 = s\<lparr>next_tasks := (next_tasks s)(t := [])\<rparr>
      in case target_queue s1 t of None \<Rightarrow> None
         | Some q \<Rightarrow> Some (s1\<lparr>n_unfinished_tasks := (n_unfinished_tasks s1)(q := n_unfinished_tasks s1 q - 1)\<rparr>))"

definition on_finish :: "tid \<Rightarrow> 'a tasks_scheme \<Rightarrow> 'a tasks_scheme option" where
  "on_finish t s = (case fold_opt on_prev_task_finished (next_tasks s t) s of None \<Rightarrow> None
     | Some s1 \<Rightarrow> finish_tail t s1)"

definition enroll :: "qid \<Rightarrow> tid \<Rightarrow> 'a tasks_scheme \<Rightarrow> 'a tasks_scheme option" where
  "enroll q t s =
     (if target_queue s t \<noteq> None then None
      else Some (s\<lparr>target_queue := (target_queue s)(t := Some q),
                   n_unfinished_tasks := (n_unfinished_tasks s)(q := n_unfinished_tasks s q + 1)\<rparr>))"

definition schedule :: "qid \<Rightarrow> tid \<Rightarrow> 'a tasks_scheme \<Rightarrow> 'a tasks_scheme option" where
  "schedule q t s = (case enroll q t s of None \<Rightarrow> None | Some s1 \<Rightarrow> on_prev_task_finished t s1)"

definition pop :: "qid \<Rightarrow> 'a tasks_scheme \<Rightarrow> tid option \<times> 'a tasks_scheme" where
  "pop q s = (case task_pop (ready s q) of (t, r) \<Rightarrow> (t, s\<lparr>ready := (ready s)(q := r)\<rparr>))"

definition try_lock :: "bool \<Rightarrow> bool \<times> bool" where
  "try_lock flag = (\<not> flag, True)"

definition unlock :: "bool \<Rightarrow> bool" where
  "unlock flag = False"

definition pipeline_busy :: "qid list \<Rightarrow> 'a tasks_scheme \<Rightarrow> bool" where
  "pipeline_busy task_queues s \<longleftrightarrow> list_ex (\<lambda>q. 0 < n_unfinished_tasks s q) task_queues"

text \<open>One \<open>PipelineWorker::run_tasks\<close>, with the effect of \<open>task->run\<close> a parameter.\<close>

definition run_tasks :: "(tid \<Rightarrow> 'a tasks_scheme \<Rightarrow> 'a tasks_scheme) \<Rightarrow> qid \<Rightarrow> 'a tasks_scheme \<Rightarrow> 'a tasks_scheme option" where
  "run_tasks run q s = (case pop q s of (None, s1) \<Rightarrow> Some s1 | (Some t, s1) \<Rightarrow> on_finish t (run t s1))"

text \<open>
  One worker alone in \<open>Pipeline::run\<close>: the outer loop of the source, with fuel; the first
  component says whether it has left the loop.
\<close>

fun run_loop :: "nat \<Rightarrow> (tid \<Rightarrow> 'a tasks_scheme \<Rightarrow> 'a tasks_scheme) \<Rightarrow> qid list \<Rightarrow> 'a tasks_scheme \<Rightarrow>
    (bool \<times> 'a tasks_scheme) option" where
  "run_loop 0 run qs s = Some (\<not> pipeline_busy qs s, s)"
| "run_loop (Suc fuel) run qs s =
     (if \<not> pipeline_busy qs s then Some (True, s)
      else case fold_opt (run_tasks run) qs s of None \<Rightarrow> None | Some s' \<Rightarrow> run_loop fuel run qs s')"

subsection \<open>Interleaving\<close>

text \<open>
  The control point of each task: \<open>Idle\<close> until its counter reaches zero, \<open>Launching\<close> between
  the \<open>fetch_sub\<close> that saw 1 and the push, \<open>Queued\<close>, \<open>Running\<close>, \<open>Notifying xs\<close> inside the loop of
  \<open>on_finish\<close> with \<open>xs\<close> still to notify, \<open>Done\<close> after the last \<open>fetch_sub\<close>.  \<open>token\<close> is true until
  \<open>schedule\<close> has given up the initial count; \<open>holds\<close> counts the calls of \<open>add_prev_count\<close>
  that a completion outside the graph (the I/O worker) has yet to answer; \<open>succs\<close> and \<open>launches\<close> are ghosts: every link
  ever made and the number of pushes.
\<close>

datatype phase = Idle | Launching | Queued | Running | Notifying "tid list" | Done

record pstate = tasks +
  phases :: "tid \<Rightarrow> phase"
  token :: "tid \<Rightarrow> bool"
  holds :: "tid \<Rightarrow> nat"
  succs :: "tid \<Rightarrow> tid list"
  launches :: "tid \<Rightarrow> nat"

definition p_init :: pstate where
  "p_init = \<lparr>n_prev_tasks = (\<lambda>_. 1), next_tasks = (\<lambda>_. []), target_queue = (\<lambda>_. None),
     ready = (\<lambda>_. []), n_unfinished_tasks = (\<lambda>_. 0), phases = (\<lambda>_. Idle), token = (\<lambda>_. True),
     holds = (\<lambda>_. 0), succs = (\<lambda>_. []), launches = (\<lambda>_. 0)\<rparr>"

definition set_phase :: "tid \<Rightarrow> phase \<Rightarrow> pstate \<Rightarrow> pstate" where
  "set_phase t p s = s\<lparr>phases := (phases s)(t := p)\<rparr>"

definition started :: "bool \<Rightarrow> tid \<Rightarrow> pstate \<Rightarrow> pstate" where
  "started launch t s = (if launch then set_phase t Launching s else s)"

text \<open>The graph is built by linking tasks that have not finished to tasks not yet scheduled.\<close>

inductive p_step :: "nat \<Rightarrow> pstate \<Rightarrow> pstate \<Rightarrow> bool" for N where
  link: "\<lbrakk>a < N; b < N; phases s a = Idle; target_queue s b = None\<rbrakk> \<Longrightarrow>
    p_step N s ((task_link_to a b s)\<lparr>succs := (succs s)(a := succs s a @ [b])\<rparr>)"
| hold: "\<lbrakk>t < N; target_queue s t = None\<rbrakk> \<Longrightarrow>
    p_step N s ((add_prev_count t 1 s)\<lparr>holds := (holds s)(t := holds s t + 1)\<rparr>)"
| io_done: "\<lbrakk>t < N; 0 < holds s t; dec_prev t s = Some (launch, s')\<rbrakk> \<Longrightarrow>
    p_step N s (started launch t (s'\<lparr>holds := (holds s')(t := holds s' t - 1)\<rparr>))"
| enroll: "\<lbrakk>t < N; enroll q t s = Some s'\<rbrakk> \<Longrightarrow> p_step N s s'"
| release: "\<lbrakk>t < N; token s t; target_queue s t \<noteq> None; dec_prev t s = Some (launch, s')\<rbrakk> \<Longrightarrow>
    p_step N s (started launch t (s'\<lparr>token := (token s')(t := False)\<rparr>))"
| launch: "\<lbrakk>t < N; phases s t = Launching; on_launch t s = Some s'\<rbrakk> \<Longrightarrow>
    p_step N s (set_phase t Queued (s'\<lparr>launches := (launches s')(t := launches s' t + 1)\<rparr>))"
| take: "\<lbrakk>pop q s = (Some t, s')\<rbrakk> \<Longrightarrow> p_step N s (set_phase t Running s')"
| finish: "\<lbrakk>t < N; phases s t = Running\<rbrakk> \<Longrightarrow> p_step N s (set_phase t (Notifying (next_tasks s t)) s)"
| notify: "\<lbrakk>t < N; phases s t = Notifying (x # xs); dec_prev x s = Some (launch, s')\<rbrakk> \<Longrightarrow>
    p_step N s (started launch x (set_phase t (Notifying xs) s'))"
| finished: "\<lbrakk>t < N; phases s t = Notifying []; finish_tail t s = Some s'\<rbrakk> \<Longrightarrow>
    p_step N s (set_phase t Done s')"

inductive p_reach :: "nat \<Rightarrow> pstate \<Rightarrow> bool" for N where
  init: "p_reach N p_init"
| step: "p_reach N s \<Longrightarrow> p_step N s s' \<Longrightarrow> p_reach N s'"

subsection \<open>Invariant\<close>

definition pend :: "pstate \<Rightarrow> tid \<Rightarrow> tid list" where
  "pend s a = (case phases s a of Notifying xs \<Rightarrow> xs | Done \<Rightarrow> [] | _ \<Rightarrow> next_tasks s a)"

definition in_links :: "nat \<Rightarrow> (tid \<Rightarrow> tid list) \<Rightarrow> tid \<Rightarrow> nat" where
  "in_links N f t = (\<Sum>a<N. count_list (f a) t)"

definition counts_ok :: "nat \<Rightarrow> pstate \<Rightarrow> bool" where
  "counts_ok N s \<longleftrightarrow> (\<forall>t<N. n_prev_tasks s t = of_bool (token s t) + holds s t + in_links N (pend s) t)"

definition phases_ok :: "nat \<Rightarrow> pstate \<Rightarrow> bool" where
  "phases_ok N s \<longleftrightarrow> (\<forall>t<N. (phases s t = Idle \<longleftrightarrow> 0 < n_prev_tasks s t) \<and>
     (target_queue s t = None \<longrightarrow> token s t) \<and>
     launches s t = (if phases s t \<in> {Idle, Launching} then 0 else 1))"

definition links_ok :: "nat \<Rightarrow> pstate \<Rightarrow> bool" where
  "links_ok N s \<longleftrightarrow> (\<forall>a<N. set (succs s a) \<subseteq> {..<N} \<and> set (pend s a) \<subseteq> set (succs s a) \<and>
     (phases s a \<in> {Idle, Launching, Queued, Running} \<longrightarrow> pend s a = succs s a))"

definition queues_ok :: "nat \<Rightarrow> pstate \<Rightarrow> bool" where
  "queues_ok N s \<longleftrightarrow> (\<forall>q. distinct (ready s q) \<and>
     (\<forall>t. t \<in> set (ready s q) \<longleftrightarrow> t < N \<and> phases s t = Queued \<and> target_queue s t = Some q) \<and>
     n_unfinished_tasks s q = card {t. t < N \<and> target_queue s t = Some q \<and> phases s t \<noteq> Done})"

definition p_inv :: "nat \<Rightarrow> pstate \<Rightarrow> bool" where
  "p_inv N s \<longleftrightarrow> counts_ok N s \<and> phases_ok N s \<and> links_ok N s \<and> queues_ok N s"

lemmas task_defs = add_prev_count_def task_link_to_def on_launch_def dec_prev_def finish_tail_def
  enroll_def pop_def set_phase_def started_def Let_def

lemma in_links_upd:
  assumes "a < N"
  shows "in_links N (f(a := xs)) t + count_list (f a) t = in_links N f t + count_list xs t"
proof -
  have "in_links N (f(a := xs)) t = count_list xs t + (\<Sum>i\<in>{..<N} - {a}. count_list (f i) t)"
    unfolding in_links_def using assms by (subst sum.remove [of _ a]) auto
  moreover have "in_links N f t = count_list (f a) t + (\<Sum>i\<in>{..<N} - {a}. count_list (f i) t)"
    unfolding in_links_def using assms by (subst sum.remove [of _ a]) auto
  ultimately show ?thesis by simp
qed

lemma in_links_pos: "a < N \<Longrightarrow> t \<in> set (f a) \<Longrightarrow> 0 < in_links N f t"
  unfolding in_links_def by (intro sum_pos2 [of _ a]) (auto simp: count_list_0_iff neq0_conv [symmetric] simp del: neq0_conv)

text \<open>
  Every decrement goes through this lemma: the contribution of one edge, hold or token to
  task \<open>x\<close> is gone and the counter of \<open>x\<close> follows.
\<close>

definition counts_but :: "nat \<Rightarrow> tid \<Rightarrow> pstate \<Rightarrow> bool" where
  "counts_but N x s \<longleftrightarrow>
     (\<forall>t<N. n_prev_tasks s t = of_bool (token s t) + holds s t + in_links N (pend s) t + of_bool (t = x))"

lemma dec_inv:
  assumes c: "counts_but N x s" and p: "phases_ok N s" and l: "links_ok N s" and q: "queues_ok N s"
    and x: "x < N" and d: "dec_prev x s = Some (launch, s')"
  shows "p_inv N (started launch x s')"
proof -
  let ?s = "started launch x s'"
  have pos: "0 < n_prev_tasks s x" and s': "s' = s\<lparr>n_prev_tasks := (n_prev_tasks s)(x := n_prev_tasks s x - 1)\<rparr>"
    and la: "launch \<longleftrightarrow> n_prev_tasks s x = 1"
    using d by (auto simp: dec_prev_def Let_def split: if_splits)
  have idle: "phases s x = Idle" using p pos x by (auto simp: phases_ok_def)
  have ph: "phases ?s = (if launch then (phases s)(x := Launching) else phases s)"
    by (simp add: started_def set_phase_def s')
  have same: "token ?s = token s" "holds ?s = holds s" "succs ?s = succs s" "ready ?s = ready s"
    "target_queue ?s = target_queue s" "n_unfinished_tasks ?s = n_unfinished_tasks s"
    "launches ?s = launches s" "next_tasks ?s = next_tasks s"
    "n_prev_tasks ?s = (n_prev_tasks s)(x := n_prev_tasks s x - 1)"
    by (simp_all add: started_def set_phase_def s')
  have pe: "pend ?s = pend s"
    unfolding fun_eq_iff pend_def ph same using idle by (auto split: phase.splits)
  have "counts_ok N ?s"
    using c pos unfolding counts_ok_def counts_but_def pe same by auto
  moreover have "phases_ok N ?s"
    using p pos idle la unfolding phases_ok_def same ph by (auto split: if_splits)
  moreover have "links_ok N ?s"
    using l idle unfolding links_ok_def same ph pe by (auto split: if_splits)
  moreover have "queues_ok N ?s"
  proof -
    have "phases ?s t = Queued \<longleftrightarrow> phases s t = Queued" "phases ?s t = Done \<longleftrightarrow> phases s t = Done" for t
      using idle by (auto simp: ph)
    then show ?thesis using q unfolding queues_ok_def same by simp
  qed
  ultimately show ?thesis by (simp add: p_inv_def)
qed

lemma counts_but_intro:
  assumes "counts_ok N s" "n_prev_tasks s' = n_prev_tasks s"
    and "\<And>t. t < N \<Longrightarrow> of_bool (token s t) + holds s t + in_links N (pend s) t =
       of_bool (token s' t) + holds s' t + in_links N (pend s') t + (of_bool (t = x) :: nat)"
  shows "counts_but N x s'"
  using assms by (simp add: counts_ok_def counts_but_def)

lemma p_inv_init: "p_inv N p_init"
  by (simp add: p_inv_def counts_ok_def phases_ok_def links_ok_def queues_ok_def p_init_def pend_def in_links_def)

lemma p_inv_link:
  assumes inv: "p_inv N s" and a: "a < N" "b < N" "phases s a = Idle" "target_queue s b = None"
  shows "p_inv N ((task_link_to a b s)\<lparr>succs := (succs s)(a := succs s a @ [b])\<rparr>)" (is "p_inv N ?s")
proof -
  have tb: "token s b" and ib: "phases s b = Idle"
    using inv a by (auto simp: p_inv_def phases_ok_def counts_ok_def)
  have pe: "pend ?s = (pend s)(a := pend s a @ [b])"
    using a(3) by (auto simp: pend_def task_defs fun_eq_iff split: phase.splits)
  have ps: "pend s a = succs s a" using inv a by (auto simp: p_inv_def links_ok_def)
  have il: "in_links N (pend ?s) t = in_links N (pend s) t + of_bool (t = b)" for t
    using in_links_upd [OF a(1), of "pend s" "pend s a @ [b]" t] unfolding pe by auto
  have "counts_ok N ?s"
    using inv unfolding p_inv_def counts_ok_def il by (auto simp: task_defs)
  moreover have "phases_ok N ?s"
    using inv ib unfolding p_inv_def phases_ok_def by (auto simp: task_defs)
  moreover have "links_ok N ?s"
    using inv a ps unfolding p_inv_def links_ok_def pe by (auto simp: task_defs)
  moreover have "queues_ok N ?s"
    using inv unfolding p_inv_def queues_ok_def by (simp add: task_defs)
  ultimately show ?thesis by (simp add: p_inv_def)
qed

lemma p_inv_hold:
  assumes inv: "p_inv N s" and t: "t < N" "target_queue s t = None"
  shows "p_inv N ((add_prev_count t 1 s)\<lparr>holds := (holds s)(t := holds s t + 1)\<rparr>)" (is "p_inv N ?s")
proof -
  have tb: "token s t" and ib: "phases s t = Idle"
    using inv t by (auto simp: p_inv_def phases_ok_def counts_ok_def)
  have pe: "pend ?s = pend s"
    by (auto simp: pend_def task_defs fun_eq_iff split: phase.splits)
  have "counts_ok N ?s"
    using inv unfolding p_inv_def counts_ok_def pe by (auto simp: task_defs)
  moreover have "phases_ok N ?s"
    using inv ib unfolding p_inv_def phases_ok_def by (auto simp: task_defs)
  moreover have "links_ok N ?s" "queues_ok N ?s"
    using inv unfolding p_inv_def links_ok_def queues_ok_def pe by (simp_all add: task_defs)
  ultimately show ?thesis by (simp add: p_inv_def)
qed

lemma p_inv_enroll:
  assumes inv: "p_inv N s" and t: "t < N" and e: "enroll q t s = Some s'"
  shows "p_inv N s'"
proof -
  have n: "target_queue s t = None" and s': "s' = s\<lparr>target_queue := (target_queue s)(t := Some q),
      n_unfinished_tasks := (n_unfinished_tasks s)(q := n_unfinished_tasks s q + 1)\<rparr>"
    using e by (auto simp: enroll_def split: if_splits)
  have ib: "phases s t = Idle"
    using inv t n by (auto simp: p_inv_def phases_ok_def counts_ok_def)
  have pe: "pend s' = pend s" by (auto simp: s' pend_def fun_eq_iff split: phase.splits)
  have "counts_ok N s'" "links_ok N s'"
    using inv unfolding p_inv_def counts_ok_def links_ok_def pe by (simp_all add: s')
  moreover have "phases_ok N s'"
    using inv unfolding p_inv_def phases_ok_def by (auto simp: s')
  moreover have "queues_ok N s'"
    unfolding queues_ok_def
  proof (intro allI conjI)
    fix r u
    have q: "queues_ok N s" using inv by (simp add: p_inv_def)
    then show "distinct (ready s' r)" by (simp add: queues_ok_def s')
    show "u \<in> set (ready s' r) \<longleftrightarrow> u < N \<and> phases s' u = Queued \<and> target_queue s' u = Some r"
      using q ib by (auto simp: queues_ok_def s' n)
    let ?A = "\<lambda>s. {u. u < N \<and> target_queue s u = Some r \<and> phases s u \<noteq> Done}"
    have "?A s' = (if r = q then insert t (?A s) else ?A s)" "t \<notin> ?A s"
      using t n ib by (auto simp: s')
    then have "card (?A s') = card (?A s) + (if r = q then 1 else 0)" by simp
    then show "n_unfinished_tasks s' r = card (?A s')" using q by (simp add: queues_ok_def s')
  qed
  ultimately show ?thesis by (simp add: p_inv_def)
qed

text \<open>A phase change among the states that still hold all their links, or inside the queue bookkeeping.\<close>

lemma p_inv_launch:
  assumes inv: "p_inv N s" and t: "t < N" "phases s t = Launching" and e: "on_launch t s = Some s'"
  shows "p_inv N (set_phase t Queued (s'\<lparr>launches := (launches s')(t := launches s' t + 1)\<rparr>))" (is "p_inv N ?s")
proof -
  obtain q where tq: "target_queue s t = Some q" and s': "s' = s\<lparr>ready := (ready s)(q := ready s q @ [t])\<rparr>"
    using e by (auto simp: on_launch_def task_push_def split: option.splits)
  have pe: "pend ?s = pend s" using t by (auto simp: s' task_defs pend_def fun_eq_iff split: phase.splits)
  have "counts_ok N ?s"
    using inv unfolding p_inv_def counts_ok_def pe by (simp add: s' task_defs)
  moreover have "links_ok N ?s"
    using inv t unfolding p_inv_def links_ok_def pe by (auto simp: s' task_defs)
  moreover have "phases_ok N ?s"
    using inv t unfolding p_inv_def phases_ok_def by (auto simp: s' task_defs)
  moreover have "queues_ok N ?s"
    unfolding queues_ok_def
  proof (intro allI conjI)
    fix r u
    have q: "queues_ok N s" using inv by (simp add: p_inv_def)
    have nt: "t \<notin> set (ready s r)" using q t by (auto simp: queues_ok_def)
    then show "distinct (ready ?s r)" using q by (auto simp: queues_ok_def s' task_defs)
    show "u \<in> set (ready ?s r) \<longleftrightarrow> u < N \<and> phases ?s u = Queued \<and> target_queue ?s u = Some r"
      using q t tq by (auto simp: queues_ok_def s' task_defs)
    have "phases ?s u = Done \<longleftrightarrow> phases s u = Done" for u using t by (auto simp: task_defs s')
    then show "n_unfinished_tasks ?s r = card {u. u < N \<and> target_queue ?s u = Some r \<and> phases ?s u \<noteq> Done}"
      using q by (simp add: queues_ok_def s' task_defs)
  qed
  ultimately show ?thesis by (simp add: p_inv_def)
qed

lemma p_inv_take:
  assumes inv: "p_inv N s" and e: "pop q s = (Some t, s')"
  shows "p_inv N (set_phase t Running s')" (is "p_inv N ?s")
proof -
  obtain r where r: "ready s q = t # r" and s': "s' = s\<lparr>ready := (ready s)(q := r)\<rparr>"
    using e by (auto simp: pop_def task_pop_def split: list.splits)
  have q: "queues_ok N s" using inv by (simp add: p_inv_def)
  then have t: "t < N" "phases s t = Queued" "target_queue s t = Some q" and nr: "t \<notin> set r"
    using r by (auto simp: queues_ok_def dest: spec [of _ q])
      (metis list.set_intros(1) r | metis distinct.simps(2) r)+
  have pe: "pend ?s = pend s" using t by (auto simp: s' task_defs pend_def fun_eq_iff split: phase.splits)
  have "counts_ok N ?s"
    using inv unfolding p_inv_def counts_ok_def pe by (simp add: s' task_defs)
  moreover have "links_ok N ?s"
    using inv t unfolding p_inv_def links_ok_def pe by (auto simp: s' task_defs)
  moreover have "phases_ok N ?s"
    using inv t unfolding p_inv_def phases_ok_def by (auto simp: s' task_defs)
  moreover have "queues_ok N ?s"
    unfolding queues_ok_def
  proof (intro allI conjI)
    fix p u
    have m: "u \<in> set (ready s p) \<longleftrightarrow> u < N \<and> phases s u = Queued \<and> target_queue s u = Some p"
      and d: "distinct (ready s p)" using q by (auto simp: queues_ok_def)
    show "distinct (ready ?s p)" using d r by (auto simp: s' task_defs)
    show "u \<in> set (ready ?s p) \<longleftrightarrow> u < N \<and> phases ?s u = Queued \<and> target_queue ?s u = Some p"
      using m r nr t by (cases "p = q") (auto simp: s' task_defs)
    have "phases ?s u = Done \<longleftrightarrow> phases s u = Done" for u using t by (auto simp: task_defs s')
    then show "n_unfinished_tasks ?s p = card {u. u < N \<and> target_queue ?s u = Some p \<and> phases ?s u \<noteq> Done}"
      using q by (simp add: queues_ok_def s' task_defs)
  qed
  ultimately show ?thesis by (simp add: p_inv_def)
qed

lemma p_inv_finish:
  assumes inv: "p_inv N s" and t: "t < N" "phases s t = Running"
  shows "p_inv N (set_phase t (Notifying (next_tasks s t)) s)" (is "p_inv N ?s")
proof -
  have pe: "pend ?s = pend s" using t by (auto simp: task_defs pend_def fun_eq_iff split: phase.splits)
  have "counts_ok N ?s" "links_ok N ?s" "phases_ok N ?s"
    using inv t unfolding p_inv_def counts_ok_def links_ok_def phases_ok_def pe by (auto simp: task_defs)
  moreover have "phases ?s u = Done \<longleftrightarrow> phases s u = Done" "phases ?s u = Queued \<longleftrightarrow> phases s u = Queued" for u
    using t by (auto simp: task_defs)
  then have "queues_ok N ?s" using inv unfolding p_inv_def queues_ok_def by (simp add: set_phase_def)
  ultimately show ?thesis by (simp add: p_inv_def)
qed

lemma p_inv_finished:
  assumes inv: "p_inv N s" and t: "t < N" "phases s t = Notifying []" and e: "finish_tail t s = Some s'"
  shows "p_inv N (set_phase t Done s')" (is "p_inv N ?s")
proof -
  obtain q where tq: "target_queue s t = Some q"
    and s': "s' = s\<lparr>next_tasks := (next_tasks s)(t := []),
      n_unfinished_tasks := (n_unfinished_tasks s)(q := n_unfinished_tasks s q - 1)\<rparr>"
    using e by (auto simp: finish_tail_def Let_def split: option.splits)
  have pe: "pend ?s = pend s"
    unfolding fun_eq_iff pend_def s' set_phase_def using t by (auto split: phase.splits)
  have "counts_ok N ?s" "links_ok N ?s" "phases_ok N ?s"
    using inv t unfolding p_inv_def counts_ok_def links_ok_def phases_ok_def pe by (auto simp: s' task_defs)
  moreover have "queues_ok N ?s"
    unfolding queues_ok_def
  proof (intro allI conjI)
    fix r u
    have q: "queues_ok N s" using inv by (simp add: p_inv_def)
    then show "distinct (ready ?s r)" by (simp add: queues_ok_def s' task_defs)
    show "u \<in> set (ready ?s r) \<longleftrightarrow> u < N \<and> phases ?s u = Queued \<and> target_queue ?s u = Some r"
      using q t by (auto simp: queues_ok_def s' task_defs)
    let ?A = "\<lambda>s. {u. u < N \<and> target_queue s u = Some r \<and> phases s u \<noteq> Done}"
    have "?A ?s = (if r = q then ?A s - {t} else ?A s)" and m: "r = q \<Longrightarrow> t \<in> ?A s" and f: "finite (?A s)"
      using t tq by (auto simp: s' task_defs)
    then have "card (?A ?s) = card (?A s) - (if r = q then 1 else 0)" by simp
    then show "n_unfinished_tasks ?s r = card (?A ?s)" using q by (simp add: queues_ok_def s' task_defs)
  qed
  ultimately show ?thesis by (simp add: p_inv_def)
qed

lemma p_inv_release:
  assumes inv: "p_inv N s" and t: "t < N" "token s t" "target_queue s t \<noteq> None"
    and d: "dec_prev t s = Some (launch, s')"
  shows "p_inv N (started launch t (s'\<lparr>token := (token s')(t := False)\<rparr>))"
proof -
  let ?s = "s\<lparr>token := (token s)(t := False)\<rparr>"
  have pe: "pend ?s = pend s" by (auto simp: pend_def fun_eq_iff split: phase.splits)
  have "dec_prev t ?s = Some (launch, s'\<lparr>token := (token s')(t := False)\<rparr>)"
    using d by (auto simp: dec_prev_def Let_def split: if_splits)
  moreover have "counts_but N t ?s"
    by (rule counts_but_intro [of N s]) (use inv t in \<open>auto simp: p_inv_def pe\<close>)
  moreover have "phases_ok N ?s" "links_ok N ?s" "queues_ok N ?s"
    using inv t unfolding p_inv_def phases_ok_def links_ok_def queues_ok_def pe by auto
  ultimately show ?thesis using dec_inv t(1) by blast
qed

lemma p_inv_io_done:
  assumes inv: "p_inv N s" and t: "t < N" "0 < holds s t" and d: "dec_prev t s = Some (launch, s')"
  shows "p_inv N (started launch t (s'\<lparr>holds := (holds s')(t := holds s' t - 1)\<rparr>))"
proof -
  let ?s = "s\<lparr>holds := (holds s)(t := holds s t - 1)\<rparr>"
  have pe: "pend ?s = pend s" by (auto simp: pend_def fun_eq_iff split: phase.splits)
  have "dec_prev t ?s = Some (launch, s'\<lparr>holds := (holds s')(t := holds s' t - 1)\<rparr>)"
    using d by (auto simp: dec_prev_def Let_def split: if_splits)
  moreover have "counts_but N t ?s"
    by (rule counts_but_intro [of N s]) (use inv t in \<open>auto simp: p_inv_def pe [unfolded One_nat_def]\<close>)
  moreover have "phases_ok N ?s" "links_ok N ?s" "queues_ok N ?s"
    using inv t unfolding p_inv_def phases_ok_def links_ok_def queues_ok_def pe by auto
  ultimately show ?thesis using dec_inv t(1) by blast
qed

lemma p_inv_notify:
  assumes inv: "p_inv N s" and t: "t < N" "phases s t = Notifying (x # xs)" and d: "dec_prev x s = Some (launch, s')"
  shows "p_inv N (started launch x (set_phase t (Notifying xs) s'))"
proof -
  let ?s = "set_phase t (Notifying xs) s"
  have xn: "x < N" using inv t by (fastforce simp: p_inv_def links_ok_def pend_def)
  have pe: "pend ?s = (pend s)(t := xs)" by (auto simp: pend_def set_phase_def fun_eq_iff split: phase.splits)
  have pt: "pend s t = x # xs" using t by (simp add: pend_def)
  have il: "in_links N (pend s) u = in_links N (pend ?s) u + of_bool (u = x)" for u
    using in_links_upd [OF t(1), of "pend s" xs u] unfolding pe pt by auto
  have "dec_prev x ?s = Some (launch, set_phase t (Notifying xs) s')"
    using d by (auto simp: dec_prev_def set_phase_def Let_def split: if_splits)
  moreover have "counts_but N x ?s"
    by (rule counts_but_intro [of N s]) (use inv il in \<open>auto simp: p_inv_def set_phase_def\<close>)
  moreover have "phases_ok N ?s" using inv t unfolding p_inv_def phases_ok_def by (auto simp: set_phase_def)
  moreover have "links_ok N ?s" using inv t pt unfolding p_inv_def links_ok_def pe
    by (auto simp: set_phase_def) (metis list.set_intros(2) subsetD)
  moreover have "phases ?s u = Done \<longleftrightarrow> phases s u = Done" "phases ?s u = Queued \<longleftrightarrow> phases s u = Queued" for u
    using t by (auto simp: set_phase_def)
  then have "queues_ok N ?s" using inv unfolding p_inv_def queues_ok_def by (simp add: set_phase_def)
  ultimately show ?thesis using dec_inv xn by blast
qed

lemmas p_inv_steps = p_inv_link p_inv_hold p_inv_io_done p_inv_enroll p_inv_release p_inv_launch
  p_inv_take p_inv_finish p_inv_notify p_inv_finished

lemma p_inv_step: "p_step N s s' \<Longrightarrow> p_inv N s \<Longrightarrow> p_inv N s'"
  by (induction rule: p_step.induct) (blast intro: p_inv_steps)+

lemma p_reach_inv: "p_reach N s \<Longrightarrow> p_inv N s"
  by (induction rule: p_reach.induct) (auto intro: p_inv_init p_inv_step)

subsection \<open>Properties\<close>

text \<open>
  C6: the counters implement the graph: in every reachable state every task, with or without
  predecessors, has been pushed to a queue at most once, and not at all while it is idle; and once it is no
  longer idle every task linked to it has run to completion (it is notifying its other successors or
  done), it has been scheduled, and no outstanding I/O holds it.
\<close>

theorem task_launched_once_after_predecessors:
  assumes "p_reach N s" "t < N"
  shows "launches s t \<le> 1 \<and> (phases s t = Idle \<longrightarrow> launches s t = 0) \<and>
    (phases s t \<noteq> Idle \<longrightarrow> holds s t = 0 \<and> target_queue s t \<noteq> None \<and>
      (\<forall>a < N. t \<in> set (succs s a) \<longrightarrow> phases s a = Done \<or> (\<exists>xs. phases s a = Notifying xs \<and> t \<notin> set xs)))"
proof -
  have inv: "p_inv N s" by (rule p_reach_inv [OF assms(1)])
  have once: "launches s t \<le> 1 \<and> (phases s t = Idle \<longrightarrow> launches s t = 0)" using inv assms(2) by (auto simp: p_inv_def phases_ok_def)
  have "holds s t = 0 \<and> target_queue s t \<noteq> None \<and>
      (\<forall>a < N. t \<in> set (succs s a) \<longrightarrow> phases s a = Done \<or> (\<exists>xs. phases s a = Notifying xs \<and> t \<notin> set xs))"
    if "phases s t \<noteq> Idle"
  proof -
    have "n_prev_tasks s t = 0" using inv assms(2) that by (auto simp: p_inv_def phases_ok_def)
    then have z: "\<not> token s t" "holds s t = 0" "in_links N (pend s) t = 0"
      using inv assms(2) by (auto simp: p_inv_def counts_ok_def)
    have "phases s a = Done \<or> (\<exists>xs. phases s a = Notifying xs \<and> t \<notin> set xs)" if a: "a < N" "t \<in> set (succs s a)" for a
    proof -
      have "t \<notin> set (pend s a)" using z(3) in_links_pos [OF a(1)] by fastforce
      then show ?thesis using inv a by (cases "phases s a") (auto simp: p_inv_def links_ok_def pend_def)
    qed
    then show ?thesis using inv z assms(2) by (auto simp: p_inv_def phases_ok_def)
  qed
  then show ?thesis using once by blast
qed

text \<open>
  No assertion of the pipeline can fail in a reachable state: whoever is about to
  decrement a counter finds it positive, and a task about to be pushed or about to finish has
  its target queue set.
\<close>

theorem task_assertions_hold:
  assumes "p_reach N s" "t < N"
  shows "(phases s t = Notifying (x # xs) \<longrightarrow> dec_prev x s \<noteq> None) \<and>
    (phases s t = Launching \<longrightarrow> on_launch t s \<noteq> None) \<and>
    (phases s t = Notifying [] \<longrightarrow> finish_tail t s \<noteq> None) \<and>
    (token s t \<or> 0 < holds s t \<longrightarrow> dec_prev t s \<noteq> None)"
proof -
  have inv: "p_inv N s" by (rule p_reach_inv [OF assms(1)])
  have tq: "target_queue s t \<noteq> None" if "phases s t \<noteq> Idle"
    using inv assms(2) that by (auto simp: p_inv_def phases_ok_def counts_ok_def)
  have "0 < n_prev_tasks s x" if n: "phases s t = Notifying (x # xs)"
  proof -
    have p: "pend s t = x # xs" using n by (simp add: pend_def)
    then have "x < N" using inv assms(2) by (fastforce simp: p_inv_def links_ok_def)
    then show ?thesis using inv in_links_pos [OF assms(2), of x "pend s"] p
      by (auto simp: p_inv_def counts_ok_def)
  qed
  moreover have "0 < n_prev_tasks s t" if "token s t \<or> 0 < holds s t"
    using inv assms(2) that by (auto simp: p_inv_def counts_ok_def)
  moreover have "on_launch t s \<noteq> None" if "phases s t = Launching" using tq that by (auto simp: on_launch_def)
  moreover have "finish_tail t s \<noteq> None" if "phases s t = Notifying []"
    using tq that by (auto simp: finish_tail_def Let_def)
  moreover have "0 < n_prev_tasks s u \<Longrightarrow> dec_prev u s \<noteq> None" for u by (simp add: dec_prev_def Let_def)
  ultimately show ?thesis by blast
qed

text \<open>
  A linked, acyclic graph (links go up in \<open>rank\<close>) all of whose tasks have been scheduled.
\<close>

definition graph_ready :: "nat \<Rightarrow> (tid \<Rightarrow> nat) \<Rightarrow> pstate \<Rightarrow> bool" where
  "graph_ready N rank s \<longleftrightarrow>
     (\<forall>t<N. target_queue s t \<noteq> None \<and> (\<forall>u \<in> set (succs s t). rank t < rank u))"

lemma lowest_unfinished:
  assumes "\<exists>t<N. \<not> P t"
  obtains t where "t < N" "\<not> P t" "\<And>u. u < (N :: nat) \<Longrightarrow> (rank u :: nat) < rank t \<Longrightarrow> P u"
proof -
  define t where "t = arg_min rank (\<lambda>t. t < N \<and> \<not> P t)"
  have "t < N \<and> \<not> P t" unfolding t_def using assms by (metis (mono_tags, lifting) arg_min_natI)
  moreover have "P u" if "u < N" "rank u < rank t" for u
    using that arg_min_nat_le [of "\<lambda>t. t < N \<and> \<not> P t" u rank] unfolding t_def by fastforce
  ultimately show ?thesis using that by blast
qed

text \<open>What is left to do: every step of a fully scheduled graph takes some of it away.\<close>

fun phase_work :: "phase \<Rightarrow> nat" where
  "phase_work Idle = 5" | "phase_work Launching = 4" | "phase_work Queued = 3" | "phase_work Running = 2"
| "phase_work (Notifying _) = 1" | "phase_work Done = 0"

definition task_work :: "pstate \<Rightarrow> tid \<Rightarrow> nat" where
  "task_work s t = phase_work (phases s t) + length (pend s t) + of_bool (token s t) + holds s t"

definition work :: "nat \<Rightarrow> pstate \<Rightarrow> nat" where
  "work N s = (\<Sum>t<N. task_work s t)"

lemma work_less:
  assumes "t < N" "task_work s' t < task_work s t" "\<And>u. u < N \<Longrightarrow> task_work s' u \<le> task_work s u"
  shows "work N s' < work N s"
  unfolding work_def using assms by (intro sum_strict_mono_ex1) auto

lemma dec_prev_work:
  assumes "p_inv N s" "x < N" "dec_prev x s = Some (l, s')"
  shows "phases s x = Idle" "s' = s\<lparr>n_prev_tasks := (n_prev_tasks s)(x := n_prev_tasks s x - 1)\<rparr>"
  using assms by (auto simp: p_inv_def phases_ok_def dec_prev_def Let_def split: if_splits)

lemma p_step_work:
  assumes "p_step N s s'" "p_inv N s" "graph_ready N rank s"
  shows "work N s' < work N s \<and> graph_ready N rank s'"
  using assms
proof (cases rule: p_step.cases)
  case (release t launch s1)
  note d = dec_prev_work [OF assms(2) release(2) release(5)]
  show ?thesis
  proof (rule conjI [OF work_less [OF release(2)]])
    show "task_work s' t < task_work s t" "task_work s' u \<le> task_work s u" for u
      using release d by (auto simp: task_work_def pend_def started_def set_phase_def split: phase.splits)
    show "graph_ready N rank s'" using assms(3) release d by (auto simp: graph_ready_def started_def set_phase_def)
  qed
next
  case (io_done t launch s1)
  note d = dec_prev_work [OF assms(2) io_done(2) io_done(4)]
  show ?thesis
  proof (rule conjI [OF work_less [OF io_done(2)]])
    show "task_work s' t < task_work s t" "task_work s' u \<le> task_work s u" for u
      using io_done d by (auto simp: task_work_def pend_def started_def set_phase_def split: phase.splits)
    show "graph_ready N rank s'" using assms(3) io_done d by (auto simp: graph_ready_def started_def set_phase_def)
  qed
next
  case (launch t s1)
  obtain r where "s1 = s\<lparr>ready := r\<rparr>" using launch(4) by (auto simp: on_launch_def split: option.splits)
  then have f: "phases s' = (phases s)(t := Queued)" "next_tasks s' = next_tasks s" "token s' = token s"
    "holds s' = holds s" "target_queue s' = target_queue s" "succs s' = succs s"
    using launch(1) by (simp_all add: set_phase_def)
  show ?thesis
  proof (rule conjI [OF work_less [OF launch(2)]])
    show "task_work s' t < task_work s t" "task_work s' u \<le> task_work s u" for u
      unfolding task_work_def pend_def f using launch(3) by (auto split: phase.splits)
    show "graph_ready N rank s'" using assms(3) unfolding graph_ready_def f .
  qed
next
  case (take q t s1)
  have t: "t < N" "phases s t = Queued"
    using assms(2) take unfolding p_inv_def queues_ok_def
    by (auto simp: pop_def task_pop_def split: list.splits) (metis list.set_intros(1))+
  obtain r where "s1 = s\<lparr>ready := r\<rparr>" using take(2) by (auto simp: pop_def split: prod.splits)
  then have f: "phases s' = (phases s)(t := Running)" "next_tasks s' = next_tasks s" "token s' = token s"
    "holds s' = holds s" "target_queue s' = target_queue s" "succs s' = succs s"
    using take(1) by (simp_all add: set_phase_def)
  show ?thesis
  proof (rule conjI [OF work_less [OF t(1)]])
    show "task_work s' t < task_work s t" "task_work s' u \<le> task_work s u" for u
      unfolding task_work_def pend_def f using t(2) by (auto split: phase.splits)
    show "graph_ready N rank s'" using assms(3) unfolding graph_ready_def f .
  qed
next
  case (finish t)
  show ?thesis
  proof (rule conjI [OF work_less [OF finish(2)]])
    show "task_work s' t < task_work s t" "task_work s' u \<le> task_work s u" for u
      using finish by (auto simp: task_work_def pend_def set_phase_def split: phase.splits)
    show "graph_ready N rank s'" using assms(3) finish by (auto simp: graph_ready_def set_phase_def)
  qed
next
  case (notify t x xs launch s1)
  have "x < N" using assms(2) notify by (fastforce simp: p_inv_def links_ok_def pend_def)
  note d = dec_prev_work [OF assms(2) this notify(4)]
  show ?thesis
  proof (rule conjI [OF work_less [OF notify(2)]])
    show "task_work s' t < task_work s t" "task_work s' u \<le> task_work s u" for u
      using notify d by (auto simp: task_work_def pend_def started_def set_phase_def split: phase.splits)
    show "graph_ready N rank s'" using assms(3) notify d by (auto simp: graph_ready_def started_def set_phase_def)
  qed
next
  case (finished t s1)
  obtain n where "s1 = s\<lparr>next_tasks := (next_tasks s)(t := []), n_unfinished_tasks := n\<rparr>"
    using finished(4) by (auto simp: finish_tail_def Let_def split: option.splits)
  then have f: "phases s' = (phases s)(t := Done)" "next_tasks s' = (next_tasks s)(t := [])" "token s' = token s"
    "holds s' = holds s" "target_queue s' = target_queue s" "succs s' = succs s"
    using finished(1) by (simp_all add: set_phase_def)
  show ?thesis
  proof (rule conjI [OF work_less [OF finished(2)]])
    show "task_work s' t < task_work s t" "task_work s' u \<le> task_work s u" for u
      unfolding task_work_def pend_def f using finished(3) by (auto split: phase.splits)
    show "graph_ready N rank s'" using assms(3) unfolding graph_ready_def f .
  qed
qed (auto simp: graph_ready_def enroll_def split: if_splits)

lemma pred_of_positive:
  assumes "0 < in_links N f t"
  obtains a where "a < N" "t \<in> set (f a)"
  using assms unfolding in_links_def by (auto simp: count_list_0_iff neq0_conv [symmetric] simp del: neq0_conv)

lemma lowest_step:
  assumes inv: "p_inv N s" and g: "graph_ready N rank s"
    and t: "t < N" "phases s t \<noteq> Done" and low: "\<And>u. u < N \<Longrightarrow> rank u < rank t \<Longrightarrow> phases s u = Done"
  shows "\<exists>s'. p_step N s s'"
proof -
  obtain q where tq: "target_queue s t = Some q" using g t by (auto simp: graph_ready_def)
  have dec: "0 < n_prev_tasks s u \<Longrightarrow> \<exists>r. dec_prev u s = Some r" for u by (simp add: dec_prev_def Let_def)
  show ?thesis
  proof (cases "phases s t")
    case Idle
    then have pos: "0 < n_prev_tasks s t" using inv t by (auto simp: p_inv_def phases_ok_def)
    have "in_links N (pend s) t = 0"
    proof (rule ccontr)
      assume "in_links N (pend s) t \<noteq> 0"
      then obtain a where a: "a < N" "t \<in> set (pend s a)" using pred_of_positive by blast
      then have "t \<in> set (succs s a)" using inv by (auto simp: p_inv_def links_ok_def)
      then have "phases s a = Done" using low g a(1) by (auto simp: graph_ready_def)
      then show False using a(2) by (simp add: pend_def)
    qed
    then have "token s t \<or> 0 < holds s t" using inv t(1) pos by (auto simp: p_inv_def counts_ok_def split: if_splits)
    then show ?thesis using dec [OF pos] t(1) tq
      by (metis p_step.release p_step.io_done option.distinct(1) surj_pair)
  next
    case Launching
    then have "\<exists>s'. on_launch t s = Some s'" using tq by (simp add: on_launch_def)
    then show ?thesis using p_step.launch t(1) Launching by blast
  next
    case Queued
    then have "t \<in> set (ready s q)" using inv t tq by (simp add: p_inv_def queues_ok_def)
    then obtain u s1 where "pop q s = (Some u, s1)" by (cases "ready s q") (auto simp: pop_def task_pop_def)
    then show ?thesis using p_step.take by blast
  next
    case Running
    then show ?thesis using p_step.finish t(1) by blast
  next
    case (Notifying xs)
    show ?thesis
    proof (cases xs)
      case Nil
      have "\<exists>s'. finish_tail t s = Some s'" using tq by (simp add: finish_tail_def Let_def)
      then show ?thesis using p_step.finished t(1) Notifying Nil by blast
    next
      case (Cons x ys)
      then have p: "x \<in> set (pend s t)" using Notifying by (simp add: pend_def)
      then have "x < N" using inv t(1) by (fastforce simp: p_inv_def links_ok_def)
      then have "0 < n_prev_tasks s x" using inv in_links_pos [of t N x "pend s"] t(1) p
        by (auto simp: p_inv_def counts_ok_def)
      then show ?thesis using dec p_step.notify [OF t(1)] Notifying Cons by (metis surj_pair)
    qed
  qed (use t in simp)
qed

text \<open>
  C22: no deadlock and no livelock: in a scheduled acyclic graph every step of any thread
  strictly decreases \<open>work\<close>, so every execution ends, and it can only end with all tasks done and
  no queue reporting unfinished tasks, which is when \<open>Pipeline::run\<close> returns.
\<close>

theorem task_graph_completes:
  assumes "p_reach N s" "graph_ready N rank s"
  shows "(\<forall>s'. p_step N s s' \<longrightarrow> work N s' < work N s \<and> graph_ready N rank s') \<and>
    ((\<exists>s'. p_step N s s') \<or> ((\<forall>t<N. phases s t = Done) \<and> \<not> pipeline_busy qs s))"
proof (intro conjI allI impI)
  have inv: "p_inv N s" by (rule p_reach_inv [OF assms(1)])
  show "work N s' < work N s" "graph_ready N rank s'" if "p_step N s s'" for s'
    using p_step_work [OF that inv assms(2)] by auto
  show "(\<exists>s'. p_step N s s') \<or> ((\<forall>t<N. phases s t = Done) \<and> \<not> pipeline_busy qs s)"
  proof (cases "\<forall>t<N. phases s t = Done")
    case True
    have "n_unfinished_tasks s q = 0" for q
      using inv True by (auto simp: p_inv_def queues_ok_def)
    then show ?thesis using True by (simp add: pipeline_busy_def list_ex_iff)
  next
    case False
    then obtain t where t: "t < N" "phases s t \<noteq> Done" and low: "\<And>u. u < N \<Longrightarrow> rank u < rank t \<Longrightarrow> phases s u = Done"
      using lowest_unfinished [of N "\<lambda>t. phases s t = Done" rank] by blast
    show ?thesis using lowest_step [OF inv assms(2) t low] by blast
  qed
qed

subsection \<open>A concrete graph\<close>

text \<open>Two tasks, the first linked to the second, both scheduled on queue 0; the first has run.\<close>

definition p_demo_built :: pstate where
  "p_demo_built = (let s = (task_link_to 0 1 p_init)\<lparr>succs := (\<lambda>_. [])(0 := [1])\<rparr>
     in s\<lparr>target_queue := [0 \<mapsto> 0, 1 \<mapsto> 0], n_unfinished_tasks := (\<lambda>_. 0)(0 := 2)\<rparr>)"

lemma p_demo_built_reach: "p_reach 2 p_demo_built"
proof -
  let ?s0 = "(task_link_to 0 1 p_init)\<lparr>succs := (succs p_init)(0 := succs p_init 0 @ [1])\<rparr>"
  have r0: "p_reach 2 ?s0"
    by (rule p_reach.step [OF p_reach.init p_step.link]) (simp_all add: p_init_def)
  obtain s1 where s1: "enroll 0 0 ?s0 = Some s1" "target_queue s1 1 = None"
    by (simp add: enroll_def task_defs p_init_def)
  have r1: "p_reach 2 s1" by (rule p_reach.step [OF r0 p_step.enroll [OF _ s1(1)]]) simp
  have "enroll 0 1 s1 = Some p_demo_built"
    using s1 by (auto simp: enroll_def task_defs p_init_def p_demo_built_def fun_eq_iff)
  then show ?thesis using p_reach.step [OF r1 p_step.enroll, of 1] by simp
qed

theorem task_graph_completes_witness:
  "\<exists>s'. p_step 2 p_demo_built s' \<and> work 2 s' < work 2 p_demo_built \<and> graph_ready 2 id s'"
proof -
  have "graph_ready 2 id p_demo_built"
    by (auto simp: graph_ready_def p_demo_built_def task_defs p_init_def less_2_cases_iff)
  from task_graph_completes [OF p_demo_built_reach this] show ?thesis
    by (auto simp: p_demo_built_def task_defs p_init_def less_2_cases_iff)
qed

theorem task_assertions_hold_witness:
  "token p_demo_built 0 \<and> dec_prev 0 p_demo_built \<noteq> None"
  using task_assertions_hold [OF p_demo_built_reach, of 0] by (simp add: p_demo_built_def task_defs p_init_def)

text \<open>The same graph after its first task has run and notified the second one.\<close>

definition demo_at :: "pstate \<Rightarrow> phase \<Rightarrow> phase \<Rightarrow> nat \<Rightarrow> nat \<Rightarrow> bool" where
  "demo_at s p0 p1 n0 n1 \<longleftrightarrow> p_reach 2 s \<and> phases s 0 = p0 \<and> phases s 1 = p1 \<and>
     n_prev_tasks s 0 = n0 \<and> n_prev_tasks s 1 = n1 \<and> next_tasks s 0 = [1] \<and> succs s 0 = [1] \<and>
     target_queue s = [0 \<mapsto> 0, 1 \<mapsto> 0] \<and> token s 1 \<and> ready s 0 = (if p0 = Queued then [0] else [])"

lemma demo_start: "demo_at p_demo_built Idle Idle 1 2 \<and> token p_demo_built 0"
  using p_demo_built_reach by (simp add: demo_at_def p_demo_built_def task_defs p_init_def)

lemma demo_launched: "\<exists>s. demo_at s Running Idle 0 2"
proof -
  obtain s1 l where d: "dec_prev 0 p_demo_built = Some (l, s1)"
    using demo_start by (simp add: demo_at_def dec_prev_def Let_def)
  define s2 where "s2 = started l 0 (s1\<lparr>token := (token s1)(0 := False)\<rparr>)"
  have "p_reach 2 s2"
    unfolding s2_def by (rule p_reach.step [OF p_demo_built_reach p_step.release [OF _ _ _ d]])
      (use demo_start in \<open>simp_all add: demo_at_def\<close>)
  then have s2: "demo_at s2 Launching Idle 0 2"
    using demo_start d by (auto simp: demo_at_def s2_def dec_prev_def Let_def started_def set_phase_def)
  then obtain s3 where l: "on_launch 0 s2 = Some s3" by (simp add: demo_at_def on_launch_def)
  define s4 where "s4 = set_phase 0 Queued (s3\<lparr>launches := (launches s3)(0 := launches s3 0 + 1)\<rparr>)"
  have "p_reach 2 s4"
    unfolding s4_def by (rule p_reach.step [OF _ p_step.launch [OF _ _ l]]) (use s2 in \<open>simp_all add: demo_at_def\<close>)
  then have s4: "demo_at s4 Queued Idle 0 2"
    using s2 l by (auto simp: demo_at_def s4_def on_launch_def set_phase_def task_push_def)
  then obtain s5 where p: "pop 0 s4 = (Some 0, s5)" by (simp add: demo_at_def pop_def task_pop_def)
  have "p_reach 2 (set_phase 0 Running s5)"
    by (rule p_reach.step [OF _ p_step.take [OF p]]) (use s4 in \<open>simp add: demo_at_def\<close>)
  then have "demo_at (set_phase 0 Running s5) Running Idle 0 2"
    using s4 p by (auto simp: demo_at_def pop_def task_pop_def set_phase_def)
  then show ?thesis by blast
qed

lemma demo_notified: "\<exists>s. demo_at s (Notifying [1]) Idle 0 2"
proof -
  obtain s where s: "demo_at s Running Idle 0 2" using demo_launched by blast
  have "p_reach 2 (set_phase 0 (Notifying (next_tasks s 0)) s)"
    by (rule p_reach.step [OF _ p_step.finish]) (use s in \<open>simp_all add: demo_at_def\<close>)
  then have "demo_at (set_phase 0 (Notifying (next_tasks s 0)) s) (Notifying [1]) Idle 0 2"
    using s by (auto simp: demo_at_def set_phase_def)
  then show ?thesis by blast
qed

lemma demo_second_launching:
  "\<exists>s. p_reach 2 s \<and> succs s 0 = [1] \<and> phases s 1 = Launching"
proof -
  obtain s where s: "demo_at s (Notifying [1]) Idle 0 2" using demo_notified by blast
  then have "dec_prev 1 s = Some (False, s\<lparr>n_prev_tasks := (n_prev_tasks s)(1 := 1)\<rparr>)"
    by (simp add: demo_at_def dec_prev_def Let_def)
  then obtain s1 l where d: "dec_prev 1 s = Some (l, s1)" by blast
  define s2 where "s2 = started l 1 (set_phase 0 (Notifying []) s1)"
  have r2: "p_reach 2 s2"
    unfolding s2_def by (rule p_reach.step [OF _ p_step.notify [OF _ _ d]]) (use s in \<open>simp_all add: demo_at_def\<close>)
  have f: "succs s2 0 = [1]" "token s2 1" "target_queue s2 1 = Some 0" "n_prev_tasks s2 1 = 1"
    using s d by (auto simp: demo_at_def s2_def dec_prev_def Let_def started_def set_phase_def)
  then obtain s3 m where e: "dec_prev 1 s2 = Some (m, s3)" by (simp add: dec_prev_def Let_def)
  define s4 where "s4 = started m 1 (s3\<lparr>token := (token s3)(1 := False)\<rparr>)"
  have "p_reach 2 s4"
    unfolding s4_def by (rule p_reach.step [OF r2 p_step.release [OF _ _ _ e]]) (use f in simp_all)
  moreover have "succs s4 0 = [1] \<and> phases s4 1 = Launching"
    using f e by (auto simp: s4_def dec_prev_def Let_def started_def set_phase_def)
  ultimately show ?thesis by blast
qed

theorem task_launched_once_after_predecessors_witness:
  "\<exists>s. p_reach 2 s \<and> phases s 1 = Launching \<and> launches s 1 \<le> 1 \<and> launches s 0 \<le> 1 \<and>
    (phases s 0 = Done \<or> (\<exists>xs. phases s 0 = Notifying xs \<and> 1 \<notin> set xs)) \<and>
    holds s 1 = 0 \<and> target_queue s 1 \<noteq> None"
proof -
  obtain s where s: "p_reach 2 s" "succs s 0 = [1]" "phases s 1 = Launching"
    using demo_second_launching by blast
  note one = task_launched_once_after_predecessors [OF s(1), of 1] and zero = task_launched_once_after_predecessors [OF s(1), of 0]
  have "phases s 0 = Done \<or> (\<exists>xs. phases s 0 = Notifying xs \<and> 1 \<notin> set xs)" using one s by simp
  then show ?thesis using one zero s by (intro exI [of _ s]) auto
qed

end
