(* ===== verification/Chat_Template.thy ===== *)
theory Chat_Template
  imports Prelude "HOL-Library.Char_ord" "HOL-Library.List_Lexorder"
begin

text \<open>
  The built-in chat templates of \<open>llama-chat.cpp\<close>: the table of names, the detection of a
  template from its Jinja source, and the renderer of every template.  A string is a list of
  bytes; literals outside ASCII are written as their UTF-8 bytes.  Each branch of
  \<open>llm_chat_apply_template\<close> is one definition: what it writes before the loop, the body of
  the loop over the messages with its local variables, and the generation prompt.
\<close>

abbreviation nl :: string where "nl \<equiv> [CHR 0x0A]"

record chat_message =
  role :: string
  content :: string

datatype llm_chat_template =
    LLM_CHAT_TEMPLATE_CHATML
  | LLM_CHAT_TEMPLATE_LLAMA_2
  | LLM_CHAT_TEMPLATE_LLAMA_2_SYS
  | LLM_CHAT_TEMPLATE_LLAMA_2_SYS_BOS
  | LLM_CHAT_TEMPLATE_LLAMA_2_SYS_STRIP
  | LLM_CHAT_TEMPLATE_MISTRAL_V1
  | LLM_CHAT_TEMPLATE_MISTRAL_V3
  | LLM_CHAT_TEMPLATE_MISTRAL_V3_TEKKEN
  | LLM_CHAT_TEMPLATE_MISTRAL_V7
  | LLM_CHAT_TEMPLATE_MISTRAL_V7_TEKKEN
  | LLM_CHAT_TEMPLATE_PHI_3
  | LLM_CHAT_TEMPLATE_PHI_4
  | LLM_CHAT_TEMPLATE_FALCON_3
  | LLM_CHAT_TEMPLATE_ZEPHYR
  | LLM_CHAT_TEMPLATE_MONARCH
  | LLM_CHAT_TEMPLATE_GEMMA
  | LLM_CHAT_TEMPLATE_ORION
  | LLM_CHAT_TEMPLATE_OPENCHAT
  | LLM_CHAT_TEMPLATE_VICUNA
  | LLM_CHAT_TEMPLATE_VICUNA_ORCA
  | LLM_CHAT_TEMPLATE_DEEPSEEK
  | LLM_CHAT_TEMPLATE_DEEPSEEK_2
  | LLM_CHAT_TEMPLATE_DEEPSEEK_3
  | LLM_CHAT_TEMPLATE_COMMAND_R
  | LLM_CHAT_TEMPLATE_LLAMA_3
  | LLM_CHAT_TEMPLATE_CHATGLM_3
  | LLM_CHAT_TEMPLATE_CHATGLM_4
  | LLM_CHAT_TEMPLATE_GLMEDGE
  | LLM_CHAT_TEMPLATE_MINICPM
  | LLM_CHAT_TEMPLATE_EXAONE_3
  | LLM_CHAT_TEMPLATE_RWKV_WORLD
  | LLM_CHAT_TEMPLATE_GRANITE
  | LLM_CHAT_TEMPLATE_GIGACHAT
  | LLM_CHAT_TEMPLATE_MEGREZ
  | LLM_CHAT_TEMPLATE_YANDEX
  | LLM_CHAT_TEMPLATE_BAILING
  | LLM_CHAT_TEMPLATE_LLAMA4
  | LLM_CHAT_TEMPLATE_SMOLVLM
  | LLM_CHAT_TEMPLATE_UNKNOWN

subsection \<open>trim\<close>

definition isspace :: "char \<Rightarrow> bool" where
  "isspace c \<longleftrightarrow> c \<in> set [CHR '' '', CHR 0x09, CHR 0x0A, CHR 0x0B, CHR 0x0C, CHR 0x0D]"

definition toupper :: "char \<Rightarrow> char" where
  "toupper c = (if 97 \<le> (of_char c :: nat) \<and> (of_char c :: nat) \<le> 122 then char_of (of_char c - 32 :: nat) else c)"

function trim_start :: "string \<Rightarrow> nat \<Rightarrow> nat \<Rightarrow> nat" where
  "trim_start str start stop =
     (if start < stop \<and> isspace (str ! start) then trim_start str (start + 1) stop else start)"
  by pat_completeness auto
termination by (relation "measure (\<lambda>(str, start, stop). stop - start)") auto

fun trim_end :: "string \<Rightarrow> nat \<Rightarrow> nat \<Rightarrow> nat" where
  "trim_end str start stop =
     (if stop > start \<and> isspace (str ! (stop - 1)) then trim_end str start (stop - 1) else stop)"

declare trim_start.simps [simp del] trim_end.simps [simp del]

definition trim :: "string \<Rightarrow> string" where
  "trim str = (let start = trim_start str 0 (length str); stop = trim_end str start (length str)
     in take (stop - start) (drop start str))"

subsection \<open>Names and detection\<close>

definition LLM_CHAT_TEMPLATES :: "(string \<times> llm_chat_template) list" where
  "LLM_CHAT_TEMPLATES =
  [(''chatml'', LLM_CHAT_TEMPLATE_CHATML),
   (''llama2'', LLM_CHAT_TEMPLATE_LLAMA_2),
   (''llama2-sys'', LLM_CHAT_TEMPLATE_LLAMA_2_SYS),
   (''llama2-sys-bos'', LLM_CHAT_TEMPLATE_LLAMA_2_SYS_BOS),
   (''llama2-sys-strip'', LLM_CHAT_TEMPLATE_LLAMA_2_SYS_STRIP),
   (''mistral-v1'', LLM_CHAT_TEMPLATE_MISTRAL_V1),
   (''mistral-v3'', LLM_CHAT_TEMPLATE_MISTRAL_V3),
   (''mistral-v3-tekken'', LLM_CHAT_TEMPLATE_MISTRAL_V3_TEKKEN),
   (''mistral-v7'', LLM_CHAT_TEMPLATE_MISTRAL_V7),
   (''mistral-v7-tekken'', LLM_CHAT_TEMPLATE_MISTRAL_V7_TEKKEN),
   (''phi3'', LLM_CHAT_TEMPLATE_PHI_3),
   (''phi4'', LLM_CHAT_TEMPLATE_PHI_4),
   (''falcon3'', LLM_CHAT_TEMPLATE_FALCON_3),
   (''zephyr'', LLM_CHAT_TEMPLATE_ZEPHYR),
   (''monarch'', LLM_CHAT_TEMPLATE_MONARCH),
   (''gemma'', LLM_CHAT_TEMPLATE_GEMMA),
   (''orion'', LLM_CHAT_TEMPLATE_ORION),
   (''openchat'', LLM_CHAT_TEMPLATE_OPENCHAT),
   (''vicuna'', LLM_CHAT_TEMPLATE_VICUNA),
   (''vicuna-orca'', LLM_CHAT_TEMPLATE_VICUNA_ORCA),
   (''deepseek'', LLM_CHAT_TEMPLATE_DEEPSEEK),
   (''deepseek2'', LLM_CHAT_TEMPLATE_DEEPSEEK_2),
   (''deepseek3'', LLM_CHAT_TEMPLATE_DEEPSEEK_3),
   (''command-r'', LLM_CHAT_TEMPLATE_COMMAND_R),
   (''llama3'', LLM_CHAT_TEMPLATE_LLAMA_3),
   (''chatglm3'', LLM_CHAT_TEMPLATE_CHATGLM_3),
   (''chatglm4'', LLM_CHAT_TEMPLATE_CHATGLM_4),
   (''glmedge'', LLM_CHAT_TEMPLATE_GLMEDGE),
   (''minicpm'', LLM_CHAT_TEMPLATE_MINICPM),
   (''exaone3'', LLM_CHAT_TEMPLATE_EXAONE_3),
   (''rwkv-world'', LLM_CHAT_TEMPLATE_RWKV_WORLD),
   (''granite'', LLM_CHAT_TEMPLATE_GRANITE),
   (''gigachat'', LLM_CHAT_TEMPLATE_GIGACHAT),
   (''megrez'', LLM_CHAT_TEMPLATE_MEGREZ),
   (''yandex'', LLM_CHAT_TEMPLATE_YANDEX),
   (''bailing'', LLM_CHAT_TEMPLATE_BAILING),
   (''llama4'', LLM_CHAT_TEMPLATE_LLAMA4),
   (''smolvlm'', LLM_CHAT_TEMPLATE_SMOLVLM)]"

definition llm_chat_template_from_str :: "string \<Rightarrow> llm_chat_template option" where
  "llm_chat_template_from_str name = map_of LLM_CHAT_TEMPLATES name"

definition tmpl_contains :: "string \<Rightarrow> string \<Rightarrow> bool" where
  "tmpl_contains tmpl needle \<longleftrightarrow> list_ex (prefix needle) (suffixes tmpl)"

definition detect_mistral_or_llama2 :: "string \<Rightarrow> llm_chat_template" where
  "detect_mistral_or_llama2 tmpl = (let has = tmpl_contains tmpl in
     if has (''[SYSTEM_PROMPT]'') then LLM_CHAT_TEMPLATE_MISTRAL_V7
     else if has ([CHR 0x27] @ '' [INST] '' @ [CHR 0x27] @ '' + system_message'') \<or> has (''[AVAILABLE_TOOLS]'') then
       (if has ('' [INST]'') then LLM_CHAT_TEMPLATE_MISTRAL_V1
        else if has ([CHR 0x22] @ ''[INST]'' @ [CHR 0x22]) then LLM_CHAT_TEMPLATE_MISTRAL_V3_TEKKEN
        else LLM_CHAT_TEMPLATE_MISTRAL_V3)
     else
       (let support_system_message = has (''<<SYS>>'');
            add_bos_inside_history = has (''bos_token + '' @ [CHR 0x27] @ ''[INST]'');
            strip_message = has (''content.strip()'')
        in if strip_message then LLM_CHAT_TEMPLATE_LLAMA_2_SYS_STRIP
           else if add_bos_inside_history then LLM_CHAT_TEMPLATE_LLAMA_2_SYS_BOS
           else if support_system_message then LLM_CHAT_TEMPLATE_LLAMA_2_SYS
           else LLM_CHAT_TEMPLATE_LLAMA_2))"

definition llm_chat_detect_heuristic :: "string \<Rightarrow> llm_chat_template" where
  "llm_chat_detect_heuristic tmpl = (let has = tmpl_contains tmpl in
     if has (''<|im_start|>'') then
       (if has (''<|im_sep|>'') then LLM_CHAT_TEMPLATE_PHI_4
        else if has (''<end_of_utterance>'') then LLM_CHAT_TEMPLATE_SMOLVLM
        else LLM_CHAT_TEMPLATE_CHATML)
     else if prefix (''mistral'') tmpl \<or> has (''[INST]'') then detect_mistral_or_llama2 tmpl
     else if has (''<|assistant|>'') \<and> has (''<|end|>'') then LLM_CHAT_TEMPLATE_PHI_3
     else if has (''[gMASK]<sop>'') then LLM_CHAT_TEMPLATE_CHATGLM_4
     else if has (''<|assistant|>'') \<and> has (''<|user|>'') then
       (if has (''</s>'') then LLM_CHAT_TEMPLATE_FALCON_3 else LLM_CHAT_TEMPLATE_GLMEDGE)
     else if has (''<|{{ item['' @ [CHR 0x27] @ ''role'' @ [CHR 0x27] @ ''] }}|>'') \<and> has (''<|begin_of_image|>'') then LLM_CHAT_TEMPLATE_GLMEDGE
     else if has (''<|user|>'') \<and> has (''<|endoftext|>'') then LLM_CHAT_TEMPLATE_ZEPHYR
     else if has (''bos_token + message['' @ [CHR 0x27] @ ''role'' @ [CHR 0x27] @ '']'') then LLM_CHAT_TEMPLATE_MONARCH
     else if has (''<start_of_turn>'') then LLM_CHAT_TEMPLATE_GEMMA
     else if has ([CHR 0x27, CHR 0x5C] @ ''n'' @ [CHR 0x5C] @ ''nAssistant: '' @ [CHR 0x27] @ '' + eos_token'') then LLM_CHAT_TEMPLATE_ORION
     else if has (''GPT4 Correct '') then LLM_CHAT_TEMPLATE_OPENCHAT
     else if has (''USER: '') \<and> has (''ASSISTANT: '') then
       (if has (''SYSTEM: '') then LLM_CHAT_TEMPLATE_VICUNA_ORCA else LLM_CHAT_TEMPLATE_VICUNA)
     else if has (''### Instruction:'') \<and> has (''<|EOT|>'') then LLM_CHAT_TEMPLATE_DEEPSEEK
     else if has (''<|START_OF_TURN_TOKEN|>'') \<and> has (''<|USER_TOKEN|>'') then LLM_CHAT_TEMPLATE_COMMAND_R
     else if has (''<|start_header_id|>'') \<and> has (''<|end_header_id|>'') then LLM_CHAT_TEMPLATE_LLAMA_3
     else if has (''[gMASK]sop'') then LLM_CHAT_TEMPLATE_CHATGLM_3
     else if has (''<'' @ [CHR 0xE7, CHR 0x94, CHR 0xA8, CHR 0xE6, CHR 0x88, CHR 0xB7] @ ''>'') then LLM_CHAT_TEMPLATE_MINICPM
     else if has ([CHR 0x27] @ ''Assistant: '' @ [CHR 0x27] @ '' + message['' @ [CHR 0x27] @ ''content'' @ [CHR 0x27] @ ''] + eos_token'') then LLM_CHAT_TEMPLATE_DEEPSEEK_2
     else if has (''<'' @ [CHR 0xEF, CHR 0xBD, CHR 0x9C] @ ''Assistant'' @ [CHR 0xEF, CHR 0xBD, CHR 0x9C] @ ''>'') \<and> has (''<'' @ [CHR 0xEF, CHR 0xBD, CHR 0x9C] @ ''User'' @ [CHR 0xEF, CHR 0xBD, CHR 0x9C] @ ''>'') \<and>
         has (''<'' @ [CHR 0xEF, CHR 0xBD, CHR 0x9C] @ ''end'' @ [CHR 0xE2, CHR 0x96, CHR 0x81] @ ''of'' @ [CHR 0xE2, CHR 0x96, CHR 0x81] @ ''sentence'' @ [CHR 0xEF, CHR 0xBD, CHR 0x9C] @ ''>'') then LLM_CHAT_TEMPLATE_DEEPSEEK_3
     else if has (''[|system|]'') \<and> has (''[|assistant|]'') \<and> has (''[|endofturn|]'') then LLM_CHAT_TEMPLATE_EXAONE_3
     else if has (''rwkv-world'') then LLM_CHAT_TEMPLATE_RWKV_WORLD
     else if has (''<|start_of_role|>'') then LLM_CHAT_TEMPLATE_GRANITE
     else if has (''message['' @ [CHR 0x27] @ ''role'' @ [CHR 0x27] @ ''] + additional_special_tokens[0] + message['' @ [CHR 0x27] @ ''content'' @ [CHR 0x27] @ ''] + additional_special_tokens[1]'')
       then LLM_CHAT_TEMPLATE_GIGACHAT
     else if has (''<|role_start|>'') then LLM_CHAT_TEMPLATE_MEGREZ
     else if has ('' '' @ [CHR 0xD0, CHR 0x90, CHR 0xD1, CHR 0x81, CHR 0xD1, CHR 0x81, CHR 0xD0, CHR 0xB8, CHR 0xD1, CHR 0x81, CHR 0xD1, CHR 0x82, CHR 0xD0, CHR 0xB5, CHR 0xD0, CHR 0xBD, CHR 0xD1, CHR 0x82] @ '':'') then LLM_CHAT_TEMPLATE_YANDEX
     else if has (''<role>ASSISTANT</role>'') \<and> has ([CHR 0x27] @ ''HUMAN'' @ [CHR 0x27]) then LLM_CHAT_TEMPLATE_BAILING
     else if has (''<|header_start|>'') \<and> has (''<|header_end|>'') then LLM_CHAT_TEMPLATE_LLAMA4
     else LLM_CHAT_TEMPLATE_UNKNOWN)"

definition llm_chat_detect_template :: "string \<Rightarrow> llm_chat_template" where
  "llm_chat_detect_template tmpl = (case llm_chat_template_from_str tmpl of
     Some t \<Rightarrow> t | None \<Rightarrow> llm_chat_detect_heuristic tmpl)"

subsection \<open>Rendering\<close>

text \<open>
  \<open>render before body locals chat prompt add_ass\<close>: the writes before the loop, the loop (its
  body gets the local variables and a message, and gives what it writes and the new values),
  the generation prompt when asked for.
\<close>

fun loop :: "('s \<Rightarrow> chat_message \<Rightarrow> string \<times> 's) \<Rightarrow> 's \<Rightarrow> chat_message list \<Rightarrow> string" where
  "loop body s [] = []"
| "loop body s (m # ms) = (case body s m of (ss, s') \<Rightarrow> ss @ loop body s' ms)"

definition render :: "string \<Rightarrow> ('s \<Rightarrow> chat_message \<Rightarrow> string \<times> 's) \<Rightarrow> 's \<Rightarrow> string \<Rightarrow> chat_message list \<Rightarrow> bool \<Rightarrow> string" where
  "render before body s prompt chat add_ass = before @ loop body s chat @ (if add_ass then prompt else [])"

definition plain :: "(chat_message \<Rightarrow> string) \<Rightarrow> unit \<Rightarrow> chat_message \<Rightarrow> string \<times> unit" where
  "plain f = (\<lambda>_ m. (f m, ()))"

definition apply_chatml :: "chat_message list \<Rightarrow> bool \<Rightarrow> string" where
  "apply_chatml = render [] (plain (\<lambda>m. ''<|im_start|>'' @ role m @ nl @ content m @ ''<|im_end|>'' @ nl)) ()
     (''<|im_start|>assistant'' @ nl)"

definition apply_mistral_v7 :: "llm_chat_template \<Rightarrow> chat_message list \<Rightarrow> bool \<Rightarrow> string" where
  "apply_mistral_v7 tmpl = (let trailing_space = (if tmpl = LLM_CHAT_TEMPLATE_MISTRAL_V7 then '' '' else []) in
     render [] (plain (\<lambda>m.
       if role m = ''system'' then ''[SYSTEM_PROMPT]'' @ trailing_space @ content m @ ''[/SYSTEM_PROMPT]''
       else if role m = ''user'' then ''[INST]'' @ trailing_space @ content m @ ''[/INST]''
       else trailing_space @ content m @ ''</s>'')) () [])"

definition apply_mistral :: "llm_chat_template \<Rightarrow> chat_message list \<Rightarrow> bool \<Rightarrow> string" where
  "apply_mistral tmpl =
     (let leading_space = (if tmpl = LLM_CHAT_TEMPLATE_MISTRAL_V1 then '' '' else []);
          trailing_space = (if tmpl = LLM_CHAT_TEMPLATE_MISTRAL_V3_TEKKEN then [] else '' '');
          trim_assistant_message = (tmpl = LLM_CHAT_TEMPLATE_MISTRAL_V3)
      in render [] (\<lambda>is_inside_turn m.
           let ss = (if \<not> is_inside_turn then leading_space @ ''[INST]'' @ trailing_space else []);
               is_inside_turn = True
           in if role m = ''system'' then (ss @ content m @ nl @ nl, is_inside_turn)
              else if role m = ''user'' then (ss @ content m @ leading_space @ ''[/INST]'', is_inside_turn)
              else (ss @ trailing_space @ (if trim_assistant_message then trim (content m) else content m) @ ''</s>'',
                    False))
         False [])"

definition apply_llama2 :: "llm_chat_template \<Rightarrow> chat_message list \<Rightarrow> bool \<Rightarrow> string" where
  "apply_llama2 tmpl =
     (let support_system_message = (tmpl \<noteq> LLM_CHAT_TEMPLATE_LLAMA_2);
          add_bos_inside_history = (tmpl = LLM_CHAT_TEMPLATE_LLAMA_2_SYS_BOS);
          strip_message = (tmpl = LLM_CHAT_TEMPLATE_LLAMA_2_SYS_STRIP)
      in render (''[INST] '') (\<lambda>is_inside_turn m.
           let cont = (if strip_message then trim (content m) else content m);
               ss = (if \<not> is_inside_turn then (if add_bos_inside_history then ''<s>[INST] '' else ''[INST] '') else []);
               is_inside_turn = True
           in if role m = ''system'' then
                (ss @ (if support_system_message then ''<<SYS>>'' @ nl @ cont @ nl @ ''<</SYS>>'' @ nl @ nl else cont @ nl),
                 is_inside_turn)
              else if role m = ''user'' then (ss @ cont @ '' [/INST]'', is_inside_turn)
              else (ss @ cont @ ''</s>'', False))
         True [])"

definition apply_phi3 :: "chat_message list \<Rightarrow> bool \<Rightarrow> string" where
  "apply_phi3 = render [] (plain (\<lambda>m. ''<|'' @ role m @ ''|>'' @ nl @ content m @ ''<|end|>'' @ nl)) () (''<|assistant|>'' @ nl)"

definition apply_phi4 :: "chat_message list \<Rightarrow> bool \<Rightarrow> string" where
  "apply_phi4 = render [] (plain (\<lambda>m. ''<|im_start|>'' @ role m @ ''<|im_sep|>'' @ content m @ ''<|im_end|>'')) ()
     (''<|im_start|>assistant<|im_sep|>'')"

definition apply_falcon3 :: "chat_message list \<Rightarrow> bool \<Rightarrow> string" where
  "apply_falcon3 = render [] (plain (\<lambda>m. ''<|'' @ role m @ ''|>'' @ nl @ content m @ nl)) () (''<|assistant|>'' @ nl)"

definition apply_zephyr :: "chat_message list \<Rightarrow> bool \<Rightarrow> string" where
  "apply_zephyr = render [] (plain (\<lambda>m. ''<|'' @ role m @ ''|>'' @ nl @ content m @ ''<|endoftext|>'' @ nl)) ()
     (''<|assistant|>'' @ nl)"

text \<open>The comparison of a message pointer with \<open>chat.front()\<close> is the state of this loop.\<close>

definition apply_monarch :: "chat_message list \<Rightarrow> bool \<Rightarrow> string" where
  "apply_monarch = render [] (\<lambda>front m.
       ((if front then [] else ''<s>'') @ role m @ nl @ content m @ ''</s>'' @ nl, False)) True (''<s>assistant'' @ nl)"

definition apply_gemma :: "chat_message list \<Rightarrow> bool \<Rightarrow> string" where
  "apply_gemma = render [] (\<lambda>system_prompt m.
       if role m = ''system'' then ([], trim (content m))
       else let r = (if role m = ''assistant'' then ''model'' else role m);
                ss = ''<start_of_turn>'' @ r @ nl
            in if system_prompt \<noteq> [] \<and> r \<noteq> ''model''
               then (ss @ system_prompt @ nl @ nl @ trim (content m) @ ''<end_of_turn>'' @ nl, [])
               else (ss @ trim (content m) @ ''<end_of_turn>'' @ nl, system_prompt))
     [] (''<start_of_turn>model'' @ nl)"

definition apply_orion :: "chat_message list \<Rightarrow> bool \<Rightarrow> string" where
  "apply_orion = render [] (\<lambda>system_prompt m.
       if role m = ''system'' then ([], content m)
       else if role m = ''user'' then
         (''Human: '' @ (if system_prompt \<noteq> [] then system_prompt @ nl @ nl else []) @ content m @ nl @ nl @ ''Assistant: </s>'', [])
       else (content m @ ''</s>'', system_prompt)) [] []"

definition capitalised :: "string \<Rightarrow> string" where
  "capitalised r = (case r of [] \<Rightarrow> [] | c # cs \<Rightarrow> toupper c # cs)"

definition apply_openchat :: "chat_message list \<Rightarrow> bool \<Rightarrow> string" where
  "apply_openchat = render [] (plain (\<lambda>m.
       if role m = ''system'' then content m @ ''<|end_of_turn|>''
       else ''GPT4 Correct '' @ capitalised (role m) @ '': '' @ content m @ ''<|end_of_turn|>'')) ()
     (''GPT4 Correct Assistant:'')"

definition apply_vicuna :: "llm_chat_template \<Rightarrow> chat_message list \<Rightarrow> bool \<Rightarrow> string" where
  "apply_vicuna tmpl = render [] (plain (\<lambda>m.
       if role m = ''system'' then
         (if tmpl = LLM_CHAT_TEMPLATE_VICUNA_ORCA then ''SYSTEM: '' @ content m @ nl else content m @ nl @ nl)
       else if role m = ''user'' then ''USER: '' @ content m @ nl
       else if role m = ''assistant'' then ''ASSISTANT: '' @ content m @ ''</s>'' @ nl
       else [])) () (''ASSISTANT:'')"

definition apply_deepseek :: "chat_message list \<Rightarrow> bool \<Rightarrow> string" where
  "apply_deepseek = render [] (plain (\<lambda>m.
       if role m = ''system'' then content m
       else if role m = ''user'' then ''### Instruction:'' @ nl @ content m @ nl
       else if role m = ''assistant'' then ''### Response:'' @ nl @ content m @ nl @ ''<|EOT|>'' @ nl
       else [])) () (''### Response:'' @ nl)"

definition apply_command_r :: "chat_message list \<Rightarrow> bool \<Rightarrow> string" where
  "apply_command_r = render [] (plain (\<lambda>m.
       if role m = ''system'' then ''<|START_OF_TURN_TOKEN|><|SYSTEM_TOKEN|>'' @ trim (content m) @ ''<|END_OF_TURN_TOKEN|>''
       else if role m = ''user'' then ''<|START_OF_TURN_TOKEN|><|USER_TOKEN|>'' @ trim (content m) @ ''<|END_OF_TURN_TOKEN|>''
       else if role m = ''assistant'' then
         ''<|START_OF_TURN_TOKEN|><|CHATBOT_TOKEN|>'' @ trim (content m) @ ''<|END_OF_TURN_TOKEN|>''
       else [])) () (''<|START_OF_TURN_TOKEN|><|CHATBOT_TOKEN|>'')"

definition apply_llama3 :: "chat_message list \<Rightarrow> bool \<Rightarrow> string" where
  "apply_llama3 = render [] (plain (\<lambda>m.
       ''<|start_header_id|>'' @ role m @ ''<|end_header_id|>'' @ nl @ nl @ trim (content m) @ ''<|eot_id|>'')) ()
     (''<|start_header_id|>assistant<|end_header_id|>'' @ nl @ nl)"

definition apply_chatglm3 :: "chat_message list \<Rightarrow> bool \<Rightarrow> string" where
  "apply_chatglm3 = render (''[gMASK]'' @ ''sop'') (plain (\<lambda>m. ''<|'' @ role m @ ''|>'' @ nl @ '' '' @ content m)) ()
     (''<|assistant|>'')"

definition apply_chatglm4 :: "chat_message list \<Rightarrow> bool \<Rightarrow> string" where
  "apply_chatglm4 = render (''[gMASK]'' @ ''<sop>'') (plain (\<lambda>m. ''<|'' @ role m @ ''|>'' @ nl @ content m)) ()
     (''<|assistant|>'' @ nl)"

definition apply_glmedge :: "chat_message list \<Rightarrow> bool \<Rightarrow> string" where
  "apply_glmedge = render [] (plain (\<lambda>m. ''<|'' @ role m @ ''|>'' @ nl @ content m)) () (''<|assistant|>'')"

definition apply_minicpm :: "chat_message list \<Rightarrow> bool \<Rightarrow> string" where
  "apply_minicpm = render [] (plain (\<lambda>m.
       if role m = ''user'' then ''<'' @ [CHR 0xE7, CHR 0x94, CHR 0xA8, CHR 0xE6, CHR 0x88, CHR 0xB7] @ ''>'' @ trim (content m) @ ''<AI>''
       else trim (content m))) () []"

definition apply_deepseek2 :: "chat_message list \<Rightarrow> bool \<Rightarrow> string" where
  "apply_deepseek2 = render [] (plain (\<lambda>m.
       if role m = ''system'' then content m @ nl @ nl
       else if role m = ''user'' then ''User: '' @ content m @ nl @ nl
       else if role m = ''assistant'' then
         ''Assistant: '' @ content m @ ''<'' @ [CHR 0xEF, CHR 0xBD, CHR 0x9C] @ ''end'' @ [CHR 0xE2, CHR 0x96, CHR 0x81] @ ''of'' @ [CHR 0xE2, CHR 0x96, CHR 0x81] @ ''sentence'' @ [CHR 0xEF, CHR 0xBD, CHR 0x9C] @ ''>''
       else [])) () (''Assistant:'')"

definition apply_deepseek3 :: "chat_message list \<Rightarrow> bool \<Rightarrow> string" where
  "apply_deepseek3 = render [] (plain (\<lambda>m.
       if role m = ''system'' then content m @ nl @ nl
       else if role m = ''user'' then ''<'' @ [CHR 0xEF, CHR 0xBD, CHR 0x9C] @ ''User'' @ [CHR 0xEF, CHR 0xBD, CHR 0x9C] @ ''>'' @ content m
       else if role m = ''assistant'' then
         ''<'' @ [CHR 0xEF, CHR 0xBD, CHR 0x9C] @ ''Assistant'' @ [CHR 0xEF, CHR 0xBD, CHR 0x9C] @ ''>'' @ content m @
         ''<'' @ [CHR 0xEF, CHR 0xBD, CHR 0x9C] @ ''end'' @ [CHR 0xE2, CHR 0x96, CHR 0x81] @ ''of'' @ [CHR 0xE2, CHR 0x96, CHR 0x81] @ ''sentence'' @ [CHR 0xEF, CHR 0xBD, CHR 0x9C] @ ''>''
       else [])) () (''<'' @ [CHR 0xEF, CHR 0xBD, CHR 0x9C] @ ''Assistant'' @ [CHR 0xEF, CHR 0xBD, CHR 0x9C] @ ''>'')"

definition apply_exaone3 :: "chat_message list \<Rightarrow> bool \<Rightarrow> string" where
  "apply_exaone3 = render [] (plain (\<lambda>m.
       if role m = ''system'' then ''[|system|]'' @ trim (content m) @ ''[|endofturn|]'' @ nl
       else if role m = ''user'' then ''[|user|]'' @ trim (content m) @ nl
       else if role m = ''assistant'' then ''[|assistant|]'' @ trim (content m) @ ''[|endofturn|]'' @ nl
       else [])) () (''[|assistant|]'')"

definition apply_rwkv_world :: "chat_message list \<Rightarrow> bool \<Rightarrow> string" where
  "apply_rwkv_world = render [] (plain (\<lambda>m.
       if role m = ''user'' then ''User: '' @ content m @ nl @ nl @ ''Assistant:'' else content m @ nl @ nl)) () []"

definition apply_granite :: "chat_message list \<Rightarrow> bool \<Rightarrow> string" where
  "apply_granite = render [] (plain (\<lambda>m.
       ''<|start_of_role|>'' @ role m @ ''<|end_of_role|>'' @
       (if role m = ''assistant_tool_call'' then ''<|tool_call|>'' else []) @ content m @ ''<|end_of_text|>'' @ nl)) ()
     (''<|start_of_role|>assistant<|end_of_role|>'' @ nl)"

definition gigachat_message :: "chat_message \<Rightarrow> string" where
  "gigachat_message m =
     (if role m = ''user'' then
        ''user<|role_sep|>'' @ content m @ ''<|message_sep|>'' @ ''available functions<|role_sep|>[]<|message_sep|>''
      else if role m = ''assistant'' then ''assistant<|role_sep|>'' @ content m @ ''<|message_sep|>''
      else [])"

definition apply_gigachat :: "chat_message list \<Rightarrow> bool \<Rightarrow> string" where
  "apply_gigachat chat =
     (let has_system = (chat \<noteq> [] \<and> role (hd chat) = ''system'')
      in render (if has_system then ''<s>'' @ content (hd chat) @ ''<|message_sep|>'' else ''<s>'')
           (plain gigachat_message) () (''assistant<|role_sep|>'') (drop (if has_system then 1 else 0) chat))"

definition apply_megrez :: "chat_message list \<Rightarrow> bool \<Rightarrow> string" where
  "apply_megrez = render [] (plain (\<lambda>m. ''<|role_start|>'' @ role m @ ''<|role_end|>'' @ content m @ ''<|turn_end|>'')) ()
     (''<|role_start|>assistant<|role_end|>'')"

definition apply_yandex :: "chat_message list \<Rightarrow> bool \<Rightarrow> string" where
  "apply_yandex = render (''<s>'') (plain (\<lambda>m.
       if role m = ''user'' then
         '' '' @ [CHR 0xD0, CHR 0x9F, CHR 0xD0, CHR 0xBE, CHR 0xD0, CHR 0xBB, CHR 0xD1, CHR 0x8C, CHR 0xD0, CHR 0xB7, CHR 0xD0, CHR 0xBE, CHR 0xD0, CHR 0xB2, CHR 0xD0, CHR 0xB0, CHR 0xD1, CHR 0x82, CHR 0xD0, CHR 0xB5, CHR 0xD0, CHR 0xBB, CHR 0xD1, CHR 0x8C] @ '': '' @ content m @ nl @ nl
       else if role m = ''assistant'' then
         '' '' @ [CHR 0xD0, CHR 0x90, CHR 0xD1, CHR 0x81, CHR 0xD1, CHR 0x81, CHR 0xD0, CHR 0xB8, CHR 0xD1, CHR 0x81, CHR 0xD1, CHR 0x82, CHR 0xD0, CHR 0xB5, CHR 0xD0, CHR 0xBD, CHR 0xD1, CHR 0x82] @ '': '' @ content m @ nl @ nl
       else [])) ()
     ('' '' @ [CHR 0xD0, CHR 0x90, CHR 0xD1, CHR 0x81, CHR 0xD1, CHR 0x81, CHR 0xD0, CHR 0xB8, CHR 0xD1, CHR 0x81, CHR 0xD1, CHR 0x82, CHR 0xD0, CHR 0xB5, CHR 0xD0, CHR 0xBD, CHR 0xD1, CHR 0x82] @ '':[SEP]'')"

definition apply_bailing :: "chat_message list \<Rightarrow> bool \<Rightarrow> string" where
  "apply_bailing = render [] (plain (\<lambda>m.
       let r = (if role m = ''user'' then ''HUMAN'' else map toupper (role m))
       in ''<role>'' @ r @ ''</role>'' @ content m)) () (''<role>ASSISTANT</role>'')"

definition apply_llama4 :: "chat_message list \<Rightarrow> bool \<Rightarrow> string" where
  "apply_llama4 = render [] (plain (\<lambda>m.
       ''<|header_start|>'' @ role m @ ''<|header_end|>'' @ nl @ nl @ trim (content m) @ ''<|eot|>'')) ()
     (''<|header_start|>assistant<|header_end|>'' @ nl @ nl)"

definition apply_smolvlm :: "chat_message list \<Rightarrow> bool \<Rightarrow> string" where
  "apply_smolvlm = render (''<|im_start|>'') (plain (\<lambda>m.
       if role m = ''system'' then content m @ nl @ nl
       else if role m = ''user'' then ''User: '' @ content m @ ''<end_of_utterance>'' @ nl
       else ''Assistant: '' @ content m @ ''<end_of_utterance>'' @ nl)) () (''Assistant:'')"

primrec chat_text :: "llm_chat_template \<Rightarrow> (chat_message list \<Rightarrow> bool \<Rightarrow> string) option" where
  "chat_text LLM_CHAT_TEMPLATE_CHATML = Some apply_chatml"
| "chat_text LLM_CHAT_TEMPLATE_LLAMA_2 = Some (apply_llama2 LLM_CHAT_TEMPLATE_LLAMA_2)"
| "chat_text LLM_CHAT_TEMPLATE_LLAMA_2_SYS = Some (apply_llama2 LLM_CHAT_TEMPLATE_LLAMA_2_SYS)"
| "chat_text LLM_CHAT_TEMPLATE_LLAMA_2_SYS_BOS = Some (apply_llama2 LLM_CHAT_TEMPLATE_LLAMA_2_SYS_BOS)"
| "chat_text LLM_CHAT_TEMPLATE_LLAMA_2_SYS_STRIP = Some (apply_llama2 LLM_CHAT_TEMPLATE_LLAMA_2_SYS_STRIP)"
| "chat_text LLM_CHAT_TEMPLATE_MISTRAL_V1 = Some (apply_mistral LLM_CHAT_TEMPLATE_MISTRAL_V1)"
| "chat_text LLM_CHAT_TEMPLATE_MISTRAL_V3 = Some (apply_mistral LLM_CHAT_TEMPLATE_MISTRAL_V3)"
| "chat_text LLM_CHAT_TEMPLATE_MISTRAL_V3_TEKKEN = Some (apply_mistral LLM_CHAT_TEMPLATE_MISTRAL_V3_TEKKEN)"
| "chat_text LLM_CHAT_TEMPLATE_MISTRAL_V7 = Some (apply_mistral_v7 LLM_CHAT_TEMPLATE_MISTRAL_V7)"
| "chat_text LLM_CHAT_TEMPLATE_MISTRAL_V7_TEKKEN = Some (apply_mistral_v7 LLM_CHAT_TEMPLATE_MISTRAL_V7_TEKKEN)"
| "chat_text LLM_CHAT_TEMPLATE_PHI_3 = Some apply_phi3"
| "chat_text LLM_CHAT_TEMPLATE_PHI_4 = Some apply_phi4"
| "chat_text LLM_CHAT_TEMPLATE_FALCON_3 = Some apply_falcon3"
| "chat_text LLM_CHAT_TEMPLATE_ZEPHYR = Some apply_zephyr"
| "chat_text LLM_CHAT_TEMPLATE_MONARCH = Some apply_monarch"
| "chat_text LLM_CHAT_TEMPLATE_GEMMA = Some apply_gemma"
| "chat_text LLM_CHAT_TEMPLATE_ORION = Some apply_orion"
| "chat_text LLM_CHAT_TEMPLATE_OPENCHAT = Some apply_openchat"
| "chat_text LLM_CHAT_TEMPLATE_VICUNA = Some (apply_vicuna LLM_CHAT_TEMPLATE_VICUNA)"
| "chat_text LLM_CHAT_TEMPLATE_VICUNA_ORCA = Some (apply_vicuna LLM_CHAT_TEMPLATE_VICUNA_ORCA)"
| "chat_text LLM_CHAT_TEMPLATE_DEEPSEEK = Some apply_deepseek"
| "chat_text LLM_CHAT_TEMPLATE_DEEPSEEK_2 = Some apply_deepseek2"
| "chat_text LLM_CHAT_TEMPLATE_DEEPSEEK_3 = Some apply_deepseek3"
| "chat_text LLM_CHAT_TEMPLATE_COMMAND_R = Some apply_command_r"
| "chat_text LLM_CHAT_TEMPLATE_LLAMA_3 = Some apply_llama3"
| "chat_text LLM_CHAT_TEMPLATE_CHATGLM_3 = Some apply_chatglm3"
| "chat_text LLM_CHAT_TEMPLATE_CHATGLM_4 = Some apply_chatglm4"
| "chat_text LLM_CHAT_TEMPLATE_GLMEDGE = Some apply_glmedge"
| "chat_text LLM_CHAT_TEMPLATE_MINICPM = Some apply_minicpm"
| "chat_text LLM_CHAT_TEMPLATE_EXAONE_3 = Some apply_exaone3"
| "chat_text LLM_CHAT_TEMPLATE_RWKV_WORLD = Some apply_rwkv_world"
| "chat_text LLM_CHAT_TEMPLATE_GRANITE = Some apply_granite"
| "chat_text LLM_CHAT_TEMPLATE_GIGACHAT = Some apply_gigachat"
| "chat_text LLM_CHAT_TEMPLATE_MEGREZ = Some apply_megrez"
| "chat_text LLM_CHAT_TEMPLATE_YANDEX = Some apply_yandex"
| "chat_text LLM_CHAT_TEMPLATE_BAILING = Some apply_bailing"
| "chat_text LLM_CHAT_TEMPLATE_LLAMA4 = Some apply_llama4"
| "chat_text LLM_CHAT_TEMPLATE_SMOLVLM = Some apply_smolvlm"
| "chat_text LLM_CHAT_TEMPLATE_UNKNOWN = None"

text \<open>The result is narrowed to \<open>int32_t\<close>; the destination is only written on success.\<close>

definition llm_chat_apply_template ::
  "llm_chat_template \<Rightarrow> chat_message list \<Rightarrow> string \<Rightarrow> bool \<Rightarrow> int \<times> string" where
  "llm_chat_apply_template tmpl chat dest add_ass = (case chat_text tmpl of
     None \<Rightarrow> (-1, dest)
   | Some f \<Rightarrow> (let ss = f chat add_ass in (sint (of_nat (length ss) :: u32), ss)))"

definition llama_chat_builtin_templates :: "nat \<Rightarrow> string list \<times> int" where
  "llama_chat_builtin_templates len =
     (take (min len (length LLM_CHAT_TEMPLATES)) (sort (map fst LLM_CHAT_TEMPLATES)),
      int (length LLM_CHAT_TEMPLATES))"

lemmas chat_branch_defs = apply_chatml_def apply_llama2_def apply_mistral_def apply_mistral_v7_def
  apply_phi3_def apply_phi4_def apply_falcon3_def apply_zephyr_def apply_monarch_def apply_gemma_def
  apply_orion_def apply_openchat_def apply_vicuna_def apply_deepseek_def apply_deepseek2_def
  apply_deepseek3_def apply_command_r_def apply_llama3_def apply_chatglm3_def apply_chatglm4_def
  apply_glmedge_def apply_minicpm_def apply_exaone3_def apply_rwkv_world_def apply_granite_def
  apply_megrez_def apply_yandex_def apply_bailing_def apply_llama4_def apply_smolvlm_def

subsection \<open>trim\<close>

lemma trim_start_drop:
  "s \<le> length str \<Longrightarrow> drop (trim_start str s (length str)) str = dropWhile isspace (drop s str) \<and>
     s \<le> trim_start str s (length str) \<and> trim_start str s (length str) \<le> length str"
proof (induction "length str - s" arbitrary: s)
  case 0
  then show ?case by (subst (1 2 3) trim_start.simps) simp
next
  case (Suc n)
  then have lt: "s < length str" by simp
  then have d: "drop s str = str ! s # drop (Suc s) str" by (simp add: Cons_nth_drop_Suc)
  show ?case
  proof (cases "isspace (str ! s)")
    case True
    then have "trim_start str s (length str) = trim_start str (Suc s) (length str)"
      using lt by (subst trim_start.simps) simp
    moreover have "n = length str - Suc s" using Suc.hyps(2) by simp
    ultimately show ?thesis using Suc.hyps(1) [of "Suc s"] lt d True by (auto intro: Suc_leD)
  next
    case False
    then have "trim_start str s (length str) = s" by (subst trim_start.simps) simp
    then show ?thesis using d False lt by simp
  qed
qed

lemma trim_end_take:
  "s \<le> e \<Longrightarrow> e \<le> length str \<Longrightarrow>
     take (trim_end str s e - s) (drop s str) =
       rev (dropWhile isspace (rev (take (e - s) (drop s str)))) \<and>
     s \<le> trim_end str s e"
proof (induction e)
  case 0
  then show ?case by (subst (1 2) trim_end.simps) simp
next
  case (Suc e)
  show ?case
  proof (cases "s < Suc e")
    case True
    then have e: "take (Suc e - s) (drop s str) = take (e - s) (drop s str) @ [str ! e]"
      using Suc.prems take_Suc_conv_app_nth [of "e - s" "drop s str"] by (simp add: Suc_diff_le)
    show ?thesis
    proof (cases "isspace (str ! e)")
      case True
      then have "trim_end str s (Suc e) = trim_end str s e"
        using \<open>s < Suc e\<close> by (subst trim_end.simps) simp
      then show ?thesis using Suc.IH Suc.prems \<open>s < Suc e\<close> e True by simp
    next
      case False
      then have "trim_end str s (Suc e) = Suc e" by (subst trim_end.simps) simp
      then show ?thesis using e False Suc.prems by simp
    qed
  next
    case False
    then have "s = Suc e" using Suc.prems by simp
    then show ?thesis by (subst (1 2) trim_end.simps) simp
  qed
qed

lemma trim_eq: "trim str = rev (dropWhile isspace (rev (dropWhile isspace str)))"
proof -
  let ?s = "trim_start str 0 (length str)"
  have a: "drop ?s str = dropWhile isspace str" "?s \<le> length str"
    using trim_start_drop [of 0 str] by auto
  have "take (trim_end str ?s (length str) - ?s) (drop ?s str) =
      rev (dropWhile isspace (rev (take (length str - ?s) (drop ?s str))))"
    using trim_end_take [OF a(2) order_refl] by blast
  moreover have "take (length str - ?s) (drop ?s str) = drop ?s str" by simp
  ultimately show ?thesis using a(1) unfolding trim_def Let_def by metis
qed

text \<open>
  \<open>trim\<close> cuts exactly the white space at both ends: the string is white space, then the
  result, then white space, and the result neither starts nor ends with white space; trimming
  twice is trimming once.
\<close>

theorem trim_cuts_both_ends:
  "(\<exists>u v. str = u @ trim str @ v \<and> list_all isspace u \<and> list_all isspace v) \<and>
   (trim str = [] \<or> \<not> isspace (hd (trim str)) \<and> \<not> isspace (last (trim str))) \<and>
   trim (trim str) = trim str"
proof -
  let ?d = "dropWhile isspace str"
  have u: "str = takeWhile isspace str @ ?d" by simp
  have v: "?d = trim str @ rev (takeWhile isspace (rev ?d))"
    unfolding trim_eq by (metis rev_append rev_rev_ident takeWhile_dropWhile_id)
  have sp: "list_all isspace (takeWhile isspace xs)" for xs by (auto simp: list_all_iff dest: set_takeWhileD)
  have l: "\<not> isspace (last (trim str))" if "trim str \<noteq> []"
  proof -
    have ne: "dropWhile isspace (rev ?d) \<noteq> []" using that unfolding trim_eq by blast
    then have "last (trim str) = hd (dropWhile isspace (rev ?d))" unfolding trim_eq by (simp add: last_rev)
    then show ?thesis using hd_dropWhile [OF ne] by simp
  qed
  have h: "\<not> isspace (hd (trim str))" if "trim str \<noteq> []"
  proof -
    have "hd ?d = hd (trim str)" using that v by (metis hd_append2)
    moreover have "?d \<noteq> []" using that v by (metis append_is_Nil_conv)
    then have "\<not> isspace (hd ?d)" by (rule hd_dropWhile)
    ultimately show ?thesis by simp
  qed
  have "trim (trim str) = trim str"
  proof (cases "trim str = []")
    case True
    have "trim [] = []" by (simp add: trim_eq)
    then show ?thesis unfolding True .
  next
    case False
    then have "dropWhile isspace (trim str) = trim str" "dropWhile isspace (rev (trim str)) = rev (trim str)"
      using h l by (cases "trim str"; simp) (metis False l dropWhile_eq_self_iff hd_rev)
    then show ?thesis by (metis rev_rev_ident trim_eq)
  qed
  moreover have "str = takeWhile isspace str @ trim str @ rev (takeWhile isspace (rev ?d))" using u v by simp
  moreover have "list_all isspace (rev (takeWhile isspace (rev ?d)))" using sp by (auto simp: list_all_iff)
  ultimately show ?thesis using h l sp by blast
qed

subsection \<open>Rendering is incremental\<close>

lemma loop_prefix: "prefix (loop body s xs) (loop body s (xs @ ys))"
  by (induction xs arbitrary: s) (auto split: prod.splits)

lemma render_prefix: "prefix (render b body s p chat False) (render b body s p (chat @ ms) add)"
proof -
  have "prefix (b @ loop body s chat) (b @ loop body s (chat @ ms))" using loop_prefix by simp
  then show ?thesis unfolding render_def by (simp add: prefix_append_mono)
qed

lemma gigachat_prefix: "prefix (apply_gigachat chat False) (apply_gigachat (chat @ ms) add)"
proof (cases chat)
  case Nil
  then show ?thesis by (simp add: apply_gigachat_def Let_def render_def)
next
  case (Cons m rest)
  then show ?thesis
    using render_prefix [of _ "plain gigachat_message" "()" _ "m # rest" ms add]
      render_prefix [of _ "plain gigachat_message" "()" _ rest ms add]
    by (auto simp: apply_gigachat_def Let_def)
qed

lemma chat_text_prefix: "chat_text t = Some f \<Longrightarrow> prefix (f chat False) (f (chat @ ms) add)"
  by (cases t) (auto simp: chat_branch_defs Let_def intro: render_prefix gigachat_prefix)

lemma render_prompt: "\<exists>p'. \<forall>chat. render b body s p chat True = render b body s p chat False @ p'"
  by (rule exI [of _ p]) (simp add: render_def)

lemma gigachat_prompt: "\<exists>p'. \<forall>chat. apply_gigachat chat True = apply_gigachat chat False @ p'"
  by (rule exI [of _ "''assistant<|role_sep|>''"]) (simp add: apply_gigachat_def Let_def render_def)

lemma chat_text_prompt: "chat_text t = Some f \<Longrightarrow> \<exists>p. \<forall>chat. f chat True = f chat False @ p"
  by (cases t) (auto simp: chat_branch_defs Let_def intro: render_prompt gigachat_prompt)

text \<open>
  A longer conversation only appends: the text of a conversation is a prefix of the text of any longer one,
  with or without the generation prompt, and the prompt does not depend on the conversation.
\<close>

lemma chat_template_incremental:
  assumes "chat_text tmpl = Some f"
  shows "prefix (f chat False) (f (chat @ new) add_ass) \<and> (\<exists>p. \<forall>c. f c True = f c False @ p)"
  using chat_text_prefix [OF assms] chat_text_prompt [OF assms] by blast

subsection \<open>Reading a conversation back\<close>

text \<open>
  Seven templates write every message as an opening marker, the role, a separator, the content (two of them
  trim it) and a closing marker.  \<open>markers\<close> gives these parts and the generation prompt.
\<close>

record chat_markers =
  opener :: string
  separator :: string
  closer :: string
  trims :: bool
  gen_prompt :: string

fun markers :: "llm_chat_template \<Rightarrow> chat_markers option" where
  "markers LLM_CHAT_TEMPLATE_CHATML = Some \<lparr>opener = ''<|im_start|>'', separator = nl, closer = ''<|im_end|>'' @ nl,
     trims = False, gen_prompt = ''<|im_start|>assistant'' @ nl\<rparr>"
| "markers LLM_CHAT_TEMPLATE_PHI_3 = Some \<lparr>opener = ''<|'', separator = ''|>'' @ nl, closer = ''<|end|>'' @ nl,
     trims = False, gen_prompt = ''<|assistant|>'' @ nl\<rparr>"
| "markers LLM_CHAT_TEMPLATE_PHI_4 = Some \<lparr>opener = ''<|im_start|>'', separator = ''<|im_sep|>'', closer = ''<|im_end|>'',
     trims = False, gen_prompt = ''<|im_start|>assistant<|im_sep|>''\<rparr>"
| "markers LLM_CHAT_TEMPLATE_ZEPHYR = Some \<lparr>opener = ''<|'', separator = ''|>'' @ nl, closer = ''<|endoftext|>'' @ nl,
     trims = False, gen_prompt = ''<|assistant|>'' @ nl\<rparr>"
| "markers LLM_CHAT_TEMPLATE_LLAMA_3 = Some \<lparr>opener = ''<|start_header_id|>'', separator = ''<|end_header_id|>'' @ nl @ nl,
     closer = ''<|eot_id|>'', trims = True, gen_prompt = ''<|start_header_id|>assistant<|end_header_id|>'' @ nl @ nl\<rparr>"
| "markers LLM_CHAT_TEMPLATE_LLAMA4 = Some \<lparr>opener = ''<|header_start|>'', separator = ''<|header_end|>'' @ nl @ nl,
     closer = ''<|eot|>'', trims = True, gen_prompt = ''<|header_start|>assistant<|header_end|>'' @ nl @ nl\<rparr>"
| "markers LLM_CHAT_TEMPLATE_MEGREZ = Some \<lparr>opener = ''<|role_start|>'', separator = ''<|role_end|>'', closer = ''<|turn_end|>'',
     trims = False, gen_prompt = ''<|role_start|>assistant<|role_end|>''\<rparr>"
| "markers _ = None"

definition shown_content :: "chat_markers \<Rightarrow> chat_message \<Rightarrow> string" where
  "shown_content mk m = (if trims mk then trim (content m) else content m)"

text \<open>What stands before and after the first occurrence of a marker, and a reader of rendered conversations: as
  long as a complete message begins, its role and content; and the text that is left.\<close>

fun split_at :: "string \<Rightarrow> string \<Rightarrow> (string \<times> string) option" where
  "split_at mark s = (if prefix mark s then Some ([], drop (length mark) s)
     else case s of [] \<Rightarrow> None | c # cs \<Rightarrow> map_option (\<lambda>(u, v). (c # u, v)) (split_at mark cs))"

declare split_at.simps [simp del]

fun read_chat :: "chat_markers \<Rightarrow> nat \<Rightarrow> string \<Rightarrow> (string \<times> string) list \<times> string" where
  "read_chat mk 0 s = ([], s)"
| "read_chat mk (Suc n) s =
     (if prefix (opener mk) s then
        case split_at (separator mk) (drop (length (opener mk)) s) of None \<Rightarrow> ([], s)
        | Some (r, s1) \<Rightarrow>
          (case split_at (closer mk) s1 of None \<Rightarrow> ([], s)
           | Some (c, s2) \<Rightarrow> (case read_chat mk n s2 of (ms, rest) \<Rightarrow> ((r, c) # ms, rest)))
      else ([], s))"

text \<open>A text is free of a marker when, with the marker after it, the marker occurs only there.\<close>

definition free_of :: "string \<Rightarrow> string \<Rightarrow> bool" where
  "free_of mark s \<longleftrightarrow> (\<forall>i < length s. \<not> prefix mark (drop i (s @ mark)))"

lemma split_at_free: "free_of mark s \<Longrightarrow> split_at mark (s @ mark @ rest) = Some (s, rest)"
proof (induction s)
  case Nil
  show ?case by (subst split_at.simps) simp
next
  case (Cons c s)
  have "\<not> prefix mark (c # s @ mark)" using Cons.prems by (force simp: free_of_def)
  then have "\<not> prefix mark ((c # s @ mark) @ rest)"
    by (metis prefix_length_prefix length_append length_Cons le_add2 le_SucI prefixI)
  then have first: "\<not> prefix mark ((c # s) @ mark @ rest)" by simp
  have "free_of mark s"
    unfolding free_of_def
  proof (intro allI impI)
    fix i assume "i < length s"
    then show "\<not> prefix mark (drop i (s @ mark))" using Cons.prems by (auto simp: free_of_def dest: spec [of _ "Suc i"])
  qed
  from Cons.IH [OF this] show ?case using first by (subst split_at.simps) simp
qed

lemma read_chat_loop:
  assumes body: "\<And>m. body m = opener mk @ role m @ separator mk @ shown_content mk m @ closer mk"
    and tail: "\<And>n. read_chat mk n t = ([], t)"
  shows "\<forall>m \<in> set chat. free_of (separator mk) (role m) \<and> free_of (closer mk) (shown_content mk m) \<Longrightarrow> length chat \<le> n \<Longrightarrow>
    read_chat mk n (loop (plain body) () chat @ t) = (map (\<lambda>m. (role m, shown_content mk m)) chat, t)"
proof (induction chat arbitrary: n)
  case Nil
  then show ?case using tail by simp
next
  case (Cons m chat)
  then obtain k where n: "n = Suc k" "length chat \<le> k" by (cases n) auto
  have free: "free_of (separator mk) (role m)" "free_of (closer mk) (shown_content mk m)" using Cons.prems by auto
  have "read_chat mk k (loop (plain body) () chat @ t) = (map (\<lambda>m. (role m, shown_content mk m)) chat, t)"
    using Cons.IH [OF _ n(2)] Cons.prems(1) by simp
  then show ?case
    using split_at_free [OF free(1)] split_at_free [OF free(2)] by (simp add: n(1) plain_def body)
qed

lemma loop_length:
  assumes "\<And>m. body m \<noteq> []"
  shows "length chat \<le> length (loop (plain body) () chat)"
  using assms by (induction chat) (simp_all add: plain_def Suc_le_eq add_strict_increasing trans_le_add2)

lemma read_render:
  assumes f: "f = render [] (plain body) () (gen_prompt mk)"
    and body: "\<And>m. body m = opener mk @ role m @ separator mk @ shown_content mk m @ closer mk" and ne: "opener mk \<noteq> []"
    and tail: "\<And>n. read_chat mk n (gen_prompt mk) = ([], gen_prompt mk)"
    and free: "\<forall>m \<in> set chat. free_of (separator mk) (role m) \<and> free_of (closer mk) (shown_content mk m)"
  shows "read_chat mk (length (f chat add_ass)) (f chat add_ass) =
    (map (\<lambda>m. (role m, shown_content mk m)) chat, if add_ass then gen_prompt mk else [])"
proof -
  have "length chat \<le> length (loop (plain body) () chat)" by (rule loop_length) (simp add: body ne)
  then have n: "length chat \<le> length (f chat add_ass)" by (simp add: f render_def)
  have empty: "read_chat mk n [] = ([], [])" for n using ne by (cases n) auto
  show ?thesis
    using read_chat_loop [OF body tail free n] read_chat_loop [OF body empty free n]
    by (cases add_ass) (simp_all add: f render_def)
qed

lemma prompt_stays:
  assumes "opener mk = op'" "separator mk = sep'" "closer mk = cl'" "split_at sep' (drop (length op') t) = Some (r, [])" "cl' \<noteq> []"
  shows "read_chat mk n t = ([], t)"
proof -
  have "split_at cl' [] = None" using assms(5) by (subst split_at.simps) simp
  then show ?thesis using assms(1-4) by (cases n) (simp_all split: option.split)
qed

lemma marked_templates:
  assumes "markers tmpl = Some mk" "chat_text tmpl = Some f"
  shows "f = render [] (plain (\<lambda>m. opener mk @ role m @ separator mk @ shown_content mk m @ closer mk)) () (gen_prompt mk)"
    "opener mk \<noteq> []" "read_chat mk n (gen_prompt mk) = ([], gen_prompt mk)"
proof -
  note defs = apply_chatml_def apply_phi3_def apply_phi4_def apply_zephyr_def apply_llama3_def apply_llama4_def apply_megrez_def
  show "f = render [] (plain (\<lambda>m. opener mk @ role m @ separator mk @ shown_content mk m @ closer mk)) () (gen_prompt mk)"
    "opener mk \<noteq> []"
    using assms by (cases tmpl; auto simp: defs shown_content_def)+
  show "read_chat mk n (gen_prompt mk) = ([], gen_prompt mk)"
    using assms(1) by (cases tmpl) (auto intro!: prompt_stays [OF refl refl refl, of _ _ "''assistant''"] simp: split_at.simps)
qed

text \<open>
  C39: a conversation can be read back from its text.  For the seven templates of \<open>markers\<close> (chatml, phi3, phi4,
  zephyr, llama3, llama4, megrez), when no role contains the separator and no content (as written) the closing
  marker, \<open>read_chat\<close> recovers from the rendered text exactly the roles and contents of all messages, in order,
  and what is left is the generation prompt if it was asked for and nothing otherwise.  So no message can pass
  for another one or for several.
\<close>

theorem chat_text_reads_back:
  assumes "markers tmpl = Some mk" "chat_text tmpl = Some f"
    and "\<forall>m \<in> set chat. free_of (separator mk) (role m) \<and> free_of (closer mk) (shown_content mk m)"
  shows "read_chat mk (length (f chat add_ass)) (f chat add_ass) =
    (map (\<lambda>m. (role m, shown_content mk m)) chat, if add_ass then gen_prompt mk else [])"
  by (rule read_render [OF marked_templates(1) [OF assms(1,2)] refl marked_templates(2,3) [OF assms(1,2)] assms(3)])

theorem chat_text_reads_back_witness:
  "\<exists>mk. markers LLM_CHAT_TEMPLATE_LLAMA_3 = Some mk \<and>
   read_chat mk (length (apply_llama3 [\<lparr>role = ''user'', content = ''hi ''\<rparr>] True)) (apply_llama3 [\<lparr>role = ''user'', content = ''hi ''\<rparr>] True) =
     ([(''user'', ''hi'')], ''<|start_header_id|>assistant<|end_header_id|>'' @ nl @ nl)"
proof -
  obtain mk where mk: "markers LLM_CHAT_TEMPLATE_LLAMA_3 = Some mk" by simp
  have t: "trim ''hi '' = ''hi''" by (simp add: trim_eq isspace_def)
  have "\<forall>m \<in> set [\<lparr>role = ''user'', content = ''hi ''\<rparr>]. free_of (separator mk) (role m) \<and> free_of (closer mk) (shown_content mk m)"
    using mk by (auto simp: free_of_def shown_content_def t less_Suc_eq numeral_eq_Suc)
  from chat_text_reads_back [OF mk _ this, of apply_llama3 True] show ?thesis
    using mk by (auto simp: shown_content_def t)
qed

subsection \<open>Names\<close>

lemma chat_text_None: "chat_text t = None \<longleftrightarrow> t = LLM_CHAT_TEMPLATE_UNKNOWN"
  by (cases t) simp_all

lemma templates_supported: "LLM_CHAT_TEMPLATE_UNKNOWN \<notin> set (map snd LLM_CHAT_TEMPLATES)"
  by (simp add: LLM_CHAT_TEMPLATES_def)

text \<open>
  The result code of \<open>llm_chat_apply_template\<close>: a template found under a name of the table
  is always rendered, and the code is the length of the text written; for the unknown template
  it is \<open>-1\<close> and the destination is left alone.  (The code is an \<open>int32_t\<close>, hence the bound.)
\<close>

theorem apply_template_result:
  assumes "llm_chat_template_from_str name = Some tmpl" "chat_text tmpl = Some f"
    and "length (f chat add_ass) < 2 ^ 31"
  shows "llm_chat_detect_template name = tmpl \<and>
    llm_chat_apply_template tmpl chat dest add_ass = (int (length (f chat add_ass)), f chat add_ass) \<and>
    llm_chat_apply_template LLM_CHAT_TEMPLATE_UNKNOWN chat dest add_ass = (-1, dest)"
proof -
  have "sint (of_nat (length (f chat add_ass)) :: u32) = int (length (f chat add_ass))"
    using sint_of_nat_small [OF assms(3)] .
  then show ?thesis using assms(1,2)
    by (simp add: llm_chat_detect_template_def llm_chat_apply_template_def Let_def)
qed

theorem apply_template_result_witness:
  "llm_chat_detect_template ''zephyr'' = LLM_CHAT_TEMPLATE_ZEPHYR \<and>
    llm_chat_apply_template LLM_CHAT_TEMPLATE_ZEPHYR [] ''old'' True =
      (int (length (apply_zephyr [] True)), apply_zephyr [] True) \<and>
    llm_chat_apply_template LLM_CHAT_TEMPLATE_UNKNOWN [] ''old'' True = (-1, ''old'')"
proof (rule apply_template_result)
  show "llm_chat_template_from_str ''zephyr'' = Some LLM_CHAT_TEMPLATE_ZEPHYR"
    by (simp add: llm_chat_template_from_str_def LLM_CHAT_TEMPLATES_def)
  show "length (apply_zephyr [] True) < 2 ^ 31" by (simp add: apply_zephyr_def render_def)
qed simp

lemma distinct_names: "distinct (map fst LLM_CHAT_TEMPLATES)"
  by (simp add: LLM_CHAT_TEMPLATES_def)

text \<open>
  The listing of the built-in templates: the result is the number of templates, the names
  written are sorted, different and at most as many as the caller has room for, with enough
  room they are all names, and every one is detected as a template that can be rendered.
\<close>

theorem builtin_templates_usable:
  "llama_chat_builtin_templates len = (names, n) \<Longrightarrow>
     n = 38 \<and> sorted names \<and> distinct names \<and> length names = min len 38 \<and>
     (38 \<le> len \<longrightarrow> set names = set (map fst LLM_CHAT_TEMPLATES)) \<and>
     (\<forall>name \<in> set names. \<exists>f. chat_text (llm_chat_detect_template name) = Some f)"
proof -
  assume "llama_chat_builtin_templates len = (names, n)"
  moreover have l: "length LLM_CHAT_TEMPLATES = 38" by (simp add: LLM_CHAT_TEMPLATES_def)
  ultimately have names: "names = take (min len 38) (sort (map fst LLM_CHAT_TEMPLATES))" and n: "n = 38"
    by (auto simp: llama_chat_builtin_templates_def)
  have "\<exists>f. chat_text (llm_chat_detect_template name) = Some f" if "name \<in> set names" for name
  proof -
    have "name \<in> set (map fst LLM_CHAT_TEMPLATES)" using that names in_set_takeD by fastforce
    then obtain t where t: "map_of LLM_CHAT_TEMPLATES name = Some t"
      by (metis list.set_map map_of_eq_None_iff not_None_eq)
    then have "t \<noteq> LLM_CHAT_TEMPLATE_UNKNOWN" using templates_supported by (force dest: map_of_SomeD)
    then show ?thesis using t chat_text_None [of t]
      by (auto simp: llm_chat_detect_template_def llm_chat_template_from_str_def)
  qed
  moreover have "38 \<le> len \<Longrightarrow> set names = set (map fst LLM_CHAT_TEMPLATES)" using names l by simp
  ultimately show ?thesis using names n l distinct_names by (simp add: sorted_wrt_take)
qed

theorem builtin_templates_usable_witness:
  "\<exists>names n. llama_chat_builtin_templates 2 = (names, n) \<and> n = 38 \<and> length names = 2 \<and>
     (\<forall>name \<in> set names. \<exists>f. chat_text (llm_chat_detect_template name) = Some f)"
proof -
  obtain names n where e: "llama_chat_builtin_templates 2 = (names, n)" by fastforce
  show ?thesis using builtin_templates_usable [OF e] e by auto
qed

end
