(* ===== verification/Unicode.thy ===== *)
theory Unicode
  imports Prelude
begin

text \<open>
  The UTF-8 and byte-level encodings of \<open>unicode.cpp\<close>: strings are lists of bytes, code points
  are 32-bit words, an exception is the left part of a sum.  The generated tables of
  \<open>unicode-data.cpp\<close> are the record \<open>unicode_data\<close>, an argument of the functions that look
  things up in them, so every theorem holds for any tables.
\<close>

datatype error = Invalid_character | Failed_to_convert | Invalid_codepoint | Out_of_range
  | Non_ascii_regex | Regex_error | Assertion_failed

record unicode_data =
  unicode_ranges_flags :: "(u32 \<times> u16) list"
  unicode_set_whitespace :: "u32 list"
  unicode_map_lowercase :: "(u32 \<times> u32) list"
  unicode_map_uppercase :: "(u32 \<times> u32) list"
  unicode_ranges_nfd :: "(u32 \<times> u32 \<times> u32) list"

subsection \<open>UTF-8\<close>

definition unicode_len_utf8 :: "u8 \<Rightarrow> nat" where
  "unicode_len_utf8 src = [1, 1, 1, 1, 1, 1, 1, 1, 1, 1, 1, 1, 2, 2, 3, 4] ! unat (drop_bit 4 src)"

definition is_cont :: "bytes \<Rightarrow> nat \<Rightarrow> bool" where
  "is_cont utf8 i \<longleftrightarrow> (utf8 ! i) AND 0xc0 = 0x80"

definition low :: "bytes \<Rightarrow> nat \<Rightarrow> u32 \<Rightarrow> u32" where
  "low utf8 i m = ucast (utf8 ! i) AND m"

definition unicode_cpt_from_utf8 :: "bytes \<Rightarrow> nat \<Rightarrow> error + (u32 \<times> nat)" where
  "unicode_cpt_from_utf8 utf8 offset =
     (let b = utf8 ! offset in
      if b AND 0x80 = 0 then Inr (ucast b, offset + 1)
      else if b AND 0x40 = 0 then Inl Invalid_character
      else if b AND 0x20 = 0 then
        (if offset + 1 \<ge> length utf8 \<or> \<not> is_cont utf8 (offset + 1) then Inl Invalid_character
         else Inr (push_bit 6 (low utf8 offset 0x1f) OR low utf8 (offset + 1) 0x3f, offset + 2))
      else if b AND 0x10 = 0 then
        (if offset + 2 \<ge> length utf8 \<or> \<not> is_cont utf8 (offset + 1) \<or> \<not> is_cont utf8 (offset + 2)
         then Inl Invalid_character
         else Inr (push_bit 12 (low utf8 offset 0x0f) OR push_bit 6 (low utf8 (offset + 1) 0x3f) OR
                   low utf8 (offset + 2) 0x3f, offset + 3))
      else if b AND 0x08 = 0 then
        (if offset + 3 \<ge> length utf8 \<or> \<not> is_cont utf8 (offset + 1) \<or> \<not> is_cont utf8 (offset + 2) \<or>
            \<not> is_cont utf8 (offset + 3)
         then Inl Invalid_character
         else Inr (push_bit 18 (low utf8 offset 0x07) OR push_bit 12 (low utf8 (offset + 1) 0x3f) OR
                   push_bit 6 (low utf8 (offset + 2) 0x3f) OR low utf8 (offset + 3) 0x3f, offset + 4))
      else Inl Failed_to_convert)"

definition unicode_cpt_to_utf8 :: "u32 \<Rightarrow> error + bytes" where
  "unicode_cpt_to_utf8 cpt =
     (if cpt \<le> 0x7f then Inr [ucast cpt]
      else if 0x80 \<le> cpt \<and> cpt \<le> 0x7ff then
        Inr [ucast (0xc0 OR (drop_bit 6 cpt AND 0x1f)), ucast (0x80 OR (cpt AND 0x3f))]
      else if 0x800 \<le> cpt \<and> cpt \<le> 0xffff then
        Inr [ucast (0xe0 OR (drop_bit 12 cpt AND 0x0f)), ucast (0x80 OR (drop_bit 6 cpt AND 0x3f)),
             ucast (0x80 OR (cpt AND 0x3f))]
      else if 0x10000 \<le> cpt \<and> cpt \<le> 0x10ffff then
        Inr [ucast (0xf0 OR (drop_bit 18 cpt AND 0x07)), ucast (0x80 OR (drop_bit 12 cpt AND 0x3f)),
             ucast (0x80 OR (drop_bit 6 cpt AND 0x3f)), ucast (0x80 OR (cpt AND 0x3f))]
      else Inl Invalid_codepoint)"

fun unicode_cpts_to_utf8 :: "u32 list \<Rightarrow> error + bytes" where
  "unicode_cpts_to_utf8 [] = Inr []"
| "unicode_cpts_to_utf8 (c # cps) = (case unicode_cpt_to_utf8 c of Inl e \<Rightarrow> Inl e
     | Inr bs \<Rightarrow> (case unicode_cpts_to_utf8 cps of Inl e \<Rightarrow> Inl e | Inr result \<Rightarrow> Inr (bs @ result)))"

lemma cpt_from_utf8_offset: "unicode_cpt_from_utf8 utf8 offset = Inr (c, o') \<Longrightarrow> offset < o'"
  by (auto simp: unicode_cpt_from_utf8_def Let_def split: if_splits)

function cpts_from :: "bytes \<Rightarrow> nat \<Rightarrow> u32 list" where
  "cpts_from utf8 offset =
     (if offset < length utf8 then
        (case unicode_cpt_from_utf8 utf8 offset of
           Inr (c, o') \<Rightarrow> c # cpts_from utf8 o'
         | Inl _ \<Rightarrow> 0xFFFD # cpts_from utf8 (offset + 1))
      else [])"
  by pat_completeness auto
termination by (relation "measure (\<lambda>(utf8, offset). length utf8 - offset)") (auto dest: cpt_from_utf8_offset)

declare cpts_from.simps [simp del]

definition unicode_cpts_from_utf8 :: "bytes \<Rightarrow> u32 list" where
  "unicode_cpts_from_utf8 utf8 = cpts_from utf8 0"

subsection \<open>Byte-level encoding\<close>

definition bytes_of_cpt :: "nat \<Rightarrow> bytes" where
  "bytes_of_cpt c = (case unicode_cpt_to_utf8 (of_nat c) of Inr bs \<Rightarrow> bs | Inl _ \<Rightarrow> [])"

definition printable_ranges :: "nat list" where
  "printable_ranges = [0x21 ..< 0x7F] @ [0xA1 ..< 0xAD] @ [0xAE ..< 0x100]"

definition unicode_byte_to_utf8_map :: "nat \<rightharpoonup> bytes" where
  "unicode_byte_to_utf8_map =
     fst (fold (\<lambda>ch (m, n). if m ch = None then (m(ch \<mapsto> bytes_of_cpt (256 + n)), n + 1) else (m, n)) [0 ..< 256]
       (fold (\<lambda>ch m. m(ch \<mapsto> bytes_of_cpt ch)) printable_ranges Map.empty, 0))"

definition unicode_utf8_to_byte_map :: "bytes \<rightharpoonup> nat" where
  "unicode_utf8_to_byte_map =
     fst (fold (\<lambda>ch (m, n). if m (bytes_of_cpt ch) = None then (m(bytes_of_cpt (256 + n) \<mapsto> ch), n + 1) else (m, n))
       [0 ..< 256] (fold (\<lambda>ch m. m(bytes_of_cpt ch \<mapsto> ch)) printable_ranges Map.empty, 0))"

definition unicode_byte_to_utf8 :: "u8 \<Rightarrow> error + bytes" where
  "unicode_byte_to_utf8 byte = (case unicode_byte_to_utf8_map (unat byte) of Some s \<Rightarrow> Inr s | None \<Rightarrow> Inl Out_of_range)"

definition unicode_utf8_to_byte :: "bytes \<Rightarrow> error + u8" where
  "unicode_utf8_to_byte utf8 = (case unicode_utf8_to_byte_map utf8 of Some b \<Rightarrow> Inr (of_nat b) | None \<Rightarrow> Inl Out_of_range)"

fun encode_bytes :: "bytes \<Rightarrow> error + bytes" where
  "encode_bytes [] = Inr []"
| "encode_bytes (b # bs) = (case unicode_byte_to_utf8 b of Inl e \<Rightarrow> Inl e
     | Inr s \<Rightarrow> (case encode_bytes bs of Inl e \<Rightarrow> Inl e | Inr rest \<Rightarrow> Inr (s @ rest)))"

fun unicode_byte_encoding_process :: "bytes list \<Rightarrow> error + bytes list" where
  "unicode_byte_encoding_process [] = Inr []"
| "unicode_byte_encoding_process (word # bpe_words) =
     (case unicode_cpts_to_utf8 (unicode_cpts_from_utf8 word) of Inl e \<Rightarrow> Inl e
      | Inr text_utf \<Rightarrow> (case encode_bytes text_utf of Inl e \<Rightarrow> Inl e
      | Inr encoded_token \<Rightarrow> (case unicode_byte_encoding_process bpe_words of Inl e \<Rightarrow> Inl e
      | Inr rest \<Rightarrow> Inr (encoded_token # rest))))"

subsection \<open>Character data\<close>

abbreviation (input) UNDEFINED :: u16 where "UNDEFINED \<equiv> 0x0001"
abbreviation (input) NUMBER :: u16 where "NUMBER \<equiv> 0x0002"
abbreviation (input) LETTER :: u16 where "LETTER \<equiv> 0x0004"
abbreviation (input) ACCENT_MARK :: u16 where "ACCENT_MARK \<equiv> 0x0010"
abbreviation (input) PUNCTUATION :: u16 where "PUNCTUATION \<equiv> 0x0020"
abbreviation (input) SYMBOL :: u16 where "SYMBOL \<equiv> 0x0040"

definition is_number :: "u16 \<Rightarrow> bool" where "is_number flags = bit flags 1"
definition is_letter :: "u16 \<Rightarrow> bool" where "is_letter flags = bit flags 2"
definition is_whitespace :: "u16 \<Rightarrow> bool" where "is_whitespace flags = bit flags 8"

definition category_flag :: "u16 \<Rightarrow> u16" where "category_flag flags = flags AND 0x00FF"

definition MAX_CODEPOINTS :: u32 where "MAX_CODEPOINTS = 0x110000"

definition mark :: "nat \<Rightarrow> u32 \<Rightarrow> (u32 \<Rightarrow> u16) \<Rightarrow> u32 \<Rightarrow> u16" where
  "mark k cpt f = f(cpt := set_bit k (f cpt))"

definition unicode_cpt_flags_array :: "unicode_data \<Rightarrow> u32 \<Rightarrow> u16" where
  "unicode_cpt_flags_array d =
     (let ranges = unicode_ranges_flags d;
          f0 = (\<lambda>_. UNDEFINED);
          f1 = fold (\<lambda>i f. \<lambda>cpt. if fst (ranges ! (i - 1)) \<le> cpt \<and> cpt < fst (ranges ! i)
                 then snd (ranges ! (i - 1)) else f cpt) [1 ..< length ranges] f0;
          f2 = fold (mark 8) (unicode_set_whitespace d) f1;
          f3 = fold (\<lambda>p. mark 9 (snd p)) (unicode_map_lowercase d) f2;
          f4 = fold (\<lambda>p. mark 10 (snd p)) (unicode_map_uppercase d) f3
      in fold (\<lambda>r. mark 11 (snd (snd r))) (unicode_ranges_nfd d) f4)"

definition unicode_cpt_flags_from_cpt :: "unicode_data \<Rightarrow> u32 \<Rightarrow> u16" where
  "unicode_cpt_flags_from_cpt d cpt = (if cpt < MAX_CODEPOINTS then unicode_cpt_flags_array d cpt else UNDEFINED)"

definition unicode_cpt_flags_from_utf8 :: "unicode_data \<Rightarrow> bytes \<Rightarrow> error + u16" where
  "unicode_cpt_flags_from_utf8 d utf8 =
     (if utf8 = [] then Inr UNDEFINED
      else case unicode_cpt_from_utf8 utf8 0 of Inl e \<Rightarrow> Inl e
           | Inr (c, _) \<Rightarrow> Inr (unicode_cpt_flags_from_cpt d c))"

text \<open>
  \<open>std::lower_bound\<close> and \<open>std::upper_bound\<close> on a table sorted by its first column: the first
  entry not below, the last entry not above.  Before the first entry of the NFD table the
  source dereferences \<open>begin() - 1\<close>; the generated table starts at code point 0.
\<close>

definition unicode_tolower :: "unicode_data \<Rightarrow> u32 \<Rightarrow> u32" where
  "unicode_tolower d cpt = (case dropWhile (\<lambda>p. fst p < cpt) (unicode_map_lowercase d) of
     p # _ \<Rightarrow> if fst p = cpt then snd p else cpt | [] \<Rightarrow> cpt)"

definition nfd_cpt :: "(u32 \<times> u32 \<times> u32) list \<Rightarrow> u32 \<Rightarrow> u32 option" where
  "nfd_cpt ranges cpt = (case rev (takeWhile (\<lambda>r. \<not> cpt < fst r) ranges) of
     (lo, hi, nfd) # _ \<Rightarrow> Some (if lo \<le> cpt \<and> cpt \<le> hi then nfd else cpt)
   | [] \<Rightarrow> None)"

fun unicode_cpts_normalize_nfd :: "unicode_data \<Rightarrow> u32 list \<Rightarrow> u32 list option" where
  "unicode_cpts_normalize_nfd d [] = Some []"
| "unicode_cpts_normalize_nfd d (c # cpts) = (case nfd_cpt (unicode_ranges_nfd d) c of None \<Rightarrow> None
     | Some r \<Rightarrow> (case unicode_cpts_normalize_nfd d cpts of None \<Rightarrow> None | Some rs \<Rightarrow> Some (r # rs)))"

subsection \<open>Bits of bytes\<close>

lemma small_int_bit: "0 \<le> k \<Longrightarrow> k < 256 \<Longrightarrow> bit (k :: int) n \<Longrightarrow> n < 8"
proof (rule ccontr)
  assume k: "0 \<le> k" "k < 256" and b: "bit k n" and n: "\<not> n < 8"
  have "(2 :: int) ^ 8 \<le> 2 ^ n" using n by (intro power_increasing) auto
  then have "k div 2 ^ n = 0" using k by simp
  then show False using b by (simp add: bit_iff_odd)
qed

lemma less_8: "n < 8 \<longleftrightarrow> n \<in> {0, 1, 2, 3, 4, 5, 6, 7 :: nat}" by auto

lemma bits_int:
  "bit (0x80 :: int) n \<longleftrightarrow> n = 7" "bit (0xc0 :: int) n \<longleftrightarrow> n = 7 \<or> n = 6"
  "bit (0xe0 :: int) n \<longleftrightarrow> n = 7 \<or> n = 6 \<or> n = 5"
  "bit (0xf0 :: int) n \<longleftrightarrow> n = 7 \<or> n = 6 \<or> n = 5 \<or> n = 4"
  "bit (0x40 :: int) n \<longleftrightarrow> n = 6" "bit (0x20 :: int) n \<longleftrightarrow> n = 5" "bit (0x10 :: int) n \<longleftrightarrow> n = 4"
  "bit (0x08 :: int) n \<longleftrightarrow> n = 3" "bit (0x3f :: int) n \<longleftrightarrow> n < 6" "bit (0x1f :: int) n \<longleftrightarrow> n < 5"
  "bit (0x0f :: int) n \<longleftrightarrow> n < 4" "bit (0x07 :: int) n \<longleftrightarrow> n < 3" 
  by (cases "n < 8"; auto simp: less_8 dest: small_int_bit [rotated 2])+

lemma bit_lt: "(c :: u32) < 2 ^ k \<Longrightarrow> bit c n \<Longrightarrow> n < k"
proof (rule ccontr)
  assume a: "c < 2 ^ k" "bit c n" "\<not> n < k"
  then have le: "2 ^ k \<le> (2 ^ n :: nat)" by simp
  have n: "n < 32" using bit_imp_le_length [OF a(2)] by simp
  have "bit (unat c) n" using a(2) by (simp add: bit_unsigned_iff)
  then have "2 ^ n \<le> unat c" by (metis bit_nat_def div_less even_zero linorder_not_le)
  moreover have "unat (2 ^ k :: u32) \<le> 2 ^ k"
    by (metis of_nat_numeral of_nat_power unat_of_nat mod_less_eq_dividend)
  ultimately show False using le a(1) unfolding word_less_nat_alt by linarith
qed

lemma and_tests: "(w :: u8) AND 0x80 = 0 \<longleftrightarrow> \<not> bit w 7" "w AND 0x40 = 0 \<longleftrightarrow> \<not> bit w 6"
  "w AND 0x20 = 0 \<longleftrightarrow> \<not> bit w 5" "w AND 0x10 = 0 \<longleftrightarrow> \<not> bit w 4" "w AND 0x08 = 0 \<longleftrightarrow> \<not> bit w 3"
  using and_exp_eq_0_iff_not_bit [of w 7] and_exp_eq_0_iff_not_bit [of w 6] and_exp_eq_0_iff_not_bit [of w 5]
    and_exp_eq_0_iff_not_bit [of w 4] and_exp_eq_0_iff_not_bit [of w 3] by simp_all

lemma masks: "(0x3f :: u32) = mask 6" "(0x1f :: u32) = mask 5" "(0x0f :: u32) = mask 4" "(0x07 :: u32) = mask 3"
  by (simp_all add: mask_eq_exp_minus_1)

lemma cont_byte:
  "ucast (ucast (0x80 OR (x AND 0x3f) :: u32) :: u8) AND (0x3f :: u32) = x AND 0x3f"
  "(ucast (0x80 OR (x AND 0x3f) :: u32) :: u8) AND 0xc0 = 0x80"
  by (rule bit_word_eqI; auto simp: bit_simps bits_int)+

lemma lead_byte:
  "ucast (ucast (0xc0 OR (x AND 0x1f) :: u32) :: u8) AND (0x1f :: u32) = x AND 0x1f"
  "ucast (ucast (0xe0 OR (x AND 0x0f) :: u32) :: u8) AND (0x0f :: u32) = x AND 0x0f"
  "ucast (ucast (0xf0 OR (x AND 0x07) :: u32) :: u8) AND (0x07 :: u32) = x AND 0x07"
  by (rule bit_word_eqI; auto simp: bit_simps bits_int)+

lemma lead_bits:
  "bit (ucast (0xc0 OR (x AND 0x1f) :: u32) :: u8) 7" "bit (ucast (0xc0 OR (x AND 0x1f) :: u32) :: u8) 6"
  "\<not> bit (ucast (0xc0 OR (x AND 0x1f) :: u32) :: u8) 5"
  "bit (ucast (0xe0 OR (x AND 0x0f) :: u32) :: u8) 7" "bit (ucast (0xe0 OR (x AND 0x0f) :: u32) :: u8) 6"
  "bit (ucast (0xe0 OR (x AND 0x0f) :: u32) :: u8) 5" "\<not> bit (ucast (0xe0 OR (x AND 0x0f) :: u32) :: u8) 4"
  "bit (ucast (0xf0 OR (x AND 0x07) :: u32) :: u8) 7" "bit (ucast (0xf0 OR (x AND 0x07) :: u32) :: u8) 6"
  "bit (ucast (0xf0 OR (x AND 0x07) :: u32) :: u8) 5" "bit (ucast (0xf0 OR (x AND 0x07) :: u32) :: u8) 4"
  "\<not> bit (ucast (0xf0 OR (x AND 0x07) :: u32) :: u8) 3"
  by (auto simp: bit_simps bits_int)

lemma ascii_byte:
  assumes "c < (0x80 :: u32)"
  shows "\<not> bit (ucast c :: u8) 7" "ucast (ucast c :: u8) = c"
proof -
  have "bit c n \<Longrightarrow> n < 7" for n using bit_lt [of c 7 n] assms by simp
  then show "\<not> bit (ucast c :: u8) 7" "ucast (ucast c :: u8) = c"
    by (auto simp: bit_simps intro!: bit_word_eqI) fastforce+
qed

lemma join2: "c < 0x800 \<Longrightarrow> push_bit 6 (drop_bit 6 c AND 0x1f) OR (c AND 0x3f) = (c :: u32)"
proof (rule bit_word_eqI)
  fix n assume "c < 0x800"
  then have "bit c n \<Longrightarrow> n < 11" using bit_lt [of c 11 n] by simp
  then show "bit (push_bit 6 (drop_bit 6 c AND 0x1f) OR (c AND 0x3f)) n = bit c n"
    unfolding masks by (cases "n < 6") (auto simp: bit_simps bit_imp_le_length)
qed

lemma join3: "c < 0x10000 \<Longrightarrow>
  push_bit 12 (drop_bit 12 c AND 0x0f) OR push_bit 6 (drop_bit 6 c AND 0x3f) OR (c AND 0x3f) = (c :: u32)"
proof (rule bit_word_eqI)
  fix n assume "c < 0x10000"
  then have "bit c n \<Longrightarrow> n < 16" using bit_lt [of c 16 n] by simp
  then show "bit (push_bit 12 (drop_bit 12 c AND 0x0f) OR push_bit 6 (drop_bit 6 c AND 0x3f) OR (c AND 0x3f)) n = bit c n"
    unfolding masks by (cases "n < 6"; cases "n < 12") (auto simp: bit_simps bit_imp_le_length)
qed

lemma join4: "c < 0x200000 \<Longrightarrow>
  push_bit 18 (drop_bit 18 c AND 0x07) OR push_bit 12 (drop_bit 12 c AND 0x3f) OR
    push_bit 6 (drop_bit 6 c AND 0x3f) OR (c AND 0x3f) = (c :: u32)"
proof (rule bit_word_eqI)
  fix n assume "c < 0x200000"
  then have "bit c n \<Longrightarrow> n < 21" using bit_lt [of c 21 n] by simp
  then show "bit (push_bit 18 (drop_bit 18 c AND 0x07) OR push_bit 12 (drop_bit 12 c AND 0x3f) OR
      push_bit 6 (drop_bit 6 c AND 0x3f) OR (c AND 0x3f)) n = bit c n"
    unfolding masks by (cases "n < 6"; cases "n < 12"; cases "n < 18") (auto simp: bit_simps bit_imp_le_length)
qed

subsection \<open>UTF-8 round trip\<close>

lemma cpt_to_utf8_nonempty: "unicode_cpt_to_utf8 c = Inr bs \<Longrightarrow> bs \<noteq> []"
  by (auto simp: unicode_cpt_to_utf8_def split: if_splits)

lemma cpt_to_utf8_ok: "unicode_cpt_to_utf8 c = Inl e \<longleftrightarrow> e = Invalid_codepoint \<and> 0x10ffff < c"
proof -
  have "c \<le> 0x7f \<or> 0x80 \<le> c" "c \<le> 0x7ff \<or> 0x800 \<le> c" "c \<le> 0xffff \<or> 0x10000 \<le> c"
    "c \<le> 0x7f \<Longrightarrow> c \<le> 0x10ffff" "c \<le> 0x7ff \<Longrightarrow> c \<le> 0x10ffff" "c \<le> 0xffff \<Longrightarrow> c \<le> 0x10ffff"
    by (auto simp: word_le_nat_alt)
  then show ?thesis by (auto simp: unicode_cpt_to_utf8_def not_le)
qed

lemma decode_encode_at:
  assumes "unicode_cpt_to_utf8 c = Inr bs"
  shows "unicode_cpt_from_utf8 (pre @ bs @ rest) (length pre) = Inr (c, length pre + length bs)"
proof -
  have at: "(pre @ bs @ rest) ! (length pre + i) = bs ! i" if "i < length bs" for i
    using that by (simp add: nth_append)
  have "c \<le> 0x10ffff" using assms cpt_to_utf8_ok [of c] by (metis not_le sum.distinct(1))
  then have lt: "c < 0x200000" by (simp add: word_le_nat_alt word_less_nat_alt)
  note defs = unicode_cpt_from_utf8_def Let_def and_tests is_cont_def low_def
  consider (a) "c < 0x80" | (b) "\<not> c < 0x80" "c < 0x800" | (c) "\<not> c < 0x800" "c < 0x10000"
    | (d) "\<not> c < 0x10000" "c < 0x200000"
    using lt by blast
  then show ?thesis
  proof cases
    case a
    then have "c \<le> 0x7f" by (simp add: word_le_nat_alt word_less_nat_alt)
    then have bs: "bs = [ucast c]" using assms by (simp add: unicode_cpt_to_utf8_def)
    show ?thesis using at [of 0] ascii_byte [OF a] by (simp add: bs defs)
  next
    case b
    then have "\<not> c \<le> 0x7f" "c \<le> 0x7ff" "0x80 \<le> c" by (simp_all add: word_le_nat_alt word_less_nat_alt)
    then have bs: "bs = [ucast (0xc0 OR (drop_bit 6 c AND 0x1f)), ucast (0x80 OR (c AND 0x3f))]"
      using assms by (simp add: unicode_cpt_to_utf8_def)
    show ?thesis using at [of 0] at [of 1] join2 [OF b(2)]
      by (simp add: bs defs lead_bits lead_byte cont_byte)
  next
    case c
    then have "\<not> c \<le> 0x7f" "\<not> c \<le> 0x7ff" "c \<le> 0xffff" "0x800 \<le> c"
      by (simp_all add: word_le_nat_alt word_less_nat_alt)
    then have bs: "bs = [ucast (0xe0 OR (drop_bit 12 c AND 0x0f)), ucast (0x80 OR (drop_bit 6 c AND 0x3f)),
        ucast (0x80 OR (c AND 0x3f))]"
      using assms by (simp add: unicode_cpt_to_utf8_def)
    show ?thesis using at [of 0] at [of 1] at [of 2] join3 [OF c(2)]
      by (simp add: bs defs lead_bits lead_byte cont_byte)
  next
    case d
    then have "\<not> c \<le> 0x7f" "\<not> c \<le> 0x7ff" "\<not> c \<le> 0xffff" "0x10000 \<le> c"
      by (simp_all add: word_le_nat_alt word_less_nat_alt)
    then have bs: "bs = [ucast (0xf0 OR (drop_bit 18 c AND 0x07)), ucast (0x80 OR (drop_bit 12 c AND 0x3f)),
        ucast (0x80 OR (drop_bit 6 c AND 0x3f)), ucast (0x80 OR (c AND 0x3f))]"
      using assms by (simp add: unicode_cpt_to_utf8_def split: if_splits)
    show ?thesis using at [of 0] at [of 1] at [of 2] at [of 3] join4 [OF d(2)]
      by (simp add: bs defs lead_bits lead_byte cont_byte)
  qed
qed

lemma cpts_from_encoded:
  "unicode_cpts_to_utf8 cps = Inr bs \<Longrightarrow>
     cpts_from (pre @ bs @ rest) (length pre) = cps @ cpts_from (pre @ bs @ rest) (length pre + length bs)"
proof (induction cps arbitrary: pre bs)
  case (Cons c cps)
  then obtain b1 b2 where b: "unicode_cpt_to_utf8 c = Inr b1" "unicode_cpts_to_utf8 cps = Inr b2" "bs = b1 @ b2"
    by (auto split: sum.splits)
  have "length pre < length (pre @ bs @ rest)" using cpt_to_utf8_nonempty [OF b(1)] b(3) by simp
  then have "cpts_from (pre @ bs @ rest) (length pre) = c # cpts_from (pre @ bs @ rest) (length pre + length b1)"
    using decode_encode_at [OF b(1), of pre "b2 @ rest"] b(3) by (subst cpts_from.simps) simp
  also have "cpts_from (pre @ bs @ rest) (length pre + length b1) =
      cps @ cpts_from (pre @ bs @ rest) (length pre + length bs)"
    using Cons.IH [OF b(2), of "pre @ b1"] b(3) by (simp add: add.assoc)
  finally show ?case by simp
qed simp

lemma cpts_round_trip: "unicode_cpts_to_utf8 cps = Inr bs \<Longrightarrow> unicode_cpts_from_utf8 bs = cps"
  using cpts_from_encoded [of cps bs "[]" "[]"]
  by (simp add: unicode_cpts_from_utf8_def cpts_from.simps [of bs "length bs"])

lemma cpts_to_utf8_append:
  "unicode_cpts_to_utf8 (xs @ ys) = (case unicode_cpts_to_utf8 xs of Inl e \<Rightarrow> Inl e
     | Inr a \<Rightarrow> (case unicode_cpts_to_utf8 ys of Inl e \<Rightarrow> Inl e | Inr b \<Rightarrow> Inr (a @ b)))"
  by (induction xs) (auto split: sum.splits)

lemma cpts_to_utf8_ok: "(\<exists>bs. unicode_cpts_to_utf8 cps = Inr bs) \<longleftrightarrow> (\<forall>c \<in> set cps. c \<le> 0x10ffff)"
proof (induction cps)
  case (Cons c cps)
  then show ?case using cpt_to_utf8_ok [of c] by (auto split: sum.splits simp: not_le) (metis not_le)+
qed simp

text \<open>
  C37: UTF-8 encoding and decoding are inverse on every sequence of code points up to
  \<open>0x10FFFF\<close>: the encoder succeeds, the decoder gives the code points back, and so re-encoding
  what was decoded gives the same bytes.
\<close>

theorem utf8_round_trip:
  assumes "\<forall>c \<in> set cps. c \<le> 0x10ffff"
  shows "\<exists>bs. unicode_cpts_to_utf8 cps = Inr bs \<and> unicode_cpts_from_utf8 bs = cps \<and>
    unicode_cpts_to_utf8 (unicode_cpts_from_utf8 bs) = Inr bs"
proof -
  obtain bs where "unicode_cpts_to_utf8 cps = Inr bs" using assms cpts_to_utf8_ok by blast
  then show ?thesis using cpts_round_trip [of cps bs] by simp
qed

theorem utf8_round_trip_witness:
  "\<exists>bs. unicode_cpts_to_utf8 [0x41, 0xE9, 0x4E2D, 0x1F600] = Inr bs \<and>
    unicode_cpts_from_utf8 bs = [0x41, 0xE9, 0x4E2D, 0x1F600] \<and>
    unicode_cpts_to_utf8 (unicode_cpts_from_utf8 bs) = Inr bs"
  by (rule utf8_round_trip) simp

subsection \<open>The byte alphabet\<close>

definition spare_index :: "nat \<Rightarrow> nat" where
  "spare_index ch = length (filter (\<lambda>y. y \<notin> set printable_ranges) [0 ..< ch])"

definition slot :: "nat \<Rightarrow> nat" where
  "slot ch = (if ch \<in> set printable_ranges then ch else 256 + spare_index ch)"

lemma spare_Suc: "spare_index (Suc k) = spare_index k + (if k \<in> set printable_ranges then 0 else 1)"
  by (simp add: spare_index_def)

lemma spare_mono: "i \<le> j \<Longrightarrow> spare_index i \<le> spare_index j"
  by (induction j) (auto simp: spare_Suc le_Suc_eq)

lemma spare_less: "i < j \<Longrightarrow> i \<notin> set printable_ranges \<Longrightarrow> spare_index i < spare_index j"
  using spare_mono [of "Suc i" j] by (simp add: spare_Suc)

lemma printable_less: "ch \<in> set printable_ranges \<Longrightarrow> ch < 256"
  by (auto simp: printable_ranges_def)

lemma spare_bound: "spare_index k \<le> k"
  unfolding spare_index_def by (metis length_filter_le length_upt diff_zero)

lemma slot_less: "ch < 256 \<Longrightarrow> slot ch < 512"
  using spare_bound [of ch] printable_less [of ch] by (simp add: slot_def)

lemma slot_inj: "slot a = slot b \<Longrightarrow> a = b"
  using printable_less [of a] printable_less [of b] spare_less [of a b] spare_less [of b a]
  by (auto simp: slot_def split: if_splits) (metis less_irrefl linorder_neqE_nat)

lemma bytes_of_cpt_inj:
  assumes "a < 512" "b < 512" "bytes_of_cpt a = bytes_of_cpt b"
  shows "a = b"
proof -
  have ok: "\<exists>bs. unicode_cpt_to_utf8 (of_nat c) = Inr bs" if "c < 512" for c
  proof -
    have "(of_nat c :: u32) \<le> 0x10ffff" using that by (simp add: word_le_nat_alt unat_of_nat)
    then show ?thesis using cpt_to_utf8_ok [of "of_nat c"] by (metis not_le obj_sumE)
  qed
  obtain x where x: "unicode_cpt_to_utf8 (of_nat a) = Inr x" using ok assms(1) by blast
  obtain y where y: "unicode_cpt_to_utf8 (of_nat b) = Inr y" using ok assms(2) by blast
  have "x = y" using assms(3) x y by (simp add: bytes_of_cpt_def)
  then have "(of_nat a :: u32) = of_nat b"
    using decode_encode_at [OF x, of "[]" "[]"] decode_encode_at [OF y, of "[]" "[]"] by simp
  then have "unat (of_nat a :: u32) = unat (of_nat b :: u32)" by simp
  then show ?thesis using assms(1,2) by (simp add: unat_of_nat)
qed

lemma fold_upd_same: "fold (\<lambda>ch m. m(k ch \<mapsto> v ch)) xs m0 s =
   (case filter (\<lambda>ch. k ch = s) xs of [] \<Rightarrow> m0 s | ys \<Rightarrow> Some (v (last ys)))"
  by (induction xs arbitrary: m0) (auto split: list.splits)

lemma base_fwd: "fold (\<lambda>ch m. m(ch \<mapsto> bytes_of_cpt ch)) printable_ranges Map.empty x =
   (if x \<in> set printable_ranges then Some (bytes_of_cpt (slot x)) else None)"
proof (cases "filter (\<lambda>ch. ch = x) printable_ranges")
  case (Cons a as)
  then have "last (a # as) = x" "x \<in> set printable_ranges"
    by (metis (mono_tags, lifting) last_in_set list.distinct(1) mem_Collect_eq set_filter)+
  then show ?thesis using fold_upd_same [of "\<lambda>ch. ch" bytes_of_cpt printable_ranges Map.empty x] Cons
    by (simp add: slot_def)
qed (use fold_upd_same [of "\<lambda>ch. ch" bytes_of_cpt printable_ranges Map.empty x] in \<open>auto simp: filter_empty_conv\<close>)

lemma base_rev: "fold (\<lambda>ch m. m(bytes_of_cpt ch \<mapsto> ch)) printable_ranges Map.empty (bytes_of_cpt c) =
   (if c \<in> set printable_ranges then Some c else None)" if "c < 512"
proof (cases "filter (\<lambda>ch. bytes_of_cpt ch = bytes_of_cpt c) printable_ranges")
  case Nil
  then show ?thesis using fold_upd_same [of bytes_of_cpt "\<lambda>ch. ch" printable_ranges Map.empty "bytes_of_cpt c"]
    by (auto simp: filter_empty_conv)
next
  case (Cons a as)
  then have "last (a # as) \<in> set printable_ranges \<and> bytes_of_cpt (last (a # as)) = bytes_of_cpt c"
    by (metis (mono_tags, lifting) last_in_set list.distinct(1) mem_Collect_eq set_filter)
  then have "last (a # as) = c" "c \<in> set printable_ranges"
    using bytes_of_cpt_inj [of "last (a # as)" c] printable_less that by (force simp del: last.simps)+
  then show ?thesis using fold_upd_same [of bytes_of_cpt "\<lambda>ch. ch" printable_ranges Map.empty "bytes_of_cpt c"] Cons
    by simp
qed

lemma fwd_map: "ch < 256 \<Longrightarrow> unicode_byte_to_utf8_map ch = Some (bytes_of_cpt (slot ch))"
proof -
  define b0 where "b0 = fold (\<lambda>ch m. m(ch \<mapsto> bytes_of_cpt ch)) printable_ranges Map.empty"
  have b0: "b0 x = (if x \<in> set printable_ranges then Some (bytes_of_cpt (slot x)) else None)" for x
    unfolding b0_def by (rule base_fwd)
  let ?f = "\<lambda>ch (m, n). if m ch = None then (m(ch \<mapsto> bytes_of_cpt (256 + n)), n + 1) else (m, n)"
  have "fold ?f [0 ..< k] (b0, 0) =
      (\<lambda>x. if x < k \<or> x \<in> set printable_ranges then Some (bytes_of_cpt (slot x)) else None, spare_index k)" for k
  proof (induction k)
    case 0
    show ?case by (simp add: b0 spare_index_def fun_eq_iff)
  next
    case (Suc k)
    then show ?case by (auto simp: spare_Suc slot_def fun_eq_iff less_Suc_eq)
  qed
  then show "ch < 256 \<Longrightarrow> ?thesis" by (simp add: unicode_byte_to_utf8_map_def b0_def [symmetric])
qed

lemma rev_map: "ch < 256 \<Longrightarrow> unicode_utf8_to_byte_map (bytes_of_cpt (slot ch)) = Some ch"
proof -
  define b0 where "b0 = fold (\<lambda>ch m. m(bytes_of_cpt ch \<mapsto> ch)) printable_ranges Map.empty"
  have b0: "b0 (bytes_of_cpt c) = (if c \<in> set printable_ranges then Some c else None)" if "c < 512" for c
    unfolding b0_def using that by (rule base_rev)
  let ?f = "\<lambda>ch (m, n). if m (bytes_of_cpt ch) = None then (m(bytes_of_cpt (256 + n) \<mapsto> ch), n + 1) else (m, n)"
  have "k \<le> 256 \<Longrightarrow> \<exists>m. fold ?f [0 ..< k] (b0, 0) = (m, spare_index k) \<and>
      (\<forall>c < 512. m (bytes_of_cpt c) = (if c \<in> set printable_ranges then Some c
         else if \<exists>x<k. slot x = c then Some (THE x. slot x = c) else None))" for k
  proof (induction k)
    case 0
    show ?case using b0 by (simp add: spare_index_def)
  next
    case (Suc k)
    then obtain m where m: "fold ?f [0 ..< k] (b0, 0) = (m, spare_index k)"
      "\<And>c. c < 512 \<Longrightarrow> m (bytes_of_cpt c) = (if c \<in> set printable_ranges then Some c
         else if \<exists>x<k. slot x = c then Some (THE x. slot x = c) else None)" by auto
    have the: "(THE x. slot x = slot y) = y" for y using slot_inj by blast
    have nk: "m (bytes_of_cpt k) = (if k \<in> set printable_ranges then Some k else None)"
    proof -
      have "slot x \<noteq> k" if "k \<notin> set printable_ranges" for x
        using that Suc.prems printable_less by (auto simp: slot_def)
      then show ?thesis using m(2) [of k] Suc.prems by auto
    qed
    show ?case
    proof (cases "k \<in> set printable_ranges")
      case True
      then have "slot k = k" by (simp add: slot_def)
      then show ?thesis using m nk True by (auto simp: spare_Suc less_Suc_eq)
    next
      case False
      then have sk: "slot k = 256 + spare_index k" by (simp add: slot_def)
      let ?m = "m(bytes_of_cpt (slot k) \<mapsto> k)"
      have "fold ?f [0 ..< Suc k] (b0, 0) = (?m, spare_index (Suc k))"
        using m(1) nk False by (simp add: spare_Suc sk)
      moreover have "?m (bytes_of_cpt c) = (if c \<in> set printable_ranges then Some c
         else if \<exists>x<Suc k. slot x = c then Some (THE x. slot x = c) else None)" if c: "c < 512" for c
      proof (cases "c = slot k")
        case True
        then have "c \<notin> set printable_ranges" using sk printable_less [of c] by auto
        then show ?thesis using True the by auto
      next
        case neq: False
        then have "bytes_of_cpt c \<noteq> bytes_of_cpt (slot k)"
          using bytes_of_cpt_inj [OF c] slot_less [of k] Suc.prems by auto
        then show ?thesis using m(2) [OF c] neq by (auto simp: less_Suc_eq)
      qed
      ultimately show ?thesis by blast
    qed
  qed
  from this [of 256] obtain m where m: "fold ?f [0 ..< 256] (b0, 0) = (m, spare_index 256)"
    "\<And>c. c < 512 \<Longrightarrow> m (bytes_of_cpt c) = (if c \<in> set printable_ranges then Some c
         else if \<exists>x<256. slot x = c then Some (THE x. slot x = c) else None)" by auto
  assume ch: "ch < 256"
  have "(THE x. slot x = slot ch) = ch" using slot_inj by blast
  then have "m (bytes_of_cpt (slot ch)) = Some ch"
    using m(2) [OF slot_less [OF ch]] ch printable_less by (auto simp: slot_def)
  then show ?thesis using m(1) by (simp add: unicode_utf8_to_byte_map_def b0_def [symmetric])
qed

text \<open>
  The byte alphabet of the byte-pair encoder: every byte is written as one code point
  below 512, the two tables are inverse to each other, and \<open>map.at\<close> never throws on the way.
\<close>

theorem byte_alphabet_bijective:
  "\<exists>s c. unicode_byte_to_utf8 b = Inr s \<and> unicode_cpts_from_utf8 s = [c] \<and> c < 512 \<and>
     unicode_utf8_to_byte s = Inr b"
proof -
  have b: "unat b < 256" by (rule unat_u8_less)
  let ?c = "of_nat (slot (unat b)) :: u32"
  have sl: "slot (unat b) < 512" by (rule slot_less [OF b])
  then have c: "?c < 512" by (simp add: word_less_nat_alt unat_of_nat)
  then have "?c \<le> 0x10ffff" by (simp add: word_le_nat_alt word_less_nat_alt)
  then obtain s where s: "unicode_cpt_to_utf8 ?c = Inr s" using cpt_to_utf8_ok [of ?c] by (metis not_le obj_sumE)
  then have s': "bytes_of_cpt (slot (unat b)) = s" by (simp add: bytes_of_cpt_def)
  then have "unicode_byte_to_utf8 b = Inr s" using fwd_map [OF b] by (simp add: unicode_byte_to_utf8_def)
  moreover have "unicode_utf8_to_byte s = Inr b" using rev_map [OF b] s' by (simp add: unicode_utf8_to_byte_def)
  moreover have "unicode_cpts_from_utf8 s = [?c]" using cpts_round_trip [of "[?c]" s] s by simp
  ultimately show ?thesis using c by blast
qed

end
