(* ===== verification/Regex_Split.thy ===== *)
theory Regex_Split
  imports Unicode
begin

text \<open>
  Pre-tokenisation (\<open>unicode_regex_split\<close> of \<open>unicode.cpp\<close>): the text is cut into pieces of
  code points, given by their lengths, by a list of regular expressions.  Two expressions have
  hand-written splitters; the others go to \<open>std::regex\<close>, which is the argument \<open>regex_lib\<close>
  (which expressions compile, and the matches in a range as positions and lengths).  \<open>None\<close>
  is a failed assertion.
\<close>

definition str_bytes :: "string \<Rightarrow> bytes" where
  "str_bytes s = map of_char s"

record regex_lib =
  rx_compiles :: "bytes \<Rightarrow> bool"
  rx_matches :: "bytes \<Rightarrow> bytes \<Rightarrow> (nat \<times> nat) list"
  wrx_compiles :: "u32 list \<Rightarrow> bool"
  wrx_matches :: "u32 list \<Rightarrow> u32 list \<Rightarrow> (nat \<times> nat) list"
  from_bytes :: "bytes \<Rightarrow> error + u32 list"

subsection \<open>The hand-written splitters\<close>

record tok =
  prev_end :: nat
  tok_offsets :: "nat list"

abbreviation (input) OUT_OF_RANGE :: u32 where "OUT_OF_RANGE \<equiv> 0xFFFFFFFF"

definition get_cpt :: "u32 list \<Rightarrow> nat \<Rightarrow> nat \<Rightarrow> nat \<Rightarrow> u32" where
  "get_cpt cpts offset_ini offset_end pos =
     (if offset_ini \<le> pos \<and> pos < offset_end then cpts ! pos else OUT_OF_RANGE)"

definition get_flags :: "unicode_data \<Rightarrow> u32 list \<Rightarrow> nat \<Rightarrow> nat \<Rightarrow> nat \<Rightarrow> u16" where
  "get_flags d cpts offset_ini offset_end pos =
     (if offset_ini \<le> pos \<and> pos < offset_end then unicode_cpt_flags_from_cpt d (cpts ! pos) else 0)"

definition add_token :: "nat \<Rightarrow> nat \<Rightarrow> tok \<Rightarrow> (nat \<times> tok) option" where
  "add_token offset_end stop t =
     (if \<not> (prev_end t \<le> stop \<and> stop \<le> offset_end) then None
      else let len = stop - prev_end t
           in Some (len, t\<lparr>tok_offsets := (if len > 0 then tok_offsets t @ [len] else tok_offsets t), prev_end := stop\<rparr>))"

text \<open>\<open>_add_token(pos); continue;\<close> and \<open>pos += _add_token(stop); continue;\<close>\<close>

definition token_to :: "nat \<Rightarrow> nat \<Rightarrow> tok \<Rightarrow> (nat \<times> tok) option" where
  "token_to offset_end pos t = (case add_token offset_end pos t of None \<Rightarrow> None | Some (_, t') \<Rightarrow> Some (pos, t'))"

definition token_len :: "nat \<Rightarrow> nat \<Rightarrow> nat \<Rightarrow> tok \<Rightarrow> (nat \<times> tok) option" where
  "token_len offset_end pos stop t = (case add_token offset_end stop t of None \<Rightarrow> None | Some (len, t') \<Rightarrow> Some (pos + len, t'))"

text \<open>A loop that moves on while the flags (or code point) at the position fit; they never fit
  outside the range, where the flags are 0 and the code point is \<open>OUT_OF_RANGE\<close>.\<close>

function skip :: "(nat \<Rightarrow> bool) \<Rightarrow> nat \<Rightarrow> nat \<Rightarrow> nat" where
  "skip P offset_end pos = (if pos < offset_end \<and> P pos then skip P offset_end (pos + 1) else pos)"
  by pat_completeness auto
termination by (relation "measure (\<lambda>(P, e, pos). e - pos)") auto

declare skip.simps [simp del]

definition is_other :: "u16 \<Rightarrow> bool" where
  "is_other flags \<longleftrightarrow> \<not> (is_whitespace flags \<or> is_letter flags \<or> is_number flags) \<and> flags \<noteq> 0"

abbreviation (input) chr :: "char \<Rightarrow> u32" where "chr c \<equiv> of_char c"

text \<open>The contractions \<open>'s 't 're 've 'm 'll 'd\<close>: where the token ends, if one starts at \<open>pos\<close>.\<close>

definition contraction :: "(u32 \<Rightarrow> u32) \<Rightarrow> (nat \<Rightarrow> u32) \<Rightarrow> nat \<Rightarrow> nat \<Rightarrow> nat option" where
  "contraction lower cpt_at offset_end pos =
     (if cpt_at pos = chr (CHR 0x27) \<and> pos + 1 < offset_end then
        (let cpt_next = lower (cpt_at (pos + 1)) in
         if cpt_next = chr CHR ''s'' \<or> cpt_next = chr CHR ''t'' \<or> cpt_next = chr CHR ''m'' \<or> cpt_next = chr CHR ''d''
         then Some (pos + 2)
         else if pos + 2 < offset_end then
           (let cpt_next_next = lower (cpt_at (pos + 2)) in
            if (cpt_next = chr CHR ''r'' \<and> cpt_next_next = chr CHR ''e'') \<or>
               (cpt_next = chr CHR ''v'' \<and> cpt_next_next = chr CHR ''e'') \<or>
               (cpt_next = chr CHR ''l'' \<and> cpt_next_next = chr CHR ''l'')
            then Some (pos + 3) else None)
         else None)
      else None)"

definition gpt2_step :: "unicode_data \<Rightarrow> u32 list \<Rightarrow> nat \<Rightarrow> nat \<Rightarrow> nat \<Rightarrow> tok \<Rightarrow> (nat \<times> tok) option" where
  "gpt2_step d cpts offset_ini offset_end pos t =
     (let cpt_at = get_cpt cpts offset_ini offset_end;
          flags_at = get_flags d cpts offset_ini offset_end;
          cpt = cpt_at pos;
          flags = flags_at pos
      in case contraction id cpt_at offset_end pos of
        Some stop \<Rightarrow> token_len offset_end pos stop t
      | None \<Rightarrow>
        (let flags2 = (if cpt = chr CHR '' '' then flags_at (pos + 1) else flags);
             pos1 = pos + (if cpt = chr CHR '' '' then 1 else 0);
             num_whitespaces = skip (\<lambda>p. is_whitespace (flags_at p)) offset_end pos - pos
         in if is_letter flags2 then
              token_to offset_end (skip (\<lambda>p. is_letter (flags_at p)) offset_end pos1) t
            else if is_number flags2 then
              token_to offset_end (skip (\<lambda>p. is_number (flags_at p)) offset_end pos1) t
            else if is_other flags2 then
              token_to offset_end (skip (\<lambda>p. is_other (flags_at p)) offset_end pos1) t
            else if num_whitespaces > 1 \<and> cpt_at (pos + num_whitespaces) \<noteq> OUT_OF_RANGE then
              token_to offset_end (pos + (num_whitespaces - 1)) t
            else if num_whitespaces > 0 then token_to offset_end (pos + num_whitespaces) t
            else token_to offset_end (pos + 1) t))"

text \<open>\<open>\p{N}{1,3}\<close>: a token after every third digit and one for the rest.\<close>

function digits :: "(nat \<Rightarrow> bool) \<Rightarrow> nat \<Rightarrow> nat \<Rightarrow> nat \<Rightarrow> tok \<Rightarrow> (nat \<times> tok) option" where
  "digits P offset_end ini pos t =
     (if pos < offset_end \<and> P pos then
        (if pos + 1 - ini \<ge> 3 then
           (case add_token offset_end (pos + 1) t of None \<Rightarrow> None
            | Some (_, t') \<Rightarrow> digits P offset_end (pos + 1) (pos + 1) t')
         else digits P offset_end ini (pos + 1) t)
      else token_to offset_end pos t)"
  by pat_completeness auto
termination by (relation "measure (\<lambda>(P, e, ini, pos, t). e - pos)") auto

declare digits.simps [simp del]

definition is_crlf :: "u32 \<Rightarrow> bool" where
  "is_crlf cpt \<longleftrightarrow> cpt = 0x0D \<or> cpt = 0x0A"

definition llama3_step :: "unicode_data \<Rightarrow> u32 list \<Rightarrow> nat \<Rightarrow> nat \<Rightarrow> nat \<Rightarrow> tok \<Rightarrow> (nat \<times> tok) option" where
  "llama3_step d cpts offset_ini offset_end pos t =
     (let cpt_at = get_cpt cpts offset_ini offset_end;
          flags_at = get_flags d cpts offset_ini offset_end;
          cpt = cpt_at pos;
          flags = flags_at pos
      in case contraction (unicode_tolower d) cpt_at offset_end pos of
        Some stop \<Rightarrow> token_len offset_end pos stop t
      | None \<Rightarrow>
        if \<not> (is_crlf cpt \<or> is_number flags) \<and> (is_letter flags \<or> is_letter (flags_at (pos + 1))) then
          token_to offset_end (skip (\<lambda>p. is_letter (flags_at p)) offset_end (pos + 1)) t
        else if is_number flags then digits (\<lambda>p. is_number (flags_at p)) offset_end pos pos t
        else
          (let flags2 = (if cpt = chr CHR '' '' then flags_at (pos + 1) else flags)
           in if \<not> (is_whitespace flags2 \<or> is_letter flags2 \<or> is_number flags2) \<and> flags \<noteq> 0 then
                (let pos1 = skip (\<lambda>p. is_other (flags_at p)) offset_end (pos + (if cpt = chr CHR '' '' then 1 else 0));
                     pos2 = skip (\<lambda>p. is_crlf (cpt_at p)) offset_end pos1
                 in token_to offset_end pos2 t)
              else
                (let num_whitespaces = skip (\<lambda>p. is_whitespace (flags_at p)) offset_end pos - pos;
                     last_end_r_or_n = fold (\<lambda>k e. if is_crlf (cpt_at (pos + k)) then Suc (pos + k) else e) [0 ..< num_whitespaces] 0
                 in if last_end_r_or_n > 0 then token_to offset_end last_end_r_or_n t
                    else if num_whitespaces > 1 \<and> cpt_at (pos + num_whitespaces) \<noteq> OUT_OF_RANGE then
                      token_to offset_end (pos + (num_whitespaces - 1)) t
                    else if num_whitespaces > 0 then token_to offset_end (pos + num_whitespaces) t
                    else token_to offset_end (pos + 1) t)))"

text \<open>The loop over one range, with as much fuel as the range has code points, and over all ranges.\<close>

fun split_range :: "(nat \<Rightarrow> nat \<Rightarrow> nat \<Rightarrow> tok \<Rightarrow> (nat \<times> tok) option) \<Rightarrow> nat \<Rightarrow> nat \<Rightarrow> nat \<Rightarrow> nat \<Rightarrow> tok \<Rightarrow> tok option" where
  "split_range step fuel offset_ini offset_end pos t =
     (if pos < offset_end then
        (case fuel of 0 \<Rightarrow> None
         | Suc fuel' \<Rightarrow> (case step offset_ini offset_end pos t of None \<Rightarrow> None
             | Some (pos', t') \<Rightarrow> split_range step fuel' offset_ini offset_end pos' t'))
      else Some t)"

declare split_range.simps [simp del]

fun split_ranges :: "(nat \<Rightarrow> nat \<Rightarrow> nat \<Rightarrow> tok \<Rightarrow> (nat \<times> tok) option) \<Rightarrow> nat \<Rightarrow> nat \<Rightarrow> nat list \<Rightarrow> nat list \<Rightarrow> nat list option" where
  "split_ranges step n start [] acc = Some acc"
| "split_ranges step n start (offset # offsets) acc =
     (if \<not> start + offset \<le> n then None
      else case split_range step offset start (start + offset) start \<lparr>prev_end = start, tok_offsets = acc\<rparr> of
        None \<Rightarrow> None | Some t \<Rightarrow> split_ranges step n (start + offset) offsets (tok_offsets t))"

definition unicode_regex_split_custom_gpt2 :: "unicode_data \<Rightarrow> bytes \<Rightarrow> nat list \<Rightarrow> nat list option" where
  "unicode_regex_split_custom_gpt2 d text offsets =
     (let cpts = unicode_cpts_from_utf8 text in split_ranges (gpt2_step d cpts) (length cpts) 0 offsets [])"

definition unicode_regex_split_custom_llama3 :: "unicode_data \<Rightarrow> bytes \<Rightarrow> nat list \<Rightarrow> nat list option" where
  "unicode_regex_split_custom_llama3 d text offsets =
     (let cpts = unicode_cpts_from_utf8 text in split_ranges (llama3_step d cpts) (length cpts) 0 offsets [])"

definition gpt2_regex :: bytes where
  "gpt2_regex = str_bytes ([CHR 0x27] @ ''s|'' @ [CHR 0x27] @ ''t|'' @ [CHR 0x27] @ ''re|'' @ [CHR 0x27] @ ''ve|'' @ [CHR 0x27] @ ''m|'' @ [CHR 0x27] @ ''ll|'' @ [CHR 0x27] @ ''d| ?'' @ [CHR 0x5C] @ ''p{L}+| ?'' @ [CHR 0x5C] @ ''p{N}+| ?[^'' @ [CHR 0x5C] @ ''s'' @ [CHR 0x5C] @ ''p{L}'' @ [CHR 0x5C] @ ''p{N}]+|'' @ [CHR 0x5C] @ ''s+(?!'' @ [CHR 0x5C] @ ''S)'')"

definition llama3_regex :: bytes where
  "llama3_regex = str_bytes (''(?i:'' @ [CHR 0x27] @ ''s|'' @ [CHR 0x27] @ ''t|'' @ [CHR 0x27] @ ''re|'' @ [CHR 0x27] @ ''ve|'' @ [CHR 0x27] @ ''m|'' @ [CHR 0x27] @ ''ll|'' @ [CHR 0x27] @ ''d)|[^'' @ [CHR 0x5C] @ ''r'' @ [CHR 0x5C] @ ''n'' @ [CHR 0x5C] @ ''p{L}'' @ [CHR 0x5C] @ ''p{N}]?'' @ [CHR 0x5C] @ ''p{L}+|'' @ [CHR 0x5C] @ ''p{N}{1,3}| ?[^'' @ [CHR 0x5C] @ ''s'' @ [CHR 0x5C] @ ''p{L}'' @ [CHR 0x5C] @ ''p{N}]+['' @ [CHR 0x5C] @ ''r'' @ [CHR 0x5C] @ ''n]*|'' @ [CHR 0x5C] @ ''s*['' @ [CHR 0x5C] @ ''r'' @ [CHR 0x5C] @ ''n]+|'' @ [CHR 0x5C] @ ''s+(?!'' @ [CHR 0x5C] @ ''S)|'' @ [CHR 0x5C] @ ''s+'')"

definition llama3_regex_alt :: bytes where
  "llama3_regex_alt = str_bytes (''(?:'' @ [CHR 0x27] @ ''[sS]|'' @ [CHR 0x27] @ ''[tT]|'' @ [CHR 0x27] @ ''[rR][eE]|'' @ [CHR 0x27] @ ''[vV][eE]|'' @ [CHR 0x27] @ ''[mM]|'' @ [CHR 0x27] @ ''[lL][lL]|'' @ [CHR 0x27] @ ''[dD])|[^'' @ [CHR 0x5C] @ ''r'' @ [CHR 0x5C] @ ''n'' @ [CHR 0x5C] @ ''p{L}'' @ [CHR 0x5C] @ ''p{N}]?'' @ [CHR 0x5C] @ ''p{L}+|'' @ [CHR 0x5C] @ ''p{N}{1,3}| ?[^'' @ [CHR 0x5C] @ ''s'' @ [CHR 0x5C] @ ''p{L}'' @ [CHR 0x5C] @ ''p{N}]+['' @ [CHR 0x5C] @ ''r'' @ [CHR 0x5C] @ ''n]*|'' @ [CHR 0x5C] @ ''s*['' @ [CHR 0x5C] @ ''r'' @ [CHR 0x5C] @ ''n]+|'' @ [CHR 0x5C] @ ''s+(?!'' @ [CHR 0x5C] @ ''S)|'' @ [CHR 0x5C] @ ''s+'')"

definition unicode_regex_split_custom :: "unicode_data \<Rightarrow> bytes \<Rightarrow> bytes \<Rightarrow> nat list \<Rightarrow> nat list option" where
  "unicode_regex_split_custom d text regex_expr offsets =
     (if regex_expr = gpt2_regex then unicode_regex_split_custom_gpt2 d text offsets
      else if regex_expr = llama3_regex \<or> regex_expr = llama3_regex_alt then unicode_regex_split_custom_llama3 d text offsets
      else Some [])"

subsection \<open>The regex library\<close>

fun stl_range :: "nat \<Rightarrow> nat \<Rightarrow> (nat \<times> nat) list \<Rightarrow> nat list" where
  "stl_range offset start_idx [] = (if start_idx < offset then [offset - start_idx] else [])"
| "stl_range offset start_idx ((position, len) # it) =
     (if position > start_idx then [position - start_idx] else []) @ len # stl_range offset (position + len) it"

fun unicode_regex_split_stl :: "('c list \<Rightarrow> (nat \<times> nat) list) \<Rightarrow> 'c list \<Rightarrow> nat \<Rightarrow> nat list \<Rightarrow> nat list" where
  "unicode_regex_split_stl matches text start [] = []"
| "unicode_regex_split_stl matches text start (offset # offsets) =
     stl_range offset 0 (matches (take offset (drop start text))) @
     unicode_regex_split_stl matches text (start + offset) offsets"

definition k_ucat :: "(bytes \<times> u16) list" where
  "k_ucat = [(str_bytes ([CHR 0x5C] @ ''p{N}''), NUMBER), (str_bytes ([CHR 0x5C] @ ''p{L}''), LETTER), (str_bytes ([CHR 0x5C] @ ''p{P}''), PUNCTUATION), (str_bytes ([CHR 0x5C] @ ''p{M}''), ACCENT_MARK), (str_bytes ([CHR 0x5C] @ ''p{S}''), SYMBOL)]"

definition k_ucat_cpt :: "u16 \<rightharpoonup> u8" where
  "k_ucat_cpt = [NUMBER \<mapsto> 0xD1, LETTER \<mapsto> 0xD2, PUNCTUATION \<mapsto> 0xD3, ACCENT_MARK \<mapsto> 0xD4, SYMBOL \<mapsto> 0xD5]"

definition k_ucat_map :: "u16 \<rightharpoonup> bytes" where
  "k_ucat_map = [NUMBER \<mapsto> str_bytes (''0-9''), LETTER \<mapsto> str_bytes (''A-Za-z''), PUNCTUATION \<mapsto> str_bytes (''!-#%-*,-/:-;?-@'' @ [CHR 0x5C] @ ''[-'' @ [CHR 0x5C] @ '']_'' @ [CHR 0x5C] @ ''{'' @ [CHR 0x5C] @ ''}''),
     ACCENT_MARK \<mapsto> [], SYMBOL \<mapsto> str_bytes ([CHR 0x5C] @ ''$'' @ [CHR 0x5C] @ ''+<->^'' @ [CHR 0x60, CHR 0x5C] @ ''|'')]"

definition has_category :: "bytes \<Rightarrow> bool" where
  "has_category regex_expr \<longleftrightarrow> list_ex (\<lambda>ucat. list_ex (prefix (fst ucat)) (suffixes regex_expr)) k_ucat"

definition collapse_cpt :: "unicode_data \<Rightarrow> u32 \<Rightarrow> u8" where
  "collapse_cpt d cpt =
     (if cpt < 128 then ucast cpt
      else let flags = unicode_cpt_flags_from_cpt d cpt
           in if is_whitespace flags then 0x0B
              else case k_ucat_cpt (category_flag flags) of Some c \<Rightarrow> c | None \<Rightarrow> 0xD0)"

definition collapse_text :: "unicode_data \<Rightarrow> u32 list \<Rightarrow> bytes" where
  "collapse_text d cpts = map (collapse_cpt d) cpts"

abbreviation (input) lbracket :: u8 where "lbracket \<equiv> 0x5B"
abbreviation (input) rbracket :: u8 where "rbracket \<equiv> 0x5D"
abbreviation (input) backslash :: u8 where "backslash \<equiv> 0x5C"

function collapse_regex :: "bytes \<Rightarrow> nat \<Rightarrow> bool \<Rightarrow> bytes" where
  "collapse_regex expr i inside =
     (if \<not> i < length expr then []
      else if expr ! i = lbracket \<and> (i = 0 \<or> expr ! (i - 1) \<noteq> backslash)
      then lbracket # collapse_regex expr (i + 1) True
      else if inside \<and> expr ! i = rbracket \<and> expr ! (i - 1) \<noteq> backslash
      then rbracket # collapse_regex expr (i + 1) False
      else if expr ! i = backslash \<and> i + 4 < length expr \<and> expr ! (i + 1) = of_char CHR ''p'' \<and>
          expr ! (i + 2) = of_char CHR ''{'' \<and> expr ! (i + 4) = of_char CHR ''}'' \<and>
          map_of k_ucat (take 5 (drop i expr)) \<noteq> None
      then (let cat = the (map_of k_ucat (take 5 (drop i expr)))
            in (if \<not> inside then [lbracket] else []) @ the (k_ucat_cpt cat) # the (k_ucat_map cat) @
               (if \<not> inside then [rbracket] else []) @ collapse_regex expr (i + 5) inside)
      else expr ! i # collapse_regex expr (i + 1) inside)"
  by pat_completeness auto
termination by (relation "measure (\<lambda>(expr, i, inside). length expr - i)") auto

declare collapse_regex.simps [simp del]

definition widen_text :: "unicode_data \<Rightarrow> u32 list \<Rightarrow> u32 list" where
  "widen_text d cpts = map (\<lambda>c. if c > 0x7F \<and> is_whitespace (unicode_cpt_flags_from_cpt d c) then 0x0B else c) cpts"

subsection \<open>unicode_regex_split\<close>

definition split_by_regex :: "unicode_data \<Rightarrow> regex_lib \<Rightarrow> bytes \<Rightarrow> bytes \<Rightarrow> nat list \<Rightarrow> error + nat list" where
  "split_by_regex d rx text regex_expr bpe_offsets =
     (let cpts = unicode_cpts_from_utf8 text in
      case unicode_regex_split_custom d text regex_expr bpe_offsets of
        None \<Rightarrow> Inl Assertion_failed
      | Some tmp \<Rightarrow>
        if tmp \<noteq> [] then Inr tmp
        else if has_category regex_expr then
          (if list_ex (\<lambda>c. c \<ge> 128) (unicode_cpts_from_utf8 regex_expr) then Inl Non_ascii_regex
           else let regex_expr_collapsed = collapse_regex regex_expr 0 False
                in if \<not> rx_compiles rx regex_expr_collapsed then Inl Regex_error
                   else Inr (unicode_regex_split_stl (rx_matches rx regex_expr_collapsed) (collapse_text d cpts) 0 bpe_offsets))
        else
          (case from_bytes rx regex_expr of
             Inl e \<Rightarrow> Inl e
           | Inr wregex_expr \<Rightarrow>
               if \<not> wrx_compiles rx wregex_expr then Inl Regex_error
               else Inr (unicode_regex_split_stl (wrx_matches rx wregex_expr) (widen_text d cpts) 0 bpe_offsets)))"

fun split_offsets :: "unicode_data \<Rightarrow> regex_lib \<Rightarrow> bytes \<Rightarrow> bytes list \<Rightarrow> nat list \<Rightarrow> error + nat list" where
  "split_offsets d rx text [] bpe_offsets = Inr bpe_offsets"
| "split_offsets d rx text (regex_expr # regex_exprs) bpe_offsets =
     (case split_by_regex d rx text regex_expr bpe_offsets of Inl e \<Rightarrow> Inl e
      | Inr bpe_offsets' \<Rightarrow> split_offsets d rx text regex_exprs bpe_offsets')"

fun make_words :: "u32 list \<Rightarrow> nat \<Rightarrow> nat list \<Rightarrow> error + bytes list" where
  "make_words cpts start [] = Inr []"
| "make_words cpts start (offset # bpe_offsets) =
     (case unicode_cpts_to_utf8 (map (\<lambda>i. cpts ! i) [start ..< start + offset]) of Inl e \<Rightarrow> Inl e
      | Inr word \<Rightarrow> (case make_words cpts (start + offset) bpe_offsets of Inl e \<Rightarrow> Inl e
          | Inr bpe_words \<Rightarrow> Inr (word # bpe_words)))"

definition unicode_regex_split :: "unicode_data \<Rightarrow> regex_lib \<Rightarrow> bytes \<Rightarrow> bytes list \<Rightarrow> error + bytes list" where
  "unicode_regex_split d rx text regex_exprs =
     (let cpts = unicode_cpts_from_utf8 text in
      case split_offsets d rx text regex_exprs [length cpts] of Inl e \<Rightarrow> Inl e
      | Inr bpe_offsets \<Rightarrow> (case make_words cpts 0 bpe_offsets of Inl e \<Rightarrow> Inl e
          | Inr bpe_words \<Rightarrow> unicode_byte_encoding_process bpe_words))"

subsection \<open>What every splitter promises\<close>

text \<open>
  One step of a splitter moves on inside the range and has written tokens of positive length
  that cover exactly what it moved over.
\<close>

definition advances :: "nat \<Rightarrow> nat \<Rightarrow> tok \<Rightarrow> (nat \<times> tok) option \<Rightarrow> bool" where
  "advances offset_end pos t r \<longleftrightarrow>
     (\<exists>pos' ls. r = Some (pos', \<lparr>prev_end = pos', tok_offsets = tok_offsets t @ ls\<rparr>) \<and>
        pos < pos' \<and> pos' \<le> offset_end \<and> sum_list ls = pos' - pos \<and> 0 \<notin> set ls)"

text \<open>\<open>refines new old\<close>: the pieces \<open>new\<close> are the pieces \<open>old\<close>, each cut further.\<close>

definition refines :: "nat list \<Rightarrow> nat list \<Rightarrow> bool" where
  "refines new old \<longleftrightarrow> (\<exists>lss. new = concat lss \<and> map sum_list lss = old)"

lemma sum_list_concat_map: "sum_list (concat lss) = sum_list (map sum_list (lss :: nat list list))"
  by (induction lss) auto

lemma refines_sum: "refines new old \<Longrightarrow> sum_list new = sum_list old"
  by (auto simp: refines_def sum_list_concat_map)

lemma refines_refl: "refines xs xs"
  unfolding refines_def by (rule exI [of _ "map (\<lambda>x. [x]) xs"]) (simp add: comp_def concat_map_singleton)

lemma refines_split:
  "refines new (xs @ ys) \<Longrightarrow> \<exists>a b. new = a @ b \<and> refines a xs \<and> refines b ys"
  unfolding refines_def by (metis concat_append map_eq_append_conv)

lemma refines_append: "refines a xs \<Longrightarrow> refines b ys \<Longrightarrow> refines (a @ b) (xs @ ys)"
  unfolding refines_def by (metis concat_append map_append)

lemma refines_trans: "refines a b \<Longrightarrow> refines b c \<Longrightarrow> refines a c"
proof (induction c arbitrary: a b)
  case Nil
  then show ?case by (auto simp: refines_def)
next
  case (Cons x xs)
  then obtain b1 b2 where b: "b = b1 @ b2" "refines b1 [x]" "refines b2 xs"
    using refines_split [of b "[x]" xs] by auto
  obtain a1 a2 where a: "a = a1 @ a2" "refines a1 b1" "refines a2 b2"
    using refines_split Cons.prems(1) b(1) by blast
  have "refines a1 [x]" using refines_sum [OF a(2)] refines_sum [OF b(2)]
    unfolding refines_def by (intro exI [of _ "[a1]"]) simp
  then show ?case using refines_append [of a1 "[x]" a2 xs] Cons.IH [OF a(3) b(3)] a(1) by simp
qed

locale range_splitter =
  fixes step :: "nat \<Rightarrow> nat \<Rightarrow> nat \<Rightarrow> tok \<Rightarrow> (nat \<times> tok) option"
  assumes step_advances:
    "ini \<le> pos \<Longrightarrow> pos < fin \<Longrightarrow> prev_end t = pos \<Longrightarrow> advances fin pos t (step ini fin pos t)"
begin

lemma range_covered:
  "ini \<le> pos \<Longrightarrow> pos \<le> fin \<Longrightarrow> prev_end t = pos \<Longrightarrow> fin - pos \<le> fuel \<Longrightarrow>
     \<exists>ls. split_range step fuel ini fin pos t = Some \<lparr>prev_end = fin, tok_offsets = tok_offsets t @ ls\<rparr> \<and>
       sum_list ls = fin - pos \<and> 0 \<notin> set ls"
proof (induction fuel arbitrary: pos t)
  case 0
  then show ?case by (intro exI [of _ "[]"]) (simp add: split_range.simps)
next
  case (Suc fuel)
  show ?case
  proof (cases "pos < fin")
    case False
    then show ?thesis using Suc.prems by (intro exI [of _ "[]"]) (simp add: split_range.simps)
  next
    case True
    then obtain pos' ls where s: "step ini fin pos t = Some (pos', \<lparr>prev_end = pos', tok_offsets = tok_offsets t @ ls\<rparr>)"
      "pos < pos'" "pos' \<le> fin" "sum_list ls = pos' - pos" "0 \<notin> set ls"
      using step_advances [OF Suc.prems(1) True Suc.prems(3)] unfolding advances_def by blast
    obtain ls' where "split_range step fuel ini fin pos' \<lparr>prev_end = pos', tok_offsets = tok_offsets t @ ls\<rparr> =
        Some \<lparr>prev_end = fin, tok_offsets = (tok_offsets t @ ls) @ ls'\<rparr>" "sum_list ls' = fin - pos'" "0 \<notin> set ls'"
    proof -
      have "fin - pos' \<le> fuel" using Suc.prems s(2,3) by linarith
      then show ?thesis
        using Suc.IH [of pos' "\<lparr>prev_end = pos', tok_offsets = tok_offsets t @ ls\<rparr>"] Suc.prems s that by auto
    qed
    then show ?thesis using s True
      by (subst split_range.simps) (auto intro!: exI [of _ "ls @ ls'"])
  qed
qed

lemma ranges_covered:
  "start + sum_list offsets \<le> n \<Longrightarrow>
     \<exists>ls. split_ranges step n start offsets acc = Some (acc @ ls) \<and> refines ls offsets \<and> 0 \<notin> set ls"
proof (induction offsets arbitrary: start acc)
  case Nil
  then show ?case by (auto simp: refines_def)
next
  case (Cons x xs)
  obtain ls where l: "split_range step x start (start + x) start \<lparr>prev_end = start, tok_offsets = acc\<rparr> =
      Some \<lparr>prev_end = start + x, tok_offsets = acc @ ls\<rparr>" "sum_list ls = x" "0 \<notin> set ls"
    using range_covered [of start start "start + x" "\<lparr>prev_end = start, tok_offsets = acc\<rparr>" x] by auto
  obtain ls' where m: "split_ranges step n (start + x) xs (acc @ ls) = Some ((acc @ ls) @ ls')"
    "refines ls' xs" "0 \<notin> set ls'"
    using Cons.IH [of "start + x" "acc @ ls"] Cons.prems by (auto simp: add.assoc)
  have "refines ls [x]" using l(2) unfolding refines_def by (intro exI [of _ "[ls]"]) simp
  then have "refines (ls @ ls') (x # xs)" using refines_append [of ls "[x]" ls' xs] m(2) by simp
  then show ?case using Cons.prems l m by (intro exI [of _ "ls @ ls'"]) simp
qed

end

subsection \<open>The two splitters keep the promise\<close>

lemma token_to_advances:
  "prev_end t = pos \<Longrightarrow> pos < pos' \<Longrightarrow> pos' \<le> fin \<Longrightarrow> advances fin pos t (token_to fin pos' t)"
  by (auto simp: advances_def token_to_def add_token_def Let_def intro!: exI [of _ "[pos' - pos]"])

lemma token_len_advances:
  "prev_end t = pos \<Longrightarrow> pos < stop \<Longrightarrow> stop \<le> fin \<Longrightarrow> advances fin pos t (token_len fin pos stop t)"
  by (auto simp: advances_def token_len_def add_token_def Let_def intro!: exI [of _ "[stop - pos]"])

lemma skip_bounds: "pos \<le> fin \<Longrightarrow> pos \<le> skip P fin pos \<and> skip P fin pos \<le> fin"
proof (induction "fin - pos" arbitrary: pos)
  case 0
  then show ?case by (subst (1 2) skip.simps) simp
next
  case (Suc k)
  then have "k = fin - (pos + 1)" by simp
  from Suc.hyps(1) [OF this] Suc.hyps(2) show ?case by (subst (1 2) skip.simps) auto
qed

lemma skip_step: "pos < fin \<Longrightarrow> P pos \<Longrightarrow> pos < skip P fin pos"
  using skip_bounds [of "pos + 1" fin P] by (subst skip.simps) auto

lemma skip_holds: "pos \<le> p \<Longrightarrow> p < skip P fin pos \<Longrightarrow> P p"
proof (induction "fin - pos" arbitrary: pos)
  case 0
  then show ?case by (subst (asm) skip.simps) (simp split: if_splits)
next
  case (Suc k)
  show ?case
  proof (cases "pos < fin \<and> P pos")
    case True
    then have s: "skip P fin pos = skip P fin (pos + 1)" by (subst skip.simps) simp
    show ?thesis
    proof (cases "p = pos")
      case False
      then show ?thesis using Suc.hyps(1) [of "pos + 1"] Suc.hyps(2) Suc.prems s by simp
    qed (use True in simp)
  next
    case False
    then have "skip P fin pos = pos" by (subst skip.simps) (simp only: if_False)
    then show ?thesis using Suc.prems by simp
  qed
qed

lemma contraction_bounds: "contraction lower cpt_at fin pos = Some stop \<Longrightarrow> pos < stop \<and> stop \<le> fin"
  by (auto simp: contraction_def Let_def split: if_splits)

lemma flags_in_range:
  "is_letter (get_flags d cpts ini fin p) \<Longrightarrow> p < fin"
  "is_number (get_flags d cpts ini fin p) \<Longrightarrow> p < fin"
  "is_other (get_flags d cpts ini fin p) \<Longrightarrow> p < fin"
  "is_whitespace (get_flags d cpts ini fin p) \<Longrightarrow> p < fin"
  by (auto simp: get_flags_def is_letter_def is_number_def is_other_def is_whitespace_def split: if_splits)

lemma gpt2_advances:
  assumes "ini \<le> pos" "pos < fin" "prev_end t = pos"
  shows "advances fin pos t (gpt2_step d cpts ini fin pos t)"
proof -
  let ?flags = "get_flags d cpts ini fin" and ?pos1 = "pos + (if get_cpt cpts ini fin pos = chr CHR '' '' then 1 else 0)"
  let ?ws = "skip (\<lambda>p. is_whitespace (?flags p)) fin pos"
  have skip1: "advances fin pos t (token_to fin (skip P fin ?pos1) t)" if "P ?pos1" "?pos1 < fin" for P
    using skip_step [OF that(2), of P] skip_bounds [of ?pos1 fin P] that assms
    by (intro token_to_advances) (auto split: if_splits)
  have ws: "pos \<le> ?ws" "?ws \<le> fin" using skip_bounds [of pos fin] assms by auto
  note run = token_to_advances [OF assms(3), of _ fin] and len = token_len_advances [OF assms(3), of _ fin]
  show ?thesis
  proof (cases "contraction id (get_cpt cpts ini fin) fin pos")
    case None
    then show ?thesis
      using skip1 flags_in_range [of d cpts ini fin] ws assms run
      unfolding gpt2_step_def Let_def by (auto split: if_splits)
  qed (use contraction_bounds len in \<open>auto simp: gpt2_step_def Let_def\<close>)
qed

lemma digits_advances:
  "pos0 < pos \<or> (pos < fin \<and> P pos) \<Longrightarrow> pos0 \<le> pos \<Longrightarrow> pos \<le> fin \<Longrightarrow> ini \<le> pos \<Longrightarrow>
   prev_end t = ini \<Longrightarrow> pos0 \<le> ini \<Longrightarrow> tok_offsets t = acc @ ls \<Longrightarrow> sum_list ls = ini - pos0 \<Longrightarrow> 0 \<notin> set ls \<Longrightarrow>
     \<exists>pos' ls'. digits P fin ini pos t = Some (pos', \<lparr>prev_end = pos', tok_offsets = acc @ ls'\<rparr>) \<and>
       pos0 < pos' \<and> pos' \<le> fin \<and> sum_list ls' = pos' - pos0 \<and> 0 \<notin> set ls'"
proof (induction P fin ini pos t arbitrary: ls rule: digits.induct)
  case (1 P fin ini pos t)
  show ?case
  proof (cases "pos < fin \<and> P pos")
    case False
    then have "digits P fin ini pos t = token_to fin pos t" by (subst digits.simps) (simp only: if_False)
    also have "\<dots> = Some (pos, \<lparr>prev_end = pos, tok_offsets = acc @ ls @ (if ini < pos then [pos - ini] else [])\<rparr>)"
      using "1.prems" by (auto simp: token_to_def add_token_def Let_def)
    finally show ?thesis using "1.prems" False
      by (auto intro!: exI [of _ "ls @ (if ini < pos then [pos - ini] else [])"])
  next
    case True
    show ?thesis
    proof (cases "pos + 1 - ini \<ge> 3")
      case three: True
      let ?t = "\<lparr>prev_end = pos + 1, tok_offsets = acc @ ls @ [pos + 1 - ini]\<rparr>"
      have a: "add_token fin (pos + 1) t = Some (pos + 1 - ini, ?t)"
        using "1.prems" True three by (auto simp: add_token_def Let_def)
      have "digits P fin ini pos t = digits P fin (pos + 1) (pos + 1) ?t"
        using True three a by (subst digits.simps) simp
      moreover have "\<exists>pos' ls'. digits P fin (pos + 1) (pos + 1) ?t = Some (pos', \<lparr>prev_end = pos', tok_offsets = acc @ ls'\<rparr>) \<and>
         pos0 < pos' \<and> pos' \<le> fin \<and> sum_list ls' = pos' - pos0 \<and> 0 \<notin> set ls'"
        by (rule "1.IH"(1) [OF True three a refl, where ls = "ls @ [pos + 1 - ini]"]) (use "1.prems" True in auto)
      ultimately show ?thesis by simp
    next
      case less: False
      have "digits P fin ini pos t = digits P fin ini (pos + 1) t"
        using True less by (subst digits.simps) simp
      moreover have "\<exists>pos' ls'. digits P fin ini (pos + 1) t = Some (pos', \<lparr>prev_end = pos', tok_offsets = acc @ ls'\<rparr>) \<and>
         pos0 < pos' \<and> pos' \<le> fin \<and> sum_list ls' = pos' - pos0 \<and> 0 \<notin> set ls'"
        by (rule "1.IH"(2) [OF True less, where ls = ls]) (use "1.prems" True in auto)
      ultimately show ?thesis by simp
    qed
  qed
qed

lemma last_crlf_bounds:
  assumes "e = fold (\<lambda>k e. if C k then Suc (pos + k) else e) [0 ..< n] 0"
  shows "e = 0 \<or> (pos < e \<and> e \<le> pos + n)"
  unfolding assms by (induction n) auto

lemma whitespace_advances:
  assumes "e = 0 \<or> (pos < e \<and> e \<le> fin)" "pos \<le> ws" "ws \<le> fin" "pos < fin" "prev_end t = pos"
  shows "advances fin pos t (if e > 0 then token_to fin e t
      else if ws - pos > 1 \<and> b then token_to fin (pos + ((ws - pos) - 1)) t
      else if ws - pos > 0 then token_to fin (pos + (ws - pos)) t else token_to fin (pos + 1) t)"
  using assms token_to_advances [OF assms(5), of _ fin] by auto

lemma advances_if:
  "(c \<Longrightarrow> advances fin pos t x) \<Longrightarrow> (\<not> c \<Longrightarrow> advances fin pos t y) \<Longrightarrow> advances fin pos t (if c then x else y)"
  by simp

lemma llama3_advances:
  assumes "ini \<le> pos" "pos < fin" "prev_end t = pos"
  shows "advances fin pos t (llama3_step d cpts ini fin pos t)"
proof -
  let ?flags = "get_flags d cpts ini fin" and ?cpt = "get_cpt cpts ini fin"
  let ?sp = "if ?cpt pos = chr CHR '' '' then 1 else 0 :: nat"
  let ?flags2 = "if ?cpt pos = chr CHR '' '' then ?flags (pos + 1) else ?flags pos"
  let ?ws = "skip (\<lambda>p. is_whitespace (?flags p)) fin pos"
  let ?e = "fold (\<lambda>k e. if is_crlf (?cpt (pos + k)) then Suc (pos + k) else e) [0 ..< ?ws - pos] 0"
  let ?pos1 = "skip (\<lambda>p. is_other (?flags p)) fin (pos + ?sp)"
  let ?pos2 = "skip (\<lambda>p. is_crlf (?cpt p)) fin ?pos1"
  note run = token_to_advances [OF assms(3), of _ fin] and len = token_len_advances [OF assms(3), of _ fin]
  have ws: "pos \<le> ?ws" "?ws \<le> fin" using skip_bounds [of pos fin] assms by auto
  have e: "?e = 0 \<or> (pos < ?e \<and> ?e \<le> fin)"
    using last_crlf_bounds [OF refl [of ?e]] ws by linarith
  have letters: "advances fin pos t (token_to fin (skip (\<lambda>p. is_letter (?flags p)) fin (pos + 1)) t)"
    using skip_bounds [of "pos + 1" fin "\<lambda>p. is_letter (?flags p)"] assms run by auto
  have digs: "advances fin pos t (digits (\<lambda>p. is_number (?flags p)) fin pos pos t)" if "is_number (?flags pos)"
    using digits_advances [of pos pos fin "\<lambda>p. is_number (?flags p)" pos t "tok_offsets t" "[]"] that assms
    by (auto simp: advances_def)
  have other: "advances fin pos t (token_to fin ?pos2 t)"
    if "\<not> (is_whitespace ?flags2 \<or> is_letter ?flags2 \<or> is_number ?flags2)" "?flags pos \<noteq> 0"
  proof -
    have "pos + ?sp \<le> fin" using assms by auto
    then have b: "pos + ?sp \<le> ?pos1" "?pos1 \<le> fin" using skip_bounds by blast+
    have "pos < ?pos1"
    proof (cases "?cpt pos = chr CHR '' ''")
      case True
      then show ?thesis using b(1) by simp
    next
      case False
      then show ?thesis using skip_step [of pos fin "\<lambda>p. is_other (?flags p)"] that assms by (simp add: is_other_def)
    qed
    moreover have "?pos1 \<le> ?pos2" "?pos2 \<le> fin" using skip_bounds [OF b(2)] by auto
    ultimately show ?thesis by (intro run) auto
  qed
  have spaces: "advances fin pos t (if ?e > 0 then token_to fin ?e t
      else if ?ws - pos > 1 \<and> ?cpt (pos + (?ws - pos)) \<noteq> OUT_OF_RANGE then token_to fin (pos + ((?ws - pos) - 1)) t
      else if ?ws - pos > 0 then token_to fin (pos + (?ws - pos)) t else token_to fin (pos + 1) t)"
    by (rule whitespace_advances [OF e ws assms(2,3)])
  show ?thesis
  proof (cases "contraction (unicode_tolower d) ?cpt fin pos")
    case None
    show ?thesis
      unfolding llama3_step_def Let_def None option.case
    proof (rule advances_if [OF letters], rule advances_if [OF digs], assumption, rule advances_if [OF other])
      assume "\<not> (is_whitespace ?flags2 \<or> is_letter ?flags2 \<or> is_number ?flags2) \<and> ?flags pos \<noteq> 0"
      then show "\<not> (is_whitespace ?flags2 \<or> is_letter ?flags2 \<or> is_number ?flags2)" "?flags pos \<noteq> 0" by blast+
    qed (rule spaces)
  qed (use contraction_bounds len in \<open>auto simp: llama3_step_def Let_def\<close>)
qed

interpretation gpt2: range_splitter "gpt2_step d cpts" for d cpts
  by unfold_locales (rule gpt2_advances)

interpretation llama3: range_splitter "llama3_step d cpts" for d cpts
  by unfold_locales (rule llama3_advances)

lemma custom_splitters_lemma:
  assumes "sum_list offsets \<le> length (unicode_cpts_from_utf8 text)"
  shows "\<exists>ls. unicode_regex_split_custom_gpt2 d text offsets = Some ls \<and> refines ls offsets \<and> 0 \<notin> set ls"
    "\<exists>ls. unicode_regex_split_custom_llama3 d text offsets = Some ls \<and> refines ls offsets \<and> 0 \<notin> set ls"
  using gpt2.ranges_covered [of 0 offsets _ d _ "[]"] llama3.ranges_covered [of 0 offsets _ d _ "[]"] assms
  by (simp_all add: unicode_regex_split_custom_gpt2_def unicode_regex_split_custom_llama3_def Let_def)

text \<open>
  Both hand-written splitters cut every range they are given into pieces of positive length
  that add up to it, so the new pieces refine the old ones; no assertion fails and the loops end
  within one step per code point.  This holds for every text and all character tables.
\<close>

theorem custom_splitters_refine:
  assumes "sum_list offsets \<le> length (unicode_cpts_from_utf8 text)"
  shows "(\<exists>ls. unicode_regex_split_custom_gpt2 d text offsets = Some ls \<and> refines ls offsets \<and> 0 \<notin> set ls) \<and>
    (\<exists>ls. unicode_regex_split_custom_llama3 d text offsets = Some ls \<and> refines ls offsets \<and> 0 \<notin> set ls)"
  using custom_splitters_lemma [OF assms] by blast

definition no_data :: unicode_data where
  "no_data = \<lparr>unicode_ranges_flags = [], unicode_set_whitespace = [], unicode_map_lowercase = [],
     unicode_map_uppercase = [], unicode_ranges_nfd = []\<rparr>"

theorem custom_splitters_refine_witness:
  "(\<exists>ls. unicode_regex_split_custom_gpt2 no_data [0x61, 0x27, 0x73] [3] = Some ls \<and> refines ls [3] \<and> 0 \<notin> set ls) \<and>
    (\<exists>ls. unicode_regex_split_custom_llama3 no_data [0x61, 0x27, 0x73] [3] = Some ls \<and> refines ls [3] \<and> 0 \<notin> set ls)"
proof (rule custom_splitters_refine)
  have "unicode_cpts_to_utf8 [0x61, 0x27, 0x73] = Inr [0x61, 0x27, 0x73]" by (simp add: unicode_cpt_to_utf8_def)
  from cpts_round_trip [OF this] show "sum_list [3] \<le> length (unicode_cpts_from_utf8 [0x61, 0x27, 0x73])" by simp
qed

subsection \<open>Pieces from the regex library\<close>

text \<open>What \<open>std::regex_iterator\<close> promises: matches in order, apart, and inside the range.\<close>

fun ordered_matches :: "nat \<Rightarrow> nat \<Rightarrow> (nat \<times> nat) list \<Rightarrow> bool" where
  "ordered_matches n start [] \<longleftrightarrow> start \<le> n"
| "ordered_matches n start ((p, l) # ms) \<longleftrightarrow> start \<le> p \<and> p + l \<le> n \<and> ordered_matches n (p + l) ms"

definition regex_documented :: "regex_lib \<Rightarrow> bool" where
  "regex_documented rx \<longleftrightarrow>
     (\<forall>e s. ordered_matches (length s) 0 (rx_matches rx e s)) \<and>
     (\<forall>e s. ordered_matches (length s) 0 (wrx_matches rx e s))"

lemma stl_range_sum: "ordered_matches n start ms \<Longrightarrow> sum_list (stl_range n start ms) = n - start \<and> start \<le> n"
  by (induction n start ms rule: stl_range.induct) auto

lemma stl_refines:
  "start + sum_list offsets \<le> length text \<Longrightarrow> (\<And>s. ordered_matches (length s) 0 (matches s)) \<Longrightarrow>
     refines (unicode_regex_split_stl matches text start offsets) offsets"
proof (induction offsets arbitrary: start)
  case (Cons x xs)
  have "length (take x (drop start text)) = x" using Cons.prems(1) by simp
  then have "sum_list (stl_range x 0 (matches (take x (drop start text)))) = x"
    using stl_range_sum [of x 0] Cons.prems(2) [of "take x (drop start text)"] by simp
  then have "refines (stl_range x 0 (matches (take x (drop start text)))) [x]"
    unfolding refines_def by (intro exI [of _ "[_]"]) simp
  moreover have "refines (unicode_regex_split_stl matches text (start + x) xs) xs"
    using Cons.IH [of "start + x"] Cons.prems by (simp add: add.assoc)
  ultimately show ?case using refines_append [of _ "[x]" _ xs] by simp
qed (simp add: refines_def)

lemma split_by_regex_refines:
  assumes "regex_documented rx" "sum_list offsets = length (unicode_cpts_from_utf8 text)"
    and "split_by_regex d rx text e offsets = Inr os"
  shows "refines os offsets"
proof -
  obtain tmp where t: "unicode_regex_split_custom d text e offsets = Some tmp"
    using assms(3) by (auto simp: split_by_regex_def Let_def split: option.splits)
  show ?thesis
  proof (cases "tmp = []")
    case False
    then have "os = tmp" using assms(3) t by (simp add: split_by_regex_def Let_def)
    then show ?thesis using t False custom_splitters_lemma [of offsets "text" d] assms(2)
      by (auto simp: unicode_regex_split_custom_def split: if_splits)
  next
    case True
    have r: "refines (unicode_regex_split_stl (rx_matches rx ex) (collapse_text d (unicode_cpts_from_utf8 text)) 0 offsets) offsets"
      "refines (unicode_regex_split_stl (wrx_matches rx wex) (widen_text d (unicode_cpts_from_utf8 text)) 0 offsets) offsets"
      for ex wex using assms(1,2) by (intro stl_refines; auto simp: regex_documented_def collapse_text_def widen_text_def)+
    show ?thesis using assms(3) t True r
      by (auto simp: split_by_regex_def Let_def split: if_splits sum.splits)
  qed
qed

lemma split_offsets_refines:
  "regex_documented rx \<Longrightarrow> sum_list offsets = length (unicode_cpts_from_utf8 text) \<Longrightarrow>
     split_offsets d rx text es offsets = Inr os \<Longrightarrow> refines os offsets"
proof (induction es arbitrary: offsets)
  case (Cons e es)
  then obtain os' where o: "split_by_regex d rx text e offsets = Inr os'" "split_offsets d rx text es os' = Inr os"
    by (auto split: sum.splits)
  have "refines os' offsets" by (rule split_by_regex_refines [OF Cons.prems(1,2) o(1)])
  moreover have "refines os os'"
    using Cons.IH [OF Cons.prems(1) _ o(2)] refines_sum [OF calculation] Cons.prems(2) by simp
  ultimately show ?case using refines_trans by blast
qed (simp add: refines_refl)

subsection \<open>Words\<close>

lemma encode_bytes_total: "\<exists>s. encode_bytes bs = Inr s"
proof (induction bs)
  case (Cons b bs)
  obtain s where "unicode_byte_to_utf8 b = Inr s"
    using fwd_map [OF unat_u8_less [of b]] by (simp add: unicode_byte_to_utf8_def)
  then show ?case using Cons.IH by auto
qed simp

lemma encode_bytes_append:
  "encode_bytes a = Inr x \<Longrightarrow> encode_bytes b = Inr y \<Longrightarrow> encode_bytes (a @ b) = Inr (x @ y)"
  by (induction a arbitrary: x) (auto split: sum.splits)

lemma make_words_ok:
  "start + sum_list offsets \<le> length cpts \<Longrightarrow> \<forall>c \<in> set cpts. c \<le> 0x10ffff \<Longrightarrow>
     \<exists>ws. make_words cpts start offsets = Inr ws \<and> length ws = length offsets \<and>
       unicode_cpts_to_utf8 (take (sum_list offsets) (drop start cpts)) = Inr (concat ws) \<and>
       (\<forall>w \<in> set ws. \<exists>cs. unicode_cpts_to_utf8 cs = Inr w)"
proof (induction offsets arbitrary: start)
  case (Cons x xs)
  have e: "map (\<lambda>i. cpts ! i) [start ..< start + x] = take x (drop start cpts)"
    using Cons.prems(1) by (simp add: list_eq_iff_nth_eq)
  have "\<forall>c \<in> set (take x (drop start cpts)). c \<le> 0x10ffff"
    using Cons.prems(2) by (meson in_set_dropD in_set_takeD)
  then obtain w where w: "unicode_cpts_to_utf8 (take x (drop start cpts)) = Inr w" using cpts_to_utf8_ok by blast
  obtain ws where ws: "make_words cpts (start + x) xs = Inr ws" "length ws = length xs"
    "unicode_cpts_to_utf8 (take (sum_list xs) (drop (start + x) cpts)) = Inr (concat ws)"
    "\<forall>w \<in> set ws. \<exists>cs. unicode_cpts_to_utf8 cs = Inr w"
    using Cons.IH [of "start + x"] Cons.prems by (auto simp: add.assoc)
  have "take (x + sum_list xs) (drop start cpts) = take x (drop start cpts) @ take (sum_list xs) (drop (start + x) cpts)"
    by (simp add: take_add add.commute)
  then have "unicode_cpts_to_utf8 (take (sum_list (x # xs)) (drop start cpts)) = Inr (concat (w # ws))"
    using w ws(3) by (simp add: cpts_to_utf8_append)
  then show ?case using w ws e by auto
qed simp

lemma make_words_invalid:
  "start + sum_list offsets \<le> length cpts \<Longrightarrow> \<exists>c \<in> set (take (sum_list offsets) (drop start cpts)). 0x10ffff < c \<Longrightarrow>
     make_words cpts start offsets = Inl Invalid_codepoint"
proof (induction offsets arbitrary: start)
  case (Cons x xs)
  have e: "map (\<lambda>i. cpts ! i) [start ..< start + x] = take x (drop start cpts)"
    using Cons.prems(1) by (simp add: list_eq_iff_nth_eq)
  have err: "unicode_cpts_to_utf8 cs = Inl er \<Longrightarrow> er = Invalid_codepoint" for cs er
    by (induction cs arbitrary: er) (auto simp: cpt_to_utf8_ok split: sum.splits)
  have inv: "unicode_cpts_to_utf8 cs = Inl Invalid_codepoint" if "\<exists>c \<in> set cs. 0x10ffff < c" for cs
    using that cpts_to_utf8_ok [of cs] err [of cs] by (cases "unicode_cpts_to_utf8 cs") (auto simp: not_le)
  have "take (x + sum_list xs) (drop start cpts) = take x (drop start cpts) @ take (sum_list xs) (drop (start + x) cpts)"
    by (simp add: take_add add.commute)
  then consider "\<exists>c \<in> set (take x (drop start cpts)). 0x10ffff < c"
    | "\<exists>c \<in> set (take (sum_list xs) (drop (start + x) cpts)). 0x10ffff < c"
    using Cons.prems(2) by auto
  then show ?case
  proof cases
    case 1
    then show ?thesis using inv e by simp
  next
    case 2
    have m: "make_words cpts (start + x) xs = Inl Invalid_codepoint"
      using Cons.IH [of "start + x"] Cons.prems(1) 2 by (simp add: add.assoc)
    then show ?thesis using m e err by (cases "unicode_cpts_to_utf8 (take x (drop start cpts))") auto
  qed
qed simp

lemma encoding_process_ok:
  "\<forall>w \<in> set ws. \<exists>cs. unicode_cpts_to_utf8 cs = Inr w \<Longrightarrow>
     \<exists>es. unicode_byte_encoding_process ws = Inr es \<and> length es = length ws \<and> encode_bytes (concat ws) = Inr (concat es)"
proof (induction ws)
  case (Cons w ws)
  then obtain cs where cs: "unicode_cpts_to_utf8 cs = Inr w" by auto
  obtain es where es: "unicode_byte_encoding_process ws = Inr es" "length es = length ws"
    "encode_bytes (concat ws) = Inr (concat es)" using Cons by auto
  obtain s where s: "encode_bytes w = Inr s" using encode_bytes_total by blast
  have "unicode_cpts_to_utf8 (unicode_cpts_from_utf8 w) = Inr w" using cpts_round_trip [OF cs] cs by simp
  then show ?case using s es encode_bytes_append [OF s es(3)] by simp
qed simp

lemma split_words_concat:
  assumes "regex_documented rx" "\<forall>c \<in> set (unicode_cpts_from_utf8 inp). c \<le> 0x10ffff"
    and "split_offsets d rx inp regexes [length (unicode_cpts_from_utf8 inp)] = Inr offsets"
  shows "\<exists>ws utf8. unicode_regex_split d rx inp regexes = Inr ws \<and> length ws = length offsets \<and>
    unicode_cpts_to_utf8 (unicode_cpts_from_utf8 inp) = Inr utf8 \<and> encode_bytes utf8 = Inr (concat ws)"
proof -
  have "refines offsets [length (unicode_cpts_from_utf8 inp)]"
    by (rule split_offsets_refines [OF assms(1) _ assms(3)]) simp
  then have "sum_list offsets = length (unicode_cpts_from_utf8 inp)" using refines_sum by fastforce
  then obtain ws where ws: "make_words (unicode_cpts_from_utf8 inp) 0 offsets = Inr ws" "length ws = length offsets"
    "unicode_cpts_to_utf8 (unicode_cpts_from_utf8 inp) = Inr (concat ws)" "\<forall>w \<in> set ws. \<exists>cs. unicode_cpts_to_utf8 cs = Inr w"
    using make_words_ok [of 0 offsets "unicode_cpts_from_utf8 inp"] assms(2) by auto
  then show ?thesis using encoding_process_ok [OF ws(4)] assms(3)
    by (auto simp: unicode_regex_split_def Let_def)
qed

text \<open>
  C31: pre-tokenisation loses nothing: whatever regular expressions are applied, when the split
  succeeds on a text whose code points are valid, the words put together are the text, in the
  byte alphabet, and there is one word per piece.
\<close>

theorem regex_split_lossless:
  assumes "regex_documented rx" "\<forall>c \<in> set (unicode_cpts_from_utf8 inp). c \<le> 0x10ffff"
    and "split_offsets d rx inp regexes [length (unicode_cpts_from_utf8 inp)] = Inr offsets"
  shows "\<exists>ws utf8. unicode_regex_split d rx inp regexes = Inr ws \<and> length ws = length offsets \<and>
    unicode_cpts_to_utf8 (unicode_cpts_from_utf8 inp) = Inr utf8 \<and> encode_bytes utf8 = Inr (concat ws)"
  using assms by (rule split_words_concat)

definition no_regex :: regex_lib where
  "no_regex = \<lparr>rx_compiles = (\<lambda>_. False), rx_matches = (\<lambda>_ _. []), wrx_compiles = (\<lambda>_. False),
     wrx_matches = (\<lambda>_ _. []), from_bytes = (\<lambda>_. Inl Regex_error)\<rparr>"

lemma no_regex_documented: "regex_documented no_regex"
  by (simp add: regex_documented_def no_regex_def)

lemma gpt2_split_succeeds:
  assumes "unicode_cpts_from_utf8 inp \<noteq> []"
  shows "\<exists>os. split_offsets d rx inp [gpt2_regex] [length (unicode_cpts_from_utf8 inp)] = Inr os"
proof -
  obtain ls where ls: "unicode_regex_split_custom_gpt2 d inp [length (unicode_cpts_from_utf8 inp)] = Some ls"
    "refines ls [length (unicode_cpts_from_utf8 inp)]"
    using custom_splitters_lemma(1) [of "[length (unicode_cpts_from_utf8 inp)]" inp d] by auto
  have "sum_list ls = length (unicode_cpts_from_utf8 inp)" using refines_sum [OF ls(2)] by simp
  then have "ls \<noteq> []" using assms by auto
  then show ?thesis using ls(1) by (simp add: split_by_regex_def unicode_regex_split_custom_def Let_def)
qed

theorem regex_split_lossless_witness:
  "\<exists>offsets ws utf8. split_offsets no_data no_regex [0x68, 0x69, 0x20] [gpt2_regex] [3] = Inr offsets \<and>
    unicode_regex_split no_data no_regex [0x68, 0x69, 0x20] [gpt2_regex] = Inr ws \<and> length ws = length offsets \<and>
    unicode_cpts_to_utf8 [0x68, 0x69, 0x20] = Inr utf8 \<and> encode_bytes utf8 = Inr (concat ws)"
proof -
  have "unicode_cpts_to_utf8 [0x68, 0x69, 0x20] = Inr [0x68, 0x69, 0x20]" by (simp add: unicode_cpt_to_utf8_def)
  from cpts_round_trip [OF this] have c: "unicode_cpts_from_utf8 [0x68, 0x69, 0x20] = [0x68, 0x69, 0x20]" .
  obtain os where os: "split_offsets no_data no_regex [0x68, 0x69, 0x20] [gpt2_regex] [length (unicode_cpts_from_utf8 [0x68, 0x69, 0x20])] = Inr os"
    using gpt2_split_succeeds [of "[0x68, 0x69, 0x20]" no_data no_regex] c by auto
  have len: "length [0x68 :: u32, 0x69, 0x20] = 3" by simp
  have "\<forall>c \<in> set (unicode_cpts_from_utf8 [0x68, 0x69, 0x20]). c \<le> 0x10ffff" by (simp add: c)
  from regex_split_lossless [OF no_regex_documented this os] show ?thesis
    using os unfolding c len by blast
qed

text \<open>
  The decoder accepts four-byte sequences above \<open>0x10FFFF\<close>, the encoder does not: a text
  that holds one makes \<open>unicode_regex_split\<close> throw \<open>invalid_argument\<close>, for every list of regular
  expressions that splits it, although \<open>unicode_cpts_from_utf8\<close> replaces invalid input so that
  no exception gets out of the tokenizer.
\<close>

theorem regex_split_throws_above_10FFFF:
  assumes "regex_documented rx" "c \<in> set (unicode_cpts_from_utf8 inp)" "0x10ffff < c"
    and "split_offsets d rx inp regexes [length (unicode_cpts_from_utf8 inp)] = Inr offsets"
  shows "unicode_regex_split d rx inp regexes = Inl Invalid_codepoint"
proof -
  have "refines offsets [length (unicode_cpts_from_utf8 inp)]"
    by (rule split_offsets_refines [OF assms(1) _ assms(4)]) simp
  then have "sum_list offsets = length (unicode_cpts_from_utf8 inp)" using refines_sum by fastforce
  then have "make_words (unicode_cpts_from_utf8 inp) 0 offsets = Inl Invalid_codepoint"
    using make_words_invalid [of 0 offsets "unicode_cpts_from_utf8 inp"] assms(2,3) by auto
  then show ?thesis using assms(4) by (simp add: unicode_regex_split_def Let_def)
qed

lemma decode_F7: "unicode_cpts_from_utf8 [0xF7, 0xBF, 0xBF, 0xBF] = [0x1FFFFF]"
  by (simp add: unicode_cpts_from_utf8_def cpts_from.simps unicode_cpt_from_utf8_def is_cont_def low_def)

theorem regex_split_throws_above_10FFFF_witness:
  "unicode_regex_split no_data no_regex [0xF7, 0xBF, 0xBF, 0xBF] [gpt2_regex] = Inl Invalid_codepoint"
proof -
  obtain os where os: "split_offsets no_data no_regex [0xF7, 0xBF, 0xBF, 0xBF] [gpt2_regex]
      [length (unicode_cpts_from_utf8 [0xF7, 0xBF, 0xBF, 0xBF])] = Inr os"
    using gpt2_split_succeeds [of "[0xF7, 0xBF, 0xBF, 0xBF]" no_data no_regex] decode_F7 by auto
  show ?thesis
    by (rule regex_split_throws_above_10FFFF [OF no_regex_documented _ _ os, where c = "0x1FFFFF"]) (simp_all add: decode_F7)
qed

end
