(* ===== verification/Grammar.thy ===== *)
theory Grammar
  imports Prelude
begin

text \<open>
  Grammar-constrained sampling (\<open>llama-grammar.cpp\<close>): incremental UTF-8 decoding, matching of
  character classes, the pushdown stacks, acceptance of code points and the rejection of
  candidate tokens.  A pointer into a rule is the pair of the rule's number and an index; the
  recursion of \<open>llama_grammar_advance_stack\<close> has fuel (it does not end on a left-recursive
  grammar), \<open>None\<close> stands for exhausted fuel, an abort or a failed assertion.
\<close>

subsection \<open>Data\<close>

datatype llama_gretype = LLAMA_GRETYPE_END | LLAMA_GRETYPE_ALT | LLAMA_GRETYPE_RULE_REF
  | LLAMA_GRETYPE_CHAR | LLAMA_GRETYPE_CHAR_NOT | LLAMA_GRETYPE_CHAR_RNG_UPPER
  | LLAMA_GRETYPE_CHAR_ALT | LLAMA_GRETYPE_CHAR_ANY

record llama_grammar_element =
  gtype :: llama_gretype
  gvalue :: u32

record llama_partial_utf8 =
  pvalue :: u32
  n_remain :: int

type_synonym rule = "llama_grammar_element list"
type_synonym rules = "rule list"
type_synonym position = "nat \<times> nat"
type_synonym stack = "position list"

record candidate =
  c_index :: nat
  code_points :: "u32 list"
  c_offset :: nat
  c_partial :: llama_partial_utf8

record llama_grammar =
  g_rules :: rules
  stacks :: "stack list"
  partial_utf8 :: llama_partial_utf8
  lazy :: bool
  awaiting_trigger :: bool
  trigger_buffer :: bytes
  trigger_tokens :: "int list"
  trigger_patterns :: "bytes list"

text \<open>The vocabulary and the regular expressions are arguments of the model: \<open>regex_match\<close> gives
  the groups of a full match, group 0 first, as positions and lengths.\<close>

record grammar_env =
  token_to_piece :: "int \<Rightarrow> bytes"
  is_eog :: "int \<Rightarrow> bool"
  regex_match :: "bytes \<Rightarrow> bytes \<Rightarrow> (nat \<times> nat) list option"

record token_data =
  t_id :: int
  t_masked :: bool

subsection \<open>Decoding\<close>

fun cont_bytes :: "nat \<Rightarrow> u32 \<Rightarrow> bytes \<Rightarrow> u32 \<times> bytes" where
  "cont_bytes (Suc n) value (b # pos) =
     (if b = 0 then (value, b # pos) else cont_bytes n (push_bit 6 value + (ucast b AND 0x3F)) pos)"
| "cont_bytes _ value pos = (value, pos)"

definition utf8_len :: "u8 \<Rightarrow> nat" where
  "utf8_len first_byte = [1, 1, 1, 1, 1, 1, 1, 1, 1, 1, 1, 1, 2, 2, 3, 4] ! unat (drop_bit 4 first_byte)"

definition decode_utf8_at :: "bytes \<Rightarrow> u32 \<times> bytes" where
  "decode_utf8_at src = (case src of [] \<Rightarrow> (0, [])
     | first_byte # pos \<Rightarrow>
         (let len = utf8_len first_byte; mask = mask (8 - len) :: u8
          in cont_bytes (len - 1) (ucast (first_byte AND mask)) pos))"

text \<open>Continue a sequence that a previous piece left open; \<open>None\<close>: not a continuation byte.\<close>

fun resume :: "bytes \<Rightarrow> u32 \<Rightarrow> int \<Rightarrow> (u32 \<times> int \<times> bytes) option" where
  "resume [] value n = Some (value, n, [])"
| "resume (b # pos) value n =
     (if n > 0 then
        (if drop_bit 6 b \<noteq> 2 then None else resume pos (push_bit 6 value + (ucast b AND 0x3F)) (n - 1))
      else Some (value, n, b # pos))"

fun take_cont :: "bytes \<Rightarrow> u32 \<Rightarrow> int \<Rightarrow> u32 \<times> int \<times> bytes" where
  "take_cont [] value n = (value, n, [])"
| "take_cont (b # pos) value n =
     (if n > 0 then take_cont pos (push_bit 6 value + (ucast b AND 0x3F)) (n - 1) else (value, n, b # pos))"

lemma take_cont_length: "take_cont s v n = (v', n', s') \<Longrightarrow> length s' \<le> length s"
  by (induction s v n rule: take_cont.induct) (auto split: if_splits)

definition first_n_remain :: "u8 \<Rightarrow> int" where
  "first_n_remain first_byte = [1, 1, 1, 1, 1, 1, 1, 1, 0, 0, 0, 0, 2, 2, 3, 4] ! unat (drop_bit 4 first_byte) - 1"

function decode_loop :: "bytes \<Rightarrow> u32 list \<Rightarrow> u32 \<Rightarrow> int \<Rightarrow> u32 list \<times> llama_partial_utf8" where
  "decode_loop [] codes value n = (codes @ [0], \<lparr>pvalue = value, n_remain = n\<rparr>)"
| "decode_loop (first_byte # pos) codes value n =
     (let n1 = first_n_remain first_byte in
      if n1 < 0 then ([0], \<lparr>pvalue = 0, n_remain = n1\<rparr>)
      else let mask = mask (nat (7 - n1)) :: u8
           in case take_cont pos (ucast (first_byte AND mask)) n1 of (value', n', pos') \<Rightarrow>
                decode_loop pos' (if n' = 0 then codes @ [value'] else codes) value' n')"
  by pat_completeness auto
termination by (relation "measure (\<lambda>(s, _). length s)") (auto simp: le_imp_less_Suc dest!: sym [THEN take_cont_length])

definition decode_utf8 :: "bytes \<Rightarrow> llama_partial_utf8 \<Rightarrow> u32 list \<times> llama_partial_utf8" where
  "decode_utf8 src partial_start =
     (case resume (takeWhile (\<lambda>b. b \<noteq> 0) src) (pvalue partial_start) (n_remain partial_start) of
        None \<Rightarrow> ([0], \<lparr>pvalue = 0, n_remain = -1\<rparr>)
      | Some (value, n, pos) \<Rightarrow>
          decode_loop pos (if n_remain partial_start > 0 \<and> n = 0 then [value] else []) value n)"

subsection \<open>Character classes\<close>

definition elem_at :: "rules \<Rightarrow> position \<Rightarrow> llama_grammar_element" where
  "elem_at rules p = rules ! fst p ! snd p"

definition next_pos :: "nat \<Rightarrow> position \<Rightarrow> position" where
  "next_pos k p = (fst p, snd p + k)"

definition is_end_type :: "llama_gretype \<Rightarrow> bool" where
  "is_end_type ty \<longleftrightarrow> ty = LLAMA_GRETYPE_END \<or> ty = LLAMA_GRETYPE_ALT"

definition llama_grammar_is_end_of_sequence :: "rules \<Rightarrow> position \<Rightarrow> bool" where
  "llama_grammar_is_end_of_sequence rules p \<longleftrightarrow> is_end_type (gtype (elem_at rules p))"

definition is_positive :: "llama_gretype \<Rightarrow> bool" where
  "is_positive ty \<longleftrightarrow> ty = LLAMA_GRETYPE_CHAR \<or> ty = LLAMA_GRETYPE_CHAR_ANY"

text \<open>The \<open>do ... while\<close> loop of \<open>llama_grammar_match_char\<close> on the rest of the rule: what was
  found and how many elements were passed; \<open>None\<close> reads past the end of the rule.\<close>

fun match_loop :: "rule \<Rightarrow> u32 \<Rightarrow> bool \<Rightarrow> nat \<Rightarrow> (bool \<times> nat) option" where
  "match_loop (p0 # p1 # ps) chr found n =
     (if gtype p1 = LLAMA_GRETYPE_CHAR_RNG_UPPER then
        (let found' = found \<or> (gvalue p0 \<le> chr \<and> chr \<le> gvalue p1)
         in case ps of [] \<Rightarrow> None
            | p2 # _ \<Rightarrow> if gtype p2 = LLAMA_GRETYPE_CHAR_ALT then match_loop ps chr found' (n + 2) else Some (found', n + 2))
      else
        (let found' = (if gtype p0 = LLAMA_GRETYPE_CHAR_ANY then True else found \<or> gvalue p0 = chr)
         in if gtype p1 = LLAMA_GRETYPE_CHAR_ALT then match_loop (p1 # ps) chr found' (n + 1) else Some (found', n + 1)))"
| "match_loop _ chr found n = None"

definition llama_grammar_match_char :: "rules \<Rightarrow> position \<Rightarrow> u32 \<Rightarrow> (bool \<times> position) option" where
  "llama_grammar_match_char rules p chr =
     (let ty = gtype (elem_at rules p); is_positive_char = is_positive ty
      in if \<not> (is_positive_char \<or> ty = LLAMA_GRETYPE_CHAR_NOT) then None
         else case match_loop (drop (snd p) (rules ! fst p)) chr False 0 of None \<Rightarrow> None
              | Some (found, n) \<Rightarrow> Some (found = is_positive_char, next_pos n p))"

fun partial_loop :: "rule \<Rightarrow> u32 \<Rightarrow> u32 \<Rightarrow> bool \<Rightarrow> bool option" where
  "partial_loop (p0 # p1 # ps) low high is_positive_char =
     (if gtype p1 = LLAMA_GRETYPE_CHAR_RNG_UPPER then
        (if gvalue p0 \<le> high \<and> low \<le> gvalue p1 then Some is_positive_char
         else case ps of [] \<Rightarrow> None
              | p2 # _ \<Rightarrow> if gtype p2 = LLAMA_GRETYPE_CHAR_ALT then partial_loop ps low high is_positive_char
                         else Some (\<not> is_positive_char))
      else if gtype p0 = LLAMA_GRETYPE_CHAR_ANY then Some True
      else if low \<le> gvalue p0 \<and> gvalue p0 \<le> high then Some is_positive_char
      else if gtype p1 = LLAMA_GRETYPE_CHAR_ALT then partial_loop (p1 # ps) low high is_positive_char
      else Some (\<not> is_positive_char))"
| "partial_loop _ low high is_positive_char = None"

definition partial_low :: "llama_partial_utf8 \<Rightarrow> u32" where
  "partial_low p = push_bit (nat (n_remain p * 6)) (pvalue p)"

definition partial_high :: "llama_partial_utf8 \<Rightarrow> u32" where
  "partial_high p = partial_low p OR (push_bit (nat (n_remain p * 6)) 1 - 1)"

definition llama_grammar_match_partial_char :: "rules \<Rightarrow> position \<Rightarrow> llama_partial_utf8 \<Rightarrow> bool option" where
  "llama_grammar_match_partial_char rules pos p =
     (let ty = gtype (elem_at rules pos); is_positive_char = is_positive ty
      in if \<not> (is_positive_char \<or> ty = LLAMA_GRETYPE_CHAR_NOT) then None
         else if n_remain p < 0 \<or> (n_remain p = 1 \<and> pvalue p < 2) then Some False
         else let low = partial_low p; high = partial_high p;
                  low' = (if low = 0 then (if n_remain p = 2 then push_bit 11 1
                                           else if n_remain p = 3 then push_bit 16 1 else low) else low)
              in partial_loop (drop (snd pos) (rules ! fst pos)) low' high is_positive_char)"

subsection \<open>Stacks\<close>

definition add_stack :: "stack \<Rightarrow> stack list \<Rightarrow> stack list" where
  "add_stack st new_stacks = (if st \<in> set new_stacks then new_stacks else new_stacks @ [st])"

text \<open>The starts of the alternates of a rule, in the order the scanning loop meets them.\<close>

fun later_alternates :: "rule \<Rightarrow> nat \<Rightarrow> nat list" where
  "later_alternates [] i = []"
| "later_alternates (e # es) i =
     (if gtype e = LLAMA_GRETYPE_ALT then (i + 1) # later_alternates es (i + 1)
      else if gtype e = LLAMA_GRETYPE_END then [] else later_alternates es (i + 1))"

definition alternates :: "rules \<Rightarrow> nat \<Rightarrow> position list" where
  "alternates rules r = map (Pair r) (0 # later_alternates (rules ! r) 0)"

definition push_unless_end :: "rules \<Rightarrow> position \<Rightarrow> stack \<Rightarrow> stack" where
  "push_unless_end rules p st = (if llama_grammar_is_end_of_sequence rules p then st else st @ [p])"

fun llama_grammar_advance_stack :: "nat \<Rightarrow> rules \<Rightarrow> stack \<Rightarrow> stack list \<Rightarrow> stack list option" where
  "llama_grammar_advance_stack 0 rules st new_stacks = None"
| "llama_grammar_advance_stack (Suc fuel) rules st new_stacks =
     (if st = [] then Some (add_stack st new_stacks)
      else let pos = last st; e = elem_at rules pos in
        case gtype e of
          LLAMA_GRETYPE_RULE_REF \<Rightarrow>
            fold_opt (\<lambda>subpos acc. llama_grammar_advance_stack fuel rules
                (push_unless_end rules subpos (push_unless_end rules (next_pos 1 pos) (butlast st))) acc)
              (alternates rules (unat (gvalue e))) new_stacks
        | LLAMA_GRETYPE_CHAR \<Rightarrow> Some (add_stack st new_stacks)
        | LLAMA_GRETYPE_CHAR_NOT \<Rightarrow> Some (add_stack st new_stacks)
        | LLAMA_GRETYPE_CHAR_ANY \<Rightarrow> Some (add_stack st new_stacks)
        | _ \<Rightarrow> None)"

definition accept_one :: "nat \<Rightarrow> rules \<Rightarrow> u32 \<Rightarrow> stack \<Rightarrow> stack list \<Rightarrow> stack list option" where
  "accept_one fuel rules chr st stacks_new =
     (if st = [] then Some stacks_new
      else case llama_grammar_match_char rules (last st) chr of None \<Rightarrow> None
        | Some (matched, pos) \<Rightarrow>
            if matched then llama_grammar_advance_stack fuel rules (push_unless_end rules pos (butlast st)) stacks_new
            else Some stacks_new)"

definition accept_stacks :: "nat \<Rightarrow> rules \<Rightarrow> u32 \<Rightarrow> stack list \<Rightarrow> stack list option" where
  "accept_stacks fuel rules chr sts = fold_opt (accept_one fuel rules chr) sts []"

definition llama_grammar_accept :: "nat \<Rightarrow> u32 \<Rightarrow> llama_grammar \<Rightarrow> llama_grammar option" where
  "llama_grammar_accept fuel chr g = (case accept_stacks fuel (g_rules g) chr (stacks g) of None \<Rightarrow> None
     | Some stacks_new \<Rightarrow> Some (g\<lparr>stacks := stacks_new\<rparr>))"

subsection \<open>Candidates\<close>

definition cp :: "candidate \<Rightarrow> u32" where
  "cp tok = code_points tok ! c_offset tok"

fun llama_grammar_reject_candidates :: "nat \<Rightarrow> nat \<Rightarrow> rules \<Rightarrow> stack list \<Rightarrow> candidate list \<Rightarrow> candidate list option"
and llama_grammar_reject_candidates_for_stack :: "nat \<Rightarrow> nat \<Rightarrow> rules \<Rightarrow> stack \<Rightarrow> candidate list \<Rightarrow> candidate list option" where
  "llama_grammar_reject_candidates 0 fuel rules sts candidates = None"
| "llama_grammar_reject_candidates (Suc k) fuel rules sts candidates =
     (if sts = [] then None
      else if candidates = [] then Some []
      else fold_opt (llama_grammar_reject_candidates_for_stack k fuel rules) sts candidates)"
| "llama_grammar_reject_candidates_for_stack 0 fuel rules st candidates = None"
| "llama_grammar_reject_candidates_for_stack (Suc k) fuel rules st candidates =
     (if st = [] then Some (filter (\<lambda>tok. cp tok \<noteq> 0 \<or> n_remain (c_partial tok) \<noteq> 0) candidates)
      else let stack_pos = last st in
        case fold_opt (\<lambda>tok (rejects, next_candidates).
            if cp tok = 0 then
              (if n_remain (c_partial tok) \<noteq> 0 then
                 (case llama_grammar_match_partial_char rules stack_pos (c_partial tok) of None \<Rightarrow> None
                  | Some m \<Rightarrow> Some (if \<not> m then rejects @ [tok] else rejects, next_candidates))
               else Some (rejects, next_candidates))
            else (case llama_grammar_match_char rules stack_pos (cp tok) of None \<Rightarrow> None
                  | Some (m, _) \<Rightarrow> Some (if m then (rejects, next_candidates @ [tok\<lparr>c_offset := c_offset tok + 1\<rparr>])
                                       else (rejects @ [tok], next_candidates))))
          candidates ([], []) of None \<Rightarrow> None
        | Some (rejects, next_candidates) \<Rightarrow>
          (case llama_grammar_match_char rules stack_pos 0 of None \<Rightarrow> None
           | Some (_, stack_pos_after) \<Rightarrow>
             (case llama_grammar_advance_stack fuel rules (push_unless_end rules stack_pos_after (butlast st)) [] of None \<Rightarrow> None
              | Some next_stacks \<Rightarrow>
                (case llama_grammar_reject_candidates k fuel rules next_stacks next_candidates of None \<Rightarrow> None
                 | Some next_rejects \<Rightarrow> Some (rejects @ map (\<lambda>tok. tok\<lparr>c_offset := c_offset tok - 1\<rparr>) next_rejects)))))"

subsection \<open>Left recursion and initialisation\<close>

record recursion_check =
  rules_visited :: "bool list"
  rules_in_progress :: "bool list"
  rules_may_be_empty :: "bool list"

fun has_empty_alternate :: "rule \<Rightarrow> bool \<Rightarrow> bool" where
  "has_empty_alternate [] at_rule_start = False"
| "has_empty_alternate (e # es) at_rule_start =
     (if is_end_type (gtype e) then (if at_rule_start then True else has_empty_alternate es True)
      else has_empty_alternate es False)"

fun llama_grammar_detect_left_recursion :: "nat \<Rightarrow> rules \<Rightarrow> nat \<Rightarrow> recursion_check \<Rightarrow> (bool \<times> recursion_check) option" where
  "llama_grammar_detect_left_recursion 0 rules r s = None"
| "llama_grammar_detect_left_recursion (Suc fuel) rules r s =
     (if rules_in_progress s ! r then Some (True, s)
      else let s1 = s\<lparr>rules_in_progress := (rules_in_progress s)[r := True]\<rparr>;
               s2 = (if has_empty_alternate (rules ! r) True
                     then s1\<lparr>rules_may_be_empty := (rules_may_be_empty s1)[r := True]\<rparr> else s1)
           in case fold_opt (\<lambda>e (found, recurse_into_nonterminal, s).
                 if found then Some (found, recurse_into_nonterminal, s)
                 else if gtype e = LLAMA_GRETYPE_RULE_REF \<and> recurse_into_nonterminal then
                   (case llama_grammar_detect_left_recursion fuel rules (unat (gvalue e)) s of None \<Rightarrow> None
                    | Some (True, s') \<Rightarrow> Some (True, recurse_into_nonterminal, s')
                    | Some (False, s') \<Rightarrow>
                        Some (False, if \<not> rules_may_be_empty s' ! unat (gvalue e) then False else recurse_into_nonterminal, s'))
                 else Some (False, is_end_type (gtype e), s))
               (rules ! r) (False, True, s2) of None \<Rightarrow> None
             | Some (True, _, s3) \<Rightarrow> Some (True, s3)
             | Some (False, _, s3) \<Rightarrow>
                 Some (False, s3\<lparr>rules_in_progress := (rules_in_progress s3)[r := False],
                               rules_visited := (rules_visited s3)[r := True]\<rparr>))"

definition copy_rule :: "rule \<Rightarrow> rule" where
  "copy_rule r = takeWhile (\<lambda>e. gtype e \<noteq> LLAMA_GRETYPE_END) r @ [\<lparr>gtype = LLAMA_GRETYPE_END, gvalue = 0\<rparr>]"

definition any_left_recursion :: "nat \<Rightarrow> rules \<Rightarrow> bool option" where
  "any_left_recursion fuel rules =
     (case fold_opt (\<lambda>i (found, s).
          if found \<or> rules_visited s ! i then Some (found, s)
          else llama_grammar_detect_left_recursion fuel rules i s)
        [0 ..< length rules]
        (False, \<lparr>rules_visited = replicate (length rules) False, rules_in_progress = replicate (length rules) False,
                 rules_may_be_empty = replicate (length rules) False\<rparr>) of
        None \<Rightarrow> None | Some (found, _) \<Rightarrow> Some found)"

definition initial_stacks :: "nat \<Rightarrow> rules \<Rightarrow> nat \<Rightarrow> stack list option" where
  "initial_stacks fuel rules start =
     fold_opt (\<lambda>pos. llama_grammar_advance_stack fuel rules (push_unless_end rules pos [])) (alternates rules start) []"

text \<open>\<open>Some None\<close> is the null pointer that reports left recursion.\<close>

definition llama_grammar_init_impl :: "nat \<Rightarrow> rules \<Rightarrow> nat \<Rightarrow> llama_grammar option option" where
  "llama_grammar_init_impl fuel c_rules start_rule_index =
     (let vec_rules = map copy_rule c_rules in
      case any_left_recursion (length vec_rules + 1) vec_rules of None \<Rightarrow> None
      | Some True \<Rightarrow> Some None
      | Some False \<Rightarrow>
          (case initial_stacks fuel vec_rules start_rule_index of None \<Rightarrow> None
           | Some sts \<Rightarrow> Some (Some \<lparr>g_rules = vec_rules, stacks = sts, partial_utf8 = \<lparr>pvalue = 0, n_remain = 0\<rparr>,
               lazy = False, awaiting_trigger = False, trigger_buffer = [], trigger_tokens = [], trigger_patterns = []\<rparr>)))"

subsection \<open>Sampling interface\<close>

definition token_candidate :: "llama_partial_utf8 \<Rightarrow> bytes \<Rightarrow> nat \<Rightarrow> candidate" where
  "token_candidate p piece i = (case decode_utf8 piece p of (cps, p') \<Rightarrow>
     \<lparr>c_index = i, code_points = cps, c_offset = 0, c_partial = p'\<rparr>)"

definition apply_token :: "grammar_env \<Rightarrow> llama_grammar \<Rightarrow> bool \<Rightarrow> nat \<times> token_data \<Rightarrow>
    token_data list \<times> candidate list \<Rightarrow> token_data list \<times> candidate list" where
  "apply_token env g allow_eog = (\<lambda>(i, tok) (cur_p, candidates_grammar).
     let piece = token_to_piece env (t_id tok) in
     if is_eog env (t_id tok) then (if \<not> allow_eog then cur_p[i := tok\<lparr>t_masked := True\<rparr>] else cur_p, candidates_grammar)
     else if piece = [] \<or> piece ! 0 = 0 then (cur_p[i := tok\<lparr>t_masked := True\<rparr>], candidates_grammar)
     else (cur_p, candidates_grammar @ [token_candidate (partial_utf8 g) piece i]))"

definition mask_token :: "nat \<Rightarrow> token_data list \<Rightarrow> token_data list" where
  "mask_token i cur_p = cur_p[i := (cur_p ! i)\<lparr>t_masked := True\<rparr>]"

definition llama_grammar_apply_impl :: "nat \<Rightarrow> nat \<Rightarrow> grammar_env \<Rightarrow> llama_grammar \<Rightarrow> token_data list \<Rightarrow> token_data list option" where
  "llama_grammar_apply_impl k fuel env g cur_p =
     (if awaiting_trigger g then Some cur_p
      else let allow_eog = list_ex (\<lambda>st. st = []) (stacks g) in
        case fold (apply_token env g allow_eog) (enumerate 0 cur_p) (cur_p, []) of (cur_p', candidates_grammar) \<Rightarrow>
          (case llama_grammar_reject_candidates k fuel (g_rules g) (stacks g) candidates_grammar of None \<Rightarrow> None
           | Some rejects \<Rightarrow> Some (fold (\<lambda>reject. mask_token (c_index reject)) rejects cur_p')))"

text \<open>The first component tells whether \<open>llama_grammar_accept_str\<close> threw.\<close>

definition llama_grammar_accept_str :: "nat \<Rightarrow> bytes \<Rightarrow> llama_grammar \<Rightarrow> (bool \<times> llama_grammar) option" where
  "llama_grammar_accept_str fuel piece g =
     (case decode_utf8 piece (partial_utf8 g) of (cps, p) \<Rightarrow>
        (case fold_opt (llama_grammar_accept fuel) (butlast cps) g of None \<Rightarrow> None
         | Some g' \<Rightarrow> Some (stacks g' = [], g'\<lparr>partial_utf8 := p\<rparr>)))"

definition group_start :: "(nat \<times> nat) list \<Rightarrow> nat" where
  "group_start groups = (case filter (\<lambda>(p, l). l > 0) (tl groups) of (p, l) # _ \<Rightarrow> p | [] \<Rightarrow> fst (hd groups))"

fun first_match :: "(bytes \<Rightarrow> bytes \<Rightarrow> (nat \<times> nat) list option) \<Rightarrow> bytes list \<Rightarrow> bytes \<Rightarrow> (nat \<times> nat) list option" where
  "first_match rx [] buf = None"
| "first_match rx (pattern # patterns) buf = (case rx pattern buf of Some groups \<Rightarrow> Some groups | None \<Rightarrow> first_match rx patterns buf)"

definition llama_grammar_accept_impl :: "nat \<Rightarrow> grammar_env \<Rightarrow> int \<Rightarrow> llama_grammar \<Rightarrow> (bool \<times> llama_grammar) option" where
  "llama_grammar_accept_impl fuel env token g =
     (let piece = token_to_piece env token in
      if awaiting_trigger g then
        (if token \<in> set (trigger_tokens g) then
           llama_grammar_accept_str fuel piece (g\<lparr>awaiting_trigger := False, trigger_buffer := []\<rparr>)
         else let g1 = g\<lparr>trigger_buffer := trigger_buffer g @ piece\<rparr> in
           case first_match (regex_match env) (trigger_patterns g1) (trigger_buffer g1) of
             Some groups \<Rightarrow> llama_grammar_accept_str fuel (drop (group_start groups) (trigger_buffer g1))
               (g1\<lparr>awaiting_trigger := False, trigger_buffer := []\<rparr>)
           | None \<Rightarrow> Some (False, g1))
      else if is_eog env token then (if list_ex (\<lambda>st. st = []) (stacks g) then Some (False, g) else None)
      else llama_grammar_accept_str fuel piece g)"

end
