(* ===== verification/Grammar_Lang.thy ===== *)
theory Grammar_Lang
  imports Grammar
begin

text \<open>
  What the grammar engine computes: the language of a stack of positions, the effect of
  \<open>llama_grammar_advance_stack\<close> and \<open>llama_grammar_accept\<close> on it, termination on grammars
  without left recursion, and the candidates that are rejected.
\<close>

subsection \<open>Languages\<close>

inductive gen :: "rules \<Rightarrow> stack \<Rightarrow> u32 list \<Rightarrow> bool" for rules where
  gen_empty: "gen rules [] []"
| gen_char: "llama_grammar_match_char rules p c = Some (True, q) \<Longrightarrow> gen rules (push_unless_end rules q st) w \<Longrightarrow>
    gen rules (st @ [p]) (c # w)"
| gen_ref: "gtype (elem_at rules p) = LLAMA_GRETYPE_RULE_REF \<Longrightarrow>
    q \<in> set (alternates rules (unat (gvalue (elem_at rules p)))) \<Longrightarrow>
    gen rules (push_unless_end rules q (push_unless_end rules (next_pos 1 p) st)) w \<Longrightarrow> gen rules (st @ [p]) w"

inductive_cases gen_NilE: "gen rules [] w"

definition gen_any :: "rules \<Rightarrow> stack list \<Rightarrow> u32 list \<Rightarrow> bool" where
  "gen_any rules sts w \<longleftrightarrow> (\<exists>st \<in> set sts. gen rules st w)"

definition gen_rule :: "rules \<Rightarrow> nat \<Rightarrow> u32 list \<Rightarrow> bool" where
  "gen_rule rules r w \<longleftrightarrow> (\<exists>q \<in> set (alternates rules r). gen rules (push_unless_end rules q []) w)"

definition char_type :: "llama_gretype \<Rightarrow> bool" where
  "char_type ty \<longleftrightarrow> ty = LLAMA_GRETYPE_CHAR \<or> ty = LLAMA_GRETYPE_CHAR_NOT \<or> ty = LLAMA_GRETYPE_CHAR_ANY"

lemma gen_Nil: "gen rules [] w \<longleftrightarrow> w = []"
  by (auto elim: gen_NilE intro: gen_empty)

lemma match_char_type: "llama_grammar_match_char rules p c = Some r \<Longrightarrow> char_type (gtype (elem_at rules p))"
  by (auto simp: llama_grammar_match_char_def Let_def char_type_def is_positive_def split: if_splits)

lemma gen_snoc_ref:
  assumes "gtype (elem_at rules p) = LLAMA_GRETYPE_RULE_REF"
  shows "gen rules (st @ [p]) w \<longleftrightarrow> (\<exists>q \<in> set (alternates rules (unat (gvalue (elem_at rules p)))).
    gen rules (push_unless_end rules q (push_unless_end rules (next_pos 1 p) st)) w)"
proof
  assume "gen rules (st @ [p]) w"
  then show "\<exists>q \<in> set (alternates rules (unat (gvalue (elem_at rules p)))).
    gen rules (push_unless_end rules q (push_unless_end rules (next_pos 1 p) st)) w"
  proof (cases rule: gen.cases)
    case (gen_char p' c q st' w')
    then show ?thesis using match_char_type [of rules p c] assms by (auto simp: char_type_def)
  qed auto
qed (use assms gen_ref in blast)

lemma gen_snoc_char:
  assumes "char_type (gtype (elem_at rules p))"
  shows "gen rules (st @ [p]) w \<longleftrightarrow>
    (\<exists>c w' q. w = c # w' \<and> llama_grammar_match_char rules p c = Some (True, q) \<and> gen rules (push_unless_end rules q st) w')"
proof
  assume "gen rules (st @ [p]) w"
  then show "\<exists>c w' q. w = c # w' \<and> llama_grammar_match_char rules p c = Some (True, q) \<and> gen rules (push_unless_end rules q st) w'"
    by (cases rule: gen.cases) (use assms in \<open>auto simp: char_type_def\<close>)
qed (auto intro: gen_char)

subsection \<open>Advancing keeps the language\<close>

lemma gen_any_add: "gen_any rules (add_stack st sts) w \<longleftrightarrow> gen_any rules sts w \<or> gen rules st w"
  by (auto simp: gen_any_def add_stack_def)

lemma fold_opt_collect:
  assumes "\<And>x t t'. f x t = Some t' \<Longrightarrow> x \<in> set xs \<Longrightarrow> P t' \<longleftrightarrow> P t \<or> R x"
  shows "fold_opt f xs t = Some t' \<Longrightarrow> P t' \<longleftrightarrow> P t \<or> (\<exists>x \<in> set xs. R x)"
  using assms
proof (induction xs arbitrary: t)
  case (Cons x xs)
  then obtain t1 where t1: "f x t = Some t1" "fold_opt f xs t1 = Some t'" by (auto split: option.splits)
  have "P t' \<longleftrightarrow> P t1 \<or> (\<exists>x \<in> set xs. R x)" by (rule Cons.IH [OF t1(2)]) (use Cons.prems(2) in auto)
  then show ?case using Cons.prems(2) [OF t1(1)] by auto
qed simp

lemma advance_lang:
  "llama_grammar_advance_stack k rules st acc = Some new \<Longrightarrow>
     gen_any rules new w \<longleftrightarrow> gen_any rules acc w \<or> gen rules st w"
proof (induction k arbitrary: st acc new)
  case (Suc k)
  show ?case
  proof (cases "st = []")
    case True
    then show ?thesis using Suc.prems by (auto simp: gen_any_add)
  next
    case False
    then obtain base p where st: "st = base @ [p]" by (metis append_butlast_last_id)
    consider (ref) "gtype (elem_at rules p) = LLAMA_GRETYPE_RULE_REF" | (chr) "char_type (gtype (elem_at rules p))"
      using Suc.prems st by (auto simp: char_type_def Let_def split: llama_gretype.splits)
    then show ?thesis
    proof cases
      case ref
      let ?f = "\<lambda>q acc. llama_grammar_advance_stack k rules
        (push_unless_end rules q (push_unless_end rules (next_pos 1 p) base)) acc"
      have f: "fold_opt ?f (alternates rules (unat (gvalue (elem_at rules p)))) acc = Some new"
        using Suc.prems st ref by (simp add: Let_def)
      have "gen_any rules new w \<longleftrightarrow> gen_any rules acc w \<or>
         (\<exists>q \<in> set (alternates rules (unat (gvalue (elem_at rules p)))).
            gen rules (push_unless_end rules q (push_unless_end rules (next_pos 1 p) base)) w)"
        by (rule fold_opt_collect [OF _ f]) (rule Suc.IH)
      then show ?thesis unfolding st gen_snoc_ref [OF ref] .
    next
      case chr
      then have "new = add_stack st acc" using Suc.prems st by (auto simp: char_type_def Let_def)
      then show ?thesis by (simp add: gen_any_add)
    qed
  qed
qed simp

lemma initial_lang:
  assumes "initial_stacks k rules r = Some sts"
  shows "gen_any rules sts w \<longleftrightarrow> gen_rule rules r w"
proof -
  have "gen_any rules sts w \<longleftrightarrow> gen_any rules [] w \<or> (\<exists>q \<in> set (alternates rules r). gen rules (push_unless_end rules q []) w)"
    by (rule fold_opt_collect [OF _ assms [unfolded initial_stacks_def]]) (rule advance_lang)
  then show ?thesis by (simp add: gen_any_def gen_rule_def)
qed

lemma accept_one_lang:
  assumes "accept_one k rules c st acc = Some new"
  shows "gen_any rules new w \<longleftrightarrow> gen_any rules acc w \<or> gen rules st (c # w)"
proof (cases "st = []")
  case True
  then show ?thesis using assms by (auto simp: accept_one_def gen_Nil)
next
  case False
  then obtain base p where st: "st = base @ [p]" by (metis append_butlast_last_id)
  then obtain m q where m: "llama_grammar_match_char rules p c = Some (m, q)"
    using assms by (auto simp: accept_one_def split: option.splits)
  note g = gen_snoc_char [OF match_char_type [OF m], of base "c # w"]
  show ?thesis
  proof (cases m)
    case True
    then have "llama_grammar_advance_stack k rules (push_unless_end rules q base) acc = Some new"
      using assms st m by (simp add: accept_one_def)
    from advance_lang [OF this] show ?thesis using g m True st by (auto simp del: split_paired_Ex)
  next
    case False
    then show ?thesis using assms st m g by (auto simp: accept_one_def simp del: split_paired_Ex)
  qed
qed

lemma accept_lang:
  assumes "accept_stacks k rules c sts = Some new"
  shows "gen_any rules new w \<longleftrightarrow> gen_any rules sts (c # w)"
proof -
  have "gen_any rules new w \<longleftrightarrow> gen_any rules [] w \<or> (\<exists>st \<in> set sts. gen rules st (c # w))"
    by (rule fold_opt_collect [OF _ assms [unfolded accept_stacks_def]]) (rule accept_one_lang)
  then show ?thesis by (simp add: gen_any_def)
qed

lemma accept_list_lang:
  "fold_opt (accept_stacks k rules) cps sts = Some new \<Longrightarrow> gen_any rules new w \<longleftrightarrow> gen_any rules sts (cps @ w)"
proof (induction cps arbitrary: sts)
  case (Cons c cps)
  then obtain t where "accept_stacks k rules c sts = Some t" "fold_opt (accept_stacks k rules) cps t = Some new"
    by (auto split: option.splits)
  then show ?case using Cons.IH accept_lang by fastforce
qed simp

subsection \<open>Well-formed grammars\<close>

definition follows_ok :: "llama_gretype \<Rightarrow> llama_gretype \<Rightarrow> bool" where
  "follows_ok a b \<longleftrightarrow>
     (b = LLAMA_GRETYPE_CHAR_ALT \<longrightarrow> a \<in> {LLAMA_GRETYPE_CHAR, LLAMA_GRETYPE_CHAR_NOT, LLAMA_GRETYPE_CHAR_ALT, LLAMA_GRETYPE_CHAR_RNG_UPPER}) \<and>
     (b = LLAMA_GRETYPE_CHAR_RNG_UPPER \<longrightarrow> a \<in> {LLAMA_GRETYPE_CHAR, LLAMA_GRETYPE_CHAR_NOT, LLAMA_GRETYPE_CHAR_ALT})"

definition start_type :: "llama_gretype \<Rightarrow> bool" where
  "start_type ty \<longleftrightarrow> ty \<noteq> LLAMA_GRETYPE_CHAR_ALT \<and> ty \<noteq> LLAMA_GRETYPE_CHAR_RNG_UPPER"

definition wf_rule :: "nat \<Rightarrow> rule \<Rightarrow> bool" where
  "wf_rule n r \<longleftrightarrow> r \<noteq> [] \<and> start_type (gtype (r ! 0)) \<and>
     (\<forall>i < length r. gtype (r ! i) = LLAMA_GRETYPE_END \<longleftrightarrow> Suc i = length r) \<and>
     (\<forall>i. Suc i < length r \<longrightarrow> follows_ok (gtype (r ! i)) (gtype (r ! Suc i))) \<and>
     (\<forall>e \<in> set r. gtype e = LLAMA_GRETYPE_RULE_REF \<longrightarrow> unat (gvalue e) < n)"

definition wf_rules :: "rules \<Rightarrow> bool" where
  "wf_rules rules \<longleftrightarrow> (\<forall>r \<in> set rules. wf_rule (length rules) r)"

definition pos_ok :: "rules \<Rightarrow> position \<Rightarrow> bool" where
  "pos_ok rules p \<longleftrightarrow> fst p < length rules \<and> snd p < length (rules ! fst p) \<and> start_type (gtype (elem_at rules p))"

definition stack_ok :: "rules \<Rightarrow> stack \<Rightarrow> bool" where
  "stack_ok rules st \<longleftrightarrow> (\<forall>p \<in> set st. pos_ok rules p \<and> \<not> llama_grammar_is_end_of_sequence rules p)"

lemma push_ok: "stack_ok rules st \<Longrightarrow> pos_ok rules p \<Longrightarrow> stack_ok rules (push_unless_end rules p st)"
  by (auto simp: stack_ok_def push_unless_end_def)

lemma next_ok:
  assumes wf: "wf_rules rules" and p: "pos_ok rules p" and ref: "gtype (elem_at rules p) = LLAMA_GRETYPE_RULE_REF"
  shows "pos_ok rules (next_pos 1 p)"
proof -
  have r: "wf_rule (length rules) (rules ! fst p)" using wf p by (auto simp: wf_rules_def pos_ok_def)
  then have lt: "Suc (snd p) < length (rules ! fst p)"
    using p ref by (auto simp: wf_rule_def pos_ok_def elem_at_def)
  then have "follows_ok LLAMA_GRETYPE_RULE_REF (gtype (rules ! fst p ! Suc (snd p)))"
    using r ref by (auto simp: wf_rule_def elem_at_def)
  then show ?thesis using p lt by (auto simp: pos_ok_def next_pos_def elem_at_def start_type_def follows_ok_def)
qed

lemma later_alternates_index:
  "j \<in> set (later_alternates es i) \<Longrightarrow> \<exists>k < length es. j = i + k + 1 \<and> gtype (es ! k) = LLAMA_GRETYPE_ALT"
proof (induction es arbitrary: i)
  case (Cons e es)
  have "\<exists>k < length es. j = Suc i + k + 1 \<and> gtype (es ! k) = LLAMA_GRETYPE_ALT \<Longrightarrow> ?case" by (force intro: exI [of _ "Suc _"])
  then show ?case using Cons by (fastforce split: if_splits)
qed simp

lemma alternates_ok:
  assumes wf: "wf_rules rules" and r: "r < length rules" and q: "q \<in> set (alternates rules r)"
  shows "pos_ok rules q"
proof -
  have w: "wf_rule (length rules) (rules ! r)" using wf r by (simp add: wf_rules_def)
  from q consider "q = (r, 0)" | j where "q = (r, j)" "j \<in> set (later_alternates (rules ! r) 0)"
    by (auto simp: alternates_def)
  then show ?thesis
  proof cases
    case 1
    then show ?thesis using w r by (auto simp: wf_rule_def pos_ok_def elem_at_def)
  next
    case 2
    then obtain k where k: "k < length (rules ! r)" "j = k + 1" "gtype (rules ! r ! k) = LLAMA_GRETYPE_ALT"
      using later_alternates_index [of j "rules ! r" 0] by auto
    then have lt: "Suc k < length (rules ! r)" using w by (auto simp: wf_rule_def)
    then have "follows_ok LLAMA_GRETYPE_ALT (gtype (rules ! r ! Suc k))" using w k by (auto simp: wf_rule_def)
    then show ?thesis using 2 k lt r by (auto simp: pos_ok_def elem_at_def start_type_def follows_ok_def)
  qed
qed

lemma ref_ok:
  assumes "wf_rules rules" "pos_ok rules p" "gtype (elem_at rules p) = LLAMA_GRETYPE_RULE_REF"
  shows "unat (gvalue (elem_at rules p)) < length rules"
proof -
  have "elem_at rules p \<in> set (rules ! fst p)" "rules ! fst p \<in> set rules"
    using assms(2) by (auto simp: pos_ok_def elem_at_def)
  then show ?thesis using assms(1,3) by (auto simp: wf_rules_def wf_rule_def)
qed

subsection \<open>Termination without left recursion\<close>

text \<open>
  \<open>null_from p\<close>: the rest of the alternate at \<open>p\<close> derives the empty string.  \<open>lead_ok rk m p\<close>: the
  rule references that can be reached at the left end of what is at \<open>p\<close> have rank below \<open>m\<close>.
  A grammar is free of left recursion when the rules can be ranked this way.
\<close>

inductive null_from :: "rules \<Rightarrow> position \<Rightarrow> bool" for rules where
  null_end: "llama_grammar_is_end_of_sequence rules p \<Longrightarrow> null_from rules p"
| null_ref: "gtype (elem_at rules p) = LLAMA_GRETYPE_RULE_REF \<Longrightarrow>
    q \<in> set (alternates rules (unat (gvalue (elem_at rules p)))) \<Longrightarrow> null_from rules q \<Longrightarrow>
    null_from rules (next_pos 1 p) \<Longrightarrow> null_from rules p"

definition may_be_empty :: "rules \<Rightarrow> nat \<Rightarrow> bool" where
  "may_be_empty rules r \<longleftrightarrow> (\<exists>q \<in> set (alternates rules r). null_from rules q)"

inductive lead_ok :: "rules \<Rightarrow> (nat \<Rightarrow> nat) \<Rightarrow> nat \<Rightarrow> position \<Rightarrow> bool" for rules rk m where
  lead_stop: "gtype (elem_at rules p) \<noteq> LLAMA_GRETYPE_RULE_REF \<Longrightarrow> lead_ok rules rk m p"
| lead_ref: "gtype (elem_at rules p) = LLAMA_GRETYPE_RULE_REF \<Longrightarrow> rk (unat (gvalue (elem_at rules p))) < m \<Longrightarrow>
    (may_be_empty rules (unat (gvalue (elem_at rules p))) \<longrightarrow> lead_ok rules rk m (next_pos 1 p)) \<Longrightarrow> lead_ok rules rk m p"

inductive_simps lead_ok_simps: "lead_ok rules rk m p"

definition ranked :: "rules \<Rightarrow> (nat \<Rightarrow> nat) \<Rightarrow> bool" where
  "ranked rules rk \<longleftrightarrow> (\<forall>r < length rules. \<forall>q \<in> set (alternates rules r). lead_ok rules rk (rk r) q)"

definition ends :: "rules \<Rightarrow> stack \<Rightarrow> bool" where
  "ends rules st \<longleftrightarrow> (\<exists>k. \<forall>acc. llama_grammar_advance_stack k rules st acc \<noteq> None)"

lemma fold_opt_mono:
  "fold_opt f xs s = Some s' \<Longrightarrow> (\<And>x t t'. f x t = Some t' \<Longrightarrow> g x t = Some t') \<Longrightarrow> fold_opt g xs s = Some s'"
  by (induction xs arbitrary: s) (auto split: option.splits)

lemma fold_opt_total: "(\<And>x t. x \<in> set xs \<Longrightarrow> f x t \<noteq> None) \<Longrightarrow> fold_opt f xs s \<noteq> None"
  by (induction xs arbitrary: s) (auto split: option.splits)

lemma advance_Suc:
  "llama_grammar_advance_stack k rules st acc = Some new \<Longrightarrow> llama_grammar_advance_stack (Suc k) rules st acc = Some new"
proof (induction k arbitrary: st acc new)
  case (Suc k)
  show ?case
  proof (cases "st \<noteq> [] \<and> gtype (elem_at rules (last st)) = LLAMA_GRETYPE_RULE_REF")
    case True
    let ?alts = "alternates rules (unat (gvalue (elem_at rules (last st))))"
    let ?f = "\<lambda>k q acc. llama_grammar_advance_stack k rules
        (push_unless_end rules q (push_unless_end rules (next_pos 1 (last st)) (butlast st))) acc"
    have "fold_opt (?f k) ?alts acc = Some new" using Suc.prems True by (simp add: Let_def)
    then have "fold_opt (?f (Suc k)) ?alts acc = Some new" by (rule fold_opt_mono) (rule Suc.IH)
    then show ?thesis using True by (subst llama_grammar_advance_stack.simps) (simp add: Let_def del: llama_grammar_advance_stack.simps)
  next
    case False
    then show ?thesis using Suc.prems
      by (auto simp: Let_def split: llama_gretype.splits if_splits)
  qed
qed simp

lemma advance_mono:
  "llama_grammar_advance_stack k rules st acc = Some new \<Longrightarrow> k \<le> k' \<Longrightarrow> llama_grammar_advance_stack k' rules st acc = Some new"
  by (rule dec_induct [of k k' "\<lambda>k'. llama_grammar_advance_stack k' rules st acc = Some new"])
    (assumption | erule advance_Suc)+

lemma advance_total_mono:
  assumes "llama_grammar_advance_stack k rules st acc \<noteq> None" "k \<le> k'"
  shows "llama_grammar_advance_stack k' rules st acc \<noteq> None"
proof -
  obtain new where "llama_grammar_advance_stack k rules st acc = Some new" using assms(1) by blast
  from advance_mono [OF this assms(2)] show ?thesis by (rule ssubst) (rule option.distinct(2))
qed

lemma ends_uniform:
  assumes "finite S" "\<And>st. st \<in> S \<Longrightarrow> ends rules st"
  shows "\<exists>k. \<forall>st \<in> S. \<forall>acc. llama_grammar_advance_stack k rules st acc \<noteq> None"
  using assms
proof (induction S)
  case (insert st S)
  obtain k1 where k1: "\<forall>acc. llama_grammar_advance_stack k1 rules st acc \<noteq> None"
    using insert.prems [OF insertI1] unfolding ends_def by (rule exE)
  have "\<exists>k. \<forall>st \<in> S. \<forall>acc. llama_grammar_advance_stack k rules st acc \<noteq> None"
    by (rule insert.IH) (rule insert.prems, erule insertI2)
  then obtain k2 where k2: "\<forall>st \<in> S. \<forall>acc. llama_grammar_advance_stack k2 rules st acc \<noteq> None" by (rule exE)
  have "llama_grammar_advance_stack (max k1 k2) rules st acc \<noteq> None" for acc
    by (rule advance_total_mono [OF spec [OF k1]]) simp
  moreover have "llama_grammar_advance_stack (max k1 k2) rules st' acc \<noteq> None" if "st' \<in> S" for st' acc
    by (rule advance_total_mono [OF spec [OF bspec [OF k2 that]]]) simp
  ultimately have "\<forall>st' \<in> insert st S. \<forall>acc. llama_grammar_advance_stack (max k1 k2) rules st' acc \<noteq> None" by blast
  then show ?case by (rule exI)
qed simp

lemma ends_ref:
  assumes ref: "gtype (elem_at rules p) = LLAMA_GRETYPE_RULE_REF"
    and "\<And>q. q \<in> set (alternates rules (unat (gvalue (elem_at rules p)))) \<Longrightarrow>
      ends rules (push_unless_end rules q (push_unless_end rules (next_pos 1 p) base))"
  shows "ends rules (base @ [p])"
proof -
  let ?alts = "alternates rules (unat (gvalue (elem_at rules p)))"
  let ?S = "(\<lambda>q. push_unless_end rules q (push_unless_end rules (next_pos 1 p) base)) ` set ?alts"
  have "ends rules st" if "st \<in> ?S" for st using that assms(2) by blast
  then obtain k where "\<forall>st \<in> ?S. \<forall>acc. llama_grammar_advance_stack k rules st acc \<noteq> None"
    using ends_uniform [of ?S rules] by blast
  then have "fold_opt (\<lambda>q acc. llama_grammar_advance_stack k rules
      (push_unless_end rules q (push_unless_end rules (next_pos 1 p) base)) acc) ?alts acc \<noteq> None" for acc
    by (intro fold_opt_total) auto
  then have "llama_grammar_advance_stack (Suc k) rules (base @ [p]) acc \<noteq> None" for acc
    using ref by (simp add: Let_def)
  then show ?thesis unfolding ends_def by blast
qed

lemma ends_char: "char_type (gtype (elem_at rules p)) \<Longrightarrow> ends rules (base @ [p])"
  unfolding ends_def by (rule exI [of _ 1]) (auto simp: char_type_def Let_def)

lemma pos_ok_type:
  "pos_ok rules p \<Longrightarrow> llama_grammar_is_end_of_sequence rules p \<or> char_type (gtype (elem_at rules p)) \<or>
     gtype (elem_at rules p) = LLAMA_GRETYPE_RULE_REF"
  by (cases "gtype (elem_at rules p)")
    (auto simp: pos_ok_def start_type_def char_type_def llama_grammar_is_end_of_sequence_def is_end_type_def)

lemma ends_push:
  assumes wf: "wf_rules rules" and rk: "ranked rules rk"
  shows "lead_ok rules rk m p \<Longrightarrow> pos_ok rules p \<Longrightarrow> (null_from rules p \<Longrightarrow> ends rules base) \<Longrightarrow>
    ends rules (push_unless_end rules p base)"
proof (induction m arbitrary: p base rule: less_induct)
  case (less m)
  show ?case using less.prems
  proof (induction "length (rules ! fst p) - snd p" arbitrary: p base rule: less_induct)
    case inner: less
    show ?case
    proof (cases "llama_grammar_is_end_of_sequence rules p")
      case True
      then show ?thesis using inner.prems(3) null_end by (simp add: push_unless_end_def)
    next
      case False
      then consider (chr) "char_type (gtype (elem_at rules p))" | (ref) "gtype (elem_at rules p) = LLAMA_GRETYPE_RULE_REF"
        using pos_ok_type [OF inner.prems(2)] by blast
      then have "ends rules (base @ [p])"
      proof cases
        case chr
        then show ?thesis by (rule ends_char)
      next
        case ref
        let ?r = "unat (gvalue (elem_at rules p))"
        have r: "?r < length rules" by (rule ref_ok [OF wf inner.prems(2) ref])
        have lead: "rk ?r < m" "may_be_empty rules ?r \<Longrightarrow> lead_ok rules rk m (next_pos 1 p)"
          using inner.prems(1) ref by (auto simp: lead_ok_simps [of rules rk m p])
        note nxt = next_ok [OF wf inner.prems(2) ref]
        show ?thesis
        proof (rule ends_ref [OF ref])
          fix q assume q: "q \<in> set (alternates rules ?r)"
          show "ends rules (push_unless_end rules q (push_unless_end rules (next_pos 1 p) base))"
          proof (rule less.IH [OF lead(1)])
            show "lead_ok rules rk (rk ?r) q" using rk r q by (auto simp: ranked_def)
            show "pos_ok rules q" by (rule alternates_ok [OF wf r q])
            assume n: "null_from rules q"
            then have "may_be_empty rules ?r" using q by (auto simp: may_be_empty_def)
            then have l: "lead_ok rules rk m (next_pos 1 p)" by (rule lead(2))
            have sz: "length (rules ! fst (next_pos 1 p)) - snd (next_pos 1 p) < length (rules ! fst p) - snd p"
              using inner.prems(2) by (auto simp: next_pos_def pos_ok_def)
            show "ends rules (push_unless_end rules (next_pos 1 p) base)"
              by (rule inner.hyps [OF sz l nxt]) (use inner.prems(3) null_ref [OF ref q n] in blast)
          qed
        qed
      qed
      then show ?thesis using False by (simp add: push_unless_end_def)
    qed
  qed
qed

lemma lead_bound:
  assumes wf: "wf_rules rules" and b: "\<And>r. r < length rules \<Longrightarrow> rk r < m"
  shows "pos_ok rules p \<Longrightarrow> lead_ok rules rk m p"
proof (induction "length (rules ! fst p) - snd p" arbitrary: p rule: less_induct)
  case less
  show ?case
  proof (cases "gtype (elem_at rules p) = LLAMA_GRETYPE_RULE_REF")
    case True
    have "length (rules ! fst (next_pos 1 p)) - snd (next_pos 1 p) < length (rules ! fst p) - snd p"
      using less.prems by (auto simp: next_pos_def pos_ok_def)
    from less.hyps [OF this next_ok [OF wf less.prems True]] show ?thesis
      using b [OF ref_ok [OF wf less.prems True]] True by (blast intro: lead_ref)
  qed (rule lead_stop)
qed

lemma stack_ends:
  assumes wf: "wf_rules rules" and rk: "ranked rules rk"
  shows "stack_ok rules st \<Longrightarrow> ends rules st"
proof (induction st rule: rev_induct)
  case Nil
  show ?case unfolding ends_def by (rule exI [of _ 1]) simp
next
  case (snoc p st)
  obtain m where m: "\<And>r. r < length rules \<Longrightarrow> rk r < m"
    using finite_nat_set_iff_bounded [of "rk ` {..<length rules}"] by auto
  have "ends rules (push_unless_end rules p st)"
    by (rule ends_push [OF wf rk lead_bound [OF wf m]]) (use snoc in \<open>auto simp: stack_ok_def\<close>)
  then show ?case using snoc.prems by (simp add: push_unless_end_def stack_ok_def)
qed

subsection \<open>Matching on well-formed grammars\<close>

lemma match_loop_ok:
  "successively (\<lambda>a b. follows_ok (gtype a) (gtype b)) ps \<Longrightarrow> ps \<noteq> [] \<Longrightarrow> gtype (last ps) = LLAMA_GRETYPE_END \<Longrightarrow>
   gtype (hd ps) \<in> {LLAMA_GRETYPE_CHAR, LLAMA_GRETYPE_CHAR_NOT, LLAMA_GRETYPE_CHAR_ANY, LLAMA_GRETYPE_CHAR_ALT} \<Longrightarrow>
   \<exists>f k. match_loop ps chr found n = Some (f, n + k) \<and> k < length ps \<and> start_type (gtype (ps ! k))"
proof (induction ps chr found n rule: match_loop.induct)
  case (1 p0 p1 ps chr found n)
  consider (rng) "gtype p1 = LLAMA_GRETYPE_CHAR_RNG_UPPER" | (alt) "gtype p1 = LLAMA_GRETYPE_CHAR_ALT"
    | (start) "start_type (gtype p1)" by (auto simp: start_type_def)
  then show ?case
  proof cases
    case rng
    then obtain p2 qs where ps: "ps = p2 # qs" using 1(5) by (cases ps) auto
    have fo: "gtype p2 \<noteq> LLAMA_GRETYPE_CHAR_RNG_UPPER" using 1(3) rng ps by (auto simp: follows_ok_def)
    show ?thesis
    proof (cases "gtype p2 = LLAMA_GRETYPE_CHAR_ALT")
      case True
      have "\<exists>f k. match_loop ps chr (found \<or> gvalue p0 \<le> chr \<and> chr \<le> gvalue p1) (n + 2) = Some (f, n + 2 + k) \<and>
          k < length ps \<and> start_type (gtype (ps ! k))"
        by (rule 1(1) [OF rng refl ps True]) (use 1 ps True in auto)
      then obtain f k where "match_loop ps chr (found \<or> gvalue p0 \<le> chr \<and> chr \<le> gvalue p1) (n + 2) = Some (f, n + 2 + k)"
        "k < length ps" "start_type (gtype (ps ! k))" by blast
      then show ?thesis using rng ps True by (intro exI [of _ f] exI [of _ "k + 2"]) simp
    next
      case False
      then show ?thesis using rng ps fo by (auto intro!: exI [of _ 2] simp: start_type_def)
    qed
  next
    case alt
    let ?f = "if gtype p0 = LLAMA_GRETYPE_CHAR_ANY then True else found \<or> gvalue p0 = chr"
    have "\<exists>f k. match_loop (p1 # ps) chr ?f (n + 1) = Some (f, n + 1 + k) \<and>
        k < length (p1 # ps) \<and> start_type (gtype ((p1 # ps) ! k))"
      by (rule 1(2) [OF _ refl alt]) (use 1 alt in auto)
    then obtain f k where "match_loop (p1 # ps) chr ?f (n + 1) = Some (f, n + 1 + k)"
      "k < length (p1 # ps)" "start_type (gtype ((p1 # ps) ! k))" by blast
    then show ?thesis using alt by (intro exI [of _ f] exI [of _ "k + 1"]) simp
  next
    case start
    then show ?thesis by (auto intro!: exI [of _ 1] simp: start_type_def)
  qed
qed auto

lemma match_ok:
  assumes wf: "wf_rules rules" and p: "pos_ok rules p" and c: "char_type (gtype (elem_at rules p))"
  shows "\<exists>m q. llama_grammar_match_char rules p chr = Some (m, q) \<and> pos_ok rules q"
proof -
  let ?r = "rules ! fst p" and ?ps = "drop (snd p) (rules ! fst p)"
  have r: "wf_rule (length rules) ?r" and lt: "snd p < length ?r" "fst p < length rules"
    using wf p by (auto simp: wf_rules_def pos_ok_def)
  have hd: "hd ?ps = elem_at rules p" using lt by (simp add: hd_drop_conv_nth elem_at_def)
  have "\<exists>f k. match_loop ?ps chr False 0 = Some (f, 0 + k) \<and> k < length ?ps \<and> start_type (gtype (?ps ! k))"
  proof (rule match_loop_ok)
    show "successively (\<lambda>a b. follows_ok (gtype a) (gtype b)) ?ps"
      using r by (auto simp: wf_rule_def successively_conv_nth)
    show "gtype (last ?ps) = LLAMA_GRETYPE_END"
      using r lt by (auto simp: wf_rule_def last_drop last_conv_nth)
    show "gtype (hd ?ps) \<in> {LLAMA_GRETYPE_CHAR, LLAMA_GRETYPE_CHAR_NOT, LLAMA_GRETYPE_CHAR_ANY, LLAMA_GRETYPE_CHAR_ALT}"
      using c hd by (auto simp: char_type_def)
  qed (use lt in simp)
  then obtain f k where "match_loop ?ps chr False 0 = Some (f, k)" "k < length ?ps" "start_type (gtype (?ps ! k))" by auto
  then show ?thesis using c lt
    by (auto simp: llama_grammar_match_char_def Let_def char_type_def is_positive_def pos_ok_def next_pos_def elem_at_def less_diff_conv)
qed

subsection \<open>Stacks stay well formed and the engine does not abort\<close>

definition ready :: "rules \<Rightarrow> stack \<Rightarrow> bool" where
  "ready rules st \<longleftrightarrow> stack_ok rules st \<and> (st \<noteq> [] \<longrightarrow> char_type (gtype (elem_at rules (last st))))"

lemma ready_add: "ready rules st \<Longrightarrow> (\<forall>s \<in> set acc. ready rules s) \<Longrightarrow> \<forall>s \<in> set (add_stack st acc). ready rules s"
  by (auto simp: add_stack_def)

lemma advance_ready:
  assumes wf: "wf_rules rules"
  shows "llama_grammar_advance_stack k rules st acc = Some new \<Longrightarrow> stack_ok rules st \<Longrightarrow>
    (\<forall>s \<in> set acc. ready rules s) \<Longrightarrow> \<forall>s \<in> set new. ready rules s"
proof (induction k arbitrary: st acc new)
  case (Suc k)
  show ?case
  proof (cases "st = []")
    case True
    then show ?thesis using Suc.prems ready_add [of rules "[]" acc] by (simp add: ready_def stack_ok_def)
  next
    case False
    then obtain base p where st: "st = base @ [p]" by (metis append_butlast_last_id)
    have ok: "stack_ok rules base" "pos_ok rules p" using Suc.prems(2) st by (auto simp: stack_ok_def)
    consider (ref) "gtype (elem_at rules p) = LLAMA_GRETYPE_RULE_REF" | (chr) "char_type (gtype (elem_at rules p))"
      using Suc.prems st by (auto simp: char_type_def Let_def split: llama_gretype.splits)
    then show ?thesis
    proof cases
      case ref
      have f: "fold_opt (\<lambda>q acc. llama_grammar_advance_stack k rules
        (push_unless_end rules q (push_unless_end rules (next_pos 1 p) base)) acc)
        (alternates rules (unat (gvalue (elem_at rules p)))) acc = Some new"
        using Suc.prems(1) st ref by (simp add: Let_def)
      show ?thesis
      proof (rule fold_opt_invariant [where P = "\<lambda>acc. \<forall>s \<in> set acc. ready rules s", OF f Suc.prems(3)], goal_cases)
        case (1 q t t')
        show ?case
          by (rule Suc.IH [OF 1(3) _ 1(2)])
            (intro push_ok ok(1) next_ok [OF wf ok(2) ref] alternates_ok [OF wf ref_ok [OF wf ok(2) ref] 1(1)])
      qed
    next
      case chr
      then have "new = add_stack st acc" using Suc.prems st by (auto simp: char_type_def Let_def)
      moreover have "ready rules st" using chr st Suc.prems(2) by (simp add: ready_def)
      ultimately show ?thesis using ready_add Suc.prems(3) by blast
    qed
  qed
qed simp

definition no_left_recursion :: "rules \<Rightarrow> bool" where
  "no_left_recursion rules \<longleftrightarrow> (\<exists>rk. ranked rules rk)"

lemma advance_enough:
  assumes "wf_rules rules" "no_left_recursion rules" "finite S" "\<And>st. st \<in> S \<Longrightarrow> stack_ok rules st"
  shows "\<exists>k. \<forall>k' \<ge> k. \<forall>st \<in> S. \<forall>acc. llama_grammar_advance_stack k' rules st acc \<noteq> None"
proof -
  obtain rk where rk: "ranked rules rk" using assms(2) by (auto simp: no_left_recursion_def)
  obtain k where k: "\<forall>st \<in> S. \<forall>acc. llama_grammar_advance_stack k rules st acc \<noteq> None"
    using ends_uniform [OF assms(3), of rules] stack_ends [OF assms(1) rk] assms(4) by blast
  have "llama_grammar_advance_stack k' rules st acc \<noteq> None" if "k \<le> k'" "st \<in> S" for k' st acc
    by (rule advance_total_mono [OF spec [OF bspec [OF k that(2)]] that(1)])
  then show ?thesis by (intro exI [of _ k]) blast
qed

lemma initial_enough:
  assumes wf: "wf_rules rules" and nl: "no_left_recursion rules" and r: "r < length rules"
  shows "\<exists>k sts. (\<forall>k' \<ge> k. initial_stacks k' rules r = Some sts) \<and> (\<forall>s \<in> set sts. ready rules s)"
proof -
  let ?S = "set (map (\<lambda>q. push_unless_end rules q []) (alternates rules r))"
  have ok: "stack_ok rules (push_unless_end rules q [])" if "q \<in> set (alternates rules r)" for q
    by (rule push_ok [OF _ alternates_ok [OF wf r that]]) (simp add: stack_ok_def)
  have "stack_ok rules st" if "st \<in> ?S" for st using that ok by auto
  from advance_enough [OF wf nl finite_set this]
  obtain k where k: "\<forall>k' \<ge> k. \<forall>st \<in> ?S. \<forall>acc. llama_grammar_advance_stack k' rules st acc \<noteq> None" by blast
  have "initial_stacks k rules r \<noteq> None"
    unfolding initial_stacks_def by (rule fold_opt_total) (use k in simp)
  then obtain sts where sts: "initial_stacks k rules r = Some sts" by blast
  have "initial_stacks k' rules r = Some sts" if "k \<le> k'" for k'
    using sts unfolding initial_stacks_def by (rule fold_opt_mono) (rule advance_mono [OF _ that])
  moreover have "\<forall>s \<in> set sts. ready rules s"
    by (rule fold_opt_invariant [where P = "\<lambda>acc. \<forall>s \<in> set acc. ready rules s", OF sts [unfolded initial_stacks_def]])
      (use advance_ready [OF wf] ok in auto)
  ultimately show ?thesis by blast
qed


lemma accept_one_cases:
  assumes wf: "wf_rules rules" and st: "ready rules st"
  shows "\<exists>nxt. stack_ok rules nxt \<and> (\<forall>k acc. accept_one k rules c st acc = Some acc \<or>
    accept_one k rules c st acc = llama_grammar_advance_stack k rules nxt acc)"
proof (cases "st = []")
  case True
  then show ?thesis by (intro exI [of _ "[]"]) (simp add: stack_ok_def accept_one_def)
next
  case False
  then have l: "pos_ok rules (last st)" "char_type (gtype (elem_at rules (last st)))" "stack_ok rules (butlast st)"
    using st by (auto simp: ready_def stack_ok_def dest: in_set_butlastD)
  from match_ok [OF wf l(1,2)] obtain m q where "llama_grammar_match_char rules (last st) c = Some (m, q)" "pos_ok rules q"
    by blast
  then show ?thesis using push_ok [OF l(3)] False
    by (intro exI [of _ "push_unless_end rules q (butlast st)"]) (auto simp: accept_one_def)
qed

lemma accept_enough:
  assumes wf: "wf_rules rules" and nl: "no_left_recursion rules" and r: "\<forall>s \<in> set sts. ready rules s"
  shows "\<exists>k new. (\<forall>k' \<ge> k. accept_stacks k' rules c sts = Some new) \<and> (\<forall>s \<in> set new. ready rules s)"
proof -
  have "\<forall>st \<in> set sts. \<exists>nxt. stack_ok rules nxt \<and> (\<forall>k acc. accept_one k rules c st acc = Some acc \<or>
    accept_one k rules c st acc = llama_grammar_advance_stack k rules nxt acc)"
    using accept_one_cases [OF wf] r by blast
  then obtain nxt where nxt: "\<forall>st \<in> set sts. stack_ok rules (nxt st) \<and> (\<forall>k acc. accept_one k rules c st acc = Some acc \<or>
    accept_one k rules c st acc = llama_grammar_advance_stack k rules (nxt st) acc)"
    by (rule bchoice [THEN exE])
  let ?S = "set (map nxt sts)"
  have "stack_ok rules st" if "st \<in> ?S" for st using that nxt by auto
  from advance_enough [OF wf nl finite_set this]
  obtain k where k: "\<forall>k' \<ge> k. \<forall>st \<in> ?S. \<forall>acc. llama_grammar_advance_stack k' rules st acc \<noteq> None" by blast
  have tot: "accept_one k rules c st acc \<noteq> None" if "st \<in> set sts" for st acc
    using nxt [THEN bspec, OF that] k that by (metis (no_types, lifting) image_eqI le_refl list.set_map option.distinct(1))
  have "accept_stacks k rules c sts \<noteq> None"
    unfolding accept_stacks_def by (rule fold_opt_total) (rule tot)
  then obtain new where new: "accept_stacks k rules c sts = Some new" by blast
  have "accept_stacks k' rules c sts = Some new" if "k \<le> k'" for k'
    using new unfolding accept_stacks_def
    by (rule fold_opt_mono) (auto simp: accept_one_def split: option.splits if_splits intro: advance_mono [OF _ that])
  moreover have "\<forall>s \<in> set new. ready rules s"
  proof (rule fold_opt_invariant [where P = "\<lambda>acc. \<forall>s \<in> set acc. ready rules s", OF new [unfolded accept_stacks_def]], goal_cases)
    case (2 st t t')
    then show ?case using nxt [THEN bspec, OF 2(1)] advance_ready [OF wf, of k "nxt st" t t']
      by (metis option.inject)
  qed simp
  ultimately show ?thesis by blast
qed

lemma accept_list_enough:
  assumes wf: "wf_rules rules" and nl: "no_left_recursion rules"
  shows "\<forall>s \<in> set sts. ready rules s \<Longrightarrow>
    \<exists>k new. (\<forall>k' \<ge> k. fold_opt (accept_stacks k' rules) cps sts = Some new) \<and> (\<forall>s \<in> set new. ready rules s)"
proof (induction cps arbitrary: sts)
  case (Cons c cps)
  obtain k1 mid where 1: "\<forall>k' \<ge> k1. accept_stacks k' rules c sts = Some mid" "\<forall>s \<in> set mid. ready rules s"
    using accept_enough [OF wf nl Cons.prems] by blast
  obtain k2 new where 2: "\<forall>k' \<ge> k2. fold_opt (accept_stacks k' rules) cps mid = Some new" "\<forall>s \<in> set new. ready rules s"
    using Cons.IH [OF 1(2)] by blast
  have "\<forall>k' \<ge> max k1 k2. fold_opt (accept_stacks k' rules) (c # cps) sts = Some new" using 1 2 by simp
  then show ?case using 2(2) by blast
qed auto

lemma ready_start:
  assumes "\<forall>s \<in> set sts. ready rules s" "wf_rules rules"
  shows "[] \<in> set sts \<longleftrightarrow> gen_any rules sts []"
proof
  assume "gen_any rules sts []"
  then obtain st where st: "st \<in> set sts" "gen rules st []" by (auto simp: gen_any_def)
  have "st = []"
  proof (rule ccontr)
    assume "st \<noteq> []"
    then obtain base p where b: "st = base @ [p]" by (metis append_butlast_last_id)
    then have "char_type (gtype (elem_at rules p))" using assms st by (auto simp: ready_def)
    then show False using st(2) gen_snoc_char [of rules p base "[]"] b by simp
  qed
  then show "[] \<in> set sts" using st by simp
qed (auto simp: gen_any_def intro: gen_empty)

subsection \<open>The language as a context-free grammar\<close>

text \<open>\<open>derives p w\<close>: the rest of the alternate at \<open>p\<close> derives \<open>w\<close>.\<close>

inductive derives :: "rules \<Rightarrow> position \<Rightarrow> u32 list \<Rightarrow> bool" for rules where
  derives_end: "llama_grammar_is_end_of_sequence rules p \<Longrightarrow> derives rules p []"
| derives_char: "llama_grammar_match_char rules p c = Some (True, q) \<Longrightarrow> derives rules q w \<Longrightarrow> derives rules p (c # w)"
| derives_ref: "gtype (elem_at rules p) = LLAMA_GRETYPE_RULE_REF \<Longrightarrow>
    q \<in> set (alternates rules (unat (gvalue (elem_at rules p)))) \<Longrightarrow> derives rules q u \<Longrightarrow>
    derives rules (next_pos 1 p) v \<Longrightarrow> derives rules p (u @ v)"

definition rule_derives :: "rules \<Rightarrow> nat \<Rightarrow> u32 list \<Rightarrow> bool" where
  "rule_derives rules r w \<longleftrightarrow> (\<exists>q \<in> set (alternates rules r). derives rules q w)"

fun stack_derives :: "rules \<Rightarrow> stack \<Rightarrow> u32 list \<Rightarrow> bool" where
  "stack_derives rules [] w \<longleftrightarrow> w = []"
| "stack_derives rules (p # ps) w \<longleftrightarrow> (\<exists>u v. w = u @ v \<and> derives rules p u \<and> stack_derives rules ps v)"

lemma derives_gen: "derives rules p u \<Longrightarrow> gen rules st v \<Longrightarrow> gen rules (push_unless_end rules p st) (u @ v)"
proof (induction arbitrary: st v rule: derives.induct)
  case (derives_char p c q w)
  then have "\<not> llama_grammar_is_end_of_sequence rules p"
    using match_char_type [of rules p c] by (auto simp: llama_grammar_is_end_of_sequence_def is_end_type_def char_type_def)
  then show ?case using derives_char by (auto simp: push_unless_end_def intro: gen_char)
next
  case (derives_ref p q u v')
  then have "\<not> llama_grammar_is_end_of_sequence rules p"
    by (auto simp: llama_grammar_is_end_of_sequence_def is_end_type_def)
  then show ?case using derives_ref by (auto simp: push_unless_end_def intro!: gen_ref)
qed (simp add: push_unless_end_def)

lemma push_derives:
  assumes "stack_derives rules (rev (push_unless_end rules q st)) w"
  shows "\<exists>u v. w = u @ v \<and> derives rules q u \<and> stack_derives rules (rev st) v"
proof (cases "llama_grammar_is_end_of_sequence rules q")
  case True
  then show ?thesis using assms derives_end by (intro exI [of _ "[]"] exI [of _ w]) (simp add: push_unless_end_def)
qed (use assms in \<open>simp add: push_unless_end_def\<close>)

lemma gen_derives: "gen rules st w \<Longrightarrow> stack_derives rules (rev st) w"
proof (induction rule: gen.induct)
  case (gen_char p c q st w)
  then obtain u v where "w = u @ v" "derives rules q u" "stack_derives rules (rev st) v" using push_derives by blast
  then have "\<exists>u v. c # w = u @ v \<and> derives rules p u \<and> stack_derives rules (rev st) v"
    using derives_char [OF gen_char(1)] by (intro exI [of _ "c # u"] exI [of _ v]) simp
  then show ?case by simp
next
  case (gen_ref p q st w)
  then obtain u v where 1: "w = u @ v" "derives rules q u" "stack_derives rules (rev (push_unless_end rules (next_pos 1 p) st)) v"
    using push_derives by blast
  then obtain u' v' where 2: "v = u' @ v'" "derives rules (next_pos 1 p) u'" "stack_derives rules (rev st) v'"
    using push_derives by blast
  from derives_ref [OF gen_ref(1,2) 1(2) 2(2)] have "derives rules p (u @ u')" .
  moreover have "w = (u @ u') @ v'" using 1 2 by simp
  ultimately have "\<exists>u v. w = u @ v \<and> derives rules p u \<and> stack_derives rules (rev st) v"
    using 2(3) by (intro exI [of _ "u @ u'"] exI [of _ v']) simp
  then show ?case by simp
qed simp

lemma stack_derives_gen: "stack_derives rules ps w \<Longrightarrow> stack_ok rules (rev ps) \<Longrightarrow> gen rules (rev ps) w"
proof (induction ps arbitrary: w)
  case Nil
  then show ?case using gen_empty by simp
next
  case (Cons p ps)
  then obtain u v where uv: "w = u @ v" "derives rules p u" "gen rules (rev ps) v" by (auto simp: stack_ok_def)
  have "push_unless_end rules p (rev ps) = rev (p # ps)" using Cons.prems(2) by (simp add: stack_ok_def push_unless_end_def)
  then show ?case using derives_gen [OF uv(2,3)] uv(1) by simp
qed

lemma gen_any_derives:
  "\<forall>s \<in> set sts. ready rules s \<Longrightarrow> gen_any rules sts w \<longleftrightarrow> (\<exists>st \<in> set sts. stack_derives rules (rev st) w)"
  using gen_derives stack_derives_gen [of rules "rev _"] by (fastforce simp: gen_any_def ready_def)

lemma gen_rule_derives: "gen_rule rules r w \<longleftrightarrow> rule_derives rules r w"
proof
  assume "gen_rule rules r w"
  then obtain q where q: "q \<in> set (alternates rules r)" "gen rules (push_unless_end rules q []) w" by (auto simp: gen_rule_def)
  from push_derives [OF gen_derives [OF q(2)]] show "rule_derives rules r w" using q(1) by (auto simp: rule_derives_def)
next
  assume "rule_derives rules r w"
  then show "gen_rule rules r w"
    using derives_gen [of rules _ w "[]" "[]"] gen_empty by (auto simp: rule_derives_def gen_rule_def)
qed

text \<open>
  C1: The pushdown engine computes the grammar.  On a well-formed grammar without left recursion
  the initial stacks and the stacks after any sequence of code points are computed (with enough
  fuel, without an abort), together they stand for exactly the continuations that the start symbol
  still derives, and the empty stack is among them exactly when the text so far is complete.
\<close>

theorem grammar_accepts_language:
  assumes "wf_rules rules" "no_left_recursion rules" "start < length rules"
  shows "\<exists>k sts sts'. \<forall>k' \<ge> k. initial_stacks k' rules start = Some sts \<and>
    fold_opt (accept_stacks k' rules) cps sts = Some sts' \<and>
    (\<forall>w. (\<exists>st \<in> set sts'. stack_derives rules (rev st) w) \<longleftrightarrow> rule_derives rules start (cps @ w)) \<and>
    ([] \<in> set sts' \<longleftrightarrow> rule_derives rules start cps)"
proof -
  obtain k1 sts where 1: "\<forall>k' \<ge> k1. initial_stacks k' rules start = Some sts" "\<forall>s \<in> set sts. ready rules s"
    using initial_enough [OF assms] by blast
  obtain k2 sts' where 2: "\<forall>k' \<ge> k2. fold_opt (accept_stacks k' rules) cps sts = Some sts'" "\<forall>s \<in> set sts'. ready rules s"
    using accept_list_enough [OF assms(1,2) 1(2)] by blast
  have "gen_any rules sts' w \<longleftrightarrow> rule_derives rules start (cps @ w)" for w
    using accept_list_lang [OF 2(1) [rule_format, OF order_refl]] initial_lang [OF 1(1) [rule_format, OF order_refl]] by (simp add: gen_rule_derives)
  moreover from this [of "[]"] have "[] \<in> set sts' \<longleftrightarrow> rule_derives rules start cps"
    using ready_start [OF 2(2) assms(1)] by simp
  ultimately show ?thesis using 1 2 by (intro exI [of _ "max k1 k2"] exI [of _ sts] exI [of _ sts']) (simp add: gen_any_derives [OF 2(2), symmetric])
qed


theorem grammar_accepts_language_witness:
  "let rules = [[\<lparr>gtype = LLAMA_GRETYPE_RULE_REF, gvalue = 1\<rparr>, \<lparr>gtype = LLAMA_GRETYPE_CHAR, gvalue = 98\<rparr>, \<lparr>gtype = LLAMA_GRETYPE_END, gvalue = 0\<rparr>],
      [\<lparr>gtype = LLAMA_GRETYPE_CHAR, gvalue = 97\<rparr>, \<lparr>gtype = LLAMA_GRETYPE_RULE_REF, gvalue = 1\<rparr>, \<lparr>gtype = LLAMA_GRETYPE_ALT, gvalue = 0\<rparr>,
       \<lparr>gtype = LLAMA_GRETYPE_END, gvalue = 0\<rparr>]]
   in \<exists>k sts sts'. initial_stacks k rules 0 = Some sts \<and> fold_opt (accept_stacks k rules) [97, 97] sts = Some sts' \<and>
    ([] \<in> set sts' \<longleftrightarrow> rule_derives rules 0 [97, 97])"
proof -
  let ?rules = "[[\<lparr>gtype = LLAMA_GRETYPE_RULE_REF, gvalue = 1\<rparr>, \<lparr>gtype = LLAMA_GRETYPE_CHAR, gvalue = 98\<rparr>, \<lparr>gtype = LLAMA_GRETYPE_END, gvalue = 0\<rparr>],
      [\<lparr>gtype = LLAMA_GRETYPE_CHAR, gvalue = 97\<rparr>, \<lparr>gtype = LLAMA_GRETYPE_RULE_REF, gvalue = 1\<rparr>, \<lparr>gtype = LLAMA_GRETYPE_ALT, gvalue = 0\<rparr>,
       \<lparr>gtype = LLAMA_GRETYPE_END, gvalue = 0\<rparr>]]"
  have n: "{i. i < n} = set [0 ..< n]" for n by auto
  have wf: "wf_rules ?rules"
    by (simp add: wf_rules_def wf_rule_def start_type_def follows_ok_def less_Suc_eq all_conj_distrib disj_imp nth_Cons')
  let ?rk = "\<lambda>r :: nat. if r = 0 then 1 else 0 :: nat"
  have stop: "lead_ok ?rules ?rk m p" if "p = (0, 1) \<or> p = (1, 0) \<or> p = (1, 3)" for m p
    by (rule lead_stop) (use that in \<open>auto simp: elem_at_def\<close>)
  have "lead_ok ?rules ?rk 1 (0, 0)"
    by (rule lead_ref) (use stop in \<open>simp_all add: elem_at_def next_pos_def\<close>)
  then have "ranked ?rules ?rk"
    using stop by (auto simp: ranked_def alternates_def less_Suc_eq)
  then have "no_left_recursion ?rules" unfolding no_left_recursion_def by (rule exI [where x = ?rk])
  have "\<exists>k sts sts'. \<forall>k' \<ge> k. initial_stacks k' ?rules 0 = Some sts \<and> fold_opt (accept_stacks k' ?rules) [97, 97] sts = Some sts' \<and>
    (\<forall>w. (\<exists>st \<in> set sts'. stack_derives ?rules (rev st) w) \<longleftrightarrow> rule_derives ?rules 0 ([97, 97] @ w)) \<and>
    ([] \<in> set sts' \<longleftrightarrow> rule_derives ?rules 0 [97, 97])"
    by (rule grammar_accepts_language [OF wf \<open>no_left_recursion ?rules\<close>]) simp
  then show ?thesis unfolding Let_def by blast
qed

subsection \<open>Character classes\<close>

text \<open>A class is a list of items: a single character or a range with its upper end.\<close>

type_synonym class_item = "u32 \<times> u32 option"

definition item_low :: "class_item \<Rightarrow> u32" where "item_low it = fst it"
definition item_high :: "class_item \<Rightarrow> u32" where "item_high it = (case snd it of None \<Rightarrow> fst it | Some h \<Rightarrow> h)"

definition in_class :: "class_item list \<Rightarrow> u32 \<Rightarrow> bool" where
  "in_class items c \<longleftrightarrow> (\<exists>it \<in> set items. item_low it \<le> c \<and> c \<le> item_high it)"

fun class_code :: "llama_gretype \<Rightarrow> class_item list \<Rightarrow> rule" where
  "class_code ty [] = []"
| "class_code ty ((lo, None) # items) = \<lparr>gtype = ty, gvalue = lo\<rparr> # class_code LLAMA_GRETYPE_CHAR_ALT items"
| "class_code ty ((lo, Some hi) # items) =
     \<lparr>gtype = ty, gvalue = lo\<rparr> # \<lparr>gtype = LLAMA_GRETYPE_CHAR_RNG_UPPER, gvalue = hi\<rparr> # class_code LLAMA_GRETYPE_CHAR_ALT items"

definition class_at :: "rules \<Rightarrow> position \<Rightarrow> bool \<Rightarrow> class_item list \<Rightarrow> bool" where
  "class_at rules p positive items \<longleftrightarrow> items \<noteq> [] \<and> snd p < length (rules ! fst p) \<and> (\<exists>e rest. start_type (gtype e) \<and>
     drop (snd p) (rules ! fst p) = class_code (if positive then LLAMA_GRETYPE_CHAR else LLAMA_GRETYPE_CHAR_NOT) items @ e # rest)"

lemma class_code_Cons: "items \<noteq> [] \<Longrightarrow> \<exists>es. class_code ty items = \<lparr>gtype = ty, gvalue = item_low (hd items)\<rparr> # es"
  by (cases "(ty, items)" rule: class_code.cases) (auto simp: item_low_def)

lemma match_class:
  "items \<noteq> [] \<Longrightarrow> start_type (gtype e) \<Longrightarrow> ty \<noteq> LLAMA_GRETYPE_CHAR_ANY \<Longrightarrow>
   match_loop (class_code ty items @ e # rest) c found n = Some (found \<or> in_class items c, n + length (class_code ty items))"
proof (induction ty items arbitrary: found n rule: class_code.induct)
  case (2 ty lo items)
  show ?case
  proof (cases "items = []")
    case True
    then show ?thesis using 2(3,4) by (auto simp: in_class_def item_low_def item_high_def start_type_def)
  next
    case False
    then obtain es where es: "class_code LLAMA_GRETYPE_CHAR_ALT items = \<lparr>gtype = LLAMA_GRETYPE_CHAR_ALT, gvalue = item_low (hd items)\<rparr> # es"
      using class_code_Cons by blast
    show ?thesis using 2(1) [OF False 2(3), of "found \<or> lo = c" "n + 1"] 2(4)
      by (auto simp: es in_class_def item_low_def item_high_def)
  qed
next
  case (3 ty lo hi items)
  show ?case
  proof (cases "items = []")
    case True
    then show ?thesis using 3(3,4) by (auto simp: in_class_def item_low_def item_high_def start_type_def)
  next
    case False
    then obtain es where es: "class_code LLAMA_GRETYPE_CHAR_ALT items = \<lparr>gtype = LLAMA_GRETYPE_CHAR_ALT, gvalue = item_low (hd items)\<rparr> # es"
      using class_code_Cons by blast
    show ?thesis using 3(1) [OF False 3(3), of "found \<or> lo \<le> c \<and> c \<le> hi" "n + 2"] 3(4)
      by (auto simp: es in_class_def item_low_def item_high_def)
  qed
qed simp

definition overlaps :: "class_item list \<Rightarrow> u32 \<Rightarrow> u32 \<Rightarrow> bool" where
  "overlaps items low high \<longleftrightarrow> (\<exists>it \<in> set items. item_low it \<le> high \<and> low \<le> item_high it)"

lemma partial_class:
  "items \<noteq> [] \<Longrightarrow> start_type (gtype e) \<Longrightarrow> ty \<noteq> LLAMA_GRETYPE_CHAR_ANY \<Longrightarrow>
   partial_loop (class_code ty items @ e # rest) low high pos = Some (overlaps items low high = pos)"
proof (induction ty items rule: class_code.induct)
  case (2 ty lo items)
  show ?case
  proof (cases "items = []")
    case True
    then show ?thesis using 2(3,4) by (auto simp: overlaps_def item_low_def item_high_def start_type_def)
  next
    case False
    then obtain es where es: "class_code LLAMA_GRETYPE_CHAR_ALT items = \<lparr>gtype = LLAMA_GRETYPE_CHAR_ALT, gvalue = item_low (hd items)\<rparr> # es"
      using class_code_Cons by blast
    show ?thesis using 2(1) [OF False 2(3)] 2(4)
      by (auto simp: es overlaps_def item_low_def item_high_def)
  qed
next
  case (3 ty lo hi items)
  show ?case
  proof (cases "items = []")
    case True
    then show ?thesis using 3(3,4) by (auto simp: overlaps_def item_low_def item_high_def start_type_def)
  next
    case False
    then obtain es where es: "class_code LLAMA_GRETYPE_CHAR_ALT items = \<lparr>gtype = LLAMA_GRETYPE_CHAR_ALT, gvalue = item_low (hd items)\<rparr> # es"
      using class_code_Cons by blast
    show ?thesis using 3(1) [OF False 3(3)] 3(4)
      by (auto simp: es overlaps_def item_low_def item_high_def)
  qed
qed simp

lemma class_type:
  assumes "class_at rules p positive items"
  shows "gtype (elem_at rules p) = (if positive then LLAMA_GRETYPE_CHAR else LLAMA_GRETYPE_CHAR_NOT)"
proof -
  let ?ty = "if positive then LLAMA_GRETYPE_CHAR else LLAMA_GRETYPE_CHAR_NOT"
  obtain e rest where d: "drop (snd p) (rules ! fst p) = class_code ?ty items @ e # rest" "items \<noteq> []"
    "snd p < length (rules ! fst p)" using assms by (auto simp: class_at_def)
  moreover obtain es where "class_code ?ty items = \<lparr>gtype = ?ty, gvalue = item_low (hd items)\<rparr> # es"
    using class_code_Cons [OF d(2)] by blast
  ultimately have "hd (drop (snd p) (rules ! fst p)) = \<lparr>gtype = ?ty, gvalue = item_low (hd items)\<rparr>" by simp
  then show ?thesis using d(3) by (simp add: hd_drop_conv_nth elem_at_def)
qed

lemma match_char_class:
  assumes "class_at rules p positive items"
  shows "llama_grammar_match_char rules p c =
    Some (in_class items c = positive,
          next_pos (length (class_code (if positive then LLAMA_GRETYPE_CHAR else LLAMA_GRETYPE_CHAR_NOT) items)) p)"
proof -
  obtain e rest where "start_type (gtype e)" "items \<noteq> []"
    "drop (snd p) (rules ! fst p) = class_code (if positive then LLAMA_GRETYPE_CHAR else LLAMA_GRETYPE_CHAR_NOT) items @ e # rest"
    using assms by (auto simp: class_at_def)
  then show ?thesis using class_type [OF assms]
    by (cases positive) (simp_all add: llama_grammar_match_char_def is_positive_def match_class)
qed

text \<open>
  \<open>llama_grammar_match_char\<close> decides a character class and steps over it: for a positive class
  it accepts exactly the characters of the class, for a negated class exactly the others, and
  the returned position is the one after the class, whatever the character.
\<close>

theorem match_char_decides_class:
  assumes "class_at rules p positive items"
  shows "llama_grammar_match_char rules p c =
    Some (in_class items c = positive,
          next_pos (length (class_code (if positive then LLAMA_GRETYPE_CHAR else LLAMA_GRETYPE_CHAR_NOT) items)) p)"
  by (rule match_char_class [OF assms])

theorem match_char_decides_class_witness:
  "llama_grammar_match_char
     [[\<lparr>gtype = LLAMA_GRETYPE_CHAR_NOT, gvalue = 97\<rparr>, \<lparr>gtype = LLAMA_GRETYPE_CHAR_RNG_UPPER, gvalue = 122\<rparr>,
       \<lparr>gtype = LLAMA_GRETYPE_CHAR_ALT, gvalue = 48\<rparr>, \<lparr>gtype = LLAMA_GRETYPE_END, gvalue = 0\<rparr>]] (0, 0) 65 =
   Some (in_class [(97, Some 122), (48, None)] 65 = False, next_pos 3 (0, 0))"
  using match_char_decides_class [of "[[\<lparr>gtype = LLAMA_GRETYPE_CHAR_NOT, gvalue = 97\<rparr>, \<lparr>gtype = LLAMA_GRETYPE_CHAR_RNG_UPPER, gvalue = 122\<rparr>,
       \<lparr>gtype = LLAMA_GRETYPE_CHAR_ALT, gvalue = 48\<rparr>, \<lparr>gtype = LLAMA_GRETYPE_END, gvalue = 0\<rparr>]]" "(0, 0)" False
       "[(97, Some 122), (48, None)]" 65]
  by (simp add: class_at_def start_type_def next_pos_def)

definition lowest_completion :: "llama_partial_utf8 \<Rightarrow> u32" where
  "lowest_completion p = (if partial_low p = 0 then (if n_remain p = 2 then push_bit 11 1
     else if n_remain p = 3 then push_bit 16 1 else 0) else partial_low p)"

definition completions :: "llama_partial_utf8 \<Rightarrow> u32 set" where
  "completions p = {c. lowest_completion p \<le> c \<and> c \<le> partial_high p}"

lemma overlap_completion:
  assumes "\<forall>it \<in> set items. item_low it \<le> item_high it" "low \<le> high"
  shows "overlaps items low high \<longleftrightarrow> (\<exists>c. low \<le> c \<and> c \<le> high \<and> in_class items c)"
proof
  assume "overlaps items low high"
  then obtain it where "it \<in> set items" "item_low it \<le> high" "low \<le> item_high it" by (auto simp: overlaps_def)
  then have "low \<le> max low (item_low it) \<and> max low (item_low it) \<le> high \<and> in_class items (max low (item_low it))"
    using assms by (auto simp: in_class_def max_def intro!: bexI [of _ it])
  then show "\<exists>c. low \<le> c \<and> c \<le> high \<and> in_class items c" by blast
qed (force simp: overlaps_def in_class_def intro: order_trans)

text \<open>
  \<open>llama_grammar_match_partial_char\<close> on an unfinished code point: for a positive class it says
  whether some completion is in the class, as its comment promises, but for a negated class it says
  whether every completion is accepted (the comment says some).  The witness is a class that excludes only U+00E9, after the
  byte 0xC3: the check says no although 0xC3 0xA0 is accepted.
\<close>

theorem match_partial_char_completions:
  assumes "class_at rules pos positive items" "\<forall>it \<in> set items. item_low it \<le> item_high it"
    and "n_remain p > 0" "\<not> (n_remain p = 1 \<and> pvalue p < 2)" "lowest_completion p \<le> partial_high p"
  shows "llama_grammar_match_partial_char rules pos p = Some
    (if positive then (\<exists>c \<in> completions p. \<exists>q. llama_grammar_match_char rules pos c = Some (True, q))
     else (\<forall>c \<in> completions p. \<exists>q. llama_grammar_match_char rules pos c = Some (True, q)))"
proof -
  obtain e rest where d: "start_type (gtype e)" "items \<noteq> []"
    "drop (snd pos) (rules ! fst pos) = class_code (if positive then LLAMA_GRETYPE_CHAR else LLAMA_GRETYPE_CHAR_NOT) items @ e # rest"
    using assms by (auto simp: class_at_def)
  have valid: "(n_remain p < 0 \<or> n_remain p = 1 \<and> pvalue p < 2) = False" using assms(3,4) by auto
  have "llama_grammar_match_partial_char rules pos p = Some (overlaps items (lowest_completion p) (partial_high p) = positive)"
    unfolding llama_grammar_match_partial_char_def Let_def valid if_False
    using d class_type [OF assms(1)]
    by (cases positive) (simp_all add: is_positive_def lowest_completion_def partial_class)
  moreover have "(\<exists>q. llama_grammar_match_char rules pos c = Some (True, q)) \<longleftrightarrow> in_class items c = positive" for c
    using match_char_class [OF assms(1), of c] by auto
  ultimately show ?thesis unfolding overlap_completion [OF assms(2,5)] by (auto simp: completions_def)
qed

theorem match_partial_char_completions_witness:
  "let rules = [[\<lparr>gtype = LLAMA_GRETYPE_CHAR_NOT, gvalue = 233\<rparr>, \<lparr>gtype = LLAMA_GRETYPE_END, gvalue = 0\<rparr>]];
       p = \<lparr>pvalue = 3, n_remain = 1\<rparr>
   in llama_grammar_match_partial_char rules (0, 0) p = Some False \<and>
      224 \<in> completions p \<and> llama_grammar_match_char rules (0, 0) 224 = Some (True, (0, 1))"
proof -
  let ?rules = "[[\<lparr>gtype = LLAMA_GRETYPE_CHAR_NOT, gvalue = 233\<rparr>, \<lparr>gtype = LLAMA_GRETYPE_END, gvalue = 0\<rparr>]]"
  let ?p = "\<lparr>pvalue = 3, n_remain = 1\<rparr> :: llama_partial_utf8"
  have c: "class_at ?rules (0, 0) False [(233, None)]" by (simp add: class_at_def start_type_def)
  have r: "partial_low ?p = 192" "partial_high ?p = 255" "lowest_completion ?p = 192"
    by (simp_all add: partial_low_def partial_high_def lowest_completion_def)
  have m: "llama_grammar_match_char ?rules (0, 0) 233 = Some (False, (0, 1))"
    "llama_grammar_match_char ?rules (0, 0) 224 = Some (True, (0, 1))"
    by (simp_all add: llama_grammar_match_char_def elem_at_def is_positive_def next_pos_def)
  have i: "233 \<in> completions ?p" "224 \<in> completions ?p" using r by (simp_all add: completions_def)
  have "\<nexists>q. llama_grammar_match_char ?rules (0, 0) 233 = Some (True, q)" using m(1) by simp
  with i(1) have n: "\<not> (\<forall>c \<in> completions ?p. \<exists>q. llama_grammar_match_char ?rules (0, 0) c = Some (True, q))" by blast
  have "llama_grammar_match_partial_char ?rules (0, 0) ?p =
    Some (\<forall>c \<in> completions ?p. \<exists>q. llama_grammar_match_char ?rules (0, 0) c = Some (True, q))"
    using match_partial_char_completions [OF c, of ?p] r by (simp add: item_low_def item_high_def del: split_paired_Ex)
  then show ?thesis using i(2) m(2) unfolding Let_def by (simp only: n simp_thms)
qed

lemma advance_ref:
  "gtype (elem_at rules p) = LLAMA_GRETYPE_RULE_REF \<Longrightarrow>
   llama_grammar_advance_stack (Suc k) rules (base @ [p]) acc =
     fold_opt (\<lambda>q. llama_grammar_advance_stack k rules (push_unless_end rules q (push_unless_end rules (next_pos 1 p) base)))
       (alternates rules (unat (gvalue (elem_at rules p)))) acc"
  by (simp add: Let_def)

subsection \<open>What the left-recursion check misses\<close>

text \<open>
  C18: \<open>llama_grammar_detect_left_recursion\<close> takes a rule for possibly empty only when one of its
  alternates is literally empty, so it misses emptiness that comes through another rule.  The
  grammar \<open>root ::= a root "x"\<close>, \<open>a ::= b\<close>, \<open>b ::= | "y"\<close> is left-recursive, passes the check,
  and \<open>llama_grammar_advance_stack\<close> does not end on it: initialisation has no result for any
  depth of recursion.
\<close>

theorem indirect_left_recursion_passes_check:
  "let rules = [[\<lparr>gtype = LLAMA_GRETYPE_RULE_REF, gvalue = 1\<rparr>, \<lparr>gtype = LLAMA_GRETYPE_RULE_REF, gvalue = 0\<rparr>,
                 \<lparr>gtype = LLAMA_GRETYPE_CHAR, gvalue = 120\<rparr>, \<lparr>gtype = LLAMA_GRETYPE_END, gvalue = 0\<rparr>],
                [\<lparr>gtype = LLAMA_GRETYPE_RULE_REF, gvalue = 2\<rparr>, \<lparr>gtype = LLAMA_GRETYPE_END, gvalue = 0\<rparr>],
                [\<lparr>gtype = LLAMA_GRETYPE_ALT, gvalue = 0\<rparr>, \<lparr>gtype = LLAMA_GRETYPE_CHAR, gvalue = 121\<rparr>,
                 \<lparr>gtype = LLAMA_GRETYPE_END, gvalue = 0\<rparr>]]
   in wf_rules rules \<and> any_left_recursion 4 rules = Some False \<and> (\<forall>fuel. initial_stacks fuel rules 0 = None) \<and>
      (\<forall>fuel. llama_grammar_init_impl fuel rules 0 = None)"
proof -
  define rules where "rules =
    [[\<lparr>gtype = LLAMA_GRETYPE_RULE_REF, gvalue = 1\<rparr>, \<lparr>gtype = LLAMA_GRETYPE_RULE_REF, gvalue = 0\<rparr>,
                 \<lparr>gtype = LLAMA_GRETYPE_CHAR, gvalue = 120\<rparr>, \<lparr>gtype = LLAMA_GRETYPE_END, gvalue = 0\<rparr>],
                [\<lparr>gtype = LLAMA_GRETYPE_RULE_REF, gvalue = 2\<rparr>, \<lparr>gtype = LLAMA_GRETYPE_END, gvalue = 0\<rparr>],
                [\<lparr>gtype = LLAMA_GRETYPE_ALT, gvalue = 0\<rparr>, \<lparr>gtype = LLAMA_GRETYPE_CHAR, gvalue = 121\<rparr>,
                 \<lparr>gtype = LLAMA_GRETYPE_END, gvalue = (0 :: u32)\<rparr>]]"
  have e: "elem_at rules (0, 0) = \<lparr>gtype = LLAMA_GRETYPE_RULE_REF, gvalue = 1\<rparr>"
    "elem_at rules (0, 1) = \<lparr>gtype = LLAMA_GRETYPE_RULE_REF, gvalue = 0\<rparr>"
    "elem_at rules (1, 0) = \<lparr>gtype = LLAMA_GRETYPE_RULE_REF, gvalue = 2\<rparr>"
    by (simp_all add: rules_def elem_at_def)
  have alts: "alternates rules 0 = [(0, 0)]" "alternates rules 1 = [(1, 0)]" "alternates rules 2 = [(2, 0), (2, 1)]"
    by (simp_all add: rules_def alternates_def is_end_type_def)
  have ends: "llama_grammar_is_end_of_sequence rules (1, 1)" "llama_grammar_is_end_of_sequence rules (2, 0)"
    "\<not> llama_grammar_is_end_of_sequence rules (0, 0)" "\<not> llama_grammar_is_end_of_sequence rules (0, 1)"
    "\<not> llama_grammar_is_end_of_sequence rules (0, 2)" "\<not> llama_grammar_is_end_of_sequence rules (1, 0)"
    by (simp_all add: rules_def elem_at_def llama_grammar_is_end_of_sequence_def is_end_type_def)
  note model = e [unfolded One_nat_def] alts [unfolded One_nat_def] ends [unfolded One_nat_def] ends [unfolded One_nat_def numeral_2_eq_2] push_unless_end_def next_pos_def
  have step: "llama_grammar_advance_stack (Suc (Suc (Suc j))) rules (base @ [(0, 0)]) acc = None"
    if IH: "\<And>base acc. llama_grammar_advance_stack j rules (base @ [(0, 0)]) acc = None" for j base acc
  proof -
    have 1: "llama_grammar_advance_stack (Suc j) rules (base @ [(0, Suc 0)]) acc = None" for acc
      using IH [of "base @ [(0, 2)]"]
      by (subst advance_ref) (simp_all add: model numeral_2_eq_2 del: llama_grammar_advance_stack.simps)
    have 2: "llama_grammar_advance_stack (Suc (Suc j)) rules ((base @ [(0, Suc 0)]) @ [(Suc 0, 0)]) acc = None"
      using 1 by (subst advance_ref) (simp_all add: model del: llama_grammar_advance_stack.simps)
    show ?thesis
      using 2 by (subst advance_ref) (simp_all add: model del: llama_grammar_advance_stack.simps)
  qed
  have triple: "llama_grammar_advance_stack (3 * n) rules (base @ [(0, 0)]) acc = None" for n base acc
  proof (induction n arbitrary: base acc)
    case (Suc n)
    from step [OF Suc] show ?case by (simp add: numeral_3_eq_3 del: llama_grammar_advance_stack.simps(2))
  qed simp
  have adv: "llama_grammar_advance_stack k rules (base @ [(0, 0)]) acc = None" for k base acc
    using advance_mono [of k rules "base @ [(0, 0)]" acc _ "3 * k"] triple [of k] by (cases "llama_grammar_advance_stack k rules (base @ [(0, 0)]) acc") auto
  have init: "initial_stacks fuel rules 0 = None" for fuel
    using adv [of fuel "[]"] by (simp add: initial_stacks_def rules_def alternates_def push_unless_end_def
      llama_grammar_is_end_of_sequence_def is_end_type_def elem_at_def)
  have det: "any_left_recursion 4 rules = Some False"
  proof -
    have "any_left_recursion (Suc (Suc (Suc (Suc 0)))) rules = Some False"
      by (simp add: any_left_recursion_def rules_def upt_rec is_end_type_def Let_def)
    then show ?thesis by (simp add: eval_nat_numeral)
  qed
  have "map copy_rule rules = rules" "length rules = 3" by (simp_all add: rules_def copy_rule_def)
  then have "llama_grammar_init_impl fuel rules 0 = None" for fuel
    using init det by (simp add: llama_grammar_init_impl_def eval_nat_numeral)
  moreover have "wf_rules rules"
    by (simp add: rules_def wf_rules_def wf_rule_def start_type_def follows_ok_def less_Suc_eq all_conj_distrib disj_imp nth_Cons')
  ultimately show ?thesis using init det unfolding rules_def Let_def by blast
qed

end
