(* ===== verification/Grammar_Sample.thy ===== *)
theory Grammar_Sample
  imports Grammar_Lang
begin

text \<open>
  Sampling under a grammar: the candidates that \<open>llama_grammar_reject_candidates\<close> rejects, the
  tokens that \<open>llama_grammar_apply_impl\<close> masks, and their agreement with
  \<open>llama_grammar_accept_str\<close>.
\<close>

subsection \<open>Which candidates are rejected\<close>

text \<open>Code points of a candidate that are still to be matched, up to the terminating 0.\<close>

definition pending :: "candidate \<Rightarrow> u32 list" where
  "pending tok = takeWhile (\<lambda>c. c \<noteq> 0) (drop (c_offset tok) (code_points tok))"

definition closed_cand :: "candidate \<Rightarrow> bool" where
  "closed_cand tok \<longleftrightarrow> c_offset tok < length (code_points tok) \<and> 0 \<in> set (drop (c_offset tok) (code_points tok))"

text \<open>\<open>expand st s\<close>: \<open>s\<close> is one of the stacks that \<open>st\<close> advances to.\<close>

inductive expand :: "rules \<Rightarrow> stack \<Rightarrow> stack \<Rightarrow> bool" for rules where
  expand_Nil: "expand rules [] []"
| expand_char: "char_type (gtype (elem_at rules p)) \<Longrightarrow> expand rules (st @ [p]) (st @ [p])"
| expand_ref: "gtype (elem_at rules p) = LLAMA_GRETYPE_RULE_REF \<Longrightarrow>
    q \<in> set (alternates rules (unat (gvalue (elem_at rules p)))) \<Longrightarrow>
    expand rules (push_unless_end rules q (push_unless_end rules (next_pos 1 p) st)) s \<Longrightarrow> expand rules (st @ [p]) s"

lemma expand_stop:
  "expand rules [] s \<longleftrightarrow> s = []"
  "char_type (gtype (elem_at rules p)) \<Longrightarrow> expand rules (st @ [p]) s \<longleftrightarrow> s = st @ [p]"
  by (auto elim: expand.cases intro: expand.intros simp: char_type_def)

lemma expand_go:
  "gtype (elem_at rules p) = LLAMA_GRETYPE_RULE_REF \<Longrightarrow> expand rules (st @ [p]) s \<longleftrightarrow>
     (\<exists>q \<in> set (alternates rules (unat (gvalue (elem_at rules p)))).
        expand rules (push_unless_end rules q (push_unless_end rules (next_pos 1 p) st)) s)"
  by (subst expand.simps) (auto simp: char_type_def simp del: split_paired_Ex)

lemma advance_set:
  "llama_grammar_advance_stack k rules st acc = Some new \<Longrightarrow> s \<in> set new \<longleftrightarrow> s \<in> set acc \<or> expand rules st s"
proof (induction k arbitrary: st acc new)
  case (Suc k)
  have add: "s \<in> set (add_stack st acc) \<longleftrightarrow> s \<in> set acc \<or> s = st" by (auto simp: add_stack_def)
  show ?case
  proof (cases "st = []")
    case True
    then show ?thesis using Suc.prems add by (auto simp: expand_stop)
  next
    case False
    then obtain base p where st: "st = base @ [p]" by (metis append_butlast_last_id)
    consider (ref) "gtype (elem_at rules p) = LLAMA_GRETYPE_RULE_REF" | (chr) "char_type (gtype (elem_at rules p))"
      using Suc.prems st by (auto simp: char_type_def Let_def split: llama_gretype.splits)
    then show ?thesis
    proof cases
      case ref
      let ?f = "\<lambda>q. llama_grammar_advance_stack k rules (push_unless_end rules q (push_unless_end rules (next_pos 1 p) base))"
      have f: "fold_opt ?f (alternates rules (unat (gvalue (elem_at rules p)))) acc = Some new"
        using Suc.prems st ref by (simp add: Let_def)
      show ?thesis unfolding st expand_go [OF ref]
        by (rule fold_opt_collect [OF _ f]) (rule Suc.IH)
    next
      case chr
      then have "new = add_stack st acc" using Suc.prems st by (auto simp: char_type_def Let_def)
      then show ?thesis using add chr by (simp add: st expand_stop)
    qed
  qed
qed simp

text \<open>\<open>viable\<close>: the stack can consume the code points, and an unfinished one fits the class on top.\<close>

inductive viable :: "rules \<Rightarrow> stack \<Rightarrow> u32 list \<Rightarrow> llama_partial_utf8 \<Rightarrow> bool" for rules where
  viable_done: "n_remain p = 0 \<Longrightarrow> viable rules st [] p"
| viable_partial: "n_remain p \<noteq> 0 \<Longrightarrow> llama_grammar_match_partial_char rules pos p = Some True \<Longrightarrow> viable rules (st @ [pos]) [] p"
| viable_step: "llama_grammar_match_char rules pos c = Some (True, q) \<Longrightarrow>
    expand rules (push_unless_end rules q st) st' \<Longrightarrow> viable rules st' cs p \<Longrightarrow> viable rules (st @ [pos]) (c # cs) p"

definition viable_any :: "rules \<Rightarrow> stack list \<Rightarrow> candidate \<Rightarrow> bool" where
  "viable_any rules sts tok \<longleftrightarrow> (\<exists>st \<in> set sts. viable rules st (pending tok) (c_partial tok))"

lemma pending_Nil: "closed_cand tok \<Longrightarrow> cp tok = 0 \<longleftrightarrow> pending tok = []"
  by (auto simp: closed_cand_def pending_def cp_def takeWhile_eq_Nil_iff hd_drop_conv_nth)

lemma pending_step:
  assumes "closed_cand tok" "cp tok \<noteq> 0"
  shows "pending tok = cp tok # pending (tok\<lparr>c_offset := c_offset tok + 1\<rparr>)" "closed_cand (tok\<lparr>c_offset := c_offset tok + 1\<rparr>)"
proof -
  have d: "drop (c_offset tok) (code_points tok) = cp tok # drop (Suc (c_offset tok)) (code_points tok)"
    using assms(1) by (simp add: closed_cand_def cp_def Cons_nth_drop_Suc)
  then show "pending tok = cp tok # pending (tok\<lparr>c_offset := c_offset tok + 1\<rparr>)" using assms(2) by (simp add: pending_def)
  have z: "0 \<in> set (drop (Suc (c_offset tok)) (code_points tok))" using assms d by (auto simp: closed_cand_def)
  moreover have "Suc (c_offset tok) < length (code_points tok)" by (rule ccontr) (use z in simp)
  ultimately show "closed_cand (tok\<lparr>c_offset := c_offset tok + 1\<rparr>)" by (simp add: closed_cand_def)
qed

lemma viable_Nil: "viable rules [] cs p \<longleftrightarrow> cs = [] \<and> n_remain p = 0"
  by (auto elim: viable.cases intro: viable_done)

lemma viable_snoc_Nil:
  "viable rules (st @ [pos]) [] p \<longleftrightarrow> n_remain p = 0 \<or> llama_grammar_match_partial_char rules pos p = Some True"
  by (auto elim: viable.cases intro: viable_done viable_partial)

lemma viable_snoc_Cons:
  assumes m: "llama_grammar_match_char rules pos c = Some (m, q)"
    and a: "llama_grammar_advance_stack k rules (push_unless_end rules q st) [] = Some new"
  shows "viable rules (st @ [pos]) (c # cs) p \<longleftrightarrow> m \<and> (\<exists>st' \<in> set new. viable rules st' cs p)"
proof
  assume "viable rules (st @ [pos]) (c # cs) p"
  then obtain q' st' where "llama_grammar_match_char rules pos c = Some (True, q')"
    "expand rules (push_unless_end rules q' st) st'" "viable rules st' cs p"
    by (cases rule: viable.cases) auto
  then show "m \<and> (\<exists>st' \<in> set new. viable rules st' cs p)" using m advance_set [OF a] by auto
qed (use m advance_set [OF a] in \<open>auto intro: viable_step\<close>)

lemma partial_loop_some:
  "successively (\<lambda>a b. follows_ok (gtype a) (gtype b)) ps \<Longrightarrow> ps \<noteq> [] \<Longrightarrow> gtype (last ps) = LLAMA_GRETYPE_END \<Longrightarrow>
   gtype (hd ps) \<in> {LLAMA_GRETYPE_CHAR, LLAMA_GRETYPE_CHAR_NOT, LLAMA_GRETYPE_CHAR_ANY, LLAMA_GRETYPE_CHAR_ALT} \<Longrightarrow>
   partial_loop ps low high pos \<noteq> None"
proof (induction ps low high pos rule: partial_loop.induct)
  case (1 p0 p1 ps low high pos)
  show ?case
  proof (cases "gtype p1 = LLAMA_GRETYPE_CHAR_RNG_UPPER")
    case True
    then obtain p2 qs where ps: "ps = p2 # qs" using 1(5) by (cases ps) auto
    show ?thesis using 1(1) [OF True _ ps] 1(3-) True ps by auto
  next
    case False
    then show ?thesis using 1(2) [OF False] 1(3-) by auto
  qed
qed auto

lemma class_suffix:
  assumes wf: "wf_rules rules" and p: "pos_ok rules p" and c: "char_type (gtype (elem_at rules p))"
  defines "ps \<equiv> drop (snd p) (rules ! fst p)"
  shows "successively (\<lambda>a b. follows_ok (gtype a) (gtype b)) ps" "ps \<noteq> []" "gtype (last ps) = LLAMA_GRETYPE_END"
    "gtype (hd ps) \<in> {LLAMA_GRETYPE_CHAR, LLAMA_GRETYPE_CHAR_NOT, LLAMA_GRETYPE_CHAR_ANY, LLAMA_GRETYPE_CHAR_ALT}"
proof -
  let ?r = "rules ! fst p"
  have r: "wf_rule (length rules) ?r" and lt: "snd p < length ?r"
    using wf p by (auto simp: wf_rules_def pos_ok_def)
  have hd: "hd ps = elem_at rules p" using lt by (simp add: hd_drop_conv_nth elem_at_def ps_def)
  show "successively (\<lambda>a b. follows_ok (gtype a) (gtype b)) ps"
    using r by (auto simp: wf_rule_def successively_conv_nth ps_def)
  show "gtype (last ps) = LLAMA_GRETYPE_END" using r lt by (auto simp: wf_rule_def last_drop last_conv_nth ps_def)
  show "gtype (hd ps) \<in> {LLAMA_GRETYPE_CHAR, LLAMA_GRETYPE_CHAR_NOT, LLAMA_GRETYPE_CHAR_ANY, LLAMA_GRETYPE_CHAR_ALT}"
    using c hd by (auto simp: char_type_def)
  show "ps \<noteq> []" using lt by (simp add: ps_def)
qed

lemma match_partial_ok:
  assumes wf: "wf_rules rules" and p: "pos_ok rules p" and c: "char_type (gtype (elem_at rules p))"
  shows "llama_grammar_match_partial_char rules p pt \<noteq> None"
  using partial_loop_some [OF class_suffix [OF assms]] c
  by (auto simp: llama_grammar_match_partial_char_def Let_def char_type_def is_positive_def)

lemma match_loop_pos:
  "match_loop ps c f n = Some (b, k) \<Longrightarrow> \<exists>b'. match_loop ps c' f' n = Some (b', k)"
proof (induction ps c f n arbitrary: f' rule: match_loop.induct)
  case (1 p0 p1 ps c f n)
  show ?case
  proof (cases "gtype p1 = LLAMA_GRETYPE_CHAR_RNG_UPPER")
    case True
    with 1(3) obtain p2 qs where ps: "ps = p2 # qs" by (cases ps) auto
    show ?thesis using 1(1) [OF True _ ps] 1(3) True ps by (auto simp: Let_def split: if_splits)
  next
    case False
    then show ?thesis using 1(2) [OF False] 1(3) by (auto simp: Let_def split: if_splits)
  qed
qed auto

lemma match_pos:
  "llama_grammar_match_char rules p c = Some (m, q) \<Longrightarrow> \<exists>m'. llama_grammar_match_char rules p c' = Some (m', q)"
  using match_loop_pos [of "drop (snd p) (rules ! fst p)" c False 0 _ _ c' False]
  by (fastforce simp: llama_grammar_match_char_def Let_def split: if_splits option.splits)

lemma advance_nonempty:
  assumes "wf_rules rules"
  shows "llama_grammar_advance_stack k rules st acc = Some new \<Longrightarrow> set acc \<subseteq> set new \<and> new \<noteq> []"
proof (induction k arbitrary: st acc new)
  case (Suc k)
  have add: "set acc \<subseteq> set (add_stack st acc) \<and> add_stack st acc \<noteq> []" by (auto simp: add_stack_def)
  show ?case
  proof (cases "st \<noteq> [] \<and> gtype (elem_at rules (last st)) = LLAMA_GRETYPE_RULE_REF")
    case True
    define p where "p = last st"
    let ?f = "\<lambda>q. llama_grammar_advance_stack k rules (push_unless_end rules q (push_unless_end rules (next_pos 1 p) (butlast st)))"
    obtain q qs where alts: "alternates rules (unat (gvalue (elem_at rules p))) = q # qs" by (simp add: alternates_def)
    then obtain t where t: "?f q acc = Some t" "fold_opt ?f qs t = Some new"
      using Suc.prems True by (auto simp: Let_def p_def split: option.splits)
    have "set t \<subseteq> set new \<and> new \<noteq> []"
      by (rule fold_opt_invariant [OF t(2)]) (use Suc.IH [OF t(1)] Suc.IH in blast)+
    then show ?thesis using Suc.IH [OF t(1)] by blast
  next
    case False
    then show ?thesis using Suc.prems add by (auto simp: Let_def split: if_splits llama_gretype.splits)
  qed
qed simp

definition next_tok :: "candidate \<Rightarrow> candidate" where
  "next_tok tok = tok\<lparr>c_offset := c_offset tok + 1\<rparr>"

definition goes_on :: "rules \<Rightarrow> position \<Rightarrow> candidate \<Rightarrow> bool" where
  "goes_on rules pos tok \<longleftrightarrow> cp tok \<noteq> 0 \<and> (\<exists>q. llama_grammar_match_char rules pos (cp tok) = Some (True, q))"

definition stuck :: "rules \<Rightarrow> position \<Rightarrow> candidate \<Rightarrow> bool" where
  "stuck rules pos tok \<longleftrightarrow> (if cp tok = 0 then n_remain (c_partial tok) \<noteq> 0 \<and> llama_grammar_match_partial_char rules pos (c_partial tok) \<noteq> Some True
     else \<not> goes_on rules pos tok)"

lemma sort_candidates:
  assumes "wf_rules rules" "pos_ok rules pos" "char_type (gtype (elem_at rules pos))"
  shows "fold_opt (\<lambda>tok (rejects, next_candidates).
            if cp tok = 0 then
              (if n_remain (c_partial tok) \<noteq> 0 then
                 (case llama_grammar_match_partial_char rules pos (c_partial tok) of None \<Rightarrow> None
                  | Some m \<Rightarrow> Some (if \<not> m then rejects @ [tok] else rejects, next_candidates))
               else Some (rejects, next_candidates))
            else (case llama_grammar_match_char rules pos (cp tok) of None \<Rightarrow> None
                  | Some (m, _) \<Rightarrow> Some (if m then (rejects, next_candidates @ [tok\<lparr>c_offset := c_offset tok + 1\<rparr>])
                                       else (rejects @ [tok], next_candidates))))
          cands (r, n) = Some (r @ filter (stuck rules pos) cands, n @ map next_tok (filter (goes_on rules pos) cands))"
proof (induction cands arbitrary: r n)
  case (Cons tok cands)
  obtain m q where m: "llama_grammar_match_char rules pos (cp tok) = Some (m, q)" using match_ok [OF assms] by blast
  obtain b where b: "llama_grammar_match_partial_char rules pos (c_partial tok) = Some b" using match_partial_ok [OF assms] by blast
  show ?case using m b Cons
    by (cases "cp tok = 0"; cases "n_remain (c_partial tok) = 0"; cases m; cases b)
      (simp_all add: stuck_def goes_on_def next_tok_def)
qed simp

text \<open>Eventually: with enough fuel, and enough levels of recursion.\<close>

definition rejects_of :: "(nat \<Rightarrow> nat \<Rightarrow> candidate list option) \<Rightarrow> nat \<Rightarrow> candidate set \<Rightarrow> bool" where
  "rejects_of f n B \<longleftrightarrow> (\<exists>F R. (\<forall>fuel \<ge> F. \<forall>k \<ge> n. f k fuel = Some R) \<and> set R = B)"

lemma rejects_fold:
  "(\<And>st cands. st \<in> set sts \<Longrightarrow> set cands \<subseteq> C \<Longrightarrow> rejects_of (\<lambda>k fuel. f k fuel st cands) n {tok \<in> set cands. \<not> P st tok}) \<Longrightarrow>
   set cands \<subseteq> C \<Longrightarrow> rejects_of (\<lambda>k fuel. fold_opt (f k fuel) sts cands) n {tok \<in> set cands. \<forall>st \<in> set sts. \<not> P st tok}"
proof (induction sts arbitrary: cands)
  case Nil
  show ?case unfolding rejects_of_def by (rule exI [of _ 0], rule exI [of _ cands]) simp
next
  case (Cons st sts)
  obtain F1 R1 where 1: "\<forall>fuel \<ge> F1. \<forall>k \<ge> n. f k fuel st cands = Some R1" "set R1 = {tok \<in> set cands. \<not> P st tok}"
    using Cons.prems(1) [of st cands] Cons.prems(2) unfolding rejects_of_def by auto
  have "rejects_of (\<lambda>k fuel. fold_opt (f k fuel) sts R1) n {tok \<in> set R1. \<forall>st \<in> set sts. \<not> P st tok}"
    by (rule Cons.IH) (use Cons.prems 1(2) in auto)
  then obtain F2 R2 where 2: "\<forall>fuel \<ge> F2. \<forall>k \<ge> n. fold_opt (f k fuel) sts R1 = Some R2"
    "set R2 = {tok \<in> set R1. \<forall>st \<in> set sts. \<not> P st tok}" unfolding rejects_of_def by auto
  have "\<forall>fuel \<ge> max F1 F2. \<forall>k \<ge> n. fold_opt (f k fuel) (st # sts) cands = Some R2" using 1(1) 2(1) by simp
  moreover have "set R2 = {tok \<in> set cands. \<forall>st \<in> set (st # sts). \<not> P st tok}" using 1(2) 2(2) by auto
  ultimately show ?case unfolding rejects_of_def by blast
qed

definition cands_ok :: "nat \<Rightarrow> candidate set \<Rightarrow> bool" where
  "cands_ok n C \<longleftrightarrow> (\<forall>tok \<in> C. closed_cand tok \<and> length (pending tok) \<le> n)"

lemma stack_rejects:
  assumes wf: "wf_rules rules" and nl: "no_left_recursion rules" and st: "ready rules st"
    and IH: "\<And>sts cands. n > 0 \<Longrightarrow> sts \<noteq> [] \<Longrightarrow> \<forall>s \<in> set sts. ready rules s \<Longrightarrow> cands_ok (n - 1) (set cands) \<Longrightarrow>
       rejects_of (\<lambda>k fuel. llama_grammar_reject_candidates k fuel rules sts cands) (2 * n + 1) {tok \<in> set cands. \<not> viable_any rules sts tok}"
    and c: "cands_ok n (set cands)"
  shows "rejects_of (\<lambda>k fuel. llama_grammar_reject_candidates_for_stack k fuel rules st cands) (2 * n + 2)
     {tok \<in> set cands. \<not> viable rules st (pending tok) (c_partial tok)}"
proof (cases "st = []")
  case True
  have "set (filter (\<lambda>tok. cp tok \<noteq> 0 \<or> n_remain (c_partial tok) \<noteq> 0) cands) =
    {tok \<in> set cands. \<not> viable rules st (pending tok) (c_partial tok)}"
    using c pending_Nil by (auto simp: True viable_Nil cands_ok_def)
  moreover have "llama_grammar_reject_candidates_for_stack k fuel rules st cands =
      Some (filter (\<lambda>tok. cp tok \<noteq> 0 \<or> n_remain (c_partial tok) \<noteq> 0) cands)" if "k \<ge> 2 * n + 2" for k fuel
    using that True by (cases k) auto
  ultimately show ?thesis unfolding rejects_of_def by blast
next
  case False
  then obtain base pos where bp: "st = base @ [pos]" by (metis append_butlast_last_id)
  have pos: "pos_ok rules pos" "char_type (gtype (elem_at rules pos))" "stack_ok rules base"
    using st bp by (auto simp: ready_def stack_ok_def)
  obtain m0 q where m0: "llama_grammar_match_char rules pos 0 = Some (m0, q)" "pos_ok rules q"
    using match_ok [OF wf pos(1,2)] by blast
  have nxt: "stack_ok rules (push_unless_end rules q base)" by (rule push_ok [OF pos(3) m0(2)])
  obtain K where K: "\<forall>k' \<ge> K. \<forall>acc. llama_grammar_advance_stack k' rules (push_unless_end rules q base) acc \<noteq> None"
    using advance_enough [OF wf nl, of "{push_unless_end rules q base}"] nxt by auto
  obtain new where new: "llama_grammar_advance_stack K rules (push_unless_end rules q base) [] = Some new" using K by blast
  have new_ok: "new \<noteq> []" "\<forall>s \<in> set new. ready rules s"
    using advance_nonempty [OF wf new] advance_ready [OF wf new nxt] by auto
  let ?next = "map next_tok (filter (goes_on rules pos) cands)"
  have tok: "pending tok = cp tok # pending (next_tok tok)" "closed_cand (next_tok tok)"
    "viable rules st (pending tok) (c_partial tok) \<longleftrightarrow> goes_on rules pos tok \<and> viable_any rules new (next_tok tok)"
    if "tok \<in> set cands" "cp tok \<noteq> 0" for tok
  proof -
    have cl: "closed_cand tok" using c that by (simp add: cands_ok_def)
    note s = pending_step [OF cl that(2), folded next_tok_def]
    obtain m where m: "llama_grammar_match_char rules pos (cp tok) = Some (m, q)" using match_pos [OF m0(1)] by blast
    show "pending tok = cp tok # pending (next_tok tok)" "closed_cand (next_tok tok)" by (fact s)+
    show "viable rules st (pending tok) (c_partial tok) \<longleftrightarrow> goes_on rules pos tok \<and> viable_any rules new (next_tok tok)"
      unfolding s(1) bp viable_snoc_Cons [OF m new] using m that(2) by (simp add: goes_on_def viable_any_def next_tok_def)
  qed
  have fin: "viable rules st (pending tok) (c_partial tok) \<longleftrightarrow> \<not> stuck rules pos tok" if "tok \<in> set cands" "cp tok = 0" for tok
  proof -
    have "pending tok = []" using c that pending_Nil by (simp add: cands_ok_def)
    then show ?thesis using that by (simp add: bp viable_snoc_Nil stuck_def)
  qed
  have "rejects_of (\<lambda>k fuel. llama_grammar_reject_candidates k fuel rules new ?next) (2 * n + 1)
     {tok \<in> set ?next. \<not> viable_any rules new tok}"
  proof (cases n)
    case 0
    have "filter (goes_on rules pos) cands = []"
    proof (rule ccontr)
      assume "filter (goes_on rules pos) cands \<noteq> []"
      then obtain tok where "tok \<in> set cands" "goes_on rules pos tok" by (meson filter_False)
      then show False using tok(1) [of tok] c 0 by (auto simp: goes_on_def cands_ok_def)
    qed
    moreover have "llama_grammar_reject_candidates k fuel rules new [] = Some []" if "k \<ge> 2 * n + 1" for k fuel
      using that new_ok(1) by (cases k) auto
    ultimately show ?thesis unfolding rejects_of_def by auto
  next
    case (Suc n')
    have "cands_ok (n - 1) (set ?next)"
      using c tok Suc by (fastforce simp: cands_ok_def goes_on_def)
    then show ?thesis using IH new_ok Suc by blast
  qed
  then obtain F R where R: "\<forall>fuel \<ge> F. \<forall>k \<ge> 2 * n + 1. llama_grammar_reject_candidates k fuel rules new ?next = Some R"
    "set R = {tok \<in> set ?next. \<not> viable_any rules new tok}" unfolding rejects_of_def by blast
  let ?R = "filter (stuck rules pos) cands @ map (\<lambda>tok. tok\<lparr>c_offset := c_offset tok - 1\<rparr>) R"
  have "llama_grammar_reject_candidates_for_stack k fuel rules st cands = Some ?R"
    if "fuel \<ge> max F K" "k \<ge> 2 * n + 2" for k fuel
  proof -
    obtain k' where k: "k = Suc k'" "k' \<ge> 2 * n + 1" using \<open>k \<ge> 2 * n + 2\<close> by (cases k) auto
    have "llama_grammar_advance_stack fuel rules (push_unless_end rules q base) [] = Some new"
      using advance_mono [OF new] that by simp
    moreover have "llama_grammar_reject_candidates k' fuel rules new ?next = Some R" using R(1) that k by simp
    ultimately show ?thesis
      unfolding k(1) llama_grammar_reject_candidates_for_stack.simps Let_def
      unfolding bp last_snoc butlast_snoc sort_candidates [OF wf pos(1,2)] using m0(1)
      by (simp del: llama_grammar_advance_stack.simps)
  qed
  moreover have "set ?R = {tok \<in> set cands. \<not> viable rules st (pending tok) (c_partial tok)}"
  proof -
    have undo: "(next_tok tok)\<lparr>c_offset := c_offset (next_tok tok) - 1\<rparr> = tok" for tok by (simp add: next_tok_def)
    have "set (map (\<lambda>tok. tok\<lparr>c_offset := c_offset tok - 1\<rparr>) R) = {tok \<in> set cands. goes_on rules pos tok \<and> \<not> viable_any rules new (next_tok tok)}"
      unfolding set_map R(2) using undo by (auto simp: image_iff Bex_def) metis
    then have r: "x \<in> set ?R \<longleftrightarrow> x \<in> set cands \<and> (stuck rules pos x \<or> goes_on rules pos x \<and> \<not> viable_any rules new (next_tok x))" for x
      unfolding set_append set_filter by blast
    have "x \<in> set ?R \<longleftrightarrow> x \<in> set cands \<and> \<not> viable rules st (pending x) (c_partial x)" for x
      unfolding r using fin [of x] tok(3) [of x] by (cases "cp x = 0") (auto simp: stuck_def goes_on_def simp del: split_paired_Ex)
    then show ?thesis by blast
  qed
  ultimately show ?thesis unfolding rejects_of_def by blast
qed


lemma reject_eventually:
  assumes wf: "wf_rules rules" and nl: "no_left_recursion rules"
  shows "sts \<noteq> [] \<Longrightarrow> \<forall>s \<in> set sts. ready rules s \<Longrightarrow> cands_ok n (set cands) \<Longrightarrow>
    rejects_of (\<lambda>k fuel. llama_grammar_reject_candidates k fuel rules sts cands) (2 * n + 3) {tok \<in> set cands. \<not> viable_any rules sts tok}"
proof (induction n arbitrary: sts cands rule: less_induct)
  case (less n)
  have "rejects_of (\<lambda>k fuel. fold_opt (llama_grammar_reject_candidates_for_stack k fuel rules) sts cands) (2 * n + 2)
    {tok \<in> set cands. \<forall>st \<in> set sts. \<not> viable rules st (pending tok) (c_partial tok)}"
  proof (rule rejects_fold [where f = "\<lambda>k fuel. llama_grammar_reject_candidates_for_stack k fuel rules" and C = "set cands"])
    fix st cands' assume 1: "st \<in> set sts" "set cands' \<subseteq> set cands"
    show "rejects_of (\<lambda>k fuel. llama_grammar_reject_candidates_for_stack k fuel rules st cands') (2 * n + 2)
      {tok \<in> set cands'. \<not> viable rules st (pending tok) (c_partial tok)}"
    proof (rule stack_rejects [OF wf nl])
      show "ready rules st" using less.prems(2) 1 by blast
      show "cands_ok n (set cands')" using less.prems(3) 1 by (auto simp: cands_ok_def)
      fix sts' cands'' assume a: "n > 0" "sts' \<noteq> []" "\<forall>s \<in> set sts'. ready rules s" "cands_ok (n - 1) (set cands'')"
      have e: "2 * (n - 1) + 3 = 2 * n + 1" and "n - 1 < n" using a(1) by auto
      from less.IH [OF this(2) a(2,3,4), unfolded e]
      show "rejects_of (\<lambda>k fuel. llama_grammar_reject_candidates k fuel rules sts' cands'') (2 * n + 1)
        {tok \<in> set cands''. \<not> viable_any rules sts' tok}" .
    qed
  qed simp
  then obtain F R where R: "\<forall>fuel \<ge> F. \<forall>k \<ge> 2 * n + 2. fold_opt (llama_grammar_reject_candidates_for_stack k fuel rules) sts cands = Some R"
    "set R = {tok \<in> set cands. \<not> viable_any rules sts tok}" unfolding rejects_of_def viable_any_def by auto
  have "llama_grammar_reject_candidates k fuel rules sts cands = Some R" if k: "k \<ge> 2 * n + 3" and f: "fuel \<ge> F" for k fuel
  proof -
    obtain k' where "k = Suc k'" "k' \<ge> 2 * n + 2" using k by (cases k) auto
    moreover from this have "fold_opt (llama_grammar_reject_candidates_for_stack k' fuel rules) sts cands = Some R" using R(1) f by simp
    ultimately show ?thesis using less.prems(1) R(2) by (cases cands) auto
  qed
  then show ?case using R(2) unfolding rejects_of_def by blast
qed

subsection \<open>Sampling and accepting agree\<close>

lemma decode_loop_end: "decode_loop s codes v n = (cps, p) \<Longrightarrow> last cps = 0 \<and> cps \<noteq> []"
  by (induction s codes v n rule: decode_loop.induct) (auto simp: Let_def split: if_splits prod.splits)

lemma decode_end: "decode_utf8 s p = (cps, p') \<Longrightarrow> last cps = 0 \<and> cps \<noteq> []"
  by (auto simp: decode_utf8_def split: option.splits dest: decode_loop_end)

lemma token_candidate_closed: "closed_cand (token_candidate p piece i)"
  using decode_end [of piece p] by (auto simp: token_candidate_def closed_cand_def split: prod.splits)
    (metis last_in_set)

lemma accept_set:
  assumes "accept_stacks k rules c sts = Some new"
  shows "s \<in> set new \<longleftrightarrow> (\<exists>base pos q. base @ [pos] \<in> set sts \<and> llama_grammar_match_char rules pos c = Some (True, q) \<and>
    expand rules (push_unless_end rules q base) s)"
proof -
  have "s \<in> set new \<longleftrightarrow> s \<in> set [] \<or> (\<exists>st \<in> set sts. \<exists>base pos q. st = base @ [pos] \<and>
      llama_grammar_match_char rules pos c = Some (True, q) \<and> expand rules (push_unless_end rules q base) s)"
  proof (rule fold_opt_collect [OF _ assms [unfolded accept_stacks_def]])
    fix st t t' assume a: "accept_one k rules c st t = Some t'"
    show "s \<in> set t' \<longleftrightarrow> s \<in> set t \<or> (\<exists>base pos q. st = base @ [pos] \<and>
      llama_grammar_match_char rules pos c = Some (True, q) \<and> expand rules (push_unless_end rules q base) s)"
    proof (cases "st = []")
      case False
      then obtain base pos where st: "st = base @ [pos]" by (metis append_butlast_last_id)
      then obtain m q where m: "llama_grammar_match_char rules pos c = Some (m, q)" using a by (auto simp: accept_one_def split: option.splits)
      show ?thesis
      proof (cases m)
        case True
        then have "llama_grammar_advance_stack k rules (push_unless_end rules q base) t = Some t'" using a st m by (simp add: accept_one_def)
        from advance_set [OF this] show ?thesis using m True st by (auto simp del: split_paired_Ex)
      qed (use a st m in \<open>auto simp: accept_one_def\<close>)
    qed (use a in \<open>simp add: accept_one_def\<close>)
  qed
  then show ?thesis unfolding list.set empty_iff simp_thms by blast
qed

lemma accept_viable:
  assumes "accept_stacks k rules c sts = Some new"
  shows "(\<exists>st \<in> set sts. viable rules st (c # cs) p) \<longleftrightarrow> (\<exists>st \<in> set new. viable rules st cs p)"
proof
  assume "\<exists>st \<in> set sts. viable rules st (c # cs) p"
  then obtain base pos q st' where "base @ [pos] \<in> set sts" "llama_grammar_match_char rules pos c = Some (True, q)"
    "expand rules (push_unless_end rules q base) st'" "viable rules st' cs p"
    by (auto elim: viable.cases)
  then show "\<exists>st \<in> set new. viable rules st cs p" using accept_set [OF assms] by blast
next
  assume "\<exists>st \<in> set new. viable rules st cs p"
  then show "\<exists>st \<in> set sts. viable rules st (c # cs) p" using accept_set [OF assms] viable_step by blast
qed

lemma accept_list_viable:
  "fold_opt (accept_stacks k rules) cs sts = Some new \<Longrightarrow>
   (\<exists>st \<in> set sts. viable rules st (cs @ cs') p) \<longleftrightarrow> (\<exists>st \<in> set new. viable rules st cs' p)"
proof (induction cs arbitrary: sts)
  case (Cons c cs)
  then obtain t where "accept_stacks k rules c sts = Some t" "fold_opt (accept_stacks k rules) cs t = Some new"
    by (auto split: option.splits)
  then show ?case using Cons.IH accept_viable by fastforce
qed simp


lemma accept_str_stacks:
  assumes "decode_utf8 piece (partial_utf8 g) = (cps, p)" "fold_opt (accept_stacks fuel (g_rules g)) (butlast cps) (stacks g) = Some new"
  shows "llama_grammar_accept_str fuel piece g = Some (new = [], g\<lparr>stacks := new, partial_utf8 := p\<rparr>)"
proof -
  have "fold_opt (llama_grammar_accept fuel) cs g' = Some (g'\<lparr>stacks := s'\<rparr>)"
    if "fold_opt (accept_stacks fuel (g_rules g)) cs (stacks g') = Some s'" "g_rules g' = g_rules g" for cs g' s'
    using that by (induction cs arbitrary: g') (auto simp: llama_grammar_accept_def split: option.splits)
  from this [OF assms(2) refl] show ?thesis using assms(1) by (simp add: llama_grammar_accept_str_def)
qed

subsection \<open>An example grammar\<close>

lemma tiny_grammar:
  "wf_rules [[\<lparr>gtype = LLAMA_GRETYPE_CHAR, gvalue = 97\<rparr>, \<lparr>gtype = LLAMA_GRETYPE_END, gvalue = 0\<rparr>]]"
  "no_left_recursion [[\<lparr>gtype = LLAMA_GRETYPE_CHAR, gvalue = 97\<rparr>, \<lparr>gtype = LLAMA_GRETYPE_END, gvalue = 0\<rparr>]]"
  "ready [[\<lparr>gtype = LLAMA_GRETYPE_CHAR, gvalue = 97\<rparr>, \<lparr>gtype = LLAMA_GRETYPE_END, gvalue = 0\<rparr>]] [(0, 0)]"
proof -
  let ?rules = "[[\<lparr>gtype = LLAMA_GRETYPE_CHAR, gvalue = 97\<rparr>, \<lparr>gtype = LLAMA_GRETYPE_END, gvalue = (0 :: u32)\<rparr>]]"
  show "wf_rules ?rules"
    by (simp add: wf_rules_def wf_rule_def start_type_def follows_ok_def less_Suc_eq all_conj_distrib disj_imp nth_Cons')
  have "lead_ok ?rules (\<lambda>_. 0) 0 (0, 0)" by (rule lead_stop) (simp add: elem_at_def)
  then have "ranked ?rules (\<lambda>_. 0)" by (simp add: ranked_def alternates_def is_end_type_def)
  then show "no_left_recursion ?rules" unfolding no_left_recursion_def by (rule exI [where x = "\<lambda>_. 0"])
  show "ready ?rules [(0, 0)]"
    by (simp add: ready_def stack_ok_def pos_ok_def start_type_def elem_at_def char_type_def
        llama_grammar_is_end_of_sequence_def is_end_type_def)
qed

lemma decode_a: "decode_utf8 [97] \<lparr>pvalue = 0, n_remain = 0\<rparr> = ([97, 0], \<lparr>pvalue = 97, n_remain = 0\<rparr>)"
  by code_simp

text \<open>
  Rejection and acceptance agree.  For a piece that ends on a code point boundary, the candidate
  is rejected by \<open>llama_grammar_reject_candidates\<close> exactly when \<open>llama_grammar_accept_str\<close> would throw
  on it: what sampling lets through can be accepted, and what it masks could not.
\<close>

theorem rejected_iff_accept_throws:
  assumes "wf_rules (g_rules g)" "no_left_recursion (g_rules g)" "stacks g \<noteq> []" "\<forall>s \<in> set (stacks g). ready (g_rules g) s"
    and "decode_utf8 piece (partial_utf8 g) = (cps, p)" "0 \<notin> set (butlast cps)" "n_remain p = 0"
  shows "\<exists>F K rejects threw g'. \<forall>fuel \<ge> F. \<forall>k \<ge> K.
    llama_grammar_reject_candidates k fuel (g_rules g) (stacks g) [token_candidate (partial_utf8 g) piece i] = Some rejects \<and>
    llama_grammar_accept_str fuel piece g = Some (threw, g') \<and> (threw \<longleftrightarrow> rejects \<noteq> [])"
proof -
  let ?tok = "token_candidate (partial_utf8 g) piece i"
  have pen: "pending ?tok = butlast cps" "c_partial ?tok = p"
  proof -
    have "cps = butlast cps @ [0]" using decode_end [OF assms(5)] by (metis append_butlast_last_id)
    moreover have "takeWhile (\<lambda>c. c \<noteq> 0) (butlast cps @ [0]) = butlast cps"
      using assms(6) by (subst takeWhile_append2) auto
    ultimately show "pending ?tok = butlast cps" "c_partial ?tok = p"
      using assms(5) by (auto simp: token_candidate_def pending_def)
  qed
  have "cands_ok (length (pending ?tok)) (set [?tok])" using token_candidate_closed by (simp add: cands_ok_def)
  from reject_eventually [OF assms(1-4) this] obtain F1 R where 1: "set R = {tok \<in> set [?tok]. \<not> viable_any (g_rules g) (stacks g) tok}"
    "\<forall>fuel \<ge> F1. \<forall>k \<ge> 2 * length (pending ?tok) + 3. llama_grammar_reject_candidates k fuel (g_rules g) (stacks g) [?tok] = Some R"
    unfolding rejects_of_def by blast
  obtain F2 new where 2: "\<forall>fuel \<ge> F2. fold_opt (accept_stacks fuel (g_rules g)) (butlast cps) (stacks g) = Some new"
    using accept_list_enough [OF assms(1,2,4)] by blast
  have "(\<exists>st \<in> set new. viable (g_rules g) st [] p) \<longleftrightarrow> new \<noteq> []" using viable_done [OF assms(7)] by (cases new) auto
  then have "viable_any (g_rules g) (stacks g) ?tok \<longleftrightarrow> new \<noteq> []"
    using accept_list_viable [OF 2 [rule_format, OF order_refl], of "[]" p] pen by (simp add: viable_any_def)
  moreover have "set R = {} \<longleftrightarrow> viable_any (g_rules g) (stacks g) ?tok" unfolding 1(1) by auto
  ultimately have thr: "new = [] \<longleftrightarrow> R \<noteq> []" by simp
  have run: "llama_grammar_reject_candidates k fuel (g_rules g) (stacks g) [?tok] = Some R \<and>
      llama_grammar_accept_str fuel piece g = Some (new = [], g\<lparr>stacks := new, partial_utf8 := p\<rparr>) \<and> (new = [] \<longleftrightarrow> R \<noteq> [])"
    if "fuel \<ge> max F1 F2" "k \<ge> 2 * length (pending ?tok) + 3" for fuel k
  proof (intro conjI)
    show "llama_grammar_reject_candidates k fuel (g_rules g) (stacks g) [?tok] = Some R" using 1(2) that by auto
    show "llama_grammar_accept_str fuel piece g = Some (new = [], g\<lparr>stacks := new, partial_utf8 := p\<rparr>)"
      by (rule accept_str_stacks [OF assms(5)]) (use 2 that in auto)
  qed (rule thr)
  show ?thesis by (rule exI, rule exI, rule exI, rule exI, rule exI, intro allI impI, rule run)
qed

theorem rejected_iff_accept_throws_witness:
  "let g = \<lparr>g_rules = [[\<lparr>gtype = LLAMA_GRETYPE_CHAR, gvalue = 97\<rparr>, \<lparr>gtype = LLAMA_GRETYPE_END, gvalue = 0\<rparr>]],
       stacks = [[(0, 0)]], partial_utf8 = \<lparr>pvalue = 0, n_remain = 0\<rparr>, lazy = False, awaiting_trigger = False,
       trigger_buffer = [], trigger_tokens = [], trigger_patterns = []\<rparr>
   in \<exists>fuel k rejects threw g'.
    llama_grammar_reject_candidates k fuel (g_rules g) (stacks g) [token_candidate (partial_utf8 g) [97] 0] = Some rejects \<and>
    llama_grammar_accept_str fuel [97] g = Some (threw, g') \<and> (threw \<longleftrightarrow> rejects \<noteq> [])"
proof -
  let ?g = "\<lparr>g_rules = [[\<lparr>gtype = LLAMA_GRETYPE_CHAR, gvalue = 97\<rparr>, \<lparr>gtype = LLAMA_GRETYPE_END, gvalue = 0\<rparr>]],
       stacks = [[(0, 0)]], partial_utf8 = \<lparr>pvalue = 0, n_remain = 0\<rparr>, lazy = False, awaiting_trigger = False,
       trigger_buffer = [], trigger_tokens = [], trigger_patterns = []\<rparr> :: llama_grammar"
  have "decode_utf8 [97] (partial_utf8 ?g) = ([97, 0], \<lparr>pvalue = 97, n_remain = 0\<rparr>)" by (simp add: decode_a)
  have "\<exists>F K rejects threw g'. \<forall>fuel \<ge> F. \<forall>k \<ge> K.
    llama_grammar_reject_candidates k fuel (g_rules ?g) (stacks ?g) [token_candidate (partial_utf8 ?g) [97] 0] = Some rejects \<and>
    llama_grammar_accept_str fuel [97] ?g = Some (threw, g') \<and> (threw \<longleftrightarrow> rejects \<noteq> [])"
    by (rule rejected_iff_accept_throws [OF _ _ _ _ \<open>decode_utf8 [97] (partial_utf8 ?g) = ([97, 0], \<lparr>pvalue = 97, n_remain = 0\<rparr>)\<close>])
      (use tiny_grammar in simp_all)
  then show ?thesis unfolding Let_def by blast
qed

subsection \<open>Unfinished code points\<close>

text \<open>
  A piece may end within a code point; the bits read so far are kept with the number of bytes to come.
  Decoding keeps that number at most 3 and the bits few enough for the completed code point to fit.
\<close>

definition partial_ok :: "llama_partial_utf8 \<Rightarrow> bool" where
  "partial_ok p \<longleftrightarrow> n_remain p \<le> 3 \<and> (n_remain p > 0 \<longrightarrow> unat (pvalue p) < 2 ^ (32 - 6 * nat (n_remain p)))"

lemma cont_value:
  assumes "n > 0" "n \<le> 3" "unat v < 2 ^ (32 - 6 * nat n)"
  shows "unat (push_bit 6 v + (ucast (b :: u8) AND 0x3F) :: u32) < 2 ^ (32 - 6 * nat (n - 1))"
proof -
  have n: "n = 1 \<or> n = 2 \<or> n = 3" using assms(1,2) by auto
  have v: "unat v < 67108864" using assms(3) n by auto
  then have e: "unat (push_bit 6 v) = unat v * 64"
    by (simp add: push_bit_eq_mult unat_word_ariths)
  have "(ucast b AND 0x3F :: u32) \<le> 0x3F" by (rule word_and_le1)
  then have "unat (ucast b AND 0x3F :: u32) \<le> 63" by (simp add: word_le_nat_alt)
  moreover have "unat (push_bit 6 v + (ucast b AND 0x3F) :: u32) \<le> unat (push_bit 6 v) + unat (ucast b AND 0x3F :: u32)"
    by (simp add: unat_word_ariths)
  ultimately have "unat (push_bit 6 v + (ucast b AND 0x3F) :: u32) \<le> unat v * 64 + 63" using e by linarith
  then show ?thesis using n assms(3) by auto
qed

lemma resume_ok:
  "resume s v n = Some (v', n', s') \<Longrightarrow> n \<le> 3 \<Longrightarrow> (n > 0 \<longrightarrow> unat v < 2 ^ (32 - 6 * nat n)) \<Longrightarrow>
   n' \<le> 3 \<and> (n' > 0 \<longrightarrow> unat v' < 2 ^ (32 - 6 * nat n'))"
proof (induction s v n rule: resume.induct)
  case (2 b pos v1 n)
  then show ?case using cont_value [of n v1 b] by (auto split: if_splits)
qed auto

lemma take_cont_ok:
  "take_cont s v n = (v', n', s') \<Longrightarrow> n \<le> 3 \<Longrightarrow> (n > 0 \<longrightarrow> unat v < 2 ^ (32 - 6 * nat n)) \<Longrightarrow>
   n' \<le> 3 \<and> (n' > 0 \<longrightarrow> unat v' < 2 ^ (32 - 6 * nat n'))"
proof (induction s v n rule: take_cont.induct)
  case (2 b pos v1 n)
  then show ?case using cont_value [of n v1 b] by (auto split: if_splits)
qed auto

lemma first_n_remain_le: "first_n_remain b \<le> 3"
proof -
  have "unat (drop_bit 4 b) < 16" by (use unat_u8_less [of b] in \<open>simp add: drop_bit_eq_div unat_div\<close>)
  then have "[1, 1, 1, 1, 1, 1, 1, 1, 0, 0, 0, 0, 2, 2, 3, 4 :: int] ! unat (drop_bit 4 b) \<le> 4"
    using nth_mem [of "unat (drop_bit 4 b)" "[1, 1, 1, 1, 1, 1, 1, 1, 0, 0, 0, 0, 2, 2, 3, 4 :: int]"] by auto
  then show ?thesis by (simp add: first_n_remain_def)
qed

lemma decode_loop_ok:
  "decode_loop s codes v n = (cps, p) \<Longrightarrow> n \<le> 3 \<Longrightarrow> (n > 0 \<longrightarrow> unat v < 2 ^ (32 - 6 * nat n)) \<Longrightarrow> partial_ok p"
proof (induction s codes v n rule: decode_loop.induct)
  case (2 b pos codes v1 n)
  show ?case
  proof (cases "first_n_remain b < 0")
    case True
    then show ?thesis using 2(2) by (auto simp: Let_def partial_ok_def)
  next
    case False
    let ?v = "ucast (b AND mask (nat (7 - first_n_remain b))) :: u32"
    obtain v' n' s' where t: "take_cont pos ?v (first_n_remain b) = (v', n', s')" by (cases "take_cont pos ?v (first_n_remain b)")
    have "unat ?v < 256" using unat_u8_less [of "b AND mask (nat (7 - first_n_remain b))"] by (simp add: unsigned_ucast_eq take_bit_nat_eq_self)
    moreover have "first_n_remain b \<in> {0, 1, 2, 3}" using False first_n_remain_le [of b] by auto
    ultimately have "first_n_remain b > 0 \<longrightarrow> unat ?v < 2 ^ (32 - 6 * nat (first_n_remain b))" by auto
    from take_cont_ok [OF t first_n_remain_le this] have n': "n' \<le> 3" "n' > 0 \<longrightarrow> unat v' < 2 ^ (32 - 6 * nat n')" by auto
    show ?thesis
      by (rule 2(1) [OF refl False refl t [symmetric] refl _ n']) (use 2(2) False t in \<open>simp add: Let_def\<close>)
  qed
qed (auto simp: partial_ok_def)

lemma decode_partial_ok:
  assumes "decode_utf8 s p = (cps, p')" "partial_ok p"
  shows "partial_ok p'"
proof (cases "resume (takeWhile (\<lambda>b. b \<noteq> 0) s) (pvalue p) (n_remain p)")
  case None
  then show ?thesis using assms(1) by (auto simp: decode_utf8_def partial_ok_def)
next
  case (Some r)
  obtain v n pos where r: "r = (v, n, pos)" by (cases r)
  with resume_ok [OF Some [unfolded r]] assms(2) have "n \<le> 3" "n > 0 \<longrightarrow> unat v < 2 ^ (32 - 6 * nat n)"
    by (auto simp: partial_ok_def)
  from decode_loop_ok [OF _ this] show ?thesis using assms(1) Some r by (auto simp: decode_utf8_def)
qed

text \<open>The code points in shortest form that begin with the bits read so far.\<close>

definition completes :: "llama_partial_utf8 \<Rightarrow> u32 \<Rightarrow> bool" where
  "completes p c \<longleftrightarrow> n_remain p > 0 \<and> unat c div 64 ^ nat (n_remain p) = unat (pvalue p) \<and>
     (n_remain p = 1 \<longrightarrow> c \<ge> 0x80) \<and> (n_remain p = 2 \<longrightarrow> c \<ge> 0x800) \<and> (n_remain p = 3 \<longrightarrow> c \<ge> 0x10000)"

lemma nat_or_mask: "push_bit k a OR mask k = push_bit k a + (mask k :: nat)"
  by (subst disjunctive_add) (auto simp: bit_simps)

lemma partial_bounds:
  assumes "n_remain p = int k" "k \<in> {1, 2, 3}" "unat (pvalue p) < 2 ^ (32 - 6 * k)"
  shows "unat (partial_low p) = unat (pvalue p) * 64 ^ k" "unat (partial_high p) = unat (pvalue p) * 64 ^ k + (64 ^ k - 1)"
proof -
  have b: "unat (pvalue p) * 64 ^ k < 4294967296" "unat (pvalue p) * 64 ^ k = push_bit (6 * k) (unat (pvalue p))"
    using assms(2,3) by (auto simp: push_bit_eq_mult)
  show low: "unat (partial_low p) = unat (pvalue p) * 64 ^ k"
    using assms(1,2) b by (auto simp: partial_low_def unsigned_push_bit_eq take_bit_nat_eq_self)
  have "(push_bit (nat (n_remain p * 6)) 1 - 1 :: u32) = mask (6 * k)"
    using assms(1) by (simp add: mask_eq_exp_minus_1 push_bit_eq_mult mult.commute nat_mult_distrib)
  moreover have "unat (mask (6 * k) :: u32) = mask (6 * k)"
    using assms(2) by (auto simp: mask_eq_exp_minus_1)
  ultimately have "unat (partial_high p) = push_bit (6 * k) (unat (pvalue p)) OR mask (6 * k)"
    using low b(2) by (simp add: partial_high_def unsigned_or_eq)
  then show "unat (partial_high p) = unat (pvalue p) * 64 ^ k + (64 ^ k - 1)"
    using b(2) assms(2) nat_or_mask [of "6 * k" "unat (pvalue p)"] by (auto simp: mask_eq_exp_minus_1)
qed

lemma completes_iff:
  assumes "partial_ok p" "n_remain p > 0" "\<not> (n_remain p = 1 \<and> pvalue p < 2)"
  shows "completes p c \<longleftrightarrow> lowest_completion p \<le> c \<and> c \<le> partial_high p" "lowest_completion p \<le> partial_high p"
proof -
  obtain k where k: "n_remain p = int k" "k = 1 \<or> k = 2 \<or> k = 3" "unat (pvalue p) < 2 ^ (32 - 6 * k)"
    using assms(1,2) by (intro that [of "nat (n_remain p)"]) (auto simp: partial_ok_def)
  have b: "unat (partial_low p) = unat (pvalue p) * 64 ^ k" "unat (partial_high p) = unat (pvalue p) * 64 ^ k + (64 ^ k - 1)"
    using partial_bounds [OF k(1) _ k(3)] k(2) by auto
  have z: "partial_low p = 0 \<longleftrightarrow> unat (pvalue p) = 0" using b(1) k(2) by (auto simp: unat_eq_0 [symmetric])
  show "completes p c \<longleftrightarrow> lowest_completion p \<le> c \<and> c \<le> partial_high p"
  proof -
    have "unat c div 64 ^ k = unat (pvalue p) \<longleftrightarrow> unat (partial_low p) \<le> unat c \<and> unat c \<le> unat (partial_high p)"
      unfolding b using k(2) by auto
    moreover have "pvalue p < 2 \<longleftrightarrow> unat (pvalue p) < 2" by (simp add: word_less_nat_alt)
    ultimately show ?thesis using k assms(3) b z
      by (auto simp: completes_def lowest_completion_def word_le_nat_alt push_bit_eq_mult)
  qed
  show "lowest_completion p \<le> partial_high p"
    using k b z by (auto simp: lowest_completion_def word_le_nat_alt push_bit_eq_mult)
qed

text \<open>Every range of the grammar is written with its lower end first.\<close>

definition ordered_rule :: "rule \<Rightarrow> bool" where
  "ordered_rule r \<longleftrightarrow> successively (\<lambda>a b. gtype b = LLAMA_GRETYPE_CHAR_RNG_UPPER \<longrightarrow> gvalue a \<le> gvalue b) r"

definition ranges_ordered :: "rules \<Rightarrow> bool" where
  "ranges_ordered rules \<longleftrightarrow> (\<forall>r \<in> set rules. ordered_rule r)"

fun class_hit :: "rule \<Rightarrow> u32 \<Rightarrow> bool" where
  "class_hit (p0 # p1 # ps) c =
     (if gtype p1 = LLAMA_GRETYPE_CHAR_RNG_UPPER then
        gvalue p0 \<le> c \<and> c \<le> gvalue p1 \<or> (case ps of [] \<Rightarrow> False | p2 # _ \<Rightarrow> gtype p2 = LLAMA_GRETYPE_CHAR_ALT \<and> class_hit ps c)
      else gtype p0 = LLAMA_GRETYPE_CHAR_ANY \<or> gvalue p0 = c \<or> gtype p1 = LLAMA_GRETYPE_CHAR_ALT \<and> class_hit (p1 # ps) c)"
| "class_hit _ c = False"

lemma match_loop_hit: "match_loop ps c found n = Some (f, k) \<Longrightarrow> f \<longleftrightarrow> found \<or> class_hit ps c"
proof (induction ps c found n rule: match_loop.induct)
  case (1 p0 p1 ps c found n)
  show ?case
  proof (cases "gtype p1 = LLAMA_GRETYPE_CHAR_RNG_UPPER")
    case True
    with 1(3) obtain p2 qs where ps: "ps = p2 # qs" by (cases ps) auto
    show ?thesis using 1(1) [OF True refl ps] 1(3) True ps by (auto simp: Let_def split: if_splits)
  next
    case False
    then show ?thesis using 1(2) [OF False refl] 1(3) by (auto simp: Let_def split: if_splits)
  qed
qed auto

lemma partial_loop_hit:
  "partial_loop ps low high positive = Some b \<Longrightarrow> ordered_rule ps \<Longrightarrow> low \<le> high \<Longrightarrow>
   (gtype (hd ps) = LLAMA_GRETYPE_CHAR_ANY \<longrightarrow> positive) \<Longrightarrow>
   b \<longleftrightarrow> (\<exists>c. low \<le> c \<and> c \<le> high \<and> class_hit ps c) = positive"
proof (induction ps low high positive rule: partial_loop.induct)
  case (1 p0 p1 ps low high positive)
  show ?case
  proof (cases "gtype p1 = LLAMA_GRETYPE_CHAR_RNG_UPPER")
    case True
    with 1(3) consider (hit) "gvalue p0 \<le> high" "low \<le> gvalue p1" | (miss) p2 qs where "ps = p2 # qs" "\<not> (gvalue p0 \<le> high \<and> low \<le> gvalue p1)"
      by (cases ps) (auto split: if_splits)
    then show ?thesis
    proof cases
      case hit
      have "gvalue p0 \<le> gvalue p1" using 1(4) True by (simp add: ordered_rule_def)
      then have "\<exists>c. low \<le> c \<and> c \<le> high \<and> gvalue p0 \<le> c \<and> c \<le> gvalue p1"
        using hit 1(5) by (intro exI [of _ "max low (gvalue p0)"]) (auto simp: max_def)
      then have "\<exists>c. low \<le> c \<and> c \<le> high \<and> class_hit (p0 # p1 # ps) c" using True by auto
      then show ?thesis using hit True 1(3) by auto
    next
      case miss
      have no: "\<not> (low \<le> c \<and> c \<le> high \<and> gvalue p0 \<le> c \<and> c \<le> gvalue p1)" for c using miss(2) by auto
      show ?thesis
      proof (cases "gtype p2 = LLAMA_GRETYPE_CHAR_ALT")
        case alt: True
        have "ordered_rule ps" using 1(4) miss(1) by (auto simp: ordered_rule_def)
        then have "b \<longleftrightarrow> (\<exists>c. low \<le> c \<and> c \<le> high \<and> class_hit ps c) = positive"
          using 1(1) [OF True miss(2) miss(1) alt] 1(3,5) True miss alt by simp
        moreover have "class_hit (p0 # p1 # ps) c \<longleftrightarrow> gvalue p0 \<le> c \<and> c \<le> gvalue p1 \<or> class_hit ps c" for c
          using True miss(1) alt by simp
        ultimately show ?thesis using no by blast
      qed (use 1(3) True miss no in auto)
    qed
  next
    case False
    show ?thesis
    proof (cases "gtype p0 = LLAMA_GRETYPE_CHAR_ANY \<or> low \<le> gvalue p0 \<and> gvalue p0 \<le> high")
      case True
      then have "\<exists>c. low \<le> c \<and> c \<le> high \<and> class_hit (p0 # p1 # ps) c" using False 1(5) by auto
      then show ?thesis using True False 1(3,6) by (auto split: if_splits)
    next
      case miss: False
      then have m: "gtype p0 \<noteq> LLAMA_GRETYPE_CHAR_ANY" "\<not> (low \<le> gvalue p0 \<and> gvalue p0 \<le> high)" by auto
      show ?thesis
      proof (cases "gtype p1 = LLAMA_GRETYPE_CHAR_ALT")
        case alt: True
        have "ordered_rule (p1 # ps)" using 1(4) by (auto simp: ordered_rule_def)
        then have "b \<longleftrightarrow> (\<exists>c. low \<le> c \<and> c \<le> high \<and> class_hit (p1 # ps) c) = positive"
          using 1(2) [OF False m alt] 1(3,5) False m alt by simp
        moreover have "class_hit (p0 # p1 # ps) c \<longleftrightarrow> gvalue p0 = c \<or> class_hit (p1 # ps) c" for c
          using False m(1) alt by simp
        ultimately show ?thesis using m(2) by auto
      qed (use 1(3) False m in auto)
    qed
  qed
qed auto

text \<open>
  What \<open>llama_grammar_match_partial_char\<close> decides about an unfinished code point: it has a completion, and
  a positive class accepts some completion, a negated class every one.
\<close>

definition accepts :: "rules \<Rightarrow> position \<Rightarrow> u32 \<Rightarrow> bool" where
  "accepts rules pos c \<longleftrightarrow> (\<exists>q. llama_grammar_match_char rules pos c = Some (True, q))"

definition fits :: "rules \<Rightarrow> position \<Rightarrow> llama_partial_utf8 \<Rightarrow> bool" where
  "fits rules pos p \<longleftrightarrow> (\<exists>c. completes p c) \<and>
     (if is_positive (gtype (elem_at rules pos)) then \<exists>c. completes p c \<and> accepts rules pos c
      else \<forall>c. completes p c \<longrightarrow> accepts rules pos c)"

lemma match_partial_fits:
  assumes wf: "wf_rules rules" and pos: "pos_ok rules pos" "char_type (gtype (elem_at rules pos))"
    and o: "ranges_ordered rules" and p: "partial_ok p" "n_remain p \<noteq> 0"
  shows "llama_grammar_match_partial_char rules pos p = Some True \<longleftrightarrow> fits rules pos p"
proof (cases "n_remain p > 0 \<and> \<not> (n_remain p = 1 \<and> pvalue p < 2)")
  case False
  have "\<not> completes p c" for c
  proof
    assume "completes p c"
    then have "n_remain p = 1" "unat c div 64 = unat (pvalue p)" "unat c \<ge> 128" "\<not> unat (pvalue p) \<ge> 2"
      using False by (auto simp: completes_def word_le_nat_alt word_less_nat_alt)
    then show False by linarith
  qed
  then show ?thesis using False pos(2) p(2)
    by (auto simp: fits_def llama_grammar_match_partial_char_def Let_def)
next
  case True
  let ?ps = "drop (snd pos) (rules ! fst pos)" and ?positive = "is_positive (gtype (elem_at rules pos))"
  have cm: "completes p c \<longleftrightarrow> lowest_completion p \<le> c \<and> c \<le> partial_high p" for c
    by (rule completes_iff(1) [OF p(1)]) (use True in auto)
  have le: "lowest_completion p \<le> partial_high p" by (rule completes_iff(2) [OF p(1)]) (use True in auto)
  have lt: "snd pos < length (rules ! fst pos)" "fst pos < length rules" using pos(1) by (auto simp: pos_ok_def)
  have hd: "hd ?ps = elem_at rules pos" using lt by (simp add: hd_drop_conv_nth elem_at_def)
  have "ordered_rule (rules ! fst pos)" using o lt by (simp add: ranges_ordered_def)
  then have ord: "ordered_rule ?ps" by (auto simp: ordered_rule_def successively_conv_nth)
  obtain b where b: "partial_loop ?ps (lowest_completion p) (partial_high p) ?positive = Some b"
    using partial_loop_some [OF class_suffix [OF wf pos]] by blast
  have any: "gtype (hd ?ps) = LLAMA_GRETYPE_CHAR_ANY \<longrightarrow> ?positive" using hd by (simp add: is_positive_def)
  have "llama_grammar_match_partial_char rules pos p = Some b"
    using b True pos(2) by (auto simp: llama_grammar_match_partial_char_def Let_def lowest_completion_def char_type_def is_positive_def)
  moreover have "b \<longleftrightarrow> (\<exists>c. completes p c \<and> class_hit ?ps c) = ?positive"
    using partial_loop_hit [OF b ord le any] cm by simp
  moreover have "accepts rules pos c \<longleftrightarrow> class_hit ?ps c = ?positive" for c
  proof -
    obtain m q where m: "llama_grammar_match_char rules pos c = Some (m, q)" using match_ok [OF wf pos] by blast
    then obtain f k where "match_loop ?ps c False 0 = Some (f, k)" "m \<longleftrightarrow> f = ?positive"
      by (auto simp: llama_grammar_match_char_def Let_def split: if_splits option.splits)
    then show ?thesis using match_loop_hit [of ?ps c False 0 f k] m by (auto simp: accepts_def)
  qed
  moreover have "\<exists>c. completes p c" using cm le by blast
  ultimately show ?thesis by (auto simp: fits_def)
qed

text \<open>
  \<open>can_consume rules st cs p\<close>: the stack can consume the code points \<open>cs\<close>, one after the other, each
  accepted by the character class on top, and if the text breaks off within a code point the class then on
  top fits what has been read of it.
\<close>

inductive can_consume :: "rules \<Rightarrow> stack \<Rightarrow> u32 list \<Rightarrow> llama_partial_utf8 \<Rightarrow> bool" for rules where
  consume_done: "n_remain p = 0 \<Longrightarrow> can_consume rules st [] p"
| consume_partial: "n_remain p \<noteq> 0 \<Longrightarrow> fits rules pos p \<Longrightarrow> can_consume rules (st @ [pos]) [] p"
| consume_step: "llama_grammar_match_char rules pos c = Some (True, q) \<Longrightarrow>
    expand rules (push_unless_end rules q st) st' \<Longrightarrow> can_consume rules st' cs p \<Longrightarrow> can_consume rules (st @ [pos]) (c # cs) p"

lemma expand_ready:
  assumes wf: "wf_rules rules"
  shows "expand rules st s \<Longrightarrow> stack_ok rules st \<Longrightarrow> ready rules s"
proof (induction rule: expand.induct)
  case (expand_ref p q st s)
  then have "stack_ok rules st" "pos_ok rules p" by (auto simp: stack_ok_def)
  then show ?case
    using expand_ref push_ok next_ok [OF wf _ expand_ref(1)] alternates_ok [OF wf ref_ok [OF wf _ expand_ref(1)] expand_ref(2)] by blast
qed (auto simp: ready_def)

lemma viable_can_consume:
  assumes wf: "wf_rules rules" and o: "ranges_ordered rules" and p: "partial_ok p"
  shows "ready rules st \<Longrightarrow> viable rules st cs p \<longleftrightarrow> can_consume rules st cs p"
proof (induction cs arbitrary: st)
  case Nil
  show ?case
  proof (cases "n_remain p = 0 \<or> st = []")
    case True
    then show ?thesis by (auto intro: viable_done consume_done elim: viable.cases can_consume.cases)
  next
    case False
    then obtain base pos where st: "st = base @ [pos]" by (metis append_butlast_last_id)
    then have "pos_ok rules pos" "char_type (gtype (elem_at rules pos))" using Nil by (auto simp: ready_def stack_ok_def)
    note f = match_partial_fits [OF wf this o p]
    have "can_consume rules st [] p \<longleftrightarrow> fits rules pos p"
      unfolding st using False by (auto intro: consume_partial elim: can_consume.cases)
    then show ?thesis using False f by (simp add: st viable_snoc_Nil)
  qed
next
  case (Cons c cs)
  have nxt: "ready rules st'" if "st = base @ [pos]" "llama_grammar_match_char rules pos c = Some (True, q)"
    "expand rules (push_unless_end rules q base) st'" for base pos q st'
  proof -
    have ok: "pos_ok rules pos" "char_type (gtype (elem_at rules pos))" "stack_ok rules base"
      using Cons.prems that(1) by (auto simp: ready_def stack_ok_def)
    then have "pos_ok rules q" using match_ok [OF wf ok(1,2), of c] that(2) by auto
    then show ?thesis using expand_ready [OF wf that(3)] push_ok [OF ok(3)] by blast
  qed
  show ?case
  proof
    assume "viable rules st (c # cs) p"
    then show "can_consume rules st (c # cs) p"
      by (cases rule: viable.cases) (use nxt Cons.IH in \<open>blast intro: consume_step\<close>)
  next
    assume "can_consume rules st (c # cs) p"
    then show "viable rules st (c # cs) p"
      by (cases rule: can_consume.cases) (use nxt Cons.IH in \<open>blast intro: viable_step\<close>)
  qed
qed

subsection \<open>Masking of tokens\<close>

definition masked_early :: "grammar_env \<Rightarrow> bool \<Rightarrow> int \<Rightarrow> bool" where
  "masked_early env allow_eog tid \<longleftrightarrow> (if is_eog env tid then \<not> allow_eog
     else token_to_piece env tid = [] \<or> token_to_piece env tid ! 0 = 0)"

definition goes_to_grammar :: "grammar_env \<Rightarrow> int \<Rightarrow> bool" where
  "goes_to_grammar env tid \<longleftrightarrow> \<not> is_eog env tid \<and> token_to_piece env tid \<noteq> [] \<and> token_to_piece env tid ! 0 \<noteq> 0"

lemma apply_fold:
  "fold (apply_token env g al) ps (cur, cs) = (cur', cs') \<Longrightarrow> \<forall>(i, tok) \<in> set ps. t_id (cur ! i) = t_id tok \<and> (t_masked tok \<longrightarrow> t_masked (cur ! i)) \<Longrightarrow>
   length cur' = length cur \<and>
   (\<forall>j < length cur. t_id (cur' ! j) = t_id (cur ! j) \<and>
      (t_masked (cur' ! j) \<longleftrightarrow> t_masked (cur ! j) \<or> (j \<in> set (map fst ps) \<and> masked_early env al (t_id (cur ! j))))) \<and>
   cs' = cs @ map (\<lambda>(i, tok). token_candidate (partial_utf8 g) (token_to_piece env (t_id tok)) i)
      (filter (\<lambda>(i, tok). goes_to_grammar env (t_id tok)) ps)"
proof (induction ps arbitrary: cur cs)
  case (Cons p ps)
  obtain i tok where p: "p = (i, tok)" by force
  obtain c1 s1 where s: "apply_token env g al (i, tok) (cur, cs) = (c1, s1)" by force
  have c1: "c1 = (if masked_early env al (t_id tok) then cur[i := tok\<lparr>t_masked := True\<rparr>] else cur)"
    "s1 = (if goes_to_grammar env (t_id tok) then cs @ [token_candidate (partial_utf8 g) (token_to_piece env (t_id tok)) i] else cs)"
    using s by (auto simp: apply_token_def masked_early_def goes_to_grammar_def Let_def split: if_splits)
  have it: "t_id (cur ! i) = t_id tok" using Cons.prems(2) p by auto
  have c1_nth: "length c1 = length cur" "\<And>j. j < length cur \<Longrightarrow> t_id (c1 ! j) = t_id (cur ! j)"
    "\<And>j. j < length cur \<Longrightarrow> t_masked (c1 ! j) \<longleftrightarrow> t_masked (cur ! j) \<or> (j = i \<and> masked_early env al (t_id (cur ! j)))"
    using it by (auto simp: c1(1) nth_upd_if)
  have keep: "\<forall>(i, tok) \<in> set ps. t_id (c1 ! i) = t_id tok \<and> (t_masked tok \<longrightarrow> t_masked (c1 ! i))"
  proof clarify
    fix i' tok' assume m: "(i', tok') \<in> set ps"
    then have "t_id (cur ! i') = t_id tok' \<and> (t_masked tok' \<longrightarrow> t_masked (cur ! i'))" using Cons.prems(2) by auto
    then show "t_id (c1 ! i') = t_id tok' \<and> (t_masked tok' \<longrightarrow> t_masked (c1 ! i'))"
      using it by (cases "i < length cur"; cases "i = i'") (auto simp: c1(1) list_update_beyond)
  qed
  have "fold (apply_token env g al) ps (c1, s1) = (cur', cs')" using Cons.prems(1) s p by simp
  from Cons.IH [OF this keep] show ?case using c1_nth c1(2) p by auto
qed auto

lemma mask_fold:
  "\<forall>i \<in> set is. i < length cur \<Longrightarrow> length (fold mask_token is cur) = length cur \<and>
   (\<forall>j < length cur. t_id (fold mask_token is cur ! j) = t_id (cur ! j) \<and>
     (t_masked (fold mask_token is cur ! j) \<longleftrightarrow> t_masked (cur ! j) \<or> j \<in> set is))"
proof (induction "is" arbitrary: cur)
  case (Cons i "is")
  have "length (mask_token i cur) = length cur" by (simp add: mask_token_def)
  with Cons show ?case by (auto simp: mask_token_def nth_list_update)
qed simp

text \<open>
  C3: \<open>llama_grammar_apply_impl\<close> returns, whatever the vocabulary, and masks exactly these tokens on
  top of those masked before: an end-of-generation token when no stack is complete, a token with an
  empty piece or one that starts with NUL, and a token that no stack of the grammar can consume, that
  is, match character by character, where a code point left unfinished at the end must have a
  completion that the next class accepts if the class is positive, and only completions that it accepts
  if the class is negated.  It changes nothing else.  This holds for a well-formed grammar without left
  recursion whose ranges are written with the lower end first, with a non-empty set of stacks, each empty
  or at a character, a partial code point as decoding leaves it, and no trigger awaited.
\<close>

theorem grammar_apply_masks_exactly:
  assumes "wf_rules (g_rules g)" "no_left_recursion (g_rules g)" "stacks g \<noteq> []" "\<forall>s \<in> set (stacks g). ready (g_rules g) s"
    and "ranges_ordered (g_rules g)" "partial_ok (partial_utf8 g)" "\<not> awaiting_trigger g"
  shows "\<exists>F K out. \<forall>fuel \<ge> F. \<forall>k \<ge> K. llama_grammar_apply_impl k fuel env g cur_p = Some out \<and> length out = length cur_p \<and>
    (\<forall>i < length cur_p. t_id (out ! i) = t_id (cur_p ! i) \<and>
      (t_masked (out ! i) \<longleftrightarrow> t_masked (cur_p ! i) \<or>
        (let tid = t_id (cur_p ! i); tok = token_candidate (partial_utf8 g) (token_to_piece env tid) i in
         if is_eog env tid then [] \<notin> set (stacks g)
         else token_to_piece env tid = [] \<or> token_to_piece env tid ! 0 = 0 \<or>
           (\<forall>st \<in> set (stacks g). \<not> can_consume (g_rules g) st (pending tok) (c_partial tok)))))"
proof -
  let ?al = "list_ex (\<lambda>st. st = []) (stacks g)"
  have al: "?al \<longleftrightarrow> [] \<in> set (stacks g)" by (auto simp: list_ex_iff)
  obtain cur' cs where f: "fold (apply_token env g ?al) (enumerate 0 cur_p) (cur_p, []) = (cur', cs)" by force
  have pre: "\<forall>(i, tok) \<in> set (enumerate 0 cur_p). t_id (cur_p ! i) = t_id tok \<and> (t_masked tok \<longrightarrow> t_masked (cur_p ! i))"
    by (auto simp: in_set_enumerate_eq)
  note a = apply_fold [OF f pre]
  let ?cand = "\<lambda>i. token_candidate (partial_utf8 g) (token_to_piece env (t_id (cur_p ! i))) i"
  have cs: "set cs = ?cand ` {i. i < length cur_p \<and> goes_to_grammar env (t_id (cur_p ! i))}"
    using a by (auto simp: in_set_enumerate_eq image_iff)
  define n where "n = Max (set (map (\<lambda>tok. length (pending tok)) cs))"
  have "cands_ok n (set cs)"
    unfolding cands_ok_def
  proof
    fix tok assume t: "tok \<in> set cs"
    then have "closed_cand tok" using cs token_candidate_closed by auto
    moreover have "length (pending tok) \<le> n" unfolding n_def by (rule Max_ge) (use t in auto)
    ultimately show "closed_cand tok \<and> length (pending tok) \<le> n" ..
  qed
  from reject_eventually [OF assms(1-4) this] obtain F R where
    R: "set R = {tok \<in> set cs. \<not> viable_any (g_rules g) (stacks g) tok}"
    "\<forall>fuel \<ge> F. \<forall>k \<ge> 2 * n + 3. llama_grammar_reject_candidates k fuel (g_rules g) (stacks g) cs = Some R"
    unfolding rejects_of_def by blast
  let ?is = "map c_index R"
  have idx: "c_index (?cand i) = i" for i by (simp add: token_candidate_def split: prod.splits)
  have is_set: "i \<in> set ?is \<longleftrightarrow> i < length cur_p \<and> goes_to_grammar env (t_id (cur_p ! i)) \<and> \<not> viable_any (g_rules g) (stacks g) (?cand i)" for i
    using R(1) cs idx by (auto simp: image_iff)
  have fm: "fold (\<lambda>reject. mask_token (c_index reject)) R cur' = fold mask_token ?is cur'" by (simp add: fold_map o_def)
  have "\<forall>i \<in> set ?is. i < length cur'" using is_set a by simp
  note m = mask_fold [OF this]
  have spec: "viable (g_rules g) st (pending (?cand i)) (c_partial (?cand i)) \<longleftrightarrow>
      can_consume (g_rules g) st (pending (?cand i)) (c_partial (?cand i))" if "st \<in> set (stacks g)" for st i
  proof (rule viable_can_consume [OF assms(1,5)])
    show "partial_ok (c_partial (?cand i))"
      using decode_partial_ok [OF _ assms(6)] by (auto simp: token_candidate_def split: prod.splits)
    show "ready (g_rules g) st" using assms(4) that by blast
  qed
  have run: "llama_grammar_apply_impl k fuel env g cur_p = Some (fold mask_token ?is cur')" if "fuel \<ge> F" "k \<ge> 2 * n + 3" for fuel k
    using R(2) that assms(7) f fm by (simp add: llama_grammar_apply_impl_def)
  have len: "length (fold mask_token ?is cur') = length cur_p" using m a by simp
  have each: "t_id (fold mask_token ?is cur' ! i) = t_id (cur_p ! i) \<and>
      (t_masked (fold mask_token ?is cur' ! i) \<longleftrightarrow> t_masked (cur_p ! i) \<or>
        (let tid = t_id (cur_p ! i); tok = token_candidate (partial_utf8 g) (token_to_piece env tid) i in
         if is_eog env tid then [] \<notin> set (stacks g)
         else token_to_piece env tid = [] \<or> token_to_piece env tid ! 0 = 0 \<or>
           (\<forall>st \<in> set (stacks g). \<not> can_consume (g_rules g) st (pending tok) (c_partial tok))))" if i: "i < length cur_p" for i
  proof -
    have "i \<in> set (map fst (enumerate 0 cur_p))" using i by simp
    then show ?thesis using m a i is_set [of i] al spec [of _ i]
      by (auto simp: Let_def masked_early_def goes_to_grammar_def viable_any_def)
  qed
  show ?thesis
    by (rule exI, rule exI, rule exI, intro allI impI conjI, rule run) (assumption | rule len | rule each [THEN conjunct1] | rule each [THEN conjunct2])+
qed

lemma decode_b: "decode_utf8 [98] \<lparr>pvalue = 0, n_remain = 0\<rparr> = ([98, 0], \<lparr>pvalue = 98, n_remain = 0\<rparr>)"
  by code_simp

lemma tiny_consume:
  assumes "p = \<lparr>pvalue = v, n_remain = 0\<rparr>"
  shows "can_consume [[\<lparr>gtype = LLAMA_GRETYPE_CHAR, gvalue = 97\<rparr>, \<lparr>gtype = LLAMA_GRETYPE_END, gvalue = 0\<rparr>]] [(0, 0)] [c] p \<longleftrightarrow> c = 97"
proof -
  let ?rules = "[[\<lparr>gtype = LLAMA_GRETYPE_CHAR, gvalue = 97\<rparr>, \<lparr>gtype = LLAMA_GRETYPE_END, gvalue = (0 :: u32)\<rparr>]]"
  have m: "llama_grammar_match_char ?rules (0, 0) c = Some (97 = c, (0, Suc 0))"
    by (simp add: llama_grammar_match_char_def elem_at_def is_positive_def next_pos_def)
  show ?thesis
  proof
    assume "can_consume ?rules [(0, 0)] [c] p"
    then show "c = 97" by (cases rule: can_consume.cases) (use m in auto)
  next
    assume "c = 97"
    have "push_unless_end ?rules (0, Suc 0) [] = []"
      by (simp add: push_unless_end_def llama_grammar_is_end_of_sequence_def elem_at_def is_end_type_def)
    then have "can_consume ?rules ([] @ [(0, 0)]) [c] p"
      using assms m \<open>c = 97\<close> by (intro consume_step [of _ _ _ "(0, Suc 0)" _ "[]"] consume_done) (auto simp: expand_stop)
    then show "can_consume ?rules [(0, 0)] [c] p" by simp
  qed
qed

theorem grammar_apply_masks_exactly_witness:
  "let g = \<lparr>g_rules = [[\<lparr>gtype = LLAMA_GRETYPE_CHAR, gvalue = 97\<rparr>, \<lparr>gtype = LLAMA_GRETYPE_END, gvalue = 0\<rparr>]],
       stacks = [[(0, 0)]], partial_utf8 = \<lparr>pvalue = 0, n_remain = 0\<rparr>, lazy = False, awaiting_trigger = False,
       trigger_buffer = [], trigger_tokens = [], trigger_patterns = []\<rparr>;
       env = \<lparr>token_to_piece = (\<lambda>t. if t = 0 then [97] else [98]), is_eog = (\<lambda>t. t = 2), regex_match = (\<lambda>_ _. None)\<rparr>
   in \<exists>fuel k out. llama_grammar_apply_impl k fuel env g
        [\<lparr>t_id = 0, t_masked = False\<rparr>, \<lparr>t_id = 1, t_masked = False\<rparr>, \<lparr>t_id = 2, t_masked = False\<rparr>] = Some out \<and>
      \<not> t_masked (out ! 0) \<and> t_masked (out ! 1) \<and> t_masked (out ! 2)"
proof -
  let ?g = "\<lparr>g_rules = [[\<lparr>gtype = LLAMA_GRETYPE_CHAR, gvalue = 97\<rparr>, \<lparr>gtype = LLAMA_GRETYPE_END, gvalue = 0\<rparr>]],
       stacks = [[(0, 0)]], partial_utf8 = \<lparr>pvalue = 0, n_remain = 0\<rparr>, lazy = False, awaiting_trigger = False,
       trigger_buffer = [], trigger_tokens = [], trigger_patterns = []\<rparr> :: llama_grammar"
  let ?env = "\<lparr>token_to_piece = (\<lambda>t. if t = 0 then [97] else [98]), is_eog = (\<lambda>t. t = 2), regex_match = (\<lambda>_ _. None)\<rparr>"
  let ?cur = "[\<lparr>t_id = 0, t_masked = False\<rparr>, \<lparr>t_id = 1, t_masked = False\<rparr>, \<lparr>t_id = 2, t_masked = False\<rparr>]"
  have "wf_rules (g_rules ?g)" "no_left_recursion (g_rules ?g)" "stacks ?g \<noteq> []" "\<forall>s \<in> set (stacks ?g). ready (g_rules ?g) s"
    "ranges_ordered (g_rules ?g)" "partial_ok (partial_utf8 ?g)" "\<not> awaiting_trigger ?g"
    using tiny_grammar by (simp_all add: ranges_ordered_def ordered_rule_def partial_ok_def)
  from grammar_apply_masks_exactly [OF this, of ?env ?cur] obtain F K out where
    out: "llama_grammar_apply_impl K F ?env ?g ?cur = Some out" and
    each: "\<forall>i < length ?cur. t_masked (out ! i) \<longleftrightarrow> t_masked (?cur ! i) \<or>
        (let tid = t_id (?cur ! i); tok = token_candidate (partial_utf8 ?g) (token_to_piece ?env tid) i in
         if is_eog ?env tid then [] \<notin> set (stacks ?g)
         else token_to_piece ?env tid = [] \<or> token_to_piece ?env tid ! 0 = 0 \<or>
           (\<forall>st \<in> set (stacks ?g). \<not> can_consume (g_rules ?g) st (pending tok) (c_partial tok)))"
    by (metis order_refl)
  have "\<not> t_masked (out ! 0)" using each [rule_format, of 0]
    by (simp add: token_candidate_def decode_a pending_def tiny_consume)
  moreover have "t_masked (out ! 1)" using each [rule_format, of 1]
    by (simp add: token_candidate_def decode_b pending_def tiny_consume)
  moreover have "t_masked (out ! 2)" using each [rule_format, of 2] by simp
  ultimately show ?thesis using out unfolding Let_def by blast
qed

end
