(* ===== verification/Grammar_Parse.thy ===== *)
theory Grammar_Parse
  imports Grammar_Lang
begin

text \<open>
  The parser of the grammar notation (\<open>llama_grammar_parser\<close> in \<open>llama-grammar.cpp\<close>) and the
  construction of a grammar from its text.  A pointer into the source is the rest of the text, the
  terminating NUL is the empty list (\<open>peek\<close>); exceptions are values of \<open>parse_error\<close>.  Loops over
  the text and the recursion through parentheses share one fuel counter.
\<close>

subsection \<open>Lexical functions\<close>

datatype parse_error = Expecting_hex | Unknown_escape | Unexpected_end | Expecting_name | Expecting_int
  | Expecting_item | Expecting_paren | Expecting_brace | Expecting_comma | Expecting_assign
  | Expecting_newline | Undefined_rule | Undefined_identifier | Number_out_of_range | Out_of_fuel

definition peek :: "bytes \<Rightarrow> u8" where
  "peek pos = (case pos of [] \<Rightarrow> 0 | c # _ \<Rightarrow> c)"

definition is_digit_char :: "u8 \<Rightarrow> bool" where
  "is_digit_char c \<longleftrightarrow> 48 \<le> c \<and> c \<le> 57"

definition is_word_char :: "u8 \<Rightarrow> bool" where
  "is_word_char c \<longleftrightarrow> (97 \<le> c \<and> c \<le> 122) \<or> (65 \<le> c \<and> c \<le> 90) \<or> c = 45 \<or> is_digit_char c"

definition hex_digit :: "u8 \<Rightarrow> u32 option" where
  "hex_digit c = (if 97 \<le> c \<and> c \<le> 102 then Some (ucast c - 97 + 10)
     else if 65 \<le> c \<and> c \<le> 70 then Some (ucast c - 65 + 10)
     else if 48 \<le> c \<and> c \<le> 57 then Some (ucast c - 48) else None)"

fun parse_hex :: "nat \<Rightarrow> bytes \<Rightarrow> u32 \<Rightarrow> parse_error + u32 \<times> bytes" where
  "parse_hex 0 pos value = Inr (value, pos)"
| "parse_hex (Suc n) [] value = Inl Expecting_hex"
| "parse_hex (Suc n) (c # pos) value =
     (case hex_digit c of None \<Rightarrow> Inl Expecting_hex | Some d \<Rightarrow> parse_hex n pos (push_bit 4 value + d))"

text \<open>\<open>in_comment\<close> is the inner loop that skips a comment up to the end of its line.\<close>

fun space_loop :: "bool \<Rightarrow> bool \<Rightarrow> bytes \<Rightarrow> bytes" where
  "space_loop newline_ok in_comment [] = []"
| "space_loop newline_ok in_comment (c # pos) =
     (if in_comment \<and> c \<noteq> 13 \<and> c \<noteq> 10 then space_loop newline_ok True pos
      else if c = 32 \<or> c = 9 then space_loop newline_ok False pos
      else if c = 35 then space_loop newline_ok True pos
      else if newline_ok \<and> (c = 13 \<or> c = 10) then space_loop newline_ok False pos
      else c # pos)"

definition parse_space :: "bytes \<Rightarrow> bool \<Rightarrow> bytes" where
  "parse_space src newline_ok = space_loop newline_ok False src"

definition parse_name :: "bytes \<Rightarrow> parse_error + bytes \<times> bytes" where
  "parse_name src = (let name = takeWhile is_word_char src in
     if name = [] then Inl Expecting_name else Inr (name, dropWhile is_word_char src))"

definition parse_int :: "bytes \<Rightarrow> parse_error + bytes \<times> bytes" where
  "parse_int src = (let digits = takeWhile is_digit_char src in
     if digits = [] then Inl Expecting_int else Inr (digits, dropWhile is_digit_char src))"

definition parse_char :: "bytes \<Rightarrow> parse_error + u32 \<times> bytes" where
  "parse_char src =
     (if peek src = 92 then
        (let c = peek (drop 1 src); pos = drop 2 src in
         if c = 120 then parse_hex 2 pos 0
         else if c = 117 then parse_hex 4 pos 0
         else if c = 85 then parse_hex 8 pos 0
         else if c = 116 then Inr (9, pos)
         else if c = 114 then Inr (13, pos)
         else if c = 110 then Inr (10, pos)
         else if c = 92 \<or> c = 34 \<or> c = 91 \<or> c = 93 then Inr (ucast c, pos)
         else Inl Unknown_escape)
      else if peek src \<noteq> 0 then Inr (decode_utf8_at src)
      else Inl Unexpected_end)"

text \<open>\<open>std::stoul\<close> on digits, then the conversion to \<open>int\<close>.\<close>

definition digits_value :: "bytes \<Rightarrow> nat" where
  "digits_value ds = foldl (\<lambda>n d. 10 * n + (unat d - 48)) 0 ds"

definition parse_times :: "bytes \<Rightarrow> parse_error + int" where
  "parse_times ds = (if int (digits_value ds) < 2 ^ 64 then Inr (sint (of_nat (digits_value ds) :: u32))
     else Inl Number_out_of_range)"

subsection \<open>Symbols and rules\<close>

record grammar_parser =
  symbol_ids :: "(bytes \<times> u32) list"
  p_rules :: rules

definition elem :: "llama_gretype \<Rightarrow> u32 \<Rightarrow> llama_grammar_element" where
  "elem ty v = \<lparr>gtype = ty, gvalue = v\<rparr>"

definition get_symbol_id :: "bytes \<Rightarrow> grammar_parser \<Rightarrow> u32 \<times> grammar_parser" where
  "get_symbol_id name p = (case map_of (symbol_ids p) name of
       Some i \<Rightarrow> (i, p)
     | None \<Rightarrow> let next_id = of_nat (length (symbol_ids p))
               in (next_id, p\<lparr>symbol_ids := symbol_ids p @ [(name, next_id)]\<rparr>))"

fun to_decimal :: "nat \<Rightarrow> bytes" where
  "to_decimal n = (if n < 10 then [48 + of_nat n] else to_decimal (n div 10) @ [48 + of_nat (n mod 10)])"

declare to_decimal.simps [simp del]

definition generate_symbol_id :: "bytes \<Rightarrow> grammar_parser \<Rightarrow> u32 \<times> grammar_parser" where
  "generate_symbol_id base_name p =
     (let next_id = of_nat (length (symbol_ids p)); name = base_name @ [95] @ to_decimal (unat next_id) in
      (next_id, if map_of (symbol_ids p) name \<noteq> None
                then p\<lparr>symbol_ids := map (\<lambda>(k, v). (k, if k = name then next_id else v)) (symbol_ids p)\<rparr>
                else p\<lparr>symbol_ids := symbol_ids p @ [(name, next_id)]\<rparr>))"

definition add_rule :: "u32 \<Rightarrow> rule \<Rightarrow> grammar_parser \<Rightarrow> grammar_parser" where
  "add_rule rule_id r p = p\<lparr>p_rules :=
     (p_rules p @ replicate (Suc (unat rule_id) - length (p_rules p)) [])[unat rule_id := r]\<rparr>"

subsection \<open>Repetitions\<close>

fun opt_rules :: "nat \<Rightarrow> bytes \<Rightarrow> bool \<Rightarrow> rule \<Rightarrow> bool \<Rightarrow> u32 \<Rightarrow> grammar_parser \<Rightarrow> u32 \<times> grammar_parser" where
  "opt_rules 0 name unbounded prev_rule later last_id p = (last_id, p)"
| "opt_rules (Suc n) name unbounded prev_rule later last_id p =
     (case generate_symbol_id name p of (rec_rule_id, p1) \<Rightarrow>
        let rec_rule = prev_rule
              @ (if later \<or> unbounded then [elem LLAMA_GRETYPE_RULE_REF (if unbounded then rec_rule_id else last_id)] else [])
              @ [elem LLAMA_GRETYPE_ALT 0, elem LLAMA_GRETYPE_END 0]
        in opt_rules n name unbounded prev_rule True rec_rule_id (add_rule rec_rule_id rec_rule p1))"

definition handle_repetitions :: "bytes \<Rightarrow> int \<Rightarrow> int \<Rightarrow> nat \<Rightarrow> rule \<Rightarrow> grammar_parser \<Rightarrow> parse_error + rule \<times> grammar_parser" where
  "handle_repetitions name min_times max_times last_sym_start r p =
     (if last_sym_start = length r then Inl Expecting_item
      else let prev_rule = drop last_sym_start r;
               r1 = (if min_times = 0 then take last_sym_start r
                     else r @ concat (replicate (nat (min_times - 1)) prev_rule));
               n_opt = (if max_times < 0 then 1 else max_times - min_times)
           in case opt_rules (nat n_opt) name (max_times < 0) prev_rule False 0 p of (last_id, p1) \<Rightarrow>
             Inr (if n_opt > 0 then r1 @ [elem LLAMA_GRETYPE_RULE_REF last_id] else r1, p1))"

subsection \<open>Sequences\<close>

text \<open>\<open>on_ok res f\<close>: go on with \<open>f\<close> unless an exception was thrown.\<close>

definition on_ok :: "parse_error + 'a \<Rightarrow> ('a \<Rightarrow> parse_error + 'b) \<Rightarrow> parse_error + 'b" where
  "on_ok res f = (case res of Inl e \<Rightarrow> Inl e | Inr x \<Rightarrow> f x)"

fun literal_loop :: "nat \<Rightarrow> bytes \<Rightarrow> rule \<Rightarrow> parse_error + bytes \<times> rule" where
  "literal_loop 0 pos r = Inl Out_of_fuel"
| "literal_loop (Suc k) pos r =
     (if peek pos = 34 then Inr (tl pos, r)
      else if peek pos = 0 then Inl Unexpected_end
      else case parse_char pos of Inl e \<Rightarrow> Inl e
        | Inr (c, pos') \<Rightarrow> literal_loop k pos' (r @ [elem LLAMA_GRETYPE_CHAR c]))"

fun class_loop :: "nat \<Rightarrow> bytes \<Rightarrow> llama_gretype \<Rightarrow> nat \<Rightarrow> rule \<Rightarrow> parse_error + bytes \<times> rule" where
  "class_loop 0 pos start_ty last_sym_start r = Inl Out_of_fuel"
| "class_loop (Suc k) pos start_ty last_sym_start r =
     (if peek pos = 93 then Inr (tl pos, r)
      else if peek pos = 0 then Inl Unexpected_end
      else case parse_char pos of Inl e \<Rightarrow> Inl e
        | Inr (c, pos') \<Rightarrow>
          let ty = (if last_sym_start < length r then LLAMA_GRETYPE_CHAR_ALT else start_ty); r' = r @ [elem ty c] in
          if peek pos' = 45 \<and> peek (drop 1 pos') \<noteq> 93 then
            (if peek (drop 1 pos') = 0 then Inl Unexpected_end
             else case parse_char (drop 1 pos') of Inl e \<Rightarrow> Inl e
               | Inr (c', pos'') \<Rightarrow> class_loop k pos'' start_ty last_sym_start (r' @ [elem LLAMA_GRETYPE_CHAR_RNG_UPPER c']))
          else class_loop k pos' start_ty last_sym_start r')"

text \<open>The bounds of \<open>{m,n}\<close>, after the opening brace and white space.\<close>

definition parse_bounds :: "bytes \<Rightarrow> bool \<Rightarrow> parse_error + int \<times> int \<times> bytes" where
  "parse_bounds pos is_nested =
     (if \<not> is_digit_char (peek pos) then Inl Expecting_int
      else on_ok (parse_int pos) (\<lambda>(ds, int_end). on_ok (parse_times ds) (\<lambda>min_times.
        let pos1 = parse_space int_end is_nested in
        if peek pos1 = 125 then Inr (min_times, min_times, parse_space (tl pos1) is_nested)
        else if peek pos1 = 44 then
          let pos2 = parse_space (tl pos1) is_nested in
          on_ok (if is_digit_char (peek pos2) then
                   on_ok (parse_int pos2) (\<lambda>(ds', int_end'). on_ok (parse_times ds') (\<lambda>m.
                     Inr (m, parse_space int_end' is_nested)))
                 else Inr (- 1, pos2)) (\<lambda>(max_times, pos3).
             if peek pos3 \<noteq> 125 then Inl Expecting_brace
             else Inr (min_times, max_times, parse_space (tl pos3) is_nested))
        else Inl Expecting_comma)))"

text \<open>One turn of the loop for everything but a group; \<open>Inr None\<close> is the \<open>break\<close>.\<close>

type_synonym turn = "(bytes \<times> nat \<times> rule \<times> grammar_parser) option"

definition repeat_item :: "bytes \<Rightarrow> bytes \<Rightarrow> int \<Rightarrow> int \<Rightarrow> nat \<Rightarrow> rule \<Rightarrow> grammar_parser \<Rightarrow> parse_error + turn" where
  "repeat_item pos name min_times max_times last_sym_start r p =
     on_ok (handle_repetitions name min_times max_times last_sym_start r p)
       (\<lambda>(r', p'). Inr (Some (pos, last_sym_start, r', p')))"

definition seq_item :: "nat \<Rightarrow> bytes \<Rightarrow> bytes \<Rightarrow> bool \<Rightarrow> nat \<Rightarrow> rule \<Rightarrow> grammar_parser \<Rightarrow> parse_error + turn" where
  "seq_item k pos name is_nested last_sym_start r p =
     (if peek pos = 34 then
        on_ok (literal_loop k (tl pos) r) (\<lambda>(pos', r'). Inr (Some (parse_space pos' is_nested, length r, r', p)))
      else if peek pos = 91 then
        (let neg = peek (tl pos) = 94;
             start_ty = (if neg then LLAMA_GRETYPE_CHAR_NOT else LLAMA_GRETYPE_CHAR) in
         on_ok (class_loop k (if neg then drop 2 pos else tl pos) start_ty (length r) r)
           (\<lambda>(pos', r'). Inr (Some (parse_space pos' is_nested, length r, r', p))))
      else if is_word_char (peek pos) then
        on_ok (parse_name pos) (\<lambda>(nm, name_end). case get_symbol_id nm p of (ref_rule_id, p') \<Rightarrow>
          Inr (Some (parse_space name_end is_nested, length r, r @ [elem LLAMA_GRETYPE_RULE_REF ref_rule_id], p')))
      else if peek pos = 46 then
        Inr (Some (parse_space (tl pos) is_nested, length r, r @ [elem LLAMA_GRETYPE_CHAR_ANY 0], p))
      else if peek pos = 42 then repeat_item (parse_space (tl pos) is_nested) name 0 (- 1) last_sym_start r p
      else if peek pos = 43 then repeat_item (parse_space (tl pos) is_nested) name 1 (- 1) last_sym_start r p
      else if peek pos = 63 then repeat_item (parse_space (tl pos) is_nested) name 0 1 last_sym_start r p
      else if peek pos = 123 then
        on_ok (parse_bounds (parse_space (tl pos) is_nested) is_nested) (\<lambda>(min_times, max_times, pos').
          repeat_item pos' name min_times max_times last_sym_start r p)
      else Inr None)"

fun parse_alternates :: "nat \<Rightarrow> bytes \<Rightarrow> bytes \<Rightarrow> u32 \<Rightarrow> bool \<Rightarrow> grammar_parser \<Rightarrow> parse_error + bytes \<times> grammar_parser"
and more_alternates :: "nat \<Rightarrow> bytes \<Rightarrow> bytes \<Rightarrow> bool \<Rightarrow> rule \<Rightarrow> grammar_parser \<Rightarrow> parse_error + bytes \<times> rule \<times> grammar_parser"
and parse_sequence :: "nat \<Rightarrow> bytes \<Rightarrow> bytes \<Rightarrow> bool \<Rightarrow> nat \<Rightarrow> rule \<Rightarrow> grammar_parser \<Rightarrow> parse_error + bytes \<times> rule \<times> grammar_parser" where
  "parse_alternates 0 pos name rule_id is_nested p = Inl Out_of_fuel"
| "parse_alternates (Suc k) pos name rule_id is_nested p =
     on_ok (parse_sequence k pos name is_nested 0 [] p) (\<lambda>(pos1, r1, p1).
     on_ok (more_alternates k pos1 name is_nested r1 p1) (\<lambda>(pos2, r2, p2).
       Inr (pos2, add_rule rule_id (r2 @ [elem LLAMA_GRETYPE_END 0]) p2)))"
| "more_alternates 0 pos name is_nested r p = Inl Out_of_fuel"
| "more_alternates (Suc k) pos name is_nested r p =
     (if peek pos = 124 then
        on_ok (parse_sequence k (parse_space (tl pos) True) name is_nested (Suc (length r)) (r @ [elem LLAMA_GRETYPE_ALT 0]) p)
          (\<lambda>(pos', r', p'). more_alternates k pos' name is_nested r' p')
      else Inr (pos, r, p))"
| "parse_sequence 0 pos name is_nested last_sym_start r p = Inl Out_of_fuel"
| "parse_sequence (Suc k) pos name is_nested last_sym_start r p =
     (if peek pos = 0 then Inr (pos, r, p)
      else if peek pos = 40 then
        on_ok (parse_alternates k (parse_space (tl pos) True) name (fst (generate_symbol_id name p)) True (snd (generate_symbol_id name p)))
          (\<lambda>(pos', p2).
            if peek pos' \<noteq> 41 then Inl Expecting_paren
            else parse_sequence k (parse_space (tl pos') is_nested) name is_nested (length r)
                   (r @ [elem LLAMA_GRETYPE_RULE_REF (fst (generate_symbol_id name p))]) p2)
      else on_ok (seq_item k pos name is_nested last_sym_start r p) (\<lambda>item. case item of
          None \<Rightarrow> Inr (pos, r, p)
        | Some (pos', last_sym_start', r', p') \<Rightarrow> parse_sequence k pos' name is_nested last_sym_start' r' p'))"

subsection \<open>Rules and the whole text\<close>

definition end_of_rule :: "bytes \<Rightarrow> parse_error + bytes" where
  "end_of_rule pos =
     (if peek pos = 13 then Inr (if peek (drop 1 pos) = 10 then drop 2 pos else drop 1 pos)
      else if peek pos = 10 then Inr (tl pos)
      else if peek pos \<noteq> 0 then Inl Expecting_newline
      else Inr pos)"

definition parse_rule :: "nat \<Rightarrow> bytes \<Rightarrow> grammar_parser \<Rightarrow> parse_error + bytes \<times> grammar_parser" where
  "parse_rule k src p =
     on_ok (parse_name src) (\<lambda>(name, name_end).
       let pos = parse_space name_end False in
       case get_symbol_id name p of (rule_id, p1) \<Rightarrow>
         if \<not> (take 3 pos = [58, 58, 61]) then Inl Expecting_assign
         else on_ok (parse_alternates k (parse_space (drop 3 pos) True) name rule_id False p1) (\<lambda>(pos', p2).
           on_ok (end_of_rule pos') (\<lambda>pos''. Inr (parse_space pos'' True, p2))))"

fun parse_rules :: "nat \<Rightarrow> nat \<Rightarrow> bytes \<Rightarrow> grammar_parser \<Rightarrow> parse_error + grammar_parser" where
  "parse_rules 0 k pos p = Inl Out_of_fuel"
| "parse_rules (Suc n) k pos p =
     (if peek pos = 0 then Inr p
      else on_ok (parse_rule k pos p) (\<lambda>(pos', p'). parse_rules n k pos' p'))"

definition undefined_ref :: "grammar_parser \<Rightarrow> llama_grammar_element \<Rightarrow> bool" where
  "undefined_ref p e \<longleftrightarrow> gtype e = LLAMA_GRETYPE_RULE_REF \<and>
     (unat (gvalue e) \<ge> length (p_rules p) \<or> p_rules p ! unat (gvalue e) = []) \<and>
     (\<exists>kv \<in> set (symbol_ids p). snd kv = gvalue e)"

definition validate :: "grammar_parser \<Rightarrow> bool" where
  "validate p \<longleftrightarrow> (\<forall>r \<in> set (p_rules p). r \<noteq> [] \<and> (\<forall>e \<in> set r. \<not> undefined_ref p e))"

definition parse_fuel :: "bytes \<Rightarrow> nat" where
  "parse_fuel src = 4 * length src + 4"

definition empty_parser :: grammar_parser where
  "empty_parser = \<lparr>symbol_ids = [], p_rules = []\<rparr>"

text \<open>The result of \<open>llama_grammar_parser::parse\<close> with the error it reports, if any.\<close>

definition parse_text :: "bytes \<Rightarrow> parse_error + grammar_parser" where
  "parse_text src =
     (let text0 = takeWhile (\<lambda>c. c \<noteq> 0) src in
      on_ok (parse_rules (Suc (length text0)) (parse_fuel text0) (parse_space text0 True) empty_parser)
        (\<lambda>p. if validate p then Inr p else Inl Undefined_rule))"

datatype init_result = Null_pointer | Out_of_range_exception | Regex_error | Out_of_bounds | Grammar llama_grammar

definition llama_grammar_init_str :: "nat \<Rightarrow> (bytes \<Rightarrow> bool) \<Rightarrow> bytes \<Rightarrow> bytes \<Rightarrow> bool \<Rightarrow> bytes list \<Rightarrow> int list \<Rightarrow> init_result option" where
  "llama_grammar_init_str fuel valid_regex grammar_str grammar_root lz patterns tokens =
     (case parse_text grammar_str of Inl _ \<Rightarrow> Some Null_pointer
      | Inr p \<Rightarrow>
        if p_rules p = [] then Some Null_pointer
        else if map_of (symbol_ids p) [114, 111, 111, 116] = None then Some Null_pointer
        else case map_of (symbol_ids p) grammar_root of None \<Rightarrow> Some Out_of_range_exception
        | Some start_rule_index \<Rightarrow>
          let vec_rules = map copy_rule (p_rules p) in
          (case any_left_recursion (length vec_rules + 1) vec_rules of None \<Rightarrow> None
           | Some True \<Rightarrow> Some Null_pointer
           | Some False \<Rightarrow>
             if unat start_rule_index \<ge> length vec_rules then Some Out_of_bounds
             else case initial_stacks fuel vec_rules (unat start_rule_index) of None \<Rightarrow> None
             | Some sts \<Rightarrow>
               if \<not> list_all valid_regex patterns then Some Regex_error
               else Some (Grammar \<lparr>g_rules = vec_rules, stacks = sts, partial_utf8 = \<lparr>pvalue = 0, n_remain = 0\<rparr>,
                 lazy = lz, awaiting_trigger = lz, trigger_buffer = [], trigger_tokens = tokens, trigger_patterns = patterns\<rparr>)))"

end
