(* ===== verification/Grammar_Text.thy ===== *)
theory Grammar_Text
  imports Grammar_Parse Grammar_Sample
begin

text \<open>
  What the grammar parser guarantees: it ends, the rules it returns are well formed (the
  hypothesis of the theorems on the pushdown engine), a grammar without left recursion passes the check
  and is initialised as the sampling theorems need it, and what the parser lets through unchecked.
\<close>

subsection \<open>The parser always ends\<close>

definition res_ok :: "('a \<Rightarrow> bool) \<Rightarrow> parse_error + 'a \<Rightarrow> bool" where
  "res_ok P res \<longleftrightarrow> (case res of Inl e \<Rightarrow> e \<noteq> Out_of_fuel | Inr x \<Rightarrow> P x)"

lemma res_ok_simps [simp]:
  "res_ok P (Inl e) \<longleftrightarrow> e \<noteq> Out_of_fuel" "res_ok P (Inr x) \<longleftrightarrow> P x"
  by (simp_all add: res_ok_def)

lemma res_ok_bind:
  "res_ok P res \<Longrightarrow> (\<And>x. res = Inr x \<Longrightarrow> P x \<Longrightarrow> res_ok Q (f x)) \<Longrightarrow>
   res_ok Q (case res of Inl e \<Rightarrow> Inl e | Inr x \<Rightarrow> f x)"
  by (auto simp: res_ok_def split: sum.splits)

lemma res_ok_on_ok:
  "res_ok P res \<Longrightarrow> (\<And>x. P x \<Longrightarrow> res_ok Q (f x)) \<Longrightarrow> res_ok Q (on_ok res f)"
  by (cases res) (auto simp: on_ok_def)

lemma res_ok_mono: "res_ok P res \<Longrightarrow> (\<And>x. P x \<Longrightarrow> Q x) \<Longrightarrow> res_ok Q res"
  by (auto simp: res_ok_def split: sum.splits)

lemma peek_Cons: "peek pos \<noteq> 0 \<Longrightarrow> \<exists>c cs. pos = c # cs"
  by (cases pos) (auto simp: peek_def)

lemma peek_length: "peek pos = c \<Longrightarrow> c \<noteq> 0 \<Longrightarrow> 0 < length pos"
  by (cases pos) (auto simp: peek_def)

lemma parse_hex_length: "res_ok (\<lambda>(c, pos'). length pos' \<le> length pos) (parse_hex n pos v)"
  by (induction n pos v rule: parse_hex.induct) (auto split: option.splits simp: res_ok_def split: sum.splits)

lemma space_loop_length: "length (space_loop nl com pos) \<le> length pos"
proof (induction nl com pos rule: space_loop.induct)
  case (2 nl com c pos)
  then show ?case by (cases com) (auto intro: le_SucI)
qed simp

lemma parse_space_length: "length (parse_space pos nl) \<le> length pos"
  by (simp add: parse_space_def space_loop_length)

lemma cont_bytes_length: "length (snd (cont_bytes n v pos)) \<le> length pos"
  by (induction n v pos rule: cont_bytes.induct) auto

lemma decode_at_length: "pos \<noteq> [] \<Longrightarrow> length (snd (decode_utf8_at pos)) < length pos"
  by (cases pos) (auto simp: decode_utf8_at_def Let_def le_imp_less_Suc cont_bytes_length)

lemma parse_char_length: "res_ok (\<lambda>(c, pos'). length pos' < length pos) (parse_char pos)"
proof -
  have hex: "res_ok (\<lambda>(c, pos'). length pos' < length pos) (parse_hex n (drop 2 pos) 0)" if "pos \<noteq> []" for n
    using parse_hex_length [of "drop 2 pos" n 0] that by (cases "parse_hex n (drop 2 pos) 0") (auto simp: Suc_le_eq neq_Nil_conv)
  show ?thesis
  proof (cases pos)
    case (Cons c cs)
    then show ?thesis using hex decode_at_length [of pos]
      by (auto simp: parse_char_def Let_def split: prod.splits)
  qed (simp add: parse_char_def peek_def)
qed

lemma name_length: "res_ok (\<lambda>(n, pos'). length pos' < length pos) (parse_name pos)"
  by (cases pos) (auto simp: parse_name_def Let_def length_dropWhile_le le_imp_less_Suc)

lemma int_length: "res_ok (\<lambda>(n, pos'). length pos' < length pos) (parse_int pos)"
  by (cases pos) (auto simp: parse_int_def Let_def length_dropWhile_le le_imp_less_Suc)

lemma literal_length: "length pos < k \<Longrightarrow> res_ok (\<lambda>(pos', r'). length pos' < length pos) (literal_loop k pos r)"
proof (induction k pos r rule: literal_loop.induct)
  case (2 k pos r)
  show ?case
  proof (cases "peek pos = 34")
    case True
    then show ?thesis using peek_length [of pos 34] by simp
  next
    case False
    show ?thesis unfolding literal_loop.simps using False
    proof (simp, intro impI res_ok_bind [OF parse_char_length], clarsimp)
      fix c pos' assume a: "peek pos \<noteq> 34" "peek pos \<noteq> 0" "parse_char pos = Inr (c, pos')" "length pos' < length pos"
      have "res_ok (\<lambda>(pos', r'). length pos' < length pos) (literal_loop k pos' (r @ [elem LLAMA_GRETYPE_CHAR c]))"
        using 2(1) [OF a(1,2,3) refl] 2(2) a(4) by (auto simp: res_ok_def split: sum.splits)
      then show "res_ok (\<lambda>(pos', r'). length pos' < length pos) (literal_loop k pos' (r @ [elem LLAMA_GRETYPE_CHAR c]))" .
    qed
  qed
qed simp


lemma class_length: "length pos < k \<Longrightarrow> res_ok (\<lambda>(pos', r'). length pos' < length pos) (class_loop k pos ty l r)"
proof (induction k arbitrary: pos r)
  case (Suc k)
  show ?case
  proof (cases "peek pos = 93")
    case True
    then show ?thesis using peek_length [of pos 93] by simp
  next
    case False
    have step: "res_ok (\<lambda>(pos', r'). length pos' < length pos) (class_loop k pos' ty l r')" if "length pos' < length pos" for pos' r'
      by (rule res_ok_mono [OF Suc.IH]) (use that Suc.prems in auto)
    show ?thesis
    proof (cases "parse_char pos")
      case (Inl e)
      then show ?thesis using False parse_char_length [of pos] by simp
    next
      case (Inr cp)
      obtain c pos' where cp: "cp = (c, pos')" by force
      have lt: "length pos' < length pos" using parse_char_length [of pos] Inr cp by simp
      show ?thesis
      proof (cases "parse_char (drop 1 pos')")
        case (Inl e)
        then show ?thesis using False \<open>parse_char pos = Inr cp\<close> cp parse_char_length [of "drop 1 pos'"] step [OF lt]
          by (simp add: Let_def)
      next
        case inr2: (Inr cp2)
        obtain c2 pos2 where cp2: "cp2 = (c2, pos2)" by force
        have "length pos2 < length pos" using parse_char_length [of "drop 1 pos'"] inr2 cp2 lt by simp
        then show ?thesis using False Inr cp inr2 cp2 step step [OF lt] by (simp add: Let_def)
      qed
    qed
  qed
qed simp

lemma times_ok: "res_ok (\<lambda>_. True) (parse_times ds)"
  by (simp add: parse_times_def)

lemma space_tl_length: "length (parse_space (tl q) nl) \<le> length q"
  using parse_space_length [of "tl q" nl] by simp

lemma bounds_length: "res_ok (\<lambda>(a, b, pos'). length pos' \<le> length pos) (parse_bounds pos nested)"
proof (cases "is_digit_char (peek pos)")
  case True
  have tl_le: "length (parse_space (tl q) nested) \<le> length pos" if "length q \<le> length pos" for q
    using space_tl_length [of q nested] that by simp
  show ?thesis unfolding parse_bounds_def using True
  proof (simp, intro res_ok_on_ok [OF int_length], clarify)
    fix ds int_end :: bytes assume lt: "length int_end < length pos"
    then have p1: "length (parse_space int_end nested) \<le> length pos" using parse_space_length [of int_end nested] by simp
    let ?pos2 = "parse_space (tl (parse_space int_end nested)) nested"
    have p2: "length ?pos2 \<le> length pos" by (rule tl_le [OF p1])
    have second: "res_ok (\<lambda>(m, q). length q \<le> length pos)
        (if is_digit_char (peek ?pos2) then on_ok (parse_int ?pos2) (\<lambda>(ds', int_end'). on_ok (parse_times ds') (\<lambda>m. Inr (m, parse_space int_end' nested)))
         else Inr (- 1, ?pos2))"
    proof (cases "is_digit_char (peek ?pos2)")
      case True
      have "res_ok (\<lambda>(m, q). length q \<le> length pos) (on_ok (parse_int ?pos2) (\<lambda>(ds', int_end'). on_ok (parse_times ds') (\<lambda>m. Inr (m, parse_space int_end' nested))))"
      proof (rule res_ok_on_ok [OF int_length], clarify)
        fix ds' q :: bytes assume "length q < length ?pos2"
        then have "length (parse_space q nested) \<le> length pos" using p2 parse_space_length [of q nested] by linarith
        then show "res_ok (\<lambda>(m, q). length q \<le> length pos) (on_ok (parse_times ds') (\<lambda>m. Inr (m, parse_space q nested)))"
          by (intro res_ok_on_ok [OF times_ok]) simp
      qed
      then show ?thesis using True by simp
    qed (use p2 in simp)
    show "res_ok (\<lambda>(a, b, pos'). length pos' \<le> length pos) (on_ok (parse_times ds) (\<lambda>min_times.
        let pos1 = parse_space int_end nested in
        if peek pos1 = 125 then Inr (min_times, min_times, parse_space (tl pos1) nested)
        else if peek pos1 = 44 then
          let pos2 = parse_space (tl pos1) nested in
          on_ok (if is_digit_char (peek pos2) then
                   on_ok (parse_int pos2) (\<lambda>(ds', int_end'). on_ok (parse_times ds') (\<lambda>m.
                     Inr (m, parse_space int_end' nested)))
                 else Inr (- 1, pos2)) (\<lambda>(max_times, pos3).
             if peek pos3 \<noteq> 125 then Inl Expecting_brace
             else Inr (min_times, max_times, parse_space (tl pos3) nested))
        else Inl Expecting_comma))"
      unfolding Let_def
    proof (rule res_ok_on_ok [OF times_ok])
      fix m
      let ?pos1 = "parse_space int_end nested"
      consider "peek ?pos1 = 125" | "peek ?pos1 = 44" | "peek ?pos1 \<noteq> 125" "peek ?pos1 \<noteq> 44" by blast
      then show "res_ok (\<lambda>(a, b, pos'). length pos' \<le> length pos)
        (if peek ?pos1 = 125 then Inr (m, m, parse_space (tl ?pos1) nested)
         else if peek ?pos1 = 44 then
          on_ok (if is_digit_char (peek ?pos2) then on_ok (parse_int ?pos2) (\<lambda>(ds', int_end'). on_ok (parse_times ds') (\<lambda>m. Inr (m, parse_space int_end' nested)))
                 else Inr (- 1, ?pos2)) (\<lambda>(max_times, pos3).
             if peek pos3 \<noteq> 125 then Inl Expecting_brace
             else Inr (m, max_times, parse_space (tl pos3) nested))
        else Inl Expecting_comma)"
      proof cases
        case 2
        have "res_ok (\<lambda>(a, b, pos'). length pos' \<le> length pos)
          (on_ok (if is_digit_char (peek ?pos2) then on_ok (parse_int ?pos2) (\<lambda>(ds', int_end'). on_ok (parse_times ds') (\<lambda>m. Inr (m, parse_space int_end' nested)))
                 else Inr (- 1, ?pos2)) (\<lambda>(max_times, pos3).
             if peek pos3 \<noteq> 125 then Inl Expecting_brace
             else Inr (m, max_times, parse_space (tl pos3) nested)))"
          by (rule res_ok_on_ok [OF second]) (simp add: tl_le split: prod.splits)
        then show ?thesis using 2 by (simp only: if_True if_False refl) simp
      qed (use tl_le [OF p1] in simp_all)
    qed
  qed
qed (simp add: parse_bounds_def)

lemma repeat_ok: "length pos < n \<Longrightarrow>
    res_ok (\<lambda>item. case item of None \<Rightarrow> True | Some (pos', _) \<Rightarrow> length pos' < n) (repeat_item pos name a b l r p)"
  by (auto simp: repeat_item_def on_ok_def handle_repetitions_def Let_def split: sum.splits prod.splits)

lemma item_length:
  assumes "length pos \<le> k" "peek pos \<noteq> 0"
  shows "res_ok (\<lambda>item. case item of None \<Rightarrow> True | Some (pos', _) \<Rightarrow> length pos' < length pos) (seq_item k pos name nested l r p)"
proof -
  obtain c cs where pos: "pos = c # cs" using peek_Cons [OF assms(2)] by blast
  have sp: "length (parse_space q nested) < length pos" if "length q < length pos" for q
    using parse_space_length [of q nested] that by simp
  have lit: "res_ok (\<lambda>(pos', r'). length pos' < length (tl pos)) (literal_loop k (tl pos) r)"
    by (rule literal_length) (use assms pos in auto)
  have cls: "res_ok (\<lambda>(pos', r'). length pos' < length pos) (class_loop k q ty (length r) r)" if "length q < length pos" for q ty
    by (rule res_ok_mono [OF class_length]) (use that assms in auto)
  have bnd: "res_ok (\<lambda>(a, b, pos'). length pos' < length pos) (parse_bounds (parse_space (tl pos) nested) nested)"
    by (rule res_ok_mono [OF bounds_length]) (use sp [of "tl pos"] pos in auto)
  let ?P = "\<lambda>item :: turn. case item of None \<Rightarrow> True | Some (pos', _) \<Rightarrow> length pos' < length pos"
  have tl: "length (tl pos) < length pos" "length (drop 2 pos) < length pos" using pos by auto
  have b1: "res_ok ?P (on_ok (literal_loop k (tl pos) r) (\<lambda>(pos', r'). Inr (Some (parse_space pos' nested, length r, r', p))))"
    by (rule res_ok_on_ok [OF lit]) (use sp tl in auto)
  have b2: "res_ok ?P (on_ok (class_loop k q ty (length r) r) (\<lambda>(pos', r'). Inr (Some (parse_space pos' nested, length r, r', p))))"
    if "length q < length pos" for q ty
    by (rule res_ok_on_ok [OF cls [OF that]]) (use sp in auto)
  have b3: "res_ok ?P (on_ok (parse_name pos) (\<lambda>(nm, name_end). case get_symbol_id nm p of (ref_rule_id, p') \<Rightarrow>
      Inr (Some (parse_space name_end nested, length r, r @ [elem LLAMA_GRETYPE_RULE_REF ref_rule_id], p'))))"
    by (rule res_ok_on_ok [OF name_length]) (use sp in \<open>auto split: prod.splits\<close>)
  have b4: "res_ok ?P (on_ok (parse_bounds (parse_space (tl pos) nested) nested) (\<lambda>(min_times, max_times, pos').
      repeat_item pos' name min_times max_times l r p))"
    by (rule res_ok_on_ok [OF bnd]) (auto intro: repeat_ok)
  note rep = repeat_ok [OF sp [OF tl(1)]]
  have tl': "length (if peek (tl pos) = 94 then drop 2 pos else tl pos) < length pos" using tl by simp
  show ?thesis
    unfolding seq_item_def Let_def
    using b1 b2 [OF tl'] b3 b4 rep sp [OF tl(1)] by (simp split del: if_split split: if_split_asm add: if_split [of "res_ok ?P"])
qed

lemma parser_fuel:
  "(2 * length pos + 2 \<le> k \<longrightarrow> res_ok (\<lambda>(pos', p'). length pos' \<le> length pos) (parse_alternates k pos name rid nested p)) \<and>
   (2 * length pos + 1 \<le> k \<longrightarrow> res_ok (\<lambda>(pos', r', p'). length pos' \<le> length pos) (more_alternates k pos name nested r p)) \<and>
   (2 * length pos + 1 \<le> k \<longrightarrow> res_ok (\<lambda>(pos', r', p'). length pos' \<le> length pos) (parse_sequence k pos name nested l r p))"
proof (induction k arbitrary: pos name rid nested l r p)
  case (Suc k)
  have alt: "res_ok (\<lambda>(pos', p'). length pos' \<le> n) (parse_alternates k q name rid nested p)"
    if "length q \<le> n" "2 * length q + 2 \<le> k" for q n rid nested p
    by (rule res_ok_mono [OF Suc [THEN conjunct1, rule_format]]) (use that in auto)
  have more: "res_ok (\<lambda>(pos', r', p'). length pos' \<le> n) (more_alternates k q name nested r p)"
    if "length q \<le> n" "2 * length q + 1 \<le> k" for q n nested r p
    by (rule res_ok_mono [OF Suc [THEN conjunct2, THEN conjunct1, rule_format]]) (use that in auto)
  have seq: "res_ok (\<lambda>(pos', r', p'). length pos' \<le> n) (parse_sequence k q name nested l r p)"
    if "length q \<le> n" "2 * length q + 1 \<le> k" for q n nested l r p
    by (rule res_ok_mono [OF Suc [THEN conjunct2, THEN conjunct2, rule_format]]) (use that in auto)
  have sp: "length (parse_space (tl q) nl) < length q" if "peek q \<noteq> 0" for q nl
    using parse_space_length [of "tl q" nl] peek_Cons [OF that] by auto
  have "res_ok (\<lambda>(pos', p'). length pos' \<le> length pos) (parse_alternates (Suc k) pos name rid nested p)"
    if f: "2 * length pos + 2 \<le> Suc k"
    unfolding parse_alternates.simps
  proof (rule res_ok_on_ok [OF seq [OF order_refl]], use f in simp, clarify)
    fix pos1 :: bytes and r1 p1 assume le: "length pos1 \<le> length pos"
    show "res_ok (\<lambda>(pos', p'). length pos' \<le> length pos) (on_ok (more_alternates k pos1 name nested r1 p1)
      (\<lambda>(pos2, r2, p2). Inr (pos2, add_rule rid (r2 @ [elem LLAMA_GRETYPE_END 0]) p2)))"
      by (rule res_ok_on_ok [OF more [OF le]]) (use f le in auto)
  qed
  moreover have "res_ok (\<lambda>(pos', r', p'). length pos' \<le> length pos) (more_alternates (Suc k) pos name nested r p)"
    if f: "2 * length pos + 1 \<le> Suc k"
  proof (cases "peek pos = 124")
    case True
    let ?q = "parse_space (tl pos) True"
    have lt: "length ?q < length pos" using sp [of pos True] True by simp
    have "res_ok (\<lambda>(pos', r', p'). length pos' \<le> length pos)
      (on_ok (parse_sequence k ?q name nested (Suc (length r)) (r @ [elem LLAMA_GRETYPE_ALT 0]) p)
          (\<lambda>(pos', r', p'). more_alternates k pos' name nested r' p'))"
    proof (rule res_ok_on_ok [OF seq [OF order_refl]], use f lt in simp, clarify)
      fix pos' :: bytes and r' p' assume "length pos' \<le> length ?q"
      then show "res_ok (\<lambda>(pos', r', p'). length pos' \<le> length pos) (more_alternates k pos' name nested r' p')"
        using lt f by (intro more) auto
    qed
    then show ?thesis using True by simp
  qed simp
  moreover have "res_ok (\<lambda>(pos', r', p'). length pos' \<le> length pos) (parse_sequence (Suc k) pos name nested l r p)"
    if f: "2 * length pos + 1 \<le> Suc k"
  proof -
    let ?q = "parse_space (tl pos) True"
    consider "peek pos = 0" | (grp) "peek pos = 40" | (item) "peek pos \<noteq> 0" "peek pos \<noteq> 40" by blast
    then show ?thesis
    proof cases
      case grp
      have lt: "length ?q < length pos" using sp [of pos True] grp by simp
      have "res_ok (\<lambda>(pos', r', p'). length pos' \<le> length pos)
        (on_ok (parse_alternates k ?q name (fst (generate_symbol_id name p)) True (snd (generate_symbol_id name p)))
          (\<lambda>(pos', p2). if peek pos' \<noteq> 41 then Inl Expecting_paren
            else parse_sequence k (parse_space (tl pos') nested) name nested (length r)
                   (r @ [elem LLAMA_GRETYPE_RULE_REF (fst (generate_symbol_id name p))]) p2))"
      proof (rule res_ok_on_ok [OF alt [OF order_refl]], use f lt in simp, clarify)
        fix pos' :: bytes and p2 assume le: "length pos' \<le> length ?q"
        have "res_ok (\<lambda>(pos', r', p'). length pos' \<le> length pos) (parse_sequence k (parse_space (tl pos') nested) name nested (length r)
                   (r @ [elem LLAMA_GRETYPE_RULE_REF (fst (generate_symbol_id name p))]) p2)"
          using le lt f space_tl_length [of pos' nested] by (intro seq) linarith+
        then show "res_ok (\<lambda>(pos', r', p'). length pos' \<le> length pos) (if peek pos' \<noteq> 41 then Inl Expecting_paren
            else parse_sequence k (parse_space (tl pos') nested) name nested (length r)
                   (r @ [elem LLAMA_GRETYPE_RULE_REF (fst (generate_symbol_id name p))]) p2)" by simp
      qed
      then show ?thesis using grp by simp
    next
      case item
      have "length pos > 0" using peek_Cons [OF item(1)] by auto
      then have kk: "length pos \<le> k" using f by linarith
      have "res_ok (\<lambda>(pos', r', p'). length pos' \<le> length pos)
        (on_ok (seq_item k pos name nested l r p) (\<lambda>item. case item of None \<Rightarrow> Inr (pos, r, p)
          | Some (pos', last_sym_start', r', p') \<Rightarrow> parse_sequence k pos' name nested last_sym_start' r' p'))"
      proof (rule res_ok_on_ok [OF item_length [OF kk item(1)]])
        fix x :: turn assume x: "case x of None \<Rightarrow> True | Some (pos', _) \<Rightarrow> length pos' < length pos"
        show "res_ok (\<lambda>(pos', r', p'). length pos' \<le> length pos) (case x of None \<Rightarrow> Inr (pos, r, p)
          | Some (pos', last_sym_start', r', p') \<Rightarrow> parse_sequence k pos' name nested last_sym_start' r' p')"
          using x f by (auto split: option.splits intro!: seq)
      qed
      then show ?thesis using item by simp
    qed simp
  qed
  ultimately show ?case by blast
qed simp

lemma rule_length:
  assumes "2 * length pos + 2 \<le> k"
  shows "res_ok (\<lambda>(pos', p'). length pos' < length pos) (parse_rule k pos p)"
  unfolding parse_rule_def
proof (rule res_ok_on_ok [OF name_length], clarify)
  fix name name_end :: bytes assume lt: "length name_end < length pos"
  let ?q = "parse_space name_end False" and ?r = "parse_space (drop 3 (parse_space name_end False)) True"
  have le: "length ?q \<le> length name_end" by (rule parse_space_length)
  have le2: "length ?r < length pos" using parse_space_length [of "drop 3 ?q" True] le lt by simp
  have fin: "res_ok (\<lambda>q. length q \<le> length q') (end_of_rule q')" for q' :: bytes by (auto simp: end_of_rule_def)
  have alt: "res_ok (\<lambda>(pos', p'). length pos' \<le> length ?r) (parse_alternates k ?r nm rid False p1)" for nm rid p1
    using parser_fuel [of ?r k nm rid False p1] le2 assms by simp
  have go: "res_ok (\<lambda>(pos', p'). length pos' < length pos)
    (on_ok (parse_alternates k ?r name rid False p1) (\<lambda>(pos', p2). on_ok (end_of_rule pos') (\<lambda>pos''. Inr (parse_space pos'' True, p2))))" for rid p1
  proof (rule res_ok_on_ok [OF alt], clarify)
    fix pos' :: bytes and p2 assume l: "length pos' \<le> length ?r"
    show "res_ok (\<lambda>(pos', p'). length pos' < length pos) (on_ok (end_of_rule pos') (\<lambda>pos''. Inr (parse_space pos'' True, p2)))"
    proof (rule res_ok_on_ok [OF fin])
      fix q :: bytes assume "length q \<le> length pos'"
      then show "res_ok (\<lambda>(pos', p'). length pos' < length pos) (Inr (parse_space q True, p2))"
        using l le2 parse_space_length [of q True] by simp
    qed
  qed
  show "res_ok (\<lambda>(pos', p'). length pos' < length pos)
    (let q = ?q in case get_symbol_id name p of (rule_id, p1) \<Rightarrow>
       if take 3 q \<noteq> [58, 58, 61] then Inl Expecting_assign
       else on_ok (parse_alternates k (parse_space (drop 3 q) True) name rule_id False p1) (\<lambda>(pos', p2).
           on_ok (end_of_rule pos') (\<lambda>pos''. Inr (parse_space pos'' True, p2))))"
    unfolding Let_def using go by (simp split: prod.splits)
qed

lemma rules_fuel: "length pos < n \<Longrightarrow> 2 * length pos + 2 \<le> k \<Longrightarrow> res_ok (\<lambda>_. True) (parse_rules n k pos p)"
proof (induction n arbitrary: pos p)
  case (Suc n)
  have "res_ok (\<lambda>_. True) (on_ok (parse_rule k pos p) (\<lambda>(pos', p'). parse_rules n k pos' p'))"
    by (rule res_ok_on_ok [OF rule_length [OF Suc.prems(2)]]) (use Suc in auto)
  then show ?case by simp
qed simp

text \<open>
  C40: The parser ends on every text: the recursion through sequences and parentheses, every scanning loop
  and the sequence of rules never need more than the fuel that is given, \<open>4 * length + 4\<close> levels or rounds.
  The copies that a repetition \<open>{m,n}\<close> makes are not counted; they end because they count down \<open>n\<close>.
\<close>

theorem grammar_parser_terminates: "parse_text src \<noteq> Inl Out_of_fuel"
proof -
  let ?t = "takeWhile (\<lambda>c. c \<noteq> 0) src"
  have "length (parse_space ?t True) \<le> length ?t" by (rule parse_space_length)
  then have "res_ok (\<lambda>_. True) (parse_rules (Suc (length ?t)) (parse_fuel ?t) (parse_space ?t True) empty_parser)"
    by (intro rules_fuel) (auto simp: parse_fuel_def)
  then have "res_ok (\<lambda>_. True) (parse_text src)" unfolding parse_text_def Let_def by (rule res_ok_on_ok) simp
  then show ?thesis by (auto simp: res_ok_def split: sum.splits)
qed

subsection \<open>Shape of rules\<close>

definition follows :: "rule \<Rightarrow> bool" where
  "follows r \<longleftrightarrow> successively (\<lambda>a b. follows_ok (gtype a) (gtype b)) r"

definition open_rule :: "rule \<Rightarrow> bool" where
  "open_rule r \<longleftrightarrow> follows r \<and> (r \<noteq> [] \<longrightarrow> start_type (gtype (hd r))) \<and> (\<forall>e \<in> set r. gtype e \<noteq> LLAMA_GRETYPE_END)"

definition closed_rule :: "rule \<Rightarrow> bool" where
  "closed_rule r \<longleftrightarrow> (\<exists>r0 v. open_rule r0 \<and> r = r0 @ [elem LLAMA_GRETYPE_END v])"

lemma start_follows: "start_type b \<Longrightarrow> follows_ok a b"
  by (auto simp: start_type_def follows_ok_def)

lemma elem_sel [simp]: "gtype (elem ty v) = ty" "gvalue (elem ty v) = v"
  by (simp_all add: elem_def)

lemma open_append:
  "open_rule r \<Longrightarrow> open_rule s \<Longrightarrow> open_rule (r @ s)"
  by (cases "s = []"; cases "r = []") (auto simp: open_rule_def follows_def successively_append_iff start_follows)

lemma open_single: "start_type ty \<Longrightarrow> ty \<noteq> LLAMA_GRETYPE_END \<Longrightarrow> open_rule [elem ty v]"
  by (simp add: open_rule_def follows_def)

lemma open_Nil: "open_rule []"
  by (simp add: open_rule_def follows_def)

lemma open_concat: "open_rule r \<Longrightarrow> open_rule (concat (replicate n r))"
  by (induction n) (auto intro: open_append open_Nil)

lemma open_split: "open_rule (r @ s) \<Longrightarrow> open_rule r"
  by (auto simp: open_rule_def follows_def successively_append_iff)

lemma open_drop:
  assumes "open_rule r" "l < length r" "start_type (gtype (r ! l))"
  shows "open_rule (drop l r)"
  unfolding open_rule_def
proof (intro conjI)
  have "follows (take l r @ drop l r)" using assms(1) by (simp add: open_rule_def)
  then show "follows (drop l r)" by (simp only: follows_def successively_append_iff)
  show "drop l r \<noteq> [] \<longrightarrow> start_type (gtype (hd (drop l r)))" using assms(2,3) by (simp add: hd_drop_conv_nth)
  show "\<forall>e \<in> set (drop l r). gtype e \<noteq> LLAMA_GRETYPE_END" using assms(1) by (auto simp: open_rule_def dest: in_set_dropD)
qed

lemma open_take: "open_rule r \<Longrightarrow> open_rule (take l r)"
  using open_split [of "take l r" "drop l r"] by simp

definition sym_at :: "nat \<Rightarrow> rule \<Rightarrow> bool" where
  "sym_at l r \<longleftrightarrow> l \<le> length r \<and> (l < length r \<longrightarrow> start_type (gtype (r ! l)))"

lemma literal_open:
  "literal_loop k pos r = Inr (pos', r') \<Longrightarrow> open_rule r \<Longrightarrow>
   open_rule r' \<and> (\<exists>s. r' = r @ s \<and> (\<forall>e \<in> set s. gtype e = LLAMA_GRETYPE_CHAR))"
proof (induction k pos r rule: literal_loop.induct)
  case (2 k pos r)
  show ?case
  proof (cases "peek pos = 34 \<or> peek pos = 0")
    case True
    then show ?thesis using 2 by (auto split: if_splits)
  next
    case False
    then obtain c q where c: "parse_char pos = Inr (c, q)" using 2(2) by (auto split: sum.splits prod.splits)
    have o: "open_rule (r @ [elem LLAMA_GRETYPE_CHAR c])"
      by (rule open_append [OF 2(3) open_single]) (auto simp: start_type_def)
    have "literal_loop k q (r @ [elem LLAMA_GRETYPE_CHAR c]) = Inr (pos', r')" using 2(2) False c by simp
    from 2(1) [OF _ _ c refl this o] False show ?thesis by auto
  qed
qed simp

text \<open>Inside a bracket expression: the elements from \<open>l\<close> on form an unfinished class.\<close>

definition class_tail :: "llama_gretype \<Rightarrow> nat \<Rightarrow> rule \<Rightarrow> bool" where
  "class_tail ty l r \<longleftrightarrow> l \<le> length r \<and> open_rule (take l r) \<and> follows (drop l r) \<and>
     (\<forall>e \<in> set (drop l r). gtype e = ty \<or> gtype e = LLAMA_GRETYPE_CHAR_ALT \<or> gtype e = LLAMA_GRETYPE_CHAR_RNG_UPPER) \<and>
     (l < length r \<longrightarrow> gtype (r ! l) = ty)"

lemma class_extend:
  assumes "class_tail ty l r" "ty = LLAMA_GRETYPE_CHAR \<or> ty = LLAMA_GRETYPE_CHAR_NOT"
  defines "t \<equiv> (if l < length r then LLAMA_GRETYPE_CHAR_ALT else ty)"
  shows "class_tail ty l (r @ [elem t c])" "class_tail ty l (r @ [elem t c, elem LLAMA_GRETYPE_CHAR_RNG_UPPER d])"
proof -
  have l: "l \<le> length r" using assms(1) by (simp add: class_tail_def)
  have f: "follows (drop l r @ [elem t c])"
  proof (cases "drop l r = []")
    case False
    then have "follows_ok (gtype (last (drop l r))) LLAMA_GRETYPE_CHAR_ALT" "t = LLAMA_GRETYPE_CHAR_ALT"
      using assms(1,2) last_in_set [OF False] by (auto simp: class_tail_def follows_ok_def t_def)
    then show ?thesis using assms(1) False by (simp add: class_tail_def follows_def successively_append_iff)
  qed (simp add: follows_def)
  then have g: "follows (drop l r @ [elem t c, elem LLAMA_GRETYPE_CHAR_RNG_UPPER d])"
    using assms(2) successively_append_iff [of "\<lambda>a b. follows_ok (gtype a) (gtype b)" "drop l r @ [elem t c]" "[elem LLAMA_GRETYPE_CHAR_RNG_UPPER d]"]
    by (auto simp: follows_def follows_ok_def t_def)
  show "class_tail ty l (r @ [elem t c])" "class_tail ty l (r @ [elem t c, elem LLAMA_GRETYPE_CHAR_RNG_UPPER d])"
    using assms(1) l f g by (auto simp: class_tail_def nth_append t_def)
qed

lemma class_open:
  assumes "class_tail ty l r" "ty = LLAMA_GRETYPE_CHAR \<or> ty = LLAMA_GRETYPE_CHAR_NOT"
  shows "open_rule r \<and> sym_at l r"
proof -
  have "open_rule (drop l r)"
    using assms by (auto simp: class_tail_def open_rule_def hd_drop_conv_nth start_type_def)
  from open_append [OF _ this, of "take l r"] have "open_rule r" using assms(1) by (simp add: class_tail_def)
  then show ?thesis using assms by (auto simp: sym_at_def class_tail_def start_type_def)
qed

lemma class_loop_open:
  "class_loop k pos ty l r = Inr (pos', r') \<Longrightarrow> class_tail ty l r \<Longrightarrow> ty = LLAMA_GRETYPE_CHAR \<or> ty = LLAMA_GRETYPE_CHAR_NOT \<Longrightarrow>
   class_tail ty l r' \<and> (\<exists>s. r' = r @ s)"
proof (induction k arbitrary: pos r)
  case (Suc k)
  show ?case
  proof (cases "peek pos = 93 \<or> peek pos = 0")
    case True
    then show ?thesis using Suc.prems by (auto split: if_splits)
  next
    case False
    then obtain c q where c: "parse_char pos = Inr (c, q)" using Suc.prems(1) by (auto split: sum.splits prod.splits)
    let ?t = "if l < length r then LLAMA_GRETYPE_CHAR_ALT else ty"
    have e: "class_tail ty l (r @ [elem ?t c])" "\<And>d. class_tail ty l (r @ [elem ?t c, elem LLAMA_GRETYPE_CHAR_RNG_UPPER d])"
      by (rule class_extend [OF Suc.prems(2,3)])+
    show ?thesis
    proof (cases "peek q = 45 \<and> peek (drop 1 q) \<noteq> 93")
      case True
      then obtain d q2 where d: "parse_char (drop 1 q) = Inr (d, q2)"
        using Suc.prems(1) False c by (auto simp: Let_def split: sum.splits prod.splits if_splits)
      have "class_loop k q2 ty l (r @ [elem ?t c, elem LLAMA_GRETYPE_CHAR_RNG_UPPER d]) = Inr (pos', r')"
        using Suc.prems(1) False c True d by (auto simp: Let_def split: if_splits)
      from Suc.IH [OF this e(2) Suc.prems(3)] show ?thesis by auto
    next
      case no: False
      then have "class_loop k q ty l (r @ [elem ?t c]) = Inr (pos', r')" using Suc.prems(1) False c by (auto simp: Let_def)
      from Suc.IH [OF this e(1) Suc.prems(3)] show ?thesis by auto
    qed
  qed
qed simp

subsection \<open>Generated names are fresh\<close>

lemma digits_snoc: "digits_value (ds @ [d]) = 10 * digits_value ds + (unat d - 48)"
  by (simp add: digits_value_def)

lemma unat_digit: "d < 10 \<Longrightarrow> unat (48 + of_nat d :: u8) = 48 + d"
  by (subst unat_add_lem [THEN iffD1]) (auto simp: unat_of_nat)

lemma digits_to_decimal: "digits_value (to_decimal n) = n"
proof (induction n rule: less_induct)
  case (less n)
  show ?case
  proof (cases "n < 10")
    case True
    then show ?thesis using unat_digit [OF True] by (simp add: to_decimal.simps [of n] digits_value_def)
  next
    case False
    have "unat (48 + of_nat (n mod 10) :: u8) = 48 + n mod 10" by (rule unat_digit) simp
    then show ?thesis using less [of "n div 10"] False by (simp add: to_decimal.simps [of n] digits_snoc)
  qed
qed

definition name_ok :: "bytes \<Rightarrow> bool" where
  "name_ok base \<longleftrightarrow> (\<forall>c \<in> set base. is_word_char c)"

definition gen_name :: "bytes \<Rightarrow> nat \<Rightarrow> bytes" where
  "gen_name base n = base @ [95] @ to_decimal n"

lemma underscore: "\<not> is_word_char 95"
  by (simp add: is_word_char_def is_digit_char_def)

lemma takeWhile_gen: "name_ok base \<Longrightarrow> takeWhile is_word_char (gen_name base n) = base"
  by (auto simp: name_ok_def gen_name_def takeWhile_append underscore)

lemma gen_name_inject: "name_ok a \<Longrightarrow> name_ok b \<Longrightarrow> gen_name a m = gen_name b n \<Longrightarrow> m = n"
  by (metis takeWhile_gen gen_name_def digits_to_decimal same_append_eq)

lemma gen_name_not_ok: "\<not> name_ok (gen_name base n)"
  using underscore by (auto simp: name_ok_def gen_name_def)

subsection \<open>The state of the parser\<close>

definition table_ok :: "(bytes \<times> u32) list \<Rightarrow> bool" where
  "table_ok ids \<longleftrightarrow> (\<forall>i < length ids. snd (ids ! i) = of_nat i \<and>
     (name_ok (fst (ids ! i)) \<or> (\<exists>base. name_ok base \<and> fst (ids ! i) = gen_name base i)))"

definition refs_in :: "grammar_parser \<Rightarrow> rule \<Rightarrow> bool" where
  "refs_in p r \<longleftrightarrow> (\<forall>e \<in> set r. gtype e = LLAMA_GRETYPE_RULE_REF \<longrightarrow> gvalue e \<in> snd ` set (symbol_ids p))"

definition parser_inv :: "grammar_parser \<Rightarrow> bool" where
  "parser_inv p \<longleftrightarrow> table_ok (symbol_ids p) \<and> (\<forall>r \<in> set (p_rules p). r = [] \<or> closed_rule r \<and> refs_in p r)"

definition few_symbols :: "grammar_parser \<Rightarrow> bool" where
  "few_symbols p \<longleftrightarrow> length (symbol_ids p) < 2 ^ 32"

definition keeps :: "grammar_parser \<Rightarrow> grammar_parser \<Rightarrow> bool" where
  "keeps p p' \<longleftrightarrow> length (symbol_ids p) \<le> length (symbol_ids p') \<and>
     (few_symbols p' \<longrightarrow> parser_inv p \<longrightarrow> parser_inv p' \<and> set (symbol_ids p) \<subseteq> set (symbol_ids p'))"

definition keeps_refs :: "grammar_parser \<Rightarrow> rule \<Rightarrow> grammar_parser \<Rightarrow> rule \<Rightarrow> bool" where
  "keeps_refs p r p' r' \<longleftrightarrow> length (symbol_ids p) \<le> length (symbol_ids p') \<and>
     (few_symbols p' \<longrightarrow> parser_inv p \<longrightarrow> refs_in p r \<longrightarrow>
      parser_inv p' \<and> set (symbol_ids p) \<subseteq> set (symbol_ids p') \<and> refs_in p' r')"

lemma keeps_refl [intro, simp]: "keeps p p"
  by (simp add: keeps_def)

lemma keeps_few: "keeps p p' \<Longrightarrow> few_symbols p' \<Longrightarrow> few_symbols p"
  by (simp add: keeps_def few_symbols_def)

lemma keeps_trans: "keeps p q \<Longrightarrow> keeps q r \<Longrightarrow> keeps p r"
  using keeps_few [of q r] by (auto simp: keeps_def)

lemma refs_mono: "refs_in p r \<Longrightarrow> set (symbol_ids p) \<subseteq> set (symbol_ids p') \<Longrightarrow> refs_in p' r"
  by (auto simp: refs_in_def)

lemma refs_append [simp]: "refs_in p (r @ s) \<longleftrightarrow> refs_in p r \<and> refs_in p s"
  by (auto simp: refs_in_def)

lemma refs_simple [simp]: "refs_in p []" "ty \<noteq> LLAMA_GRETYPE_RULE_REF \<Longrightarrow> refs_in p [elem ty v]"
  by (auto simp: refs_in_def)

lemma refs_ref: "refs_in p [elem LLAMA_GRETYPE_RULE_REF v] \<longleftrightarrow> v \<in> snd ` set (symbol_ids p)"
  by (simp add: refs_in_def)

lemma keeps_refs_trans: "keeps_refs p r q s \<Longrightarrow> keeps_refs q s p' r' \<Longrightarrow> keeps_refs p r p' r'"
  unfolding keeps_refs_def few_symbols_def by (meson le_trans order_le_less_trans subset_trans)

lemma keeps_refsI: "keeps p p' \<Longrightarrow> keeps_refs p r p' r"
  using refs_mono by (auto simp: keeps_def keeps_refs_def)

lemma keeps_refs_keeps: "keeps_refs p [] p' r' \<Longrightarrow> keeps p p'"
  by (auto simp: keeps_def keeps_refs_def)

lemma keeps_refs_append:
  "keeps_refs p r p' r' \<Longrightarrow> (few_symbols p' \<Longrightarrow> parser_inv p \<Longrightarrow> refs_in p r \<Longrightarrow> refs_in p' s) \<Longrightarrow> keeps_refs p r p' (r' @ s)"
  by (simp add: keeps_refs_def)

lemma parser_inv_ids:
  assumes "parser_inv p" "table_ok ids" "set (symbol_ids p) \<subseteq> set ids"
  shows "parser_inv (p\<lparr>symbol_ids := ids\<rparr>)"
  unfolding parser_inv_def
proof (intro conjI ballI)
  fix r assume "r \<in> set (p_rules (p\<lparr>symbol_ids := ids\<rparr>))"
  then have "r = [] \<or> closed_rule r \<and> refs_in p r" using assms(1) by (simp add: parser_inv_def)
  then show "r = [] \<or> closed_rule r \<and> refs_in (p\<lparr>symbol_ids := ids\<rparr>) r" using refs_mono [of p r] assms(3) by auto
qed (use assms(2) in simp)

lemma table_append:
  "table_ok ids \<Longrightarrow> name_ok nm \<or> (\<exists>base. name_ok base \<and> nm = gen_name base (length ids)) \<Longrightarrow>
   table_ok (ids @ [(nm, of_nat (length ids))])"
  by (auto simp: table_ok_def nth_append less_Suc_eq)

lemma get_symbol_keeps:
  assumes "get_symbol_id nm p = (i, p')" "name_ok nm"
  shows "keeps p p'" "i \<in> snd ` set (symbol_ids p')"
proof -
  show "keeps p p'"
  proof (cases "map_of (symbol_ids p) nm")
    case None
    then have p': "p' = p\<lparr>symbol_ids := symbol_ids p @ [(nm, of_nat (length (symbol_ids p)))]\<rparr>"
      using assms(1) by (auto simp: get_symbol_id_def Let_def)
    show ?thesis unfolding p' keeps_def
      using assms(2) by (auto intro!: parser_inv_ids table_append simp: parser_inv_def [of p])
  qed (use assms in \<open>auto simp: get_symbol_id_def\<close>)
  show "i \<in> snd ` set (symbol_ids p')"
    using assms(1) by (auto simp: get_symbol_id_def Let_def split: option.splits dest!: map_of_SomeD) force
qed

lemma fresh_name:
  assumes "table_ok ids" "name_ok base"
  shows "map_of ids (gen_name base (length ids)) = None"
proof (rule ccontr)
  assume "map_of ids (gen_name base (length ids)) \<noteq> None"
  then obtain v where "(gen_name base (length ids), v) \<in> set ids" by (auto dest: map_of_SomeD)
  then obtain i where i: "i < length ids" "ids ! i = (gen_name base (length ids), v)" by (auto simp: in_set_conv_nth)
  then have "name_ok (gen_name base (length ids)) \<or> (\<exists>b. name_ok b \<and> gen_name base (length ids) = gen_name b i)"
    using assms(1) by (fastforce simp: table_ok_def)
  then show False using gen_name_not_ok gen_name_inject [OF assms(2)] i(1) by blast
qed

lemma generate_keeps:
  assumes "generate_symbol_id base p = (i, p')" "name_ok base"
  shows "keeps p p'" "few_symbols p' \<Longrightarrow> parser_inv p \<Longrightarrow> i \<in> snd ` set (symbol_ids p')"
proof -
  let ?ids = "symbol_ids p"
  have len: "length ?ids \<le> length (symbol_ids p')" using assms(1) by (auto simp: generate_symbol_id_def Let_def split: if_splits)
  have ap: "p' = p\<lparr>symbol_ids := ?ids @ [(gen_name base (length ?ids), i)]\<rparr> \<and> i = of_nat (length ?ids)"
    if "few_symbols p'" "parser_inv p"
  proof -
    have "unat (of_nat (length ?ids) :: u32) = length ?ids"
      using that(1) len by (simp add: few_symbols_def unat_of_nat take_bit_nat_eq_self)
    then show ?thesis using assms(1) fresh_name [OF _ assms(2), of ?ids] that(2)
      by (auto simp: generate_symbol_id_def Let_def gen_name_def parser_inv_def)
  qed
  show "keeps p p'" unfolding keeps_def
    using len ap assms(2) by (auto intro!: parser_inv_ids table_append simp: parser_inv_def [of p])
  show "i \<in> snd ` set (symbol_ids p')" if "few_symbols p'" "parser_inv p" using ap [OF that] by auto
qed

lemma add_rule_keeps:
  assumes "few_symbols p \<Longrightarrow> parser_inv p \<Longrightarrow> closed_rule r \<and> refs_in p r"
  shows "keeps p (add_rule i r p)"
proof -
  have "set (p_rules (add_rule i r p)) \<subseteq> insert r (insert [] (set (p_rules p)))"
    by (auto simp: add_rule_def dest!: set_update_subset_insert [THEN subsetD] split: if_splits)
  moreover have "symbol_ids (add_rule i r p) = symbol_ids p" by (simp add: add_rule_def)
  moreover have "refs_in (add_rule i r p) s \<longleftrightarrow> refs_in p s" for s by (simp add: refs_in_def add_rule_def)
  ultimately show ?thesis using assms by (auto simp: keeps_def parser_inv_def few_symbols_def)
qed

lemma add_rule_ids [simp]: "symbol_ids (add_rule i r p) = symbol_ids p"
  by (simp add: add_rule_def)

lemma refs_add_rule [simp]: "refs_in (add_rule i r p) s = refs_in p s" "few_symbols (add_rule i r p) = few_symbols p"
  by (simp_all add: refs_in_def few_symbols_def)

lemma open_ref: "open_rule [elem LLAMA_GRETYPE_RULE_REF v]"
  by (rule open_single) (simp_all add: start_type_def)

lemma open_alt: "open_rule [elem LLAMA_GRETYPE_ALT v]"
  by (rule open_single) (simp_all add: start_type_def)

lemma closed_append: "open_rule r \<Longrightarrow> closed_rule (r @ [elem LLAMA_GRETYPE_END v])"
  by (auto simp: closed_rule_def)

lemma opt_rules_keeps:
  "opt_rules n name unb prev later last_id p = (lid, p') \<Longrightarrow> open_rule prev \<Longrightarrow> name_ok name \<Longrightarrow>
   length (symbol_ids p) \<le> length (symbol_ids p') \<and>
   (few_symbols p' \<longrightarrow> parser_inv p \<longrightarrow> refs_in p prev \<longrightarrow> (later \<longrightarrow> last_id \<in> snd ` set (symbol_ids p)) \<longrightarrow>
     parser_inv p' \<and> set (symbol_ids p) \<subseteq> set (symbol_ids p') \<and> (later \<or> n > 0 \<longrightarrow> lid \<in> snd ` set (symbol_ids p')))"
proof (induction n arbitrary: later last_id p)
  case (Suc n)
  obtain i p1 where g: "generate_symbol_id name p = (i, p1)" by force
  let ?opt = "if later \<or> unb then [elem LLAMA_GRETYPE_RULE_REF (if unb then i else last_id)] else []"
  let ?rec = "prev @ ?opt @ [elem LLAMA_GRETYPE_ALT 0, elem LLAMA_GRETYPE_END 0]"
  let ?p2 = "add_rule i ?rec p1"
  have rest: "opt_rules n name unb prev True i ?p2 = (lid, p')" using Suc.prems(1) g by (simp add: Let_def)
  note IH = Suc.IH [OF rest Suc.prems(2,3)]
  note k1 = generate_keeps [OF g Suc.prems(3)]
  have "open_rule ((prev @ ?opt) @ [elem LLAMA_GRETYPE_ALT 0])"
    by (intro open_append Suc.prems(2) open_alt) (simp add: open_ref open_Nil)
  then have closed: "closed_rule ?rec" using closed_append [of "(prev @ ?opt) @ [elem LLAMA_GRETYPE_ALT 0]" 0] by simp
  have len: "length (symbol_ids p) \<le> length (symbol_ids p1)" using k1(1) by (simp add: keeps_def)
  show ?case
  proof (intro conjI impI)
    show "length (symbol_ids p) \<le> length (symbol_ids p')" using len IH by simp
    assume f: "few_symbols p'" "parser_inv p" "refs_in p prev" "later \<longrightarrow> last_id \<in> snd ` set (symbol_ids p)"
    have f1: "few_symbols p1" using f(1) IH by (simp add: few_symbols_def)
    have 1: "parser_inv p1" "set (symbol_ids p) \<subseteq> set (symbol_ids p1)" "i \<in> snd ` set (symbol_ids p1)"
      using k1 f f1 by (simp_all add: keeps_def)
    have prev: "refs_in p1 prev" "later \<longrightarrow> last_id \<in> snd ` set (symbol_ids p1)" using refs_mono [OF f(3) 1(2)] f(4) 1(2) by blast+
    then have "refs_in p1 ?opt" using 1(3) by (simp add: refs_ref)
    moreover have "refs_in p1 [elem LLAMA_GRETYPE_ALT 0, elem LLAMA_GRETYPE_END 0]" by (simp add: refs_in_def)
    ultimately have "refs_in p1 ?rec" using prev(1) by (simp only: refs_append)
    then have "keeps p1 ?p2" using closed by (intro add_rule_keeps) blast
    then have 2: "parser_inv ?p2" using 1(1) f1 by (simp add: keeps_def)
    have 3: "parser_inv p' \<and> set (symbol_ids ?p2) \<subseteq> set (symbol_ids p') \<and> (True \<or> n > 0 \<longrightarrow> lid \<in> snd ` set (symbol_ids p'))"
      using IH f(1) 2 prev(1) 1(3) by simp
    show "parser_inv p'" "set (symbol_ids p) \<subseteq> set (symbol_ids p')" "lid \<in> snd ` set (symbol_ids p')" using 3 1(2) by auto
  qed
qed simp

lemma handle_keeps:
  assumes "handle_repetitions name a b l r p = Inr (r', p')" "open_rule r" "sym_at l r" "name_ok name"
  shows "open_rule r' \<and> sym_at l r' \<and> keeps_refs p r p' r'"
proof -
  have lt: "l < length r" using assms(1,3) by (auto simp: handle_repetitions_def sym_at_def Let_def split: if_splits prod.splits)
  let ?prev = "drop l r"
  let ?n = "if b < 0 then 1 else b - a"
  let ?r1 = "if a = 0 then take l r else r @ concat (replicate (nat (a - 1)) ?prev)"
  obtain lid p1 where o: "opt_rules (nat ?n) name (b < 0) ?prev False 0 p = (lid, p1)" by force
  have res: "r' = (if ?n > 0 then ?r1 @ [elem LLAMA_GRETYPE_RULE_REF lid] else ?r1)" "p' = p1"
    using assms(1) lt o by (auto simp: handle_repetitions_def Let_def)
  have st: "start_type (gtype (r ! l))" using assms(3) lt by (simp add: sym_at_def)
  have prev: "open_rule ?prev" by (rule open_drop [OF assms(2) lt st])
  have r1: "open_rule ?r1" using assms(2) prev by (auto intro: open_append open_take open_concat)
  then have "open_rule r'" using res(1) open_append [OF r1 open_ref] by simp
  moreover have "sym_at l r'" using lt st unfolding res(1) by (auto simp: sym_at_def nth_append start_type_def)
  moreover have "keeps_refs p r p' r'"
  proof -
    have split: "refs_in q r \<longleftrightarrow> refs_in q (take l r) \<and> refs_in q ?prev" for q
      by (metis append_take_drop_id refs_append)
    have conc: "refs_in q (concat (replicate n s))" if "refs_in q s" for n s q using that by (auto simp: refs_in_def)
    note k = opt_rules_keeps [OF o prev assms(4)]
    show ?thesis
      unfolding keeps_refs_def res(2)
    proof (intro conjI impI)
      show "length (symbol_ids p) \<le> length (symbol_ids p1)" using k by simp
      assume f: "few_symbols p1" "parser_inv p" "refs_in p r"
      then have 1: "parser_inv p1" "set (symbol_ids p) \<subseteq> set (symbol_ids p1)" "?n > 0 \<Longrightarrow> lid \<in> snd ` set (symbol_ids p1)"
        using k split [of p] by auto
      then have "refs_in p1 r" using refs_mono [OF f(3)] by simp
      then have "refs_in p1 ?r1" using split [of p1] conc by auto
      then show "refs_in p1 r'" using 1(3) unfolding res(1) by (auto simp: refs_ref)
      show "parser_inv p1" "set (symbol_ids p) \<subseteq> set (symbol_ids p1)" using 1 by auto
    qed
  qed
  ultimately show ?thesis by blast
qed

lemma on_ok_Inr: "on_ok res f = Inr y \<longleftrightarrow> (\<exists>x. res = Inr x \<and> f x = Inr y)"
  by (cases res) (auto simp: on_ok_def)

lemma parse_name_ok: "parse_name pos = Inr (nm, q) \<Longrightarrow> name_ok nm"
  by (auto simp: parse_name_def name_ok_def Let_def dest: set_takeWhileD split: if_splits)

definition item_good :: "grammar_parser \<Rightarrow> rule \<Rightarrow> nat \<Rightarrow> rule \<Rightarrow> grammar_parser \<Rightarrow> bool" where
  "item_good p r l' r' p' \<longleftrightarrow> open_rule r' \<and> sym_at l' r' \<and> keeps_refs p r p' r'"

lemma repeat_good:
  assumes "repeat_item pos name a b l r p = Inr (Some (pos', l', r', p'))" "open_rule r" "sym_at l r" "name_ok name"
  shows "item_good p r l' r' p'"
  using assms handle_keeps [of name a b l r p] by (auto simp: repeat_item_def on_ok_Inr item_good_def)

lemma plain_good:
  assumes "open_rule (r @ s)" "\<forall>e \<in> set s. gtype e \<noteq> LLAMA_GRETYPE_RULE_REF" "s \<noteq> [] \<Longrightarrow> start_type (gtype (hd s))"
  shows "item_good p r (length r) (r @ s) p"
  using assms by (auto simp: item_good_def sym_at_def keeps_refs_def refs_in_def nth_append hd_conv_nth)

lemma item_keeps:
  assumes "seq_item k pos name nested l r p = Inr (Some (pos', l', r', p'))" "open_rule r" "sym_at l r" "name_ok name"
  shows "item_good p r l' r' p'"
proof -
  consider (lit) "peek pos = 34" | (cls) "peek pos = 91" | (nm) "peek pos \<noteq> 34" "peek pos \<noteq> 91" "is_word_char (peek pos)"
    | (other) "peek pos \<noteq> 34" "peek pos \<noteq> 91" "\<not> is_word_char (peek pos)" by blast
  then show ?thesis
  proof cases
    case lit
    then obtain q where q: "literal_loop k (tl pos) r = Inr (q, r')" "l' = length r" "p' = p"
      using assms(1) by (auto simp: seq_item_def on_ok_Inr)
    from literal_open [OF q(1) assms(2)] show ?thesis
      unfolding q(2,3) by (auto intro!: plain_good simp: start_type_def dest: hd_in_set)
  next
    case cls
    let ?ty = "if peek (tl pos) = 94 then LLAMA_GRETYPE_CHAR_NOT else LLAMA_GRETYPE_CHAR"
    from cls obtain q0 q where q: "class_loop k q0 ?ty (length r) r = Inr (q, r')" "l' = length r" "p' = p"
      using assms(1) by (auto simp: seq_item_def on_ok_Inr Let_def)
    have ct: "class_tail ?ty (length r) r" using assms(2) by (simp add: class_tail_def follows_def)
    have ty: "?ty = LLAMA_GRETYPE_CHAR \<or> ?ty = LLAMA_GRETYPE_CHAR_NOT" by simp
    from class_loop_open [OF q(1) ct ty] obtain s where s: "class_tail ?ty (length r) r'" "r' = r @ s" by blast
    have noref: "\<forall>e \<in> set s. gtype e \<noteq> LLAMA_GRETYPE_RULE_REF" using s by (auto simp: class_tail_def split: if_splits)
    have hd: "s \<noteq> [] \<Longrightarrow> start_type (gtype (hd s))"
      using s by (auto simp: class_tail_def nth_append hd_conv_nth start_type_def)
    show ?thesis unfolding q(2,3) s(2) by (rule plain_good [OF _ noref hd]) (use class_open [OF s(1) ty] s(2) in auto)
  next
    case nm
    then obtain w e i where w: "parse_name pos = Inr (w, e)" "get_symbol_id w p = (i, p')"
      "l' = length r" "r' = r @ [elem LLAMA_GRETYPE_RULE_REF i]"
      using assms(1) by (cases "get_symbol_id (takeWhile is_word_char pos) p") (auto simp: seq_item_def on_ok_Inr parse_name_def Let_def split: if_splits)
    note g = get_symbol_keeps [OF w(2) parse_name_ok [OF w(1)]]
    have "keeps_refs p r p' r'" unfolding w(4) by (rule keeps_refs_append [OF keeps_refsI [OF g(1)]]) (simp add: refs_ref g(2))
    then show ?thesis using open_append [OF assms(2) open_ref] w(3,4)
      by (auto simp: item_good_def sym_at_def start_type_def)
  next
    case other
    have "item_good p r (length r) (r @ [elem LLAMA_GRETYPE_CHAR_ANY 0]) p"
      by (rule plain_good) (auto intro!: open_append assms(2) open_single simp: start_type_def)
    then show ?thesis using other assms(1) repeat_good [OF _ assms(2-4)]
      by (auto simp: seq_item_def on_ok_Inr split: if_splits prod.splits)
  qed
qed


subsection \<open>The recursion\<close>

lemma parser_good:
  "(parse_alternates k pos name rid nested p = Inr (pos', p') \<longrightarrow> name_ok name \<longrightarrow> keeps p p') \<and>
   (more_alternates k pos name nested r p = Inr (pos', r', p') \<longrightarrow> name_ok name \<longrightarrow> open_rule r \<longrightarrow>
      open_rule r' \<and> keeps_refs p r p' r') \<and>
   (parse_sequence k pos name nested l r p = Inr (pos', r', p') \<longrightarrow> name_ok name \<longrightarrow> open_rule r \<longrightarrow> sym_at l r \<longrightarrow>
      open_rule r' \<and> keeps_refs p r p' r')"
proof (induction k arbitrary: pos rid nested l r p pos' r' p')
  case (Suc k)
  have alt: "keeps q q'" if "parse_alternates k x name i b q = Inr (y, q')" "name_ok name" for x i b q y q'
    using Suc [THEN conjunct1] that by blast
  have more: "open_rule s' \<and> keeps_refs q s q' s'" if "more_alternates k x name b s q = Inr (y, s', q')" "name_ok name" "open_rule s"
    for x b q y q' s s' using Suc [THEN conjunct2, THEN conjunct1] that by blast
  have seq: "open_rule s' \<and> keeps_refs q s q' s'" if "parse_sequence k x name b l s q = Inr (y, s', q')" "name_ok name" "open_rule s" "sym_at l s"
    for x b q y q' s s' l using Suc [THEN conjunct2, THEN conjunct2] that by blast
  have end_ok: "sym_at (length s) s" for s by (simp add: sym_at_def)
  show ?case
  proof (intro conjI impI)
    assume a: "parse_alternates (Suc k) pos name rid nested p = Inr (pos', p')" "name_ok name"
    then obtain x1 r1 p1 x2 r2 p2 where 1: "parse_sequence k pos name nested 0 [] p = Inr (x1, r1, p1)"
      "more_alternates k x1 name nested r1 p1 = Inr (x2, r2, p2)" "p' = add_rule rid (r2 @ [elem LLAMA_GRETYPE_END 0]) p2"
      by (auto simp: on_ok_Inr split: prod.splits)
    have 2: "open_rule r1" "keeps_refs p [] p1 r1" using seq [OF 1(1) a(2)] open_Nil end_ok [of "[]"] by auto
    then have 3: "open_rule r2" "keeps_refs p [] p2 r2" using more [OF 1(2) a(2)] keeps_refs_trans by blast+
    have "keeps p p'"
      unfolding keeps_def
    proof (intro conjI impI)
      show "length (symbol_ids p) \<le> length (symbol_ids p')" using 3(2) by (simp add: keeps_refs_def 1(3))
      assume f: "few_symbols p'" "parser_inv p"
      then have i: "parser_inv p2" "set (symbol_ids p) \<subseteq> set (symbol_ids p2)" "refs_in p2 r2" "few_symbols p2"
        using 3(2) by (simp_all add: keeps_refs_def 1(3))
      have "keeps p2 p'" unfolding 1(3) by (rule add_rule_keeps) (use closed_append [OF 3(1)] i(3) in simp)
      then show "parser_inv p'" "set (symbol_ids p) \<subseteq> set (symbol_ids p')" using i f(1) by (auto simp: keeps_def)
    qed
    then show "keeps p p'" .
  next
    assume a: "more_alternates (Suc k) pos name nested r p = Inr (pos', r', p')" "name_ok name" "open_rule r"
    have "open_rule r' \<and> keeps_refs p r p' r'"
    proof (cases "peek pos = 124")
      case True
      then obtain x1 r1 p1 where 1: "parse_sequence k (parse_space (tl pos) True) name nested (Suc (length r)) (r @ [elem LLAMA_GRETYPE_ALT 0]) p = Inr (x1, r1, p1)"
        "more_alternates k x1 name nested r1 p1 = Inr (pos', r', p')" using a(1) by (auto simp: on_ok_Inr)
      have "sym_at (Suc (length r)) (r @ [elem LLAMA_GRETYPE_ALT 0])" using end_ok [of "r @ [elem LLAMA_GRETYPE_ALT 0]"] by simp
      then have 2: "open_rule r1" "keeps_refs p (r @ [elem LLAMA_GRETYPE_ALT 0]) p1 r1"
        using seq [OF 1(1) a(2) open_append [OF a(3) open_alt]] by auto
      have "keeps_refs p r p (r @ [elem LLAMA_GRETYPE_ALT 0])" by (rule keeps_refs_append [OF keeps_refsI [OF keeps_refl]]) simp
      then show ?thesis using more [OF 1(2) a(2) 2(1)] 2(2) keeps_refs_trans by blast
    next
      case False
      then show ?thesis using a keeps_refsI [OF keeps_refl] by auto
    qed
    then show "open_rule r'" "keeps_refs p r p' r'" by auto
  next
    assume a: "parse_sequence (Suc k) pos name nested l r p = Inr (pos', r', p')" "name_ok name" "open_rule r" "sym_at l r"
    consider "peek pos = 0" | (grp) "peek pos = 40" | (item) "peek pos \<noteq> 0" "peek pos \<noteq> 40" by blast
    then have "open_rule r' \<and> keeps_refs p r p' r'"
    proof cases
      case 1
      then show ?thesis using a keeps_refsI [OF keeps_refl] by auto
    next
      case grp
      obtain i p1 where g: "generate_symbol_id name p = (i, p1)" by force
      from grp a(1) g obtain x2 p2 where 1: "parse_alternates k (parse_space (tl pos) True) name i True p1 = Inr (x2, p2)"
        "parse_sequence k (parse_space (tl x2) nested) name nested (length r) (r @ [elem LLAMA_GRETYPE_RULE_REF i]) p2 = Inr (pos', r', p')"
        by (auto simp: on_ok_Inr split: if_splits prod.splits)
      have s: "sym_at (length r) (r @ [elem LLAMA_GRETYPE_RULE_REF i])" by (simp add: sym_at_def start_type_def)
      note k1 = generate_keeps [OF g a(2)] and k2 = alt [OF 1(1) a(2)]
      have "keeps_refs p r p2 (r @ [elem LLAMA_GRETYPE_RULE_REF i])"
      proof (rule keeps_refs_append [OF keeps_refsI [OF keeps_trans [OF k1(1) k2]]])
        assume f: "few_symbols p2" "parser_inv p"
        have f1: "few_symbols p1" by (rule keeps_few [OF k2 f(1)])
        have "parser_inv p1" using k1(1) f1 f(2) by (simp add: keeps_def)
        then have "set (symbol_ids p1) \<subseteq> set (symbol_ids p2)" using k2 f(1) by (simp add: keeps_def)
        then show "refs_in p2 [elem LLAMA_GRETYPE_RULE_REF i]" using k1(2) [OF f1 f(2)] by (auto simp: refs_ref)
      qed
      then show ?thesis using seq [OF 1(2) a(2) open_append [OF a(3) open_ref] s] keeps_refs_trans by blast
    next
      case item
      then obtain it where it: "seq_item k pos name nested l r p = Inr it"
        "(case it of None \<Rightarrow> Inr (pos, r, p) | Some (x, l1, r1, p1) \<Rightarrow> parse_sequence k x name nested l1 r1 p1) = Inr (pos', r', p')"
        using a(1) by (auto simp: on_ok_Inr)
      show ?thesis
      proof (cases it)
        case None
        then show ?thesis using it(2) a keeps_refsI [OF keeps_refl] by auto
      next
        case (Some y)
        obtain x l1 r1 p1 where y: "y = (x, l1, r1, p1)" by (cases y)
        have "item_good p r l1 r1 p1" by (rule item_keeps [OF _ a(3,4,2)]) (use it(1) Some y in simp)
        then have 1: "open_rule r1" "sym_at l1 r1" "keeps_refs p r p1 r1" by (auto simp: item_good_def)
        have "parse_sequence k x name nested l1 r1 p1 = Inr (pos', r', p')" using it(2) Some y by simp
        from seq [OF this a(2) 1(1,2)] show ?thesis using 1(3) keeps_refs_trans by blast
      qed
    qed
    then show "open_rule r'" "keeps_refs p r p' r'" by auto
  qed
qed simp

lemma rule_keeps: "parse_rule k pos p = Inr (pos', p') \<Longrightarrow> keeps p p'"
proof -
  assume "parse_rule k pos p = Inr (pos', p')"
  then obtain nm e i p1 q x p2 where 1: "parse_name pos = Inr (nm, e)" "get_symbol_id nm p = (i, p1)"
    "parse_alternates k q nm i False p1 = Inr (x, p2)" "p' = p2"
    by (cases "get_symbol_id (takeWhile is_word_char pos) p") (auto simp: parse_rule_def on_ok_Inr parse_name_def Let_def split: if_splits)
  have nm: "name_ok nm" by (rule parse_name_ok [OF 1(1)])
  show "keeps p p'" using keeps_trans [OF get_symbol_keeps(1) [OF 1(2) nm]] parser_good 1(3,4) nm by blast
qed

lemma rules_keeps: "parse_rules n k pos p = Inr p' \<Longrightarrow> keeps p p'"
proof (induction n arbitrary: pos p)
  case (Suc n)
  show ?case
  proof (cases "peek pos = 0")
    case False
    then obtain q p1 where "parse_rule k pos p = Inr (q, p1)" "parse_rules n k q p1 = Inr p'"
      using Suc.prems by (auto simp: on_ok_Inr)
    then show ?thesis using rule_keeps Suc.IH keeps_trans by blast
  qed (use Suc.prems in simp)
qed simp

lemma closed_wf:
  assumes "closed_rule r" "\<forall>e \<in> set r. gtype e = LLAMA_GRETYPE_RULE_REF \<longrightarrow> unat (gvalue e) < n"
  shows "wf_rule n r"
proof -
  obtain r0 v where r: "r = r0 @ [elem LLAMA_GRETYPE_END v]" "open_rule r0" using assms(1) by (auto simp: closed_rule_def)
  have f: "follows r" using r by (cases "r0 = []")
    (auto simp: open_rule_def follows_def successively_append_iff start_follows start_type_def)
  have e: "gtype (r ! i) = LLAMA_GRETYPE_END \<longleftrightarrow> Suc i = length r" if "i < length r" for i
    using that r by (auto simp: open_rule_def nth_append less_Suc_eq)
  have s: "start_type (gtype (r ! 0))"
    using r by (cases r0) (auto simp: open_rule_def start_type_def)
  show ?thesis unfolding wf_rule_def
    using assms(2) e s f r(1) by (auto simp: follows_def successively_conv_nth)
qed

lemma parsed_rules_wf:
  assumes "parse_text src = Inr p" "length (symbol_ids p) < 2 ^ 32"
  shows "wf_rules (p_rules p)"
proof -
  obtain n k pos where p: "parse_rules n k pos empty_parser = Inr p" "validate p"
    using assms(1) by (auto simp: parse_text_def on_ok_Inr Let_def simp del: parse_rules.simps split: if_splits)
  have "parser_inv empty_parser" by (simp add: parser_inv_def empty_parser_def table_ok_def)
  then have inv: "parser_inv p" using rules_keeps [OF p(1)] assms(2) by (simp add: keeps_def few_symbols_def)
  have "wf_rule (length (p_rules p)) r" if r: "r \<in> set (p_rules p)" for r
  proof (rule closed_wf)
    have v: "r \<noteq> []" "\<forall>e \<in> set r. \<not> undefined_ref p e" using p(2) r by (auto simp: validate_def)
    then have c: "closed_rule r" "refs_in p r" using inv r by (auto simp: parser_inv_def)
    show "closed_rule r" by (fact c)
    show "\<forall>e \<in> set r. gtype e = LLAMA_GRETYPE_RULE_REF \<longrightarrow> unat (gvalue e) < length (p_rules p)"
      using v(2) c(2) by (force simp: undefined_ref_def refs_in_def)
  qed
  then show ?thesis by (simp add: wf_rules_def)
qed

text \<open>
  C36: What the parser accepts is a well-formed grammar: no rule is empty, every rule ends with its
  only END element, ranges and alternative characters follow a character of their class, and every
  reference is to a rule that exists.  So the pushdown engine never reads past a rule and never
  hits its aborts on a parsed grammar (below 2^32 symbols).
\<close>

theorem parsed_grammar_well_formed:
  assumes "parse_text src = Inr p" "length (symbol_ids p) < 2 ^ 32"
  shows "wf_rules (p_rules p)"
  by (rule parsed_rules_wf [OF assms])

lemma parse_undefined_root:
  "parse_text [102, 111, 111, 32, 58, 58, 61, 32, 114, 111, 111, 116, 123, 48, 125, 32, 34, 120, 34] =
     Inr \<lparr>symbol_ids = [([102, 111, 111], 0), ([114, 111, 111, 116], 1)],
           p_rules = [[elem LLAMA_GRETYPE_CHAR 120, elem LLAMA_GRETYPE_END 0]]\<rparr>"
  by code_simp

theorem parsed_grammar_well_formed_witness:
  "\<exists>p. parse_text [114, 111, 111, 116, 58, 58, 61, 91, 97, 45, 122, 93, 43, 40, 34, 44, 34, 114, 111, 111, 116, 41, 63] = Inr p \<and>
    length (p_rules p) = 4 \<and> wf_rules (p_rules p)"
proof -
  have "parse_text [114, 111, 111, 116, 58, 58, 61, 91, 97, 45, 122, 93, 43, 40, 34, 44, 34, 114, 111, 111, 116, 41, 63] =
    Inr \<lparr>symbol_ids = [([114, 111, 111, 116], 0), ([114, 111, 111, 116, 95, 49], 1), ([114, 111, 111, 116, 95, 50], 2), ([114, 111, 111, 116, 95, 51], 3)],
      p_rules = [[elem LLAMA_GRETYPE_CHAR 97, elem LLAMA_GRETYPE_CHAR_RNG_UPPER 122, elem LLAMA_GRETYPE_RULE_REF 1, elem LLAMA_GRETYPE_RULE_REF 3, elem LLAMA_GRETYPE_END 0],
        [elem LLAMA_GRETYPE_CHAR 97, elem LLAMA_GRETYPE_CHAR_RNG_UPPER 122, elem LLAMA_GRETYPE_RULE_REF 1, elem LLAMA_GRETYPE_ALT 0, elem LLAMA_GRETYPE_END 0],
        [elem LLAMA_GRETYPE_CHAR 44, elem LLAMA_GRETYPE_RULE_REF 0, elem LLAMA_GRETYPE_END 0],
        [elem LLAMA_GRETYPE_RULE_REF 2, elem LLAMA_GRETYPE_ALT 0, elem LLAMA_GRETYPE_END 0]]\<rparr>"
    by code_simp
  from parsed_grammar_well_formed [OF this] this show ?thesis by simp
qed

text \<open>
  A reference that is repeated zero times leaves its name in the symbol table without a rule.
  For the input \<open>foo ::= root{0} "x"\<close> the parser succeeds with the single rule of \<open>foo\<close> while
  \<open>root\<close> has number 1, so \<open>llama_grammar_init_impl\<close> finds "root" and reads \<open>vec_rules[1]\<close> of a
  vector of length 1.
\<close>

theorem undefined_root_read_out_of_bounds:
  "llama_grammar_init_str fuel valid_regex
     [102, 111, 111, 32, 58, 58, 61, 32, 114, 111, 111, 116, 123, 48, 125, 32, 34, 120, 34]
     [114, 111, 111, 116] lz patterns tokens = Some Out_of_bounds"
proof -
  have "any_left_recursion (Suc (Suc 0)) [[elem LLAMA_GRETYPE_CHAR 120, elem LLAMA_GRETYPE_END 0]] = Some False"
    by (simp add: any_left_recursion_def is_end_type_def Let_def)
  then show ?thesis unfolding llama_grammar_init_str_def parse_undefined_root
    by (simp add: copy_rule_def elem_def [of LLAMA_GRETYPE_END, symmetric])
qed

subsection \<open>The left-recursion check ends\<close>

definition check_size :: "nat \<Rightarrow> recursion_check \<Rightarrow> bool" where
  "check_size n s \<longleftrightarrow> length (rules_in_progress s) = n \<and> length (rules_visited s) = n \<and> length (rules_may_be_empty s) = n"

definition idle :: "nat \<Rightarrow> bool list \<Rightarrow> nat set" where
  "idle n b = {i. i < n \<and> \<not> b ! i}"

lemma idle_update: "r < n \<Longrightarrow> length b = n \<Longrightarrow> \<not> b ! r \<Longrightarrow> card (idle n b) = Suc (card (idle n (b[r := True])))"
proof -
  assume a: "r < n" "length b = n" "\<not> b ! r"
  have "idle n b = insert r (idle n (b[r := True]))" using a by (auto simp: idle_def nth_list_update)
  moreover have "r \<notin> idle n (b[r := True])" "finite (idle n (b[r := True]))" using a by (auto simp: idle_def)
  ultimately show ?thesis by simp
qed

lemma detect_total:
  assumes wf: "wf_rules rules"
  shows "check_size (length rules) s \<Longrightarrow> r < length rules \<Longrightarrow> card (idle (length rules) (rules_in_progress s)) < fuel \<Longrightarrow>
    \<exists>b s'. llama_grammar_detect_left_recursion fuel rules r s = Some (b, s') \<and> check_size (length rules) s' \<and>
      (\<not> b \<longrightarrow> rules_in_progress s' = rules_in_progress s)"
proof (induction fuel arbitrary: r s)
  case (Suc fuel)
  let ?n = "length rules"
  show ?case
  proof (cases "rules_in_progress s ! r")
    case True
    then show ?thesis using Suc.prems(1) by (intro exI [of _ True] exI [of _ s]) simp
  next
    case False
    let ?s1 = "s\<lparr>rules_in_progress := (rules_in_progress s)[r := True]\<rparr>"
    define s2 where "s2 = (if has_empty_alternate (rules ! r) True
       then ?s1\<lparr>rules_may_be_empty := (rules_may_be_empty ?s1)[r := True]\<rparr> else ?s1)"
    have s2: "check_size ?n s2" "rules_in_progress s2 = (rules_in_progress s)[r := True]"
      using Suc.prems(1) by (auto simp: s2_def check_size_def)
    define f where "f = (\<lambda>(e :: llama_grammar_element) (found, recurse_into_nonterminal, s).
                 if found then Some (found, recurse_into_nonterminal, s)
                 else if gtype e = LLAMA_GRETYPE_RULE_REF \<and> recurse_into_nonterminal then
                   (case llama_grammar_detect_left_recursion fuel rules (unat (gvalue e)) s of None \<Rightarrow> None
                    | Some (True, s') \<Rightarrow> Some (True, recurse_into_nonterminal, s')
                    | Some (False, s') \<Rightarrow>
                        Some (False, if \<not> rules_may_be_empty s' ! unat (gvalue e) then False else recurse_into_nonterminal, s'))
                 else Some (False, is_end_type (gtype e), s))"
    define P where "P = (\<lambda>(found, rec :: bool, t). check_size ?n t \<and> (\<not> found \<longrightarrow> rules_in_progress t = (rules_in_progress s)[r := True]))"
    have "\<exists>t'. fold_opt f (rules ! r) (False, True, s2) = Some t' \<and> P t'"
    proof (rule fold_opt_total_inv)
      show "P (False, True, s2)" using s2 by (simp add: P_def)
      fix e t assume e: "e \<in> set (rules ! r)" and t: "P t"
      obtain found rec u where u: "t = (found, rec, u)" by (cases t)
      show "\<exists>t'. f e t = Some t' \<and> P t'"
      proof (cases "\<not> found \<and> gtype e = LLAMA_GRETYPE_RULE_REF \<and> rec")
        case True
        have "unat (gvalue e) < ?n" using wf Suc.prems(2) e True by (auto simp: wf_rules_def wf_rule_def)
        moreover have "card (idle ?n (rules_in_progress u)) < fuel"
          using t u True idle_update [OF Suc.prems(2) _ False] Suc.prems(1,3) by (simp add: P_def check_size_def)
        moreover have "check_size ?n u" using t u by (simp add: P_def)
        ultimately obtain b s' where "llama_grammar_detect_left_recursion fuel rules (unat (gvalue e)) u = Some (b, s')"
          "check_size ?n s'" "\<not> b \<longrightarrow> rules_in_progress s' = rules_in_progress u" using Suc.IH by blast
        then show ?thesis using True t u by (cases b) (simp_all add: f_def P_def)
      next
        case False
        then show ?thesis using t u by (auto simp: f_def P_def)
      qed
    qed
    then obtain found rec t where t: "fold_opt f (rules ! r) (False, True, s2) = Some (found, rec, t)" "P (found, rec, t)" by auto
    have restore: "(rules_in_progress s)[r := True, r := False] = rules_in_progress s"
      using False by (metis (full_types) list_update_id list_update_overwrite)
    have "llama_grammar_detect_left_recursion (Suc fuel) rules r s = (if found then Some (True, t)
      else Some (False, t\<lparr>rules_in_progress := (rules_in_progress t)[r := False], rules_visited := (rules_visited t)[r := True]\<rparr>))"
      using False t(1) by (simp add: Let_def s2_def [symmetric] f_def [symmetric])
    then show ?thesis using t(2) restore by (auto simp: P_def check_size_def)
  qed
qed simp

lemma left_recursion_check_total:
  assumes "wf_rules rules"
  shows "any_left_recursion (length rules + 1) rules \<noteq> None"
proof -
  let ?n = "length rules"
  let ?f = "\<lambda>i (found, s). if found \<or> rules_visited s ! i then Some (found, s)
          else llama_grammar_detect_left_recursion (?n + 1) rules i s"
  let ?P = "\<lambda>(found :: bool, s). check_size ?n s"
  have "\<exists>t. fold_opt ?f [0 ..< ?n] (False, \<lparr>rules_visited = replicate ?n False, rules_in_progress = replicate ?n False,
                 rules_may_be_empty = replicate ?n False\<rparr>) = Some t \<and> ?P t"
  proof (rule fold_opt_total_inv)
    fix i t assume i: "i \<in> set [0 ..< ?n]" and t: "?P t"
    obtain found s where s: "t = (found, s)" by force
    have "card (idle ?n (rules_in_progress s)) \<le> card {..<?n}" by (rule card_mono) (auto simp: idle_def)
    then obtain b s' where "llama_grammar_detect_left_recursion (?n + 1) rules i s = Some (b, s')" "check_size ?n s'"
      using detect_total [OF assms, of s i "?n + 1"] i t s by (auto simp: less_Suc_eq_le)
    then show "\<exists>t'. ?f i t = Some t' \<and> ?P t'" using t s by (auto simp del: llama_grammar_detect_left_recursion.simps)
  qed (simp add: check_size_def)
  then show ?thesis unfolding any_left_recursion_def by (auto simp del: Suc_eq_plus1 One_nat_def)
qed

text \<open>
  The check for left recursion ends on every well-formed grammar: one level of recursion more
  than there are rules is enough, because a rule in progress is not entered again.
\<close>

theorem left_recursion_check_terminates:
  assumes "wf_rules rules"
  shows "any_left_recursion (length rules + 1) rules \<noteq> None"
  by (rule left_recursion_check_total [OF assms])

subsection \<open>The left-recursion check reports no grammar without left recursion\<close>

lemma fold_opt_nth_inv:
  assumes "fold_opt f xs s = Some s'" "P 0 s"
    and "\<And>i t t'. i < length xs \<Longrightarrow> P i t \<Longrightarrow> f (xs ! i) t = Some t' \<Longrightarrow> P (Suc i) t'"
  shows "P (length xs) s'"
  using assms
proof (induction xs arbitrary: s' rule: rev_induct)
  case (snoc x xs)
  from snoc.prems(1) obtain t where t: "fold_opt f xs s = Some t" "f x t = Some s'"
    by (auto simp: fold_opt_append split: option.splits)
  have "P (length xs) t"
  proof (rule snoc.IH [OF t(1) snoc.prems(2)])
    fix i u u' assume "i < length xs" "P i u" "f (xs ! i) u = Some u'"
    then show "P (Suc i) u'" using snoc.prems(3) [of i u u'] by (simp add: nth_append)
  qed
  then show ?case using snoc.prems(3) [of "length xs" t s'] t(2) by simp
qed simp

lemma later_alternates_intro:
  "k < length es \<Longrightarrow> gtype (es ! k) = LLAMA_GRETYPE_ALT \<Longrightarrow> (\<forall>j < k. gtype (es ! j) \<noteq> LLAMA_GRETYPE_END) \<Longrightarrow>
     i + k + 1 \<in> set (later_alternates es i)"
proof (induction es arbitrary: i k)
  case (Cons e es)
  show ?case
  proof (cases k)
    case (Suc l)
    have "gtype e \<noteq> LLAMA_GRETYPE_END" "\<forall>j < l. gtype (es ! j) \<noteq> LLAMA_GRETYPE_END"
      using Cons.prems(3) Suc by (auto dest: spec [of _ "Suc _"])
    then show ?thesis using Cons.IH [of l "i + 1"] Cons.prems(1,2) Suc by auto
  qed (use Cons.prems in auto)
qed simp

lemma alternates_start: "(r, 0) \<in> set (alternates rules r)"
  by (simp add: alternates_def)

lemma alternates_next:
  assumes "wf_rules rules" "r < length rules" "i < length (rules ! r)" "gtype (rules ! r ! i) = LLAMA_GRETYPE_ALT"
  shows "(r, Suc i) \<in> set (alternates rules r)"
proof -
  have "wf_rule (length rules) (rules ! r)" using assms(1,2) by (simp add: wf_rules_def)
  then have "\<forall>j < i. gtype (rules ! r ! j) \<noteq> LLAMA_GRETYPE_END" using assms(3) by (auto simp: wf_rule_def)
  from later_alternates_intro [OF assms(3,4) this, of 0] show ?thesis by (simp add: alternates_def)
qed

lemma has_empty_alternate_sound:
  assumes wf: "wf_rules rules" and r: "r < length rules"
  shows "has_empty_alternate (drop i (rules ! r)) b \<Longrightarrow> (b \<Longrightarrow> (r, i) \<in> set (alternates rules r)) \<Longrightarrow> may_be_empty rules r"
proof (induction "length (rules ! r) - i" arbitrary: i b)
  case (Suc n)
  let ?e = "rules ! r ! i"
  have i: "i < length (rules ! r)" using Suc.hyps(2) by simp
  then have d: "drop i (rules ! r) = ?e # drop (Suc i) (rules ! r)" by (simp add: Cons_nth_drop_Suc)
  have n: "n = length (rules ! r) - Suc i" using Suc.hyps(2) by simp
  consider (empty) "is_end_type (gtype ?e)" b | (next_alt) "is_end_type (gtype ?e)" "\<not> b" | (other) "\<not> is_end_type (gtype ?e)"
    by blast
  then show ?case
  proof cases
    case empty
    then have "null_from rules (r, i)"
      by (intro null_end) (simp add: llama_grammar_is_end_of_sequence_def elem_at_def)
    then show ?thesis using Suc.prems(2) empty(2) by (auto simp: may_be_empty_def)
  next
    case next_alt
    show ?thesis
    proof (rule Suc.hyps(1) [OF n])
      show h: "has_empty_alternate (drop (Suc i) (rules ! r)) True" using Suc.prems(1) d next_alt by simp
      then have "Suc i < length (rules ! r)" by (cases "Suc i < length (rules ! r)") auto
      moreover have "wf_rule (length rules) (rules ! r)" using wf r by (simp add: wf_rules_def)
      ultimately have "gtype ?e \<noteq> LLAMA_GRETYPE_END" using i by (auto simp: wf_rule_def)
      then have "gtype ?e = LLAMA_GRETYPE_ALT" using next_alt by (auto simp: is_end_type_def)
      then show "(r, Suc i) \<in> set (alternates rules r)" by (rule alternates_next [OF wf r i])
    qed
  next
    case other
    then show ?thesis using Suc.hyps(1) [OF n, of False] Suc.prems(1) d by simp
  qed
qed simp

text \<open>What the check has marked as possibly empty can derive the empty string.\<close>

definition empties_sound :: "rules \<Rightarrow> recursion_check \<Rightarrow> bool" where
  "empties_sound rules s \<longleftrightarrow> (\<forall>i < length rules. rules_may_be_empty s ! i \<longrightarrow> may_be_empty rules i)"

definition detect_inv :: "rules \<Rightarrow> recursion_check \<Rightarrow> recursion_check \<Rightarrow> bool" where
  "detect_inv rules s s' \<longleftrightarrow> check_size (length rules) s' \<and> empties_sound rules s' \<and> rules_in_progress s' = rules_in_progress s"

lemma detect_sound:
  assumes wf: "wf_rules rules" and rk: "ranked rules rk"
  shows "llama_grammar_detect_left_recursion fuel rules r s = Some (b, s') \<Longrightarrow> check_size (length rules) s \<Longrightarrow>
    empties_sound rules s \<Longrightarrow> r < length rules \<Longrightarrow>
    (\<forall>i < length rules. rules_in_progress s ! i \<longrightarrow> rk r < rk i) \<Longrightarrow> \<not> b \<and> detect_inv rules s s'"
proof (induction fuel arbitrary: r s b s')
  case (Suc fuel)
  let ?n = "length rules" and ?rule = "rules ! r"
  have idle: "\<not> rules_in_progress s ! r" using Suc.prems(4,5) by blast
  let ?s1 = "s\<lparr>rules_in_progress := (rules_in_progress s)[r := True]\<rparr>"
  define s2 where "s2 = (if has_empty_alternate ?rule True
     then ?s1\<lparr>rules_may_be_empty := (rules_may_be_empty ?s1)[r := True]\<rparr> else ?s1)"
  have e0: "has_empty_alternate ?rule True \<Longrightarrow> may_be_empty rules r"
    using has_empty_alternate_sound [OF wf Suc.prems(4), of 0 True] alternates_start by simp
  have upd: "(rules_may_be_empty s)[r := True] ! i \<Longrightarrow> i = r \<or> rules_may_be_empty s ! i" for i
    by (metis nth_list_update_neq)
  have s2: "detect_inv rules ?s1 s2"
    using Suc.prems(2,3) e0 upd by (fastforce simp: s2_def detect_inv_def check_size_def empties_sound_def)
  define f where "f = (\<lambda>(e :: llama_grammar_element) (found, recurse_into_nonterminal, s).
                 if found then Some (found, recurse_into_nonterminal, s)
                 else if gtype e = LLAMA_GRETYPE_RULE_REF \<and> recurse_into_nonterminal then
                   (case llama_grammar_detect_left_recursion fuel rules (unat (gvalue e)) s of None \<Rightarrow> None
                    | Some (True, s') \<Rightarrow> Some (True, recurse_into_nonterminal, s')
                    | Some (False, s') \<Rightarrow>
                        Some (False, if \<not> rules_may_be_empty s' ! unat (gvalue e) then False else recurse_into_nonterminal, s'))
                 else Some (False, is_end_type (gtype e), s))"
  define P where "P = (\<lambda>i (found, rec, t). \<not> found \<and> detect_inv rules ?s1 t \<and>
    (rec \<longrightarrow> i < length ?rule \<longrightarrow> lead_ok rules rk (rk r) (r, i)))"
  have start: "P 0 (False, True, s2)"
    using s2 rk Suc.prems(4) alternates_start by (auto simp: P_def ranked_def)
  have step: "P (Suc i) t'" if i: "i < length ?rule" and t: "P i t" and ft: "f (?rule ! i) t = Some t'" for i t t'
  proof -
    let ?e = "?rule ! i" and ?ref = "unat (gvalue (?rule ! i))"
    obtain rec u where u: "t = (False, rec, u)" "detect_inv rules ?s1 u" "rec \<longrightarrow> lead_ok rules rk (rk r) (r, i)"
      using t i by (auto simp: P_def)
    have wr: "wf_rule ?n ?rule" using wf Suc.prems(4) by (simp add: wf_rules_def)
    have at: "elem_at rules (r, i) = ?e" by (simp add: elem_at_def)
    show ?thesis
    proof (cases "gtype ?e = LLAMA_GRETYPE_RULE_REF \<and> rec")
      case True
      then have lead: "rk ?ref < rk r" "may_be_empty rules ?ref \<longrightarrow> lead_ok rules rk (rk r) (r, Suc i)"
        using u(3) lead_ok_simps [of rules rk "rk r" "(r, i)"] at by (auto simp: next_pos_def)
      have ref: "?ref < ?n" using wr True i nth_mem by (fastforce simp: wf_rule_def)
      obtain b1 s1 where d: "llama_grammar_detect_left_recursion fuel rules ?ref u = Some (b1, s1)"
        using ft u(1) True by (auto simp: f_def split: option.splits)
      have prog: "\<forall>j < ?n. rules_in_progress u ! j \<longrightarrow> rk ?ref < rk j"
        using u(2) lead(1) Suc.prems(2,4,5) by (auto simp: detect_inv_def check_size_def nth_list_update split: if_splits)
      have "\<not> b1 \<and> detect_inv rules u s1"
        by (rule Suc.IH [OF d _ _ ref prog]) (use u(2) in \<open>simp_all add: detect_inv_def\<close>)
      then have s1: "\<not> b1" "detect_inv rules ?s1 s1" using u(2) by (simp_all add: detect_inv_def)
      have "t' = (False, if \<not> rules_may_be_empty s1 ! ?ref then False else rec, s1)"
        using ft u(1) True d s1(1) by (auto simp: f_def)
      then show ?thesis using s1(2) lead(2) ref by (auto simp: P_def detect_inv_def empties_sound_def)
    next
      case False
      then have t': "t' = (False, is_end_type (gtype ?e), u)" using ft u(1) by (auto simp: f_def)
      have "lead_ok rules rk (rk r) (r, Suc i)" if "is_end_type (gtype ?e)" "Suc i < length ?rule"
      proof -
        have "gtype ?e = LLAMA_GRETYPE_ALT" using that wr i by (auto simp: is_end_type_def wf_rule_def)
        from alternates_next [OF wf Suc.prems(4) i this] show ?thesis using rk Suc.prems(4) by (auto simp: ranked_def)
      qed
      then show ?thesis using t' u(2) by (simp add: P_def)
    qed
  qed
  have run: "llama_grammar_detect_left_recursion (Suc fuel) rules r s =
    (case fold_opt f ?rule (False, True, s2) of None \<Rightarrow> None
      | Some (True, _, s3) \<Rightarrow> Some (True, s3)
      | Some (False, _, s3) \<Rightarrow> Some (False, s3\<lparr>rules_in_progress := (rules_in_progress s3)[r := False],
                               rules_visited := (rules_visited s3)[r := True]\<rparr>))"
    using idle by (simp add: Let_def s2_def [symmetric] f_def [symmetric])
  then obtain t where t: "fold_opt f ?rule (False, True, s2) = Some t" using Suc.prems(1) by (cases "fold_opt f ?rule (False, True, s2)") auto
  have "P (length ?rule) t" by (rule fold_opt_nth_inv [where P = P, OF t start step])
  then obtain rec s3 where s3: "t = (False, rec, s3)" "detect_inv rules ?s1 s3" by (auto simp: P_def)
  have "(rules_in_progress s)[r := True, r := False] = rules_in_progress s"
    using idle by (metis (full_types) list_update_id list_update_overwrite)
  then show ?case using Suc.prems(1) run t s3 by (auto simp: detect_inv_def check_size_def empties_sound_def)
qed simp

lemma no_left_recursion_passes:
  assumes wf: "wf_rules rules" and nl: "no_left_recursion rules"
  shows "any_left_recursion (length rules + 1) rules = Some False"
proof -
  obtain rk where rk: "ranked rules rk" using nl by (auto simp: no_left_recursion_def)
  let ?n = "length rules"
  let ?f = "\<lambda>i (found, s). if found \<or> rules_visited s ! i then Some (found, s)
          else llama_grammar_detect_left_recursion (?n + 1) rules i s"
  let ?s0 = "\<lparr>rules_visited = replicate ?n False, rules_in_progress = replicate ?n False, rules_may_be_empty = replicate ?n False\<rparr>"
  let ?P = "\<lambda>(found :: bool, s). \<not> found \<and> detect_inv rules ?s0 s"
  obtain t where t: "fold_opt ?f [0 ..< ?n] (False, ?s0) = Some t"
    using left_recursion_check_total [OF wf] unfolding any_left_recursion_def by (auto split: option.splits)
  have "?P t"
  proof (rule fold_opt_invariant [OF t])
    show "?P (False, ?s0)" by (simp add: detect_inv_def check_size_def empties_sound_def)
    fix i u u' assume i: "i \<in> set [0 ..< ?n]" and u: "?P u" and f: "?f i u = Some u'"
    obtain s where s: "u = (False, s)" "detect_inv rules ?s0 s" using u by (cases u) auto
    have none: "\<forall>j < ?n. rules_in_progress s ! j \<longrightarrow> rk i < rk j" using s(2) by (simp add: detect_inv_def)
    show "?P u'"
    proof (cases "rules_visited s ! i")
      case True
      then show ?thesis using f s by (auto simp del: llama_grammar_detect_left_recursion.simps)
    next
      case False
      obtain b s' where u': "u' = (b, s')" by (cases u')
      then have "llama_grammar_detect_left_recursion (?n + 1) rules i s = Some (b, s')"
        using f s(1) False by (simp del: llama_grammar_detect_left_recursion.simps)
      from detect_sound [OF wf rk this _ _ _ none] show ?thesis using s(2) i u' by (auto simp: detect_inv_def)
    qed
  qed
  then show ?thesis using t unfolding any_left_recursion_def by (auto simp del: Suc_eq_plus1 One_nat_def)
qed

subsection \<open>From the text to the engine\<close>

lemma copy_rule_wf:
  assumes "wf_rule n r"
  shows "wf_rule n (copy_rule r)" "length (copy_rule r) = length r"
proof -
  have ne: "r \<noteq> []" and e: "\<And>i. i < length r \<Longrightarrow> gtype (r ! i) = LLAMA_GRETYPE_END \<longleftrightarrow> Suc i = length r"
    using assms by (auto simp: wf_rule_def)
  obtain r0 x where r: "r = r0 @ [x]" using ne by (cases r rule: rev_cases) auto
  have x: "gtype x = LLAMA_GRETYPE_END" using e [of "length r0"] r by simp
  have r0: "\<forall>y \<in> set r0. gtype y \<noteq> LLAMA_GRETYPE_END"
  proof
    fix y assume "y \<in> set r0"
    then obtain i where "i < length r0" "y = r0 ! i" by (auto simp: in_set_conv_nth)
    then show "gtype y \<noteq> LLAMA_GRETYPE_END" using e [of i] r by (simp add: nth_append)
  qed
  then have c: "copy_rule r = r0 @ [\<lparr>gtype = LLAMA_GRETYPE_END, gvalue = 0\<rparr>]"
    using x by (simp add: copy_rule_def r takeWhile_append)
  then show "length (copy_rule r) = length r" by (simp add: r)
  have ty: "gtype (copy_rule r ! i) = gtype (r ! i)" if "i < length r" for i
  proof -
    have "gtype ((r0 @ [\<lparr>gtype = LLAMA_GRETYPE_END, gvalue = 0\<rparr>]) ! i) = gtype ((r0 @ [x]) ! i)" if "i < Suc (length r0)"
      using that x by (auto simp: nth_append less_Suc_eq)
    then show ?thesis using that c r by simp
  qed
  have "\<forall>e \<in> set (copy_rule r). gtype e = LLAMA_GRETYPE_RULE_REF \<longrightarrow> unat (gvalue e) < n"
    using assms unfolding c by (auto simp: wf_rule_def r)
  then show "wf_rule n (copy_rule r)"
    using assms ty ne \<open>length (copy_rule r) = length r\<close> unfolding wf_rule_def by fastforce
qed

lemma initial_nonempty: "wf_rules rules \<Longrightarrow> initial_stacks k rules r = Some sts \<Longrightarrow> sts \<noteq> []"
proof -
  assume wf: "wf_rules rules" and i: "initial_stacks k rules r = Some sts"
  let ?f = "\<lambda>pos. llama_grammar_advance_stack k rules (push_unless_end rules pos [])"
  obtain qs where q: "alternates rules r = (r, 0) # qs" by (simp add: alternates_def)
  then obtain t where t: "?f (r, 0) [] = Some t" "fold_opt ?f qs t = Some sts"
    using i by (auto simp: initial_stacks_def split: option.splits)
  show "sts \<noteq> []"
    by (rule fold_opt_invariant [OF t(2)]) (use advance_nonempty [OF wf] t(1) in blast)+
qed

text \<open>
  C23: A grammar built from a text is ready for sampling.  When the parser accepts the text, a symbol
  "root" and the start symbol exist, the start symbol has a rule and no rule is left-recursive, the
  left-recursion check reports nothing and \<open>llama_grammar_init_impl\<close> returns a grammar (a regex error
  only for a trigger pattern that the regex library refuses) with the copied rules and the given
  trigger settings.  Its rules are well formed, its set of stacks is not empty, each stack is empty or
  positioned at a character, and together the stacks stand for exactly what the start symbol generates.
\<close>

theorem grammar_from_text_ready:
  assumes "parse_text src = Inr p" "length (symbol_ids p) < 2 ^ 32"
    and "map_of (symbol_ids p) [114, 111, 111, 116] \<noteq> None"
    and "map_of (symbol_ids p) root = Some start" "unat start < length (p_rules p)"
    and "no_left_recursion (map copy_rule (p_rules p))"
  shows "\<exists>F sts. (\<forall>fuel \<ge> F. llama_grammar_init_str fuel valid_regex src root lz patterns tokens = Some
       (if list_all valid_regex patterns
        then Grammar \<lparr>g_rules = map copy_rule (p_rules p), stacks = sts, partial_utf8 = \<lparr>pvalue = 0, n_remain = 0\<rparr>,
          lazy = lz, awaiting_trigger = lz, trigger_buffer = [], trigger_tokens = tokens, trigger_patterns = patterns\<rparr>
        else Regex_error)) \<and>
    wf_rules (map copy_rule (p_rules p)) \<and> sts \<noteq> [] \<and> (\<forall>s \<in> set sts. ready (map copy_rule (p_rules p)) s) \<and>
    (\<forall>w. gen_any (map copy_rule (p_rules p)) sts w \<longleftrightarrow> gen_rule (map copy_rule (p_rules p)) (unat start) w)"
proof -
  let ?rules = "map copy_rule (p_rules p)"
  have "wf_rules (p_rules p)" by (rule parsed_rules_wf [OF assms(1,2)])
  then have wf: "wf_rules ?rules" using copy_rule_wf(1) by (auto simp: wf_rules_def)
  obtain F sts where F: "\<forall>k \<ge> F. initial_stacks k ?rules (unat start) = Some sts" "\<forall>s \<in> set sts. ready ?rules s"
    using initial_enough [OF wf assms(6), of "unat start"] assms(5) by auto
  have init: "initial_stacks F ?rules (unat start) = Some sts" using F(1) by simp
  have "p_rules p \<noteq> []" using assms(5) by auto
  then have "llama_grammar_init_str fuel valid_regex src root lz patterns tokens = Some
       (if list_all valid_regex patterns
        then Grammar \<lparr>g_rules = ?rules, stacks = sts, partial_utf8 = \<lparr>pvalue = 0, n_remain = 0\<rparr>,
          lazy = lz, awaiting_trigger = lz, trigger_buffer = [], trigger_tokens = tokens, trigger_patterns = patterns\<rparr>
        else Regex_error)" if "fuel \<ge> F" for fuel
    using assms(1,3-5) F(1) that no_left_recursion_passes [OF wf assms(6)]
    by (auto simp: llama_grammar_init_str_def Let_def)
  then show ?thesis using wf initial_nonempty [OF wf init] F(2) initial_lang [OF init] by blast
qed

theorem left_recursion_check_terminates_witness:
  "any_left_recursion 2 [[\<lparr>gtype = LLAMA_GRETYPE_CHAR, gvalue = 97\<rparr>, \<lparr>gtype = LLAMA_GRETYPE_END, gvalue = 0\<rparr>]] \<noteq> None"
  using left_recursion_check_terminates [OF tiny_grammar(1)] by (simp add: numeral_2_eq_2 del: llama_grammar_detect_left_recursion.simps)

theorem grammar_from_text_ready_witness:
  "\<exists>fuel g. llama_grammar_init_str fuel (\<lambda>_. True) [114, 111, 111, 116, 58, 58, 61, 34, 97, 34] [114, 111, 111, 116] False [] [] =
     Some (Grammar g) \<and> g_rules g = [[elem LLAMA_GRETYPE_CHAR 97, elem LLAMA_GRETYPE_END 0]] \<and> stacks g \<noteq> []"
proof -
  let ?src = "[114, 111, 111, 116, 58, 58, 61, 34, 97, 34]" and ?root = "[114, 111, 111, 116]"
  have p: "parse_text ?src =
    Inr \<lparr>symbol_ids = [(?root, 0)], p_rules = [[elem LLAMA_GRETYPE_CHAR 97, elem LLAMA_GRETYPE_END 0]]\<rparr>"
    by code_simp
  have c: "copy_rule [elem LLAMA_GRETYPE_CHAR 97, elem LLAMA_GRETYPE_END 0] = [elem LLAMA_GRETYPE_CHAR 97, elem LLAMA_GRETYPE_END 0]"
    by (simp add: copy_rule_def elem_def)
  have "no_left_recursion [[elem LLAMA_GRETYPE_CHAR 97, elem LLAMA_GRETYPE_END 0]]"
    using tiny_grammar(2) by (simp add: elem_def)
  with grammar_from_text_ready [OF p, of ?root 0 "\<lambda>_. True" False "[]" "[]"] obtain F sts where
    "llama_grammar_init_str F (\<lambda>_. True) ?src ?root False [] [] = Some (Grammar
       \<lparr>g_rules = [[elem LLAMA_GRETYPE_CHAR 97, elem LLAMA_GRETYPE_END 0]], stacks = sts, partial_utf8 = \<lparr>pvalue = 0, n_remain = 0\<rparr>,
          lazy = False, awaiting_trigger = False, trigger_buffer = [], trigger_tokens = [], trigger_patterns = []\<rparr>)" "sts \<noteq> []"
    by (auto simp: c)
  then show ?thesis by (intro exI [of _ F] exI) auto
qed

end
