(* ===== verification/Kv_Cells.thy ===== *)
theory Kv_Cells
  imports Prelude
begin

text \<open>
  The metadata of the unified KV cache (\<open>llama_kv_cells_unified\<close> in \<open>llama-kv-cells.h\<close>): for each
  cell its position, the shift that is still to be applied and the sequences that share it; in
  addition the set of used cells and, for each sequence, the set of its positions.  A failed
  \<open>assert\<close> and an exception of \<open>std::bitset\<close> are \<open>None\<close>.  Positions are integers (the code has
  32-bit ones and never checks their sums).
\<close>

subsection \<open>State\<close>

definition LLAMA_MAX_PARALLEL_SEQUENCES :: nat where
  "LLAMA_MAX_PARALLEL_SEQUENCES = 64"

record kv_cells =
  has_shift :: bool
  used :: "nat set"
  pos :: "int list"
  shift :: "int list"
  seqs :: "nat set list"
  seq_pos :: "nat \<Rightarrow> int set"

definition cells_reset :: "kv_cells \<Rightarrow> kv_cells" where
  "cells_reset c = c\<lparr>has_shift := False, used := {}, pos := map (\<lambda>_. -1) (pos c), shift := map (\<lambda>_. 0) (pos c),
     seqs := map (\<lambda>_. {}) (pos c), seq_pos := (\<lambda>s. {})\<rparr>"

definition reset_shift :: "kv_cells \<Rightarrow> kv_cells" where
  "reset_shift c = c\<lparr>has_shift := False, shift := map (\<lambda>_. 0) (shift c)\<rparr>"

definition cells_size :: "kv_cells \<Rightarrow> nat" where
  "cells_size c = length (pos c)"

definition cells_resize :: "nat \<Rightarrow> kv_cells \<Rightarrow> kv_cells" where
  "cells_resize n c = cells_reset (c\<lparr>pos := take n (pos c) @ replicate (n - length (pos c)) 0,
     shift := take n (shift c) @ replicate (n - length (shift c)) 0,
     seqs := take n (seqs c) @ replicate (n - length (seqs c)) {}\<rparr>)"

definition fresh_cells :: kv_cells where
  "fresh_cells = \<lparr>has_shift = False, used = {}, pos = [], shift = [], seqs = [], seq_pos = (\<lambda>s. {})\<rparr>"

definition is_empty :: "nat \<Rightarrow> kv_cells \<Rightarrow> bool" where
  "is_empty i c \<longleftrightarrow> pos c ! i = -1"

definition get_used :: "kv_cells \<Rightarrow> nat" where
  "get_used c = card (used c)"

definition used_min :: "kv_cells \<Rightarrow> nat" where
  "used_min c = (if used c = {} then 0 else Min (used c))"

definition used_max_p1 :: "kv_cells \<Rightarrow> nat" where
  "used_max_p1 c = (if used c = {} then 0 else Max (used c) + 1)"

subsection \<open>Helpers for the positions of the sequences\<close>

definition seq_pos_rm :: "nat \<Rightarrow> kv_cells \<Rightarrow> kv_cells" where
  "seq_pos_rm i c = c\<lparr>seq_pos := (\<lambda>s. if s < LLAMA_MAX_PARALLEL_SEQUENCES \<and> s \<in> seqs c ! i
     then seq_pos c s - {pos c ! i} else seq_pos c s)\<rparr>"

definition seq_pos_add :: "nat \<Rightarrow> kv_cells \<Rightarrow> kv_cells" where
  "seq_pos_add i c = c\<lparr>seq_pos := (\<lambda>s. if s < LLAMA_MAX_PARALLEL_SEQUENCES \<and> s \<in> seqs c ! i
     then insert (pos c ! i) (seq_pos c s) else seq_pos c s)\<rparr>"

subsection \<open>Operations on cells\<close>

definition cells_mv :: "nat \<Rightarrow> nat \<Rightarrow> kv_cells \<Rightarrow> kv_cells option" where
  "cells_mv isrc idst c =
     (if \<not> (isrc < length (pos c) \<and> idst < length (pos c)) then None
      else Some (c\<lparr>pos := (pos c)[idst := pos c ! isrc, isrc := -1],
        shift := (shift c)[idst := shift c ! isrc, isrc := 0],
        seqs := (seqs c)[idst := seqs c ! isrc, isrc := {}],
        used := insert idst (used c - {isrc})\<rparr>))"

definition cells_cp :: "nat \<Rightarrow> nat \<Rightarrow> kv_cells \<Rightarrow> kv_cells option" where
  "cells_cp i n c =
     (if \<not> i + n \<le> length (pos c) then None
      else if \<exists>j < n. shift c ! (i + j) \<noteq> 0 then None
      else Some ((cells_resize n fresh_cells)\<lparr>pos := take n (drop i (pos c)), seqs := take n (drop i (seqs c))\<rparr>))"

definition set_one :: "kv_cells \<Rightarrow> nat \<Rightarrow> nat \<Rightarrow> kv_cells \<Rightarrow> kv_cells option" where
  "set_one other i j c =
     (let c1 = (if pos c ! (i + j) = -1 \<and> pos other ! j \<noteq> -1 then c\<lparr>used := insert (i + j) (used c)\<rparr> else c);
          c2 = (if pos c ! (i + j) \<noteq> -1 \<and> pos other ! j = -1 then c1\<lparr>used := used c1 - {i + j}\<rparr> else c1);
          c3 = (if pos c ! (i + j) \<noteq> -1 then seq_pos_rm (i + j) c2 else c2);
          c4 = c3\<lparr>pos := (pos c3)[i + j := pos other ! j], seqs := (seqs c3)[i + j := seqs other ! j]\<rparr>;
          c5 = (if pos c4 ! (i + j) \<noteq> -1 then seq_pos_add (i + j) c4 else c4)
      in if shift c5 ! (i + j) \<noteq> 0 then None else Some c5)"

definition cells_set :: "nat \<Rightarrow> kv_cells \<Rightarrow> kv_cells \<Rightarrow> kv_cells option" where
  "cells_set i other c =
     (if \<not> i + length (pos other) \<le> length (pos c) then None
      else fold_opt (set_one other i) [0 ..< length (pos other)] c)"

definition cells_rm :: "nat \<Rightarrow> kv_cells \<Rightarrow> kv_cells option" where
  "cells_rm i c =
     (if \<not> i < length (pos c) \<or> pos c ! i = -1 then None
      else let c1 = seq_pos_rm i c in
        Some (c1\<lparr>pos := (pos c1)[i := -1], seqs := (seqs c1)[i := {}], used := used c1 - {i}\<rparr>))"

text \<open>The first component of the result is the value that the code returns.\<close>

definition cells_seq_rm :: "nat \<Rightarrow> nat \<Rightarrow> kv_cells \<Rightarrow> (bool \<times> kv_cells) option" where
  "cells_seq_rm i seq_id c =
     (if \<not> i < length (pos c) \<or> \<not> seq_id < LLAMA_MAX_PARALLEL_SEQUENCES \<or> seq_id \<notin> seqs c ! i \<or> pos c ! i = -1 then None
      else let c1 = c\<lparr>seqs := (seqs c)[i := seqs c ! i - {seq_id}],
                       seq_pos := (seq_pos c)(seq_id := seq_pos c seq_id - {pos c ! i})\<rparr> in
        if seqs c1 ! i = {} then Some (True, c1\<lparr>pos := (pos c1)[i := -1], used := used c1 - {i}\<rparr>)
        else Some (False, c1))"

definition cells_seq_keep :: "nat \<Rightarrow> nat \<Rightarrow> kv_cells \<Rightarrow> (bool \<times> kv_cells) option" where
  "cells_seq_keep i seq_id c =
     (if \<not> i < length (pos c) \<or> \<not> seq_id < LLAMA_MAX_PARALLEL_SEQUENCES then None
      else if seq_id \<in> seqs c ! i then
        (let c1 = seq_pos_rm i c in
         Some (False, c1\<lparr>seqs := (seqs c1)[i := {seq_id}],
                          seq_pos := (seq_pos c1)(seq_id := insert (pos c1 ! i) (seq_pos c1 seq_id))\<rparr>))
      else if seqs c ! i \<noteq> {} then
        (let c1 = seq_pos_rm i c in
         Some (True, c1\<lparr>seqs := (seqs c1)[i := {}], pos := (pos c1)[i := -1], used := used c1 - {i}\<rparr>))
      else if pos c ! i \<noteq> -1 then None
      else Some (False, c))"

definition seq_count :: "nat \<Rightarrow> kv_cells \<Rightarrow> nat" where
  "seq_count i c = card (seqs c ! i)"

definition seq_has :: "nat \<Rightarrow> nat \<Rightarrow> kv_cells \<Rightarrow> bool" where
  "seq_has i seq_id c \<longleftrightarrow> seq_id \<in> seqs c ! i"

definition cells_seq_add :: "nat \<Rightarrow> nat \<Rightarrow> kv_cells \<Rightarrow> kv_cells option" where
  "cells_seq_add i seq_id c =
     (if \<not> i < length (pos c) \<or> pos c ! i = -1 \<or> \<not> seq_id < LLAMA_MAX_PARALLEL_SEQUENCES \<or> seq_id \<in> seqs c ! i then None
      else Some (c\<lparr>seqs := (seqs c)[i := insert seq_id (seqs c ! i)],
                   seq_pos := (seq_pos c)(seq_id := insert (pos c ! i) (seq_pos c seq_id))\<rparr>))"

definition seq_get :: "nat \<Rightarrow> kv_cells \<Rightarrow> nat option" where
  "seq_get i c = (if card (seqs c ! i) \<noteq> 1 then None
     else find (\<lambda>s. s \<in> seqs c ! i) [0 ..< LLAMA_MAX_PARALLEL_SEQUENCES])"

definition cells_seq_pos_min :: "nat \<Rightarrow> kv_cells \<Rightarrow> int" where
  "cells_seq_pos_min seq_id c = (if seq_pos c seq_id = {} then -1 else Min (seq_pos c seq_id))"

definition cells_seq_pos_max :: "nat \<Rightarrow> kv_cells \<Rightarrow> int" where
  "cells_seq_pos_max seq_id c = (if seq_pos c seq_id = {} then -1 else Max (seq_pos c seq_id))"

definition pos_get :: "nat \<Rightarrow> kv_cells \<Rightarrow> int option" where
  "pos_get i c = (if \<not> i < length (pos c) \<or> pos c ! i = -1 then None else Some (pos c ! i))"

definition get_shift :: "nat \<Rightarrow> kv_cells \<Rightarrow> int option" where
  "get_shift i c = (if \<not> i < length (pos c) \<or> pos c ! i = -1 then None else Some (shift c ! i))"

definition pos_in :: "nat \<Rightarrow> int \<Rightarrow> int \<Rightarrow> kv_cells \<Rightarrow> bool" where
  "pos_in i p0 p1 c \<longleftrightarrow> pos c ! i \<ge> p0 \<and> pos c ! i < p1"

definition pos_set :: "nat \<Rightarrow> int \<Rightarrow> kv_cells \<Rightarrow> kv_cells option" where
  "pos_set i p c =
     (if \<not> i < length (pos c) \<or> pos c ! i \<noteq> -1 \<or> seqs c ! i \<noteq> {} then None
      else Some (c\<lparr>pos := (pos c)[i := p], used := insert i (used c)\<rparr>))"

definition pos_add :: "nat \<Rightarrow> int \<Rightarrow> kv_cells \<Rightarrow> (bool \<times> kv_cells) option" where
  "pos_add i d c =
     (if \<not> i < length (pos c) \<or> pos c ! i = -1 then None
      else let c1 = seq_pos_rm i c;
               c2 = c1\<lparr>pos := (pos c1)[i := pos c1 ! i + d], shift := (shift c1)[i := shift c1 ! i + d]\<rparr>;
               c3 = (seq_pos_add i c2)\<lparr>has_shift := True\<rparr>
           in if pos c3 ! i < 0 then
                (let c4 = seq_pos_rm i c3 in
                 Some (True, c4\<lparr>seqs := (seqs c4)[i := {}], pos := (pos c4)[i := -1], used := used c4 - {i}\<rparr>))
              else Some (False, c3))"

text \<open>C++ division truncates; the positions and divisors of the callers are not negative.\<close>

definition pos_div :: "nat \<Rightarrow> int \<Rightarrow> kv_cells \<Rightarrow> kv_cells option" where
  "pos_div i d c =
     (if \<not> i < length (pos c) \<or> pos c ! i = -1 \<or> d = 0 then None
      else let p_old = pos c ! i;
               c1 = seq_pos_rm i c;
               p_new = sgn (p_old * d) * (\<bar>p_old\<bar> div \<bar>d\<bar>);
               c2 = c1\<lparr>pos := (pos c1)[i := p_new], shift := (shift c1)[i := shift c1 ! i + (p_old - p_new)]\<rparr>
           in Some ((seq_pos_add i c2)\<lparr>has_shift := True\<rparr>))"

subsection \<open>Invariant\<close>

definition cells_wf :: "kv_cells \<Rightarrow> bool" where
  "cells_wf c \<longleftrightarrow> length (seqs c) = length (pos c) \<and> length (shift c) = length (pos c) \<and>
     used c = {i. i < length (pos c) \<and> pos c ! i \<noteq> -1} \<and>
     (\<forall>i < length (pos c). pos c ! i \<ge> -1 \<and> seqs c ! i \<subseteq> {..<LLAMA_MAX_PARALLEL_SEQUENCES} \<and>
        (pos c ! i = -1 \<longrightarrow> seqs c ! i = {}))"

definition positions :: "kv_cells \<Rightarrow> nat \<Rightarrow> int set" where
  "positions c s = {p. \<exists>i < length (pos c). s \<in> seqs c ! i \<and> p = pos c ! i}"

definition tracked :: "kv_cells \<Rightarrow> bool" where
  "tracked c \<longleftrightarrow> (\<forall>s. seq_pos c s = positions c s)"

definition free_for :: "kv_cells \<Rightarrow> nat \<Rightarrow> nat set \<Rightarrow> int \<Rightarrow> bool" where
  "free_for c i S p \<longleftrightarrow> (\<forall>j < length (pos c). j \<noteq> i \<longrightarrow> seqs c ! j \<inter> S \<noteq> {} \<longrightarrow> pos c ! j \<noteq> p)"

definition unique :: "kv_cells \<Rightarrow> bool" where
  "unique c \<longleftrightarrow> (\<forall>i < length (pos c). free_for c i (seqs c ! i) (pos c ! i))"

definition cells_ok :: "kv_cells \<Rightarrow> bool" where
  "cells_ok c \<longleftrightarrow> cells_wf c \<and> tracked c \<and> unique c"

lemma finite_positions [simp]: "finite (positions c s)"
  by (rule finite_subset [of _ "set (pos c)"]) (auto simp: positions_def)

text \<open>One cell is given a new position and a new set of sequences.\<close>

definition cell_put :: "nat \<Rightarrow> int \<Rightarrow> nat set \<Rightarrow> kv_cells \<Rightarrow> kv_cells \<Rightarrow> bool" where
  "cell_put i p S c c' \<longleftrightarrow> pos c' = (pos c)[i := p] \<and> seqs c' = (seqs c)[i := S] \<and> length (shift c') = length (shift c) \<and>
     used c' = (if p = -1 then used c - {i} else insert i (used c)) \<and>
     (\<forall>s. seq_pos c' s = (if s \<in> seqs c ! i then seq_pos c s - {pos c ! i} else seq_pos c s) \<union> (if s \<in> S then {p} else {}))"

lemma cell_put_ok [inv_intro]:
  assumes ok: "cells_ok c" and i: "i < length (pos c)" and put: "cell_put i p S c c'"
    and S: "p \<ge> -1" "S \<subseteq> {..<LLAMA_MAX_PARALLEL_SEQUENCES}" "p = -1 \<Longrightarrow> S = {}" "free_for c i S p"
  shows "cells_ok c'"
proof -
  let ?n = "length (pos c)"
  have wf: "cells_wf c" and tr: "\<And>s. seq_pos c s = positions c s" and un: "unique c"
    using ok by (auto simp: cells_ok_def tracked_def)
  have len: "length (seqs c) = ?n" using wf by (simp add: cells_wf_def)
  have n: "length (pos c') = ?n" using put by (simp add: cell_put_def)
  have at: "pos c' ! j = (if j = i then p else pos c ! j)" "seqs c' ! j = (if j = i then S else seqs c ! j)" if "j < ?n" for j
    using put that i len by (auto simp: cell_put_def nth_list_update)
  have "used c' = {j. j < ?n \<and> pos c' ! j \<noteq> -1}"
  proof (rule set_eqI)
    fix j show "j \<in> used c' \<longleftrightarrow> j \<in> {j. j < ?n \<and> pos c' ! j \<noteq> -1}"
      using wf put i at [of j] by (cases "j = i"; cases "p = -1") (auto simp: cells_wf_def cell_put_def)
  qed
  moreover have "-1 \<le> pos c' ! j \<and> seqs c' ! j \<subseteq> {..<LLAMA_MAX_PARALLEL_SEQUENCES} \<and> (pos c' ! j = -1 \<longrightarrow> seqs c' ! j = {})"
    if "j < ?n" for j using wf S(1-3) at [OF that] that by (cases "j = i") (auto simp: cells_wf_def)
  ultimately have "cells_wf c'"
    using wf put n unfolding cells_wf_def by (auto simp: cell_put_def)
  moreover have "tracked c'"
    unfolding tracked_def
  proof
    fix s
    have other: "s \<in> seqs c ! j \<Longrightarrow> s \<in> seqs c ! i \<Longrightarrow> j < ?n \<Longrightarrow> j \<noteq> i \<Longrightarrow> pos c ! j \<noteq> pos c ! i" for j
      using un i by (auto simp: unique_def free_for_def)
    have "positions c' s = (positions c s - (if s \<in> seqs c ! i then {pos c ! i} else {})) \<union> (if s \<in> S then {p} else {})"
      (is "?l = ?r")
    proof (intro set_eqI iffI)
      fix x assume "x \<in> ?l"
      then obtain j where j: "j < ?n" "s \<in> seqs c' ! j" "x = pos c' ! j" by (auto simp: positions_def n)
      then show "x \<in> ?r" using at [OF j(1)] other [of j] i by (cases "j = i") (auto simp: positions_def)
    next
      fix x assume x: "x \<in> ?r"
      show "x \<in> ?l"
      proof (cases "x \<in> (if s \<in> S then {p} else {})")
        case True
        then show ?thesis using at [OF i] i n by (auto simp: positions_def split: if_splits)
      next
        case False
        then obtain j where j: "j < ?n" "s \<in> seqs c ! j" "x = pos c ! j" "\<not> (s \<in> seqs c ! i \<and> x = pos c ! i)"
          using x by (auto simp: positions_def split: if_splits)
        then have "j \<noteq> i" by auto
        then show ?thesis using at [OF j(1)] j n by (auto simp: positions_def)
      qed
    qed
    then show "seq_pos c' s = positions c' s" using put tr [of s] by (auto simp: cell_put_def)
  qed
  moreover have "unique c'"
    using un S(4) i n at unfolding unique_def free_for_def by (auto; fastforce)
  ultimately show ?thesis by (simp add: cells_ok_def)
qed


lemma ok_cell:
  assumes "cells_ok c" "i < length (pos c)"
  shows "pos c ! i \<ge> -1" "seqs c ! i \<subseteq> {..<LLAMA_MAX_PARALLEL_SEQUENCES}" "pos c ! i = -1 \<Longrightarrow> seqs c ! i = {}"
    "length (seqs c) = length (pos c)" "length (shift c) = length (pos c)" "i \<in> used c \<longleftrightarrow> pos c ! i \<noteq> -1"
    "free_for c i (seqs c ! i) (pos c ! i)"
  using assms by (auto simp: cells_ok_def cells_wf_def unique_def)

lemma below_max: "cells_ok c \<Longrightarrow> i < length (pos c) \<Longrightarrow> s \<in> seqs c ! i \<Longrightarrow> s < LLAMA_MAX_PARALLEL_SEQUENCES"
  using ok_cell(2) by blast

lemma free_empty: "free_for c i {} p"
  by (simp add: free_for_def)

lemma free_mono: "free_for c i S p \<Longrightarrow> T \<subseteq> S \<Longrightarrow> free_for c i T p"
  unfolding free_for_def by blast

lemma rm_put:
  assumes "cells_ok c" "cells_rm i c = Some c'"
  shows "i < length (pos c)" "cell_put i (-1) {} c c'"
  using assms below_max [OF assms(1)]
  by (auto simp: cells_rm_def Let_def cell_put_def seq_pos_rm_def split: if_splits)

lemma seq_rm_put:
  assumes "cells_ok c" "cells_seq_rm i s c = Some (b, c')"
  shows "i < length (pos c)" "b \<longleftrightarrow> seqs c ! i = {s}"
    "cell_put i (if b then -1 else pos c ! i) (seqs c ! i - {s}) c c'"
proof -
  show i: "i < length (pos c)" using assms(2) by (auto simp: cells_seq_rm_def split: if_splits)
  note cell = ok_cell [OF assms(1) i]
  show "b \<longleftrightarrow> seqs c ! i = {s}" using assms(2) cell by (auto simp: cells_seq_rm_def Let_def split: if_splits)
  have u: "i \<in> used c" using assms(2) cell by (auto simp: cells_seq_rm_def split: if_splits)
  have "pos c ! i \<noteq> -1" "s \<in> seqs c ! i" using assms(2) by (auto simp: cells_seq_rm_def split: if_splits)
  moreover have "x \<noteq> s \<Longrightarrow> x \<in> seqs c ! i \<Longrightarrow> pos c ! i \<in> seq_pos c x" for x
    using assms(1) i by (auto simp: cells_ok_def tracked_def positions_def)
  ultimately show "cell_put i (if b then -1 else pos c ! i) (seqs c ! i - {s}) c c'"
    using assms(2) cell u by (auto simp: cells_seq_rm_def Let_def cell_put_def insert_absorb split: if_splits)
qed

lemma seq_keep_put:
  assumes "cells_ok c" "cells_seq_keep i s c = Some (b, c')"
  shows "i < length (pos c)" "b \<longleftrightarrow> s \<notin> seqs c ! i \<and> seqs c ! i \<noteq> {}"
    "cell_put i (if s \<in> seqs c ! i then pos c ! i else -1) (seqs c ! i \<inter> {s}) c c'"
proof -
  show i: "i < length (pos c)" using assms(2) by (auto simp: cells_seq_keep_def split: if_splits)
  note cell = ok_cell [OF assms(1) i]
  show "b \<longleftrightarrow> s \<notin> seqs c ! i \<and> seqs c ! i \<noteq> {}" using assms(2) by (auto simp: cells_seq_keep_def Let_def split: if_splits)
  show "cell_put i (if s \<in> seqs c ! i then pos c ! i else -1) (seqs c ! i \<inter> {s}) c c'"
    using assms(2) cell below_max [OF assms(1) i]
    by (auto simp: cells_seq_keep_def Let_def cell_put_def seq_pos_rm_def insert_absorb split: if_splits
      intro: list_update_same_conv [THEN iffD2, symmetric])
qed

lemma seq_add_put:
  assumes "cells_ok c" "cells_seq_add i s c = Some c'"
  shows "i < length (pos c)" "s < LLAMA_MAX_PARALLEL_SEQUENCES" "s \<notin> seqs c ! i" "pos c ! i \<noteq> -1"
    "cell_put i (pos c ! i) (insert s (seqs c ! i)) c c'"
proof -
  show i: "i < length (pos c)" and "s < LLAMA_MAX_PARALLEL_SEQUENCES" "s \<notin> seqs c ! i" "pos c ! i \<noteq> -1"
    using assms(2) by (auto simp: cells_seq_add_def split: if_splits)
  note cell = ok_cell [OF assms(1) i]
  have "x \<in> seqs c ! i \<Longrightarrow> pos c ! i \<in> seq_pos c x" for x
    using assms(1) i by (auto simp: cells_ok_def tracked_def positions_def)
  then show "cell_put i (pos c ! i) (insert s (seqs c ! i)) c c'"
    using assms(2) cell by (auto simp: cells_seq_add_def cell_put_def insert_absorb split: if_splits)
qed

lemma pos_set_put:
  assumes "cells_ok c" "pos_set i p c = Some c'" "p \<noteq> -1"
  shows "i < length (pos c)" "cell_put i p {} c c'" "pos c ! i = -1" "seqs c ! i = {}"
  using assms by (auto simp: pos_set_def cell_put_def split: if_splits) (metis list_update_id)

lemma pos_add_put:
  assumes "cells_ok c" "pos_add i d c = Some (b, c')"
  shows "i < length (pos c)" "b \<longleftrightarrow> pos c ! i + d < 0" "pos c ! i \<noteq> -1"
    "\<not> b \<Longrightarrow> cell_put i (pos c ! i + d) (seqs c ! i) c c'"
    "b \<Longrightarrow> free_for c i (seqs c ! i) (pos c ! i + d) \<Longrightarrow> cell_put i (-1) {} c c'"
proof -
  show i: "i < length (pos c)" and ne: "pos c ! i \<noteq> -1" using assms(2) by (auto simp: pos_add_def split: if_splits)
  note cell = ok_cell [OF assms(1) i]
  have u: "i \<in> used c" using cell(6) ne by simp
  have len: "i < length (shift c)" "i < length (seqs c)" using cell i by auto
  show "b \<longleftrightarrow> pos c ! i + d < 0"
    using assms(2) i len by (auto simp: pos_add_def Let_def seq_pos_rm_def seq_pos_add_def split: if_splits)
  show "\<not> b \<Longrightarrow> cell_put i (pos c ! i + d) (seqs c ! i) c c'"
    using assms(2) i len u ne cell(1) below_max [OF assms(1) i]
    by (auto simp: pos_add_def Let_def seq_pos_rm_def seq_pos_add_def cell_put_def insert_absorb split: if_splits)
  assume b: "b" "free_for c i (seqs c ! i) (pos c ! i + d)"
  have "x \<in> seqs c ! i \<Longrightarrow> pos c ! i + d \<in> seq_pos c x \<Longrightarrow> d = 0" for x
    using assms(1) i b(2) by (auto simp: cells_ok_def tracked_def positions_def free_for_def)
  then have "x \<in> seqs c ! i \<Longrightarrow> insert (pos c ! i + d) (seq_pos c x - {pos c ! i}) - {pos c ! i + d} = seq_pos c x - {pos c ! i}" for x
    by auto
  then show "cell_put i (-1) {} c c'"
    using assms(2) i len u b(1) below_max [OF assms(1) i]
    by (auto simp: pos_add_def Let_def seq_pos_rm_def seq_pos_add_def cell_put_def split: if_splits)
qed


lemma pos_div_put:
  assumes "cells_ok c" "pos_div i d c = Some c'" "d > 0"
  shows "i < length (pos c)" "pos c ! i \<ge> 0" "cell_put i (pos c ! i div d) (seqs c ! i) c c'"
proof -
  show i: "i < length (pos c)" and p: "pos c ! i \<ge> 0"
    using assms(2) ok_cell(1) [OF assms(1)] by (force simp: pos_div_def split: if_splits)+
  note cell = ok_cell [OF assms(1) i]
  have u: "i \<in> used c" using cell(6) p by simp
  have len: "i < length (shift c)" "i < length (seqs c)" using cell i by auto
  have "sgn (pos c ! i * d) * (\<bar>pos c ! i\<bar> div \<bar>d\<bar>) = pos c ! i div d" "pos c ! i div d \<ge> 0"
    using p assms(3) by (cases "pos c ! i = 0", auto simp: sgn_mult pos_imp_zdiv_nonneg_iff)
  then show "cell_put i (pos c ! i div d) (seqs c ! i) c c'"
    using assms(2) i len u below_max [OF assms(1) i]
    by (auto simp: pos_div_def Let_def seq_pos_rm_def seq_pos_add_def cell_put_def insert_absorb split: if_splits)
qed

text \<open>Moving a cell to an empty one is two puts that leave the sequences' positions alone.\<close>

lemma mv_ok [inv_intro]:
  assumes ok: "cells_ok c" and mv: "cells_mv a b c = Some c'" and e: "pos c ! b = -1" "pos c ! a \<noteq> -1"
  shows "cells_ok c'"
proof -
  have len: "a < length (pos c)" "b < length (pos c)" using mv by (auto simp: cells_mv_def split: if_splits)
  have ab: "a \<noteq> b" using e by auto
  note ca = ok_cell [OF ok len(1)] and cb = ok_cell [OF ok len(2)]
  define m where "m = c\<lparr>pos := (pos c)[a := -1], seqs := (seqs c)[a := {}], used := used c - {a},
    seq_pos := (\<lambda>s. if s \<in> seqs c ! a then seq_pos c s - {pos c ! a} else seq_pos c s)\<rparr>"
  have "cell_put a (-1) {} c m" by (simp add: m_def cell_put_def)
  then have m: "cells_ok m" by (rule cell_put_ok [OF ok len(1)]) (auto simp: free_empty)
  have f: "free_for m b (seqs c ! a) (pos c ! a)"
    using ca(7) ab len ca(4) by (auto simp: m_def free_for_def nth_list_update)
  have "x \<in> seqs c ! a \<Longrightarrow> pos c ! a \<in> seq_pos c x" for x
    using ok len by (auto simp: cells_ok_def tracked_def positions_def)
  moreover have "seqs m ! b = {}" using cb(3) [OF e(1)] ab by (simp add: m_def)
  ultimately have put: "cell_put b (pos c ! a) (seqs c ! a) m c'"
    using mv len ab e by (auto simp: cells_mv_def cell_put_def m_def list_update_swap insert_absorb split: if_splits)
  show ?thesis by (rule cell_put_ok [OF m _ put]) (use ca f len e in \<open>auto simp: m_def\<close>)
qed

lemma reset_ok [inv_intro]: "cells_ok (cells_reset c)"
  by (auto simp: cells_reset_def cells_ok_def cells_wf_def tracked_def positions_def unique_def free_for_def)

lemma resize_ok [inv_intro]: "cells_ok (cells_resize n c)"
  unfolding cells_resize_def by (rule reset_ok)

lemma reset_shift_ok [inv_intro]: "cells_ok c \<Longrightarrow> cells_ok (reset_shift c)"
  by (auto simp: reset_shift_def cells_ok_def cells_wf_def tracked_def positions_def unique_def free_for_def)

lemma set_one_put:
  assumes "cells_ok c" "set_one other i j c = Some c'" "i + j < length (pos c)" "seqs other ! j \<subseteq> {..<LLAMA_MAX_PARALLEL_SEQUENCES}"
    "pos other ! j = -1 \<Longrightarrow> seqs other ! j = {}"
  shows "cell_put (i + j) (pos other ! j) (seqs other ! j) c c'"
  using assms(2-5) ok_cell [OF assms(1,3)] below_max [OF assms(1,3)]
  by (auto simp: set_one_def Let_def seq_pos_rm_def seq_pos_add_def cell_put_def insert_absorb split: if_splits)

subsection \<open>Reachable states\<close>

text \<open>
  The steps are the operations on cells, the last one being one iteration of \<open>set\<close> (\<open>cp\<close> only makes a snapshot
  for it).  The side conditions: an operation that gives a cell a sequence or a position does not give a
  sequence a position that it has in another cell (\<open>free_for\<close>), positions that are set are not negative, and
  \<open>set\<close> writes contents that a cell can have.
\<close>

definition cell_content :: "int \<Rightarrow> nat set \<Rightarrow> bool" where
  "cell_content p S \<longleftrightarrow> p \<ge> -1 \<and> S \<subseteq> {..<LLAMA_MAX_PARALLEL_SEQUENCES} \<and> (p = -1 \<longrightarrow> S = {})"

inductive cell_step :: "kv_cells \<Rightarrow> kv_cells \<Rightarrow> bool" where
  step_reset: "cell_step c (cells_reset c)"
| step_resize: "cell_step c (cells_resize n c)"
| step_reset_shift: "cell_step c (reset_shift c)"
| step_mv: "cells_mv a b c = Some c' \<Longrightarrow> pos c ! b = -1 \<Longrightarrow> pos c ! a \<noteq> -1 \<Longrightarrow> cell_step c c'"
| step_rm: "cells_rm i c = Some c' \<Longrightarrow> cell_step c c'"
| step_seq_rm: "cells_seq_rm i s c = Some (b, c') \<Longrightarrow> cell_step c c'"
| step_seq_keep: "cells_seq_keep i s c = Some (b, c') \<Longrightarrow> cell_step c c'"
| step_seq_add: "cells_seq_add i s c = Some c' \<Longrightarrow> free_for c i {s} (pos c ! i) \<Longrightarrow> cell_step c c'"
| step_pos_set: "pos_set i p c = Some c' \<Longrightarrow> p \<ge> 0 \<Longrightarrow> cell_step c c'"
| step_pos_add: "pos_add i d c = Some (b, c') \<Longrightarrow> free_for c i (seqs c ! i) (pos c ! i + d) \<Longrightarrow> cell_step c c'"
| step_pos_div: "pos_div i d c = Some c' \<Longrightarrow> d > 0 \<Longrightarrow> free_for c i (seqs c ! i) (pos c ! i div d) \<Longrightarrow> cell_step c c'"
| step_set: "set_one other i j c = Some c' \<Longrightarrow> i + j < length (pos c) \<Longrightarrow> cell_content (pos other ! j) (seqs other ! j) \<Longrightarrow>
    free_for c (i + j) (seqs other ! j) (pos other ! j) \<Longrightarrow> cell_step c c'"

inductive cells_reach :: "kv_cells \<Rightarrow> bool" where
  reach_start: "cells_reach fresh_cells"
| reach_step: "cells_reach c \<Longrightarrow> cell_step c c' \<Longrightarrow> cells_reach c'"

lemma cell_step_ok:
  assumes "cell_step c c'" "cells_ok c"
  shows "cells_ok c'"
  using assms
proof (cases rule: cell_step.cases)
  case (step_rm i)
  from rm_put [OF assms(2) step_rm] show ?thesis by (auto intro: cell_put_ok [OF assms(2)] simp: free_empty)
next
  case (step_seq_rm i s b)
  note p = seq_rm_put [OF assms(2) step_seq_rm]
  note cell = ok_cell [OF assms(2) p(1)]
  show ?thesis
    by (rule cell_put_ok [OF assms(2) p(1) p(3)]) (use cell p(2) free_mono [OF cell(7)] in \<open>auto simp: free_empty split: if_splits\<close>)
next
  case (step_seq_keep i s b)
  note p = seq_keep_put [OF assms(2) step_seq_keep]
  note cell = ok_cell [OF assms(2) p(1)]
  show ?thesis
    by (rule cell_put_ok [OF assms(2) p(1) p(3)]) (use cell p(2) free_mono [OF cell(7)] in \<open>auto simp: free_empty\<close>)
next
  case (step_seq_add i s)
  note p = seq_add_put [OF assms(2) step_seq_add(1)]
  note cell = ok_cell [OF assms(2) p(1)]
  show ?thesis
    by (rule cell_put_ok [OF assms(2) p(1) p(5)])
      (use cell p(2,4) step_seq_add(2) in \<open>auto simp: free_for_def\<close>)
next
  case (step_pos_set i p)
  then have "p \<noteq> -1" by simp
  note p = pos_set_put [OF assms(2) step_pos_set(1) this]
  show ?thesis by (rule cell_put_ok [OF assms(2) p(1,2)]) (use step_pos_set(2) free_empty in auto)
next
  case (step_pos_add i d b)
  note p = pos_add_put [OF assms(2) step_pos_add(1)]
  note cell = ok_cell [OF assms(2) p(1)]
  show ?thesis
  proof (cases b)
    case True
    show ?thesis by (rule cell_put_ok [OF assms(2) p(1) p(5) [OF True step_pos_add(2)]]) (auto simp: free_empty)
  next
    case False
    show ?thesis by (rule cell_put_ok [OF assms(2) p(1) p(4) [OF False]]) (use False p(2) cell step_pos_add(2) in auto)
  qed
next
  case (step_pos_div i d)
  note p = pos_div_put [OF assms(2) step_pos_div(1,2)]
  note cell = ok_cell [OF assms(2) p(1)]
  have "pos c ! i div d \<ge> 0" using p(2) step_pos_div(2) by (simp add: pos_imp_zdiv_nonneg_iff)
  then show ?thesis by (intro cell_put_ok [OF assms(2) p(1) p(3)]) (use cell step_pos_div(3) in auto)
next
  case (step_set other i j)
  then have c: "pos other ! j \<ge> -1" "seqs other ! j \<subseteq> {..<LLAMA_MAX_PARALLEL_SEQUENCES}" "pos other ! j = -1 \<Longrightarrow> seqs other ! j = {}"
    by (auto simp: cell_content_def)
  show ?thesis
    by (rule cell_put_ok [OF assms(2) step_set(2) set_one_put [OF assms(2) step_set(1,2) c(2,3)] c step_set(4)])
qed (auto intro: inv_intro)

lemma cells_reach_ok: "cells_reach c \<Longrightarrow> cells_ok c"
proof (induction rule: cells_reach.induct)
  case reach_start
  show ?case by (simp add: fresh_cells_def cells_ok_def cells_wf_def tracked_def positions_def unique_def)
qed (rule cell_step_ok)

text \<open>
  C34: The sets of positions are exact.  In every state that the cell operations reach under the side
  conditions of \<open>cell_step\<close> (no sequence is given a position that it already has in another cell, positions
  that are set are not negative, a cell is moved from a used cell to an empty one, \<open>set\<close> writes possible
  contents), the used cells are those with a position, an empty cell belongs to no sequence, and
  \<open>seq_pos_min\<close> and \<open>seq_pos_max\<close> are the least and the greatest position among the cells of the sequence,
  -1 if there is none.  (Without the first condition this fails: \<open>seq_add_forward_loses_position\<close> in \<open>Kv_Ops\<close>.)
\<close>

theorem kv_cells_positions_exact:
  assumes "cells_reach c" "s < LLAMA_MAX_PARALLEL_SEQUENCES"
  shows "(if \<exists>i < cells_size c. seq_has i s c
      then (\<exists>i < cells_size c. seq_has i s c \<and> pos c ! i = cells_seq_pos_min s c) \<and>
           (\<exists>i < cells_size c. seq_has i s c \<and> pos c ! i = cells_seq_pos_max s c) \<and>
           (\<forall>i < cells_size c. seq_has i s c \<longrightarrow> cells_seq_pos_min s c \<le> pos c ! i \<and> pos c ! i \<le> cells_seq_pos_max s c)
      else cells_seq_pos_min s c = -1 \<and> cells_seq_pos_max s c = -1) \<and>
    used c = {i. i < cells_size c \<and> \<not> is_empty i c} \<and> (\<forall>i < cells_size c. is_empty i c \<longrightarrow> \<not> seq_has i s c)"
proof -
  have ok: "cells_ok c" by (rule cells_reach_ok [OF assms(1)])
  then have tr: "seq_pos c s = positions c s" by (simp add: cells_ok_def tracked_def)
  have mem: "x \<in> positions c s \<longleftrightarrow> (\<exists>i < cells_size c. seq_has i s c \<and> pos c ! i = x)" for x
    by (auto simp: positions_def seq_has_def cells_size_def)
  have "used c = {i. i < cells_size c \<and> \<not> is_empty i c} \<and> (\<forall>i < cells_size c. is_empty i c \<longrightarrow> \<not> seq_has i s c)"
    using ok by (auto simp: cells_ok_def cells_wf_def cells_size_def is_empty_def seq_has_def)
  moreover have "\<exists>i < cells_size c. seq_has i s c" if "positions c s \<noteq> {}" using that mem by auto
  moreover have "\<not> (\<exists>i < cells_size c. seq_has i s c)" if "positions c s = {}" using that mem by auto
  moreover have "Min (positions c s) \<in> positions c s" "Max (positions c s) \<in> positions c s" if "positions c s \<noteq> {}"
    using that by simp_all
  moreover have "Min (positions c s) \<le> pos c ! i \<and> pos c ! i \<le> Max (positions c s)" if "i < cells_size c" "seq_has i s c" for i
    using mem [of "pos c ! i"] that by (auto intro: Min_le Max_ge)
  ultimately show ?thesis using mem
    by (cases "positions c s = {}"; simp add: cells_seq_pos_min_def cells_seq_pos_max_def tr; blast)
qed

definition one_cell :: kv_cells where
  "one_cell = the (cells_seq_add 1 7 (the (pos_set 1 5 (cells_resize 3 fresh_cells))))"

lemma one_cell_fields: "pos one_cell = [-1, 5, -1]" "seqs one_cell = [{}, {7}, {}]" "shift one_cell = [0, 0, 0]"
  by (simp_all add: one_cell_def cells_seq_add_def pos_set_def cells_resize_def cells_reset_def fresh_cells_def
      numeral_3_eq_3 LLAMA_MAX_PARALLEL_SEQUENCES_def)

lemma one_cell_reach: "cells_reach one_cell"
proof -
  let ?c = "cells_resize 3 fresh_cells" let ?d = "the (pos_set 1 5 ?c)"
  have c: "cells_reach ?c" by (intro reach_step [OF reach_start] step_resize)
  have "pos_set 1 5 ?c = Some ?d" by (simp add: pos_set_def cells_resize_def cells_reset_def fresh_cells_def numeral_3_eq_3)
  then have d: "cells_reach ?d" by (intro reach_step [OF c] step_pos_set) auto
  have "cells_seq_add 1 7 ?d = Some one_cell"
    by (simp add: one_cell_def cells_seq_add_def pos_set_def cells_resize_def cells_reset_def fresh_cells_def
      numeral_3_eq_3 LLAMA_MAX_PARALLEL_SEQUENCES_def)
  then show ?thesis
    by (intro reach_step [OF d] step_seq_add)
      (auto simp: free_for_def pos_set_def cells_resize_def cells_reset_def fresh_cells_def numeral_3_eq_3 nth_Cons split: nat.splits)
qed

lemma kv_cells_positions_exact_witness:
  "cells_seq_pos_min 7 one_cell = 5 \<and> cells_seq_pos_max 7 one_cell = 5 \<and> used one_cell = {1}"
proof -
  have one: "i < cells_size one_cell \<and> seq_has i 7 one_cell \<longleftrightarrow> i = 1" for i
    by (auto simp: cells_size_def one_cell_fields seq_has_def nth_Cons split: nat.splits)
  have empty: "i < cells_size one_cell \<and> \<not> is_empty i one_cell \<longleftrightarrow> i = 1" for i
    by (auto simp: cells_size_def one_cell_fields is_empty_def nth_Cons split: nat.splits)
  have p: "pos one_cell ! 1 = 5" by (simp add: one_cell_fields)
  have ex: "\<exists>i < cells_size one_cell. seq_has i 7 one_cell" using one by blast
  have "(7 :: nat) < LLAMA_MAX_PARALLEL_SEQUENCES" by (simp add: LLAMA_MAX_PARALLEL_SEQUENCES_def)
  note ok = kv_cells_positions_exact [OF one_cell_reach this, unfolded if_P [OF ex] empty]
  from ok obtain i j where "i < cells_size one_cell" "seq_has i 7 one_cell" "pos one_cell ! i = cells_seq_pos_min 7 one_cell"
    "j < cells_size one_cell" "seq_has j 7 one_cell" "pos one_cell ! j = cells_seq_pos_max 7 one_cell" by blast
  moreover have "used one_cell = {i. i = 1}" using ok by blast
  ultimately show ?thesis using one [of i] one [of j] p by simp
qed

end
