(* ===== verification/Batch.thy ===== *)
theory Batch
  imports Prelude
begin

text \<open>
  Splitting a batch of tokens into micro-batches (\<open>llama_sbatch\<close> in \<open>llama-batch.cpp\<close>) and the
  defaults that \<open>llama_batch_allocr\<close> fills in.  A pointer into an array of the batch is the slice
  that is read through it; a failed \<open>GGML_ASSERT\<close> and a read through a null pointer are \<open>None\<close>.  \<open>std::sort\<close> is an argument: any
  function that returns a sorted permutation.
\<close>

subsection \<open>Data\<close>

record llama_batch =
  b_n_tokens :: nat
  b_token :: "int list option"
  b_embd :: "int list list option"
  b_pos :: "int list option"
  b_n_seq_id :: "nat list option"
  b_seq_id :: "nat list list option"
  b_logits :: "bool list option"

record llama_ubatch =
  equal_seqs :: bool
  u_n_tokens :: nat
  n_seq_tokens :: nat
  n_seqs :: nat
  u_token :: "int list option"
  u_embd :: "int list list option"
  u_pos :: "int list"
  u_n_seq_id :: "nat list"
  u_seq_id :: "nat list list"
  u_output :: "bool list"

record sbatch_seq =
  s_n_seq_id :: nat
  s_seq_id :: "nat list"
  s_offset :: nat
  s_length :: nat

record llama_sbatch =
  sb_n_tokens :: nat
  logits_all :: bool
  ids :: "nat list"
  out_ids :: "nat list"
  sb_seq :: "sbatch_seq list"
  sb_batch :: llama_batch

definition ptr_slice :: "'a list \<Rightarrow> nat \<Rightarrow> nat \<Rightarrow> 'a list" where
  "ptr_slice xs offset len = take len (drop offset xs)"

subsection \<open>Adding a sequence to a micro-batch\<close>

definition pop_empty_seqs :: "sbatch_seq list \<Rightarrow> sbatch_seq list" where
  "pop_empty_seqs ss = rev (dropWhile (\<lambda>s. s_length s = 0) (rev ss))"

definition reserve_ubatch :: "bool \<Rightarrow> llama_sbatch \<Rightarrow> llama_ubatch \<times> llama_sbatch" where
  "reserve_ubatch has_embd sb =
     (\<lparr>equal_seqs = True, u_n_tokens = 0, n_seq_tokens = 0, n_seqs = 0,
        u_token = (if \<not> has_embd then Some [] else None), u_embd = (if has_embd then Some [] else None),
        u_pos = [], u_n_seq_id = [], u_seq_id = [], u_output = []\<rparr>,
      sb\<lparr>sb_seq := pop_empty_seqs (sb_seq sb)\<rparr>)"

definition seq_ids_at :: "llama_sbatch \<Rightarrow> sbatch_seq \<Rightarrow> nat \<Rightarrow> nat list" where
  "seq_ids_at sb s len = map (\<lambda>i. ids sb ! (s_offset s + i)) [0 ..< len]"

text \<open>The values that are copied (\<open>equal_seqs\<close>) or pointed to (simple split).\<close>

definition add_values :: "bool \<Rightarrow> 'a list \<Rightarrow> 'a list \<Rightarrow> nat list \<Rightarrow> nat \<Rightarrow> nat \<Rightarrow> 'a list" where
  "add_values eq cur source idx offset len = (if eq then cur @ map ((!) source) idx else ptr_slice source offset len)"

definition add_outputs :: "llama_sbatch \<Rightarrow> sbatch_seq \<Rightarrow> nat \<Rightarrow> llama_ubatch \<Rightarrow> bool list \<times> nat list" where
  "add_outputs sb s len ub =
     (let idx = seq_ids_at sb s len in
      if logits_all sb then (u_output ub @ replicate len True, out_ids sb @ idx)
      else case b_logits (sb_batch sb) of
        Some logits \<Rightarrow>
          if equal_seqs ub then (u_output ub @ map ((!) logits) idx, out_ids sb @ filter ((!) logits) idx)
          else (ptr_slice logits (s_offset s) len,
                out_ids sb @ map ((+) (s_offset s)) (filter (\<lambda>i. ptr_slice logits (s_offset s) len ! i) [0 ..< len]))
      | None \<Rightarrow>
          let is_last = (\<lambda>i. i = length (ids sb) - 1)
          in (u_output ub @ map is_last idx, out_ids sb @ filter is_last idx))"

text \<open>\<open>k\<close> is the number of the sequence in \<open>sb_seq\<close>.\<close>

definition add_seq_to_ubatch :: "llama_ubatch \<Rightarrow> nat \<Rightarrow> nat \<Rightarrow> llama_sbatch \<Rightarrow> (llama_ubatch \<times> llama_sbatch) option" where
  "add_seq_to_ubatch ub k len sb =
     (let s = sb_seq sb ! k; b = sb_batch sb; idx = seq_ids_at sb s len; eq = equal_seqs ub in
      if \<not> len \<le> s_length s then None
      else if b_pos b = None then None
      else if \<not> (s_n_seq_id s = 0 \<or> n_seqs ub = 0 \<or> len = u_n_tokens ub div n_seqs ub) then None
      else if \<not> ((s_n_seq_id s \<noteq> 0) = eq) then None
      else
        let outputs = add_outputs sb s len ub;
            ub' = ub\<lparr>
              u_token := map_option (\<lambda>src. add_values eq (case u_token ub of None \<Rightarrow> [] | Some t \<Rightarrow> t) src idx (s_offset s) len) (b_token b),
              u_embd := map_option (\<lambda>src. add_values eq (case u_embd ub of None \<Rightarrow> [] | Some t \<Rightarrow> t) src idx (s_offset s) len) (b_embd b),
              u_pos := (case b_pos b of None \<Rightarrow> u_pos ub | Some src \<Rightarrow> add_values eq (u_pos ub) src idx (s_offset s) len),
              u_n_seq_id := (if eq then u_n_seq_id ub @ [s_n_seq_id s]
                 else case b_n_seq_id b of Some src \<Rightarrow> ptr_slice src (s_offset s) len | None \<Rightarrow> u_n_seq_id ub @ replicate len 1),
              u_seq_id := (if eq then u_seq_id ub @ [s_seq_id s]
                 else case b_seq_id b of Some src \<Rightarrow> ptr_slice src (s_offset s) len | None \<Rightarrow> u_seq_id ub),
              u_output := fst outputs,
              n_seq_tokens := (if u_n_tokens ub = 0 \<and> n_seqs ub = 0 then (if eq then len else 1) else n_seq_tokens ub),
              u_n_tokens := u_n_tokens ub + len,
              n_seqs := n_seqs ub + (if eq then 1 else len)\<rparr>;
            sb' = sb\<lparr>out_ids := snd outputs,
              sb_seq := (sb_seq sb)[k := s\<lparr>s_offset := s_offset s + len, s_length := s_length s - len\<rparr>],
              sb_n_tokens := sb_n_tokens sb - len\<rparr>
        in if u_n_tokens ub' = n_seq_tokens ub' * n_seqs ub' then Some (ub', sb') else None)"

subsection \<open>The three splits\<close>

definition split_simple :: "nat \<Rightarrow> llama_sbatch \<Rightarrow> (llama_ubatch \<times> llama_sbatch) option" where
  "split_simple n_ubatch sb =
     (let n = min (sb_n_tokens sb) n_ubatch in
      case reserve_ubatch (b_embd (sb_batch sb) \<noteq> None) sb of (ub0, sb1) \<Rightarrow>
        let ub = ub0\<lparr>equal_seqs := False\<rparr> in
        if sb_seq sb1 = [] then Some (ub, sb1)
        else let s = sb_seq sb1 ! 0; len = min (s_length s) n in
          if \<not> (length (sb_seq sb1) = 1 \<and> s_n_seq_id s = 0) then None
          else add_seq_to_ubatch ub 0 len sb1)"

text \<open>The loop of \<open>split_equal\<close>: \<open>i\<close> sequences are left, the last of them is next.\<close>

fun equal_loop :: "nat \<Rightarrow> nat \<Rightarrow> nat \<Rightarrow> nat \<Rightarrow> llama_ubatch \<Rightarrow> llama_sbatch \<Rightarrow> (llama_ubatch \<times> llama_sbatch) option" where
  "equal_loop n 0 len n_in ub sb = Some (ub, sb)"
| "equal_loop n (Suc i) len n_in ub sb =
     (let s = sb_seq sb ! i in
      if \<not> s_length s > 0 then None
      else let len' = (if len = 0 then min (s_length s) n else len) in
        case add_seq_to_ubatch ub i len' sb of None \<Rightarrow> None
        | Some (ub', sb') \<Rightarrow>
            if s_n_seq_id s > 1 then Some (ub', sb')
            else if len' + (n_in + len') > n then Some (ub', sb')
            else equal_loop n i len' (n_in + len') ub' sb')"

definition split_equal :: "nat \<Rightarrow> llama_sbatch \<Rightarrow> (llama_ubatch \<times> llama_sbatch) option" where
  "split_equal n_ubatch sb =
     (let n = min (sb_n_tokens sb) n_ubatch in
      case reserve_ubatch (b_embd (sb_batch sb) \<noteq> None) sb of (ub, sb1) \<Rightarrow>
        if sb_seq sb1 = [] then Some (ub, sb1)
        else if \<not> s_n_seq_id (sb_seq sb1 ! 0) > 0 then None
        else equal_loop n (length (sb_seq sb1)) 0 0 ub sb1)"

definition split_seq :: "nat \<Rightarrow> llama_sbatch \<Rightarrow> (llama_ubatch \<times> llama_sbatch) option" where
  "split_seq n_ubatch sb =
     (let n = min (sb_n_tokens sb) n_ubatch in
      case reserve_ubatch (b_embd (sb_batch sb) \<noteq> None) sb of (ub, sb1) \<Rightarrow>
        if sb_seq sb1 = [] then Some (ub, sb1)
        else let k = length (sb_seq sb1) - 1; s = sb_seq sb1 ! k; len = min (s_length s) n in
          if \<not> s_n_seq_id s > 0 then None else add_seq_to_ubatch ub k len sb1)"

subsection \<open>The constructor\<close>

definition n_seq_of :: "llama_batch \<Rightarrow> nat \<Rightarrow> nat" where
  "n_seq_of b a = (case b_n_seq_id b of Some xs \<Rightarrow> xs ! a | None \<Rightarrow> 1)"

fun cmp_seq_ids :: "nat list \<Rightarrow> nat list \<Rightarrow> nat \<Rightarrow> bool option" where
  "cmp_seq_ids xs ys 0 = None"
| "cmp_seq_ids xs ys (Suc n) =
     (if hd xs \<noteq> hd ys then Some (hd xs < hd ys) else cmp_seq_ids (tl xs) (tl ys) n)"

definition token_less :: "llama_batch \<Rightarrow> nat \<Rightarrow> nat \<Rightarrow> bool" where
  "token_less batch a b =
     (let n_seq_a = n_seq_of batch a; n_seq_b = n_seq_of batch b in
      if n_seq_a = n_seq_b then
        (case (case b_seq_id batch of Some xs \<Rightarrow> cmp_seq_ids (xs ! a) (xs ! b) n_seq_a | None \<Rightarrow> None) of
           Some r \<Rightarrow> r
         | None \<Rightarrow> (case b_pos batch of Some ps \<Rightarrow> ps ! a < ps ! b | None \<Rightarrow> a < b))
      else n_seq_a > n_seq_b)"

definition seq_less :: "sbatch_seq \<Rightarrow> sbatch_seq \<Rightarrow> bool" where
  "seq_less a b = (if s_n_seq_id a = s_n_seq_id b then s_length a > s_length b else s_n_seq_id a < s_n_seq_id b)"

text \<open>One turn of the loop that groups the sorted tokens; the last sequence is extended or a new one
  is started.\<close>

definition group_token :: "llama_batch \<Rightarrow> nat list \<Rightarrow> nat \<Rightarrow> sbatch_seq list \<Rightarrow> sbatch_seq list" where
  "group_token batch idl i ss =
     (let bi = idl ! i; n = n_seq_of batch bi; sids = (case b_seq_id batch of Some xs \<Rightarrow> xs ! bi | None \<Rightarrow> []) in
      if ss \<noteq> [] \<and> n = s_n_seq_id (last ss) \<and> take n sids = take n (s_seq_id (last ss))
      then butlast ss @ [(last ss)\<lparr>s_length := s_length (last ss) + 1\<rparr>]
      else ss @ [\<lparr>s_n_seq_id = n, s_seq_id = sids, s_offset = i, s_length = 1\<rparr>])"

definition sbatch_init :: "((nat \<Rightarrow> nat \<Rightarrow> bool) \<Rightarrow> nat list \<Rightarrow> nat list) \<Rightarrow>
    ((sbatch_seq \<Rightarrow> sbatch_seq \<Rightarrow> bool) \<Rightarrow> sbatch_seq list \<Rightarrow> sbatch_seq list) \<Rightarrow> llama_batch \<Rightarrow> bool \<Rightarrow> bool \<Rightarrow>
    llama_sbatch option" where
  "sbatch_init sort_ids sort_seqs batch simple_split log_all =
     (let n = b_n_tokens batch in
      if simple_split then
        Some \<lparr>sb_n_tokens = n, logits_all = log_all, ids = [0 ..< n], out_ids = [],
         sb_seq = [\<lparr>s_n_seq_id = 0, s_seq_id = [], s_offset = 0, s_length = n\<rparr>], sb_batch = batch\<rparr>
      else if n > 0 \<and> (b_n_seq_id batch = None \<or> b_seq_id batch = None) then None
      else let sorted_ids = sort_ids (token_less batch) [0 ..< n] in
        Some \<lparr>sb_n_tokens = n, logits_all = log_all, ids = sorted_ids, out_ids = [],
         sb_seq = sort_seqs seq_less (fold (group_token batch sorted_ids) [0 ..< n] []), sb_batch = batch\<rparr>)"

subsection \<open>Defaults of a batch\<close>

definition batch_allocr :: "llama_batch \<Rightarrow> int \<Rightarrow> llama_batch option" where
  "batch_allocr b p0 =
     (if \<not> b_n_tokens b > 0 \<or> (b_pos b = None \<and> \<not> p0 \<ge> 0) then None
      else let n = b_n_tokens b in Some (b\<lparr>
        b_pos := Some (case b_pos b of Some ps \<Rightarrow> ps | None \<Rightarrow> map (\<lambda>i. p0 + int i) [0 ..< n]),
        b_n_seq_id := Some (case b_n_seq_id b of Some xs \<Rightarrow> xs | None \<Rightarrow> replicate n 1),
        b_seq_id := Some (case b_seq_id b of Some xs \<Rightarrow> xs | None \<Rightarrow> replicate n [0]),
        b_logits := Some (case b_logits b of Some xs \<Rightarrow> xs | None \<Rightarrow> (replicate n False)[n - 1 := True])\<rparr>))"

definition llama_batch_get_one :: "int list \<Rightarrow> llama_batch" where
  "llama_batch_get_one tokens = \<lparr>b_n_tokens = length tokens, b_token = Some tokens, b_embd = None, b_pos = None,
     b_n_seq_id = None, b_seq_id = None, b_logits = None\<rparr>"

text \<open>The loop around the splits; \<open>None\<close> is also a loop that never ends.\<close>

partial_function (option) split_all :: "(llama_sbatch \<Rightarrow> (llama_ubatch \<times> llama_sbatch) option) \<Rightarrow> llama_sbatch \<Rightarrow>
    (llama_ubatch list \<times> llama_sbatch) option" where
  "split_all split sb =
     (if sb_n_tokens sb > 0 then
        Option.bind (split sb) (\<lambda>(ub, sb'). Option.bind (split_all split sb') (\<lambda>(ubs, sb''). Some (ub # ubs, sb'')))
      else Some ([], sb))"

end
