(* ===== verification/Batch_Split.thy ===== *)
theory Batch_Split
  imports Batch "HOL-Library.Multiset" "HOL-Library.Product_Lexorder"
begin

text \<open>
  The splits of a batch neither lose nor repeat a token: what a micro-batch holds as a relation to the
  indices of the batch, the invariant between two splits, and the loops around the splits.
\<close>

subsection \<open>What a micro-batch holds\<close>

definition out_at :: "llama_sbatch \<Rightarrow> nat \<Rightarrow> bool" where
  "out_at sb i = (if logits_all sb then True else
     case b_logits (sb_batch sb) of Some lg \<Rightarrow> lg ! i | None \<Rightarrow> i = length (ids sb) - 1)"

definition same_seq :: "llama_batch \<Rightarrow> nat \<Rightarrow> nat list \<Rightarrow> nat \<Rightarrow> bool" where
  "same_seq b n sids i \<longleftrightarrow> n_seq_of b i = n \<and>
     take n (case b_seq_id b of Some xs \<Rightarrow> xs ! i | None \<Rightarrow> []) = take n sids"

text \<open>\<open>holds_tokens b out l ub\<close>: the micro-batch is the tokens of the batch with the indices \<open>l\<close>.\<close>

definition holds_tokens :: "llama_batch \<Rightarrow> (nat \<Rightarrow> bool) \<Rightarrow> nat list \<Rightarrow> llama_ubatch \<Rightarrow> bool" where
  "holds_tokens b out l ub \<longleftrightarrow> u_n_tokens ub = length l \<and>
     u_token ub = map_option (\<lambda>src. map ((!) src) l) (b_token b) \<and>
     u_embd ub = map_option (\<lambda>src. map ((!) src) l) (b_embd b) \<and>
     u_pos ub = map ((!) (the (b_pos b))) l \<and> u_output ub = map out l"

text \<open>\<open>holds_seqs b ls ub\<close>: it consists of sequences of equal length, each with the sequence ids of all
  of its tokens.\<close>

definition holds_seqs :: "llama_batch \<Rightarrow> nat list list \<Rightarrow> llama_ubatch \<Rightarrow> bool" where
  "holds_seqs b ls ub \<longleftrightarrow> equal_seqs ub \<and> n_seqs ub = length ls \<and> (\<forall>l \<in> set ls. length l = n_seq_tokens ub) \<and>
     length (u_n_seq_id ub) = length ls \<and> length (u_seq_id ub) = length ls \<and>
     (\<forall>q < length ls. \<forall>i \<in> set (ls ! q). same_seq b (u_n_seq_id ub ! q) (u_seq_id ub ! q) i)"

definition seg :: "llama_sbatch \<Rightarrow> sbatch_seq \<Rightarrow> nat list" where
  "seg sb s = seq_ids_at sb s (s_length s)"

definition segs :: "llama_sbatch \<Rightarrow> nat list" where
  "segs sb = concat (map (seg sb) (sb_seq sb))"

lemma length_concat_same: "\<forall>l \<in> set ls. length l = n \<Longrightarrow> length (concat ls) = n * length ls"
  by (induction ls) auto

text \<open>The tokens of a sequence really belong to it.\<close>

definition live :: "llama_sbatch \<Rightarrow> sbatch_seq \<Rightarrow> bool" where
  "live sb s \<longleftrightarrow> s_n_seq_id s > 0 \<and> (\<forall>i \<in> set (seg sb s). same_seq (sb_batch sb) (s_n_seq_id s) (s_seq_id s) i)"

text \<open>The state between two splits into equal sequences.\<close>

definition eq_inv :: "llama_sbatch \<Rightarrow> bool" where
  "eq_inv sb \<longleftrightarrow> sb_n_tokens sb = length (segs sb) \<and> sorted_wrt (\<lambda>x y. \<not> seq_less y x) (sb_seq sb) \<and>
     sorted_wrt (\<lambda>x y. s_length x = 0 \<longrightarrow> s_length y = 0) (sb_seq sb) \<and> b_pos (sb_batch sb) \<noteq> None \<and>
     (b_token (sb_batch sb) = None) = (b_embd (sb_batch sb) \<noteq> None) \<and> (\<forall>s \<in> set (sb_seq sb). live sb s)"

lemma seg_take_drop:
  assumes "len \<le> s_length s"
  shows "seg sb s = seq_ids_at sb s len @ seg sb (s\<lparr>s_offset := s_offset s + len, s_length := s_length s - len\<rparr>)"
proof -
  have "map ((+) len) [0 ..< s_length s - len] = [len ..< s_length s]"
    using assms by (intro nth_equalityI) auto
  then have "[0 ..< s_length s] = [0 ..< len] @ map ((+) len) [0 ..< s_length s - len]"
    using assms upt_add_eq_append [of 0 len "s_length s - len"] by simp
  then show ?thesis by (simp add: seg_def seq_ids_at_def add.assoc)
qed

lemma add_seq_eq:
  assumes hold: "holds_tokens b out (concat ls) ub" "holds_seqs b ls ub"
    and sb: "sb_batch sb = b" "out = out_at sb" "b_pos b \<noteq> None"
    and s: "s = sb_seq sb ! k" "k < length (sb_seq sb)" "len \<le> s_length s" "len > 0" "s_n_seq_id s > 0"
      "\<forall>i \<in> set (seg sb s). same_seq b (s_n_seq_id s) (s_seq_id s) i"
    and shape: "ls = [] \<or> len = n_seq_tokens ub"
    and idx: "idx = seq_ids_at sb s len"
  obtains ub' where "add_seq_to_ubatch ub k len sb = Some (ub', sb\<lparr>out_ids := out_ids sb @ filter out idx,
      sb_seq := (sb_seq sb)[k := s\<lparr>s_offset := s_offset s + len, s_length := s_length s - len\<rparr>],
      sb_n_tokens := sb_n_tokens sb - len\<rparr>)"
    "holds_tokens b out (concat (ls @ [idx])) ub'" "holds_seqs b (ls @ [idx]) ub'" "n_seq_tokens ub' = len"
proof -
  have n: "u_n_tokens ub = n_seq_tokens ub * length ls" "n_seqs ub = length ls" "equal_seqs ub"
    using hold length_concat_same [of ls "n_seq_tokens ub"] by (auto simp: holds_tokens_def holds_seqs_def)
  have li: "length idx = len" by (simp add: idx seq_ids_at_def)
  have sub: "set idx \<subseteq> set (seg sb s)" using seg_take_drop [OF s(3), of sb] by (auto simp: idx)
  have "out = (\<lambda>i. if logits_all sb then True else
     case b_logits (sb_batch sb) of Some lg \<Rightarrow> lg ! i | None \<Rightarrow> i = length (ids sb) - 1)"
    using sb(2) by (simp add: fun_eq_iff out_at_def)
  then have outs: "add_outputs sb s len ub = (u_output ub @ map out idx, out_ids sb @ filter out idx)"
    using n(3) li unfolding add_outputs_def Let_def idx [symmetric]
    by (cases "b_logits (sb_batch sb)") (simp_all add: map_replicate_const)
  have ok: "n_seqs ub = 0 \<or> len = u_n_tokens ub div n_seqs ub" using shape n s(4) by auto
  let ?sb' = "sb\<lparr>out_ids := out_ids sb @ filter out idx,
      sb_seq := (sb_seq sb)[k := s\<lparr>s_offset := s_offset s + len, s_length := s_length s - len\<rparr>],
      sb_n_tokens := sb_n_tokens sb - len\<rparr>"
  obtain ub' where r: "add_seq_to_ubatch ub k len sb = Some (ub', ?sb')"
    "equal_seqs ub'" "u_n_tokens ub' = u_n_tokens ub + len" "n_seqs ub' = n_seqs ub + 1" "n_seq_tokens ub' = len"
    "u_token ub' = map_option (\<lambda>src. (case u_token ub of None \<Rightarrow> [] | Some t \<Rightarrow> t) @ map ((!) src) idx) (b_token b)"
    "u_embd ub' = map_option (\<lambda>src. (case u_embd ub of None \<Rightarrow> [] | Some t \<Rightarrow> t) @ map ((!) src) idx) (b_embd b)"
    "u_pos ub' = u_pos ub @ map ((!) (the (b_pos b))) idx" "u_output ub' = u_output ub @ map out idx"
    "u_n_seq_id ub' = u_n_seq_id ub @ [s_n_seq_id s]" "u_seq_id ub' = u_seq_id ub @ [s_seq_id s]"
  proof -
    define v where "v = ub\<lparr>
      u_token := map_option (\<lambda>src. (case u_token ub of None \<Rightarrow> [] | Some t \<Rightarrow> t) @ map ((!) src) idx) (b_token b),
      u_embd := map_option (\<lambda>src. (case u_embd ub of None \<Rightarrow> [] | Some t \<Rightarrow> t) @ map ((!) src) idx) (b_embd b),
      u_pos := u_pos ub @ map ((!) (the (b_pos b))) idx,
      u_n_seq_id := u_n_seq_id ub @ [s_n_seq_id s], u_seq_id := u_seq_id ub @ [s_seq_id s],
      u_output := u_output ub @ map out idx, n_seq_tokens := len, u_n_tokens := u_n_tokens ub + len,
      n_seqs := n_seqs ub + 1\<rparr>"
    have "u_n_tokens ub + len = len * (n_seqs ub + 1)" using n shape by auto
    moreover obtain ps where "b_pos b = Some ps" using sb(3) by auto
    moreover have "n_seqs ub = 0 \<and> u_n_tokens ub = 0 \<or> n_seqs ub > 0 \<and> u_n_tokens ub > 0 \<and> n_seq_tokens ub = len"
      using n(1,2) shape s(4) by auto
    ultimately have "add_seq_to_ubatch ub k len sb = Some (v, ?sb')"
      using s(3,5) n(3) ok outs
      unfolding add_seq_to_ubatch_def Let_def s(1) [symmetric] sb(1) idx [symmetric]
      by (elim disjE conjE) (simp_all add: add_values_def v_def)
    then show ?thesis by (rule that) (simp_all add: v_def n(3))
  qed
  moreover have "holds_tokens b out (concat (ls @ [idx])) ub'"
    using r hold(1) li by (auto simp: holds_tokens_def split: option.splits)
  moreover have "holds_seqs b (ls @ [idx]) ub'"
    using r hold(2) shape li sub s(6) by (auto simp: holds_seqs_def nth_append less_Suc_eq)
  ultimately show thesis using that by blast
qed

subsection \<open>One split into equal sequences\<close>

definition adv :: "nat \<Rightarrow> sbatch_seq \<Rightarrow> sbatch_seq" where
  "adv len s = s\<lparr>s_offset := s_offset s + len, s_length := s_length s - len\<rparr>"

lemma adv_simps [simp]: "s_n_seq_id (adv len s) = s_n_seq_id s" "s_seq_id (adv len s) = s_seq_id s"
  "s_length (adv len s) = s_length s - len" "adv 0 s = s"
  by (simp_all add: adv_def)

text \<open>The indices taken from the sequences from number \<open>i\<close> on, and the state after that.\<close>

definition eq_taken :: "llama_sbatch \<Rightarrow> nat \<Rightarrow> nat \<Rightarrow> nat list list" where
  "eq_taken sb i len = map (\<lambda>s. seq_ids_at sb s len) (rev (drop i (sb_seq sb)))"

definition eq_state :: "llama_sbatch \<Rightarrow> nat \<Rightarrow> nat \<Rightarrow> llama_sbatch" where
  "eq_state sb i len = sb\<lparr>out_ids := out_ids sb @ filter (out_at sb) (concat (eq_taken sb i len)),
     sb_seq := take i (sb_seq sb) @ map (adv len) (drop i (sb_seq sb)),
     sb_n_tokens := sb_n_tokens sb - len * (length (sb_seq sb) - i)\<rparr>"

lemma out_at_state [simp]: "out_at (sb\<lparr>out_ids := o', sb_seq := s', sb_n_tokens := n'\<rparr>) = out_at sb"
  "out_at (eq_state sb i len) = out_at sb"
  by (simp_all add: fun_eq_iff out_at_def eq_state_def split: option.split)

lemma seg_state [simp]: "seg (eq_state sb i len) = seg sb" "seg (sb\<lparr>sb_seq := s'\<rparr>) = seg sb"
  "seq_ids_at (eq_state sb i len) = seq_ids_at sb"
  by (simp_all add: fun_eq_iff seg_def seq_ids_at_def eq_state_def)

definition taken_ok :: "llama_sbatch \<Rightarrow> nat \<Rightarrow> nat \<Rightarrow> llama_ubatch \<Rightarrow> bool" where
  "taken_ok sb i len ub \<longleftrightarrow> (\<forall>s \<in> set (drop i (sb_seq sb)). len \<le> s_length s) \<and>
     holds_tokens (sb_batch sb) (out_at sb) (concat (eq_taken sb i len)) ub \<and> holds_seqs (sb_batch sb) (eq_taken sb i len) ub"

lemma take_one:
  assumes i: "i < length (sb_seq sb)" and pos: "b_pos (sb_batch sb) \<noteq> None"
    and s: "live sb (sb_seq sb ! i)" "len > 0" "len \<le> s_length (sb_seq sb ! i)"
    and ok: "taken_ok sb (Suc i) len0 ub" and len: "Suc i = length (sb_seq sb) \<or> len0 = len \<and> len = n_seq_tokens ub"
  obtains ub' where "add_seq_to_ubatch ub i len (eq_state sb (Suc i) len0) = Some (ub', eq_state sb i len)"
    "taken_ok sb i len ub'" "n_seq_tokens ub' = len"
proof -
  let ?ss = "sb_seq sb" and ?st = "eq_state sb (Suc i) len0"
  have at: "sb_seq ?st ! i = ?ss ! i" "i < length (sb_seq ?st)" using i by (auto simp: eq_state_def nth_append)
  have tk: "eq_taken sb i len = eq_taken sb (Suc i) len0 @ [seq_ids_at sb (?ss ! i) len]"
    using i len by (auto simp: eq_taken_def Cons_nth_drop_Suc [symmetric])
  have batch: "sb_batch ?st = sb_batch sb" by (simp add: eq_state_def)
  have hold: "holds_tokens (sb_batch sb) (out_at sb) (concat (eq_taken sb (Suc i) len0)) ub"
    "holds_seqs (sb_batch sb) (eq_taken sb (Suc i) len0) ub" using ok by (auto simp: taken_ok_def)
  have shape: "eq_taken sb (Suc i) len0 = [] \<or> len = n_seq_tokens ub" using len by (auto simp: eq_taken_def)
  have "\<forall>j \<in> set (seg ?st (?ss ! i)). same_seq (sb_batch sb) (s_n_seq_id (?ss ! i)) (s_seq_id (?ss ! i)) j" "s_n_seq_id (?ss ! i) > 0"
    using s(1) by (auto simp: live_def)
  from add_seq_eq [OF hold batch _ pos at(1) [symmetric] at(2) s(3,2) this(2,1) shape refl]
  obtain ub' where r: "add_seq_to_ubatch ub i len ?st = Some (ub',
      ?st\<lparr>out_ids := out_ids ?st @ filter (out_at sb) (seq_ids_at sb (?ss ! i) len),
          sb_seq := (sb_seq ?st)[i := (?ss ! i)\<lparr>s_offset := s_offset (?ss ! i) + len, s_length := s_length (?ss ! i) - len\<rparr>],
          sb_n_tokens := sb_n_tokens ?st - len\<rparr>)"
    "holds_tokens (sb_batch sb) (out_at sb) (concat (eq_taken sb i len)) ub'"
    "holds_seqs (sb_batch sb) (eq_taken sb i len) ub'" "n_seq_tokens ub' = len"
    unfolding tk by auto
  have "?st\<lparr>out_ids := out_ids ?st @ filter (out_at sb) (seq_ids_at sb (?ss ! i) len),
          sb_seq := (sb_seq ?st)[i := adv len (?ss ! i)], sb_n_tokens := sb_n_tokens ?st - len\<rparr> = eq_state sb i len"
  proof -
    have "take (Suc i) ?ss = take i ?ss @ [?ss ! i]" "drop i ?ss = ?ss ! i # drop (Suc i) ?ss"
      using i by (simp_all add: take_Suc_conv_app_nth Cons_nth_drop_Suc)
    moreover have "map (adv len0) (drop (Suc i) ?ss) = map (adv len) (drop (Suc i) ?ss)" using len i by auto
    ultimately have "(sb_seq ?st)[i := adv len (?ss ! i)] = take i ?ss @ map (adv len) (drop i ?ss)"
      using i by (simp add: eq_state_def list_update_append)
    moreover have "sb_n_tokens ?st - len = sb_n_tokens sb - len * (length ?ss - i)"
    proof -
      have "len0 * (length ?ss - Suc i) = len * (length ?ss - Suc i)" using len by auto
      moreover have "length ?ss - i = Suc (length ?ss - Suc i)" using i by simp
      moreover have "sb_n_tokens ?st - len = sb_n_tokens sb - (len0 * (length ?ss - Suc i) + len)"
        by (simp add: eq_state_def)
      ultimately show ?thesis by (simp only: mult_Suc_right add.commute)
    qed
    ultimately show ?thesis by (simp add: eq_state_def tk)
  qed
  moreover have "\<forall>s \<in> set (drop i ?ss). len \<le> s_length s"
    using ok len s(3) i by (auto simp: taken_ok_def Cons_nth_drop_Suc [symmetric])
  ultimately show thesis using r by (intro that [of ub']) (auto simp: taken_ok_def adv_def)
qed

lemma equal_loop_spec:
  assumes ss: "\<forall>s \<in> set (sb_seq sb). live sb s \<and> s_length s > 0" "sorted_wrt (\<lambda>x y. \<not> seq_less y x) (sb_seq sb)"
    and pos: "b_pos (sb_batch sb) \<noteq> None" and n: "n > 0"
    and i: "i \<le> length (sb_seq sb)" "sb_seq sb \<noteq> []" "n_in = len * (length (sb_seq sb) - i)" "taken_ok sb i len ub"
    and start: "if i = length (sb_seq sb) then len = 0
      else len > 0 \<and> n_seq_tokens ub = len \<and> len + n_in \<le> n \<and> (\<forall>s \<in> set (drop i (sb_seq sb)). s_n_seq_id s = 1)"
  shows "\<exists>j len' ub'. equal_loop n i len n_in ub (eq_state sb i len) = Some (ub', eq_state sb j len') \<and>
    j < length (sb_seq sb) \<and> len' > 0 \<and> taken_ok sb j len' ub' \<and> len' * (length (sb_seq sb) - j) \<le> n \<and>
    (Suc j = length (sb_seq sb) \<or> (\<forall>s \<in> set (drop j (sb_seq sb)). s_n_seq_id s = 1))"
  using i start
proof (induction i arbitrary: len n_in ub)
  case 0
  then show ?case by (intro exI [of _ "0 :: nat"] exI [of _ len] exI [of _ ub]) auto
next
  case (Suc i)
  let ?ss = "sb_seq sb" and ?m = "length (sb_seq sb)"
  define s where "s = ?ss ! i"
  have im: "i < ?m" using Suc.prems(1) by simp
  have s_in: "s \<in> set ?ss" using im by (simp add: s_def)
  have at: "sb_seq (eq_state sb (Suc i) len) ! i = s" using im by (auto simp: eq_state_def nth_append s_def)
  have sl: "s_length s > 0" "live sb s" using ss(1) s_in by auto
  define len' where "len' = (if len = 0 then min (s_length s) n else len)"
  have drop: "drop i ?ss = s # drop (Suc i) ?ss" using im by (simp add: Cons_nth_drop_Suc s_def)
  have next_len: "len \<le> s_length s \<and> s_n_seq_id s = 1" if less: "Suc i < ?m"
  proof -
    have t: "?ss ! Suc i \<in> set (drop (Suc i) ?ss)" using less by (metis Cons_nth_drop_Suc list.set_intros(1))
    then have "s_n_seq_id (?ss ! Suc i) = 1" "len \<le> s_length (?ss ! Suc i)"
      using Suc.prems(4,5) less by (auto simp: taken_ok_def)
    moreover have "\<not> seq_less (?ss ! Suc i) s" using ss(2) less by (simp add: sorted_wrt_iff_nth_less s_def)
    moreover have "s_n_seq_id s > 0" using sl(2) by (simp add: live_def)
    ultimately show ?thesis by (auto simp: seq_less_def split: if_splits)
  qed
  have len': "len' > 0" "len' \<le> s_length s" "len' \<le> n" "Suc i = ?m \<or> len = len' \<and> len' = n_seq_tokens ub"
    using Suc.prems(1,5) next_len sl n by (auto simp: len'_def split: if_splits)
  obtain ub' where a: "add_seq_to_ubatch ub i len' (eq_state sb (Suc i) len) = Some (ub', eq_state sb i len')"
    "taken_ok sb i len' ub'" "n_seq_tokens ub' = len'"
    using take_one [OF im pos _ len'(1) _ Suc.prems(4) len'(4)] sl len'(2) unfolding s_def by blast
  have n_in': "n_in + len' = len' * (?m - i)" 
  proof -
    have "len * (?m - Suc i) = len' * (?m - Suc i)" using len'(4) by auto
    moreover have "?m - i = Suc (?m - Suc i)" using im by simp
    ultimately show ?thesis using Suc.prems(3) by (simp only: mult_Suc_right add.commute)
  qed
  have le: "n_in + len' \<le> n"
  proof (cases "Suc i = ?m")
    case True
    then show ?thesis using Suc.prems(3) len'(3) by simp
  next
    case False
    then have "len = len'" using len'(4) by blast
    moreover have "len + n_in \<le> n" using Suc.prems(5) unfolding if_not_P [OF False] by (elim conjE)
    ultimately show ?thesis by linarith
  qed
  have one: "Suc i = ?m \<or> (\<forall>t \<in> set (drop i ?ss). s_n_seq_id t = 1)"
  proof (cases "Suc i = ?m")
    case False
    then have "\<forall>t \<in> set (drop (Suc i) ?ss). s_n_seq_id t = 1" using Suc.prems(5) by simp
    moreover have "s_n_seq_id s = 1" using next_len im False by simp
    ultimately show ?thesis by (simp add: drop)
  qed simp
  show ?case
  proof (cases "s_n_seq_id s > 1 \<or> len' + (n_in + len') > n")
    case True
    then have "equal_loop n (Suc i) len n_in ub (eq_state sb (Suc i) len) = Some (ub', eq_state sb i len')"
      using a(1) sl(1) by (auto simp: at Let_def len'_def [symmetric])
    then show ?thesis using im len' a(2) le n_in' one by (intro exI [of _ i] exI [of _ len'] exI [of _ ub']) simp
  next
    case False
    then have "equal_loop n (Suc i) len n_in ub (eq_state sb (Suc i) len) = equal_loop n i len' (n_in + len') ub' (eq_state sb i len')"
      using a(1) sl(1) by (auto simp: at Let_def len'_def [symmetric])
    moreover have "s_n_seq_id s = 1" using False sl(2) by (auto simp: live_def)
    then have "\<forall>t \<in> set (drop i ?ss). s_n_seq_id t = 1" using one drop im by auto
    ultimately show ?thesis
      using Suc.IH [OF _ Suc.prems(2) n_in' a(2)] im len' a(3) False by auto
  qed
qed

definition split_ok :: "nat \<Rightarrow> llama_sbatch \<Rightarrow> llama_ubatch \<Rightarrow> llama_sbatch \<Rightarrow> nat list list \<Rightarrow> bool" where
  "split_ok n sb ub sb' ls \<longleftrightarrow> eq_inv sb' \<and> sb_batch sb' = sb_batch sb \<and> out_at sb' = out_at sb \<and>
     holds_tokens (sb_batch sb) (out_at sb) (concat ls) ub \<and> holds_seqs (sb_batch sb) ls ub \<and>
     concat ls \<noteq> [] \<and> length (concat ls) \<le> n \<and> mset (concat ls) + mset (segs sb') = mset (segs sb) \<and>
     out_ids sb' = out_ids sb @ filter (out_at sb) (concat ls)"

lemma pop_filter:
  "sorted_wrt (\<lambda>x y. s_length x = 0 \<longrightarrow> s_length y = 0) ss \<Longrightarrow> pop_empty_seqs ss = filter (\<lambda>s. s_length s > 0) ss"
proof (induction ss rule: rev_induct)
  case (snoc x ss)
  then have "s_length x > 0 \<Longrightarrow> filter (\<lambda>s. s_length s > 0) ss = ss"
    by (auto simp: sorted_wrt_append filter_id_conv)
  with snoc show ?case by (auto simp: pop_empty_seqs_def sorted_wrt_append)
qed (simp add: pop_empty_seqs_def)

lemma segs_filter: "segs (sb\<lparr>sb_seq := filter (\<lambda>s. s_length s > 0) ss\<rparr>) = concat (map (seg sb) ss)"
  unfolding segs_def by (induction ss) (auto simp: seg_def seq_ids_at_def)

lemma sorted_nonempty: "\<forall>x \<in> set xs. s_length x > 0 \<Longrightarrow> sorted_wrt (\<lambda>x y. s_length x = 0 \<longrightarrow> s_length y = 0) xs"
  by (induction xs) auto

lemma seg_adv_subset: "len \<le> s_length s \<Longrightarrow> set (seg sb (adv len s)) \<subseteq> set (seg sb s)"
  using seg_take_drop [of len s sb] by (auto simp: adv_def)

lemma mset_taken:
  assumes "\<forall>s \<in> set xs. len \<le> s_length s"
  shows "mset (concat (map (\<lambda>s. seq_ids_at sb s len) (rev xs))) + mset (concat (map (\<lambda>s. seg sb (adv len s)) xs)) =
    mset (concat (map (seg sb) xs))"
  using assms
proof (induction xs)
  case (Cons s xs)
  then have "seg sb s = seq_ids_at sb s len @ seg sb (adv len s)" by (simp add: seg_take_drop adv_def)
  with Cons show ?case by (simp add: union_ac)
qed simp

lemma eq_state_ok:
  assumes inv: "eq_inv sb" "\<forall>s \<in> set (sb_seq sb). s_length s > 0" and j: "j < length (sb_seq sb)" "len > 0"
    and ok: "taken_ok sb j len ub" "len * (length (sb_seq sb) - j) \<le> n"
      "Suc j = length (sb_seq sb) \<or> (\<forall>s \<in> set (drop j (sb_seq sb)). s_n_seq_id s = 1)"
  shows "split_ok n sb ub (eq_state sb j len) (eq_taken sb j len)"
proof -
  let ?ss = "sb_seq sb" and ?st = "eq_state sb j len" and ?l = "concat (eq_taken sb j len)"
  have split: "?ss = take j ?ss @ drop j ?ss" by simp
  have seq: "sb_seq ?st = take j ?ss @ map (adv len) (drop j ?ss)" by (simp add: eq_state_def)
  have le: "\<forall>s \<in> set (drop j ?ss). len \<le> s_length s" using ok(1) by (simp add: taken_ok_def)
  have ms: "mset ?l + mset (segs ?st) = mset (segs sb)"
  proof -
    have "mset (segs sb) = mset (concat (map (seg sb) (take j ?ss))) + mset (concat (map (seg sb) (drop j ?ss)))"
      using arg_cong [OF split, of "\<lambda>xs. mset (concat (map (seg sb) xs))"]
      by (simp only: segs_def map_append concat_append mset_append)
    then show ?thesis using mset_taken [OF le, of sb] by (simp add: segs_def seq eq_taken_def comp_def union_ac)
  qed
  have l: "length ?l = len * (length ?ss - j)"
  proof -
    have "\<forall>l \<in> set (eq_taken sb j len). length l = len" by (auto simp: eq_taken_def seq_ids_at_def)
    from length_concat_same [OF this] show ?thesis by (simp add: eq_taken_def)
  qed
  have len: "length ?l + length (segs ?st) = length (segs sb)"
    using arg_cong [OF ms, of size] by simp
  have srt: "sorted_wrt (\<lambda>x y. \<not> seq_less y x) (take j ?ss)" "sorted_wrt (\<lambda>x y. \<not> seq_less y x) (drop j ?ss)"
    "x \<in> set (take j ?ss) \<Longrightarrow> y \<in> set (drop j ?ss) \<Longrightarrow> \<not> seq_less y x" for x y
    using inv(1) split by (metis eq_inv_def sorted_wrt_append)+
  have s1: "sorted_wrt (\<lambda>x y. \<not> seq_less y x) (sb_seq ?st)"
    using srt(1,3) sorted_wrt_mono_rel [OF _ srt(2), of "\<lambda>x y. \<not> seq_less (adv len y) (adv len x)"]
    by (fastforce simp: seq sorted_wrt_append sorted_wrt_map seq_less_def split: if_splits)
  have s2: "sorted_wrt (\<lambda>x y. s_length x = 0 \<longrightarrow> s_length y = 0) (map (adv len) (drop j ?ss))"
    using ok(3)
  proof
    assume "Suc j = length ?ss"
    then show ?thesis using j by (simp add: Cons_nth_drop_Suc [symmetric])
  next
    assume "\<forall>s \<in> set (drop j ?ss). s_n_seq_id s = 1"
    then show ?thesis using sorted_wrt_mono_rel [OF _ srt(2)]
      by (auto simp: sorted_wrt_map seq_less_def)
  qed
  have "\<forall>x \<in> set (take j ?ss). s_length x > 0" using inv(2) by (auto dest: in_set_takeD)
  then have s3: "sorted_wrt (\<lambda>x y. s_length x = 0 \<longrightarrow> s_length y = 0) (sb_seq ?st)"
    using s2 sorted_nonempty [of "take j ?ss"] by (auto simp: seq sorted_wrt_append)
  have bt: "sb_batch ?st = sb_batch sb" by (simp add: eq_state_def)
  have lv: "\<forall>s \<in> set ?ss. live sb s" using inv(1) by (simp add: eq_inv_def)
  have "live ?st (adv len s)" if "s \<in> set (drop j ?ss)" for s
  proof -
    have "live sb s" "set (seg sb (adv len s)) \<subseteq> set (seg sb s)"
      using that lv le by (auto dest: in_set_dropD intro!: seg_adv_subset)
    then show ?thesis by (auto simp: live_def bt)
  qed
  moreover have "live ?st s" if "s \<in> set (take j ?ss)" for s
    using that lv by (auto simp: live_def bt dest: in_set_takeD)
  ultimately have "\<forall>s \<in> set (sb_seq ?st). live ?st s" unfolding seq by auto
  moreover have "sb_n_tokens ?st = length (segs ?st)"
    using inv(1) len l by (simp add: eq_inv_def) (simp add: eq_state_def)
  ultimately have "eq_inv ?st" using s1 s3 inv(1) by (simp add: eq_inv_def) (simp add: eq_state_def)
  moreover have "?l \<noteq> []" using l j by (metis length_greater_0_conv nat_0_less_mult_iff zero_less_diff)
  moreover have "out_ids ?st = out_ids sb @ filter (out_at sb) ?l" by (simp add: eq_state_def)
  moreover have "length ?l \<le> n" using l ok(2) by simp
  ultimately show ?thesis
    using ok(1) ms bt unfolding split_ok_def taken_ok_def by simp
qed

subsection \<open>The splits and the loop around them\<close>

lemma reserve_start:
  assumes "eq_inv sb" "sb_n_tokens sb > 0"
  obtains sb1 ub where "reserve_ubatch (b_embd (sb_batch sb) \<noteq> None) sb = (ub, sb1)" "eq_inv sb1"
    "sb_batch sb1 = sb_batch sb" "out_at sb1 = out_at sb" "out_ids sb1 = out_ids sb" "segs sb1 = segs sb"
    "sb_n_tokens sb1 = sb_n_tokens sb" "\<forall>s \<in> set (sb_seq sb1). s_length s > 0" "sb_seq sb1 \<noteq> []"
    "eq_state sb1 (length (sb_seq sb1)) 0 = sb1" "taken_ok sb1 (length (sb_seq sb1)) 0 ub"
proof -
  define sb1 where "sb1 = sb\<lparr>sb_seq := filter (\<lambda>s. s_length s > 0) (sb_seq sb)\<rparr>"
  define ub where "ub = fst (reserve_ubatch (b_embd (sb_batch sb) \<noteq> None) sb)"
  have r: "reserve_ubatch (b_embd (sb_batch sb) \<noteq> None) sb = (ub, sb1)"
    using assms(1) by (simp add: reserve_ubatch_def ub_def sb1_def eq_inv_def pop_filter)
  have out: "out_at sb1 = out_at sb" by (simp add: fun_eq_iff out_at_def sb1_def split: option.split)
  have sg: "segs sb1 = segs sb" unfolding sb1_def segs_filter by (simp add: segs_def)
  have inv: "eq_inv sb1"
    using assms(1) sg unfolding eq_inv_def by (auto simp: sb1_def live_def intro: sorted_wrt_filter)
  have "segs sb1 \<noteq> []" using inv assms(2) by (auto simp: eq_inv_def sb1_def)
  then have ne: "sb_seq sb1 \<noteq> []" by (auto simp: segs_def)
  have "taken_ok sb1 (length (sb_seq sb1)) 0 ub"
    using assms(1) by (auto simp: taken_ok_def holds_tokens_def holds_seqs_def eq_taken_def ub_def reserve_ubatch_def eq_inv_def sb1_def)
  with r out sg inv ne show thesis by (intro that [of ub sb1]) (simp_all add: eq_state_def eq_taken_def, simp_all add: sb1_def)
qed

lemma split_ok_pre:
  assumes "split_ok n sb1 ub sb' ls" "sb_batch sb1 = sb_batch sb" "out_at sb1 = out_at sb" "out_ids sb1 = out_ids sb" "segs sb1 = segs sb"
  shows "split_ok n sb ub sb' ls"
  using assms by (simp add: split_ok_def)

lemma split_equal_ok:
  assumes "eq_inv sb" "sb_n_tokens sb > 0" "n_ubatch > 0"
  shows "\<exists>ub sb' ls. split_equal n_ubatch sb = Some (ub, sb') \<and> split_ok n_ubatch sb ub sb' ls"
proof -
  obtain sb1 ub where r: "reserve_ubatch (b_embd (sb_batch sb) \<noteq> None) sb = (ub, sb1)" "eq_inv sb1"
    "sb_batch sb1 = sb_batch sb" "out_at sb1 = out_at sb" "out_ids sb1 = out_ids sb" "segs sb1 = segs sb"
    "sb_n_tokens sb1 = sb_n_tokens sb" "\<forall>s \<in> set (sb_seq sb1). s_length s > 0" "sb_seq sb1 \<noteq> []"
    "eq_state sb1 (length (sb_seq sb1)) 0 = sb1" "taken_ok sb1 (length (sb_seq sb1)) 0 ub"
    by (rule reserve_start [OF assms(1,2)])
  let ?n = "min (sb_n_tokens sb) n_ubatch"
  have "\<exists>j len' ub'. equal_loop ?n (length (sb_seq sb1)) 0 0 ub (eq_state sb1 (length (sb_seq sb1)) 0) = Some (ub', eq_state sb1 j len') \<and>
    j < length (sb_seq sb1) \<and> len' > 0 \<and> taken_ok sb1 j len' ub' \<and> len' * (length (sb_seq sb1) - j) \<le> ?n \<and>
    (Suc j = length (sb_seq sb1) \<or> (\<forall>s \<in> set (drop j (sb_seq sb1)). s_n_seq_id s = 1))"
    by (rule equal_loop_spec) (use r assms(2,3) in \<open>auto simp: eq_inv_def\<close>)
  then obtain j len ub' where l: "equal_loop ?n (length (sb_seq sb1)) 0 0 ub sb1 = Some (ub', eq_state sb1 j len)"
    and ok: "j < length (sb_seq sb1)" "len > 0" "taken_ok sb1 j len ub'" "len * (length (sb_seq sb1) - j) \<le> ?n"
    "Suc j = length (sb_seq sb1) \<or> (\<forall>s \<in> set (drop j (sb_seq sb1)). s_n_seq_id s = 1)" unfolding r(10) by blast
  have "s_n_seq_id (sb_seq sb1 ! 0) > 0" using r(2,9) by (auto simp: eq_inv_def live_def)
  then have "split_equal n_ubatch sb = Some (ub', eq_state sb1 j len)"
    using r(9) l unfolding split_equal_def Let_def r(1) by simp
  moreover have "split_ok n_ubatch sb1 ub' (eq_state sb1 j len) (eq_taken sb1 j len)"
    by (rule eq_state_ok [OF r(2,8) ok(1-3) _ ok(5)]) (use ok(4) in simp)
  ultimately show ?thesis using split_ok_pre r(3-6) by blast
qed

lemma split_seq_ok:
  assumes "eq_inv sb" "sb_n_tokens sb > 0" "n_ubatch > 0"
  shows "\<exists>ub sb' ls. split_seq n_ubatch sb = Some (ub, sb') \<and> split_ok n_ubatch sb ub sb' ls"
proof -
  obtain sb1 ub where r: "reserve_ubatch (b_embd (sb_batch sb) \<noteq> None) sb = (ub, sb1)" "eq_inv sb1"
    "sb_batch sb1 = sb_batch sb" "out_at sb1 = out_at sb" "out_ids sb1 = out_ids sb" "segs sb1 = segs sb"
    "sb_n_tokens sb1 = sb_n_tokens sb" "\<forall>s \<in> set (sb_seq sb1). s_length s > 0" "sb_seq sb1 \<noteq> []"
    "eq_state sb1 (length (sb_seq sb1)) 0 = sb1" "taken_ok sb1 (length (sb_seq sb1)) 0 ub"
    by (rule reserve_start [OF assms(1,2)])
  define k where "k = length (sb_seq sb1) - 1"
  define len where "len = min (s_length (sb_seq sb1 ! k)) (min (sb_n_tokens sb) n_ubatch)"
  have k: "k < length (sb_seq sb1)" "length (sb_seq sb1) = Suc k" using r(9) by (simp_all add: k_def)
  then have "live sb1 (sb_seq sb1 ! k)" "s_length (sb_seq sb1 ! k) > 0" using r(2,8) by (simp_all add: eq_inv_def)
  moreover have "b_pos (sb_batch sb1) \<noteq> None" using r(2) by (simp add: eq_inv_def)
  moreover have len: "len > 0" "len \<le> n_ubatch" using calculation(2) assms(2,3) by (simp_all add: len_def)
  moreover have "taken_ok sb1 (Suc k) 0 ub" using r(11) k(2) by simp
  ultimately obtain ub' where a: "add_seq_to_ubatch ub k len (eq_state sb1 (Suc k) 0) = Some (ub', eq_state sb1 k len)"
    "taken_ok sb1 k len ub'" using take_one [OF k(1), of len 0 ub thesis] k(2) by (auto simp: len_def elim: take_one [OF k(1)])
  have "s_n_seq_id (sb_seq sb1 ! k) > 0" using \<open>live sb1 (sb_seq sb1 ! k)\<close> by (simp add: live_def)
  then have "split_seq n_ubatch sb = Some (ub', eq_state sb1 k len)"
    using a(1) r(9,10) k(2) unfolding split_seq_def Let_def r(1) by (simp add: k_def [symmetric] len_def [symmetric])
  moreover have "split_ok n_ubatch sb1 ub' (eq_state sb1 k len) (eq_taken sb1 k len)"
    by (rule eq_state_ok [OF r(2,8) k(1) len(1) a(2)]) (use k(2) len(2) in auto)
  ultimately show ?thesis using split_ok_pre r(3-6) by blast
qed

lemma split_all_ok:
  assumes "\<And>sb. eq_inv sb \<Longrightarrow> sb_n_tokens sb > 0 \<Longrightarrow> \<exists>ub sb' ls. split sb = Some (ub, sb') \<and> split_ok n sb ub sb' ls"
    and "eq_inv sb"
  shows "\<exists>ubs sb' lss. split_all split sb = Some (ubs, sb') \<and>
    list_all2 (\<lambda>ub ls. holds_tokens (sb_batch sb) (out_at sb) (concat ls) ub \<and> holds_seqs (sb_batch sb) ls ub \<and>
      concat ls \<noteq> [] \<and> length (concat ls) \<le> n) ubs lss \<and>
    mset (concat (concat lss)) = mset (segs sb) \<and> out_ids sb' = out_ids sb @ filter (out_at sb) (concat (concat lss))"
  using assms(2)
proof (induction "sb_n_tokens sb" arbitrary: sb rule: less_induct)
  case less
  show ?case
  proof (cases "sb_n_tokens sb > 0")
    case False
    then have "segs sb = []" using less.prems by (simp add: eq_inv_def)
    with False show ?thesis by (subst split_all.simps) (auto intro: exI [of _ "[]"])
  next
    case True
    then obtain ub sb' ls where s: "split sb = Some (ub, sb')" "split_ok n sb ub sb' ls" using assms(1) less.prems by blast
    then have ok: "eq_inv sb'" "sb_batch sb' = sb_batch sb" "out_at sb' = out_at sb"
      "mset (concat ls) + mset (segs sb') = mset (segs sb)" "concat ls \<noteq> []"
      "out_ids sb' = out_ids sb @ filter (out_at sb) (concat ls)" by (auto simp: split_ok_def)
    have "length (concat ls) + length (segs sb') = length (segs sb)" using arg_cong [OF ok(4), of size] by simp
    moreover have "length (concat ls) > 0" using ok(5) by (simp only: length_greater_0_conv not_False_eq_True)
    moreover have "sb_n_tokens sb = length (segs sb)" "sb_n_tokens sb' = length (segs sb')"
      using less.prems ok(1) by (simp_all add: eq_inv_def)
    ultimately have "sb_n_tokens sb' < sb_n_tokens sb" by linarith
    from less.hyps [OF this ok(1)] obtain ubs sb'' lss where r: "split_all split sb' = Some (ubs, sb'')"
      "list_all2 (\<lambda>ub ls. holds_tokens (sb_batch sb) (out_at sb) (concat ls) ub \<and> holds_seqs (sb_batch sb) ls ub \<and>
        concat ls \<noteq> [] \<and> length (concat ls) \<le> n) ubs lss"
      "mset (concat (concat lss)) = mset (segs sb')" "out_ids sb'' = out_ids sb' @ filter (out_at sb) (concat (concat lss))"
      unfolding ok(2,3) by blast
    have "split_all split sb = Some (ub # ubs, sb'')" using True s(1) r(1) by (subst split_all.simps) simp
    then show ?thesis
      using r s(2) ok by (intro exI [of _ "ub # ubs"] exI [of _ sb''] exI [of _ "ls # lss"]) (auto simp: split_ok_def)
  qed
qed

subsection \<open>The constructor establishes the invariant\<close>

definition wants_output :: "llama_batch \<Rightarrow> bool \<Rightarrow> nat \<Rightarrow> bool" where
  "wants_output b log_all i = (if log_all then True else
     case b_logits b of Some lg \<Rightarrow> lg ! i | None \<Rightarrow> i = b_n_tokens b - 1)"

lemma group_fold:
  assumes sb: "ids sb = idl" "sb_batch sb = b" and pos: "\<forall>i \<in> set idl. n_seq_of b i > 0" and t: "t \<le> length idl"
    and ss: "ss = fold (group_token b idl) [0 ..< t] []"
  shows "concat (map (seg sb) ss) = take t idl \<and> (\<forall>s \<in> set ss. live sb s \<and> s_length s > 0) \<and>
    (ss \<noteq> [] \<longrightarrow> s_offset (last ss) + s_length (last ss) = t)"
  using t ss
proof (induction t arbitrary: ss)
  case (Suc t)
  define ss0 where "ss0 = fold (group_token b idl) [0 ..< t] []"
  have ih: "concat (map (seg sb) ss0) = take t idl" "\<forall>s \<in> set ss0. live sb s \<and> s_length s > 0"
    "ss0 \<noteq> [] \<longrightarrow> s_offset (last ss0) + s_length (last ss0) = t"
    using Suc.IH [OF _ refl] Suc.prems(1) by (auto simp: ss0_def)
  have tl: "take (Suc t) idl = take t idl @ [idl ! t]" and mem: "idl ! t \<in> set idl"
    using Suc.prems(1) by (auto simp: take_Suc_conv_app_nth)
  have ss: "ss = group_token b idl t ss0" using Suc.prems(2) by (simp add: ss0_def)
  let ?n = "n_seq_of b (idl ! t)" and ?ids = "case b_seq_id b of Some xs \<Rightarrow> xs ! (idl ! t) | None \<Rightarrow> []"
  show ?case
  proof (cases "ss0 \<noteq> [] \<and> ?n = s_n_seq_id (last ss0) \<and> take ?n ?ids = take ?n (s_seq_id (last ss0))")
    case True
    let ?l = "last ss0" let ?l' = "?l\<lparr>s_length := s_length ?l + 1\<rparr>"
    have e: "ss = butlast ss0 @ [?l']" unfolding ss group_token_def Let_def by (rule if_P) (rule True)
    have split: "ss0 = butlast ss0 @ [?l]" using True by simp
    have sg: "seg sb ?l' = seg sb ?l @ [idl ! t]" 
      unfolding seg_def seq_ids_at_def sb(1) using True ih(3) by simp
    have "concat (map (seg sb) ss) = concat (map (seg sb) (butlast ss0 @ [?l])) @ [idl ! t]" using sg by (simp add: e)
    then have "concat (map (seg sb) ss) = take (Suc t) idl" unfolding split [symmetric] using ih(1) tl by simp
    moreover have "live sb ?l" "s_length ?l > 0" using ih(2) True by (auto simp: last_in_set)
    then have "live sb ?l'" using sg True by (auto simp: live_def same_seq_def sb)
    moreover have "\<forall>s \<in> set (butlast ss0). live sb s \<and> s_length s > 0" using ih(2) by (auto dest: in_set_butlastD)
    moreover have "s_offset (last ss) + s_length (last ss) = Suc t" using ih(3) True by (simp add: e)
    ultimately show ?thesis by (auto simp: e)
  next
    case False
    let ?s = "\<lparr>s_n_seq_id = ?n, s_seq_id = ?ids, s_offset = t, s_length = 1\<rparr>"
    have e: "ss = ss0 @ [?s]" unfolding ss group_token_def Let_def by (rule if_not_P) (rule False)
    have sg: "seg sb ?s = [idl ! t]" by (simp add: seg_def seq_ids_at_def sb)
    have "live sb ?s" using pos mem sg by (simp add: live_def same_seq_def sb)
    then show ?thesis using ih(1,2) tl sg by (auto simp: e)
  qed
qed simp

lemma sbatch_init_ok:
  assumes "b_pos b \<noteq> None" "b_n_seq_id b \<noteq> None" "b_seq_id b \<noteq> None" "(b_token b = None) = (b_embd b \<noteq> None)"
    and pos: "\<forall>i < b_n_tokens b. n_seq_of b i > 0"
    and srt: "mset (sort_ids (token_less b) [0 ..< b_n_tokens b]) = mset [0 ..< b_n_tokens b]"
      "\<forall>ss. mset (sort_seqs seq_less ss) = mset ss \<and> sorted_wrt (\<lambda>x y. \<not> seq_less y x) (sort_seqs seq_less ss)"
  obtains sb where "sbatch_init sort_ids sort_seqs b False log_all = Some sb" "eq_inv sb" "sb_batch sb = b"
    "out_at sb = wants_output b log_all" "out_ids sb = []" "mset (segs sb) = mset [0 ..< b_n_tokens b]"
proof -
  let ?n = "b_n_tokens b" and ?idl = "sort_ids (token_less b) [0 ..< b_n_tokens b]"
  define ss0 where "ss0 = fold (group_token b ?idl) [0 ..< ?n] []"
  define sb where "sb = \<lparr>sb_n_tokens = ?n, logits_all = log_all, ids = ?idl, out_ids = [],
         sb_seq = sort_seqs seq_less ss0, sb_batch = b\<rparr>"
  have r: "sbatch_init sort_ids sort_seqs b False log_all = Some sb"
    using assms(2,3) by (simp add: sbatch_init_def Let_def sb_def ss0_def)
  have len: "length ?idl = ?n" using arg_cong [OF srt(1), of size] by simp
  have set: "set ?idl = {..<?n}" using arg_cong [OF srt(1), of set_mset] unfolding set_mset_mset by (simp only: set_upt atLeast0LessThan)
  have g: "concat (map (seg sb) ss0) = take ?n ?idl \<and> (\<forall>s \<in> set ss0. live sb s \<and> s_length s > 0) \<and>
    (ss0 \<noteq> [] \<longrightarrow> s_offset (last ss0) + s_length (last ss0) = ?n)"
    by (rule group_fold) (use len set pos in \<open>auto simp: sb_def ss0_def\<close>)
  have ms: "mset (sort_seqs seq_less ss0) = mset ss0" using srt(2) by blast
  have "mset (concat (map (seg sb) xs)) = (\<Sum>s \<in># mset xs. mset (seg sb s))" for xs by (induction xs) auto
  from this [of ss0] this [of "sb_seq sb"] have "mset (segs sb) = mset (concat (map (seg sb) ss0))"
    using ms by (simp only: segs_def) (simp only: sb_def llama_sbatch.simps)
  then have sg: "mset (segs sb) = mset ?idl" using g len by simp
  moreover have "length (segs sb) = ?n" using arg_cong [OF sg, of size] len by simp
  moreover have st: "set (sb_seq sb) = set ss0" using arg_cong [OF ms, of set_mset] by (simp add: sb_def)
  moreover have "sorted_wrt (\<lambda>x y. s_length x = 0 \<longrightarrow> s_length y = 0) (sb_seq sb)"
    by (rule sorted_nonempty) (use g st in simp)
  ultimately have "eq_inv sb" using assms(1,4) srt(2) g by (simp add: eq_inv_def) (simp add: sb_def)
  moreover have "out_at sb = wants_output b log_all"
    using len by (simp add: fun_eq_iff out_at_def wants_output_def sb_def split: option.split)
  ultimately show thesis using that [OF r] sg srt(1) by (simp add: sb_def)
qed

text \<open>
  C12: Splitting into equal sequences neither loses nor repeats a token.  For a batch with positions
  and sequence ids and a positive limit, the loop of \<open>split_equal\<close> or of \<open>split_seq\<close> ends without a
  failed assertion; every micro-batch is not empty, holds at most the limit, consists of sequences of
  equal length whose tokens have the sequence ids that the micro-batch states, and copies token,
  position and output flag of its indices; all the indices together are a permutation of the batch,
  and \<open>out_ids\<close> lists those that want an output in the order in which they are computed.
\<close>

theorem equal_splits_partition_batch:
  assumes "n_ubatch > 0" "split \<in> {split_equal n_ubatch, split_seq n_ubatch}"
    and "b_pos b \<noteq> None" "b_n_seq_id b \<noteq> None" "b_seq_id b \<noteq> None" "(b_token b = None) = (b_embd b \<noteq> None)"
    and "\<forall>i < b_n_tokens b. n_seq_of b i > 0"
    and "mset (sort_ids (token_less b) [0 ..< b_n_tokens b]) = mset [0 ..< b_n_tokens b]"
    and "\<forall>ss. mset (sort_seqs seq_less ss) = mset ss \<and> sorted_wrt (\<lambda>x y. \<not> seq_less y x) (sort_seqs seq_less ss)"
  shows "\<exists>sb ubs sb' lss. sbatch_init sort_ids sort_seqs b False log_all = Some sb \<and> split_all split sb = Some (ubs, sb') \<and>
    list_all2 (\<lambda>ub ls. holds_tokens b (wants_output b log_all) (concat ls) ub \<and> holds_seqs b ls ub \<and>
      concat ls \<noteq> [] \<and> length (concat ls) \<le> n_ubatch) ubs lss \<and>
    mset (concat (concat lss)) = mset [0 ..< b_n_tokens b] \<and>
    out_ids sb' = filter (wants_output b log_all) (concat (concat lss))"
proof -
  obtain sb where sb: "sbatch_init sort_ids sort_seqs b False log_all = Some sb" "eq_inv sb" "sb_batch sb = b"
    "out_at sb = wants_output b log_all" "out_ids sb = []" "mset (segs sb) = mset [0 ..< b_n_tokens b]"
    using assms(3-9) by (rule sbatch_init_ok [of b sort_ids sort_seqs log_all])
  have "\<exists>ub sb' ls. split t = Some (ub, sb') \<and> split_ok n_ubatch t ub sb' ls" if "eq_inv t" "sb_n_tokens t > 0" for t
    using assms(1,2) split_equal_ok [OF that] split_seq_ok [OF that] by blast
  from split_all_ok [OF this sb(2)] show ?thesis using sb by auto
qed

definition seqs_sorted :: "sbatch_seq list \<Rightarrow> sbatch_seq list" where
  "seqs_sorted = sort_key (\<lambda>s. (s_n_seq_id s, - int (s_length s)))"

lemma seqs_sorted: "mset (seqs_sorted ss) = mset ss \<and> sorted_wrt (\<lambda>x y. \<not> seq_less y x) (seqs_sorted ss)"
proof -
  have "sorted_wrt (\<lambda>x y. (s_n_seq_id x, - int (s_length x)) \<le> (s_n_seq_id y, - int (s_length y))) (seqs_sorted ss)"
    unfolding seqs_sorted_def using sorted_sort_key [of "\<lambda>s. (s_n_seq_id s, - int (s_length s))" ss] by (simp add: sorted_map)
  then show ?thesis
    by (simp add: seqs_sorted_def) (rule sorted_wrt_mono_rel, auto simp: seq_less_def)
qed

definition two_users :: llama_batch where
  "two_users = \<lparr>b_n_tokens = 3, b_token = Some [11, 22, 33], b_embd = None, b_pos = Some [0, 0, 1],
      b_n_seq_id = Some [1, 1, 1], b_seq_id = Some [[0], [1], [0]], b_logits = None\<rparr>"

lemma equal_splits_partition_batch_witness:
  "\<exists>sb ubs sb' lss. sbatch_init (\<lambda>_ _. [0, 2, 1]) (\<lambda>_. seqs_sorted) two_users False False = Some sb \<and>
    split_all (split_equal 2) sb = Some (ubs, sb') \<and>
    list_all2 (\<lambda>ub ls. holds_tokens two_users (wants_output two_users False) (concat ls) ub \<and> holds_seqs two_users ls ub \<and>
      concat ls \<noteq> [] \<and> length (concat ls) \<le> 2) ubs lss \<and>
    mset (concat (concat lss)) = mset [0 ..< b_n_tokens two_users] \<and>
    out_ids sb' = filter (wants_output two_users False) (concat (concat lss))"
proof (rule equal_splits_partition_batch)
  show "\<forall>ss. mset (seqs_sorted ss) = mset ss \<and> sorted_wrt (\<lambda>x y. \<not> seq_less y x) (seqs_sorted ss)"
    by (simp add: seqs_sorted)
qed (auto simp: two_users_def n_seq_of_def nth_Cons numeral_3_eq_3 split: nat.split)

subsection \<open>The simple split\<close>

definition simple_inv :: "llama_batch \<Rightarrow> bool \<Rightarrow> nat \<Rightarrow> llama_sbatch \<Rightarrow> bool" where
  "simple_inv b log_all a sb \<longleftrightarrow> sb_batch sb = b \<and> logits_all sb = log_all \<and> ids sb = [0 ..< b_n_tokens b] \<and>
     sb_n_tokens sb = b_n_tokens b - a \<and> a \<le> b_n_tokens b \<and>
     sb_seq sb = [\<lparr>s_n_seq_id = 0, s_seq_id = [], s_offset = a, s_length = b_n_tokens b - a\<rparr>]"

definition full_arrays :: "llama_batch \<Rightarrow> bool" where
  "full_arrays b \<longleftrightarrow> (\<forall>xs. b_token b = Some xs \<longrightarrow> length xs = b_n_tokens b) \<and> (\<forall>xs. b_embd b = Some xs \<longrightarrow> length xs = b_n_tokens b) \<and>
     (\<exists>xs. b_pos b = Some xs \<and> length xs = b_n_tokens b) \<and> (\<exists>xs. b_n_seq_id b = Some xs \<and> length xs = b_n_tokens b) \<and>
     (\<forall>xs. b_logits b = Some xs \<longrightarrow> length xs = b_n_tokens b)"

lemma ptr_slice_map: "a + len \<le> length xs \<Longrightarrow> ptr_slice xs a len = map ((!) xs) [a ..< a + len]"
  by (auto simp: ptr_slice_def intro: nth_equalityI)

lemma filter_shift: "map ((+) a) (filter (\<lambda>i. P (a + i)) [0 ..< n]) = filter P [a ..< a + n]"
proof -
  have "[a ..< a + n] = map ((+) a) [0 ..< n]" by (intro nth_equalityI) auto
  then show ?thesis by (simp add: filter_map comp_def)
qed

lemma split_simple_step:
  assumes inv: "simple_inv b log_all a sb" and full: "full_arrays b" and n: "a < b_n_tokens b" "n > 0"
    and m: "m = min (b_n_tokens b - a) n" and out: "out = wants_output b log_all"
  shows "\<exists>ub sb'. split_simple n sb = Some (ub, sb') \<and> simple_inv b log_all (a + m) sb' \<and>
    holds_tokens b out [a ..< a + m] ub \<and> \<not> equal_seqs ub \<and> n_seqs ub = m \<and>
    u_n_seq_id ub = map (n_seq_of b) [a ..< a + m] \<and> out_ids sb' = out_ids sb @ filter out [a ..< a + m]"
proof -
  let ?s = "\<lparr>s_n_seq_id = 0, s_seq_id = [], s_offset = a, s_length = b_n_tokens b - a\<rparr> :: sbatch_seq"
  let ?ub = "(fst (reserve_ubatch (b_embd b \<noteq> None) sb))\<lparr>equal_seqs := False\<rparr>"
  have sb: "sb_batch sb = b" "logits_all sb = log_all" "ids sb = [0 ..< b_n_tokens b]" "sb_n_tokens sb = b_n_tokens b - a"
    "sb_seq sb = [?s]" using inv by (auto simp: simple_inv_def)
  have pop: "sb\<lparr>sb_seq := pop_empty_seqs (sb_seq sb)\<rparr> = sb" using n(1) sb(5) by (simp add: pop_empty_seqs_def)
  have idx: "seq_ids_at sb ?s m = [a ..< a + m]"
    using n m by (auto simp: seq_ids_at_def sb intro!: nth_equalityI)
  have le: "a + m \<le> b_n_tokens b" using n(1) m by simp
  have "add_outputs sb ?s m ?ub = (map out [a ..< a + m], out_ids sb @ filter out [a ..< a + m])"
  proof (cases "log_all \<or> b_logits b = None")
    case True
    have "out = (\<lambda>i. if log_all then True else case b_logits b of Some lg \<Rightarrow> lg ! i | None \<Rightarrow> i = b_n_tokens b - 1)"
      by (simp add: fun_eq_iff out wants_output_def)
    with True show ?thesis
      by (cases log_all) (simp_all add: add_outputs_def Let_def idx sb reserve_ubatch_def map_replicate_const)
  next
    case False
    then obtain lg where lg: "b_logits b = Some lg" "\<not> log_all" by auto
    have sl: "ptr_slice lg a m = map ((!) lg) [a ..< a + m]" by (rule ptr_slice_map) (use full lg le in \<open>simp add: full_arrays_def\<close>)
    have "filter (\<lambda>i. ptr_slice lg a m ! i) [0 ..< m] = filter (\<lambda>i. out (a + i)) [0 ..< m]"
      by (rule filter_cong) (auto simp: sl out wants_output_def lg)
    then show ?thesis using lg filter_shift [of a out m] sl
      by (simp add: add_outputs_def idx sb reserve_ubatch_def out wants_output_def)
  qed
  note outs = this
  obtain ps ns where ps: "b_pos b = Some ps" "length ps = b_n_tokens b" and ns: "b_n_seq_id b = Some ns" "length ns = b_n_tokens b"
    using full by (auto simp: full_arrays_def)
  have arr: "b_token b = Some xs \<Longrightarrow> ptr_slice xs a m = map ((!) xs) [a ..< a + m]"
    "b_embd b = Some es \<Longrightarrow> ptr_slice es a m = map ((!) es) [a ..< a + m]" for xs es
    using full le by (auto simp: full_arrays_def intro: ptr_slice_map)
  define v where "v = ?ub\<lparr>u_token := map_option (\<lambda>src. ptr_slice src a m) (b_token b),
      u_embd := map_option (\<lambda>src. ptr_slice src a m) (b_embd b), u_pos := ptr_slice ps a m, u_n_seq_id := ptr_slice ns a m,
      u_seq_id := (case b_seq_id b of Some src \<Rightarrow> ptr_slice src a m | None \<Rightarrow> []), u_output := map out [a ..< a + m],
      n_seq_tokens := 1, u_n_tokens := m, n_seqs := m\<rparr>"
  define t where "t = sb\<lparr>out_ids := out_ids sb @ filter out [a ..< a + m],
      sb_seq := [?s\<lparr>s_offset := a + m, s_length := b_n_tokens b - a - m\<rparr>], sb_n_tokens := b_n_tokens b - a - m\<rparr>"
  have "add_seq_to_ubatch ?ub 0 m sb = Some (v, t)"
    using ps(1) ns(1) outs m unfolding add_seq_to_ubatch_def Let_def
    by (simp add: sb v_def t_def add_values_def reserve_ubatch_def split: option.split)
  then have "split_simple n sb = Some (v, t)"
    using m n pop unfolding split_simple_def Let_def sb(1)
    by (simp add: reserve_ubatch_def sb(4,5) min.absorb2)
  moreover have "simple_inv b log_all (a + m) t" using le by (auto simp: simple_inv_def t_def sb)
  moreover have "holds_tokens b out [a ..< a + m] v"
    using arr ps le by (cases "b_token b"; cases "b_embd b") (auto simp: holds_tokens_def v_def ptr_slice_map)
  moreover have "u_n_seq_id v = map (n_seq_of b) [a ..< a + m]" using ns le by (simp add: v_def ptr_slice_map n_seq_of_def)
  ultimately show ?thesis by (intro exI [of _ v] exI [of _ t]) (simp add: v_def t_def)
qed

lemma split_all_simple:
  assumes "simple_inv b log_all a sb" "full_arrays b" "n > 0" "out = wants_output b log_all"
  shows "\<exists>ubs sb' ls. split_all (split_simple n) sb = Some (ubs, sb') \<and>
    list_all2 (\<lambda>ub l. holds_tokens b out l ub \<and> \<not> equal_seqs ub \<and> n_seqs ub = length l \<and>
      u_n_seq_id ub = map (n_seq_of b) l \<and> l \<noteq> [] \<and> length l \<le> n) ubs ls \<and>
    concat ls = [a ..< b_n_tokens b] \<and> out_ids sb' = out_ids sb @ filter out [a ..< b_n_tokens b]"
  using assms(1)
proof (induction "b_n_tokens b - a" arbitrary: a sb rule: less_induct)
  case less
  show ?case
  proof (cases "a < b_n_tokens b")
    case False
    then have "sb_n_tokens sb = 0" "[a ..< b_n_tokens b] = []" using less.prems by (auto simp: simple_inv_def)
    then show ?thesis by (subst split_all.simps) (auto intro: exI [of _ "[]"])
  next
    case True
    define m where "m = min (b_n_tokens b - a) n"
    have m: "m > 0" "a + m \<le> b_n_tokens b" "m \<le> n" using True assms(3) by (auto simp: m_def)
    obtain ub sb' where s: "split_simple n sb = Some (ub, sb')" "simple_inv b log_all (a + m) sb'"
      "holds_tokens b out [a ..< a + m] ub" "\<not> equal_seqs ub" "n_seqs ub = m"
      "u_n_seq_id ub = map (n_seq_of b) [a ..< a + m]" "out_ids sb' = out_ids sb @ filter out [a ..< a + m]"
      using split_simple_step [OF less.prems assms(2) True assms(3) m_def assms(4)] by blast
    have "b_n_tokens b - (a + m) < b_n_tokens b - a" using m True by simp
    from less.hyps [OF this s(2)] obtain ubs sb'' ls where r: "split_all (split_simple n) sb' = Some (ubs, sb'')"
      "list_all2 (\<lambda>ub l. holds_tokens b out l ub \<and> \<not> equal_seqs ub \<and> n_seqs ub = length l \<and>
        u_n_seq_id ub = map (n_seq_of b) l \<and> l \<noteq> [] \<and> length l \<le> n) ubs ls"
      "concat ls = [a + m ..< b_n_tokens b]" "out_ids sb'' = out_ids sb' @ filter out [a + m ..< b_n_tokens b]" by blast
    have sp: "[a ..< b_n_tokens b] = [a ..< a + m] @ [a + m ..< b_n_tokens b]"
      using m(2) upt_add_eq_append [of a "a + m" "b_n_tokens b - (a + m)"] by simp
    have "sb_n_tokens sb > 0" using less.prems True by (simp add: simple_inv_def)
    then have "split_all (split_simple n) sb = Some (ub # ubs, sb'')" using s(1) r(1) by (subst split_all.simps) simp
    then show ?thesis
      using r s m by (intro exI [of _ "ub # ubs"] exI [of _ sb''] exI [of _ "[a ..< a + m] # ls"]) (simp add: sp)
  qed
qed

text \<open>
  The simple split cuts the batch into consecutive pieces.  With a positive limit the loop around
  \<open>split_simple\<close> ends without a failed assertion; the micro-batches hold, in order and without gap or
  overlap, the tokens, positions, counts of sequence ids and output flags of the batch, each at least
  one and at most the limit, and \<open>out_ids\<close> lists the tokens that want an output in the order of the batch.
\<close>

theorem simple_splits_cut_batch:
  assumes "full_arrays b" "n > 0"
  shows "\<exists>sb ubs sb' ls. sbatch_init sort_ids sort_seqs b True log_all = Some sb \<and> split_all (split_simple n) sb = Some (ubs, sb') \<and>
    list_all2 (\<lambda>ub l. holds_tokens b (wants_output b log_all) l ub \<and> \<not> equal_seqs ub \<and> n_seqs ub = length l \<and>
      u_n_seq_id ub = map (n_seq_of b) l \<and> l \<noteq> [] \<and> length l \<le> n) ubs ls \<and>
    concat ls = [0 ..< b_n_tokens b] \<and> out_ids sb' = filter (wants_output b log_all) [0 ..< b_n_tokens b]"
proof -
  define sb where "sb = \<lparr>sb_n_tokens = b_n_tokens b, logits_all = log_all, ids = [0 ..< b_n_tokens b], out_ids = [],
    sb_seq = [\<lparr>s_n_seq_id = 0, s_seq_id = [], s_offset = 0, s_length = b_n_tokens b\<rparr>], sb_batch = b\<rparr>"
  have "sbatch_init sort_ids sort_seqs b True log_all = Some sb" by (simp add: sbatch_init_def sb_def Let_def)
  moreover have "simple_inv b log_all 0 sb" by (simp add: simple_inv_def sb_def)
  moreover have "out_ids sb = []" by (simp add: sb_def)
  ultimately show ?thesis using split_all_simple [OF _ assms refl, of log_all 0 sb] by auto
qed

lemma simple_splits_cut_batch_witness:
  "\<exists>sb ubs sb' ls. sbatch_init (\<lambda>_ xs. xs) (\<lambda>_ xs. xs) two_users True False = Some sb \<and>
    split_all (split_simple 2) sb = Some (ubs, sb') \<and>
    list_all2 (\<lambda>ub l. holds_tokens two_users (wants_output two_users False) l ub \<and> \<not> equal_seqs ub \<and> n_seqs ub = length l \<and>
      u_n_seq_id ub = map (n_seq_of two_users) l \<and> l \<noteq> [] \<and> length l \<le> 2) ubs ls \<and>
    concat ls = [0 ..< b_n_tokens two_users] \<and> out_ids sb' = filter (wants_output two_users False) [0 ..< b_n_tokens two_users]"
  by (rule simple_splits_cut_batch) (simp_all add: full_arrays_def two_users_def)

end
