(* ===== verification/Kv_Cache.thy ===== *)
theory Kv_Cache
  imports Kv_Cells Batch
begin

text \<open>
  The unified KV cache (\<open>llama_kv_cache_unified\<close> in \<open>llama-kv-cache-unified.cpp\<close>): the operations on
  sequences, the search for a slot, placing micro-batches and undoing it, the attention mask, the plan of
  a defragmentation, saving and restoring the metadata, the states that \<open>init_batch\<close> returns, and the
  pair of caches for models with sliding-window layers (\<open>llama-kv-cache-unified-iswa.cpp\<close>).  The tensors
  are not part of this theory (\<open>Kv_State\<close> saves and restores their data), the compute graphs and the devices
  are not modelled; where the metadata depends on them (does a graph compute) they are arguments.  \<open>None\<close> is a
  failed assertion, an exception or a loop that never ends.
\<close>

subsection \<open>State\<close>

datatype llama_swa_type = LLAMA_SWA_TYPE_NONE | LLAMA_SWA_TYPE_STANDARD | LLAMA_SWA_TYPE_CHUNKED

record kv_cache =
  head :: nat
  cells :: kv_cells
  n_seq_max :: nat
  n_pad :: nat
  n_swa :: nat
  swa_type :: llama_swa_type
  do_defrag :: bool
  defrag_ids :: "nat list"

definition kv_init :: "nat \<Rightarrow> nat \<Rightarrow> nat \<Rightarrow> nat \<Rightarrow> llama_swa_type \<Rightarrow> kv_cache option" where
  "kv_init kv_size seq_max pad swa swa_t =
     (if pad = 0 \<or> kv_size mod pad \<noteq> 0 then None
      else Some \<lparr>head = 0, cells = cells_resize kv_size fresh_cells, n_seq_max = seq_max, n_pad = pad, n_swa = swa,
        swa_type = swa_t, do_defrag = False, defrag_ids = []\<rparr>)"

definition kv_clear :: "kv_cache \<Rightarrow> kv_cache" where
  "kv_clear kv = kv\<lparr>cells := cells_reset (cells kv), head := 0\<rparr>"

subsection \<open>Operations on sequences\<close>

definition from_pos :: "int \<Rightarrow> int" where
  "from_pos p0 = (if p0 < 0 then 0 else p0)"

definition to_pos :: "int \<Rightarrow> int" where
  "to_pos p1 = (if p1 < 0 then 2147483647 else p1)"

text \<open>\<open>std::bitset::test\<close> throws for a sequence that is out of range.\<close>

definition seq_test :: "nat \<Rightarrow> nat \<Rightarrow> kv_cells \<Rightarrow> bool option" where
  "seq_test i s c = (if s < LLAMA_MAX_PARALLEL_SEQUENCES then Some (seq_has i s c) else None)"

text \<open>The loops over the cells; the first component is \<open>new_head\<close>.\<close>

definition seq_rm_step :: "nat \<Rightarrow> int \<Rightarrow> int \<Rightarrow> nat \<Rightarrow> nat \<times> kv_cells \<Rightarrow> (nat \<times> kv_cells) option" where
  "seq_rm_step s p0 p1 i st = (case st of (new_head, c) \<Rightarrow>
     if \<not> pos_in i p0 p1 c then Some (new_head, c)
     else case seq_test i s c of None \<Rightarrow> None
     | Some False \<Rightarrow> Some (new_head, c)
     | Some True \<Rightarrow> (case cells_seq_rm i s c of None \<Rightarrow> None
         | Some (freed, c') \<Rightarrow> Some (if freed \<and> new_head = cells_size c then i else new_head, c')))"

definition set_head :: "nat \<Rightarrow> kv_cells \<Rightarrow> kv_cache \<Rightarrow> kv_cache" where
  "set_head new_head c kv = kv\<lparr>cells := c, head := (if new_head \<noteq> cells_size c \<and> new_head < head kv then new_head else head kv)\<rparr>"

definition kv_seq_rm :: "nat \<Rightarrow> int \<Rightarrow> int \<Rightarrow> kv_cache \<Rightarrow> (bool \<times> kv_cache) option" where
  "kv_seq_rm s p0 p1 kv =
     (case fold_opt (seq_rm_step s (from_pos p0) (to_pos p1)) [0 ..< cells_size (cells kv)] (cells_size (cells kv), cells kv) of
        None \<Rightarrow> None | Some (new_head, c) \<Rightarrow> Some (True, set_head new_head c kv))"

definition seq_cp_step :: "nat \<Rightarrow> nat \<Rightarrow> int \<Rightarrow> int \<Rightarrow> nat \<Rightarrow> kv_cells \<Rightarrow> kv_cells option" where
  "seq_cp_step src dst p0 p1 i c =
     (if \<not> pos_in i p0 p1 c then Some c
      else case seq_test i src c of None \<Rightarrow> None
      | Some False \<Rightarrow> Some c
      | Some True \<Rightarrow> cells_seq_add i dst c)"

definition kv_seq_cp :: "nat \<Rightarrow> nat \<Rightarrow> int \<Rightarrow> int \<Rightarrow> kv_cache \<Rightarrow> kv_cache option" where
  "kv_seq_cp src dst p0 p1 kv =
     (if src = dst then Some kv
      else map_option (\<lambda>c. kv\<lparr>cells := c\<rparr>)
        (fold_opt (seq_cp_step src dst (from_pos p0) (to_pos p1)) [0 ..< cells_size (cells kv)] (cells kv)))"

definition seq_keep_step :: "nat \<Rightarrow> nat \<Rightarrow> nat \<times> kv_cells \<Rightarrow> (nat \<times> kv_cells) option" where
  "seq_keep_step s i st = (case st of (new_head, c) \<Rightarrow>
     case cells_seq_keep i s c of None \<Rightarrow> None
     | Some (freed, c') \<Rightarrow> Some (if freed \<and> new_head = cells_size c then i else new_head, c'))"

definition kv_seq_keep :: "nat \<Rightarrow> kv_cache \<Rightarrow> kv_cache option" where
  "kv_seq_keep s kv =
     (case fold_opt (seq_keep_step s) [0 ..< cells_size (cells kv)] (cells_size (cells kv), cells kv) of
        None \<Rightarrow> None | Some (new_head, c) \<Rightarrow> Some (set_head new_head c kv))"

definition seq_add_step :: "nat \<Rightarrow> int \<Rightarrow> int \<Rightarrow> int \<Rightarrow> nat \<Rightarrow> nat \<times> kv_cells \<Rightarrow> (nat \<times> kv_cells) option" where
  "seq_add_step s p0 p1 d i st = (case st of (new_head, c) \<Rightarrow>
     if \<not> pos_in i p0 p1 c then Some (new_head, c)
     else case seq_test i s c of None \<Rightarrow> None
     | Some False \<Rightarrow> Some (new_head, c)
     | Some True \<Rightarrow> (case pos_add i d c of None \<Rightarrow> None
         | Some (freed, c') \<Rightarrow> Some (if freed \<and> new_head = cells_size c then i else new_head, c')))"

definition kv_seq_add :: "nat \<Rightarrow> int \<Rightarrow> int \<Rightarrow> int \<Rightarrow> kv_cache \<Rightarrow> kv_cache option" where
  "kv_seq_add s p0 p1 d kv =
     (if d = 0 then Some kv
      else if from_pos p0 = to_pos p1 then Some kv
      else case fold_opt (seq_add_step s (from_pos p0) (to_pos p1) d) [0 ..< cells_size (cells kv)] (cells_size (cells kv), cells kv) of
        None \<Rightarrow> None
      | Some (new_head, c) \<Rightarrow> Some (kv\<lparr>cells := c, head := (if new_head \<noteq> cells_size c then new_head else 0)\<rparr>))"

definition seq_div_step :: "nat \<Rightarrow> int \<Rightarrow> int \<Rightarrow> int \<Rightarrow> nat \<Rightarrow> kv_cells \<Rightarrow> kv_cells option" where
  "seq_div_step s p0 p1 d i c =
     (if \<not> pos_in i p0 p1 c then Some c
      else case seq_test i s c of None \<Rightarrow> None | Some False \<Rightarrow> Some c | Some True \<Rightarrow> pos_div i d c)"

definition kv_seq_div :: "nat \<Rightarrow> int \<Rightarrow> int \<Rightarrow> int \<Rightarrow> kv_cache \<Rightarrow> kv_cache option" where
  "kv_seq_div s p0 p1 d kv =
     (if d = 1 then Some kv
      else if from_pos p0 = to_pos p1 then Some kv
      else map_option (\<lambda>c. kv\<lparr>cells := c\<rparr>)
        (fold_opt (seq_div_step s (from_pos p0) (to_pos p1) d) [0 ..< cells_size (cells kv)] (cells kv)))"

definition kv_seq_pos_min :: "nat \<Rightarrow> kv_cache \<Rightarrow> int" where
  "kv_seq_pos_min s kv = cells_seq_pos_min s (cells kv)"

definition kv_seq_pos_max :: "nat \<Rightarrow> kv_cache \<Rightarrow> int" where
  "kv_seq_pos_max s kv = cells_seq_pos_max s (cells kv)"

subsection \<open>Searching for a slot\<close>

text \<open>Positions are at least 0, so the unsigned division of the chunked case is the division of integers.\<close>

definition is_masked_swa :: "kv_cache \<Rightarrow> int \<Rightarrow> int \<Rightarrow> bool option" where
  "is_masked_swa kv p0 p1 =
     (if \<not> (p0 \<ge> 0 \<and> p1 \<ge> 0) then None
      else case swa_type kv of
        LLAMA_SWA_TYPE_NONE \<Rightarrow> Some False
      | LLAMA_SWA_TYPE_STANDARD \<Rightarrow> Some (p1 - p0 \<ge> int (n_swa kv))
      | LLAMA_SWA_TYPE_CHUNKED \<Rightarrow> (if n_swa kv = 0 then None else Some (p0 < (p1 div int (n_swa kv)) * int (n_swa kv))))"

text \<open>Can token \<open>i\<close> of the micro-batch use the cell?  \<open>pmin\<close> is the array \<open>seq_pos_min\<close> of the function.\<close>

definition can_use :: "kv_cache \<Rightarrow> int \<Rightarrow> nat \<Rightarrow> nat \<Rightarrow> (nat \<Rightarrow> int) \<Rightarrow> (bool \<times> (nat \<Rightarrow> int)) option" where
  "can_use kv p s cell pmin =
     (let c = cells kv in
      if is_empty cell c then Some (True, pmin)
      else if seq_count cell c \<noteq> 1 then Some (False, pmin)
      else case (pos_get cell c, seq_test cell s c, seq_get cell c) of
        (Some p_cell, Some has, Some s_cell) \<Rightarrow>
          if has \<and> p_cell \<ge> p then Some (True, pmin)
          else if p_cell = pmin s_cell then
            (case is_masked_swa kv p_cell (cells_seq_pos_max s_cell c + 1) of
               None \<Rightarrow> None
             | Some True \<Rightarrow> Some (True, pmin(s_cell := pmin s_cell + 1))
             | Some False \<Rightarrow> Some (False, pmin))
          else Some (False, pmin)
      | _ \<Rightarrow> None)"

text \<open>The inner loop: the tokens from \<open>i\<close> on; the result is the number of the first token whose cell
  cannot be used, or \<open>n_tokens\<close>.\<close>

fun scan_slot :: "kv_cache \<Rightarrow> (int \<times> nat) list \<Rightarrow> nat \<Rightarrow> nat \<Rightarrow> (nat \<Rightarrow> int) \<Rightarrow> nat option" where
  "scan_slot kv [] head_cur i pmin = Some i"
| "scan_slot kv ((p, s) # ts) head_cur i pmin =
     (case can_use kv p s (head_cur + i) pmin of None \<Rightarrow> None
      | Some (True, pmin') \<Rightarrow> scan_slot kv ts head_cur (Suc i) pmin'
      | Some (False, pmin') \<Rightarrow> Some i)"

partial_function (option) slot_loop :: "kv_cache \<Rightarrow> (int \<times> nat) list \<Rightarrow> nat \<Rightarrow> nat \<Rightarrow> nat option option" where
  "slot_loop kv ts head_cur n_tested =
     (let size = cells_size (cells kv); n = length ts in
      if head_cur + n > size then slot_loop kv ts 0 (n_tested + (size - head_cur))
      else Option.bind (scan_slot kv ts head_cur 0 (\<lambda>s. cells_seq_pos_min s (cells kv))) (\<lambda>i.
        if i = n then Some (Some head_cur)
        else if n_tested + (i + 1) \<ge> size then Some None
        else slot_loop kv ts (head_cur + (i + 1)) (n_tested + (i + 1))))"

definition slot_tokens :: "llama_ubatch \<Rightarrow> (int \<times> nat) list" where
  "slot_tokens ub = map (\<lambda>i. (u_pos ub ! i, hd (u_seq_id ub ! i))) [0 ..< u_n_tokens ub]"

definition find_slot :: "llama_ubatch \<Rightarrow> kv_cache \<Rightarrow> nat option option" where
  "find_slot ub kv =
     (let n = u_n_tokens ub; h = (if head kv > get_used (cells kv) + 2 * n then 0 else head kv) in
      if n > cells_size (cells kv) then Some None
      else slot_loop kv (slot_tokens ub) h 0)"

subsection \<open>Placing micro-batches\<close>

definition place_token :: "nat \<Rightarrow> llama_ubatch \<Rightarrow> nat \<Rightarrow> kv_cells \<Rightarrow> kv_cells option" where
  "place_token head_cur ub i c =
     Option.bind (if \<not> is_empty (head_cur + i) c then cells_rm (head_cur + i) c else Some c) (\<lambda>c1.
     Option.bind (pos_set (head_cur + i) (u_pos ub ! i) c1) (\<lambda>c2.
       fold_opt (\<lambda>j. cells_seq_add (head_cur + i) (u_seq_id ub ! i ! j)) [0 ..< u_n_seq_id ub ! i] c2))"

definition apply_ubatch :: "nat \<Rightarrow> llama_ubatch \<Rightarrow> kv_cache \<Rightarrow> kv_cache option" where
  "apply_ubatch head_cur ub kv =
     map_option (\<lambda>c. kv\<lparr>cells := c, head := head_cur + u_n_tokens ub\<rparr>)
       (fold_opt (place_token head_cur ub) [0 ..< u_n_tokens ub] (cells kv))"

text \<open>\<open>prepare\<close> places all micro-batches and then restores the cells from the recovery stack.  The recursion
  is the first loop on the way down and the second one on the way back; the result of the code is the list
  of heads, empty on failure.\<close>

fun prepare_loop :: "llama_ubatch list \<Rightarrow> kv_cache \<Rightarrow> (nat list option \<times> kv_cache) option" where
  "prepare_loop [] kv = Some (Some [], kv)"
| "prepare_loop (ub # ubs) kv =
     Option.bind (find_slot ub kv) (\<lambda>slot. case slot of
       None \<Rightarrow> Some (None, kv)
     | Some head_new \<Rightarrow>
         Option.bind (cells_cp head_new (u_n_tokens ub) (cells kv)) (\<lambda>old.
         Option.bind (apply_ubatch head_new ub kv) (\<lambda>kv1.
         Option.bind (prepare_loop ubs kv1) (\<lambda>(res, kv2).
         Option.bind (cells_set head_new old (cells kv2)) (\<lambda>c.
           Some (map_option ((#) head_new) res, kv2\<lparr>cells := c, head := head kv\<rparr>))))))"

definition prepare :: "llama_ubatch list \<Rightarrow> kv_cache \<Rightarrow> (nat list \<times> kv_cache) option" where
  "prepare ubs kv = map_option (\<lambda>(res, kv'). (case res of Some hs \<Rightarrow> hs | None \<Rightarrow> [], kv')) (prepare_loop ubs kv)"

definition GGML_PAD :: "nat \<Rightarrow> nat \<Rightarrow> nat" where
  "GGML_PAD x n = unat ((of_nat (x + n) - 1 :: u32) AND NOT (of_nat n - 1))"

definition get_n_kv :: "kv_cache \<Rightarrow> nat" where
  "get_n_kv kv = min (cells_size (cells kv)) (max (n_pad kv) (GGML_PAD (used_max_p1 (cells kv)) (n_pad kv)))"

definition get_padding :: "bool \<Rightarrow> nat" where
  "get_padding flash_attn = (if flash_attn then 256 else 32)"

subsection \<open>Inputs of the compute graph\<close>

text \<open>An entry of the attention mask: hidden (minus infinity) or the bias that is added.\<close>

datatype mask_value = Hidden | Bias int

definition mask_at :: "kv_cache \<Rightarrow> bool \<Rightarrow> bool \<Rightarrow> nat \<Rightarrow> int \<Rightarrow> nat \<Rightarrow> mask_value option" where
  "mask_at kv use_alibi causal_attn seq_id p1 i =
     (let c = cells kv in
      if is_empty i c then Some Hidden
      else Option.bind (pos_get i c) (\<lambda>p0. Option.bind (seq_test i seq_id c) (\<lambda>has.
        if \<not> has \<or> (causal_attn \<and> p0 > p1) then Some Hidden
        else Option.bind (is_masked_swa kv p0 p1) (\<lambda>masked.
          Some (if masked then Hidden else Bias (if use_alibi then - \<bar>p0 - p1\<bar> else 0))))))"

definition collect_opt :: "'a option list \<Rightarrow> 'a list option" where
  "collect_opt xs = (if None \<in> set xs then None else Some (map the xs))"

text \<open>The rows of the mask: one for each token, in the order of the sequences, then the padding.\<close>

definition set_input_kq_mask :: "kv_cache \<Rightarrow> bool \<Rightarrow> bool \<Rightarrow> nat \<Rightarrow> nat \<Rightarrow> llama_ubatch \<Rightarrow> mask_value list list option" where
  "set_input_kq_mask kv use_alibi causal_attn n_kv mask_pad ub =
     map_option (\<lambda>rows. rows @ replicate (GGML_PAD (u_n_tokens ub) mask_pad - u_n_tokens ub) (replicate n_kv Hidden))
       (collect_opt (concat (map (\<lambda>s. map (\<lambda>j.
          collect_opt (map (mask_at kv use_alibi causal_attn (hd (u_seq_id ub ! s)) (u_pos ub ! (s * n_seq_tokens ub + j))) [0 ..< n_kv]))
          [0 ..< n_seq_tokens ub]) [0 ..< n_seqs ub])))"

definition set_input_k_shift :: "kv_cache \<Rightarrow> int list option" where
  "set_input_k_shift kv = collect_opt (map (\<lambda>i. if is_empty i (cells kv) then Some 0 else get_shift i (cells kv))
     [0 ..< cells_size (cells kv)])"

subsection \<open>Defragmentation\<close>

text \<open>The size of the hole at \<open>i0\<close>: the cells from \<open>i0 + nh\<close> on are looked at while they are empty.\<close>

function hole_size :: "kv_cells \<Rightarrow> nat \<Rightarrow> nat \<Rightarrow> nat \<Rightarrow> nat" where
  "hole_size c n_used i0 nh = (if i0 + nh < n_used \<and> is_empty (i0 + nh) c then hole_size c n_used i0 (nh + 1) else nh)"
  by pat_completeness auto
termination by (relation "measure (\<lambda>(c, n_used, i0, nh). n_used - (i0 + nh))") auto

declare hole_size.simps [simp del]

text \<open>From the end down to \<open>i0\<close>, find \<open>nh\<close> cells that are not empty and not yet moved: where the search stops
  and how many were found.\<close>

fun find_source :: "kv_cells \<Rightarrow> nat list \<Rightarrow> nat \<Rightarrow> nat \<Rightarrow> nat \<Rightarrow> nat \<Rightarrow> nat \<Rightarrow> nat \<times> nat" where
  "find_source c ids0 n_kv nh i0 0 nf = (0, nf)"
| "find_source c ids0 n_kv nh i0 (Suc is0) nf =
     (if \<not> Suc is0 > i0 then (Suc is0, nf)
      else if is_empty (Suc is0) c \<or> ids0 ! Suc is0 \<noteq> n_kv then find_source c ids0 n_kv nh i0 is0 nf
      else if nf + 1 = nh then (Suc is0, nf + 1)
      else find_source c ids0 n_kv nh i0 is0 (nf + 1))"

text \<open>The state of the inner loop: cells, ids, head, number of moves, \<open>nf\<close>, \<open>cont\<close>.  The flag in the result is
  \<open>stop\<close>.\<close>

record defrag_state =
  df_cells :: kv_cells
  df_ids :: "nat list"
  df_head :: nat
  df_moves :: nat
  df_nf :: nat
  df_cont :: bool

fun move_cells :: "nat \<Rightarrow> nat \<Rightarrow> nat \<Rightarrow> nat \<Rightarrow> nat \<Rightarrow> nat list \<Rightarrow> defrag_state \<Rightarrow> (bool \<times> defrag_state) option" where
  "move_cells n_kv n_used max_moves nh i0 [] st = Some (False, st)"
| "move_cells n_kv n_used max_moves nh i0 (i1 # rest) st =
     (if is_empty i1 (df_cells st) \<or> df_ids st ! i1 \<noteq> n_kv then
        if df_moves st = max_moves then Some (True, st)
        else move_cells n_kv n_used max_moves nh i0 rest (st\<lparr>df_cont := False\<rparr>)
      else case cells_mv i1 (i0 + df_nf st) (df_cells st) of None \<Rightarrow> None
      | Some c \<Rightarrow>
          let st' = st\<lparr>df_cells := c, df_ids := (df_ids st)[i1 := i0 + df_nf st], df_head := n_used,
                df_moves := (if \<not> df_cont st then df_moves st + 1 else df_moves st), df_cont := True, df_nf := df_nf st + 1\<rparr>
          in if df_nf st' = nh then Some (False, st') else move_cells n_kv n_used max_moves nh i0 rest st')"

text \<open>The loop over \<open>i0\<close>.\<close>

function defrag_loop :: "nat \<Rightarrow> nat \<Rightarrow> nat \<Rightarrow> nat \<Rightarrow> defrag_state \<Rightarrow> defrag_state option" where
  "defrag_loop n_kv n_used max_moves i0 st =
     (if \<not> i0 < n_used then Some st
      else if \<not> is_empty i0 (df_cells st) then defrag_loop n_kv n_used max_moves (i0 + 1) (st\<lparr>df_ids := (df_ids st)[i0 := i0]\<rparr>)
      else let nh = hole_size (df_cells st) n_used i0 1 in
        case find_source (df_cells st) (df_ids st) n_kv nh i0 (n_kv - 1) 0 of (is0, nf) \<Rightarrow>
          if nf \<noteq> nh then None
          else case move_cells n_kv n_used max_moves nh i0 [is0 ..< n_kv] (st\<lparr>df_nf := 0, df_cont := False\<rparr>) of
            None \<Rightarrow> None
          | Some (stop, st') \<Rightarrow>
              if stop \<or> df_moves st' = max_moves then Some st'
              else defrag_loop n_kv n_used max_moves (i0 + (max 1 nh - 1) + 1) st')"
  by pat_completeness auto
termination by (relation "measure (\<lambda>(n_kv, n_used, max_moves, i0, st). n_used - i0)") auto

declare defrag_loop.simps [simp del]

definition defrag_prepare :: "nat \<Rightarrow> nat \<Rightarrow> kv_cache \<Rightarrow> (bool \<times> kv_cache) option" where
  "defrag_prepare n_max_nodes n_layer kv =
     (let n_kv = used_max_p1 (cells kv); n_used = get_used (cells kv);
          max_moves = unat ((of_nat n_max_nodes - 2 * of_nat n_layer :: u32) div (6 * of_nat n_layer)) in
      if \<not> n_used \<le> n_kv \<or> n_layer = 0 then None
      else map_option (\<lambda>st. (df_moves st \<noteq> 0, kv\<lparr>cells := df_cells st, defrag_ids := df_ids st, head := df_head st\<rparr>))
        (defrag_loop n_kv n_used max_moves 0
          \<lparr>df_cells = cells kv, df_ids = replicate n_kv n_kv, df_head = head kv, df_moves = 0, df_nf = 0, df_cont = False\<rparr>))"

text \<open>\<open>update\<close>: whether the graphs for the shift and for the defragmentation compute are arguments.\<close>

definition kv_update :: "bool \<Rightarrow> bool \<Rightarrow> bool \<Rightarrow> nat \<Rightarrow> nat \<Rightarrow> kv_cache \<Rightarrow> (bool \<times> kv_cache) option" where
  "kv_update has_rope shift_ok defrag_ok n_max_nodes n_layer kv =
     (let shifting = has_shift (cells kv) in
      if shifting \<and> has_rope \<and> \<not> shift_ok then Some (False, kv)
      else let updated = shifting \<and> has_rope;
               kv1 = (if shifting then kv\<lparr>cells := reset_shift (cells kv)\<rparr> else kv) in
        if \<not> do_defrag kv1 then Some (updated, kv1)
        else case defrag_prepare n_max_nodes n_layer kv1 of None \<Rightarrow> None
        | Some (moved, kv2) \<Rightarrow>
            if moved \<and> \<not> defrag_ok then Some (updated, kv2)
            else Some (updated \<or> moved, kv2\<lparr>do_defrag := False\<rparr>))"

subsection \<open>Saving and restoring the metadata\<close>

text \<open>The stream is a list of items: one for each field that is written and one for each byte of tensor data
  (\<open>Kv_State\<close> has the tensor data and the two entry points).\<close>

definition cell_selected :: "int \<Rightarrow> kv_cells \<Rightarrow> nat \<Rightarrow> bool" where
  "cell_selected seq_id c i \<longleftrightarrow> \<not> is_empty i c \<and> (seq_id = -1 \<or> seq_has i (nat seq_id) c)"

definition range_step :: "int \<Rightarrow> kv_cells \<Rightarrow> nat \<Rightarrow> nat \<times> (nat \<times> nat) list \<times> nat \<Rightarrow> nat \<times> (nat \<times> nat) list \<times> nat" where
  "range_step seq_id c i st = (case st of (count, ranges, start) \<Rightarrow>
     if cell_selected seq_id c i then (count + 1, ranges, if start = cells_size c then i else start)
     else if start \<noteq> cells_size c then (count, ranges @ [(start, i)], cells_size c)
     else (count, ranges, start))"

definition cell_ranges :: "int \<Rightarrow> kv_cells \<Rightarrow> nat \<times> (nat \<times> nat) list" where
  "cell_ranges seq_id c =
     (case fold (range_step seq_id c) [0 ..< cells_size c] (0, [], cells_size c) of (count, ranges, start) \<Rightarrow>
        (count, if start \<noteq> cells_size c then ranges @ [(start, cells_size c)] else ranges))"

definition cell_seq_ids :: "nat \<Rightarrow> int \<Rightarrow> kv_cells \<Rightarrow> nat \<Rightarrow> nat list" where
  "cell_seq_ids seq_max seq_id c i = filter (\<lambda>cur. (int cur = seq_id \<or> seq_id = -1) \<and> seq_has i cur c) [0 ..< seq_max]"

definition write_cell :: "nat \<Rightarrow> int \<Rightarrow> kv_cells \<Rightarrow> nat \<Rightarrow> int list option" where
  "write_cell seq_max seq_id c i =
     map_option (\<lambda>p. p # int (length (cell_seq_ids seq_max seq_id c i)) # map int (cell_seq_ids seq_max seq_id c i)) (pos_get i c)"

definition state_write_meta :: "nat \<Rightarrow> kv_cells \<Rightarrow> (nat \<times> nat) list \<Rightarrow> int \<Rightarrow> int list option" where
  "state_write_meta seq_max c ranges seq_id =
     map_option concat (collect_opt (map (write_cell seq_max seq_id c) (concat (map (\<lambda>(a, b). [a ..< b]) ranges))))"

text \<open>Reading past the end throws.\<close>

fun io_read :: "int list \<Rightarrow> (int \<times> int list) option" where
  "io_read [] = None"
| "io_read (x # xs) = Some (x, xs)"

text \<open>The loop for one sequence collects the positions; \<open>Some None\<close> is \<open>return false\<close>.\<close>

fun read_positions :: "nat \<Rightarrow> int list \<Rightarrow> (int list \<times> int list) option option" where
  "read_positions 0 io = Some (Some ([], io))"
| "read_positions (Suc n) io =
     Option.bind (io_read io) (\<lambda>(p, io1). Option.bind (io_read io1) (\<lambda>(n_seq_id, io2).
       if n_seq_id \<noteq> 1 then Some None
       else Option.bind (io_read io2) (\<lambda>(_, io3).
         map_option (map_option (\<lambda>(ps, io'). (p # ps, io'))) (read_positions n io3))))"

fun read_seq_ids :: "nat \<Rightarrow> nat \<Rightarrow> nat \<Rightarrow> kv_cells \<Rightarrow> int list \<Rightarrow> (bool \<times> kv_cells \<times> int list) option" where
  "read_seq_ids seq_max i 0 c io = Some (True, c, io)"
| "read_seq_ids seq_max i (Suc n) c io =
     Option.bind (io_read io) (\<lambda>(s, io1).
       if s < 0 \<or> s \<ge> int seq_max then Some (False, c, io1)
       else Option.bind (cells_seq_add i (nat s) c) (\<lambda>c1. read_seq_ids seq_max i n c1 io1))"

fun read_cells :: "nat \<Rightarrow> nat list \<Rightarrow> kv_cells \<Rightarrow> int list \<Rightarrow> (bool \<times> kv_cells \<times> int list) option" where
  "read_cells seq_max [] c io = Some (True, c, io)"
| "read_cells seq_max (i # rest) c io =
     Option.bind (io_read io) (\<lambda>(p, io1). Option.bind (io_read io1) (\<lambda>(n_seq_id, io2).
     Option.bind (pos_set i p c) (\<lambda>c1. Option.bind (read_seq_ids seq_max i (nat n_seq_id) c1 io2) (\<lambda>(ok, c2, io3).
       if \<not> ok then Some (False, c2, io3) else read_cells seq_max rest c2 io3))))"

definition restored_ubatch :: "nat \<Rightarrow> int list \<Rightarrow> llama_ubatch" where
  "restored_ubatch dest ps = \<lparr>equal_seqs = True, u_n_tokens = length ps, n_seq_tokens = 0, n_seqs = 0,
     u_token = Some [], u_embd = None, u_pos = ps, u_n_seq_id = replicate (length ps) 1,
     u_seq_id = replicate (length ps) [dest], u_output = []\<rparr>"

definition state_read_meta :: "nat \<Rightarrow> int \<Rightarrow> kv_cache \<Rightarrow> int list \<Rightarrow> (bool \<times> kv_cache \<times> int list) option" where
  "state_read_meta cell_count dest kv io =
     (if dest \<noteq> -1 then
        Option.bind (kv_seq_rm (nat dest) (-1) (-1) kv) (\<lambda>(_, kv1).
        Option.bind (read_positions cell_count io) (\<lambda>r. case r of
          None \<Rightarrow> Some (False, kv1, io)
        | Some (ps, io') \<Rightarrow> let ub = restored_ubatch (nat dest) ps in
            Option.bind (find_slot ub kv1) (\<lambda>slot. case slot of
              None \<Rightarrow> Some (False, kv1, io')
            | Some h \<Rightarrow> Option.bind (apply_ubatch h ub kv1) (\<lambda>kv2.
                let kv3 = kv2\<lparr>head := h\<rparr>; c = cells kv3; l = h + cell_count - 1 in
                if h + cell_count \<le> cells_size c \<and> cell_count > 0 \<and> pos_get h c = Some (ps ! 0) \<and> pos_get l c = Some (ps ! (cell_count - 1)) \<and>
                   seq_has h (nat dest) c \<and> seq_has l (nat dest) c
                then Some (True, kv3, io') else None))))
      else if cell_count > cells_size (cells kv) then Some (False, kv, io)
      else let kv1 = kv_clear kv in
        map_option (\<lambda>(ok, c, io'). (ok, kv1\<lparr>cells := c, head := (if ok then 0 else head kv1)\<rparr>, io'))
          (read_cells (n_seq_max kv) [0 ..< cell_count] (cells kv1) io))"

subsection \<open>The state of a batch\<close>

datatype llama_memory_status = LLAMA_MEMORY_STATUS_SUCCESS | LLAMA_MEMORY_STATUS_FAILED_PREPARE | LLAMA_MEMORY_STATUS_FAILED_COMPUTE

record kv_state =
  status :: llama_memory_status
  st_out_ids :: "nat list"
  i_next :: nat
  heads :: "nat list"
  ubatches :: "llama_ubatch list"
  st_n_kv :: nat
  st_head :: nat

definition failed_state :: kv_state where
  "failed_state = \<lparr>status = LLAMA_MEMORY_STATUS_FAILED_PREPARE, st_out_ids = [], i_next = 0, heads = [], ubatches = [],
     st_n_kv = 0, st_head = 0\<rparr>"

definition init_full :: "kv_cache \<Rightarrow> kv_state" where
  "init_full kv = \<lparr>status = LLAMA_MEMORY_STATUS_SUCCESS, st_out_ids = [], i_next = 0, heads = [], ubatches = [],
     st_n_kv = cells_size (cells kv), st_head = 0\<rparr>"

definition init_batch :: "llama_batch \<Rightarrow> nat \<Rightarrow> bool \<Rightarrow> kv_cache \<Rightarrow> (kv_state \<times> kv_cache) option" where
  "init_batch batch n_ubatch log_all kv =
     Option.bind (sbatch_init (\<lambda>_ xs. xs) (\<lambda>_ ss. ss) batch True log_all) (\<lambda>sbatch.
     Option.bind (split_all (split_simple n_ubatch) sbatch) (\<lambda>(ubs, sbatch').
     Option.bind (prepare ubs kv) (\<lambda>(hs, kv').
       if hs = [] then Some (failed_state, kv')
       else Some (\<lparr>status = LLAMA_MEMORY_STATUS_SUCCESS, st_out_ids = out_ids sbatch', i_next = 0, heads = hs, ubatches = ubs,
         st_n_kv = 0, st_head = 0\<rparr>, kv'))))"

definition state_next :: "kv_state \<Rightarrow> (bool \<times> kv_state) option" where
  "state_next st =
     (if status st \<noteq> LLAMA_MEMORY_STATUS_SUCCESS then None
      else Some (\<not> i_next st + 1 \<ge> length (ubatches st), st\<lparr>i_next := i_next st + 1\<rparr>))"

definition state_apply :: "kv_state \<Rightarrow> kv_cache \<Rightarrow> (kv_state \<times> kv_cache) option" where
  "state_apply st kv =
     (if status st \<noteq> LLAMA_MEMORY_STATUS_SUCCESS \<or> \<not> i_next st < length (heads st) \<or> \<not> i_next st < length (ubatches st) then None
      else map_option (\<lambda>kv'. (st\<lparr>st_n_kv := get_n_kv kv', st_head := heads st ! i_next st\<rparr>, kv'))
        (apply_ubatch (heads st ! i_next st) (ubatches st ! i_next st) kv))"

subsection \<open>A cache for the dense and one for the sliding-window layers\<close>

record kv_iswa =
  kv_base :: kv_cache
  kv_swa :: kv_cache

definition iswa_init :: "bool \<Rightarrow> nat \<Rightarrow> nat \<Rightarrow> nat \<Rightarrow> nat \<Rightarrow> nat \<Rightarrow> llama_swa_type \<Rightarrow> kv_iswa option" where
  "iswa_init swa_full kv_size seq_max n_ubatch pad swa swa_t =
     (let size_swa = (if swa_full then kv_size else min kv_size (GGML_PAD (swa * seq_max + n_ubatch) pad)) in
      Option.bind (kv_init kv_size seq_max pad 0 LLAMA_SWA_TYPE_NONE) (\<lambda>base.
      Option.bind (kv_init size_swa seq_max pad swa swa_t) (\<lambda>sw. Some \<lparr>kv_base = base, kv_swa = sw\<rparr>)))"

definition both :: "(kv_cache \<Rightarrow> kv_cache option) \<Rightarrow> kv_iswa \<Rightarrow> kv_iswa option" where
  "both f kv = Option.bind (f (kv_base kv)) (\<lambda>b. Option.bind (f (kv_swa kv)) (\<lambda>s. Some \<lparr>kv_base = b, kv_swa = s\<rparr>))"

definition iswa_clear :: "kv_iswa \<Rightarrow> kv_iswa" where
  "iswa_clear kv = \<lparr>kv_base = kv_clear (kv_base kv), kv_swa = kv_clear (kv_swa kv)\<rparr>"

definition iswa_seq_rm :: "nat \<Rightarrow> int \<Rightarrow> int \<Rightarrow> kv_iswa \<Rightarrow> (bool \<times> kv_iswa) option" where
  "iswa_seq_rm s p0 p1 kv = Option.bind (kv_seq_rm s p0 p1 (kv_base kv)) (\<lambda>(r1, b).
     Option.bind (kv_seq_rm s p0 p1 (kv_swa kv)) (\<lambda>(r2, w). Some (r1 \<and> r2, \<lparr>kv_base = b, kv_swa = w\<rparr>)))"

definition iswa_seq_cp :: "nat \<Rightarrow> nat \<Rightarrow> int \<Rightarrow> int \<Rightarrow> kv_iswa \<Rightarrow> kv_iswa option" where
  "iswa_seq_cp src dst p0 p1 = both (kv_seq_cp src dst p0 p1)"

definition iswa_seq_keep :: "nat \<Rightarrow> kv_iswa \<Rightarrow> kv_iswa option" where
  "iswa_seq_keep s = both (kv_seq_keep s)"

definition iswa_seq_add :: "nat \<Rightarrow> int \<Rightarrow> int \<Rightarrow> int \<Rightarrow> kv_iswa \<Rightarrow> kv_iswa option" where
  "iswa_seq_add s p0 p1 d = both (kv_seq_add s p0 p1 d)"

definition iswa_seq_div :: "nat \<Rightarrow> int \<Rightarrow> int \<Rightarrow> int \<Rightarrow> kv_iswa \<Rightarrow> kv_iswa option" where
  "iswa_seq_div s p0 p1 d = both (kv_seq_div s p0 p1 d)"

definition iswa_seq_pos_min :: "nat \<Rightarrow> kv_iswa \<Rightarrow> int" where
  "iswa_seq_pos_min s kv = kv_seq_pos_min s (kv_swa kv)"

definition iswa_seq_pos_max :: "nat \<Rightarrow> kv_iswa \<Rightarrow> int" where
  "iswa_seq_pos_max s kv = kv_seq_pos_max s (kv_swa kv)"

definition iswa_get_can_shift :: "kv_iswa \<Rightarrow> bool" where
  "iswa_get_can_shift kv \<longleftrightarrow> cells_size (cells (kv_base kv)) = cells_size (cells (kv_swa kv))"

definition iswa_init_batch :: "llama_batch \<Rightarrow> nat \<Rightarrow> bool \<Rightarrow> kv_iswa \<Rightarrow>
    ((nat list \<times> nat list \<times> llama_ubatch list \<times> nat list) option \<times> kv_iswa) option" where
  "iswa_init_batch batch n_ubatch log_all kv =
     Option.bind (sbatch_init (\<lambda>_ xs. xs) (\<lambda>_ ss. ss) batch True log_all) (\<lambda>sbatch.
     Option.bind (split_all (split_simple n_ubatch) sbatch) (\<lambda>(ubs, sbatch').
     Option.bind (prepare ubs (kv_base kv)) (\<lambda>(hs_base, b).
       if hs_base = [] then Some (None, kv\<lparr>kv_base := b\<rparr>)
       else Option.bind (prepare ubs (kv_swa kv)) (\<lambda>(hs_swa, w).
         if hs_swa = [] then Some (None, \<lparr>kv_base = b, kv_swa = w\<rparr>)
         else if length hs_base \<noteq> length hs_swa then None
         else Some (Some (hs_base, hs_swa, ubs, out_ids sbatch'), \<lparr>kv_base = b, kv_swa = w\<rparr>)))))"

end
