(* ===== verification/Kv_Ops.thy ===== *)
theory Kv_Ops
  imports Kv_Cache
begin

text \<open>
  The operations on sequences against an abstract cache, the set of its entries (cell, sequence,
  position): removing, keeping and copying a sequence.  The state of the bookkeeping stays consistent
  (\<open>cells_ok\<close>), except for the shift of positions, where a concrete run shows that it does not.
\<close>

definition entries :: "kv_cells \<Rightarrow> (nat \<times> nat \<times> int) set" where
  "entries c = {(i, s, p). i < cells_size c \<and> s \<in> seqs c ! i \<and> p = pos c ! i}"

lemma entries_iff: "(i, s, p) \<in> entries c \<longleftrightarrow> i < length (pos c) \<and> s \<in> seqs c ! i \<and> p = pos c ! i"
  by (simp add: entries_def cells_size_def)

lemma entries_put:
  assumes "cells_ok c" "i < length (pos c)" "cell_put i p S c c'"
  shows "entries c' = {(j, s, q) \<in> entries c. j \<noteq> i} \<union> {(i, s, p) | s. s \<in> S}" "length (pos c') = length (pos c)"
  using assms ok_cell(4) [OF assms(1,2)] by (auto simp: entries_iff cell_put_def nth_list_update split: if_splits)

text \<open>Every cell that holds a token belongs to a sequence.\<close>

definition owned :: "kv_cells \<Rightarrow> bool" where
  "owned c \<longleftrightarrow> (\<forall>i < length (pos c). pos c ! i \<noteq> -1 \<longrightarrow> seqs c ! i \<noteq> {})"

lemma owned_put:
  assumes "owned c" "cells_ok c" "i < length (pos c)" "cell_put i p S c c'" "p \<noteq> -1 \<Longrightarrow> S \<noteq> {}"
  shows "owned c'"
  using assms ok_cell(4) [OF assms(2,3)] by (auto simp: owned_def cell_put_def nth_list_update)

subsection \<open>Steps of the loops\<close>

lemma seq_rm_step_ok:
  assumes ok: "cells_ok c" and s: "s < LLAMA_MAX_PARALLEL_SEQUENCES" and i: "i < length (pos c)"
  shows "\<exists>h' c'. seq_rm_step s lo hi i (h, c) = Some (h', c') \<and> cells_ok c' \<and> length (pos c') = length (pos c) \<and>
    entries c' = {(j, s', p) \<in> entries c. \<not> (j = i \<and> s' = s \<and> lo \<le> p \<and> p < hi)}"
proof (cases "pos_in i lo hi c \<and> seq_has i s c")
  case False
  then have "entries c = {(j, s', p) \<in> entries c. \<not> (j = i \<and> s' = s \<and> lo \<le> p \<and> p < hi)}"
    by (auto simp: entries_iff pos_in_def seq_has_def)
  with False ok s show ?thesis by (auto simp: seq_rm_step_def seq_test_def)
next
  case True
  have "cells_seq_rm i s c \<noteq> None"
    using True s i ok_cell(3) [OF ok i] by (auto simp: cells_seq_rm_def seq_has_def Let_def)
  then obtain b c' where r: "cells_seq_rm i s c = Some (b, c')" by auto
  note p = seq_rm_put [OF ok r] and cell = ok_cell [OF ok i]
  have "cells_ok c'"
    by (rule cell_put_ok [OF ok i p(3)]) (use cell p(2) free_mono [OF cell(7)] in \<open>auto simp: free_empty split: if_splits\<close>)
  moreover have "entries c' = {(j, s', p) \<in> entries c. \<not> (j = i \<and> s' = s \<and> lo \<le> p \<and> p < hi)}"
    unfolding entries_put(1) [OF ok i p(3)] using True i p(2) by (auto simp: entries_iff pos_in_def)
  ultimately show ?thesis using True s r entries_put(2) [OF ok i p(3)] by (auto simp: seq_rm_step_def seq_test_def)
qed

lemma seq_keep_step_ok:
  assumes ok: "cells_ok c" "owned c" and s: "s < LLAMA_MAX_PARALLEL_SEQUENCES" and i: "i < length (pos c)"
  shows "\<exists>h' c'. seq_keep_step s i (h, c) = Some (h', c') \<and> cells_ok c' \<and> owned c' \<and> length (pos c') = length (pos c) \<and>
    entries c' = {(j, s', p) \<in> entries c. \<not> (j = i \<and> s' \<noteq> s)}"
proof -
  have "cells_seq_keep i s c \<noteq> None"
    using s i ok(2) by (auto simp: cells_seq_keep_def Let_def owned_def)
  then obtain b c' where r: "cells_seq_keep i s c = Some (b, c')" by auto
  note p = seq_keep_put [OF ok(1) r] and cell = ok_cell [OF ok(1) i]
  have "cells_ok c'"
    by (rule cell_put_ok [OF ok(1) i p(3)]) (use cell p(2) free_mono [OF cell(7)] in \<open>auto simp: free_empty\<close>)
  moreover have "owned c'" by (rule owned_put [OF ok(2,1) i p(3)]) (auto split: if_splits)
  moreover have "entries c' = {(j, s', p) \<in> entries c. \<not> (j = i \<and> s' \<noteq> s)}"
    unfolding entries_put(1) [OF ok(1) i p(3)] using i by (auto simp: entries_iff)
  ultimately show ?thesis using r entries_put(2) [OF ok(1) i p(3)] by (auto simp: seq_keep_step_def)
qed

lemma seq_cp_step_ok:
  assumes ok: "cells_ok c" and s: "src < LLAMA_MAX_PARALLEL_SEQUENCES" "dst < LLAMA_MAX_PARALLEL_SEQUENCES" and i: "i < length (pos c)"
    and new: "dst \<notin> seqs c ! i" "\<And>j p. (j, dst, p) \<in> entries c \<Longrightarrow> (j, src, p) \<in> entries c"
  shows "\<exists>c'. seq_cp_step src dst lo hi i c = Some c' \<and> cells_ok c' \<and> length (pos c') = length (pos c) \<and>
    entries c' = entries c \<union> {(i, dst, p) | p. (i, src, p) \<in> entries c \<and> lo \<le> p \<and> p < hi}"
proof (cases "pos_in i lo hi c \<and> seq_has i src c")
  case False
  then have "{(i, dst, p) | p. (i, src, p) \<in> entries c \<and> lo \<le> p \<and> p < hi} = {}"
    by (auto simp: entries_iff pos_in_def seq_has_def)
  with False ok s show ?thesis by (auto simp: seq_cp_step_def seq_test_def)
next
  case True
  note cell = ok_cell [OF ok i]
  have src: "src \<in> seqs c ! i" using True by (simp add: seq_has_def)
  have "cells_seq_add i dst c \<noteq> None" using src s(2) i new(1) cell(3) by (auto simp: cells_seq_add_def)
  then obtain c' where r: "cells_seq_add i dst c = Some c'" by auto
  note p = seq_add_put [OF ok r]
  have "free_for c i {dst} (pos c ! i)"
  proof (unfold free_for_def, intro allI impI)
    fix j assume j: "j < length (pos c)" "j \<noteq> i" "seqs c ! j \<inter> {dst} \<noteq> {}"
    then have "src \<in> seqs c ! j" using new(2) [of j "pos c ! j"] by (auto simp: entries_iff)
    then show "pos c ! j \<noteq> pos c ! i" using cell(7) j src by (auto simp: free_for_def)
  qed
  then have "cells_ok c'"
    by (intro cell_put_ok [OF ok i p(5)]) (use cell p(2,4) in \<open>auto simp: free_for_def\<close>)
  moreover have "entries c' = entries c \<union> {(i, dst, p) | p. (i, src, p) \<in> entries c \<and> lo \<le> p \<and> p < hi}"
    unfolding entries_put(1) [OF ok i p(5)] using True i src by (auto simp: entries_iff pos_in_def)
  ultimately show ?thesis using True s r entries_put(2) [OF ok i p(5)] by (auto simp: seq_cp_step_def seq_test_def)
qed

subsection \<open>The operations refine the abstract ones\<close>

lemma kv_seq_rm_entries:
  assumes ok: "cells_ok (cells kv)" and s: "s < LLAMA_MAX_PARALLEL_SEQUENCES"
  shows "\<exists>kv'. kv_seq_rm s p0 p1 kv = Some (True, kv') \<and> cells_ok (cells kv') \<and> kv'\<lparr>head := head kv, cells := cells kv\<rparr> = kv \<and>
    entries (cells kv') = {(i, s', p) \<in> entries (cells kv). \<not> (s' = s \<and> from_pos p0 \<le> p \<and> p < to_pos p1)}"
proof -
  let ?c = "cells kv" and ?n = "length (pos (cells kv))"
  let ?P = "\<lambda>k (h :: nat, c). cells_ok c \<and> length (pos c) = ?n \<and>
    entries c = {(i, s', p) \<in> entries ?c. \<not> (i < k \<and> s' = s \<and> from_pos p0 \<le> p \<and> p < to_pos p1)}"
  have "\<exists>st. fold_opt (seq_rm_step s (from_pos p0) (to_pos p1)) [0 ..< ?n] (?n, ?c) = Some st \<and> ?P ?n st"
  proof (rule fold_opt_upt_inv [where P = ?P])
    fix i st assume "i < ?n" "?P i st"
    then obtain h c where st: "st = (h, c)" "cells_ok c" "length (pos c) = ?n"
      "entries c = {(j, s', p) \<in> entries ?c. \<not> (j < i \<and> s' = s \<and> from_pos p0 \<le> p \<and> p < to_pos p1)}" by (cases st) auto
    from seq_rm_step_ok [OF st(2) s, of i "from_pos p0" "to_pos p1" h] \<open>i < ?n\<close> st(3,4)
    show "\<exists>st'. seq_rm_step s (from_pos p0) (to_pos p1) i st = Some st' \<and> ?P (Suc i) st'"
      by (fastforce simp: st(1) less_Suc_eq)
  qed (use ok in auto)
  then obtain h c where "fold_opt (seq_rm_step s (from_pos p0) (to_pos p1)) [0 ..< ?n] (?n, ?c) = Some (h, c)" "?P ?n (h, c)" by auto
  then show ?thesis
    by (auto simp: kv_seq_rm_def cells_size_def set_head_def entries_iff)
qed

lemma kv_seq_keep_entries:
  assumes ok: "cells_ok (cells kv)" "owned (cells kv)" and s: "s < LLAMA_MAX_PARALLEL_SEQUENCES"
  shows "\<exists>kv'. kv_seq_keep s kv = Some kv' \<and> cells_ok (cells kv') \<and> kv'\<lparr>head := head kv, cells := cells kv\<rparr> = kv \<and>
    entries (cells kv') = {(i, s', p) \<in> entries (cells kv). s' = s}"
proof -
  let ?c = "cells kv" and ?n = "length (pos (cells kv))"
  let ?P = "\<lambda>k (h :: nat, c). cells_ok c \<and> owned c \<and> length (pos c) = ?n \<and>
    entries c = {(i, s', p) \<in> entries ?c. \<not> (i < k \<and> s' \<noteq> s)}"
  have "\<exists>st. fold_opt (seq_keep_step s) [0 ..< ?n] (?n, ?c) = Some st \<and> ?P ?n st"
  proof (rule fold_opt_upt_inv [where P = ?P])
    fix i st assume "i < ?n" "?P i st"
    then obtain h c where st: "st = (h, c)" "cells_ok c" "owned c" "length (pos c) = ?n"
      "entries c = {(j, s', p) \<in> entries ?c. \<not> (j < i \<and> s' \<noteq> s)}" by (cases st) auto
    from seq_keep_step_ok [OF st(2,3) s, of i h] \<open>i < ?n\<close> st(4,5)
    show "\<exists>st'. seq_keep_step s i st = Some st' \<and> ?P (Suc i) st'"
      by (fastforce simp: st(1) less_Suc_eq)
  qed (use ok in auto)
  then obtain h c where "fold_opt (seq_keep_step s) [0 ..< ?n] (?n, ?c) = Some (h, c)" "?P ?n (h, c)" by auto
  then show ?thesis
    by (auto simp: kv_seq_keep_def cells_size_def set_head_def entries_iff)
qed

lemma kv_seq_cp_entries:
  assumes ok: "cells_ok (cells kv)" and s: "src < LLAMA_MAX_PARALLEL_SEQUENCES" "dst < LLAMA_MAX_PARALLEL_SEQUENCES" "src \<noteq> dst"
    and new: "\<And>i p. (i, dst, p) \<notin> entries (cells kv)"
  shows "\<exists>kv'. kv_seq_cp src dst p0 p1 kv = Some kv' \<and> cells_ok (cells kv') \<and> kv'\<lparr>cells := cells kv\<rparr> = kv \<and>
    entries (cells kv') = entries (cells kv) \<union>
      {(i, dst, p) | i p. (i, src, p) \<in> entries (cells kv) \<and> from_pos p0 \<le> p \<and> p < to_pos p1}"
proof -
  let ?c = "cells kv" and ?n = "length (pos (cells kv))"
  let ?P = "\<lambda>k c. cells_ok c \<and> length (pos c) = ?n \<and>
    entries c = entries ?c \<union> {(i, dst, p) | i p. i < k \<and> (i, src, p) \<in> entries ?c \<and> from_pos p0 \<le> p \<and> p < to_pos p1}"
  have "\<exists>c. fold_opt (seq_cp_step src dst (from_pos p0) (to_pos p1)) [0 ..< ?n] ?c = Some c \<and> ?P ?n c"
  proof (rule fold_opt_upt_inv [where P = ?P])
    fix i c assume i: "i < ?n" and c: "?P i c"
    have d: "dst \<notin> seqs c ! i"
    proof
      assume "dst \<in> seqs c ! i"
      then have "(i, dst, pos c ! i) \<in> entries c" unfolding entries_iff using i c by metis
      then show False using c new by auto
    qed
    have n: "(j, src, p) \<in> entries c" if "(j, dst, p) \<in> entries c" for j p using that c new by auto
    have ok': "cells_ok c" "i < length (pos c)" using c i by simp_all
    obtain c' where r: "seq_cp_step src dst (from_pos p0) (to_pos p1) i c = Some c'" "cells_ok c'" "length (pos c') = length (pos c)"
      "entries c' = entries c \<union> {(i, dst, p) | p. (i, src, p) \<in> entries c \<and> from_pos p0 \<le> p \<and> p < to_pos p1}"
      using seq_cp_step_ok [OF ok'(1) s(1,2) ok'(2) d n] by blast
    have "(i, src, p) \<in> entries c \<longleftrightarrow> (i, src, p) \<in> entries ?c" for p using c s(3) by auto
    then have "entries c' = entries ?c \<union> {(j, dst, p) | j p. j < Suc i \<and> (j, src, p) \<in> entries ?c \<and> from_pos p0 \<le> p \<and> p < to_pos p1}"
      using c r(4) by (auto simp: less_Suc_eq)
    then show "\<exists>c'. seq_cp_step src dst (from_pos p0) (to_pos p1) i c = Some c' \<and> ?P (Suc i) c'" using r c by auto
  qed (use ok in auto)
  then obtain c where "fold_opt (seq_cp_step src dst (from_pos p0) (to_pos p1)) [0 ..< ?n] ?c = Some c" "?P ?n c" by auto
  then show ?thesis
    using s(3) by (auto simp: kv_seq_cp_def cells_size_def entries_iff)
qed

text \<open>
  C30: The sequence operations are those on the set of entries (cell, sequence, position).  From a
  consistent cache, removing a sequence deletes exactly its entries in the range, keeping one deletes
  exactly the entries of the others (every cell in use belonging to a sequence), and copying one to an
  unused sequence adds exactly the copies of its entries in the range; no assertion fails, the tracked
  minima and maxima stay exact and nothing but the cells and the search head changes.
\<close>

theorem kv_sequence_operations_refine:
  assumes "cells_ok (cells kv)" "owned (cells kv)" "s < LLAMA_MAX_PARALLEL_SEQUENCES" "t < LLAMA_MAX_PARALLEL_SEQUENCES" "s \<noteq> t"
    and "\<And>i p. (i, t, p) \<notin> entries (cells kv)"
  shows "(\<exists>kv'. kv_seq_rm s p0 p1 kv = Some (True, kv') \<and> cells_ok (cells kv') \<and> kv'\<lparr>head := head kv, cells := cells kv\<rparr> = kv \<and>
      entries (cells kv') = {(i, s', p) \<in> entries (cells kv). \<not> (s' = s \<and> from_pos p0 \<le> p \<and> p < to_pos p1)}) \<and>
    (\<exists>kv'. kv_seq_keep s kv = Some kv' \<and> cells_ok (cells kv') \<and> kv'\<lparr>head := head kv, cells := cells kv\<rparr> = kv \<and>
      entries (cells kv') = {(i, s', p) \<in> entries (cells kv). s' = s}) \<and>
    (\<exists>kv'. kv_seq_cp s t p0 p1 kv = Some kv' \<and> cells_ok (cells kv') \<and> kv'\<lparr>cells := cells kv\<rparr> = kv \<and>
      entries (cells kv') = entries (cells kv) \<union>
        {(i, t, p) | i p. (i, s, p) \<in> entries (cells kv) \<and> from_pos p0 \<le> p \<and> p < to_pos p1})"
  using kv_seq_rm_entries [OF assms(1,3)] kv_seq_keep_entries [OF assms(1,2,3)] kv_seq_cp_entries [OF assms(1,3,4,5,6)] by blast

definition one_cell_cache :: kv_cache where
  "one_cell_cache = \<lparr>head = 2, cells = one_cell, n_seq_max = 64, n_pad = 1, n_swa = 0, swa_type = LLAMA_SWA_TYPE_NONE,
     do_defrag = False, defrag_ids = []\<rparr>"

lemma kv_sequence_operations_refine_witness:
  "(\<exists>kv'. kv_seq_rm 7 0 9 one_cell_cache = Some (True, kv') \<and> entries (cells kv') = {}) \<and>
   (\<exists>kv'. kv_seq_cp 7 3 0 9 one_cell_cache = Some kv' \<and> entries (cells kv') = {(1, 7, 5), (1, 3, 5)})"
proof -
  have e: "entries (cells one_cell_cache) = {(1, 7, 5)}"
    by (auto simp: entries_def one_cell_cache_def cells_size_def one_cell_fields nth_Cons split: nat.splits)
  have "cells_ok (cells one_cell_cache)" "owned (cells one_cell_cache)"
    using cells_reach_ok [OF one_cell_reach]
    by (auto simp: one_cell_cache_def owned_def one_cell_fields nth_Cons split: nat.splits)
  from kv_sequence_operations_refine [OF this, of 7 3 0 9, unfolded e]
  obtain kv1 kv2 where "kv_seq_rm 7 0 9 one_cell_cache = Some (True, kv1)"
    "entries (cells kv1) = {(i, s', p) \<in> {(1, 7, 5)}. \<not> (s' = 7 \<and> from_pos 0 \<le> p \<and> p < to_pos 9)}"
    "kv_seq_cp 7 3 0 9 one_cell_cache = Some kv2"
    "entries (cells kv2) = {(1, 7, 5)} \<union> {(i, 3, p) | i p. (i, 7, p) \<in> {(1, 7, 5)} \<and> from_pos 0 \<le> p \<and> p < to_pos 9}"
    by (auto simp: LLAMA_MAX_PARALLEL_SEQUENCES_def)
  then show ?thesis by (auto simp: from_pos_def to_pos_def)
qed

subsection \<open>Shifting positions\<close>

definition two_tokens :: kv_cells where
  "two_tokens = \<lparr>has_shift = False, used = {0, 1}, pos = [0, 1], shift = [0, 0], seqs = [{0}, {0}],
     seq_pos = (\<lambda>s. if s = 0 then {0, 1} else {})\<rparr>"

definition two_tokens_cache :: kv_cache where
  "two_tokens_cache = \<lparr>head = 2, cells = two_tokens, n_seq_max = 64, n_pad = 1, n_swa = 0, swa_type = LLAMA_SWA_TYPE_NONE,
     do_defrag = False, defrag_ids = []\<rparr>"

text \<open>
  Shifting a sequence forward corrupts the tracked positions.  From a consistent cache with tokens at
  the positions 0 and 1, \<open>seq_add\<close> with shift 1 leaves tokens at 1 and 2, but \<open>seq_pos_min\<close> reports 2: the
  set of positions does not count, and moving the second token away erases the position that the first one
  has just taken.
\<close>

theorem seq_add_forward_loses_position:
  "cells_ok two_tokens \<and>
   (\<exists>kv'. kv_seq_add 0 0 (-1) 1 two_tokens_cache = Some kv' \<and> entries (cells kv') = {(0, 0, 1), (1, 0, 2)} \<and>
      kv_seq_pos_min 0 kv' = 2 \<and> \<not> cells_ok (cells kv'))"
proof -
  define c where "c = \<lparr>has_shift = True, used = {0, 1}, pos = [1, 2], shift = [1, 1], seqs = [{0}, {0}],
     seq_pos = (\<lambda>s. if s = 0 then {2} else {})\<rparr>"
  have "fold_opt (seq_add_step 0 0 2147483647 1) [0, 1] (2, two_tokens) = Some (2, c)"
    by (simp add: seq_add_step_def two_tokens_def pos_in_def seq_test_def seq_has_def pos_add_def seq_pos_rm_def seq_pos_add_def
      LLAMA_MAX_PARALLEL_SEQUENCES_def Let_def c_def fun_eq_iff)
  moreover have "[0 ..< cells_size two_tokens] = [0, 1]" "cells_size two_tokens = 2"
    by (simp_all add: cells_size_def two_tokens_def upt_rec)
  ultimately have r: "kv_seq_add 0 0 (-1) 1 two_tokens_cache = Some (two_tokens_cache\<lparr>cells := c, head := 0\<rparr>)"
    by (simp add: kv_seq_add_def from_pos_def to_pos_def two_tokens_cache_def cells_size_def c_def)
  have e: "entries c = {(0, 0, 1), (1, 0, 2)}"
    by (auto simp: entries_iff c_def less_Suc_eq nth_Cons split: nat.splits)
  have m: "cells_seq_pos_min 0 c = 2" by (simp add: cells_seq_pos_min_def c_def)
  have "1 \<in> positions c 0" by (auto simp: positions_def c_def)
  then have "\<not> cells_ok c" by (auto simp: cells_ok_def tracked_def c_def)
  moreover have two: "i < length (pos two_tokens) \<longleftrightarrow> i = 0 \<or> i = 1" for i by (auto simp: two_tokens_def)
  have "positions two_tokens s = {p. s \<in> seqs two_tokens ! 0 \<and> p = pos two_tokens ! 0 \<or>
      s \<in> seqs two_tokens ! 1 \<and> p = pos two_tokens ! 1}" for s
    unfolding positions_def two by blast
  then have "positions two_tokens s = (if s = 0 then {0, 1} else {})" for s
    by (auto simp: two_tokens_def)
  then have "cells_ok two_tokens"
    unfolding cells_ok_def cells_wf_def tracked_def unique_def free_for_def two
    by (auto simp: two_tokens_def LLAMA_MAX_PARALLEL_SEQUENCES_def)
  ultimately show ?thesis using r e m by (simp add: kv_seq_pos_min_def)
qed

end
