(* ===== verification/Kv_Slot.thy ===== *)
theory Kv_Slot
  imports Kv_Ops
begin

text \<open>
  The search for a slot: on a consistent cache it ends, the window it returns fits and holds only cells
  that the code's reuse rules allow, and it fails only when no window of empty cells is left.
\<close>

text \<open>A cell may be given to a token: it is empty, or it belongs to one sequence, which either is the
  sequence of the token and holds a position that is not before the token's, or whose positions after its
  last one cannot see the cell for the sliding window.  (In the first case the cell is overwritten although
  later tokens of the sequence would see it: the code expects the caller to decode such a position anew.)\<close>

definition usable :: "kv_cache \<Rightarrow> int \<times> nat \<Rightarrow> nat \<Rightarrow> bool" where
  "usable kv t cell \<longleftrightarrow> is_empty cell (cells kv) \<or>
     (\<exists>s. seqs (cells kv) ! cell = {s} \<and>
       (s = snd t \<and> fst t \<le> pos (cells kv) ! cell \<or>
        (\<forall>p1 > cells_seq_pos_max s (cells kv). is_masked_swa kv (pos (cells kv) ! cell) p1 = Some True)))"

definition slot_cache :: "kv_cache \<Rightarrow> bool" where
  "slot_cache kv \<longleftrightarrow> cells_ok (cells kv) \<and> head kv \<le> cells_size (cells kv) \<and> (swa_type kv = LLAMA_SWA_TYPE_CHUNKED \<longrightarrow> n_swa kv > 0)"

lemma masked_later:
  assumes "is_masked_swa kv p0 p = Some True" "p \<le> p1"
  shows "is_masked_swa kv p0 p1 = Some True"
proof (cases "swa_type kv")
  case LLAMA_SWA_TYPE_CHUNKED
  then have "n_swa kv > 0" and c: "p0 < p div int (n_swa kv) * int (n_swa kv)" "p0 \<ge> 0" "p \<ge> 0"
    using assms(1) by (auto simp: is_masked_swa_def split: if_splits)
  then have "p div int (n_swa kv) * int (n_swa kv) \<le> p1 div int (n_swa kv) * int (n_swa kv)"
    using assms(2) by (intro mult_right_mono zdiv_mono1) auto
  with c(1) have "p0 < p1 div int (n_swa kv) * int (n_swa kv)" by linarith
  with c assms(2) \<open>n_swa kv > 0\<close> LLAMA_SWA_TYPE_CHUNKED show ?thesis by (simp add: is_masked_swa_def)
qed (use assms in \<open>auto simp: is_masked_swa_def split: if_splits\<close>)

lemma seq_get_single:
  assumes "cells_ok c" "i < length (pos c)" "seqs c ! i = {s}"
  shows "seq_get i c = Some s"
proof -
  have "s < LLAMA_MAX_PARALLEL_SEQUENCES" using ok_cell(2) [OF assms(1,2)] assms(3) by auto
  then have "find (\<lambda>x. x = s) [0 ..< LLAMA_MAX_PARALLEL_SEQUENCES] = Some s"
    unfolding find_Some_iff by (intro exI [of _ s]) auto
  then show ?thesis using assms(3) by (simp add: seq_get_def)
qed

lemma can_use_total:
  assumes kv: "slot_cache kv" and i: "cell < cells_size (cells kv)" and s: "s < LLAMA_MAX_PARALLEL_SEQUENCES"
  shows "\<exists>b pmin'. can_use kv p s cell pmin = Some (b, pmin') \<and> (b \<longrightarrow> usable kv (p, s) cell) \<and> (is_empty cell (cells kv) \<longrightarrow> b)"
proof (cases "is_empty cell (cells kv) \<or> seq_count cell (cells kv) \<noteq> 1")
  case True
  then show ?thesis by (auto simp: can_use_def usable_def Let_def)
next
  case False
  let ?c = "cells kv"
  have ok: "cells_ok ?c" and i': "cell < length (pos ?c)" using kv i by (auto simp: slot_cache_def cells_size_def)
  have ne: "\<not> is_empty cell ?c" and "card (seqs ?c ! cell) = 1" using False by (auto simp: seq_count_def)
  then obtain s' where s': "seqs ?c ! cell = {s'}" by (auto simp: card_1_singleton_iff)
  have p: "pos ?c ! cell \<ge> 0" using ok_cell(1) [OF ok i'] ne by (simp add: is_empty_def)
  have get: "pos_get cell ?c = Some (pos ?c ! cell)" "seq_test cell s ?c = Some (seq_has cell s ?c)" "seq_get cell ?c = Some s'"
    using ne i' s seq_get_single [OF ok i' s'] by (auto simp: pos_get_def is_empty_def seq_test_def)
  have "pos ?c ! cell \<in> seq_pos ?c s'" "finite (seq_pos ?c s')"
    using ok i' s' by (auto simp: cells_ok_def tracked_def positions_def)
  then have mx: "cells_seq_pos_max s' ?c \<ge> 0" using p by (auto simp: cells_seq_pos_max_def Max_ge_iff)
  have "is_masked_swa kv (pos ?c ! cell) (cells_seq_pos_max s' ?c + 1) \<noteq> None"
    using kv p mx by (auto simp: is_masked_swa_def slot_cache_def split: llama_swa_type.splits)
  then obtain m where m: "is_masked_swa kv (pos ?c ! cell) (cells_seq_pos_max s' ?c + 1) = Some m" by auto
  have cu: "can_use kv p s cell pmin =
     (if seq_has cell s ?c \<and> pos ?c ! cell \<ge> p then Some (True, pmin)
      else if pos ?c ! cell = pmin s' then Some (if m then (True, pmin(s' := pmin s' + 1)) else (False, pmin))
      else Some (False, pmin))"
  proof -
    have "pos ?c ! cell = pmin s' \<Longrightarrow> is_masked_swa kv (pmin s') (cells_seq_pos_max s' ?c + 1) = Some m" using m by metis
    then show ?thesis using False by (auto simp: can_use_def Let_def get)
  qed
  have "m \<Longrightarrow> \<forall>p1 > cells_seq_pos_max s' ?c. is_masked_swa kv (pos ?c ! cell) p1 = Some True"
    using masked_later m by auto
  then show ?thesis using ne s' unfolding cu usable_def by (auto simp: seq_has_def)
qed

lemma scan_slot_total:
  assumes "slot_cache kv" "h + i + length ts \<le> cells_size (cells kv)" "\<forall>t \<in> set ts. snd t < LLAMA_MAX_PARALLEL_SEQUENCES"
  shows "\<exists>k. scan_slot kv ts h i pmin = Some k \<and> i \<le> k \<and> k \<le> i + length ts \<and>
    (\<forall>j < k - i. usable kv (ts ! j) (h + i + j)) \<and> (k < i + length ts \<longrightarrow> \<not> is_empty (h + k) (cells kv))"
  using assms(2,3)
proof (induction ts arbitrary: i pmin)
  case (Cons t ts)
  obtain p s where t: "t = (p, s)" by (cases t)
  obtain b pmin' where u: "can_use kv p s (h + i) pmin = Some (b, pmin')" "b \<longrightarrow> usable kv (p, s) (h + i)"
    "is_empty (h + i) (cells kv) \<longrightarrow> b"
    using can_use_total [OF assms(1), of "h + i" s p pmin] Cons.prems t by auto
  show ?case
  proof (cases b)
    case True
    obtain k where k: "scan_slot kv ts h (Suc i) pmin' = Some k" "Suc i \<le> k" "k \<le> Suc i + length ts"
      "\<forall>j < k - Suc i. usable kv (ts ! j) (h + Suc i + j)" "k < Suc i + length ts \<longrightarrow> \<not> is_empty (h + k) (cells kv)"
      using Cons.IH [of "Suc i" pmin'] Cons.prems by auto
    have "usable kv ((t # ts) ! j) (h + i + j)" if "j < k - i" for j
      using that k(4) u(2) True t by (cases j) auto
    then show ?thesis using k u True t by (intro exI [of _ k]) auto
  next
    case False
    then show ?thesis using u t by (intro exI [of _ i]) auto
  qed
qed auto

text \<open>The distance from \<open>head_cur\<close> to a start position, around the end of the cache.\<close>

definition ahead :: "nat \<Rightarrow> nat \<Rightarrow> nat \<Rightarrow> nat" where
  "ahead n h h' = (if h \<le> h' then h' - h else h' + n - h)"

definition no_gap :: "kv_cells \<Rightarrow> nat \<Rightarrow> nat \<Rightarrow> bool" where
  "no_gap c n h \<longleftrightarrow> (\<exists>i < n. \<not> is_empty (h + i) c)"

definition slot_result :: "kv_cache \<Rightarrow> (int \<times> nat) list \<Rightarrow> nat option \<Rightarrow> bool" where
  "slot_result kv ts r = (case r of
     Some h \<Rightarrow> h + length ts \<le> cells_size (cells kv) \<and> (\<forall>i < length ts. usable kv (ts ! i) (h + i))
   | None \<Rightarrow> (\<forall>h. h + length ts \<le> cells_size (cells kv) \<longrightarrow> no_gap (cells kv) (length ts) h))"

lemma slot_loop_total:
  assumes kv: "slot_cache kv" and ts: "length ts \<le> cells_size (cells kv)" "\<forall>t \<in> set ts. snd t < LLAMA_MAX_PARALLEL_SEQUENCES"
    and h: "h \<le> cells_size (cells kv)"
    and inv: "\<And>h'. h' + length ts \<le> cells_size (cells kv) \<Longrightarrow> length ts > 0 \<Longrightarrow>
      ahead (cells_size (cells kv)) h h' + tested \<ge> cells_size (cells kv) \<Longrightarrow> no_gap (cells kv) (length ts) h'"
  shows "\<exists>r. slot_loop kv ts h tested = Some r \<and> slot_result kv ts r"
  using h inv
proof (induction "2 * (cells_size (cells kv) - tested) + (if h + length ts > cells_size (cells kv) then 1 else 0)"
    arbitrary: h tested rule: less_induct)
  case less
  let ?N = "cells_size (cells kv)" and ?n = "length ts"
  show ?case
  proof (cases "h + ?n > ?N")
    case True
    have "\<exists>r. slot_loop kv ts 0 (tested + (?N - h)) = Some r \<and> slot_result kv ts r"
    proof (rule less.hyps)
      fix h' assume h': "h' + ?n \<le> ?N" "?n > 0" "?N \<le> ahead ?N 0 h' + (tested + (?N - h))"
      then have "ahead ?N h h' + tested \<ge> ?N" using True less.prems(1) by (auto simp: ahead_def)
      then show "no_gap (cells kv) ?n h'" by (rule less.prems(2) [OF h'(1,2)])
    qed (use True ts less.prems(1) in auto)
    then show ?thesis using True by (subst slot_loop.simps) (simp add: Let_def)
  next
    case False
    obtain k where k: "scan_slot kv ts h 0 (\<lambda>s. cells_seq_pos_min s (cells kv)) = Some k" "k \<le> ?n"
      "\<forall>j < k. usable kv (ts ! j) (h + j)" "k < ?n \<longrightarrow> \<not> is_empty (h + k) (cells kv)"
      using scan_slot_total [OF kv, of h 0 ts "\<lambda>s. cells_seq_pos_min s (cells kv)"] ts(2) False by auto
    have step: "no_gap (cells kv) ?n h'"
      if "k < ?n" "h' + ?n \<le> ?N" "?N \<le> ahead ?N (h + (k + 1)) h' + (tested + (k + 1))" for h'
    proof (cases "h \<le> h' \<and> h' \<le> h + k")
      case True
      then have "h' + (h + k - h') = h + k" "h + k - h' < ?n" using that(1) by auto
      then show ?thesis using k(4) that(1) unfolding no_gap_def by metis
    next
      case f: False
      then have "ahead ?N h h' + tested \<ge> ?N" using that False by (auto simp: ahead_def split: if_splits)
      moreover have "?n > 0" using that(1) by linarith
      ultimately show ?thesis by (intro less.prems(2) [OF that(2)])
    qed
    show ?thesis
    proof (cases "k = ?n")
      case True
      then show ?thesis using False k by (subst slot_loop.simps) (auto simp: Let_def slot_result_def)
    next
      case kn: False
      show ?thesis
      proof (cases "tested + (k + 1) \<ge> ?N")
        case True
        have "no_gap (cells kv) ?n h'" if "h' + ?n \<le> ?N" for h' using step [OF _ that] kn k(2) True by simp
        then show ?thesis using False k kn True by (subst slot_loop.simps) (simp add: Let_def slot_result_def)
      next
        case t: False
        have "\<exists>r. slot_loop kv ts (h + (k + 1)) (tested + (k + 1)) = Some r \<and> slot_result kv ts r"
          by (rule less.hyps) (use kn k(2) False t step in auto)
        then show ?thesis using False k kn t by (subst slot_loop.simps) (simp add: Let_def)
      qed
    qed
  qed
qed

lemma find_slot_total:
  assumes kv: "slot_cache kv" and ts: "\<forall>t \<in> set (slot_tokens ub). snd t < LLAMA_MAX_PARALLEL_SEQUENCES"
  shows "\<exists>r. find_slot ub kv = Some r \<and> slot_result kv (slot_tokens ub) r"
proof (cases "u_n_tokens ub > cells_size (cells kv)")
  case True
  then show ?thesis by (auto simp: find_slot_def Let_def slot_result_def slot_tokens_def)
next
  case False
  have len: "length (slot_tokens ub) = u_n_tokens ub" by (simp add: slot_tokens_def)
  let ?h = "if head kv > get_used (cells kv) + 2 * u_n_tokens ub then 0 else head kv"
  have h: "?h \<le> cells_size (cells kv)" using kv by (simp add: slot_cache_def)
  have "\<exists>r. slot_loop kv (slot_tokens ub) ?h 0 = Some r \<and> slot_result kv (slot_tokens ub) r"
  proof (rule slot_loop_total [OF kv _ ts h])
    fix h' assume "h' + length (slot_tokens ub) \<le> cells_size (cells kv)" "length (slot_tokens ub) > 0"
      "ahead (cells_size (cells kv)) ?h h' + 0 \<ge> cells_size (cells kv)"
    then have "h' < cells_size (cells kv)" "ahead (cells_size (cells kv)) ?h h' \<ge> cells_size (cells kv)" by linarith+
    then have False using h unfolding ahead_def by (simp split: if_splits)
    then show "no_gap (cells kv) (length (slot_tokens ub)) h'" ..
  qed (use False len in simp)
  then show ?thesis using False by (simp add: find_slot_def Let_def)
qed

text \<open>
  C5: The search for a slot is safe and complete.  On a consistent cache the loop ends (the wrap-around
  included) and no assertion fails; a window that it returns lies inside the cache and every cell of it
  is empty, or holds a position of the token's own sequence that is not before the token, or is out of the
  sliding window for every position after the last one of its sequence; and when it gives up, no window
  of empty cells of the size of the micro-batch exists.
\<close>

theorem find_slot_safe_and_complete:
  assumes "slot_cache kv" "\<forall>t \<in> set (slot_tokens ub). snd t < LLAMA_MAX_PARALLEL_SEQUENCES"
  shows "\<exists>r. find_slot ub kv = Some r \<and>
    (case r of
       Some h \<Rightarrow> h + u_n_tokens ub \<le> cells_size (cells kv) \<and> (\<forall>i < u_n_tokens ub. usable kv (slot_tokens ub ! i) (h + i))
     | None \<Rightarrow> (\<forall>h. h + u_n_tokens ub \<le> cells_size (cells kv) \<longrightarrow> (\<exists>i < u_n_tokens ub. \<not> is_empty (h + i) (cells kv))))"
proof -
  have "length (slot_tokens ub) = u_n_tokens ub" by (simp add: slot_tokens_def)
  then show ?thesis using find_slot_total [OF assms] by (auto simp: slot_result_def no_gap_def split: option.splits)
qed

definition one_token_ubatch :: llama_ubatch where
  "one_token_ubatch = restored_ubatch 7 [6]"

lemma find_slot_safe_and_complete_witness:
  "\<exists>r. find_slot one_token_ubatch one_cell_cache = Some r \<and>
    (case r of Some h \<Rightarrow> h + 1 \<le> 3 \<and> usable one_cell_cache (6, 7) h | None \<Rightarrow> False)"
proof -
  have t: "slot_tokens one_token_ubatch = [(6, 7)]" "u_n_tokens one_token_ubatch = 1"
    by (simp_all add: slot_tokens_def one_token_ubatch_def restored_ubatch_def)
  have s: "cells_size (cells one_cell_cache) = 3" by (simp add: one_cell_cache_def cells_size_def one_cell_fields)
  have "slot_cache one_cell_cache"
    using cells_reach_ok [OF one_cell_reach] by (simp add: slot_cache_def s) (simp add: one_cell_cache_def)
  from find_slot_safe_and_complete [OF this, of one_token_ubatch]
  obtain r where r: "find_slot one_token_ubatch one_cell_cache = Some r"
    "case r of Some h \<Rightarrow> h + 1 \<le> 3 \<and> usable one_cell_cache (6, 7) h
     | None \<Rightarrow> (\<forall>h. h + 1 \<le> 3 \<longrightarrow> (\<exists>i < 1. \<not> is_empty (h + i) (cells one_cell_cache)))"
    by (auto simp: t s LLAMA_MAX_PARALLEL_SEQUENCES_def split: option.splits)
  have "is_empty 0 (cells one_cell_cache)" by (simp add: is_empty_def one_cell_cache_def one_cell_fields)
  then show ?thesis using r by (cases r) auto
qed

end
