(* ===== verification/Kv_Prepare.thy ===== *)
theory Kv_Prepare
  imports Kv_Slot
begin

text \<open>
  Placing micro-batches and undoing it: \<open>prepare\<close> leaves the cache as it found it and returns a plan
  that can be carried out.  A consistent state is determined by the contents of its cells, so that both the
  placing and the restoring are followed cell by cell.
\<close>

subsection \<open>Contents determine a consistent state\<close>

lemma contents_determine:
  assumes "cells_ok c" "cells_ok c'" "pos c = pos c'" "seqs c = seqs c'" "shift c = shift c'" "has_shift c = has_shift c'"
  shows "c = c'"
proof -
  have "seq_pos c = seq_pos c'"
    using assms(1-4) by (auto simp: cells_ok_def tracked_def positions_def)
  moreover have "used c = used c'" using assms(1-4) by (auto simp: cells_ok_def cells_wf_def)
  ultimately show ?thesis using assms(3-6) by simp
qed

definition content_put :: "nat \<Rightarrow> int \<Rightarrow> nat set \<Rightarrow> kv_cells \<Rightarrow> kv_cells \<Rightarrow> bool" where
  "content_put i p S c c' \<longleftrightarrow> cells_ok c' \<and> pos c' = (pos c)[i := p] \<and> seqs c' = (seqs c)[i := S] \<and>
     shift c' = shift c \<and> has_shift c' = has_shift c"

lemma content_putI:
  assumes "cells_ok c" "i < length (pos c)" "cell_put i p S c c'" "shift c' = shift c" "has_shift c' = has_shift c"
    "p \<ge> -1" "S \<subseteq> {..<LLAMA_MAX_PARALLEL_SEQUENCES}" "p = -1 \<Longrightarrow> S = {}" "free_for c i S p"
  shows "content_put i p S c c'"
  using assms cell_put_ok [OF assms(1-3,6-9)] by (auto simp: content_put_def cell_put_def)

lemma content_put_trans:
  "content_put i p S c c1 \<Longrightarrow> content_put i q T c1 c2 \<Longrightarrow> content_put i q T c c2"
  by (auto simp: content_put_def)

lemma rm_content:
  assumes "cells_ok c" "cells_rm i c = Some c'"
  shows "content_put i (-1) {} c c'"
  by (rule content_putI [OF assms(1) rm_put [OF assms]])
    (use assms(2) in \<open>auto simp: cells_rm_def Let_def seq_pos_rm_def free_empty split: if_splits\<close>)

lemma pos_set_content:
  assumes "cells_ok c" "pos_set i p c = Some c'" "p \<ge> 0"
  shows "content_put i p {} c c'"
  by (rule content_putI [OF assms(1) pos_set_put(1,2) [OF assms(1,2)]])
    (use assms(2,3) in \<open>auto simp: pos_set_def free_empty split: if_splits\<close>)

lemma seq_add_content:
  assumes "cells_ok c" "cells_seq_add i s c = Some c'" "free_for c i {s} (pos c ! i)"
  shows "content_put i (pos c ! i) (insert s (seqs c ! i)) c c'"
proof -
  note p = seq_add_put [OF assms(1,2)]
  note cell = ok_cell [OF assms(1) p(1)]
  show ?thesis
    by (rule content_putI [OF assms(1) p(1,5)])
      (use assms(2,3) p cell in \<open>auto simp: cells_seq_add_def free_for_def split: if_splits\<close>)
qed

subsection \<open>Placing one token\<close>

definition tok_list :: "llama_ubatch \<Rightarrow> nat \<Rightarrow> nat list" where
  "tok_list ub k = map ((!) (u_seq_id ub ! k)) [0 ..< u_n_seq_id ub ! k]"

lemma free_for_put:
  assumes "content_put i q T c c'" "free_for c i S p"
  shows "free_for c' i S p"
  using assms unfolding free_for_def content_put_def by auto

lemma seq_adds_content:
  assumes "cells_ok c" "i < length (pos c)" "pos c ! i = p" "p \<ge> 0" "distinct L" "set L \<inter> seqs c ! i = {}"
    "set L \<subseteq> {..<LLAMA_MAX_PARALLEL_SEQUENCES}" "free_for c i (set L) p"
  shows "\<exists>c'. fold_opt (cells_seq_add i) L c = Some c' \<and> content_put i p (set L \<union> seqs c ! i) c c'"
  using assms
proof (induction L arbitrary: c)
  case Nil
  then show ?case using ok_cell(4) [OF Nil(1,2)] by (auto simp: content_put_def)
next
  case (Cons s L)
  note cell = ok_cell [OF Cons.prems(1,2)]
  have "cells_seq_add i s c \<noteq> None" using Cons.prems by (auto simp: cells_seq_add_def)
  then obtain c1 where c1: "cells_seq_add i s c = Some c1" by auto
  have "free_for c i {s} (pos c ! i)" using Cons.prems(3,8) by (auto simp: free_for_def)
  from seq_add_content [OF Cons.prems(1) c1 this] have p1: "content_put i p (insert s (seqs c ! i)) c c1"
    using Cons.prems(3) by simp
  then have at: "cells_ok c1" "length (pos c1) = length (pos c)" "pos c1 ! i = p" "seqs c1 ! i = insert s (seqs c ! i)"
    using Cons.prems(2) cell(4) by (auto simp: content_put_def)
  have "free_for c1 i (set L) p" by (rule free_for_put [OF p1]) (use Cons.prems(8) in \<open>auto simp: free_for_def\<close>)
  then obtain c' where "fold_opt (cells_seq_add i) L c1 = Some c'" "content_put i p (set L \<union> seqs c1 ! i) c1 c'"
    using Cons.IH [OF at(1) _ at(3) Cons.prems(4)] Cons.prems(2,5-7) at(2,4) by auto
  then show ?case using c1 content_put_trans [OF p1, of p] at(4) by (auto simp: Un_insert_right)
qed

lemma fold_opt_map: "fold_opt f (map g xs) s = fold_opt (\<lambda>x. f (g x)) xs s"
  by (induction xs arbitrary: s) (auto split: option.split)

lemma place_token_content:
  assumes ok: "cells_ok c" and i: "h + k < length (pos c)" and p: "u_pos ub ! k \<ge> 0"
    and L: "distinct (tok_list ub k)" "set (tok_list ub k) \<subseteq> {..<LLAMA_MAX_PARALLEL_SEQUENCES}"
      "free_for c (h + k) (set (tok_list ub k)) (u_pos ub ! k)"
  shows "\<exists>c'. place_token h ub k c = Some c' \<and> content_put (h + k) (u_pos ub ! k) (set (tok_list ub k)) c c'"
proof -
  let ?i = "h + k"
  note cell = ok_cell [OF ok i]
  obtain c1 where c1: "(if \<not> is_empty ?i c then cells_rm ?i c else Some c) = Some c1" "content_put ?i (-1) {} c c1"
  proof (cases "is_empty ?i c")
    case True
    then have "content_put ?i (-1) {} c c"
      using cell ok i by (auto simp: is_empty_def content_put_def) (metis list_update_id)+
    with True show ?thesis by (intro that [of c]) auto
  next
    case False
    then have "cells_rm ?i c \<noteq> None" using i by (simp add: cells_rm_def is_empty_def Let_def)
    then obtain c1 where "cells_rm ?i c = Some c1" by auto
    with False rm_content [OF ok this] show ?thesis by (intro that [of c1]) auto
  qed
  then have a1: "cells_ok c1" "length (pos c1) = length (pos c)" "pos c1 ! ?i = -1" "seqs c1 ! ?i = {}"
    using i cell(4) by (auto simp: content_put_def)
  have "pos_set ?i (u_pos ub ! k) c1 \<noteq> None" using a1 i by (simp add: pos_set_def)
  then obtain c2 where c2: "pos_set ?i (u_pos ub ! k) c1 = Some c2" by auto
  note p2 = pos_set_content [OF a1(1) c2 p]
  have a2: "cells_ok c2" "?i < length (pos c2)" "pos c2 ! ?i = u_pos ub ! k" "seqs c2 ! ?i = {}"
    using p2 a1(2) i cell(4) c1(2) by (auto simp: content_put_def)
  have "free_for c2 ?i (set (tok_list ub k)) (u_pos ub ! k)"
    by (rule free_for_put [OF content_put_trans [OF c1(2) p2] L(3)])
  from seq_adds_content [OF a2(1-3) p L(1) _ L(2) this] a2(4)
  obtain c3 where c3: "fold_opt (cells_seq_add ?i) (tok_list ub k) c2 = Some c3"
    "content_put ?i (u_pos ub ! k) (set (tok_list ub k)) c2 c3" by auto
  have "place_token h ub k c = Some c3"
    using c1(1) c2 c3(1) by (simp add: place_token_def tok_list_def fold_opt_map)
  moreover have "content_put ?i (u_pos ub ! k) (set (tok_list ub k)) c c3"
    using content_put_trans [OF content_put_trans [OF c1(2) p2] c3(2)] .
  ultimately show ?thesis by blast
qed

subsection \<open>Placing and restoring a micro-batch\<close>

definition cache_entries :: "kv_cells \<Rightarrow> (nat \<times> int) set" where
  "cache_entries c = {(s, pos c ! i) | i s. i < length (pos c) \<and> s \<in> seqs c ! i}"

definition tok_entries :: "llama_ubatch \<Rightarrow> (nat \<times> int) set" where
  "tok_entries ub = {(s, u_pos ub ! k) | k s. k < u_n_tokens ub \<and> s \<in> set (tok_list ub k)}"

text \<open>A micro-batch that the caller may submit: valid positions and sequences, no (sequence, position) twice.\<close>

definition ub_ok :: "llama_ubatch \<Rightarrow> bool" where
  "ub_ok ub \<longleftrightarrow>
     (\<forall>k < u_n_tokens ub. u_pos ub ! k \<ge> 0 \<and> distinct (tok_list ub k) \<and> set (tok_list ub k) \<subseteq> {..<LLAMA_MAX_PARALLEL_SEQUENCES} \<and>
        hd (u_seq_id ub ! k) < LLAMA_MAX_PARALLEL_SEQUENCES) \<and>
     (\<forall>k < u_n_tokens ub. \<forall>l < u_n_tokens ub. k \<noteq> l \<longrightarrow> set (tok_list ub k) \<inter> set (tok_list ub l) \<noteq> {} \<longrightarrow> u_pos ub ! k \<noteq> u_pos ub ! l)"

text \<open>\<open>mixed c0 h ub a b c\<close>: the cells of \<open>c\<close> from \<open>h + a\<close> to before \<open>h + b\<close> hold the tokens of the
  micro-batch, the others are those of \<open>c0\<close>.\<close>

definition mixed :: "kv_cells \<Rightarrow> nat \<Rightarrow> llama_ubatch \<Rightarrow> nat \<Rightarrow> nat \<Rightarrow> kv_cells \<Rightarrow> bool" where
  "mixed c0 h ub a b c \<longleftrightarrow> cells_ok c \<and> length (pos c) = length (pos c0) \<and> shift c = shift c0 \<and> has_shift c = has_shift c0 \<and>
     (\<forall>i < length (pos c0). pos c ! i = (if h + a \<le> i \<and> i < h + b then u_pos ub ! (i - h) else pos c0 ! i) \<and>
        seqs c ! i = (if h + a \<le> i \<and> i < h + b then set (tok_list ub (i - h)) else seqs c0 ! i))"

lemma mixed_put:
  assumes m: "mixed c0 h ub a b c" and i: "i < length (pos c0)" and put: "content_put i p S c c'"
  shows "length (pos c') = length (pos c0)" "shift c' = shift c0" "has_shift c' = has_shift c0" "cells_ok c'"
    "\<And>j. j < length (pos c0) \<Longrightarrow> pos c' ! j = (if j = i then p else pos c ! j) \<and> seqs c' ! j = (if j = i then S else seqs c ! j)"
proof -
  have "length (seqs c) = length (pos c)" using m by (auto simp: mixed_def cells_ok_def cells_wf_def)
  then show "length (pos c') = length (pos c0)" "shift c' = shift c0" "has_shift c' = has_shift c0" "cells_ok c'"
    "\<And>j. j < length (pos c0) \<Longrightarrow> pos c' ! j = (if j = i then p else pos c ! j) \<and> seqs c' ! j = (if j = i then S else seqs c ! j)"
    using m put i by (auto simp: mixed_def content_put_def nth_list_update)
qed

lemma place_all:
  assumes c0: "cells_ok c0" and fit: "h + u_n_tokens ub \<le> length (pos c0)" and ub: "ub_ok ub"
    and fresh: "tok_entries ub \<inter> cache_entries c0 = {}"
  shows "\<exists>c. fold_opt (place_token h ub) [0 ..< u_n_tokens ub] c0 = Some c \<and> mixed c0 h ub 0 (u_n_tokens ub) c"
proof (rule fold_opt_upt_inv [where P = "\<lambda>k. mixed c0 h ub 0 k"])
  show "mixed c0 h ub 0 0 c0" using c0 by (auto simp: mixed_def)
next
  fix k c assume k: "k < u_n_tokens ub" and m: "mixed c0 h ub 0 k c"
  have i: "h + k < length (pos c0)" using k fit by simp
  have tok: "u_pos ub ! k \<ge> 0" "distinct (tok_list ub k)" "set (tok_list ub k) \<subseteq> {..<LLAMA_MAX_PARALLEL_SEQUENCES}"
    using ub k by (auto simp: ub_ok_def)
  have "free_for c (h + k) (set (tok_list ub k)) (u_pos ub ! k)"
  proof (unfold free_for_def, intro allI impI)
    fix j assume j: "j < length (pos c)" "j \<noteq> h + k" "seqs c ! j \<inter> set (tok_list ub k) \<noteq> {}"
    show "pos c ! j \<noteq> u_pos ub ! k"
    proof (cases "h \<le> j \<and> j < h + k")
      case True
      then have "pos c ! j = u_pos ub ! (j - h)" "seqs c ! j = set (tok_list ub (j - h))" "j - h < u_n_tokens ub" "j - h \<noteq> k"
        using m k fit j(1) by (auto simp: mixed_def)
      then show ?thesis using ub k j(3) by (auto simp: ub_ok_def)
    next
      case False
      then have e: "pos c ! j = pos c0 ! j" "seqs c ! j = seqs c0 ! j" "j < length (pos c0)" using m j(1) by (auto simp: mixed_def)
      obtain s where s: "s \<in> seqs c0 ! j" "s \<in> set (tok_list ub k)" using j(3) e by auto
      have "(s, pos c0 ! j) \<in> cache_entries c0" "(s, u_pos ub ! k) \<in> tok_entries ub"
        using s e(3) k by (auto simp: cache_entries_def tok_entries_def)
      then show ?thesis using fresh e(1) by auto
    qed
  qed
  with m i tok obtain c' where c': "place_token h ub k c = Some c'"
    "content_put (h + k) (u_pos ub ! k) (set (tok_list ub k)) c c'"
    using place_token_content [of c h k ub] by (auto simp: mixed_def)
  then show "\<exists>c'. place_token h ub k c = Some c' \<and> mixed c0 h ub 0 (Suc k) c'"
    using mixed_put [OF m i c'(2)] m by (intro exI [of _ c']) (auto simp: mixed_def)
qed

lemma set_one_content:
  assumes ok: "cells_ok c" and i: "i + j < length (pos c)" and z: "shift c ! (i + j) = 0"
    and S: "pos other ! j \<ge> -1" "seqs other ! j \<subseteq> {..<LLAMA_MAX_PARALLEL_SEQUENCES}" "pos other ! j = -1 \<Longrightarrow> seqs other ! j = {}"
      "free_for c (i + j) (seqs other ! j) (pos other ! j)"
  shows "\<exists>c'. set_one other i j c = Some c' \<and> content_put (i + j) (pos other ! j) (seqs other ! j) c c'"
proof -
  note cell = ok_cell [OF ok i]
  have "set_one other i j c \<noteq> None"
    using z by (cases "pos c ! (i + j) = -1"; cases "pos other ! j = -1")
      (simp_all add: set_one_def Let_def seq_pos_rm_def seq_pos_add_def)
  then obtain c' where c': "set_one other i j c = Some c'" by auto
  have "content_put (i + j) (pos other ! j) (seqs other ! j) c c'"
  proof (rule content_putI [OF ok i])
    show "cell_put (i + j) (pos other ! j) (seqs other ! j) c c'"
      using c' cell i S(1-3) below_max [OF ok i]
      by (auto simp: set_one_def Let_def seq_pos_rm_def seq_pos_add_def cell_put_def insert_absorb split: if_splits)
    show "shift c' = shift c" "has_shift c' = has_shift c"
      using c' by (auto simp: set_one_def Let_def seq_pos_rm_def seq_pos_add_def split: if_splits)
  qed (use S in auto)
  with c' show ?thesis by blast
qed

lemma restore_all:
  assumes c0: "cells_ok c0" and fit: "h + u_n_tokens ub \<le> length (pos c0)" and z: "\<forall>i < length (pos c0). shift c0 ! i = 0"
    and fresh: "tok_entries ub \<inter> cache_entries c0 = {}"
    and old: "cells_cp h (u_n_tokens ub) c0 = Some old" and m: "mixed c0 h ub 0 (u_n_tokens ub) c"
  shows "cells_set h old c = Some c0"
proof -
  let ?n = "u_n_tokens ub"
  have old': "pos old = take ?n (drop h (pos c0))" "seqs old = take ?n (drop h (seqs c0))"
    using old by (auto simp: cells_cp_def split: if_splits)
  then have len: "length (pos old) = ?n" using fit by simp
  have at: "pos old ! j = pos c0 ! (h + j)" "seqs old ! j = seqs c0 ! (h + j)" if "j < ?n" for j
    using that fit old' c0 by (auto simp: cells_ok_def cells_wf_def)
  have "\<exists>c'. fold_opt (set_one old h) [0 ..< ?n] c = Some c' \<and> mixed c0 h ub ?n ?n c'"
  proof (rule fold_opt_upt_inv [where P = "\<lambda>k. mixed c0 h ub k ?n"])
    fix k c1 assume k: "k < ?n" and m1: "mixed c0 h ub k ?n c1"
    have i: "h + k < length (pos c0)" using k fit by simp
    note cell0 = ok_cell [OF c0 i]
    have "free_for c1 (h + k) (seqs c0 ! (h + k)) (pos c0 ! (h + k))"
    proof (unfold free_for_def, intro allI impI)
      fix j assume j: "j < length (pos c1)" "j \<noteq> h + k" "seqs c1 ! j \<inter> seqs c0 ! (h + k) \<noteq> {}"
      show "pos c1 ! j \<noteq> pos c0 ! (h + k)"
      proof (cases "h + k \<le> j \<and> j < h + ?n")
        case True
        then have e: "pos c1 ! j = u_pos ub ! (j - h)" "seqs c1 ! j = set (tok_list ub (j - h))" "j - h < ?n"
          using m1 j(1) by (auto simp: mixed_def)
        obtain s where s: "s \<in> set (tok_list ub (j - h))" "s \<in> seqs c0 ! (h + k)" using j(3) e by auto
        have "(s, pos c0 ! (h + k)) \<in> cache_entries c0" "(s, u_pos ub ! (j - h)) \<in> tok_entries ub"
          using s i e(3) by (auto simp: cache_entries_def tok_entries_def)
        then show ?thesis using fresh e(1) by auto
      next
        case False
        then have "pos c1 ! j = pos c0 ! j" "seqs c1 ! j = seqs c0 ! j" "j < length (pos c0)" using m1 j(1) by (auto simp: mixed_def)
        then show ?thesis using cell0(7) j(2,3) by (auto simp: free_for_def)
      qed
    qed
    moreover have "shift c1 ! (h + k) = 0" "cells_ok c1" "h + k < length (pos c1)" using m1 z i by (auto simp: mixed_def)
    ultimately obtain c' where c': "set_one old h k c1 = Some c'" "content_put (h + k) (pos c0 ! (h + k)) (seqs c0 ! (h + k)) c1 c'"
      using set_one_content [of c1 h k old] at [OF k] cell0 by auto
    then show "\<exists>c'. set_one old h k c1 = Some c' \<and> mixed c0 h ub (Suc k) ?n c'"
      using mixed_put [OF m1 i c'(2)] m1 by (intro exI [of _ c']) (auto simp: mixed_def)
  qed (rule m)
  then obtain c' where c': "fold_opt (set_one old h) [0 ..< ?n] c = Some c'" "mixed c0 h ub ?n ?n c'" by blast
  have "pos c' ! i = pos c0 ! i \<and> seqs c' ! i = seqs c0 ! i" if "i < length (pos c0)" for i
    using c'(2) that by (auto simp: mixed_def)
  moreover have "length (pos c') = length (pos c0)" "length (seqs c') = length (pos c0)" "length (seqs c0) = length (pos c0)"
    using c'(2) c0 by (auto simp: mixed_def cells_ok_def cells_wf_def)
  ultimately have "pos c' = pos c0" "seqs c' = seqs c0" by (simp_all add: list_eq_iff_nth_eq)
  then have "c' = c0" using c'(2) c0 by (intro contents_determine) (auto simp: mixed_def)
  then show ?thesis using c'(1) len fit m by (auto simp: cells_set_def mixed_def)
qed

subsection \<open>The whole plan\<close>

text \<open>Carrying out the plan as the states of the batch do: each micro-batch at its head.\<close>

fun apply_plan :: "(nat \<times> llama_ubatch) list \<Rightarrow> kv_cache \<Rightarrow> kv_cache option" where
  "apply_plan [] kv = Some kv"
| "apply_plan ((h, ub) # rest) kv = Option.bind (apply_ubatch h ub kv) (apply_plan rest)"

text \<open>\<open>follows hs ubs kv\<close>: the heads \<open>hs\<close> are those that \<open>find_slot\<close> returns for the first micro-batches,
  each on the cache in which the ones before it have been placed.\<close>

definition follows :: "nat list \<Rightarrow> llama_ubatch list \<Rightarrow> kv_cache \<Rightarrow> bool" where
  "follows hs ubs kv \<longleftrightarrow> length hs \<le> length ubs \<and>
     (\<forall>k < length hs. \<exists>kv'. apply_plan (zip (take k hs) ubs) kv = Some kv' \<and> find_slot (ubs ! k) kv' = Some (Some (hs ! k)))"

lemma follows_Nil: "follows [] ubs kv" by (simp add: follows_def)

lemma follows_Cons:
  assumes "find_slot ub kv = Some (Some h)" "apply_ubatch h ub kv = Some kv1" "follows hs ubs kv1"
  shows "follows (h # hs) (ub # ubs) kv"
  using assms by (auto simp: follows_def nth_Cons' less_Suc_eq_0_disj)

definition settled :: "kv_cells \<Rightarrow> bool" where
  "settled c \<longleftrightarrow> (\<forall>i < cells_size c. shift c ! i = 0)"

lemma mixed_entries:
  assumes "mixed c0 h ub 0 n c" "n \<le> u_n_tokens ub"
  shows "cache_entries c \<subseteq> cache_entries c0 \<union> tok_entries ub"
proof
  fix e assume "e \<in> cache_entries c"
  then obtain i s where i: "i < length (pos c)" "s \<in> seqs c ! i" "e = (s, pos c ! i)" by (auto simp: cache_entries_def)
  show "e \<in> cache_entries c0 \<union> tok_entries ub"
  proof (cases "h \<le> i \<and> i < h + n")
    case True
    then have "s \<in> set (tok_list ub (i - h))" "e = (s, u_pos ub ! (i - h))" "i - h < u_n_tokens ub"
      using assms i by (auto simp: mixed_def)
    then show ?thesis by (auto simp: tok_entries_def)
  next
    case False
    then have "s \<in> seqs c0 ! i" "e = (s, pos c0 ! i)" "i < length (pos c0)" using assms(1) i by (auto simp: mixed_def)
    then show ?thesis by (auto simp: cache_entries_def)
  qed
qed

definition plan_outcome :: "llama_ubatch list \<Rightarrow> kv_cache \<Rightarrow> nat list option \<Rightarrow> bool" where
  "plan_outcome ubs kv res = (case res of
     Some hs \<Rightarrow> length hs = length ubs \<and> follows hs ubs kv \<and> (\<exists>kv'. apply_plan (zip hs ubs) kv = Some kv' \<and> slot_cache kv')
   | None \<Rightarrow> (\<exists>gs kv'. length gs < length ubs \<and> follows gs ubs kv \<and> apply_plan (zip gs ubs) kv = Some kv' \<and>
       find_slot (ubs ! length gs) kv' = Some None \<and> slot_result kv' (slot_tokens (ubs ! length gs)) None))"

lemma plan_outcome_Cons:
  assumes f: "find_slot ub kv = Some (Some h)" and a: "apply_ubatch h ub kv = Some kv1"
    and o: "plan_outcome ubs kv1 res"
  shows "plan_outcome (ub # ubs) kv (map_option ((#) h) res)"
proof (cases res)
  case None
  then obtain gs kv' where "length gs < length ubs" "follows gs ubs kv1" "apply_plan (zip gs ubs) kv1 = Some kv'"
    "find_slot (ubs ! length gs) kv' = Some None" "slot_result kv' (slot_tokens (ubs ! length gs)) None"
    using o by (auto simp: plan_outcome_def)
  then show ?thesis using None follows_Cons [OF f a] a
    by (auto simp: plan_outcome_def intro!: exI [of _ "h # gs"])
next
  case (Some hs)
  then show ?thesis using o follows_Cons [OF f a] a by (auto simp: plan_outcome_def)
qed

lemma prepare_loop_restores:
  assumes "slot_cache kv" "settled (cells kv)" "\<forall>ub \<in> set ubs. ub_ok ub \<and> tok_entries ub \<inter> cache_entries (cells kv) = {}"
    and "sorted_wrt (\<lambda>u v. tok_entries u \<inter> tok_entries v = {}) ubs"
  shows "\<exists>res. prepare_loop ubs kv = Some (res, kv) \<and> plan_outcome ubs kv res"
  using assms
proof (induction ubs arbitrary: kv)
  case (Cons ub ubs)
  let ?n = "u_n_tokens ub" and ?c = "cells kv"
  have ub: "ub_ok ub" "tok_entries ub \<inter> cache_entries ?c = {}" using Cons.prems(3) by auto
  have ok: "cells_ok ?c" using Cons.prems(1) by (simp add: slot_cache_def)
  have "\<forall>t \<in> set (slot_tokens ub). snd t < LLAMA_MAX_PARALLEL_SEQUENCES" using ub(1) by (auto simp: slot_tokens_def ub_ok_def)
  from find_slot_total [OF Cons.prems(1) this] obtain r where r: "find_slot ub kv = Some r" "slot_result kv (slot_tokens ub) r" by blast
  show ?case
  proof (cases r)
    case None
    then have "plan_outcome (ub # ubs) kv None"
      using r by (auto simp: plan_outcome_def follows_Nil intro!: exI [of _ "[]"])
    then show ?thesis using r(1) None by simp
  next
    case (Some h)
    have fit: "h + ?n \<le> length (pos ?c)" using r(2) Some by (simp add: slot_result_def slot_tokens_def cells_size_def)
    have z: "\<forall>i < length (pos ?c). shift ?c ! i = 0" using Cons.prems(2) by (simp add: settled_def cells_size_def)
    have "cells_cp h ?n ?c \<noteq> None" using fit z by (auto simp: cells_cp_def)
    then obtain old where old: "cells_cp h ?n ?c = Some old" by auto
    obtain c where c: "fold_opt (place_token h ub) [0 ..< ?n] ?c = Some c" "mixed ?c h ub 0 ?n c"
      using place_all [OF ok fit ub] by blast
    define kv1 where "kv1 = kv\<lparr>cells := c, head := h + ?n\<rparr>"
    have a: "apply_ubatch h ub kv = Some kv1" using c(1) by (simp add: apply_ubatch_def kv1_def)
    have s1: "slot_cache kv1" using Cons.prems(1) c(2) fit by (auto simp: slot_cache_def kv1_def mixed_def cells_size_def)
    have s2: "settled (cells kv1)" using Cons.prems(2) c(2) by (simp add: settled_def kv1_def mixed_def cells_size_def)
    have "cache_entries c \<subseteq> cache_entries ?c \<union> tok_entries ub" by (rule mixed_entries [OF c(2)]) simp
    moreover have "ub_ok u \<and> tok_entries u \<inter> cache_entries ?c = {} \<and> tok_entries ub \<inter> tok_entries u = {}" if "u \<in> set ubs" for u
      using that Cons.prems(3,4) by auto
    moreover have "cells kv1 = c" by (simp add: kv1_def)
    ultimately have s3: "\<forall>u \<in> set ubs. ub_ok u \<and> tok_entries u \<inter> cache_entries (cells kv1) = {}"
      by blast
    obtain res where res: "prepare_loop ubs kv1 = Some (res, kv1)" "plan_outcome ubs kv1 res"
      using Cons.IH [OF s1 s2 s3] Cons.prems(4) by auto
    have "cells_set h old c = Some ?c" by (rule restore_all [OF ok fit z ub(2) old c(2)])
    then have "prepare_loop (ub # ubs) kv = Some (map_option ((#) h) res, kv)"
      using r(1) Some old a res(1) by (simp add: kv1_def)
    moreover have "plan_outcome (ub # ubs) kv (map_option ((#) h) res)"
      by (rule plan_outcome_Cons [OF _ a res(2)]) (use r(1) Some in simp)
    ultimately show ?thesis by blast
  qed
qed (simp add: plan_outcome_def follows_Nil)

text \<open>
  C19: Preparing a batch places it or shows that it does not fit, and leaves the cache as it was.  For a
  consistent cache without pending shifts and micro-batches whose (sequence, position) pairs are new and
  pairwise different, \<open>prepare\<close> ends without a failed assertion and every cell, tracked position and the
  head are restored.  Either the plan has a head for every micro-batch, each the one that
  \<open>find_slot\<close> returns after the micro-batches before it have been placed, and \<open>apply_ubatch\<close> carries the
  whole plan out; or the plan is empty and there is a micro-batch for which, once those before it have
  been placed by \<open>find_slot\<close>'s heads, \<open>find_slot\<close> returns no window and no window of empty cells exists.
\<close>

theorem prepare_restores_cache:
  assumes "slot_cache kv" "settled (cells kv)" "\<forall>ub \<in> set ubs. ub_ok ub \<and> tok_entries ub \<inter> cache_entries (cells kv) = {}"
    and "sorted_wrt (\<lambda>u v. tok_entries u \<inter> tok_entries v = {}) ubs"
  shows "\<exists>hs. prepare ubs kv = Some (hs, kv) \<and>
    (length hs = length ubs \<and> follows hs ubs kv \<and> (\<exists>kv'. apply_plan (zip hs ubs) kv = Some kv' \<and> slot_cache kv') \<or>
     hs = [] \<and> (\<exists>gs kv'. length gs < length ubs \<and> follows gs ubs kv \<and> apply_plan (zip gs ubs) kv = Some kv' \<and>
       find_slot (ubs ! length gs) kv' = Some None \<and>
       (\<forall>h. h + u_n_tokens (ubs ! length gs) \<le> cells_size (cells kv') \<longrightarrow>
         (\<exists>i < u_n_tokens (ubs ! length gs). \<not> is_empty (h + i) (cells kv')))))"
proof -
  have len: "length (slot_tokens ub) = u_n_tokens ub" for ub by (simp add: slot_tokens_def)
  obtain res where "prepare_loop ubs kv = Some (res, kv)" "plan_outcome ubs kv res"
    using prepare_loop_restores [OF assms] by blast
  then show ?thesis
    by (cases res) (auto simp: prepare_def plan_outcome_def slot_result_def no_gap_def len)
qed

lemma prepare_restores_cache_witness:
  "\<exists>h kv'. prepare [one_token_ubatch] one_cell_cache = Some ([h], one_cell_cache) \<and>
     apply_plan [(h, one_token_ubatch)] one_cell_cache = Some kv'"
proof -
  have size: "cells_size one_cell = 3" by (simp add: cells_size_def one_cell_fields)
  have "slot_cache one_cell_cache"
    using cells_reach_ok [OF one_cell_reach] by (simp add: slot_cache_def one_cell_cache_def size)
  moreover have "settled (cells one_cell_cache)"
    by (auto simp: settled_def one_cell_cache_def size one_cell_fields numeral_3_eq_3 less_Suc_eq)
  moreover have i3: "i < length (pos one_cell) \<longleftrightarrow> i = 0 \<or> i = 1 \<or> i = 2" for i by (auto simp: one_cell_fields)
  have "cache_entries one_cell = {(s, pos one_cell ! 0) | s. s \<in> seqs one_cell ! 0} \<union> {(s, pos one_cell ! 1) | s. s \<in> seqs one_cell ! 1} \<union>
      {(s, pos one_cell ! 2) | s. s \<in> seqs one_cell ! 2}"
    unfolding cache_entries_def i3 by blast
  then have "cache_entries one_cell = {(7, 5)}" by (simp add: one_cell_fields)
  then have "ub_ok one_token_ubatch \<and> tok_entries one_token_ubatch \<inter> cache_entries (cells one_cell_cache) = {}"
    by (auto simp: ub_ok_def tok_entries_def one_token_ubatch_def restored_ubatch_def tok_list_def one_cell_cache_def
      LLAMA_MAX_PARALLEL_SEQUENCES_def)
  ultimately obtain hs where hs: "prepare [one_token_ubatch] one_cell_cache = Some (hs, one_cell_cache)"
    "length hs = 1 \<and> (\<exists>kv'. apply_plan (zip hs [one_token_ubatch]) one_cell_cache = Some kv') \<or>
     (\<forall>h. h + u_n_tokens one_token_ubatch \<le> cells_size (cells one_cell_cache) \<longrightarrow>
       (\<exists>i < u_n_tokens one_token_ubatch. \<not> is_empty (h + i) (cells one_cell_cache)))"
    using prepare_restores_cache [of one_cell_cache "[one_token_ubatch]"] by auto
  have "u_n_tokens one_token_ubatch = 1" "cells_size (cells one_cell_cache) = 3" "is_empty 0 (cells one_cell_cache)"
    by (simp_all add: one_token_ubatch_def restored_ubatch_def one_cell_cache_def size is_empty_def one_cell_fields)
  then have "length hs = 1" using hs(2) by force
  then obtain h where "hs = [h]" by (cases hs) auto
  then show ?thesis using hs \<open>length hs = 1\<close> \<open>u_n_tokens one_token_ubatch = 1\<close> \<open>cells_size (cells one_cell_cache) = 3\<close>
      \<open>is_empty 0 (cells one_cell_cache)\<close> by force
qed

end
