(* ===== verification/Kv_State.thy ===== *)
theory Kv_State
  imports Kv_Prepare
begin

text \<open>
  Saving and restoring the cache: the tensor data of the layers and the entry points \<open>state_write\<close> and
  \<open>state_read\<close>.  The ranges that are written are exactly the cells in use, and reading back what was
  written fills the first cells of the other cache with the same contents in the same order, metadata,
  key rows and value rows.
\<close>

subsection \<open>The tensor data\<close>

text \<open>
  A layer of the cache: the types of its key and value tensors, the numbers of elements of a row
  (\<open>n_embd_k_gqa\<close> and \<open>n_embd_v_gqa\<close> of the layer with the recurrent part added) and the bytes of the tensors.
  The sizes of the types are those of the table of \<open>ggml\<close>, a parameter.
\<close>

record kv_layer =
  lk_type :: int
  lk_embd :: nat
  lv_type :: int
  lv_embd :: nat
  lk_data :: "int list"
  lv_data :: "int list"

record kv_tensors =
  kt_v_trans :: bool
  kt_layers :: "kv_layer list"

record ggml_traits =
  type_size :: "int \<Rightarrow> nat"
  blck_size :: "int \<Rightarrow> nat"

definition ggml_row_size :: "ggml_traits \<Rightarrow> int \<Rightarrow> nat \<Rightarrow> nat" where
  "ggml_row_size tr ty ne = type_size tr ty * ne div blck_size tr ty"

definition tensor_get :: "int list \<Rightarrow> nat \<Rightarrow> nat \<Rightarrow> int list option" where
  "tensor_get t off n = (if n = 0 then Some [] else if off + n \<le> length t then Some (take n (drop off t)) else None)"

definition tensor_set :: "int list \<Rightarrow> nat \<Rightarrow> int list \<Rightarrow> int list option" where
  "tensor_set t off bs = (if bs = [] then Some t
     else if off + length bs \<le> length t then Some (take off t @ bs @ drop (off + length bs) t) else None)"

text \<open>Writing.\<close>

definition write_ranges :: "int list \<Rightarrow> nat \<Rightarrow> nat \<Rightarrow> (nat \<times> nat) list \<Rightarrow> int list option" where
  "write_ranges t off sz ranges =
     map_option concat (collect_opt (map (\<lambda>(a, b). tensor_get t (off + a * sz) ((b - a) * sz)) ranges))"

definition write_k :: "ggml_traits \<Rightarrow> (nat \<times> nat) list \<Rightarrow> kv_layer \<Rightarrow> int list option" where
  "write_k tr ranges l =
     (let row = ggml_row_size tr (lk_type l) (lk_embd l) in
      map_option (\<lambda>ds. lk_type l # int row # ds) (write_ranges (lk_data l) 0 row ranges))"

definition write_v :: "ggml_traits \<Rightarrow> (nat \<times> nat) list \<Rightarrow> kv_layer \<Rightarrow> int list option" where
  "write_v tr ranges l =
     (let row = ggml_row_size tr (lv_type l) (lv_embd l) in
      map_option (\<lambda>ds. lv_type l # int row # ds) (write_ranges (lv_data l) 0 row ranges))"

definition write_v_trans :: "ggml_traits \<Rightarrow> nat \<Rightarrow> (nat \<times> nat) list \<Rightarrow> kv_layer \<Rightarrow> int list option" where
  "write_v_trans tr kv_size ranges l =
     (let el = type_size tr (lv_type l) in
      map_option (\<lambda>ds. lv_type l # int el # int (lv_embd l) # concat ds)
        (collect_opt (map (\<lambda>j. write_ranges (lv_data l) (j * kv_size * el) el ranges) [0 ..< lv_embd l])))"

definition state_write_data :: "ggml_traits \<Rightarrow> kv_tensors \<Rightarrow> nat \<Rightarrow> (nat \<times> nat) list \<Rightarrow> int list option" where
  "state_write_data tr ts kv_size ranges =
     Option.bind (collect_opt (map (write_k tr ranges) (kt_layers ts))) (\<lambda>ks.
     map_option (\<lambda>vs. (if kt_v_trans ts then 1 else 0) # int (length (kt_layers ts)) # concat ks @ concat vs)
       (collect_opt (map (if kt_v_trans ts then write_v_trans tr kv_size ranges else write_v tr ranges) (kt_layers ts))))"

text \<open>Reading.  The first component of a result is what the function returns.\<close>

definition io_take :: "nat \<Rightarrow> int list \<Rightarrow> (int list \<times> int list) option" where
  "io_take n io = (if n \<le> length io then Some (take n io, drop n io) else None)"

definition read_k :: "ggml_traits \<Rightarrow> nat \<Rightarrow> nat \<Rightarrow> kv_layer \<Rightarrow> int list \<Rightarrow> (bool \<times> kv_layer \<times> int list) option" where
  "read_k tr h cell_count l io =
     Option.bind (io_read io) (\<lambda>(ty, io1).
     if lk_type l \<noteq> ty then Some (False, l, io1)
     else Option.bind (io_read io1) (\<lambda>(row_ref, io2).
     let row = ggml_row_size tr (lk_type l) (lk_embd l) in
     if int row \<noteq> row_ref then Some (False, l, io2)
     else if cell_count = 0 then Some (True, l, io2)
     else Option.bind (io_take (cell_count * row) io2) (\<lambda>(bs, io3).
       map_option (\<lambda>t. (True, l\<lparr>lk_data := t\<rparr>, io3)) (tensor_set (lk_data l) (h * row) bs))))"

definition read_v :: "ggml_traits \<Rightarrow> nat \<Rightarrow> nat \<Rightarrow> kv_layer \<Rightarrow> int list \<Rightarrow> (bool \<times> kv_layer \<times> int list) option" where
  "read_v tr h cell_count l io =
     Option.bind (io_read io) (\<lambda>(ty, io1).
     if lv_type l \<noteq> ty then Some (False, l, io1)
     else Option.bind (io_read io1) (\<lambda>(row_ref, io2).
     let row = ggml_row_size tr (lv_type l) (lv_embd l) in
     if int row \<noteq> row_ref then Some (False, l, io2)
     else if cell_count = 0 then Some (True, l, io2)
     else Option.bind (io_take (cell_count * row) io2) (\<lambda>(bs, io3).
       map_option (\<lambda>t. (True, l\<lparr>lv_data := t\<rparr>, io3)) (tensor_set (lv_data l) (h * row) bs))))"

definition read_strip :: "nat \<Rightarrow> nat \<Rightarrow> nat \<Rightarrow> nat \<Rightarrow> nat \<Rightarrow> int list \<times> int list \<Rightarrow> (int list \<times> int list) option" where
  "read_strip kv_size h cell_count el j = (\<lambda>(t, io).
     Option.bind (io_take (cell_count * el) io) (\<lambda>(bs, io').
       map_option (\<lambda>t'. (t', io')) (tensor_set t ((h + j * kv_size) * el) bs)))"

definition read_v_trans :: "ggml_traits \<Rightarrow> nat \<Rightarrow> nat \<Rightarrow> nat \<Rightarrow> kv_layer \<Rightarrow> int list \<Rightarrow> (bool \<times> kv_layer \<times> int list) option" where
  "read_v_trans tr kv_size h cell_count l io =
     Option.bind (io_read io) (\<lambda>(ty, io1).
     if lv_type l \<noteq> ty then Some (False, l, io1)
     else Option.bind (io_read io1) (\<lambda>(el_ref, io2).
     let el = type_size tr (lv_type l) in
     if int el \<noteq> el_ref then Some (False, l, io2)
     else Option.bind (io_read io2) (\<lambda>(embd_ref, io3).
     if int (lv_embd l) \<noteq> embd_ref then Some (False, l, io3)
     else if cell_count = 0 then Some (True, l, io3)
     else map_option (\<lambda>(t, io4). (True, l\<lparr>lv_data := t\<rparr>, io4))
       (fold_opt (read_strip kv_size h cell_count el) [0 ..< lv_embd l] (lv_data l, io3)))))"

fun read_layers :: "(kv_layer \<Rightarrow> int list \<Rightarrow> (bool \<times> kv_layer \<times> int list) option) \<Rightarrow> kv_layer list \<Rightarrow> int list \<Rightarrow>
    (bool \<times> kv_layer list \<times> int list) option" where
  "read_layers f [] io = Some (True, [], io)"
| "read_layers f (l # ls) io =
     Option.bind (f l io) (\<lambda>(ok, l', io1).
       if \<not> ok then Some (False, l' # ls, io1)
       else map_option (\<lambda>(ok', ls', io2). (ok', l' # ls', io2)) (read_layers f ls io1))"

definition state_read_data :: "ggml_traits \<Rightarrow> kv_cache \<Rightarrow> nat \<Rightarrow> kv_tensors \<Rightarrow> int list \<Rightarrow> (bool \<times> kv_tensors \<times> int list) option" where
  "state_read_data tr kv cell_count ts io =
     Option.bind (io_read io) (\<lambda>(vt, io1).
     Option.bind (io_read io1) (\<lambda>(n_layer, io2).
     if n_layer \<noteq> int (length (kt_layers ts)) then Some (False, ts, io2)
     else if cell_count > cells_size (cells kv) then Some (False, ts, io2)
     else if kt_v_trans ts \<noteq> (vt \<noteq> 0) then Some (False, ts, io2)
     else Option.bind (read_layers (read_k tr (head kv) cell_count) (kt_layers ts) io2) (\<lambda>(ok, ls, io3).
       if \<not> ok then Some (False, ts\<lparr>kt_layers := ls\<rparr>, io3)
       else map_option (\<lambda>(ok', ls', io4). (ok', ts\<lparr>kt_layers := ls'\<rparr>, io4))
         (read_layers (if kt_v_trans ts then read_v_trans tr (cells_size (cells kv)) (head kv) cell_count
                       else read_v tr (head kv) cell_count) ls io3))))"

subsection \<open>The entry points\<close>

definition state_write :: "ggml_traits \<Rightarrow> kv_tensors \<Rightarrow> kv_cache \<Rightarrow> int \<Rightarrow> int list option" where
  "state_write tr ts kv seq_id =
     (case cell_ranges seq_id (cells kv) of (count, ranges) \<Rightarrow>
        if count \<noteq> sum_list (map (\<lambda>(a, b). b - a) ranges) then None
        else Option.bind (state_write_meta (n_seq_max kv) (cells kv) ranges seq_id) (\<lambda>meta.
          map_option (\<lambda>data. int count # meta @ data) (state_write_data tr ts (cells_size (cells kv)) ranges)))"

text \<open>\<open>clear\<close> also fills the buffers of the tensors with zeros.\<close>

definition clear_data :: "kv_tensors \<Rightarrow> kv_tensors" where
  "clear_data ts = ts\<lparr>kt_layers := map (\<lambda>l. l\<lparr>lk_data := replicate (length (lk_data l)) 0, lv_data := replicate (length (lv_data l)) 0\<rparr>)
     (kt_layers ts)\<rparr>"

text \<open>The first component is \<open>False\<close> when the code throws after it has removed what it read.\<close>

definition state_read :: "ggml_traits \<Rightarrow> int \<Rightarrow> kv_cache \<Rightarrow> kv_tensors \<Rightarrow> int list \<Rightarrow>
    (bool \<times> kv_cache \<times> kv_tensors \<times> int list) option" where
  "state_read tr seq_id kv ts io =
     Option.bind (io_read io) (\<lambda>(count, io1).
     Option.bind (state_read_meta (nat count) seq_id kv io1) (\<lambda>(ok, kv1, io2).
     let ts0 = (if seq_id = -1 \<and> nat count \<le> cells_size (cells kv) then clear_data ts else ts) in
     Option.bind (if ok then state_read_data tr kv1 (nat count) ts0 io2 else Some (False, ts0, io2)) (\<lambda>(res, ts1, io3).
       if res then Some (True, kv1, ts1, io3)
       else if seq_id = -1 then Some (False, kv_clear kv1, clear_data ts1, io3)
       else map_option (\<lambda>(_, kv2). (False, kv2, ts1, io3)) (kv_seq_rm (nat seq_id) (-1) (-1) kv1))))"

subsection \<open>The ranges\<close>

definition expand :: "(nat \<times> nat) list \<Rightarrow> nat list" where
  "expand rs = concat (map (\<lambda>(a, b). [a ..< b]) rs)"

definition ranges_inv :: "int \<Rightarrow> kv_cells \<Rightarrow> nat \<Rightarrow> nat \<times> (nat \<times> nat) list \<times> nat \<Rightarrow> bool" where
  "ranges_inv seq_id c k st \<longleftrightarrow> (case st of (count, ranges, start) \<Rightarrow>
     count = length (filter (cell_selected seq_id c) [0 ..< k]) \<and>
     (if start = cells_size c then expand ranges = filter (cell_selected seq_id c) [0 ..< k]
      else start < k \<and> expand ranges @ [start ..< k] = filter (cell_selected seq_id c) [0 ..< k]))"

lemma range_step_inv:
  assumes "ranges_inv seq_id c k st" "k < cells_size c"
  shows "ranges_inv seq_id c (Suc k) (range_step seq_id c k st)"
proof -
  obtain count ranges start where st: "st = (count, ranges, start)" by (cases st)
  show ?thesis
  proof (cases "cell_selected seq_id c k")
    case True
    then show ?thesis using assms
      by (cases "start = cells_size c") (auto simp: st ranges_inv_def range_step_def)
  next
    case False
    then show ?thesis using assms
      by (cases "start = cells_size c") (auto simp: st ranges_inv_def range_step_def expand_def)
  qed
qed

lemma ranges_fold:
  "k \<le> cells_size c \<Longrightarrow> ranges_inv seq_id c k (fold (range_step seq_id c) [0 ..< k] (0, [], cells_size c))"
proof (induction k)
  case (Suc k)
  then show ?case using range_step_inv [of seq_id c k] by simp
qed (simp add: ranges_inv_def expand_def)

lemma cell_ranges_exact:
  obtains rs where "cell_ranges seq_id c = (length (filter (cell_selected seq_id c) [0 ..< cells_size c]), rs)"
    "expand rs = filter (cell_selected seq_id c) [0 ..< cells_size c]"
proof -
  obtain count ranges start where f: "fold (range_step seq_id c) [0 ..< cells_size c] (0, [], cells_size c) = (count, ranges, start)"
    by (cases "fold (range_step seq_id c) [0 ..< cells_size c] (0, [], cells_size c)")
  have "ranges_inv seq_id c (cells_size c) (count, ranges, start)" using ranges_fold [of "cells_size c" c seq_id] f by simp
  then show thesis
    using that [of "if start \<noteq> cells_size c then ranges @ [(start, cells_size c)] else ranges"]
    by (auto simp: cell_ranges_def f ranges_inv_def expand_def split: if_splits)
qed

lemma length_expand: "length (expand rs) = sum_list (map (\<lambda>(a, b). b - a) rs)"
  by (induction rs) (auto simp: expand_def)

lemma collect_opt_map: "(\<And>x. x \<in> set xs \<Longrightarrow> f x = Some (g x)) \<Longrightarrow> collect_opt (map f xs) = Some (map g xs)"
  by (auto simp: collect_opt_def)

definition cell_words :: "nat \<Rightarrow> kv_cells \<Rightarrow> nat \<Rightarrow> int list" where
  "cell_words m c i = pos c ! i # int (length (cell_seq_ids m (-1) c i)) # map int (cell_seq_ids m (-1) c i)"

definition used_cells :: "kv_cells \<Rightarrow> nat list" where
  "used_cells c = filter (\<lambda>i. \<not> is_empty i c) [0 ..< cells_size c]"

subsection \<open>Rows of the tensors\<close>

text \<open>\<open>row_at t off sz i\<close>: the \<open>i\<close>-th piece of \<open>sz\<close> bytes of the strip of the tensor that begins at \<open>off\<close>.\<close>

definition row_at :: "int list \<Rightarrow> nat \<Rightarrow> nat \<Rightarrow> nat \<Rightarrow> int list" where
  "row_at t off sz i = take sz (drop (off + i * sz) t)"

lemma rows_of_range: "a \<le> b \<Longrightarrow> concat (map (row_at t off sz) [a ..< b]) = take ((b - a) * sz) (drop (off + a * sz) t)"
proof (induction b)
  case (Suc b)
  show ?case
  proof (cases "a \<le> b")
    case True
    have "(Suc b - a) * sz = (b - a) * sz + sz" using True by (simp add: Suc_diff_le)
    moreover have e: "(b - a) * sz + (off + a * sz) = off + b * sz" using True by (simp add: diff_mult_distrib)
    ultimately show ?thesis using Suc.IH True by (simp add: take_add row_at_def) (simp add: e)
  next
    case False
    then have "a = Suc b" using Suc.prems by simp
    then show ?thesis by simp
  qed
qed simp

lemma row_at_length: "i < n \<Longrightarrow> off + n * sz \<le> length t \<Longrightarrow> length (row_at t off sz i) = sz"
proof -
  assume a: "i < n" "off + n * sz \<le> length t"
  then have "Suc i * sz \<le> n * sz" by (intro mult_le_mono1) simp
  then show ?thesis using a by (simp add: row_at_def)
qed

lemma rows_length:
  "\<forall>i \<in> set L. i < n \<Longrightarrow> off + n * sz \<le> length t \<Longrightarrow> length (concat (map (row_at t off sz) L)) = length L * sz"
  by (induction L) (auto simp: row_at_length)

lemma write_ranges_rows:
  assumes "\<forall>i \<in> set (expand rs). i < n" "off + n * sz \<le> length t"
  shows "write_ranges t off sz rs = Some (concat (map (row_at t off sz) (expand rs)))"
proof -
  let ?g = "\<lambda>(a, b). concat (map (row_at t off sz) [a ..< b])"
  have "tensor_get t (off + a * sz) ((b - a) * sz) = Some (concat (map (row_at t off sz) [a ..< b]))" if "(a, b) \<in> set rs" for a b
  proof (cases "a < b")
    case True
    then have "b - 1 \<in> set (expand rs)" using that by (auto simp: expand_def intro!: bexI [of _ "(a, b)"])
    then have "b \<le> n" using assms(1) True by fastforce
    then have "b * sz \<le> n * sz" by (rule mult_le_mono1)
    moreover have "a * sz + (b - a) * sz = b * sz" using True by (simp add: diff_mult_distrib)
    ultimately have "off + a * sz + (b - a) * sz \<le> length t" using assms(2) by linarith
    then show ?thesis using True rows_of_range [of a b t off sz] by (auto simp: tensor_get_def)
  qed (simp add: tensor_get_def)
  then have "collect_opt (map (\<lambda>(a, b). tensor_get t (off + a * sz) ((b - a) * sz)) rs) = Some (map ?g rs)"
    by (intro collect_opt_map) auto
  moreover have "concat (map ?g rs) = concat (map (row_at t off sz) (expand rs))"
    by (induction rs) (auto simp: expand_def)
  ultimately show ?thesis by (simp add: write_ranges_def)
qed

text \<open>What is written as pieces is found as these pieces, and nothing else changes.\<close>

lemma concat_piece:
  "(\<forall>r \<in> set rows. length r = sz) \<Longrightarrow> j < length rows \<Longrightarrow> take sz (drop (j * sz) (concat rows)) = rows ! j"
proof (induction rows arbitrary: j)
  case (Cons r rows)
  then show ?case by (cases j) auto
qed simp

lemma tensor_set_rows:
  assumes rows: "\<forall>r \<in> set rows. length r = sz" and fit: "off + length rows * sz \<le> length t"
  obtains t' where "tensor_set t off (concat rows) = Some t'" "length t' = length t"
    "\<And>j. j < length rows \<Longrightarrow> row_at t' off sz j = rows ! j"
    "\<And>o' n. o' + n \<le> off \<or> off + length rows * sz \<le> o' \<Longrightarrow> take n (drop o' t') = take n (drop o' t)"
proof -
  let ?bs = "concat rows" and ?t = "take off t @ concat rows @ drop (off + length (concat rows)) t"
  have len: "length ?bs = length rows * sz" using rows by (induction rows) auto
  have set: "tensor_set t off ?bs = Some ?t"
  proof (cases "?bs = []")
    case True
    then show ?thesis unfolding True by (simp add: tensor_set_def)
  next
    case False
    then show ?thesis unfolding tensor_set_def using len fit by (simp only: if_False) simp
  qed
  have off: "off \<le> length t" using fit by simp
  have inside: "row_at ?t off sz j = rows ! j" if j: "j < length rows" for j
  proof -
    have "Suc j * sz \<le> length rows * sz" using j by (intro mult_le_mono1) simp
    then have "take sz (drop (j * sz) ?bs) = take sz (drop (off + j * sz) ?t)"
      using off len by simp
    then show ?thesis using concat_piece [OF rows j] by (simp add: row_at_def)
  qed
  have outside: "take n (drop o' ?t) = take n (drop o' t)" if "o' + n \<le> off \<or> off + length rows * sz \<le> o'" for o' n
    using that
  proof
    assume "o' + n \<le> off"
    then show ?thesis using off by (intro nth_equalityI) (auto simp: nth_append)
  next
    assume "off + length rows * sz \<le> o'"
    then show ?thesis using off len by simp
  qed
  have "length ?t = length t" using fit len by simp
  from that [OF set this inside outside] show ?thesis by blast
qed

lemma take_rows: "length bs = n \<Longrightarrow> io_take n (bs @ rest) = Some (bs, rest)"
  by (simp add: io_take_def)

subsection \<open>Layers of the same shape\<close>

definition same_shape :: "kv_layer \<Rightarrow> kv_layer \<Rightarrow> bool" where
  "same_shape l l2 \<longleftrightarrow> lk_type l2 = lk_type l \<and> lk_embd l2 = lk_embd l \<and> lv_type l2 = lv_type l \<and> lv_embd l2 = lv_embd l"

definition layer_fits :: "ggml_traits \<Rightarrow> bool \<Rightarrow> nat \<Rightarrow> kv_layer \<Rightarrow> bool" where
  "layer_fits tr vtr n l \<longleftrightarrow> n * ggml_row_size tr (lk_type l) (lk_embd l) \<le> length (lk_data l) \<and>
     (if vtr then lv_embd l * n * type_size tr (lv_type l) \<le> length (lv_data l)
      else n * ggml_row_size tr (lv_type l) (lv_embd l) \<le> length (lv_data l))"

definition k_copied :: "ggml_traits \<Rightarrow> nat list \<Rightarrow> kv_layer \<Rightarrow> kv_layer \<Rightarrow> bool" where
  "k_copied tr L l l2 \<longleftrightarrow> (let row = ggml_row_size tr (lk_type l) (lk_embd l) in
     \<forall>j < length L. row_at (lk_data l2) 0 row j = row_at (lk_data l) 0 row (L ! j))"

definition v_copied :: "ggml_traits \<Rightarrow> bool \<Rightarrow> nat \<Rightarrow> nat \<Rightarrow> nat list \<Rightarrow> kv_layer \<Rightarrow> kv_layer \<Rightarrow> bool" where
  "v_copied tr vtr n n2 L l l2 \<longleftrightarrow>
     (if vtr then let el = type_size tr (lv_type l) in
        \<forall>e < lv_embd l. \<forall>j < length L. row_at (lv_data l2) (e * n2 * el) el j = row_at (lv_data l) (e * n * el) el (L ! j)
      else let row = ggml_row_size tr (lv_type l) (lv_embd l) in
        \<forall>j < length L. row_at (lv_data l2) 0 row j = row_at (lv_data l) 0 row (L ! j))"

definition alike :: "ggml_traits \<Rightarrow> bool \<Rightarrow> nat \<Rightarrow> nat \<Rightarrow> kv_layer \<Rightarrow> kv_layer \<Rightarrow> bool" where
  "alike tr vtr n n2 l l2 \<longleftrightarrow> same_shape l l2 \<and> layer_fits tr vtr n l \<and> layer_fits tr vtr n2 l2"

lemma row_copy:
  assumes L: "\<forall>i \<in> set L. i < n" "off + n * sz \<le> length t" and fit: "off2 + length L * sz \<le> length t2"
  obtains t' where "tensor_set t2 off2 (concat (map (row_at t off sz) L)) = Some t'" "length t' = length t2"
    "\<And>j. j < length L \<Longrightarrow> row_at t' off2 sz j = row_at t off sz (L ! j)"
    "\<And>o' m. o' + m \<le> off2 \<or> off2 + length L * sz \<le> o' \<Longrightarrow> take m (drop o' t') = take m (drop o' t2)"
proof -
  have r: "\<forall>r \<in> set (map (row_at t off sz) L). length r = sz" using L by (auto simp: row_at_length)
  have f: "off2 + length (map (row_at t off sz) L) * sz \<le> length t2" using fit by simp
  from tensor_set_rows [OF r f] that show ?thesis by auto
qed

lemma write_k_rows:
  assumes "\<forall>i \<in> set (expand rs). i < n" "layer_fits tr vtr n l"
  shows "write_k tr rs l = Some (lk_type l # int (ggml_row_size tr (lk_type l) (lk_embd l)) #
    concat (map (row_at (lk_data l) 0 (ggml_row_size tr (lk_type l) (lk_embd l))) (expand rs)))"
  using write_ranges_rows [OF assms(1), of 0] assms(2) by (simp add: write_k_def Let_def layer_fits_def)

lemma read_k_rows:
  assumes L: "\<forall>i \<in> set L. i < n" "length L \<le> n2" and al: "alike tr vtr n n2 l l2"
  shows "\<exists>l'. (\<forall>rest. read_k tr 0 (length L) l2 ((lk_type l # int (ggml_row_size tr (lk_type l) (lk_embd l)) #
      concat (map (row_at (lk_data l) 0 (ggml_row_size tr (lk_type l) (lk_embd l))) L)) @ rest) = Some (True, l', rest)) \<and>
    alike tr vtr n n2 l l' \<and> k_copied tr L l l'"
proof -
  let ?row = "ggml_row_size tr (lk_type l) (lk_embd l)"
  have sh: "lk_type l2 = lk_type l" "lk_embd l2 = lk_embd l" using al by (auto simp: alike_def same_shape_def)
  have fit: "0 + n * ?row \<le> length (lk_data l)" "n2 * ?row \<le> length (lk_data l2)"
    using al sh by (auto simp: alike_def layer_fits_def)
  have "length L * ?row \<le> n2 * ?row" using L(2) by (rule mult_le_mono1)
  then have "0 + length L * ?row \<le> length (lk_data l2)" using fit(2) by linarith
  from row_copy [OF L(1) fit(1) this] obtain t' where t': "tensor_set (lk_data l2) 0 (concat (map (row_at (lk_data l) 0 ?row) L)) = Some t'"
    "length t' = length (lk_data l2)" "\<And>j. j < length L \<Longrightarrow> row_at t' 0 ?row j = row_at (lk_data l) 0 ?row (L ! j)" by metis
  note tk = take_rows [OF rows_length [OF L(1) fit(1)]]
  show ?thesis
  proof (cases "L = []")
    case True
    then show ?thesis using sh al by (intro exI [of _ l2]) (simp add: read_k_def k_copied_def)
  next
    case False
    then show ?thesis using sh al t' tk
      by (intro exI [of _ "l2\<lparr>lk_data := t'\<rparr>"])
        (auto simp: read_k_def k_copied_def alike_def same_shape_def layer_fits_def Let_def)
  qed
qed

definition v_words :: "ggml_traits \<Rightarrow> bool \<Rightarrow> nat \<Rightarrow> nat list \<Rightarrow> kv_layer \<Rightarrow> int list" where
  "v_words tr vtr n L l =
     (if vtr then let el = type_size tr (lv_type l) in
        lv_type l # int el # int (lv_embd l) #
          concat (map (\<lambda>e. concat (map (row_at (lv_data l) (e * n * el) el) L)) [0 ..< lv_embd l])
      else let row = ggml_row_size tr (lv_type l) (lv_embd l) in
        lv_type l # int row # concat (map (row_at (lv_data l) 0 row) L))"

lemma strip_fits:
  assumes "e < m" "m * n * sz \<le> (len :: nat)" "k \<le> n"
  shows "e * n * sz + k * sz \<le> len"
proof -
  have "Suc e * n * sz \<le> m * n * sz" using assms(1) by (intro mult_le_mono1) simp
  moreover have "k * sz \<le> n * sz" using assms(3) by (rule mult_le_mono1)
  moreover have "Suc e * n * sz = e * n * sz + n * sz" by (simp add: add_mult_distrib)
  ultimately show ?thesis using assms(2) by linarith
qed

lemma write_v_rows:
  assumes L: "\<forall>i \<in> set (expand rs). i < n" and fit: "layer_fits tr vtr n l"
  shows "(if vtr then write_v_trans tr n rs else write_v tr rs) l = Some (v_words tr vtr n (expand rs) l)"
proof (cases vtr)
  case True
  let ?el = "type_size tr (lv_type l)"
  have "write_ranges (lv_data l) (e * n * ?el) ?el rs = Some (concat (map (row_at (lv_data l) (e * n * ?el) ?el) (expand rs)))"
    if "e \<in> set [0 ..< lv_embd l]" for e
    by (rule write_ranges_rows [OF L strip_fits]) (use that fit True in \<open>auto simp: layer_fits_def\<close>)
  then have "collect_opt (map (\<lambda>e. write_ranges (lv_data l) (e * n * ?el) ?el rs) [0 ..< lv_embd l]) =
      Some (map (\<lambda>e. concat (map (row_at (lv_data l) (e * n * ?el) ?el) (expand rs))) [0 ..< lv_embd l])"
    by (rule collect_opt_map)
  then show ?thesis using True by (simp add: write_v_trans_def v_words_def Let_def)
next
  case False
  then show ?thesis using write_ranges_rows [OF L, of 0] fit by (simp add: write_v_def v_words_def Let_def layer_fits_def)
qed

lemma strips_read:
  assumes L: "\<forall>i \<in> set L. i < n" "length L \<le> n2" and fit: "m * n * el \<le> length t" "m * n2 * el \<le> length t2"
  shows "e \<le> m \<Longrightarrow> \<exists>t'. (\<forall>rest. fold_opt (read_strip n2 0 (length L) el) [0 ..< e]
      (t2, concat (map (\<lambda>e. concat (map (row_at t (e * n * el) el) L)) [0 ..< e]) @ rest) = Some (t', rest)) \<and> length t' = length t2 \<and>
    (\<forall>d < e. \<forall>j < length L. row_at t' (d * n2 * el) el j = row_at t (d * n * el) el (L ! j))"
proof (induction e)
  case (Suc e)
  let ?strip = "concat (map (row_at t (e * n * el) el) L)"
  obtain t1 where t1: "\<And>rest. fold_opt (read_strip n2 0 (length L) el) [0 ..< e]
      (t2, concat (map (\<lambda>e. concat (map (row_at t (e * n * el) el) L)) [0 ..< e]) @ rest) = Some (t1, rest)"
    "length t1 = length t2" "\<forall>d < e. \<forall>j < length L. row_at t1 (d * n2 * el) el j = row_at t (d * n * el) el (L ! j)"
    using Suc.IH Suc.prems by auto
  have s: "e * n * el + n * el \<le> length t" "e * n2 * el + length L * el \<le> length t1"
    using strip_fits [OF _ fit(1)] strip_fits [OF _ fit(2) L(2)] Suc.prems t1(2) by auto
  from row_copy [OF L(1) s] obtain t' where t': "tensor_set t1 (e * n2 * el) ?strip = Some t'" "length t' = length t1"
    "\<And>j. j < length L \<Longrightarrow> row_at t' (e * n2 * el) el j = row_at t (e * n * el) el (L ! j)"
    "\<And>o' k. o' + k \<le> e * n2 * el \<or> e * n2 * el + length L * el \<le> o' \<Longrightarrow> take k (drop o' t') = take k (drop o' t1)" by metis
  have "read_strip n2 0 (length L) el e (t1, ?strip @ rest) = Some (t', rest)" for rest
    using t'(1) take_rows [OF rows_length [OF L(1) s(1)], of rest] by (simp add: read_strip_def)
  moreover have "row_at t' (d * n2 * el) el j = row_at t (d * n * el) el (L ! j)" if d: "d < Suc e" "j < length L" for d j
  proof (cases "d = e")
    case False
    then have "d * n2 * el + (Suc j) * el \<le> e * n2 * el"
      using strip_fits [of d e n2 el "e * n2 * el" "Suc j"] d L(2) by simp
    then have "row_at t' (d * n2 * el) el j = row_at t1 (d * n2 * el) el j" unfolding row_at_def by (intro t'(4)) simp
    then show ?thesis using t1(3) False d by simp
  qed (use t'(3) d in simp)
  ultimately show ?case using t1(1,2) t'(2) by (intro exI [of _ t']) (simp add: fold_opt_append)
qed simp

lemma read_v_rows:
  assumes L: "\<forall>i \<in> set L. i < n" "length L \<le> n2" and al: "alike tr vtr n n2 l l2" "k_copied tr L l l2"
  shows "\<exists>l'. (\<forall>rest. (if vtr then read_v_trans tr n2 0 (length L) else read_v tr 0 (length L)) l2 (v_words tr vtr n L l @ rest) = Some (True, l', rest)) \<and>
    alike tr vtr n n2 l l' \<and> k_copied tr L l l' \<and> v_copied tr vtr n n2 L l l'"
proof (cases "L = []")
  case True
  then show ?thesis using al
    by (intro exI [of _ l2]) (auto simp: read_v_def read_v_trans_def v_words_def v_copied_def Let_def alike_def same_shape_def concat_eq_Nil_conv)
next
  case ne: False
  have sh: "lv_type l2 = lv_type l" "lv_embd l2 = lv_embd l" using al(1) by (auto simp: alike_def same_shape_def)
  have keep: "alike tr vtr n n2 l (l2\<lparr>lv_data := t'\<rparr>) \<and> k_copied tr L l (l2\<lparr>lv_data := t'\<rparr>)" if "length t' = length (lv_data l2)" for t'
    using al that by (auto simp: alike_def same_shape_def layer_fits_def k_copied_def Let_def)
  show ?thesis
  proof (cases vtr)
    case True
    let ?el = "type_size tr (lv_type l)"
    have fit: "lv_embd l * n * ?el \<le> length (lv_data l)" "lv_embd l * n2 * ?el \<le> length (lv_data l2)"
      using al(1) sh True by (auto simp: alike_def layer_fits_def)
    from strips_read [OF L fit order_refl] obtain t' where t': "\<forall>rest. fold_opt (read_strip n2 0 (length L) ?el) [0 ..< lv_embd l]
      (lv_data l2, concat (map (\<lambda>e. concat (map (row_at (lv_data l) (e * n * ?el) ?el) L)) [0 ..< lv_embd l]) @ rest) = Some (t', rest)"
      "length t' = length (lv_data l2)" "\<forall>d < lv_embd l. \<forall>j < length L. row_at t' (d * n2 * ?el) ?el j = row_at (lv_data l) (d * n * ?el) ?el (L ! j)"
      by blast
    then show ?thesis using True ne sh keep [OF t'(2)]
      by (intro exI [of _ "l2\<lparr>lv_data := t'\<rparr>"]) (simp add: read_v_trans_def v_words_def v_copied_def Let_def)
  next
    case False
    let ?row = "ggml_row_size tr (lv_type l) (lv_embd l)"
    have fit: "0 + n * ?row \<le> length (lv_data l)" "n2 * ?row \<le> length (lv_data l2)"
      using al(1) sh False by (auto simp: alike_def layer_fits_def)
    have "length L * ?row \<le> n2 * ?row" using L(2) by (rule mult_le_mono1)
    then have "0 + length L * ?row \<le> length (lv_data l2)" using fit(2) by linarith
    from row_copy [OF L(1) fit(1) this] obtain t' where t': "tensor_set (lv_data l2) 0 (concat (map (row_at (lv_data l) 0 ?row) L)) = Some t'"
      "length t' = length (lv_data l2)" "\<And>j. j < length L \<Longrightarrow> row_at t' 0 ?row j = row_at (lv_data l) 0 ?row (L ! j)" by metis
    then show ?thesis using False ne sh keep [OF t'(2)] take_rows [OF rows_length [OF L(1) fit(1)]]
      by (intro exI [of _ "l2\<lparr>lv_data := t'\<rparr>"]) (simp add: read_v_def v_words_def v_copied_def Let_def)
  qed
qed

lemma read_layers_all:
  assumes step: "\<And>l l2. P l l2 \<Longrightarrow> \<exists>l'. (\<forall>rest. f l2 (w l @ rest) = Some (True, l', rest)) \<and> Q l l'"
  shows "list_all2 P ls ls2 \<Longrightarrow> \<exists>ls'. (\<forall>rest. read_layers f ls2 (concat (map w ls) @ rest) = Some (True, ls', rest)) \<and> list_all2 Q ls ls'"
proof (induction rule: list_all2_induct)
  case (Cons l ls l2 ls2)
  obtain ls' where ls': "\<forall>rest. read_layers f ls2 (concat (map w ls) @ rest) = Some (True, ls', rest)" "list_all2 Q ls ls'" using Cons by blast
  obtain l' where "\<forall>rest. f l2 (w l @ rest) = Some (True, l', rest)" "Q l l'" using step [OF Cons(1)] by blast
  then show ?case using ls' by (intro exI [of _ "l' # ls'"]) simp
qed simp

text \<open>The data of one cache, written for the cells \<open>L\<close> and read into another.\<close>

lemma data_round_trip:
  assumes L: "\<forall>i \<in> set (expand rs). i < n" "length (expand rs) \<le> cells_size (cells kv2)" "head kv2 = 0"
    and ts: "kt_v_trans ts2 = kt_v_trans ts" "list_all2 (alike tr (kt_v_trans ts) n (cells_size (cells kv2))) (kt_layers ts) (kt_layers ts2)"
  shows "\<exists>data ts'. state_write_data tr ts n rs = Some data \<and>
    (\<forall>rest. state_read_data tr kv2 (length (expand rs)) ts2 (data @ rest) = Some (True, ts', rest)) \<and> kt_v_trans ts' = kt_v_trans ts \<and>
    list_all2 (\<lambda>l l'. k_copied tr (expand rs) l l' \<and> v_copied tr (kt_v_trans ts) n (cells_size (cells kv2)) (expand rs) l l')
      (kt_layers ts) (kt_layers ts')"
proof -
  let ?tr = "kt_v_trans ts" and ?n2 = "cells_size (cells kv2)" and ?L = "expand rs" and ?ls = "kt_layers ts"
  let ?k = "\<lambda>l. lk_type l # int (ggml_row_size tr (lk_type l) (lk_embd l)) #
      concat (map (row_at (lk_data l) 0 (ggml_row_size tr (lk_type l) (lk_embd l))) ?L)"
  have fits: "layer_fits tr ?tr n l" if "l \<in> set ?ls" for l
    using ts(2) that by (auto simp: alike_def list_all2_conv_all_nth in_set_conv_nth)
  have "collect_opt (map (write_k tr rs) ?ls) = Some (map ?k ?ls)"
    by (rule collect_opt_map) (rule write_k_rows [OF L(1) fits])
  moreover have "collect_opt (map (if ?tr then write_v_trans tr n rs else write_v tr rs) ?ls) = Some (map (v_words tr ?tr n ?L) ?ls)"
    by (rule collect_opt_map) (rule write_v_rows [OF L(1) fits])
  ultimately have w: "state_write_data tr ts n rs = Some ((if ?tr then 1 else 0) # int (length ?ls) #
      concat (map ?k ?ls) @ concat (map (v_words tr ?tr n ?L) ?ls))"
    by (simp add: state_write_data_def)
  let ?Q = "\<lambda>l l'. alike tr ?tr n ?n2 l l' \<and> k_copied tr ?L l l'"
  obtain ls1 where ls1: "\<forall>rest. read_layers (read_k tr 0 (length ?L)) (kt_layers ts2) (concat (map ?k ?ls) @ rest) =
      Some (True, ls1, rest)" "list_all2 ?Q ?ls ls1"
    using read_layers_all [where w = ?k and P = "alike tr ?tr n ?n2" and Q = ?Q and f = "read_k tr 0 (length ?L)", OF _ ts(2)]
      read_k_rows [OF L(1,2)] by blast
  obtain ls2 where ls2: "\<forall>rest. read_layers (if ?tr then read_v_trans tr ?n2 0 (length ?L) else read_v tr 0 (length ?L)) ls1
      (concat (map (v_words tr ?tr n ?L) ?ls) @ rest) = Some (True, ls2, rest)"
      "list_all2 (\<lambda>l l'. alike tr ?tr n ?n2 l l' \<and> k_copied tr ?L l l' \<and> v_copied tr ?tr n ?n2 ?L l l') ?ls ls2"
    using read_layers_all [where w = "v_words tr ?tr n ?L" and P = ?Q
        and Q = "\<lambda>l l'. alike tr ?tr n ?n2 l l' \<and> k_copied tr ?L l l' \<and> v_copied tr ?tr n ?n2 ?L l l'"
        and f = "if ?tr then read_v_trans tr ?n2 0 (length ?L) else read_v tr 0 (length ?L)", OF _ ls1(2)]
      read_v_rows [OF L(1,2)] by blast
  have "length (kt_layers ts2) = length ?ls" using ts(2) by (simp add: list_all2_lengthD)
  then have "state_read_data tr kv2 (length ?L) ts2 (((if ?tr then 1 else 0) # int (length ?ls) #
      concat (map ?k ?ls) @ concat (map (v_words tr ?tr n ?L) ?ls)) @ rest) = Some (True, ts2\<lparr>kt_layers := ls2\<rparr>, rest)" for rest
    using L(2,3) ts(1) ls1(1) ls2(1) by (cases ?tr) (simp_all add: state_read_data_def)
  moreover have "list_all2 (\<lambda>l l'. k_copied tr ?L l l' \<and> v_copied tr ?tr n ?n2 ?L l l') ?ls ls2"
    by (rule list_all2_mono [OF ls2(2)]) blast
  ultimately show ?thesis using w ts(1)
    by (intro exI [of _ "(if ?tr then 1 else 0) # int (length ?ls) # concat (map ?k ?ls) @ concat (map (v_words tr ?tr n ?L) ?ls)"]
        exI [of _ "ts2\<lparr>kt_layers := ls2\<rparr>"]) simp
qed

lemma state_write_words:
  obtains rs where "expand rs = used_cells (cells kv)"
    "state_write tr ts kv (-1) = map_option (\<lambda>data.
      int (length (used_cells (cells kv))) # concat (map (cell_words (n_seq_max kv) (cells kv)) (used_cells (cells kv))) @ data)
      (state_write_data tr ts (cells_size (cells kv)) rs)"
proof -
  let ?c = "cells kv"
  obtain rs where rs: "cell_ranges (-1) ?c = (length (filter (cell_selected (-1) ?c) [0 ..< cells_size ?c]), rs)"
    "expand rs = filter (cell_selected (-1) ?c) [0 ..< cells_size ?c]" by (rule cell_ranges_exact)
  have u: "filter (cell_selected (-1) ?c) [0 ..< cells_size ?c] = used_cells ?c"
    by (auto simp: used_cells_def cell_selected_def intro: filter_cong)
  have "collect_opt (map (write_cell (n_seq_max kv) (-1) ?c) (used_cells ?c)) = Some (map (cell_words (n_seq_max kv) ?c) (used_cells ?c))"
    by (rule collect_opt_map) (auto simp: used_cells_def write_cell_def pos_get_def is_empty_def cells_size_def cell_words_def)
  then have "state_write_meta (n_seq_max kv) ?c rs (-1) = Some (concat (map (cell_words (n_seq_max kv) ?c) (used_cells ?c)))"
    using rs(2) u by (simp add: state_write_meta_def expand_def)
  moreover have "length (used_cells ?c) = sum_list (map (\<lambda>(a, b). b - a) rs)" using length_expand [of rs] rs(2) u by simp
  ultimately show ?thesis using rs u by (intro that [of rs]) (simp_all add: state_write_def)
qed

subsection \<open>Reading back\<close>

definition loaded :: "kv_cells \<Rightarrow> nat list \<Rightarrow> nat \<Rightarrow> kv_cells \<Rightarrow> bool" where
  "loaded src L k c \<longleftrightarrow> cells_ok c \<and> (\<forall>j < length (pos c).
     pos c ! j = (if j < k then pos src ! (L ! j) else -1) \<and> seqs c ! j = (if j < k then seqs src ! (L ! j) else {}))"

lemma read_seq_ids_fold:
  assumes "set L \<subseteq> {..<m}" "fold_opt (cells_seq_add i) L c = Some c'"
  shows "read_seq_ids m i (length L) c (map int L @ rest) = Some (True, c', rest)"
  using assms by (induction L arbitrary: c) (auto split: option.splits)

lemma read_cell_step:
  assumes src: "cells_ok src" and L: "distinct L" "set L \<subseteq> {..<length (pos src)}" "\<forall>i \<in> set L. \<not> is_empty i src"
    and k: "k < length L" "length L \<le> length (pos c)" and ld: "loaded src L k c"
    and m: "m \<le> LLAMA_MAX_PARALLEL_SEQUENCES" "\<forall>i < length (pos src). seqs src ! i \<subseteq> {..<m}"
  shows "\<exists>c'. loaded src L (Suc k) c' \<and> length (pos c') = length (pos c) \<and>
    (\<forall>io. read_cells m (k # rest) c (cell_words m src (L ! k) @ io) = read_cells m rest c' io)"
proof -
  let ?i = "L ! k"
  have i: "?i \<in> set L" "?i < length (pos src)" using L k by (auto simp: subset_eq)
  note cell = ok_cell [OF src i(2)]
  have p: "pos src ! ?i \<ge> 0" using cell(1) L(3) i(1) by (auto simp: is_empty_def)
  have ok: "cells_ok c" and e: "pos c ! k = -1" "seqs c ! k = {}" and kl: "k < length (pos c)"
    using ld k by (auto simp: loaded_def)
  have "pos_set k (pos src ! ?i) c \<noteq> None" using e kl by (simp add: pos_set_def)
  then obtain c1 where c1: "pos_set k (pos src ! ?i) c = Some c1" by auto
  note put1 = pos_set_content [OF ok c1 p]
  have a1: "cells_ok c1" "k < length (pos c1)" "pos c1 ! k = pos src ! ?i" "seqs c1 ! k = {}"
    using put1 kl ok_cell(4) [OF ok kl] by (auto simp: content_put_def)
  let ?ids = "cell_seq_ids m (-1) src ?i"
  have ids: "set ?ids = seqs src ! ?i" "distinct ?ids" "set ?ids \<subseteq> {..<m}"
    using m(2) i(2) by (auto simp: cell_seq_ids_def seq_has_def)
  have "free_for c k (set ?ids) (pos src ! ?i)"
  proof (unfold free_for_def, intro allI impI)
    fix j assume j: "j < length (pos c)" "j \<noteq> k" "seqs c ! j \<inter> set ?ids \<noteq> {}"
    then have jk: "j < k" "pos c ! j = pos src ! (L ! j)" "seqs c ! j = seqs src ! (L ! j)" using ld by (auto simp: loaded_def split: if_splits)
    then have "L ! j \<noteq> ?i" "L ! j < length (pos src)" using L k by (auto simp: nth_eq_iff_index_eq subset_eq)
    then show "pos c ! j \<noteq> pos src ! ?i" using cell(7) j(3) jk ids(1) by (auto simp: free_for_def)
  qed
  then have "free_for c1 k (set ?ids) (pos src ! ?i)" by (rule free_for_put [OF put1])
  moreover have sub: "set ?ids \<subseteq> {..<LLAMA_MAX_PARALLEL_SEQUENCES}" using ids(3) m(1) by fastforce
  ultimately obtain c2 where c2: "fold_opt (cells_seq_add k) ?ids c1 = Some c2"
    "content_put k (pos src ! ?i) (set ?ids) c1 c2"
    using seq_adds_content [OF a1(1-3) p ids(2) _ sub] a1(4) by auto
  have put2: "content_put k (pos src ! ?i) (set ?ids) c c2" by (rule content_put_trans [OF put1 c2(2)])
  have "read_cells m (k # rest) c (cell_words m src ?i @ io) = read_cells m rest c2 io" for io
    using c1 read_seq_ids_fold [OF ids(3) c2(1), of io] by (simp add: cell_words_def)
  moreover have "length (pos c2) = length (pos c)" using put2 by (simp add: content_put_def)
  moreover have "loaded src L (Suc k) c2"
    using put2 ld ok_cell(4) [OF ok kl] ids(1) kl
    by (auto simp: loaded_def content_put_def nth_list_update)
  ultimately show ?thesis by blast
qed

lemma read_cells_load:
  assumes src: "cells_ok src" and L: "distinct L" "set L \<subseteq> {..<length (pos src)}" "\<forall>i \<in> set L. \<not> is_empty i src"
    and k: "k \<le> length L" "length L \<le> length (pos c)" and ld: "loaded src L k c"
    and m: "m \<le> LLAMA_MAX_PARALLEL_SEQUENCES" "\<forall>i < length (pos src). seqs src ! i \<subseteq> {..<m}"
  shows "\<exists>c'. (\<forall>io. read_cells m [k ..< length L] c (concat (map (cell_words m src) (drop k L)) @ io) = Some (True, c', io)) \<and>
    loaded src L (length L) c' \<and> length (pos c') = length (pos c)"
  using k ld
proof (induction "length L - k" arbitrary: k c)
  case 0
  then show ?case by auto
next
  case (Suc n)
  then have kl: "k < length L" by simp
  have dr: "drop k L = L ! k # drop (Suc k) L" "[k ..< length L] = k # [Suc k ..< length L]"
    using kl by (simp_all add: Cons_nth_drop_Suc upt_conv_Cons)
  obtain c1 where c1: "loaded src L (Suc k) c1" "length (pos c1) = length (pos c)"
    "\<forall>io. read_cells m (k # [Suc k ..< length L]) c (cell_words m src (L ! k) @ io) = read_cells m [Suc k ..< length L] c1 io"
    using read_cell_step [OF src L kl Suc.prems(2,3) m, of "[Suc k ..< length L]"] by blast
  have "\<exists>c'. (\<forall>io. read_cells m [Suc k ..< length L] c1 (concat (map (cell_words m src) (drop (Suc k) L)) @ io) = Some (True, c', io)) \<and>
    loaded src L (length L) c' \<and> length (pos c') = length (pos c1)"
    by (rule Suc.hyps(1)) (use Suc.hyps(2) Suc.prems c1 kl in auto)
  then show ?case using c1 by (simp add: dr)
qed

lemma cleared_alike:
  "list_all2 (alike tr vtr n n2) ls (kt_layers ts2) \<Longrightarrow> list_all2 (alike tr vtr n n2) ls (kt_layers (clear_data ts2))"
  by (auto simp: clear_data_def list_all2_map2 alike_def same_shape_def layer_fits_def elim!: list_all2_mono)

text \<open>
  C33: A saved cache is restored.  What \<open>state_write\<close> writes for all sequences (\<open>seq_id\<close> -1), \<open>state_read\<close>
  reads back into any cache with enough cells, the same limit of sequences, the same transposition of the
  values and layers of the same types and row lengths, both caches having tensors as large as their cells:
  both succeed, exactly what was written is consumed, the cache is consistent with the search head at 0, its
  first cells hold the positions and sequences of the used cells in their order, its other cells are empty,
  and in every layer the key row and the value row (with transposed values, each of its elements) of these
  cells are those of the used cells.
\<close>

theorem saved_cache_is_restored:
  assumes "cells_ok (cells kv)" "n_seq_max kv \<le> LLAMA_MAX_PARALLEL_SEQUENCES" "n_seq_max kv2 = n_seq_max kv"
    and "\<forall>i < cells_size (cells kv). seqs (cells kv) ! i \<subseteq> {..<n_seq_max kv}"
    and "length (used_cells (cells kv)) \<le> cells_size (cells kv2)"
    and "kt_v_trans ts2 = kt_v_trans ts"
    and "list_all2 (alike tr (kt_v_trans ts) (cells_size (cells kv)) (cells_size (cells kv2))) (kt_layers ts) (kt_layers ts2)"
  shows "\<exists>io kv' ts'. state_write tr ts kv (-1) = Some io \<and>
    (\<forall>rest. state_read tr (-1) kv2 ts2 (io @ rest) = Some (True, kv', ts', rest)) \<and>
    head kv' = 0 \<and> cells_ok (cells kv') \<and> cells_size (cells kv') = cells_size (cells kv2) \<and>
    (\<forall>j < cells_size (cells kv2).
      pos (cells kv') ! j = (if j < length (used_cells (cells kv)) then pos (cells kv) ! (used_cells (cells kv) ! j) else -1) \<and>
      seqs (cells kv') ! j = (if j < length (used_cells (cells kv)) then seqs (cells kv) ! (used_cells (cells kv) ! j) else {})) \<and>
    list_all2 (\<lambda>l l'. k_copied tr (used_cells (cells kv)) l l' \<and>
        v_copied tr (kt_v_trans ts) (cells_size (cells kv)) (cells_size (cells kv2)) (used_cells (cells kv)) l l')
      (kt_layers ts) (kt_layers ts')"
proof -
  let ?src = "cells kv" and ?L = "used_cells (cells kv)" and ?m = "n_seq_max kv" and ?n2 = "cells_size (cells kv2)"
  obtain rs where rs: "expand rs = ?L"
    "state_write tr ts kv (-1) = map_option (\<lambda>data. int (length ?L) # concat (map (cell_words ?m ?src) ?L) @ data)
      (state_write_data tr ts (cells_size ?src) rs)" by (rule state_write_words)
  have L: "distinct ?L" "set ?L \<subseteq> {..<length (pos ?src)}" "\<forall>i \<in> set ?L. \<not> is_empty i ?src"
    by (auto simp: used_cells_def cells_size_def)
  let ?c0 = "cells (kv_clear kv2)"
  have c0: "loaded ?src ?L 0 ?c0" "length (pos ?c0) = ?n2"
    using reset_ok [of "cells kv2"] by (auto simp: loaded_def kv_clear_def cells_reset_def cells_size_def)
  have "\<exists>c'. (\<forall>io. read_cells ?m [0 ..< length ?L] ?c0 (concat (map (cell_words ?m ?src) (drop 0 ?L)) @ io) = Some (True, c', io)) \<and>
    loaded ?src ?L (length ?L) c' \<and> length (pos c') = length (pos ?c0)"
    by (rule read_cells_load [OF assms(1) L]) (use assms(2,4,5) c0 in \<open>auto simp: cells_size_def\<close>)
  then obtain c' where c': "\<And>io. read_cells ?m [0 ..< length ?L] ?c0 (concat (map (cell_words ?m ?src) ?L) @ io) = Some (True, c', io)"
    "loaded ?src ?L (length ?L) c'" "length (pos c') = ?n2"
    using c0(2) by auto
  let ?kv' = "(kv_clear kv2)\<lparr>cells := c', head := 0\<rparr>"
  have m: "state_read_meta (length ?L) (-1) kv2 (concat (map (cell_words ?m ?src) ?L) @ io) = Some (True, ?kv', io)" for io
    using c'(1) assms(3,5) by (simp add: state_read_meta_def Let_def)
  have n2: "cells_size (cells ?kv') = ?n2" using c'(3) by (simp add: cells_size_def)
  have in_src: "\<forall>i \<in> set (expand rs). i < cells_size ?src" using L(2) rs(1) by (auto simp: cells_size_def)
  have al: "list_all2 (alike tr (kt_v_trans ts) (cells_size ?src) (cells_size (cells ?kv'))) (kt_layers ts) (kt_layers (clear_data ts2))"
    unfolding n2 by (rule cleared_alike [OF assms(7)])
  have vt: "kt_v_trans (clear_data ts2) = kt_v_trans ts" using assms(6) by (simp add: clear_data_def)
  have fits: "length (expand rs) \<le> cells_size (cells ?kv')" "head ?kv' = 0" using assms(5) rs(1) n2 by simp_all
  obtain data ts' where d: "state_write_data tr ts (cells_size ?src) rs = Some data"
    "\<And>rest. state_read_data tr ?kv' (length ?L) (clear_data ts2) (data @ rest) = Some (True, ts', rest)"
    "list_all2 (\<lambda>l l'. k_copied tr ?L l l' \<and> v_copied tr (kt_v_trans ts) (cells_size ?src) ?n2 ?L l l') (kt_layers ts) (kt_layers ts')"
    using data_round_trip [OF in_src fits vt al] unfolding rs(1) n2 by blast
  have "state_read tr (-1) kv2 ts2 ((int (length ?L) # concat (map (cell_words ?m ?src) ?L) @ data) @ rest) = Some (True, ?kv', ts', rest)" for rest
    using m [of "data @ rest"] d(2) [of rest] assms(5) by (simp add: state_read_def)
  then show ?thesis using rs(2) d(1,3) c'(2,3)
    by (intro exI [of _ "int (length ?L) # concat (map (cell_words ?m ?src) ?L) @ data"] exI [of _ ?kv'] exI [of _ ts'])
      (simp add: loaded_def cells_size_def)
qed

definition one_layer :: kv_tensors where
  "one_layer = \<lparr>kt_v_trans = True, kt_layers = [\<lparr>lk_type = 0, lk_embd = 2, lv_type = 0, lv_embd = 1,
     lk_data = [1, 2, 3, 4, 5, 6], lv_data = [7, 8, 9]\<rparr>]\<rparr>"

lemma saved_cache_is_restored_witness:
  "\<exists>io kv' ts' l'. state_write \<lparr>type_size = (\<lambda>_. 1), blck_size = (\<lambda>_. 1)\<rparr> one_layer one_cell_cache (-1) = Some io \<and>
    state_read \<lparr>type_size = (\<lambda>_. 1), blck_size = (\<lambda>_. 1)\<rparr> (-1) one_cell_cache one_layer io = Some (True, kv', ts', []) \<and>
    pos (cells kv') = [5, -1, -1] \<and> kt_layers ts' = [l'] \<and> take 2 (lk_data l') = [3, 4] \<and> take 1 (lv_data l') = [8]"
proof -
  let ?tr = "\<lparr>type_size = (\<lambda>_ :: int. 1), blck_size = (\<lambda>_ :: int. 1)\<rparr> :: ggml_traits"
  have u: "used_cells one_cell = [1]" by (simp add: used_cells_def cells_size_def one_cell_fields is_empty_def upt_rec)
  have c: "cells one_cell_cache = one_cell" "n_seq_max one_cell_cache = 64" by (simp_all add: one_cell_cache_def)
  have s: "cells_size one_cell = 3" by (simp add: cells_size_def one_cell_fields)
  have i3: "i < 3 \<longleftrightarrow> i = 0 \<or> i = 1 \<or> i = (2 :: nat)" for i by auto
  have sub: "\<forall>i < cells_size (cells one_cell_cache). seqs (cells one_cell_cache) ! i \<subseteq> {..<n_seq_max one_cell_cache}"
    unfolding c s i3 by (auto simp: one_cell_fields)
  have ok: "cells_ok (cells one_cell_cache)" using cells_reach_ok [OF one_cell_reach] by (simp add: c)
  have al: "list_all2 (alike ?tr (kt_v_trans one_layer) (cells_size (cells one_cell_cache)) (cells_size (cells one_cell_cache)))
      (kt_layers one_layer) (kt_layers one_layer)"
    by (simp add: one_layer_def alike_def same_shape_def layer_fits_def ggml_row_size_def c s)
  obtain io kv' ts' where r: "state_write ?tr one_layer one_cell_cache (-1) = Some io"
    "\<forall>rest. state_read ?tr (-1) one_cell_cache one_layer (io @ rest) = Some (True, kv', ts', rest)"
    "cells_size (cells kv') = cells_size (cells one_cell_cache)"
    "\<forall>j < cells_size (cells one_cell_cache). pos (cells kv') ! j = (if j < length (used_cells (cells one_cell_cache))
       then pos (cells one_cell_cache) ! (used_cells (cells one_cell_cache) ! j) else -1)"
    "list_all2 (\<lambda>l l'. k_copied ?tr (used_cells (cells one_cell_cache)) l l' \<and>
        v_copied ?tr (kt_v_trans one_layer) (cells_size (cells one_cell_cache)) (cells_size (cells one_cell_cache))
          (used_cells (cells one_cell_cache)) l l') (kt_layers one_layer) (kt_layers ts')"
    using saved_cache_is_restored [OF ok _ refl sub _ refl al] by (auto simp: c u s LLAMA_MAX_PARALLEL_SEQUENCES_def)
  have "pos (cells kv') = [5, -1, -1]"
    using r(3,4) unfolding c u s by (intro nth_equalityI) (auto simp: one_cell_fields i3 cells_size_def)
  moreover obtain l' where "kt_layers ts' = [l']" "take 2 (lk_data l') = [3, 4]" "take 1 (lv_data l') = [8]"
    using r(5) unfolding c u s
    by (auto simp: one_layer_def list_all2_Cons1 k_copied_def v_copied_def row_at_def ggml_row_size_def)
  moreover have "state_read ?tr (-1) one_cell_cache one_layer io = Some (True, kv', ts', [])" using r(2) [rule_format, of "[]"] by simp
  ultimately show ?thesis using r(1) by blast
qed

end
