(* ===== verification/Expert_Cache.thy ===== *)
theory Expert_Cache
  imports Az_List Disk_Queue
begin

text \<open>
  The cache of expert matrices (\<open>moe_sparse_pipeline/expert_cache.cpp\<close>), its reads through io_uring
  (\<open>iou.cpp\<close>) and the requests of the pipeline (\<open>prefetch\<close> and \<open>build_tasks\<close> in \<open>pipeline.cpp\<close>).  A
  buffer is a number; what it holds is the file offset of the block that was read into it last.  The
  main thread handles one matrix at a time under its mutex; the turns of the I/O thread are split into
  taking a message, submitting, and reaping one completed read, which the kernel chooses.  The list of
  recently used matrices is the one of \<open>Az_List\<close> with the address \<open>i + 2\<close> for the node of matrix \<open>i\<close>, the
  queue between the threads is \<open>threadsafe_queue\<close> of \<open>Disk_Queue\<close>.  \<open>None\<close> is a failed assertion or an
  operation that would block.
\<close>

subsection \<open>State\<close>

datatype data_status = DATA_NOT_PRESENT | DATA_LOADING | DATA_PRESENT

definition io_queue_depth :: nat where
  "io_queue_depth = 512"

definition io_alignment :: nat where
  "io_alignment = 4096"

text \<open>\<open>getenv_\<close> for a number: the 64-bit value is compared with a \<open>size_t\<close> and returned as an \<open>int\<close>; the
  initialisation converts it to \<open>size_t\<close>.  \<open>None\<close> is the exit with an error message.\<close>

definition max_n_cached_matrices :: "64 word option \<Rightarrow> nat option" where
  "max_n_cached_matrices env = (case env of
     None \<Rightarrow> Some (3 * 64 * 32)
   | Some v \<Rightarrow> if v < of_nat io_queue_depth then None
       else Some (unat (scast (ucast v :: u32) :: u64)))"

record matrix =
  file_offset :: nat
  m_data :: "nat option"
  m_status :: data_status
  pending_tasks :: "nat list"

datatype io_msg = Fetch nat | Exit

record io_request =
  rq_buffer :: nat
  rq_offset :: nat
  rq_matrix :: nat

record expert_cache =
  n_matrices_total :: nat
  max_cached :: nat
  mats :: "nat \<Rightarrow> matrix"
  ec_lru :: "lru \<times> heap"
  io_queue :: "io_msg tsq"
  prepared :: "io_request list"
  submitted :: "io_request list"
  n_inflight :: nat
  next_buffer :: nat
  memory :: "nat \<Rightarrow> nat option"
  finished :: "nat list"
  scheduled :: "nat list"
  n_cached :: nat
  n_examined :: nat
  n_prefetched :: nat

definition matrix_index :: "nat \<Rightarrow> nat \<Rightarrow> nat \<Rightarrow> nat \<Rightarrow> nat \<Rightarrow> nat" where
  "matrix_index n_experts n_matrices layer_id expert_id matrix_id =
     matrix_id + expert_id * n_matrices + layer_id * n_experts * n_matrices"

definition node_of :: "nat \<Rightarrow> addr" where
  "node_of i = i + 2"

definition owner_of :: "addr \<Rightarrow> nat" where
  "owner_of a = a - 2"

definition ec_init :: "nat \<Rightarrow> nat \<Rightarrow> nat \<Rightarrow> nat \<Rightarrow> nat \<Rightarrow> expert_cache option" where
  "ec_init maxc n_layers n_experts n_matrices matrix_bytes =
     (if matrix_bytes mod io_alignment \<noteq> 0 then None
      else Some \<lparr>n_matrices_total = n_layers * n_experts * n_matrices, max_cached = maxc,
        mats = (\<lambda>i. \<lparr>file_offset = matrix_bytes * i, m_data = None, m_status = DATA_NOT_PRESENT, pending_tasks = []\<rparr>),
        ec_lru = (\<lparr>lru_size = 0, lru_head = 1\<rparr>, \<lparr>prev = (\<lambda>a. a), nxt = (\<lambda>a. a)\<rparr>),
        io_queue = tsq_init io_queue_depth, prepared = [], submitted = [], n_inflight = 0, next_buffer = 0,
        memory = (\<lambda>_. None), finished = [], scheduled = [], n_cached = 0, n_examined = 0, n_prefetched = 0\<rparr>)"

subsection \<open>The main thread\<close>

definition ec_lru_promote :: "nat \<Rightarrow> expert_cache \<Rightarrow> expert_cache option" where
  "ec_lru_promote i c = map_option (\<lambda>l. c\<lparr>ec_lru := l\<rparr>) (lru_promote (node_of i) (ec_lru c))"

definition take_buffer :: "nat \<Rightarrow> expert_cache \<Rightarrow> expert_cache option" where
  "take_buffer i c =
     (if lru_size (fst (ec_lru c)) < max_cached c then
        Some (c\<lparr>mats := (mats c)(i := (mats c i)\<lparr>m_data := Some (next_buffer c)\<rparr>), next_buffer := next_buffer c + 1\<rparr>)
      else Option.bind (lru_evict (ec_lru c)) (\<lambda>(node, l).
        let v = owner_of node; ms = (mats c)(i := (mats c i)\<lparr>m_data := m_data (mats c v)\<rparr>) in
        Some (c\<lparr>ec_lru := l, mats := ms(v := (ms v)\<lparr>m_status := DATA_NOT_PRESENT, m_data := None\<rparr>)\<rparr>)))"

definition allocate_buffer :: "nat \<Rightarrow> expert_cache \<Rightarrow> expert_cache option" where
  "allocate_buffer i c =
     (if m_data (mats c i) \<noteq> None then None
      else Option.bind (take_buffer i c) (\<lambda>c1.
        map_option (\<lambda>l. c1\<lparr>ec_lru := l\<rparr>) (lru_add (node_of i) True (ec_lru c1))))"

definition async_fetch :: "nat \<Rightarrow> expert_cache \<Rightarrow> expert_cache option" where
  "async_fetch i c =
     (if m_status (mats c i) \<noteq> DATA_NOT_PRESENT then None
      else Option.bind (allocate_buffer i (c\<lparr>mats := (mats c)(i := (mats c i)\<lparr>m_status := DATA_LOADING\<rparr>)\<rparr>)) (\<lambda>c1.
        map_option (\<lambda>q. c1\<lparr>io_queue := q\<rparr>) (tsq_push (Fetch i) (io_queue c1))))"

text \<open>The body of the loops of \<open>Pipeline::prefetch\<close>; the flag says whether a fetch was started.\<close>

definition prefetch_matrix :: "nat \<Rightarrow> expert_cache \<Rightarrow> (bool \<times> expert_cache) option" where
  "prefetch_matrix i c =
     (if m_status (mats c i) = DATA_NOT_PRESENT then
        Option.bind (async_fetch i c) (\<lambda>c1. Option.bind (ec_lru_promote i c1) (\<lambda>c2.
          Some (True, c2\<lparr>n_prefetched := n_prefetched c2 + 1\<rparr>)))
      else Some (False, c))"

definition N_MATRICES :: nat where
  "N_MATRICES = 3"

text \<open>The three loops of \<open>prefetch\<close> as the list of the matrices they visit; the return inside of them ends
  all three.\<close>

fun prefetch_loop :: "nat \<Rightarrow> nat list \<Rightarrow> nat \<Rightarrow> expert_cache \<Rightarrow> expert_cache option" where
  "prefetch_loop max_n [] n c = Some c"
| "prefetch_loop max_n (i # rest) n c =
     (if n \<ge> max_n then Some c
      else Option.bind (prefetch_matrix i c) (\<lambda>(started, c1). prefetch_loop max_n rest (if started then n + 1 else n) c1))"

definition prefetch_order :: "nat \<Rightarrow> nat \<Rightarrow> nat \<Rightarrow> nat \<Rightarrow> nat \<Rightarrow> nat list \<Rightarrow> nat list" where
  "prefetch_order n_experts n_matrices layer_id batch_size n_predicted expert_ids =
     concat (map (\<lambda>j. concat (map (\<lambda>i. map (matrix_index n_experts n_matrices layer_id (expert_ids ! (i * n_predicted + j)))
       [0 ..< N_MATRICES]) [0 ..< batch_size])) [0 ..< n_predicted])"

definition prefetch :: "nat \<Rightarrow> nat \<Rightarrow> nat \<Rightarrow> nat \<Rightarrow> nat \<Rightarrow> nat \<Rightarrow> nat \<Rightarrow> nat \<Rightarrow> nat list \<Rightarrow> expert_cache \<Rightarrow> expert_cache option" where
  "prefetch n_layers max_batch n_experts n_matrices layer_id batch_size n_predicted max_n expert_ids c =
     (if \<not> layer_id < n_layers \<or> \<not> batch_size \<le> max_batch then None
      else prefetch_loop max_n (prefetch_order n_experts n_matrices layer_id batch_size n_predicted expert_ids) 0 c)"

text \<open>\<open>build_tasks\<close>: the experts in the order of their number of activations, and for each matrix of an
  active expert the tasks that wait for it.\<close>

definition activation_count :: "nat list \<Rightarrow> nat \<Rightarrow> nat" where
  "activation_count expert_ids e = length (filter ((=) e) expert_ids)"

definition sorted_expert_ids :: "nat \<Rightarrow> nat list \<Rightarrow> nat list" where
  "sorted_expert_ids n_experts expert_ids = sort_key (\<lambda>e. - int (activation_count expert_ids e)) [0 ..< n_experts]"

definition active_rows :: "nat \<Rightarrow> nat \<Rightarrow> nat list \<Rightarrow> nat \<Rightarrow> (nat \<times> nat) list" where
  "active_rows batch_size n_used expert_ids e =
     concat (map (\<lambda>i. case find (\<lambda>j. expert_ids ! (i * n_used + j) = e) [0 ..< n_used] of Some j \<Rightarrow> [(i, j)] | None \<Rightarrow> [])
       [0 ..< batch_size])"

definition examine_matrix :: "nat \<Rightarrow> nat list \<Rightarrow> expert_cache \<Rightarrow> expert_cache option" where
  "examine_matrix i tasks c =
     Option.bind
       (if m_status (mats c i) = DATA_PRESENT then Some (c\<lparr>n_cached := n_cached c + 1\<rparr>)
        else Option.bind (if m_status (mats c i) = DATA_NOT_PRESENT then async_fetch i c else Some c) (\<lambda>c1.
          Some (c1\<lparr>mats := (mats c1)(i := (mats c1 i)\<lparr>pending_tasks := pending_tasks (mats c1 i) @ tasks\<rparr>)\<rparr>)))
       (\<lambda>c2. Option.bind (ec_lru_promote i c2) (\<lambda>c3.
         Some (c3\<lparr>scheduled := scheduled c3 @ tasks, n_examined := n_examined c3 + 1\<rparr>)))"

text \<open>\<open>task_of e m row\<close> numbers the task for matrix \<open>m\<close> of expert \<open>e\<close> and a row of the batch.\<close>

definition expert_tasks :: "(nat \<Rightarrow> nat \<Rightarrow> nat \<times> nat \<Rightarrow> nat) \<Rightarrow> nat \<Rightarrow> nat \<Rightarrow> nat \<Rightarrow> nat \<Rightarrow> nat \<Rightarrow> nat list \<Rightarrow> nat \<Rightarrow>
    expert_cache \<Rightarrow> expert_cache option" where
  "expert_tasks task_of n_experts n_matrices n_used layer_id batch_size expert_ids e =
     fold_opt (\<lambda>m. examine_matrix (matrix_index n_experts n_matrices layer_id e m)
       (map (task_of e m) (active_rows batch_size n_used expert_ids e))) [0 ..< N_MATRICES]"

definition build_tasks :: "(nat \<Rightarrow> nat \<Rightarrow> nat \<times> nat \<Rightarrow> nat) \<Rightarrow> nat \<Rightarrow> nat \<Rightarrow> nat \<Rightarrow> nat \<Rightarrow> nat \<Rightarrow> nat \<Rightarrow> nat \<Rightarrow> nat list \<Rightarrow>
    expert_cache \<Rightarrow> expert_cache option" where
  "build_tasks task_of n_layers max_batch n_experts n_matrices n_used layer_id batch_size expert_ids c =
     (if \<not> layer_id < n_layers \<or> \<not> batch_size \<le> max_batch then None
      else fold_opt (expert_tasks task_of n_experts n_matrices n_used layer_id batch_size expert_ids)
       (filter (\<lambda>e. activation_count expert_ids e \<noteq> 0) (sorted_expert_ids n_experts expert_ids)) c)"

subsection \<open>The I/O thread\<close>

definition enqueue_read :: "io_request \<Rightarrow> expert_cache \<Rightarrow> expert_cache option" where
  "enqueue_read r c = (if \<not> n_inflight c < io_queue_depth then None
     else Some (c\<lparr>n_inflight := n_inflight c + 1, prepared := prepared c @ [r]\<rparr>))"

text \<open>Taking a message: the flag is \<open>any_submit\<close>; \<open>Inr ()\<close> is the exit signal.\<close>

definition io_pop :: "expert_cache \<Rightarrow> ((bool \<times> expert_cache) + unit) option" where
  "io_pop c = Option.bind (tsq_pop (n_inflight c = 0) (io_queue c)) (\<lambda>(v, q). case v of
     None \<Rightarrow> Some (Inl (False, c\<lparr>io_queue := q\<rparr>))
   | Some Exit \<Rightarrow> Some (Inr ())
   | Some (Fetch i) \<Rightarrow> (case m_data (mats c i) of None \<Rightarrow> None
       | Some b \<Rightarrow> map_option (\<lambda>c1. Inl (True, c1))
           (enqueue_read \<lparr>rq_buffer = b, rq_offset = file_offset (mats c i), rq_matrix = i\<rparr> (c\<lparr>io_queue := q\<rparr>))))"

definition submit_and_wait :: "expert_cache \<Rightarrow> expert_cache" where
  "submit_and_wait c = c\<lparr>submitted := submitted c @ prepared c, prepared := []\<rparr>"

text \<open>One completed read: the kernel has filled the buffer; the callback marks the matrix and its tasks.\<close>

definition reap_one :: "io_request \<Rightarrow> expert_cache \<Rightarrow> expert_cache" where
  "reap_one r c = (let i = rq_matrix r in
     c\<lparr>memory := (memory c)(rq_buffer r := Some (rq_offset r)), submitted := remove1 r (submitted c),
       mats := (mats c)(i := (mats c i)\<lparr>m_status := DATA_PRESENT, pending_tasks := []\<rparr>),
       finished := finished c @ pending_tasks (mats c i), n_inflight := n_inflight c - 1\<rparr>)"

text \<open>The destructor after the I/O thread has ended: every matrix in the list of recently used ones gives
  its buffer back.\<close>

fun free_buffers :: "nat \<Rightarrow> expert_cache \<Rightarrow> expert_cache option" where
  "free_buffers 0 c = Some c"
| "free_buffers (Suc k) c = Option.bind (lru_evict (ec_lru c)) (\<lambda>(node, l). let v = owner_of node in
     free_buffers k (c\<lparr>ec_lru := l, mats := (mats c)(v := (mats c v)\<lparr>m_data := None\<rparr>)\<rparr>))"

definition ec_destroy :: "expert_cache \<Rightarrow> expert_cache option" where
  "ec_destroy c = free_buffers (lru_size (fst (ec_lru c))) c"

subsection \<open>Steps of the two threads\<close>

inductive ec_step :: "expert_cache \<Rightarrow> expert_cache \<Rightarrow> bool" where
  step_prefetch: "prefetch_matrix i c = Some (b, c') \<Longrightarrow> ec_step c c'"
| step_examine: "examine_matrix i tasks c = Some c' \<Longrightarrow> ec_step c c'"
| step_pop: "io_pop c = Some (Inl (b, c')) \<Longrightarrow> ec_step c c'"
| step_submit: "ec_step c (submit_and_wait c)"
| step_reap: "r \<in> set (submitted c) \<Longrightarrow> ec_step c (reap_one r c)"

end
