(* ===== verification/Expert_Safety.thy ===== *)
theory Expert_Safety
  imports Expert_Cache
begin

text \<open>
  What the compute tasks rely on: a matrix that is marked present has a buffer of its own that holds its
  block of the file.  The invariant is proved for all interleavings of the two threads in which a fetch never
  takes the buffer of a matrix that is still being read; the last section shows a run in which it does.
\<close>

subsection \<open>The invariant\<close>

definition nodes :: "addr set" where
  "nodes = {a. 2 \<le> a}"

lemma node_owner [simp]: "owner_of (node_of i) = i" "node_of i \<in> nodes" "node_of i = node_of j \<longleftrightarrow> i = j"
  "a \<in> nodes \<Longrightarrow> node_of (owner_of a) = a"
  by (auto simp: node_of_def owner_of_def nodes_def)

text \<open>\<open>buffers_ok\<close>: statuses, buffers and contents of the matrices; \<open>w\<close> are those that wait for data.\<close>

definition buffers_ok :: "expert_cache \<Rightarrow> nat set \<Rightarrow> addr set \<Rightarrow> bool" where
  "buffers_ok c w ns \<longleftrightarrow>
     (\<forall>i. node_of i \<in> ns \<longleftrightarrow> m_status (mats c i) \<noteq> DATA_NOT_PRESENT) \<and>
     (\<forall>i. m_data (mats c i) = None \<longleftrightarrow> m_status (mats c i) = DATA_NOT_PRESENT) \<and>
     (\<forall>i j b. m_data (mats c i) = Some b \<longrightarrow> m_data (mats c j) = Some b \<longrightarrow> i = j) \<and>
     (\<forall>i b. m_data (mats c i) = Some b \<longrightarrow> b < next_buffer c) \<and>
     (\<forall>i b. m_status (mats c i) = DATA_PRESENT \<longrightarrow> m_data (mats c i) = Some b \<longrightarrow> memory c b = Some (file_offset (mats c i))) \<and>
     (\<forall>i. m_status (mats c i) = DATA_LOADING \<longleftrightarrow> i \<in> w) \<and>
     (\<forall>i. pending_tasks (mats c i) \<noteq> [] \<longrightarrow> i \<in> w)"

definition requests_ok :: "expert_cache \<Rightarrow> nat list \<Rightarrow> bool" where
  "requests_ok c msgs \<longleftrightarrow> distinct (msgs @ map rq_matrix (prepared c @ submitted c)) \<and>
     n_inflight c = length (prepared c @ submitted c) \<and>
     (\<forall>r \<in> set (prepared c @ submitted c). m_data (mats c (rq_matrix r)) = Some (rq_buffer r) \<and>
        rq_offset r = file_offset (mats c (rq_matrix r)))"

definition waiting :: "expert_cache \<Rightarrow> nat list \<Rightarrow> nat set" where
  "waiting c msgs = set (msgs @ map rq_matrix (prepared c @ submitted c))"

definition ec_inv :: "expert_cache \<Rightarrow> addr list \<Rightarrow> nat list \<Rightarrow> bool" where
  "ec_inv c xs msgs \<longleftrightarrow> lru_rel nodes (ec_lru c) xs \<and> tsq_view (io_queue c) (map Fetch msgs) \<and>
     buffers_ok c (waiting c msgs) (set xs) \<and> requests_ok c msgs"

text \<open>A new buffer is available, or the matrix whose buffer is taken is not being read.\<close>

definition evicts_loaded :: "expert_cache \<Rightarrow> bool" where
  "evicts_loaded c \<longleftrightarrow> lru_size (fst (ec_lru c)) < max_cached c \<or>
     (case lru_evict (ec_lru c) of None \<Rightarrow> True | Some (node, _) \<Rightarrow> m_status (mats c (owner_of node)) = DATA_PRESENT)"

lemma buffersD:
  assumes "buffers_ok c w ns"
  shows "node_of i \<in> ns \<longleftrightarrow> m_status (mats c i) \<noteq> DATA_NOT_PRESENT"
    "m_data (mats c i) = None \<longleftrightarrow> m_status (mats c i) = DATA_NOT_PRESENT"
    "m_data (mats c i) = Some b \<Longrightarrow> m_data (mats c j) = Some b \<Longrightarrow> i = j"
    "m_data (mats c i) = Some b \<Longrightarrow> b < next_buffer c"
    "m_status (mats c i) = DATA_PRESENT \<Longrightarrow> m_data (mats c i) = Some b \<Longrightarrow> memory c b = Some (file_offset (mats c i))"
    "i \<in> w \<longleftrightarrow> m_status (mats c i) = DATA_LOADING"
    "i \<notin> w \<Longrightarrow> pending_tasks (mats c i) = []"
  using assms unfolding buffers_ok_def by blast+

lemma init_inv: "ec_init maxc nl ne nm bytes = Some c \<Longrightarrow> ec_inv c [] []"
  by (auto simp: ec_init_def ec_inv_def lru_rel_def ring_single nodes_def buffers_ok_def requests_ok_def waiting_def
      io_queue_depth_def tsq_view_init interrupt_signal_def split: if_splits)

subsection \<open>Fetching\<close>

lemma requests_cong:
  assumes "requests_ok c msgs" "prepared c' = prepared c" "submitted c' = submitted c" "n_inflight c' = n_inflight c"
    "i \<notin> waiting c msgs" "\<And>j. j \<in> waiting c msgs \<Longrightarrow> m_data (mats c' j) = m_data (mats c j) \<and> file_offset (mats c' j) = file_offset (mats c j)"
  shows "requests_ok c' (msgs @ [i])" "waiting c' (msgs @ [i]) = insert i (waiting c msgs)"
proof -
  have "m_data (mats c' (rq_matrix r)) = Some (rq_buffer r) \<and> rq_offset r = file_offset (mats c' (rq_matrix r))"
    if "r \<in> set (prepared c @ submitted c)" for r
    using that assms(1) assms(6) [of "rq_matrix r"] by (auto simp: requests_ok_def waiting_def)
  then show "requests_ok c' (msgs @ [i])" using assms(1-5) by (auto simp: requests_ok_def waiting_def)
  show "waiting c' (msgs @ [i]) = insert i (waiting c msgs)" using assms(2,3) by (auto simp: waiting_def)
qed

lemma fetch_inv:
  assumes inv: "ec_inv c xs msgs" and ev: "evicts_loaded c" and f: "async_fetch i c = Some c'"
  shows "\<exists>xs'. ec_inv c' xs' (msgs @ [i]) \<and> m_status (mats c' i) = DATA_LOADING \<and> node_of i \<in> set xs'"
proof -
  have rel: "lru_rel nodes (ec_lru c) xs" and view: "tsq_view (io_queue c) (map Fetch msgs)"
    and buf: "buffers_ok c (waiting c msgs) (set xs)" and req: "requests_ok c msgs" using inv by (auto simp: ec_inv_def)
  have st: "m_status (mats c i) = DATA_NOT_PRESENT" using f by (auto simp: async_fetch_def split: if_splits)
  have fresh: "m_data (mats c i) = None" "node_of i \<notin> set xs" "i \<notin> waiting c msgs" "pending_tasks (mats c i) = []"
    using buffersD [OF buf, where i = i] st by simp_all
  let ?c0 = "c\<lparr>mats := (mats c)(i := (mats c i)\<lparr>m_status := DATA_LOADING\<rparr>)\<rparr>"
  obtain c1 l q where c1: "take_buffer i ?c0 = Some c1" and l: "lru_add (node_of i) True (ec_lru c1) = Some l"
    and q: "tsq_push (Fetch i) (io_queue c1) = Some q" and c': "c' = c1\<lparr>ec_lru := l, io_queue := q\<rparr>"
    using f st fresh(1) by (auto simp: async_fetch_def allocate_buffer_def split: bind_splits)
  show ?thesis
  proof (cases "lru_size (fst (ec_lru c)) < max_cached c")
    case True
    then have e: "c1 = ?c0\<lparr>mats := (mats ?c0)(i := (mats ?c0 i)\<lparr>m_data := Some (next_buffer c)\<rparr>), next_buffer := next_buffer c + 1\<rparr>"
      using c1 by (simp add: take_buffer_def)
    have "lru_rel nodes l (node_of i # xs)" using az_lru.add_ok [OF rel _ fresh(2)] l e by auto
    moreover have "tsq_view q (map Fetch (msgs @ [i]))" using tsq_push_view [OF view] q e by auto
    moreover have r: "requests_ok c' (msgs @ [i])" "waiting c' (msgs @ [i]) = insert i (waiting c msgs)"
      by (rule requests_cong [OF req _ _ _ fresh(3)]; use fresh(3) in \<open>auto simp: c' e\<close>)+
    moreover have "buffers_ok c' (insert i (waiting c msgs)) (set (node_of i # xs))"
      using buf unfolding buffers_ok_def by (auto simp: c' e less_Suc_eq)
    ultimately show ?thesis by (intro exI [of _ "node_of i # xs"]) (auto simp: ec_inv_def c' e)
  next
    case False
    then obtain n l0 where n: "lru_evict (ec_lru c) = Some (n, l0)" using c1 by (auto simp: take_buffer_def split: bind_splits)
    have "xs \<noteq> []"
    proof
      assume "xs = []"
      then have "ring (snd (ec_lru c)) [lru_head (fst (ec_lru c))]" using rel by (simp add: lru_rel_def)
      then show False using n by (auto simp: lru_evict_def ring_empty_iff split: prod.splits)
    qed
    then have l0: "lru_rel nodes l0 (butlast xs)" "n = last xs" using az_lru.evict_ok [OF rel] n by auto
    have nm: "n \<in> nodes" "n \<in> set xs" using \<open>xs \<noteq> []\<close> l0(2) rel by (auto simp: lru_rel_def)
    define v where "v = owner_of n"
    have nv: "n = node_of v" using nm by (simp add: v_def)
    have vi: "v \<noteq> i" using nm(2) nv fresh(2) by auto
    have vp: "m_status (mats c v) = DATA_PRESENT" using ev False n by (simp add: evicts_loaded_def v_def)
    then have vw: "v \<notin> waiting c msgs" using buffersD(6) [OF buf, of v] by simp
    obtain b where b: "m_data (mats c v) = Some b"
      using buffersD(2) [OF buf, of v] vp by (cases "m_data (mats c v)") auto
    have e: "c1 = c\<lparr>ec_lru := l0, mats := ((mats c)(i := (mats c i)\<lparr>m_status := DATA_LOADING, m_data := Some b\<rparr>))
        (v := (mats c v)\<lparr>m_status := DATA_NOT_PRESENT, m_data := None\<rparr>)\<rparr>"
      using c1 False n vi b by (simp add: take_buffer_def Let_def v_def [symmetric])
    have sx: "set (butlast xs) = set xs - {n}" "node_of i \<notin> set (butlast xs)"
    proof -
      have "distinct xs" using rel by (auto simp: lru_rel_def ring_def)
      then show s: "set (butlast xs) = set xs - {n}" using \<open>xs \<noteq> []\<close> l0(2)
        by (metis Diff_insert_absorb append_butlast_last_id distinct_append disjoint_insert(1) inf_commute list.simps(15) rotate1.simps(2) set_rotate1)
      show "node_of i \<notin> set (butlast xs)" using s fresh(2) by auto
    qed
    have "lru_rel nodes l (node_of i # butlast xs)" using az_lru.add_ok [OF l0(1) _ sx(2)] l e by auto
    moreover have "tsq_view q (map Fetch (msgs @ [i]))" using tsq_push_view [OF view] q e by auto
    moreover have r: "requests_ok c' (msgs @ [i])" "waiting c' (msgs @ [i]) = insert i (waiting c msgs)"
      by (rule requests_cong [OF req _ _ _ fresh(3)]; use fresh(3) vw in \<open>auto simp: c' e\<close>)+
    moreover have "buffers_ok c' (insert i (waiting c msgs)) (set (node_of i # butlast xs))"
      using buf vi b vp vw nv fresh(4) unfolding buffers_ok_def by (auto simp: c' e sx(1))
    ultimately show ?thesis using vi by (intro exI [of _ "node_of i # butlast xs"]) (auto simp: ec_inv_def c' e)
  qed
qed

subsection \<open>The other steps\<close>

lemma promote_inv:
  assumes "ec_inv c xs msgs" "node_of i \<in> set xs" "ec_lru_promote i c = Some c'"
  shows "\<exists>xs'. ec_inv c' xs' msgs"
proof -
  have rel: "lru_rel nodes (ec_lru c) xs" using assms(1) by (simp add: ec_inv_def)
  obtain l where l: "lru_promote (node_of i) (ec_lru c) = Some l" "c' = c\<lparr>ec_lru := l\<rparr>"
    using assms(3) by (auto simp: ec_lru_promote_def)
  note p = az_lru.promote_perm [OF rel assms(2) l(1)]
  have "buffers_ok c' (waiting c' msgs) (set (node_of i # remove1 (node_of i) xs))"
    using assms(1) unfolding p(2) by (simp add: ec_inv_def l(2) buffers_ok_def waiting_def)
  then show ?thesis using assms(1) p(1)
    by (intro exI [of _ "node_of i # remove1 (node_of i) xs"]) (simp add: ec_inv_def l(2) requests_ok_def waiting_def)
qed

lemma prefetch_inv:
  assumes "ec_inv c xs msgs" "prefetch_matrix i c = Some (b, c')"
    "m_status (mats c i) = DATA_NOT_PRESENT \<Longrightarrow> evicts_loaded c"
  shows "\<exists>xs' msgs'. ec_inv c' xs' msgs'"
proof (cases "m_status (mats c i) = DATA_NOT_PRESENT")
  case True
  then obtain c1 c2 where "async_fetch i c = Some c1" "ec_lru_promote i c1 = Some c2" "c' = c2\<lparr>n_prefetched := n_prefetched c2 + 1\<rparr>"
    using assms(2) by (auto simp: prefetch_matrix_def split: bind_splits)
  moreover have "ec_inv (c2\<lparr>n_prefetched := n\<rparr>) ys ms = ec_inv c2 ys ms" for n ys ms
    by (simp add: ec_inv_def buffers_ok_def requests_ok_def waiting_def)
  ultimately show ?thesis using fetch_inv [OF assms(1) assms(3) [OF True]] promote_inv by metis
next
  case False
  then show ?thesis using assms(1,2) by (auto simp: prefetch_matrix_def)
qed

lemma add_pending_inv:
  assumes "ec_inv c xs msgs" "m_status (mats c i) = DATA_LOADING"
  shows "ec_inv (c\<lparr>mats := (mats c)(i := (mats c i)\<lparr>pending_tasks := pending_tasks (mats c i) @ ts\<rparr>)\<rparr>) xs msgs"
proof -
  have buf: "buffers_ok c (waiting c msgs) (set xs)" using assms(1) by (simp add: ec_inv_def)
  let ?c = "c\<lparr>mats := (mats c)(i := (mats c i)\<lparr>pending_tasks := pending_tasks (mats c i) @ ts\<rparr>)\<rparr>"
  have iw: "i \<in> waiting c msgs" using buffersD(6) [OF buf] assms(2) by simp
  have w: "waiting ?c msgs = waiting c msgs" by (simp add: waiting_def)
  have same: "m_data (mats ?c j) = m_data (mats c j)" "m_status (mats ?c j) = m_status (mats c j)"
    "file_offset (mats ?c j) = file_offset (mats c j)" for j by simp_all
  have "pending_tasks (mats ?c j) \<noteq> [] \<Longrightarrow> j \<in> waiting c msgs" for j
    using iw buffersD(7) [OF buf, of j] by (cases "j = i") auto
  then have "buffers_ok ?c (waiting c msgs) (set xs)" using buf unfolding buffers_ok_def same by simp
  moreover have "requests_ok ?c msgs" using assms(1) unfolding ec_inv_def requests_ok_def same by simp
  ultimately show ?thesis using assms(1) w by (simp add: ec_inv_def)
qed

lemma examine_inv:
  assumes inv: "ec_inv c xs msgs" and ex: "examine_matrix i ts c = Some c'"
    and ev: "m_status (mats c i) = DATA_NOT_PRESENT \<Longrightarrow> evicts_loaded c"
  shows "\<exists>xs' msgs'. ec_inv c' xs' msgs'"
proof -
  have frame: "ec_inv (c2\<lparr>n_cached := n1\<rparr>) ys ms = ec_inv c2 ys ms" "ec_inv (c2\<lparr>scheduled := s, n_examined := n2\<rparr>) ys ms = ec_inv c2 ys ms"
    for c2 n1 n2 s ys ms by (simp_all add: ec_inv_def buffers_ok_def requests_ok_def waiting_def)
  have buf: "buffers_ok c (waiting c msgs) (set xs)" using inv by (simp add: ec_inv_def)
  obtain c2 c3 where c2: "(if m_status (mats c i) = DATA_PRESENT then Some (c\<lparr>n_cached := n_cached c + 1\<rparr>)
        else Option.bind (if m_status (mats c i) = DATA_NOT_PRESENT then async_fetch i c else Some c) (\<lambda>c1.
          Some (c1\<lparr>mats := (mats c1)(i := (mats c1 i)\<lparr>pending_tasks := pending_tasks (mats c1 i) @ ts\<rparr>)\<rparr>))) = Some c2"
    and c3: "ec_lru_promote i c2 = Some c3" "c' = c3\<lparr>scheduled := scheduled c3 @ ts, n_examined := n_examined c3 + 1\<rparr>"
    using ex unfolding examine_matrix_def by (auto split: bind_splits)
  have "\<exists>ys ms. ec_inv c2 ys ms \<and> node_of i \<in> set ys"
  proof (cases "m_status (mats c i)")
    case DATA_PRESENT
    then have "node_of i \<in> set xs" using buffersD(1) [OF buf] by simp
    moreover have "ec_inv c2 xs msgs" using c2 inv DATA_PRESENT frame(1) by auto
    ultimately show ?thesis by blast
  next
    case DATA_LOADING
    then have "node_of i \<in> set xs" using buffersD(1) [OF buf] by simp
    then show ?thesis using c2 add_pending_inv [OF inv DATA_LOADING] DATA_LOADING by auto
  next
    case DATA_NOT_PRESENT
    then obtain c1 where c1: "async_fetch i c = Some c1"
      "c2 = c1\<lparr>mats := (mats c1)(i := (mats c1 i)\<lparr>pending_tasks := pending_tasks (mats c1 i) @ ts\<rparr>)\<rparr>"
      using c2 by (auto split: bind_splits)
    obtain ys where "ec_inv c1 ys (msgs @ [i])" "m_status (mats c1 i) = DATA_LOADING" "node_of i \<in> set ys"
      using fetch_inv [OF inv ev [OF DATA_NOT_PRESENT] c1(1)] by blast
    then show ?thesis using add_pending_inv c1(2) by blast
  qed
  then obtain zs ms where "ec_inv c3 zs ms" using promote_inv c3(1) by blast
  then show ?thesis using c3(2) frame(2) by auto
qed

lemma pop_inv:
  assumes inv: "ec_inv c xs msgs" and p: "io_pop c = Some (Inl (b, c'))"
  shows "\<exists>msgs'. ec_inv c' xs msgs'"
proof -
  have view: "tsq_view (io_queue c) (map Fetch msgs)" and buf: "buffers_ok c (waiting c msgs) (set xs)" and req: "requests_ok c msgs"
    using inv by (auto simp: ec_inv_def)
  show ?thesis
  proof (cases msgs)
    case Nil
    then have "q_count (io_queue c) = 0" using view by (simp add: tsq_view_def)
    then have "io_pop c = (if n_inflight c = 0 then None else Some (Inl (False, c)))" by (auto simp: io_pop_def tsq_pop_def)
    then show ?thesis using p inv by (auto split: if_splits)
  next
    case (Cons i ms)
    obtain q where q: "tsq_pop (n_inflight c = 0) (io_queue c) = Some (Some (Fetch i), q)" "tsq_view q (map Fetch ms)"
      using tsq_pop_view [of "io_queue c" "Fetch i" "map Fetch ms"] view Cons by auto
    obtain d where d: "m_data (mats c i) = Some d" using p q(1) by (auto simp: io_pop_def split: option.splits)
    let ?r = "\<lparr>rq_buffer = d, rq_offset = file_offset (mats c i), rq_matrix = i\<rparr>"
    have c': "c' = c\<lparr>io_queue := q, n_inflight := n_inflight c + 1, prepared := prepared c @ [?r]\<rparr>"
      using p q(1) d by (auto simp: io_pop_def enqueue_read_def split: if_splits)
    have w: "waiting c' ms = waiting c msgs" by (auto simp: c' waiting_def Cons)
    have "requests_ok c' ms" using req d by (auto simp: c' requests_ok_def Cons)
    moreover have "buffers_ok c' (waiting c' ms) (set xs)" using buf unfolding w by (simp add: c' buffers_ok_def)
    ultimately show ?thesis using inv q(2) by (intro exI [of _ ms]) (simp add: ec_inv_def c')
  qed
qed

lemma submit_inv: "ec_inv c xs msgs \<Longrightarrow> ec_inv (submit_and_wait c) xs msgs"
  by (auto simp: ec_inv_def submit_and_wait_def requests_ok_def buffers_ok_def waiting_def)

lemma reap_inv:
  assumes inv: "ec_inv c xs msgs" and r: "r \<in> set (submitted c)"
  shows "ec_inv (reap_one r c) xs msgs"
proof -
  let ?i = "rq_matrix r" and ?c = "reap_one r c"
  have buf: "buffers_ok c (waiting c msgs) (set xs)" and req: "requests_ok c msgs" using inv by (auto simp: ec_inv_def)
  have dist: "distinct (msgs @ map rq_matrix (prepared c @ submitted c))" using req by (simp add: requests_ok_def)
  have d: "m_data (mats c ?i) = Some (rq_buffer r)" "rq_offset r = file_offset (mats c ?i)" using req r by (auto simp: requests_ok_def)
  have iw: "?i \<in> waiting c msgs" using r by (auto simp: waiting_def)
  have "distinct (submitted c)" "inj_on rq_matrix (set (submitted c))" using dist by (auto simp: distinct_map)
  then have rem: "set (remove1 r (submitted c)) = set (submitted c) - {r}" "distinct (map rq_matrix (remove1 r (submitted c)))"
    by (auto simp: set_remove1_eq distinct_map intro: inj_on_subset)
  have w: "waiting ?c msgs = waiting c msgs - {?i}"
  proof -
    have "?i \<notin> set msgs \<union> rq_matrix ` set (prepared c)" using dist r by auto
    moreover have "rq_matrix ` (set (submitted c) - {r}) = rq_matrix ` set (submitted c) - {?i}"
      using \<open>inj_on rq_matrix (set (submitted c))\<close> r by (auto simp: inj_on_def)
    ultimately show ?thesis by (auto simp: waiting_def reap_one_def Let_def rem(1))
  qed
  have own: "j = ?i" if "m_data (mats c j) = Some (rq_buffer r)" for j using buffersD(3) [OF buf that d(1)] .
  have ld: "m_status (mats c ?i) = DATA_LOADING" using buffersD(6) [OF buf] iw by simp
  have same: "m_data (mats ?c j) = m_data (mats c j)" "file_offset (mats ?c j) = file_offset (mats c j)"
    "m_status (mats ?c j) = (if j = ?i then DATA_PRESENT else m_status (mats c j))"
    "pending_tasks (mats ?c j) = (if j = ?i then [] else pending_tasks (mats c j))"
    "memory ?c b = (if b = rq_buffer r then Some (file_offset (mats c ?i)) else memory c b)" "next_buffer ?c = next_buffer c" for j b
    using d(2) by (simp_all add: reap_one_def Let_def)
  have "memory ?c b = Some (file_offset (mats c j))"
    if "m_status (mats ?c j) = DATA_PRESENT" "m_data (mats c j) = Some b" for j b
  proof (cases "j = ?i")
    case True
    then show ?thesis using that(2) d(1) by (simp add: same)
  next
    case False
    then have "b \<noteq> rq_buffer r" using own [of j] that(2) by auto
    then show ?thesis using that False buffersD(5) [OF buf, of j b] by (simp add: same)
  qed
  moreover have "node_of j \<in> set xs \<longleftrightarrow> m_status (mats ?c j) \<noteq> DATA_NOT_PRESENT"
    "m_data (mats c j) = None \<longleftrightarrow> m_status (mats ?c j) = DATA_NOT_PRESENT"
    "m_status (mats ?c j) = DATA_LOADING \<longleftrightarrow> j \<in> waiting c msgs - {?i}"
    "pending_tasks (mats ?c j) \<noteq> [] \<longrightarrow> j \<in> waiting c msgs - {?i}" for j
    using buffersD(1,2,6,7) [OF buf, of j] ld by (cases "j = ?i"; simp add: same; blast)+
  ultimately have "buffers_ok ?c (waiting c msgs - {?i}) (set xs)"
    using buffersD(3,4) [OF buf] unfolding buffers_ok_def same(1,2,6) by blast
  moreover have "requests_ok ?c msgs"
  proof -
    have "distinct (msgs @ map rq_matrix (prepared c) @ map rq_matrix (remove1 r (submitted c)))"
      using dist rem by auto
    moreover have "n_inflight c - 1 = length (prepared c) + length (remove1 r (submitted c))"
    proof -
      have "n_inflight c = length (prepared c) + length (submitted c)" using req by (simp add: requests_ok_def)
      moreover have "length (remove1 r (submitted c)) = length (submitted c) - 1" "length (submitted c) > 0"
        using r by (auto simp: length_remove1)
      ultimately show ?thesis by linarith
    qed
    moreover have f: "prepared ?c = prepared c" "submitted ?c = remove1 r (submitted c)" "n_inflight ?c = n_inflight c - 1"
      by (simp_all add: reap_one_def Let_def)
    ultimately show ?thesis using req unfolding requests_ok_def f same(1,2) by (auto simp: rem(1))
  qed
  ultimately show ?thesis using inv w by (simp add: ec_inv_def) (simp add: reap_one_def Let_def)
qed

subsection \<open>Reachable states\<close>

text \<open>A step starts a fetch when it puts a message into the queue of the I/O thread.\<close>

definition starts_fetch :: "expert_cache \<Rightarrow> expert_cache \<Rightarrow> bool" where
  "starts_fetch c c' \<longleftrightarrow> q_count (io_queue c) < q_count (io_queue c')"

inductive ec_reach :: "nat \<Rightarrow> expert_cache \<Rightarrow> bool" for maxc where
  reach_init: "ec_init maxc nl ne nm bytes = Some c \<Longrightarrow> ec_reach maxc c"
| reach_step: "ec_reach maxc c \<Longrightarrow> ec_step c c' \<Longrightarrow> (starts_fetch c c' \<longrightarrow> evicts_loaded c) \<Longrightarrow> ec_reach maxc c'"

lemma fetch_count: "async_fetch i c = Some c' \<Longrightarrow> q_count (io_queue c') = q_count (io_queue c) + 1"
  by (auto simp: async_fetch_def allocate_buffer_def take_buffer_def tsq_push_def Let_def split: bind_splits if_splits)

lemma promote_count: "ec_lru_promote i c = Some c' \<Longrightarrow> io_queue c' = io_queue c"
  by (auto simp: ec_lru_promote_def)

lemma examine_count:
  assumes "examine_matrix i ts c = Some c'" "m_status (mats c i) = DATA_NOT_PRESENT"
  shows "q_count (io_queue c') = q_count (io_queue c) + 1"
proof (cases "async_fetch i c")
  case None
  then show ?thesis using assms by (simp add: examine_matrix_def)
next
  case (Some c1)
  let ?c2 = "c1\<lparr>mats := (mats c1)(i := (mats c1 i)\<lparr>pending_tasks := pending_tasks (mats c1 i) @ ts\<rparr>)\<rparr>"
  obtain c3 where "ec_lru_promote i ?c2 = Some c3" "io_queue c' = io_queue c3"
    using assms Some by (cases "ec_lru_promote i ?c2") (auto simp: examine_matrix_def)
  then show ?thesis using promote_count fetch_count [OF Some] by fastforce
qed

lemma step_inv:
  assumes "ec_step c c'" "ec_inv c xs msgs" "starts_fetch c c' \<longrightarrow> evicts_loaded c"
  shows "\<exists>xs' msgs'. ec_inv c' xs' msgs'"
  using assms(1)
proof (cases rule: ec_step.cases)
  case (step_prefetch i b)
  have "evicts_loaded c" if np: "m_status (mats c i) = DATA_NOT_PRESENT"
  proof -
    obtain c1 c2 where "async_fetch i c = Some c1" "ec_lru_promote i c1 = Some c2" "c' = c2\<lparr>n_prefetched := n_prefetched c2 + 1\<rparr>"
      using step_prefetch np by (auto simp: prefetch_matrix_def split: bind_splits)
    then have "starts_fetch c c'" using fetch_count promote_count by (simp add: starts_fetch_def)
    then show ?thesis using assms(3) by simp
  qed
  then show ?thesis by (rule prefetch_inv [OF assms(2) step_prefetch])
next
  case (step_examine i ts)
  have "evicts_loaded c" if np: "m_status (mats c i) = DATA_NOT_PRESENT"
  proof -
    have "starts_fetch c c'" using examine_count [OF step_examine np] by (simp add: starts_fetch_def)
    then show ?thesis using assms(3) by simp
  qed
  then show ?thesis by (rule examine_inv [OF assms(2) step_examine])
next
  case (step_pop b)
  then show ?thesis using pop_inv [OF assms(2)] by blast
next
  case step_submit
  then show ?thesis using submit_inv [OF assms(2)] by blast
next
  case (step_reap r)
  then show ?thesis using reap_inv [OF assms(2)] by blast
qed

lemma reach_inv: "ec_reach maxc c \<Longrightarrow> \<exists>xs msgs. ec_inv c xs msgs"
proof (induction rule: ec_reach.induct)
  case (reach_init nl ne nm bytes c)
  then show ?case using init_inv by blast
next
  case (reach_step c c')
  then show ?case using step_inv by blast
qed

text \<open>
  C11: Data that is present is the right data.  In every state that the main thread and the I/O thread
  reach, for any interleaving and any order in which the reads complete, provided that a fetch that needs
  an old buffer takes it from a matrix that is present: a matrix that is marked present has a buffer, no
  other matrix has it, the buffer holds the matrix's block of the file and no task still waits for it; a
  matrix that is not present has no buffer; and the assertion on the data of a request cannot fail.
\<close>

theorem present_data_is_right:
  assumes "ec_reach maxc c"
  shows "(m_status (mats c i) = DATA_PRESENT \<longrightarrow>
      (\<exists>b. m_data (mats c i) = Some b \<and> memory c b = Some (file_offset (mats c i)) \<and>
        (\<forall>j. j \<noteq> i \<longrightarrow> m_data (mats c j) \<noteq> Some b)) \<and> pending_tasks (mats c i) = []) \<and>
    (m_status (mats c i) = DATA_NOT_PRESENT \<longleftrightarrow> m_data (mats c i) = None) \<and>
    (\<forall>q. tsq_pop (n_inflight c = 0) (io_queue c) = Some (Some (Fetch i), q) \<longrightarrow> m_data (mats c i) \<noteq> None)"
proof -
  obtain xs msgs where inv: "ec_inv c xs msgs" using reach_inv [OF assms] by blast
  then have buf: "buffers_ok c (waiting c msgs) (set xs)" and view: "tsq_view (io_queue c) (map Fetch msgs)" by (auto simp: ec_inv_def)
  have "\<exists>b. m_data (mats c i) = Some b \<and> memory c b = Some (file_offset (mats c i)) \<and> (\<forall>j. j \<noteq> i \<longrightarrow> m_data (mats c j) \<noteq> Some b)"
    if p: "m_status (mats c i) = DATA_PRESENT"
  proof -
    obtain b where b: "m_data (mats c i) = Some b" using buffersD(2) [OF buf, of i] p by (cases "m_data (mats c i)") auto
    then show ?thesis using buffersD(5) [OF buf p b] buffersD(3) [OF buf b] by blast
  qed
  moreover have "pending_tasks (mats c i) = []" if "m_status (mats c i) = DATA_PRESENT"
    using buffersD(6,7) [OF buf, of i] that by simp
  moreover have "m_data (mats c i) \<noteq> None" if "tsq_pop (n_inflight c = 0) (io_queue c) = Some (Some (Fetch i), q)" for q
  proof (cases msgs)
    case Nil
    then have "q_count (io_queue c) = 0" using view by (simp add: tsq_view_def)
    then show ?thesis using that by (simp add: tsq_pop_def split: if_splits)
  next
    case (Cons j ms)
    then obtain q' where "tsq_pop (n_inflight c = 0) (io_queue c) = Some (Some (Fetch j), q')"
      using tsq_pop_view [of "io_queue c" "Fetch j" "map Fetch ms"] view by auto
    then have "i = j" using that by simp
    then have "i \<in> waiting c msgs" by (simp add: waiting_def Cons)
    then show ?thesis using buffersD(2,6) [OF buf, of i] by simp
  qed
  ultimately show ?thesis using buffersD(2) [OF buf, of i] by blast
qed

subsection \<open>A run\<close>

text \<open>\<open>loading n k c\<close>: the matrices before \<open>k\<close> have been fetched in order and are all being read.\<close>

definition loading :: "nat \<Rightarrow> nat \<Rightarrow> expert_cache \<Rightarrow> bool" where
  "loading n k c \<longleftrightarrow> ec_reach n c \<and> max_cached c = n \<and> lru_rel nodes (ec_lru c) (map node_of (rev [0 ..< k])) \<and>
     tsq_view (io_queue c) [] \<and> prepared c = [] \<and> n_inflight c = k \<and> next_buffer c = k \<and>
     (\<forall>i. mats c i = \<lparr>file_offset = 4096 * i, m_data = (if i < k then Some i else None),
        m_status = (if i < k then DATA_LOADING else DATA_NOT_PRESENT), pending_tasks = []\<rparr>) \<and>
     submitted c = map (\<lambda>i. \<lparr>rq_buffer = i, rq_offset = 4096 * i, rq_matrix = i\<rparr>) [0 ..< k]"

lemma loading_init: "\<exists>c. ec_init n 3 64 3 4096 = Some c \<and> loading n 0 c"
proof -
  obtain c where c: "ec_init n 3 64 3 4096 = Some c" by (simp add: ec_init_def io_alignment_def)
  have "ec_reach n c" by (rule reach_init [OF c])
  moreover have "lru_rel nodes (ec_lru c) []" "tsq_view (io_queue c) (map Fetch [])"
    using init_inv [OF c] by (auto simp: ec_inv_def)
  ultimately show ?thesis using c by (auto simp: loading_def ec_init_def io_alignment_def)
qed

lemma fetch_next:
  assumes l: "loading n k c" and k: "k < n"
  shows "\<exists>c'. prefetch_matrix k c = Some (True, c') \<and> ec_reach n c' \<and> max_cached c' = n \<and>
    lru_rel nodes (ec_lru c') (map node_of (rev [0 ..< Suc k])) \<and> tsq_view (io_queue c') [Fetch k] \<and>
    prepared c' = [] \<and> n_inflight c' = k \<and> next_buffer c' = Suc k \<and> submitted c' = submitted c \<and>
    mats c' = (mats c)(k := \<lparr>file_offset = 4096 * k, m_data = Some k, m_status = DATA_LOADING, pending_tasks = []\<rparr>)"
proof -
  let ?xs = "map node_of (rev [0 ..< k])"
  have rel: "lru_rel nodes (ec_lru c) ?xs" and sz: "lru_size (fst (ec_lru c)) < max_cached c"
    using l k by (auto simp: loading_def lru_rel_def)
  have new: "node_of k \<notin> set ?xs" by auto
  obtain l1 l2 where l1: "lru_add (node_of k) True (ec_lru c) = Some l1" and l2: "lru_promote (node_of k) l1 = Some l2"
    and rel2: "lru_rel nodes l2 (node_of k # ?xs)" by (rule az_lru.add_promote [OF rel _ new]) auto
  have view: "tsq_view (io_queue c) []" using l by (simp add: loading_def)
  then have "tsq_push (Fetch k) (io_queue c) \<noteq> None" by (simp add: tsq_push_def tsq_view_def)
  then obtain q where q: "tsq_push (Fetch k) (io_queue c) = Some q" by auto
  have m: "mats c k = \<lparr>file_offset = 4096 * k, m_data = None, m_status = DATA_NOT_PRESENT, pending_tasks = []\<rparr>"
    "next_buffer c = k" using l by (auto simp: loading_def)
  let ?c' = "c\<lparr>mats := (mats c)(k := \<lparr>file_offset = 4096 * k, m_data = Some k, m_status = DATA_LOADING, pending_tasks = []\<rparr>),
    next_buffer := Suc k, ec_lru := l2, io_queue := q, n_prefetched := n_prefetched c + 1\<rparr>"
  have p: "prefetch_matrix k c = Some (True, ?c')"
    using l1 l2 q m sz by (simp add: prefetch_matrix_def async_fetch_def allocate_buffer_def take_buffer_def ec_lru_promote_def)
  have "ec_reach n ?c'"
    by (rule reach_step [of n c]) (use l sz step_prefetch [OF p] in \<open>auto simp: loading_def evicts_loaded_def\<close>)
  then show ?thesis using p l rel2 tsq_push_view [OF view q] by (intro exI [of _ ?c']) (simp add: loading_def)
qed

lemma loading_step:
  assumes l: "loading n k c" and k: "k < n" "k < io_queue_depth"
  shows "\<exists>c'. loading n (Suc k) c'"
proof -
  obtain c1 where c1: "prefetch_matrix k c = Some (True, c1)" "ec_reach n c1" "max_cached c1 = n"
    "lru_rel nodes (ec_lru c1) (map node_of (rev [0 ..< Suc k]))" "tsq_view (io_queue c1) [Fetch k]"
    "prepared c1 = []" "n_inflight c1 = k" "next_buffer c1 = Suc k" "submitted c1 = submitted c"
    "mats c1 = (mats c)(k := \<lparr>file_offset = 4096 * k, m_data = Some k, m_status = DATA_LOADING, pending_tasks = []\<rparr>)"
    using fetch_next [OF l k(1)] by blast
  obtain q where q: "tsq_pop (n_inflight c1 = 0) (io_queue c1) = Some (Some (Fetch k), q)" "tsq_view q []"
    using tsq_pop_view [OF c1(5)] by blast
  let ?r = "\<lparr>rq_buffer = k, rq_offset = 4096 * k, rq_matrix = k\<rparr>"
  let ?c2 = "c1\<lparr>io_queue := q, n_inflight := Suc k, prepared := [?r]\<rparr>"
  have p: "io_pop c1 = Some (Inl (True, ?c2))" using q k(2) c1(6,7,10) by (simp add: io_pop_def enqueue_read_def)
  have "\<not> starts_fetch c1 ?c2" using q(2) by (simp add: starts_fetch_def tsq_view_def)
  then have r2: "ec_reach n ?c2" by (intro reach_step [OF c1(2) step_pop [OF p]]) simp
  have "ec_reach n (submit_and_wait ?c2)"
    by (rule reach_step [OF r2 step_submit]) (simp add: starts_fetch_def submit_and_wait_def)
  then have "loading n (Suc k) (submit_and_wait ?c2)"
    using l c1 q(2) by (simp add: loading_def submit_and_wait_def)
  then show ?thesis by blast
qed

lemma loading_all: "k \<le> n \<Longrightarrow> k \<le> io_queue_depth \<Longrightarrow> \<exists>c. loading n k c"
proof (induction k)
  case 0
  then show ?case using loading_init by blast
next
  case (Suc k)
  then obtain c where "loading n k c" by auto
  then show ?case using loading_step Suc.prems by auto
qed

lemma present_data_is_right_witness:
  "\<exists>c. ec_reach 512 c \<and> m_status (mats c 0) = DATA_PRESENT \<and>
    (\<exists>b. m_data (mats c 0) = Some b \<and> memory c b = Some (file_offset (mats c 0)))"
proof -
  obtain c where l: "loading 512 1 c" using loading_all [of 1 512] by (auto simp: io_queue_depth_def)
  let ?r = "\<lparr>rq_buffer = 0, rq_offset = 0, rq_matrix = 0\<rparr> :: io_request"
  have r: "?r \<in> set (submitted c)" using l by (simp add: loading_def)
  have re: "ec_reach 512 (reap_one ?r c)"
    by (rule reach_step [of 512 c]) (use l step_reap [OF r] in \<open>auto simp: loading_def starts_fetch_def reap_one_def Let_def\<close>)
  have st: "m_status (mats (reap_one ?r c) 0) = DATA_PRESENT" by (simp add: reap_one_def Let_def)
  show ?thesis using present_data_is_right [OF re, of 0] re st by blast
qed

text \<open>
  A fetch can take the buffer of a matrix that is still being read.  With the smallest cache that
  \<open>MAX_N_CACHED\<close> allows (512 matrices), after 512 fetches none of which has completed the next fetch is
  given the buffer of matrix 0; when the read of matrix 0 completes, matrix 0 is marked present without
  having a buffer, and the buffer of the new matrix holds the block of matrix 0.
\<close>

theorem eviction_of_loading_matrix:
  "max_n_cached_matrices (Some 512) = Some 512 \<and>
   (\<exists>c c1 r. ec_reach 512 c \<and> prefetch_matrix 512 c = Some (True, c1) \<and> r \<in> set (submitted c1) \<and>
      (let c2 = reap_one r c1 in
       m_status (mats c2 0) = DATA_PRESENT \<and> m_data (mats c2 0) = None \<and>
       m_status (mats c2 512) = DATA_LOADING \<and> m_data (mats c2 512) = Some (rq_buffer r) \<and>
       memory c2 (rq_buffer r) = Some (file_offset (mats c2 0))))"
proof -
  obtain c where l: "loading 512 512 c" using loading_all [of 512 512] by (auto simp: io_queue_depth_def)
  let ?xs = "map node_of (rev [0 ..< 512])"
  have rel: "lru_rel nodes (ec_lru c) ?xs" and sz: "lru_size (fst (ec_lru c)) = 512" and mx: "max_cached c = 512"
    using l by (auto simp: loading_def lru_rel_def)
  have new: "node_of 512 \<notin> set ?xs" by auto
  have ne: "?xs \<noteq> []" by (simp only: map_is_Nil_conv rev_is_Nil_conv upt_eq_Nil_conv) simp
  have "rev [0 ..< 512] = rev [1 ..< 512] @ [0 :: nat]" by (simp only: upt_conv_Cons [of 0 512] rev.simps) simp
  then have la: "last ?xs = node_of 0" by simp
  obtain l1 l2 where l1: "lru_evict (ec_lru c) = Some (node_of 0, l1)" and l2: "lru_add (node_of 512) True l1 = Some l2"
    and rel2: "lru_rel nodes l2 (node_of 512 # butlast ?xs)"
    using az_lru.evict_add [OF rel ne _ new] la by (metis node_owner(2))
  obtain l3 where l3: "lru_promote (node_of 512) l2 = Some l3" using az_lru.promote_ok [OF rel2, of "node_of 512"] by auto
  have view: "tsq_view (io_queue c) []" using l by (simp add: loading_def)
  then have "tsq_push (Fetch 512) (io_queue c) \<noteq> None" by (simp add: tsq_push_def tsq_view_def)
  then obtain q where q: "tsq_push (Fetch 512) (io_queue c) = Some q" by auto
  have m: "mats c 512 = \<lparr>file_offset = 4096 * 512, m_data = None, m_status = DATA_NOT_PRESENT, pending_tasks = []\<rparr>"
    "mats c 0 = \<lparr>file_offset = 0, m_data = Some 0, m_status = DATA_LOADING, pending_tasks = []\<rparr>" using l by (auto simp: loading_def)
  let ?c1 = "c\<lparr>ec_lru := l3, mats := (mats c)(512 := \<lparr>file_offset = 4096 * 512, m_data = Some 0, m_status = DATA_LOADING, pending_tasks = []\<rparr>,
    0 := \<lparr>file_offset = 0, m_data = None, m_status = DATA_NOT_PRESENT, pending_tasks = []\<rparr>), io_queue := q, n_prefetched := n_prefetched c + 1\<rparr>"
  have p: "prefetch_matrix 512 c = Some (True, ?c1)"
    using l1 l2 l3 q m sz mx by (simp add: prefetch_matrix_def async_fetch_def allocate_buffer_def take_buffer_def ec_lru_promote_def Let_def)
  let ?r = "\<lparr>rq_buffer = 0, rq_offset = 0, rq_matrix = 0\<rparr> :: io_request"
  have r: "?r \<in> set (submitted ?c1)" using l by (simp add: loading_def image_iff)
  have "max_n_cached_matrices (Some 512) = Some 512" by (simp add: max_n_cached_matrices_def io_queue_depth_def)
  moreover have "ec_reach 512 c" using l by (simp add: loading_def)
  ultimately show ?thesis using p r
    by (intro conjI exI [of _ c] exI [of _ ?c1] exI [of _ ?r]) (simp_all add: reap_one_def Let_def)
qed

end
