(* ===== verification/Packed_Kernel.thy ===== *)
theory Packed_Kernel
  imports Prelude
begin

text \<open>
  The interleaved weights of the MoE layers (\<open>moe_sparse_pipeline/packed_kernel.cpp\<close>): four rows of
  4-bit blocks are packed into one block of four times the size, and the matrix-vector product reads them
  in that order.  Quants are bytes at their width; the 16-bit scales are only copied; the sum in floating
  point is a parameter \<open>facc\<close>, which gets the integer sum and the two scales.  The portable branch of the
  product is modelled, not the one written in NEON intrinsics.  Row and block counts are below \<open>2 ^ 31\<close>,
  where the conversions to \<open>int\<close> change nothing.  \<open>None\<close> is a failed assertion.
\<close>

subsection \<open>Blocks\<close>

definition QK :: nat where "QK = 32"

record block_q4_0 =
  q4_d :: u16
  q4_qs :: bytes

record block_q8_0 =
  q8_d :: u16
  q8_qs :: bytes

record block_q4_0x4 =
  x4_d :: "u16 list"
  x4_qs :: bytes

subsection \<open>Packing\<close>

text \<open>\<open>memcpy\<close> of some bytes into the output block; every byte of the mask is \<open>0x88\<close>.  The fields of the
  output start uninitialised (\<open>junk\<close>).\<close>

definition put_bytes :: "nat \<Rightarrow> bytes \<Rightarrow> bytes \<Rightarrow> bytes" where
  "put_bytes off bs out = take off out @ bs @ drop (off + length bs) out"

definition interleave_step :: "block_q4_0 list \<Rightarrow> nat \<Rightarrow> nat \<Rightarrow> bytes \<Rightarrow> bytes" where
  "interleave_step src il i out =
     (let src_id = i mod 4; src_offset = (i div 4) * il; dst_offset = i * il in
      put_bytes dst_offset (map (\<lambda>b. b XOR 0x88) (take il (drop src_offset (q4_qs (src ! src_id))))) out)"

definition make_block_q4_0x4 :: "bytes \<Rightarrow> block_q4_0 list \<Rightarrow> nat \<Rightarrow> block_q4_0x4 option" where
  "make_block_q4_0x4 junk src blck_size_interleave =
     (if blck_size_interleave = 8 \<or> blck_size_interleave = 4 then
        Some \<lparr>x4_d = map (\<lambda>i. q4_d (src ! i)) [0 ..< 4],
          x4_qs = fold (interleave_step src blck_size_interleave) [0 ..< QK * 2 div blck_size_interleave] junk\<rparr>
      else None)"

definition sizeof_block_q4_0 :: nat where "sizeof_block_q4_0 = 18"

text \<open>The blocks of four rows, and the loop over the rows; \<open>src\<close> is the pointer that moves on.\<close>

definition pack_four :: "bytes \<Rightarrow> nat \<Rightarrow> nat \<Rightarrow> block_q4_0 list \<Rightarrow> block_q4_0x4 list \<Rightarrow> block_q4_0x4 list option" where
  "pack_four junk il nblocks src = fold_opt (\<lambda>x dst.
     map_option (\<lambda>blk. dst @ [blk]) (make_block_q4_0x4 junk (map (\<lambda>i. src ! (x + i * nblocks)) [0 ..< 4]) il)) [0 ..< nblocks]"

function repack_rows :: "bytes \<Rightarrow> nat \<Rightarrow> nat \<Rightarrow> nat \<Rightarrow> nat \<Rightarrow> block_q4_0 list \<Rightarrow> block_q4_0x4 list \<Rightarrow> block_q4_0x4 list option" where
  "repack_rows junk il nblocks nrow b src dst =
     (if b < nrow then Option.bind (pack_four junk il nblocks src dst) (repack_rows junk il nblocks nrow (b + 4) (drop (4 * nblocks) src))
      else Some dst)"
  by pat_completeness auto

termination by (relation "measure (\<lambda>(_, _, _, nrow, b, _, _). nrow - b)") auto

declare repack_rows.simps [simp del]

text \<open>The first component is the return value.\<close>

definition repack_q4_0_to_q4_0_4_bl :: "bytes \<Rightarrow> nat \<Rightarrow> nat \<Rightarrow> nat \<Rightarrow> block_q4_0 list \<Rightarrow> nat \<Rightarrow> (int \<times> block_q4_0x4 list) option" where
  "repack_q4_0_to_q4_0_4_bl junk ne0 ne1 interleave_block src data_size =
     (let nrow = ne1; nblocks = ne0 div QK in
      if \<not> (interleave_block = 4 \<or> interleave_block = 8) \<or> data_size \<noteq> nrow * nblocks * sizeof_block_q4_0 then None
      else if ne1 mod 4 \<noteq> 0 \<or> ne0 mod 8 \<noteq> 0 then Some (-1, [])
      else map_option (Pair 0) (repack_rows junk interleave_block nblocks nrow 0 src []))"

subsection \<open>The product\<close>

definition lo_quant :: "u8 \<Rightarrow> int" where
  "lo_quant q = sint (push_bit 4 q)"

definition hi_quant :: "u8 \<Rightarrow> int" where
  "hi_quant q = sint (q AND 0xF0)"

text \<open>\<open>sumi\<close> for the quants \<open>k * 4\<close> to \<open>k * 4 + 3\<close> of column \<open>j\<close>.\<close>

definition gemv_sumi :: "block_q4_0x4 \<Rightarrow> block_q8_0 \<Rightarrow> nat \<Rightarrow> nat \<Rightarrow> int" where
  "gemv_sumi b a k j = fold (\<lambda>i sumi. let q = x4_qs b ! (k * 4 * 4 + j * 4 + i) in
     sumi + (lo_quant q * sint (q8_qs a ! (k * 4 + i)) + hi_quant q * sint (q8_qs a ! (k * 4 + i + QK div 2))) div 2 ^ 4)
     [0 ..< 4] 0"

definition gemv_block :: "('f \<Rightarrow> int \<Rightarrow> u16 \<Rightarrow> u16 \<Rightarrow> 'f) \<Rightarrow> block_q4_0x4 \<Rightarrow> block_q8_0 \<Rightarrow> 'f list \<Rightarrow> 'f list" where
  "gemv_block facc b a = fold (\<lambda>k. fold (\<lambda>j sumf. sumf[j := facc (sumf ! j) (gemv_sumi b a k j) (x4_d b ! j) (q8_d a)]) [0 ..< 4])
     [0 ..< QK div (2 * 4)]"

definition gemv_columns :: "('f \<Rightarrow> int \<Rightarrow> u16 \<Rightarrow> u16 \<Rightarrow> 'f) \<Rightarrow> 'f \<Rightarrow> nat \<Rightarrow> block_q4_0x4 list \<Rightarrow> block_q8_0 list \<Rightarrow> nat \<Rightarrow> 'f list" where
  "gemv_columns facc fzero nb vx vy x =
     fold (\<lambda>l. gemv_block facc (vx ! (x * nb + l)) (vy ! l)) [0 ..< nb] (replicate 4 fzero)"

definition gemv_q4_0_4x4_q8_0 :: "('f \<Rightarrow> int \<Rightarrow> u16 \<Rightarrow> u16 \<Rightarrow> 'f) \<Rightarrow> 'f \<Rightarrow> nat \<Rightarrow> block_q4_0x4 list \<Rightarrow> block_q8_0 list \<Rightarrow> nat \<Rightarrow> 'f list option" where
  "gemv_q4_0_4x4_q8_0 facc fzero n vx vy nc =
     (if n mod QK \<noteq> 0 \<or> nc mod 4 \<noteq> 0 then None
      else Some (concat (map (gemv_columns facc fzero (n div QK) vx vy) [0 ..< nc div 4])))"

subsection \<open>The reference: the product with the rows as they were\<close>

text \<open>\<open>dequantize_row_q4_0\<close> without the scale: the quant of element \<open>e\<close> of a block.\<close>

definition q4_quant :: "block_q4_0 \<Rightarrow> nat \<Rightarrow> int" where
  "q4_quant b e = (if e < QK div 2 then uint (q4_qs b ! e AND 0x0F) - 8 else uint (drop_bit 4 (q4_qs b ! (e - QK div 2))) - 8)"

definition ref_sum :: "block_q4_0 \<Rightarrow> block_q8_0 \<Rightarrow> nat \<Rightarrow> int" where
  "ref_sum b a k = (\<Sum>i<4. q4_quant b (k * 4 + i) * sint (q8_qs a ! (k * 4 + i)) +
     q4_quant b (k * 4 + i + QK div 2) * sint (q8_qs a ! (k * 4 + i + QK div 2)))"

definition row_dot :: "('f \<Rightarrow> int \<Rightarrow> u16 \<Rightarrow> u16 \<Rightarrow> 'f) \<Rightarrow> 'f \<Rightarrow> nat \<Rightarrow> block_q4_0 list \<Rightarrow> block_q8_0 list \<Rightarrow> nat \<Rightarrow> 'f" where
  "row_dot facc fzero nb src vy r =
     fold (\<lambda>l acc. fold (\<lambda>k acc. facc acc (ref_sum (src ! (r * nb + l)) (vy ! l) k) (q4_d (src ! (r * nb + l))) (q8_d (vy ! l)))
       [0 ..< 4] acc) [0 ..< nb] fzero"

subsection \<open>Quants\<close>

lemma all_u8:
  assumes "list_all (\<lambda>n. P (word_of_nat n :: u8)) [0 ..< 256]"
  shows "P q"
proof -
  have "unat q \<in> set [0 ..< 256]" using unat_u8_less [of q] by simp
  then have "P (word_of_nat (unat q))" using assms by (auto simp only: list_all_iff)
  then show ?thesis by simp
qed

lemma flip_quants: "lo_quant (q XOR 0x88) = 16 * (uint (q AND 0x0F) - 8) \<and> hi_quant (q XOR 0x88) = 16 * (uint (drop_bit 4 q) - 8)"
  by (rule all_u8) code_simp

subsection \<open>The packed block\<close>

lemma put_bytes_props:
  assumes "off + length bs \<le> length out"
  shows "length (put_bytes off bs out) = length out"
    "t < length out \<Longrightarrow> put_bytes off bs out ! t = (if off \<le> t \<and> t < off + length bs then bs ! (t - off) else out ! t)"
  using assms by (auto simp: put_bytes_def nth_append min_def)

lemma interleave_prefix:
  assumes "length junk = 64" "\<forall>j < 4. length (q4_qs (src ! j)) = 16" "n \<le> 16"
  shows "length (fold (interleave_step src 4) [0 ..< n] junk) = 64 \<and>
    (\<forall>s < n. \<forall>i < 4. fold (interleave_step src 4) [0 ..< n] junk ! (s * 4 + i) = q4_qs (src ! (s mod 4)) ! ((s div 4) * 4 + i) XOR 0x88)"
  using assms(3)
proof (induction n)
  case (Suc n)
  let ?o = "fold (interleave_step src 4) [0 ..< n] junk"
  let ?bs = "map (\<lambda>b. b XOR 0x88) (take 4 (drop ((n div 4) * 4) (q4_qs (src ! (n mod 4)))))"
  have n4: "n div 4 * 4 + 4 \<le> 16" using Suc.prems div_le_mono [of n 15 4] by simp
  have len: "length ?bs = 4" and bs: "i < 4 \<Longrightarrow> ?bs ! i = q4_qs (src ! (n mod 4)) ! ((n div 4) * 4 + i) XOR 0x88" for i
    using assms(2) n4 by simp_all
  have o: "length ?o = 64" "\<forall>s < n. \<forall>i < 4. ?o ! (s * 4 + i) = q4_qs (src ! (s mod 4)) ! ((s div 4) * 4 + i) XOR 0x88"
    using Suc by simp_all
  have f: "fold (interleave_step src 4) [0 ..< Suc n] junk = put_bytes (n * 4) ?bs ?o"
    by (simp add: interleave_step_def Let_def)
  have "put_bytes (n * 4) ?bs ?o ! (s * 4 + i) = q4_qs (src ! (s mod 4)) ! ((s div 4) * 4 + i) XOR 0x88" if "s < Suc n" "i < 4" for s i
  proof (cases "s = n")
    case True
    then show ?thesis using put_bytes_props(2) [of "n * 4" ?bs ?o] len o(1) Suc.prems bs that by simp
  next
    case False
    then have "s < n" "s * 4 + i < n * 4" using that by auto
    then show ?thesis using put_bytes_props(2) [of "n * 4" ?bs ?o] len o Suc.prems that by simp
  qed
  then show ?case unfolding f using put_bytes_props(1) [of "n * 4" ?bs ?o] len o(1) Suc.prems by simp
qed (simp add: assms(1))

text \<open>\<open>packed src b\<close>: the block \<open>b\<close> holds the four blocks of \<open>src\<close>.\<close>

definition packed :: "(nat \<Rightarrow> block_q4_0) \<Rightarrow> block_q4_0x4 \<Rightarrow> bool" where
  "packed src b \<longleftrightarrow> length (x4_d b) = 4 \<and> length (x4_qs b) = 64 \<and> (\<forall>j < 4. x4_d b ! j = q4_d (src j) \<and>
     (\<forall>k < 4. \<forall>i < 4. x4_qs b ! (k * 4 * 4 + j * 4 + i) = q4_qs (src j) ! (k * 4 + i) XOR 0x88))"

lemma make_block_packed:
  assumes "length junk = 64" "\<forall>j < 4. length (q4_qs (src j)) = 16"
  shows "\<exists>b. make_block_q4_0x4 junk (map src [0 ..< 4]) 4 = Some b \<and> packed src b"
proof -
  let ?src = "map src [0 ..< 4]"
  have e: "?src ! j = src j" if "j < 4" for j using that nth_map_upt [of j 4 0 src] by simp
  have len: "\<forall>j < 4. length (q4_qs (?src ! j)) = 16" using assms(2) by (simp del: upt_conv_Cons add: e)
  have "x4_d \<lparr>x4_d = map (\<lambda>i. q4_d (?src ! i)) [0 ..< 4], x4_qs = fold (interleave_step ?src 4) [0 ..< 16] junk\<rparr> ! j = q4_d (src j)" if "j < 4" for j
    using that e [OF that] by (simp only: block_q4_0x4.simps nth_map_upt) simp
  moreover have "fold (interleave_step ?src 4) [0 ..< 16] junk ! (k * 4 * 4 + j * 4 + i) = q4_qs (src j) ! (k * 4 + i) XOR 0x88"
    if "j < 4" "k < 4" "i < 4" for j k i
    using interleave_prefix [OF assms(1) len, of 16, THEN conjunct2, rule_format, of "k * 4 + j" i] that e [OF that(1)]
    by (simp add: add_mult_distrib)
  moreover have "length (fold (interleave_step ?src 4) [0 ..< 16] junk) = 64"
    using interleave_prefix [OF assms(1) len, of 16, THEN conjunct1] by simp
  ultimately show ?thesis by (simp only: make_block_q4_0x4_def packed_def QK_def) simp
qed

subsection \<open>Packing all rows\<close>

lemma pack_four_ok:
  assumes "length junk = 64" "\<forall>b \<in> set src. length (q4_qs b) = 16" "4 * nb \<le> length src"
  shows "\<exists>out. pack_four junk 4 nb src dst = Some (dst @ out) \<and> length out = nb \<and> (\<forall>l < nb. packed (\<lambda>i. src ! (i * nb + l)) (out ! l))"
proof -
  let ?step = "\<lambda>x dst. map_option (\<lambda>blk. dst @ [blk]) (make_block_q4_0x4 junk (map (\<lambda>i. src ! (x + i * nb)) [0 ..< 4]) 4)"
  have "\<exists>out. fold_opt ?step [0 ..< n] dst = Some (dst @ out) \<and> length out = n \<and> (\<forall>l < n. packed (\<lambda>i. src ! (i * nb + l)) (out ! l))"
    if "n \<le> nb" for n
    using that
  proof (induction n)
    case (Suc n)
    then obtain out where out: "fold_opt ?step [0 ..< n] dst = Some (dst @ out)" "length out = n" "\<forall>l < n. packed (\<lambda>i. src ! (i * nb + l)) (out ! l)" by auto
    have "n + i * nb < length src" if "i < 4" for i
    proof -
      have "i * nb \<le> 3 * nb" using that by (intro mult_right_mono) auto
      then show ?thesis using Suc.prems assms(3) by linarith
    qed
    then have "\<forall>i < 4. length (q4_qs (src ! (n + i * nb))) = 16" using assms(2) by simp
    then obtain b where "make_block_q4_0x4 junk (map (\<lambda>i. src ! (n + i * nb)) [0 ..< 4]) 4 = Some b" "packed (\<lambda>i. src ! (n + i * nb)) b"
      using make_block_packed [OF assms(1), of "\<lambda>i. src ! (n + i * nb)"] by auto
    then show ?case using out
      by (intro exI [of _ "out @ [b]"]) (auto simp: fold_opt_append nth_append less_Suc_eq add.commute simp del: upt_conv_Cons)
  qed simp
  then show ?thesis by (auto simp: pack_four_def)
qed

lemma repack_rows_ok:
  assumes "length junk = 64" "\<forall>b \<in> set src. length (q4_qs b) = 16" "nrow = b + 4 * m" "4 * m * nb \<le> length src"
  shows "\<exists>out. repack_rows junk 4 nb nrow b src dst = Some (dst @ out) \<and> length out = m * nb \<and>
    (\<forall>g < m. \<forall>l < nb. packed (\<lambda>i. src ! ((g * 4 + i) * nb + l)) (out ! (g * nb + l)))"
  using assms(2-4)
proof (induction m arbitrary: b src dst)
  case 0
  then show ?case by (simp add: repack_rows.simps)
next
  case (Suc m)
  obtain o1 where o1: "pack_four junk 4 nb src dst = Some (dst @ o1)" "length o1 = nb" "\<forall>l < nb. packed (\<lambda>i. src ! (i * nb + l)) (o1 ! l)"
    using pack_four_ok [OF assms(1) Suc.prems(1), of nb dst] Suc.prems(3) by (auto simp: add_mult_distrib)
  let ?src = "drop (4 * nb) src"
  have "\<forall>b \<in> set ?src. length (q4_qs b) = 16" using Suc.prems(1) by (meson in_set_dropD)
  moreover have "nrow = (b + 4) + 4 * m" "4 * m * nb \<le> length ?src" using Suc.prems(2,3) by (simp_all add: add_mult_distrib)
  ultimately obtain o2 where o2: "repack_rows junk 4 nb nrow (b + 4) ?src (dst @ o1) = Some ((dst @ o1) @ o2)" "length o2 = m * nb"
    "\<forall>g < m. \<forall>l < nb. packed (\<lambda>i. ?src ! ((g * 4 + i) * nb + l)) (o2 ! (g * nb + l))"
    using Suc.IH [of ?src "b + 4" "dst @ o1"] by blast
  have "packed (\<lambda>i. src ! ((g * 4 + i) * nb + l)) ((o1 @ o2) ! (g * nb + l))" if "g < Suc m" "l < nb" for g l
  proof (cases g)
    case 0
    then show ?thesis using o1(2,3) that by (simp add: nth_append)
  next
    case (Suc g')
    then show ?thesis using o1(2) o2(3) that Suc.prems(3) by (simp add: nth_append algebra_simps)
  qed
  moreover have "repack_rows junk 4 nb nrow b src dst = Some (dst @ o1 @ o2)"
    by (subst repack_rows.simps) (use o1(1) o2(1) Suc.prems(2) in simp)
  ultimately show ?case using o1(2) o2(2) by (intro exI [of _ "o1 @ o2"]) auto
qed

subsection \<open>The product on packed rows\<close>

lemma fold_plus: "fold (\<lambda>i s. s + f i) [0 ..< n] (s :: int) = s + (\<Sum>i<n. f i)"
  by (induction n) simp_all

lemma sumi_ref:
  assumes "packed src b" "j < 4" "k < 4"
  shows "gemv_sumi b a k j = ref_sum (src j) a k"
proof -
  have "(let q = x4_qs b ! (k * 4 * 4 + j * 4 + i) in
      (lo_quant q * sint (q8_qs a ! (k * 4 + i)) + hi_quant q * sint (q8_qs a ! (k * 4 + i + QK div 2))) div 2 ^ 4) =
    q4_quant (src j) (k * 4 + i) * sint (q8_qs a ! (k * 4 + i)) + q4_quant (src j) (k * 4 + i + QK div 2) * sint (q8_qs a ! (k * 4 + i + QK div 2))"
    if "i < 4" for i
  proof -
    let ?q = "q4_qs (src j) ! (k * 4 + i)"
    have q: "x4_qs b ! (k * 4 * 4 + j * 4 + i) = ?q XOR 0x88" using assms that by (simp add: packed_def)
    have k: "k * 4 + i < 16" using assms(3) that by simp
    let ?A = "sint (q8_qs a ! (k * 4 + i))" let ?B = "sint (q8_qs a ! (k * 4 + i + QK div 2))"
    let ?X = "(uint (?q AND 0x0F) - 8) * ?A + (uint (drop_bit 4 ?q) - 8) * ?B"
    have e: "lo_quant (?q XOR 0x88) * ?A + hi_quant (?q XOR 0x88) * ?B = ?X * 2 ^ 4"
      unfolding flip_quants [THEN conjunct1] flip_quants [THEN conjunct2] by (simp add: algebra_simps)
    have r: "q4_quant (src j) (k * 4 + i) = uint (?q AND 0x0F) - 8" "q4_quant (src j) (k * 4 + i + QK div 2) = uint (drop_bit 4 ?q) - 8"
      using k by (simp_all add: q4_quant_def QK_def)
    show ?thesis unfolding Let_def q e r by (rule nonzero_mult_div_cancel_right) simp
  qed
  then have "(\<Sum>i<4. let q = x4_qs b ! (k * 4 * 4 + j * 4 + i) in
      (lo_quant q * sint (q8_qs a ! (k * 4 + i)) + hi_quant q * sint (q8_qs a ! (k * 4 + i + QK div 2))) div 2 ^ 4) = ref_sum (src j) a k"
    unfolding ref_sum_def by (intro sum.cong) auto
  then show ?thesis unfolding gemv_sumi_def Let_def fold_plus by simp
qed

lemma fold_update_four: "length s = 4 \<Longrightarrow> fold (\<lambda>j s. s[j := f j (s ! j)]) [0 ..< 4] s = map (\<lambda>j. f j (s ! j)) [0 ..< 4]"
  by (auto simp: upt_rec length_Suc_conv numeral_eq_Suc)

lemma fold_map_four: "length s = 4 \<Longrightarrow> fold (\<lambda>x s. map (\<lambda>j. f x j (s ! j)) [0 ..< 4]) xs s = map (\<lambda>j. fold (\<lambda>x. f x j) xs (s ! j)) [0 ..< 4]"
proof (induction xs arbitrary: s)
  case Nil
  then show ?case using map_nth [of s] by (simp only: fold_simps)
next
  case (Cons x xs)
  have "length (map (\<lambda>j. f x j (s ! j)) [0 ..< 4]) = 4" by simp
  then show ?case using Cons.IH by (simp del: upt_conv_Cons)
qed

lemma gemv_columns_rows:
  assumes "\<forall>l < nb. packed (\<lambda>i. src ! ((x * 4 + i) * nb + l)) (vx ! (x * nb + l))"
  shows "gemv_columns facc fzero nb vx vy x = map (\<lambda>j. row_dot facc fzero nb src vy (x * 4 + j)) [0 ..< 4]"
proof -
  let ?f = "\<lambda>l j acc. fold (\<lambda>k acc. facc acc (ref_sum (src ! ((x * 4 + j) * nb + l)) (vy ! l) k) (q4_d (src ! ((x * 4 + j) * nb + l))) (q8_d (vy ! l)))
    [0 ..< 4] acc"
  have block: "gemv_block facc (vx ! (x * nb + l)) (vy ! l) s = map (\<lambda>j. ?f l j (s ! j)) [0 ..< 4]" if "l < nb" "length s = 4" for l s
  proof -
    let ?b = "vx ! (x * nb + l)" let ?g = "\<lambda>k j acc. facc acc (gemv_sumi ?b (vy ! l) k j) (x4_d ?b ! j) (q8_d (vy ! l))"
    have p: "packed (\<lambda>i. src ! ((x * 4 + i) * nb + l)) ?b" using assms that(1) by simp
    have "gemv_block facc ?b (vy ! l) s = fold (\<lambda>k s. map (\<lambda>j. ?g k j (s ! j)) [0 ..< 4]) [0 ..< 4] s"
    proof -
      have "fold (\<lambda>k. fold (\<lambda>j s. s[j := ?g k j (s ! j)]) [0 ..< 4]) [0 ..< n] s = fold (\<lambda>k s. map (\<lambda>j. ?g k j (s ! j)) [0 ..< 4]) [0 ..< n] s \<and>
        length (fold (\<lambda>k s. map (\<lambda>j. ?g k j (s ! j)) [0 ..< 4]) [0 ..< n] s) = 4" for n
      proof (induction n)
        case (Suc n)
        then show ?case using fold_update_four [where f = "?g n"] by (simp del: upt_conv_Cons)
      qed (simp add: that(2))
      then show ?thesis by (simp add: gemv_block_def QK_def)
    qed
    also have "\<dots> = map (\<lambda>j. fold (\<lambda>k. ?g k j) [0 ..< 4] (s ! j)) [0 ..< 4]" by (rule fold_map_four [OF that(2)])
    also have "\<dots> = map (\<lambda>j. ?f l j (s ! j)) [0 ..< 4]"
    proof (rule map_cong [OF refl])
      fix j :: nat
      assume "j \<in> set [0 ..< 4]"
      then have j: "j < 4" by (simp only: set_upt) simp
      then have d: "x4_d ?b ! j = q4_d (src ! ((x * 4 + j) * nb + l))" using p by (simp add: packed_def)
      show "fold (\<lambda>k. ?g k j) [0 ..< 4] (s ! j) = ?f l j (s ! j)"
        unfolding d by (rule fold_cong [OF refl refl]) (use sumi_ref [OF p j] in \<open>simp only: set_upt, simp\<close>)
    qed
    finally show ?thesis .
  qed
  have "fold (\<lambda>l. gemv_block facc (vx ! (x * nb + l)) (vy ! l)) [0 ..< n] (replicate 4 fzero) =
      fold (\<lambda>l s. map (\<lambda>j. ?f l j (s ! j)) [0 ..< 4]) [0 ..< n] (replicate 4 fzero) \<and>
    length (fold (\<lambda>l s. map (\<lambda>j. ?f l j (s ! j)) [0 ..< 4]) [0 ..< n] (replicate 4 fzero)) = 4" if "n \<le> nb" for n
    using that by (induction n) (simp_all add: block del: upt_conv_Cons replicate.simps)
  then have "gemv_columns facc fzero nb vx vy x = fold (\<lambda>l s. map (\<lambda>j. ?f l j (s ! j)) [0 ..< 4]) [0 ..< nb] (replicate 4 fzero)"
    by (simp add: gemv_columns_def)
  also have "\<dots> = map (\<lambda>j. fold (\<lambda>l. ?f l j) [0 ..< nb] (replicate 4 fzero ! j)) [0 ..< 4]" by (rule fold_map_four) simp
  also have "\<dots> = map (\<lambda>j. row_dot facc fzero nb src vy (x * 4 + j)) [0 ..< 4]"
    by (rule map_cong [OF refl]) (simp only: set_upt, simp add: row_dot_def)
  finally show ?thesis .
qed

lemma concat_fours: "concat (map (\<lambda>x. map (\<lambda>j. h (x * 4 + j)) [0 ..< 4]) [0 ..< m]) = map h [0 ..< m * 4]"
proof (induction m)
  case (Suc m)
  have "map (\<lambda>j. h (m * 4 + j)) [0 ..< 4] = map h [m * 4 ..< m * 4 + 4]" by (rule nth_equalityI) (simp_all del: upt_conv_Cons)
  then show ?case using Suc upt_add_eq_append [of 0 "m * 4" 4] by (simp del: upt_conv_Cons add: add.commute)
qed simp

lemma repack_ok:
  assumes "ne0 mod QK = 0" "ne1 mod 4 = 0" "length src = ne1 * (ne0 div QK)" "\<forall>b \<in> set src. length (q4_qs b) = 16" "length junk = 64"
  shows "\<exists>dst. repack_q4_0_to_q4_0_4_bl junk ne0 ne1 4 src (ne1 * (ne0 div QK) * sizeof_block_q4_0) = Some (0, dst) \<and>
    length dst = ne1 div 4 * (ne0 div QK) \<and>
    (\<forall>g < ne1 div 4. \<forall>l < ne0 div QK. packed (\<lambda>i. src ! ((g * 4 + i) * (ne0 div QK) + l)) (dst ! (g * (ne0 div QK) + l)))"
proof -
  let ?nb = "ne0 div QK" let ?m = "ne1 div 4"
  have m: "?m * 4 = ne1" using assms(2) by auto
  have "ne1 = 0 + 4 * ?m" "4 * ?m * ?nb \<le> length src" using m assms(3) by (simp_all add: mult.commute)
  then obtain dst where dst: "repack_rows junk 4 ?nb ne1 0 src [] = Some dst" "length dst = ?m * ?nb"
    "\<forall>g < ?m. \<forall>l < ?nb. packed (\<lambda>i. src ! ((g * 4 + i) * ?nb + l)) (dst ! (g * ?nb + l))"
    using repack_rows_ok [OF assms(5,4), of ne1 0 ?m ?nb "[]"] by auto
  have "ne0 mod 8 = 0" using assms(1) by (auto simp: QK_def mod_eq_0_iff_dvd intro: dvd_trans [of 8 32])
  then have "repack_q4_0_to_q4_0_4_bl junk ne0 ne1 4 src (ne1 * ?nb * sizeof_block_q4_0) = Some (0, dst)"
    using dst(1) assms(2) by (simp add: repack_q4_0_to_q4_0_4_bl_def Let_def)
  then show ?thesis using dst by blast
qed

text \<open>
  C14: Packing the rows does not change the product.  For matrices whose rows are whole blocks and come in
  fours, \<open>repack_q4_0_to_q4_0_4_bl\<close> with blocks of 4 succeeds, and \<open>gemv_q4_0_4x4_q8_0\<close> on its output gives
  for each row the product of the dequantised quants of the original row with the vector, with the same
  order of the floating-point additions whatever they are.
\<close>

theorem gemv_on_packed_rows:
  assumes "ne0 mod QK = 0" "ne1 mod 4 = 0" "length src = ne1 * (ne0 div QK)" "\<forall>b \<in> set src. length (q4_qs b) = 16" "length junk = 64"
  shows "\<exists>dst. repack_q4_0_to_q4_0_4_bl junk ne0 ne1 4 src (ne1 * (ne0 div QK) * sizeof_block_q4_0) = Some (0, dst) \<and>
    gemv_q4_0_4x4_q8_0 facc fzero ne0 dst vy ne1 = Some (map (row_dot facc fzero (ne0 div QK) src vy) [0 ..< ne1])"
proof -
  let ?nb = "ne0 div QK" let ?m = "ne1 div 4"
  have m: "?m * 4 = ne1" using assms(2) by auto
  obtain dst where r: "repack_q4_0_to_q4_0_4_bl junk ne0 ne1 4 src (ne1 * ?nb * sizeof_block_q4_0) = Some (0, dst)"
    and dst: "\<forall>g < ?m. \<forall>l < ?nb. packed (\<lambda>i. src ! ((g * 4 + i) * ?nb + l)) (dst ! (g * ?nb + l))"
    using repack_ok [OF assms] by blast
  have "gemv_columns facc fzero ?nb dst vy x = map (\<lambda>j. row_dot facc fzero ?nb src vy (x * 4 + j)) [0 ..< 4]" if "x < ?m" for x
    by (rule gemv_columns_rows) (use dst that in blast)
  then have "map (gemv_columns facc fzero ?nb dst vy) [0 ..< ?m] = map (\<lambda>x. map (\<lambda>j. row_dot facc fzero ?nb src vy (x * 4 + j)) [0 ..< 4]) [0 ..< ?m]"
    by (intro map_cong [OF refl]) (simp del: upt_conv_Cons)
  then have "gemv_q4_0_4x4_q8_0 facc fzero ne0 dst vy ne1 = Some (concat (map (\<lambda>x. map (\<lambda>j. row_dot facc fzero ?nb src vy (x * 4 + j)) [0 ..< 4]) [0 ..< ?m]))"
    using assms(1,2) by (simp only: gemv_q4_0_4x4_q8_0_def) simp
  then have "gemv_q4_0_4x4_q8_0 facc fzero ne0 dst vy ne1 = Some (map (row_dot facc fzero ?nb src vy) [0 ..< ne1])"
    unfolding concat_fours m .
  then show ?thesis using r by blast
qed

lemma gemv_on_packed_rows_witness:
  "\<exists>dst. repack_q4_0_to_q4_0_4_bl (replicate 64 0) 32 4 4 (replicate 4 \<lparr>q4_d = 1, q4_qs = replicate 16 0x9A\<rparr>) 72 = Some (0, dst) \<and>
    gemv_q4_0_4x4_q8_0 (\<lambda>acc i d e. acc + i * uint d * uint e) 0 32 dst [\<lparr>q8_d = 2, q8_qs = replicate 32 3\<rparr>] 4 = Some [288, 288, 288, 288]"
proof -
  let ?src = "replicate 4 \<lparr>q4_d = 1, q4_qs = replicate 16 0x9A\<rparr> :: block_q4_0 list"
  have v: "map (row_dot (\<lambda>acc i d e. acc + i * uint d * uint e) (0 :: int) 1 ?src [\<lparr>q8_d = 2, q8_qs = replicate 32 3\<rparr>]) [0 ..< 4] = [288, 288, 288, 288]"
    by code_simp
  show ?thesis
    using gemv_on_packed_rows [of 32 4 ?src "replicate 64 0" "\<lambda>acc i d e. acc + i * uint d * uint e" 0 "[\<lparr>q8_d = 2, q8_qs = replicate 32 3\<rparr>]"] v
    by (simp add: QK_def sizeof_block_q4_0_def)
qed

end
