(* ===== verification/Expert_Bundle.thy ===== *)
theory Expert_Bundle
  imports Packed_Kernel Expert_Cache
begin

text \<open>
  Writing the file of expert matrices: \<open>ExpertBundleBuilder\<close> (\<open>moe_sparse_pipeline/expert_bundle.cpp\<close>)
  and the loops of \<open>llama-model.cpp\<close> that call it.  The file and the buffer are lists of bytes.  The size of
  a row in bytes (\<open>powerinfer_row_size\<close>, not part of the repository) is a parameter; a pointer into a
  tensor is the list of the bytes from there on.  \<open>None\<close> is a failed assertion or a read past the end.
\<close>

subsection \<open>The builder\<close>

record bundle_builder =
  current_offset :: nat
  bb_file :: bytes
  bb_buf :: bytes

definition bundle_init :: bundle_builder where
  "bundle_init = \<lparr>current_offset = 0, bb_file = [], bb_buf = []\<rparr>"

definition padded_size :: "nat \<Rightarrow> nat" where
  "padded_size n = (if n mod io_alignment \<noteq> 0 then n + (io_alignment - n mod io_alignment) else n)"

definition vec_resize :: "nat \<Rightarrow> bytes \<Rightarrow> bytes" where
  "vec_resize n buf = take n buf @ replicate (n - length buf) 0"

text \<open>The bytes of a block, little-endian.\<close>

definition load_block :: "bytes \<Rightarrow> nat \<Rightarrow> block_q4_0" where
  "load_block p i = \<lparr>q4_d = ucast (p ! (i * 18)) OR push_bit 8 (ucast (p ! (i * 18 + 1))), q4_qs = take 16 (drop (i * 18 + 2) p)\<rparr>"

definition x4_bytes :: "block_q4_0x4 \<Rightarrow> bytes" where
  "x4_bytes b = concat (map (\<lambda>d. [ucast d, ucast (drop_bit 8 d)]) (x4_d b)) @ x4_qs b"

definition bundle_append :: "(nat \<Rightarrow> nat) \<Rightarrow> bytes \<Rightarrow> bytes \<Rightarrow> nat \<Rightarrow> nat \<Rightarrow> bool \<Rightarrow> bundle_builder \<Rightarrow> bundle_builder option" where
  "bundle_append row_size junk data ne0 ne1 repack b =
     (let size = padded_size (row_size ne0 * ne1) in
      if repack then
        Option.bind (repack_q4_0_to_q4_0_4_bl junk ne0 ne1 4 (map (load_block data) [0 ..< ne1 * (ne0 div QK)]) size) (\<lambda>(_, dst).
          let buf = put_bytes 0 (concat (map x4_bytes dst)) (vec_resize size (bb_buf b)) in
          Some (b\<lparr>bb_buf := buf, bb_file := bb_file b @ buf, current_offset := current_offset b + length buf\<rparr>))
      else if length data < size then None
      else Some (b\<lparr>bb_file := bb_file b @ take size data, current_offset := current_offset b + length (bb_buf b)\<rparr>))"

definition append_zero :: "(nat \<Rightarrow> nat) \<Rightarrow> nat \<Rightarrow> nat \<Rightarrow> bundle_builder \<Rightarrow> bundle_builder" where
  "append_zero row_size ne0 ne1 b =
     (let size = padded_size (row_size ne0 * ne1); buf = vec_resize size (bb_buf b) in
      b\<lparr>bb_buf := buf, bb_file := bb_file b @ buf, current_offset := current_offset b + length buf\<rparr>)"

subsection \<open>Generating the bundle of a model\<close>

text \<open>The three tensors of a layer, absent in a dense layer.  \<open>arm\<close> is the compile-time choice
  \<open>__ARM_ARCH\<close>: only there the gate matrices are packed.\<close>

record exps =
  up_exps :: "bytes option"
  gate_exps :: "bytes option"
  down_exps :: "bytes option"

record bundle_env =
  arm :: bool
  row_size :: "nat \<Rightarrow> nat"
  junk_bytes :: bytes
  n_embd :: nat
  n_ff_exp :: nat
  n_expert :: nat
  down_transposed :: bool
  matrix_bytes :: nat

definition layer_matrices :: "bundle_env \<Rightarrow> exps \<Rightarrow> (bytes option \<times> nat \<times> nat) list" where
  "layer_matrices env l = [(up_exps l, n_embd env, n_ff_exp env), (gate_exps l, n_embd env, n_ff_exp env),
     (if down_transposed env then (down_exps l, n_embd env, n_ff_exp env) else (down_exps l, n_ff_exp env, n_embd env))]"

definition write_matrix :: "bundle_env \<Rightarrow> exps \<Rightarrow> nat \<Rightarrow> nat \<Rightarrow> bundle_builder \<Rightarrow> bundle_builder option" where
  "write_matrix env l expert_id idx b = (case layer_matrices env l ! idx of (matrix_data, ne0, ne1) \<Rightarrow>
     (case matrix_data of
        Some data \<Rightarrow> bundle_append (row_size env) (junk_bytes env) (drop (expert_id * matrix_bytes env) data) ne0 ne1 (arm env \<and> idx = 1) b
      | None \<Rightarrow> Some (append_zero (row_size env) ne0 ne1 b)))"

definition write_layer :: "bundle_env \<Rightarrow> exps \<Rightarrow> bundle_builder \<Rightarrow> bundle_builder option" where
  "write_layer env l = fold_opt (\<lambda>expert_id. fold_opt (write_matrix env l expert_id) [0 ..< 3]) [0 ..< n_expert env]"

definition generate_bundle :: "bundle_env \<Rightarrow> exps list \<Rightarrow> bundle_builder option" where
  "generate_bundle env layers =
     (if matrix_bytes env mod 4096 \<noteq> 0 then None else fold_opt (\<lambda>i. write_layer env (layers ! i)) [0 ..< length layers] bundle_init)"

subsection \<open>What is written\<close>

text \<open>The block of a matrix in the file: the packed gate matrix, or the bytes of the tensor.\<close>

definition expected_block :: "bundle_env \<Rightarrow> exps \<Rightarrow> nat \<Rightarrow> nat \<Rightarrow> bytes \<Rightarrow> bool" where
  "expected_block env l e idx w \<longleftrightarrow> (case layer_matrices env l ! idx of (matrix_data, ne0, ne1) \<Rightarrow>
     (case matrix_data of
        None \<Rightarrow> True
      | Some data \<Rightarrow>
          (if arm env \<and> idx = 1 then
             (\<exists>dst. repack_q4_0_to_q4_0_4_bl (junk_bytes env) ne0 ne1 4 (map (load_block (drop (e * matrix_bytes env) data)) [0 ..< ne1 * (ne0 div QK)])
                (matrix_bytes env) = Some (0, dst) \<and> w = concat (map x4_bytes dst))
           else w = take (matrix_bytes env) (drop (e * matrix_bytes env) data))))"

lemma x4_bytes_length: "packed src b \<Longrightarrow> length (x4_bytes b) = 72"
  by (auto simp: x4_bytes_def packed_def length_concat comp_def sum_list_triv)

lemma resize_length [simp]: "length (vec_resize n buf) = n"
  by (simp add: vec_resize_def)

lemma writes_loop:
  assumes "\<And>i b. i < n \<Longrightarrow> \<exists>b' w. f i b = Some b' \<and> bb_file b' = bb_file b @ w \<and> length w = k \<and> Q i w"
  shows "\<exists>b' w. fold_opt f [0 ..< n] b = Some b' \<and> bb_file b' = bb_file b @ w \<and> length w = n * k \<and>
    (\<forall>i < n. Q i (take k (drop (i * k) w)))"
  using assms
proof (induction n)
  case (Suc n)
  then obtain b1 w1 where 1: "fold_opt f [0 ..< n] b = Some b1" "bb_file b1 = bb_file b @ w1" "length w1 = n * k"
    "\<forall>i < n. Q i (take k (drop (i * k) w1))" by (metis less_SucI)
  obtain b2 w2 where 2: "f n b1 = Some b2" "bb_file b2 = bb_file b1 @ w2" "length w2 = k" "Q n w2" using Suc.prems [of n b1] by auto
  have "Q i (take k (drop (i * k) (w1 @ w2)))" if "i < Suc n" for i
  proof (cases "i = n")
    case True
    then show ?thesis using 1(3) 2(3,4) by simp
  next
    case False
    then have "i * k + k \<le> n * k" using that by (metis Suc_leI add.commute less_antisym mult_Suc mult_le_mono1)
    then show ?thesis using 1(3,4) False that by simp
  qed
  then show ?case using 1 2 by (intro exI [of _ b2] exI [of _ "w1 @ w2"]) (simp add: fold_opt_append)
qed simp

text \<open>What the loops rely on: the sizes of the model's matrices and the documented size of a row.\<close>

definition sizes_ok :: "bundle_env \<Rightarrow> bool" where
  "sizes_ok env \<longleftrightarrow> (\<forall>n. row_size env n = n div QK * sizeof_block_q4_0) \<and> length (junk_bytes env) = 64 \<and>
     n_embd env mod QK = 0 \<and> n_ff_exp env mod QK = 0 \<and> matrix_bytes env = row_size env (n_embd env) * n_ff_exp env \<and>
     matrix_bytes env mod 4096 = 0"

definition tensors_ok :: "bundle_env \<Rightarrow> exps \<Rightarrow> bool" where
  "tensors_ok env l \<longleftrightarrow> (\<forall>t \<in> {up_exps l, gate_exps l, down_exps l}. \<forall>data. t = Some data \<longrightarrow> length data = n_expert env * matrix_bytes env)"

lemma sizes_padded:
  assumes "sizes_ok env" "idx < 3" "layer_matrices env l ! idx = (t, ne0, ne1)"
  shows "padded_size (row_size env ne0 * ne1) = matrix_bytes env" "idx = 1 \<Longrightarrow> ne0 = n_embd env \<and> ne1 = n_ff_exp env"
    "tensors_ok env l \<Longrightarrow> t = Some data \<Longrightarrow> length data = n_expert env * matrix_bytes env"
proof -
  have "n_ff_exp env div QK * n_embd env = n_embd env div QK * n_ff_exp env" using assms(1) by (auto simp: sizes_ok_def)
  then have "row_size env (n_ff_exp env) * n_embd env = row_size env (n_embd env) * n_ff_exp env"
    using assms(1) by (simp add: sizes_ok_def)
  moreover have "idx = 0 \<or> idx = 1 \<or> idx = 2" using assms(2) by auto
  ultimately have *: "row_size env ne0 * ne1 = matrix_bytes env" "idx = 1 \<longrightarrow> ne0 = n_embd env \<and> ne1 = n_ff_exp env"
      "t \<in> {up_exps l, gate_exps l, down_exps l}"
    using assms(1,3) by (auto simp: layer_matrices_def sizes_ok_def split: if_splits)
  have "matrix_bytes env mod 4096 = 0" using assms(1) unfolding sizes_ok_def by blast
  then show "padded_size (row_size env ne0 * ne1) = matrix_bytes env" unfolding * by (simp add: padded_size_def io_alignment_def)
  show "idx = 1 \<Longrightarrow> ne0 = n_embd env \<and> ne1 = n_ff_exp env" "tensors_ok env l \<Longrightarrow> t = Some data \<Longrightarrow> length data = n_expert env * matrix_bytes env"
    using *(2,3) by (auto simp: tensors_ok_def)
qed

lemma repack_bytes:
  assumes "sizes_ok env" "matrix_bytes env \<le> length data"
  shows "\<exists>dst. repack_q4_0_to_q4_0_4_bl (junk_bytes env) (n_embd env) (n_ff_exp env) 4
      (map (load_block data) [0 ..< n_ff_exp env * (n_embd env div QK)]) (matrix_bytes env) = Some (0, dst) \<and>
    length (concat (map x4_bytes dst)) = matrix_bytes env"
proof -
  let ?nb = "n_embd env div QK" let ?ne1 = "n_ff_exp env" let ?src = "map (load_block data) [0 ..< ?ne1 * ?nb]"
  have mb: "matrix_bytes env = ?ne1 * ?nb * sizeof_block_q4_0" using assms(1) by (simp add: sizes_ok_def)
  have "?ne1 mod 4 = 0" using assms(1) by (auto simp: sizes_ok_def QK_def mod_eq_0_iff_dvd intro: dvd_trans [of 4 32])
  moreover have "\<forall>b \<in> set ?src. length (q4_qs b) = 16"
  proof -
    have "length (q4_qs (load_block data i)) = 16" if "i < ?ne1 * ?nb" for i
    proof -
      have "(i + 1) * 18 \<le> ?ne1 * ?nb * 18" using that by (intro mult_right_mono) auto
      then show ?thesis using assms(2) mb by (simp add: load_block_def sizeof_block_q4_0_def)
    qed
    then show ?thesis by auto
  qed
  ultimately obtain dst where dst: "repack_q4_0_to_q4_0_4_bl (junk_bytes env) (n_embd env) ?ne1 4 ?src (matrix_bytes env) = Some (0, dst)"
    "length dst = ?ne1 div 4 * ?nb" "\<forall>g < ?ne1 div 4. \<forall>l < ?nb. packed (\<lambda>i. ?src ! ((g * 4 + i) * ?nb + l)) (dst ! (g * ?nb + l))"
    using repack_ok [of "n_embd env" ?ne1 ?src "junk_bytes env"] assms(1) unfolding mb by (auto simp: sizes_ok_def)
  have "length (x4_bytes b) = 72" if "b \<in> set dst" for b
  proof -
    from that have "\<exists>t < length dst. dst ! t = b" by (simp add: in_set_conv_nth)
    then obtain t where t: "t < length dst" "dst ! t = b" by blast
    then have "?nb > 0" using dst(2) by (cases "?nb = 0") auto
    then have i: "t div ?nb < ?ne1 div 4" "t mod ?nb < ?nb"
      using t(1) less_mult_imp_div_less [of t "?ne1 div 4" ?nb] unfolding dst(2) by simp_all
    have "packed (\<lambda>i. ?src ! ((t div ?nb * 4 + i) * ?nb + t mod ?nb)) (dst ! (t div ?nb * ?nb + t mod ?nb))"
      using dst(3) i by blast
    then show ?thesis using x4_bytes_length t(2) by (simp only: div_mult_mod_eq)
  qed
  then have "length (concat (map x4_bytes dst)) = 72 * (?ne1 div 4 * ?nb)"
    using dst(2) by (simp add: length_concat comp_def sum_list_triv cong: map_cong)
  also have "\<dots> = matrix_bytes env" using \<open>?ne1 mod 4 = 0\<close> unfolding mb sizeof_block_q4_0_def by auto
  finally show ?thesis using dst(1) by blast
qed

lemma write_matrix_ok:
  assumes "sizes_ok env" "tensors_ok env l" "e < n_expert env" "idx < 3"
  shows "\<exists>b' w. write_matrix env l e idx b = Some b' \<and> bb_file b' = bb_file b @ w \<and> length w = matrix_bytes env \<and> expected_block env l e idx w"
proof -
  obtain t ne0 ne1 where m: "layer_matrices env l ! idx = (t, ne0, ne1)" using prod_cases3 by blast
  have size: "padded_size (row_size env ne0 * ne1) = matrix_bytes env" "idx = 1 \<Longrightarrow> ne0 = n_embd env \<and> ne1 = n_ff_exp env"
    using sizes_padded [OF assms(1,4) m] by blast+
  show ?thesis
  proof (cases t)
    case None
    then show ?thesis using m size(1) by (auto simp: write_matrix_def expected_block_def append_zero_def Let_def)
  next
    case (Some data)
    let ?d = "drop (e * matrix_bytes env) data"
    have "(e + 1) * matrix_bytes env \<le> n_expert env * matrix_bytes env" using assms(3) by (intro mult_right_mono) auto
    then have len: "matrix_bytes env \<le> length ?d" using sizes_padded(3) [OF assms(1,4) m assms(2) Some] by simp
    show ?thesis
    proof (cases "arm env \<and> idx = 1")
      case True
      then obtain dst where dst: "repack_q4_0_to_q4_0_4_bl (junk_bytes env) ne0 ne1 4 (map (load_block ?d) [0 ..< ne1 * (ne0 div QK)]) (matrix_bytes env) = Some (0, dst)"
        "length (concat (map x4_bytes dst)) = matrix_bytes env" using repack_bytes [OF assms(1) len] size(2) by auto
      have "put_bytes 0 (concat (map x4_bytes dst)) (vec_resize (matrix_bytes env) buf) = concat (map x4_bytes dst)" for buf
        using dst(2) by (simp add: put_bytes_def)
      then show ?thesis using m Some True dst size(1)
        by (auto simp: write_matrix_def expected_block_def bundle_append_def Let_def)
    next
      case False
      then show ?thesis using m Some len size(1)
        by (auto simp: write_matrix_def expected_block_def bundle_append_def Let_def)
    qed
  qed
qed

text \<open>
  C13: The cache reads what the builder wrote.  For a model whose matrices have the documented sizes, the
  generation of the bundle succeeds, and at the file offset that the constructor of the cache gives to
  matrix \<open>idx\<close> of expert \<open>e\<close> in layer \<open>l\<close> stands exactly that matrix of the model: its bytes, or on ARM
  for the gate matrix the packed form of them.
\<close>

theorem cache_reads_generated_bundle:
  assumes "sizes_ok env" "\<forall>l \<in> set layers. tensors_ok env l"
    and "l < length layers" "e < n_expert env" "idx < 3"
  shows "\<exists>b c. generate_bundle env layers = Some b \<and> ec_init maxc (length layers) (n_expert env) 3 (matrix_bytes env) = Some c \<and>
    length (bb_file b) = n_matrices_total c * matrix_bytes env \<and>
    expected_block env (layers ! l) e idx
      (take (matrix_bytes env) (drop (file_offset (mats c (matrix_index (n_expert env) 3 l e idx))) (bb_file b)))"
proof -
  let ?k = "matrix_bytes env" let ?n = "n_expert env"
  have layer: "\<exists>b' w. write_layer env (layers ! i) b = Some b' \<and> bb_file b' = bb_file b @ w \<and> length w = ?n * (3 * ?k) \<and>
      (\<forall>e < ?n. \<forall>idx < 3. expected_block env (layers ! i) e idx (take ?k (drop (idx * ?k) (take (3 * ?k) (drop (e * (3 * ?k)) w)))))"
    if "i < length layers" for i b
  proof -
    have "tensors_ok env (layers ! i)" using assms(2) that by simp
    then show ?thesis unfolding write_layer_def by (intro writes_loop write_matrix_ok assms(1))
  qed
  have mb: "?k mod 4096 = 0" using assms(1) unfolding sizes_ok_def by blast
  have "\<exists>b w. fold_opt (\<lambda>i. write_layer env (layers ! i)) [0 ..< length layers] bundle_init = Some b \<and>
      bb_file b = bb_file bundle_init @ w \<and> length w = length layers * (?n * (3 * ?k)) \<and>
      (\<forall>i < length layers. \<forall>e < ?n. \<forall>idx < 3. expected_block env (layers ! i) e idx
        (take ?k (drop (idx * ?k) (take (3 * ?k) (drop (e * (3 * ?k)) (take (?n * (3 * ?k)) (drop (i * (?n * (3 * ?k))) w)))))))"
    by (rule writes_loop) (rule layer)
  then obtain b w where b: "generate_bundle env layers = Some b" "bb_file b = w" "length w = length layers * (?n * (3 * ?k))"
    "\<forall>i < length layers. \<forall>e < ?n. \<forall>idx < 3. expected_block env (layers ! i) e idx
       (take ?k (drop (idx * ?k) (take (3 * ?k) (drop (e * (3 * ?k)) (take (?n * (3 * ?k)) (drop (i * (?n * (3 * ?k))) w))))))"
    using mb unfolding generate_bundle_def by (auto simp: bundle_init_def)
  have cut: "take ?k (drop (idx * ?k) (take (3 * ?k) (drop (e * (3 * ?k)) (take (?n * (3 * ?k)) (drop (l * (?n * (3 * ?k))) w))))) =
      take ?k (drop (?k * matrix_index ?n 3 l e idx) w)"
  proof -
    have "e * (3 * ?k) + 3 * ?k \<le> ?n * (3 * ?k)" using mult_right_mono [of "e + 1" ?n "3 * ?k"] assms(4) by (simp add: add.commute)
    moreover have "idx * ?k + ?k \<le> 3 * ?k" using assms(5) mult_right_mono [of "idx + 1" 3 ?k] by (simp only: add_mult_distrib mult_1)
    ultimately have "3 * ?k \<le> ?n * (3 * ?k) - e * (3 * ?k)" "?k \<le> 3 * ?k - idx * ?k" by (simp_all only: add_le_imp_le_diff add.commute)
    then have "min (3 * ?k) (?n * (3 * ?k) - e * (3 * ?k)) = 3 * ?k" "min ?k (3 * ?k - idx * ?k) = ?k" by (simp_all only: min.absorb1)
    then show ?thesis by (simp add: drop_take min.absorb1 matrix_index_def algebra_simps)
  qed
  obtain c where c: "ec_init maxc (length layers) ?n 3 ?k = Some c" "\<And>i. file_offset (mats c i) = ?k * i"
    "n_matrices_total c = length layers * ?n * 3" using mb by (simp add: ec_init_def io_alignment_def)
  have "expected_block env (layers ! l) e idx (take ?k (drop (file_offset (mats c (matrix_index ?n 3 l e idx))) (bb_file b)))"
    unfolding b(2) c(2) cut [symmetric] using b(4) assms(3-5) by blast
  moreover have "length (bb_file b) = n_matrices_total c * ?k" using b(2,3) c(3) by simp
  ultimately show ?thesis using b(1) c(1) by blast
qed

definition demo_env :: bundle_env where
  "demo_env = \<lparr>arm = True, row_size = (\<lambda>n. n div QK * sizeof_block_q4_0), junk_bytes = replicate 64 0, n_embd = 32 * 32,
     n_ff_exp = 32 * 64, n_expert = 1, down_transposed = False, matrix_bytes = 32 * 18 * (32 * 64)\<rparr>"

lemma cache_reads_generated_bundle_witness:
  "\<exists>ls b c. length ls = 1 \<and> generate_bundle demo_env ls = Some b \<and> ec_init 512 1 1 3 1179648 = Some c \<and>
    expected_block demo_env (ls ! 0) 0 1 (take 1179648 (drop (file_offset (mats c (matrix_index 1 3 0 0 1))) (bb_file b)))"
proof -
  define t :: bytes where "t = replicate 1179648 0x9A"
  let ?l = "\<lparr>up_exps = Some t, gate_exps = Some t, down_exps = None\<rparr>"
  have "length t = 1179648" unfolding t_def by (rule length_replicate)
  then have "tensors_ok demo_env ?l" by (simp add: tensors_ok_def demo_env_def)
  moreover have "sizes_ok demo_env" by (simp add: sizes_ok_def demo_env_def QK_def sizeof_block_q4_0_def)
  moreover have "n_expert demo_env = 1" "matrix_bytes demo_env = 1179648" by (simp_all add: demo_env_def)
  ultimately show ?thesis using cache_reads_generated_bundle [of demo_env "[?l]" 0 0 1 512] by (intro exI [of _ "[?l]"]) auto
qed

text \<open>The running offset counts the buffer, which only packing and zero filling change; and zero filling
  keeps the bytes that the buffer already has.\<close>

lemma plain_append_keeps_offset:
  assumes "bundle_append rs junk data ne0 ne1 False b = Some b'" "bb_buf b = []"
  shows "current_offset b' = current_offset b \<and> length (bb_file b') = length (bb_file b) + padded_size (rs ne0 * ne1)"
  using assms by (auto simp: bundle_append_def Let_def split: if_splits)

lemma zero_fill_repeats_buffer:
  assumes "length (bb_buf b) = padded_size (rs ne0 * ne1)"
  shows "bb_file (append_zero rs ne0 ne1 b) = bb_file b @ bb_buf b"
  using assms by (simp add: append_zero_def vec_resize_def Let_def)

end
