(* ===== verification/Merge.thy ===== *)
theory Merge
  imports Unicode
begin

text \<open>
  The merging of symbols that the SPM and the BPE tokenizer of \<open>llama-vocab.cpp\<close> share: a text is cut into
  characters, a priority queue holds pairs of neighbours that form a token, and the best pair is merged
  until the queue is empty.  The two tokenizers differ in how a pair is added to the queue (\<open>add\<close>), in the
  test for outdated pairs (\<open>stale\<close>) and in the order (\<open>better\<close>).  The pointer of a symbol into the text is
  the list of the bytes from there on.  The locale states what the loop needs of these three, and proves
  that it computes the greedy merging of a list of pieces: always the best pair, the leftmost one among
  equals.
\<close>

subsection \<open>Symbols\<close>

record llm_symbol =
  s_prev :: int
  s_next :: int
  s_text :: bytes
  s_n :: nat

definition sym_str :: "llm_symbol \<Rightarrow> bytes" where
  "sym_str s = take (s_n s) (s_text s)"

lemma unicode_len_pos: "0 < unicode_len_utf8 b"
proof -
  have "unat (drop_bit 4 b) < 16"
    using unat_u8_less [of b] by (simp only: unat_drop_bit_eq) (simp add: drop_bit_eq_div)
  then have "unicode_len_utf8 b \<in> set [1, 1, 1, 1, 1, 1, 1, 1, 1, 1, 1, 1, 2, 2, 3, 4]"
    unfolding unicode_len_utf8_def by (intro nth_mem) simp
  then show ?thesis by auto
qed

text \<open>The loop that splits the text into characters.\<close>

function split_chars :: "bytes \<Rightarrow> nat \<Rightarrow> llm_symbol list" where
  "split_chars rest index =
     (if rest = [] then []
      else let len = min (unicode_len_utf8 (hd rest)) (length rest); rest' = drop len rest in
        \<lparr>s_prev = int index - 1, s_next = (if rest' = [] then -1 else int index + 1), s_text = rest, s_n = len\<rparr> #
          split_chars rest' (index + 1))"
  by pat_completeness auto

termination by (relation "measure (\<lambda>(rest, _). length rest)") (auto simp: unicode_len_pos)

declare split_chars.simps [simp del]

record 'k bigram =
  bg_left :: nat
  bg_right :: nat
  bg_text :: bytes
  bg_size :: nat
  bg_key :: 'k

type_synonym ('k, 'e) mstate = "llm_symbol list \<times> 'k bigram list \<times> 'e"

subsection \<open>The work queue\<close>

text \<open>The comparator of the priority queue: \<open>b1\<close> comes after \<open>b2\<close>.  The top is an element after which no
  other comes; among equals \<open>std::priority_queue\<close> may choose any, here the first is taken.\<close>

definition after :: "('k \<Rightarrow> 'k \<Rightarrow> bool) \<Rightarrow> 'k bigram \<Rightarrow> 'k bigram \<Rightarrow> bool" where
  "after better b1 b2 \<longleftrightarrow> better (bg_key b2) (bg_key b1) \<or> (bg_key b1 = bg_key b2 \<and> bg_left b1 > bg_left b2)"

fun pq_top :: "('k \<Rightarrow> 'k \<Rightarrow> bool) \<Rightarrow> 'k bigram \<Rightarrow> 'k bigram list \<Rightarrow> 'k bigram" where
  "pq_top better m [] = m"
| "pq_top better m (b # bs) = pq_top better (if after better m b then b else m) bs"

subsection \<open>Merging\<close>

definition merge_symbols :: "nat \<Rightarrow> nat \<Rightarrow> llm_symbol list \<Rightarrow> llm_symbol list" where
  "merge_symbols l r syms =
     (let ls = syms ! l; rs = syms ! r;
          syms1 = (syms[l := ls\<lparr>s_n := s_n ls + s_n rs\<rparr>])[r := rs\<lparr>s_n := 0\<rparr>];
          syms2 = syms1[l := (syms1 ! l)\<lparr>s_next := s_next (syms1 ! r)\<rparr>] in
      if s_next (syms2 ! r) \<ge> 0 then syms2[nat (s_next (syms2 ! r)) := (syms2 ! nat (s_next (syms2 ! r)))\<lparr>s_prev := int l\<rparr>]
      else syms2)"

partial_function (option) merge_loop ::
  "('k \<Rightarrow> 'k \<Rightarrow> bool) \<Rightarrow> (llm_symbol list \<Rightarrow> 'k bigram \<Rightarrow> bool) \<Rightarrow>
    (int \<Rightarrow> int \<Rightarrow> ('k, 'e) mstate \<Rightarrow> ('k, 'e) mstate option) \<Rightarrow> ('k, 'e) mstate \<Rightarrow> ('k, 'e) mstate option" where
  "merge_loop better stale add st = (case st of (syms, q, ex) \<Rightarrow>
     if q = [] then Some st
     else let g = pq_top better (hd q) (tl q); q' = remove1 g q; l = bg_left g; r = bg_right g in
       if s_n (syms ! l) = 0 \<or> s_n (syms ! r) = 0 \<or> stale syms g then merge_loop better stale add (syms, q', ex)
       else let syms' = merge_symbols l r syms in
         Option.bind (add (s_prev (syms' ! l)) (int l) (syms', q', ex)) (\<lambda>st1.
         Option.bind (add (int l) (s_next (fst st1 ! l)) st1) (merge_loop better stale add)))"

text \<open>The first pairs: all neighbours.\<close>

definition seed_queue :: "(int \<Rightarrow> int \<Rightarrow> ('k, 'e) mstate \<Rightarrow> ('k, 'e) mstate option) \<Rightarrow> ('k, 'e) mstate \<Rightarrow> ('k, 'e) mstate option" where
  "seed_queue add st = fold_opt (\<lambda>i. add (int i - 1) (int i)) [1 ..< length (fst st)] st"

subsection \<open>The reference\<close>

text \<open>The best pair of neighbours in a list of pieces, the leftmost among equals.\<close>

fun best_pair :: "(bytes \<Rightarrow> bytes \<Rightarrow> 'k option) \<Rightarrow> ('k \<Rightarrow> 'k \<Rightarrow> bool) \<Rightarrow> nat \<Rightarrow> bytes list \<Rightarrow> ('k \<times> nat) option" where
  "best_pair lookup better i (a # b # ps) =
     (case (lookup a b, best_pair lookup better (Suc i) (b # ps)) of
        (None, r) \<Rightarrow> r
      | (Some k, None) \<Rightarrow> Some (k, i)
      | (Some k, Some (k', j)) \<Rightarrow> if better k' k then Some (k', j) else Some (k, i))"
| "best_pair lookup better i ps = None"

definition join_at :: "nat \<Rightarrow> bytes list \<Rightarrow> bytes list" where
  "join_at i ps = take i ps @ (ps ! i @ ps ! Suc i) # drop (i + 2) ps"

lemma best_pair_bound: "best_pair lookup better i ps = Some (k, j) \<Longrightarrow> i \<le> j \<and> Suc (j - i) < length ps"
  by (induction lookup better i ps arbitrary: k j rule: best_pair.induct)
    (fastforce split: option.splits prod.splits if_splits)+

lemma best_pair_lookup: "best_pair lookup better i ps = Some (k, j) \<Longrightarrow> lookup (ps ! (j - i)) (ps ! Suc (j - i)) = Some k"
proof (induction lookup better i ps arbitrary: k j rule: best_pair.induct)
  case (1 lookup better i a b ps)
  have rest: "lookup ((a # b # ps) ! (j' - i)) ((a # b # ps) ! Suc (j' - i)) = Some k'" if "best_pair lookup better (Suc i) (b # ps) = Some (k', j')" for k' j'
    using "1.IH" [OF that] best_pair_bound [OF that] by (simp add: Suc_diff_Suc [symmetric] nth_Cons' Suc_diff_le)
  then show ?case using "1.prems" by (auto split: option.splits prod.splits if_splits)
qed simp_all

function greedy_merge :: "(bytes \<Rightarrow> bytes \<Rightarrow> 'k option) \<Rightarrow> ('k \<Rightarrow> 'k \<Rightarrow> bool) \<Rightarrow> bytes list \<Rightarrow> bytes list" where
  "greedy_merge lookup better ps =
     (case best_pair lookup better 0 ps of None \<Rightarrow> ps | Some (k, i) \<Rightarrow> greedy_merge lookup better (join_at i ps))"
  by pat_completeness auto

termination by (relation "measure (\<lambda>(_, _, ps). length ps)") (auto simp: join_at_def dest: best_pair_bound)

declare greedy_merge.simps [simp del]

subsection \<open>The chain of live symbols\<close>

text \<open>\<open>chain syms p rest is rest' e\<close>: the symbols with the indices \<open>is\<close> are linked, the first follows \<open>p\<close>
  and the last precedes \<open>e\<close>, and they cover the text \<open>rest\<close> up to \<open>rest'\<close>.\<close>

fun chain_syms :: "llm_symbol list \<Rightarrow> int \<Rightarrow> bytes \<Rightarrow> nat list \<Rightarrow> bytes \<Rightarrow> int \<Rightarrow> bool" where
  "chain_syms syms p rest [] rest' e \<longleftrightarrow> rest = rest'"
| "chain_syms syms p rest (i # is) rest' e \<longleftrightarrow> i < length syms \<and> s_prev (syms ! i) = p \<and> s_text (syms ! i) = rest \<and>
     0 < s_n (syms ! i) \<and> s_n (syms ! i) \<le> length rest \<and> s_next (syms ! i) = (case is of [] \<Rightarrow> e | j # _ \<Rightarrow> int j) \<and>
     chain_syms syms (int i) (drop (s_n (syms ! i)) rest) is rest' e"

definition head_or :: "int \<Rightarrow> nat list \<Rightarrow> int" where
  "head_or e is = (case is of [] \<Rightarrow> e | j # _ \<Rightarrow> int j)"

definition last_or :: "int \<Rightarrow> nat list \<Rightarrow> int" where
  "last_or p is = (if is = [] then p else int (last is))"

lemma ends_simps [simp]: "head_or e [] = e" "head_or e (j # js) = int j" "last_or p [] = p" "last_or p (is @ [i]) = int i"
    "last_or p (i # is) = last_or (int i) is"
  by (simp_all add: head_or_def last_or_def)

lemma head_or_append: "head_or e (is @ js) = head_or (head_or e js) is"
  by (simp add: head_or_def split: list.splits)

lemma chain_syms_append:
  "chain_syms syms p rest (is @ js) rest' e \<longleftrightarrow>
     (\<exists>mid. chain_syms syms p rest is mid (head_or e js) \<and> chain_syms syms (last_or p is) mid js rest' e)"
  by (induction "is" arbitrary: p rest) (auto simp: head_or_def [symmetric] head_or_append)

lemma chain_frame:
  "chain_syms syms p rest is rest' e \<Longrightarrow> length syms' = length syms \<Longrightarrow> (\<And>i. i \<in> set is \<Longrightarrow> syms' ! i = syms ! i) \<Longrightarrow>
     chain_syms syms' p rest is rest' e"
  by (induction "is" arbitrary: p rest) auto

lemma chain_lengths:
  "chain_syms syms p rest is rest' e \<Longrightarrow> length rest' \<le> length rest \<and>
    (\<forall>i \<in> set is. i < length syms \<and> 0 < s_n (syms ! i) \<and> length rest' < length (s_text (syms ! i)) \<and> length (s_text (syms ! i)) \<le> length rest)"
  by (induction "is" arbitrary: p rest) fastforce+

text \<open>The first symbol of a chain may get another predecessor, the last one another successor.\<close>

lemma chain_prev:
  assumes "chain_syms syms p rest (i # is) rest' e" "i \<notin> set is"
  shows "chain_syms (syms[i := (syms ! i)\<lparr>s_prev := p'\<rparr>]) p' rest (i # is) rest' e"
proof -
  have "chain_syms (syms[i := (syms ! i)\<lparr>s_prev := p'\<rparr>]) (int i) (drop (s_n (syms ! i)) rest) is rest' e"
    by (rule chain_frame [of syms]) (use assms in \<open>auto simp: nth_list_update\<close>)
  then show ?thesis using assms by simp
qed

lemma chain_strs: "chain_syms syms p rest is rest' e \<Longrightarrow> concat (map (\<lambda>i. sym_str (syms ! i)) is) @ rest' = rest"
  by (induction "is" arbitrary: p rest) (auto simp: sym_str_def)

text \<open>What merging does to each symbol.\<close>

lemma merge_symbols_nth:
  assumes "l < length syms" "r < length syms" "l \<noteq> r" "i < length syms"
  shows "merge_symbols l r syms ! i = (syms ! i)\<lparr>
     s_prev := (if s_next (syms ! r) \<ge> 0 \<and> i = nat (s_next (syms ! r)) then int l else s_prev (syms ! i)),
     s_next := (if i = l then s_next (syms ! r) else s_next (syms ! i)),
     s_n := (if i = l then s_n (syms ! l) + s_n (syms ! r) else if i = r then 0 else s_n (syms ! i))\<rparr>"
  "length (merge_symbols l r syms) = length syms"
  using assms by (simp_all add: merge_symbols_def Let_def nth_list_update)

lemma merge_chain:
  assumes ch: "chain_syms syms p rest (xs @ l # r # ys) rest' (-1)" and d: "distinct (xs @ l # r # ys)"
  shows "chain_syms (merge_symbols l r syms) p rest (xs @ l # ys) rest' (-1)"
    "map (\<lambda>i. sym_str (merge_symbols l r syms ! i)) (xs @ l # ys) =
       map (\<lambda>i. sym_str (syms ! i)) xs @ (sym_str (syms ! l) @ sym_str (syms ! r)) # map (\<lambda>i. sym_str (syms ! i)) ys"
proof -
  let ?m = "merge_symbols l r syms"
  obtain mid where xs: "chain_syms syms p rest xs mid (int l)" and lr: "chain_syms syms (last_or p xs) mid (l # r # ys) rest' (-1)"
    using ch by (auto simp: chain_syms_append)
  have bounds: "l < length syms" "r < length syms" "l \<noteq> r" using lr d by auto
  note nth = merge_symbols_nth(1) [OF bounds] and len = merge_symbols_nth(2) [OF bounds bounds(1)]
  have nr: "s_next (syms ! r) = head_or (-1) ys" using lr by (simp add: head_or_def)
  have live: "i < length syms" if "i \<in> set (xs @ l # r # ys)" for i using chain_lengths [OF ch] that by blast
  have not_next: "\<not> (s_next (syms ! r) \<ge> 0 \<and> i = nat (s_next (syms ! r)))" if "i \<in> set xs \<union> {l}" for i
    using that d nr by (cases ys) auto
  have mx: "?m ! i = syms ! i" if "i \<in> set xs" for i using nth [OF live] not_next that d by auto
  have ml: "?m ! l = (syms ! l)\<lparr>s_next := head_or (-1) ys, s_n := s_n (syms ! l) + s_n (syms ! r)\<rparr>"
  proof -
    have "(s_next (syms ! r) \<ge> 0 \<and> l = nat (s_next (syms ! r))) = False" using not_next [of l] by simp
    then show ?thesis unfolding nth [OF bounds(1)] by (simp only: if_False) (simp add: nr)
  qed
  have c1: "chain_syms ?m p rest xs mid (int l)" by (rule chain_frame [OF xs len]) (rule mx)
  have ys: "chain_syms syms (int r) (drop (s_n (syms ! l) + s_n (syms ! r)) mid) ys rest' (-1)"
    using lr by (simp add: add.commute)
  have c2: "chain_syms ?m (int l) (drop (s_n (syms ! l) + s_n (syms ! r)) mid) ys rest' (-1)"
  proof (cases ys)
    case Nil
    then show ?thesis using ys by simp
  next
    case (Cons j js)
    have "chain_syms (syms[j := (syms ! j)\<lparr>s_prev := int l\<rparr>]) (int l) (drop (s_n (syms ! l) + s_n (syms ! r)) mid) (j # js) rest' (-1)"
      by (rule chain_prev) (use ys d Cons in auto)
    then show ?thesis unfolding Cons
    proof (rule chain_frame)
      fix i
      assume i: "i \<in> set (j # js)"
      then have "i \<noteq> l" "i \<noteq> r" "i < length syms" using d Cons live [of i] by auto
      then show "?m ! i = (syms[j := (syms ! j)\<lparr>s_prev := int l\<rparr>]) ! i"
        using nth [of i] nr Cons by (auto simp: nth_list_update)
    qed (simp add: len)
  qed
  have "s_n (syms ! l) + s_n (syms ! r) \<le> length mid" using lr by auto
  then have c3: "chain_syms ?m (last_or p xs) mid (l # ys) rest' (-1)" using lr ml c2 len bounds(1) by (simp add: head_or_def)
  show "chain_syms ?m p rest (xs @ l # ys) rest' (-1)" using c1 c3 by (auto simp: chain_syms_append)
  have "sym_str (?m ! i) = sym_str (syms ! i)" if "i \<in> set ys" for i
    using nth [OF live [of i]] that d by (auto simp: sym_str_def)
  moreover have "sym_str (?m ! l) = sym_str (syms ! l) @ sym_str (syms ! r)"
    using lr ml by (auto simp: sym_str_def take_add)
  ultimately show "map (\<lambda>i. sym_str (?m ! i)) (xs @ l # ys) =
       map (\<lambda>i. sym_str (syms ! i)) xs @ (sym_str (syms ! l) @ sym_str (syms ! r)) # map (\<lambda>i. sym_str (syms ! i)) ys"
    using mx by simp
qed

lemma chain_inj:
  assumes "chain_syms syms p rest is rest' e" "i \<in> set is" "j \<in> set is" "s_text (syms ! i) = s_text (syms ! j)"
  shows "i = j"
  using assms
proof (induction "is" arbitrary: p rest)
  case (Cons a as)
  have tail: "chain_syms syms (int a) (drop (s_n (syms ! a)) rest) as rest' e" and a: "s_text (syms ! a) = rest" "0 < s_n (syms ! a)" "s_n (syms ! a) \<le> length rest"
    using Cons.prems(1) by simp_all
  have "length (s_text (syms ! b)) < length rest" if "b \<in> set as" for b
    using chain_lengths [OF tail] that a by fastforce
  then show ?case using Cons.IH [OF tail] Cons.prems(2-4) a(1) by (metis less_irrefl set_ConsD)
qed simp

lemma split_chars_chain:
  "length pre = index \<Longrightarrow> chain_syms (pre @ split_chars rest index) (int index - 1) rest [index ..< index + length (split_chars rest index)] [] (-1) \<and>
     (\<forall>s \<in> set (split_chars rest index). s_n s \<noteq> 0)"
proof (induction rest index arbitrary: pre rule: split_chars.induct)
  case (1 rest index)
  show ?case
  proof (cases "rest = []")
    case True
    then show ?thesis by (simp add: split_chars.simps)
  next
    case False
    let ?len = "min (unicode_len_utf8 (hd rest)) (length rest)" let ?rest = "drop ?len rest"
    let ?s = "\<lparr>s_prev = int index - 1, s_next = (if ?rest = [] then -1 else int index + 1), s_text = rest, s_n = ?len\<rparr>"
    let ?t = "split_chars ?rest (index + 1)"
    have e: "split_chars rest index = ?s # ?t" using False by (simp add: split_chars.simps [of rest] Let_def)
    have len: "0 < ?len" "?len \<le> length rest" using False unicode_len_pos by auto
    have IH: "chain_syms ((pre @ [?s]) @ ?t) (int (index + 1) - 1) ?rest [index + 1 ..< index + 1 + length ?t] [] (-1) \<and> (\<forall>s \<in> set ?t. s_n s \<noteq> 0)"
      by (rule "1.IH") (use False "1.prems" in auto)
    have "?t = [] \<longleftrightarrow> ?rest = []" by (subst split_chars.simps) (simp add: Let_def)
    then have "s_next ?s = (case [index + 1 ..< index + 1 + length ?t] of [] \<Rightarrow> -1 | j # _ \<Rightarrow> int j)"
      by (cases ?t) (simp_all del: upt_Suc add: upt_conv_Cons)
    moreover have "[index ..< index + length (?s # ?t)] = index # [index + 1 ..< index + 1 + length ?t]" by (simp del: upt_Suc add: upt_conv_Cons)
    moreover have "(pre @ ?s # ?t) ! index = ?s" using "1.prems" by (simp add: nth_append)
    ultimately show ?thesis unfolding e using IH len by (simp add: "1.prems")
  qed
qed

subsection \<open>The loop computes the greedy merging\<close>

text \<open>\<open>item_ok\<close>: an entry of the queue was a pair of neighbours when it was added; since then its symbols
  have grown or disappeared.\<close>

definition item_ok :: "(bytes \<Rightarrow> bytes \<Rightarrow> 'k option) \<Rightarrow> llm_symbol list \<Rightarrow> 'k bigram \<Rightarrow> bool" where
  "item_ok lookup syms g \<longleftrightarrow> (let l = bg_left g; r = bg_right g; t = s_text (syms ! l) in
     l < length syms \<and> r < length syms \<and> l \<noteq> r \<and> bg_size g \<le> length t \<and> bg_text g = take (bg_size g) t \<and>
     (\<exists>k. 0 < k \<and> k < bg_size g \<and> s_text (syms ! r) = drop k t \<and> lookup (take k t) (drop k (bg_text g)) = Some (bg_key g) \<and>
       (s_n (syms ! l) = 0 \<or> k \<le> s_n (syms ! l)) \<and> (s_n (syms ! r) = 0 \<or> bg_size g - k \<le> s_n (syms ! r))))"

definition live_syms :: "llm_symbol list \<Rightarrow> bytes \<Rightarrow> nat list \<Rightarrow> bool" where
  "live_syms syms txt is \<longleftrightarrow> chain_syms syms (-1) txt is [] (-1) \<and> sorted_wrt (<) is \<and>
     (\<forall>i < length syms. s_n (syms ! i) \<noteq> 0 \<longleftrightarrow> i \<in> set is)"

definition queued :: "(bytes \<Rightarrow> bytes \<Rightarrow> 'k option) \<Rightarrow> llm_symbol list \<Rightarrow> 'k bigram list \<Rightarrow> nat \<Rightarrow> nat \<Rightarrow> bool" where
  "queued lookup syms q l r \<longleftrightarrow> (\<forall>k. lookup (sym_str (syms ! l)) (sym_str (syms ! r)) = Some k \<longrightarrow>
     (\<exists>g \<in> set q. bg_left g = l \<and> bg_right g = r \<and> bg_key g = k \<and> bg_size g = s_n (syms ! l) + s_n (syms ! r)))"

lemma fresh_adjacent:
  assumes live: "live_syms syms txt is" and g: "item_ok lookup syms g" "s_n (syms ! bg_left g) \<noteq> 0" "s_n (syms ! bg_right g) \<noteq> 0"
    and fresh: "s_n (syms ! bg_left g) + s_n (syms ! bg_right g) = bg_size g"
  shows "\<exists>xs ys. is = xs @ bg_left g # bg_right g # ys \<and> lookup (sym_str (syms ! bg_left g)) (sym_str (syms ! bg_right g)) = Some (bg_key g)"
proof -
  let ?l = "bg_left g" let ?r = "bg_right g" let ?t = "s_text (syms ! ?l)"
  obtain k where k: "?l < length syms" "?r < length syms" "bg_size g \<le> length ?t" "bg_text g = take (bg_size g) ?t" "0 < k" "k < bg_size g"
    "s_text (syms ! ?r) = drop k ?t" "lookup (take k ?t) (drop k (bg_text g)) = Some (bg_key g)" "k \<le> s_n (syms ! ?l)" "bg_size g - k \<le> s_n (syms ! ?r)"
    using g by (auto simp: item_ok_def Let_def)
  have n: "s_n (syms ! ?l) = k" "s_n (syms ! ?r) = bg_size g - k" using k(6,9,10) fresh by linarith+
  have ch: "chain_syms syms (-1) txt is [] (-1)" and mem: "?l \<in> set is" "?r \<in> set is" using live g(2,3) k(1,2) by (auto simp: live_syms_def)
  obtain xs zs where s: "is = xs @ ?l # zs" using mem(1) by (meson split_list)
  have c: "chain_syms syms (int ?l) (drop k ?t) zs [] (-1)" using ch n(1) unfolding s by (auto simp: chain_syms_append)
  have "s_text (syms ! ?r) \<noteq> []" using chain_lengths [OF ch] mem(2) by fastforce
  then obtain j ys where z: "zs = j # ys" using c k(7) by (cases zs) auto
  have "s_text (syms ! j) = s_text (syms ! ?r)" using c k(7) unfolding z by simp
  then have "j = ?r" using chain_inj [OF ch _ mem(2)] s z by auto
  moreover have "sym_str (syms ! ?l) = take k ?t" "sym_str (syms ! ?r) = drop k (bg_text g)"
    using n k(3,4,7) by (simp_all add: sym_str_def drop_take)
  ultimately show ?thesis using s z k(8) by auto
qed

text \<open>Merging keeps the entries of the queue.\<close>

lemma item_merge:
  assumes "item_ok lookup syms g" "l < length syms" "r < length syms" "l \<noteq> r" "s_n (syms ! l) \<noteq> 0"
  shows "item_ok lookup (merge_symbols l r syms) g"
proof -
  have n: "merge_symbols l r syms ! i = (syms ! i)\<lparr>
     s_prev := (if s_next (syms ! r) \<ge> 0 \<and> i = nat (s_next (syms ! r)) then int l else s_prev (syms ! i)),
     s_next := (if i = l then s_next (syms ! r) else s_next (syms ! i)),
     s_n := (if i = l then s_n (syms ! l) + s_n (syms ! r) else if i = r then 0 else s_n (syms ! i))\<rparr>" if "i < length syms" for i
    by (rule merge_symbols_nth(1) [OF assms(2-4) that])
  have b: "bg_left g < length syms" "bg_right g < length syms" using assms(1) by (auto simp: item_ok_def Let_def)
  obtain k where "bg_left g \<noteq> bg_right g \<and> bg_size g \<le> length (s_text (syms ! bg_left g)) \<and> bg_text g = take (bg_size g) (s_text (syms ! bg_left g)) \<and>
     0 < k \<and> k < bg_size g \<and> s_text (syms ! bg_right g) = drop k (s_text (syms ! bg_left g)) \<and>
     lookup (take k (s_text (syms ! bg_left g))) (drop k (bg_text g)) = Some (bg_key g) \<and>
     (s_n (syms ! bg_left g) = 0 \<or> k \<le> s_n (syms ! bg_left g)) \<and> (s_n (syms ! bg_right g) = 0 \<or> bg_size g - k \<le> s_n (syms ! bg_right g))"
    using assms(1) unfolding item_ok_def Let_def by blast
  then show ?thesis unfolding item_ok_def Let_def n [OF b(1)] n [OF b(2)] merge_symbols_nth(2) [OF assms(2-4) assms(2)]
    using b assms by (auto intro!: exI [of _ k])
qed

definition merge_inv :: "(bytes \<Rightarrow> bytes \<Rightarrow> 'k option) \<Rightarrow> (bytes \<Rightarrow> bool) \<Rightarrow> ('e \<Rightarrow> bool) \<Rightarrow> bytes \<Rightarrow> nat list \<Rightarrow> ('k, 'e) mstate \<Rightarrow> bool" where
  "merge_inv lookup clean extra_ok txt is = (\<lambda>(syms, q, ex). live_syms syms txt is \<and> (\<forall>g \<in> set q. item_ok lookup syms g) \<and>
     (\<forall>xs l r ys. is = xs @ l # r # ys \<longrightarrow> queued lookup syms q l r) \<and> (\<forall>i \<in> set is. clean (sym_str (syms ! i))) \<and> extra_ok ex)"

definition strs :: "llm_symbol list \<Rightarrow> nat list \<Rightarrow> bytes list" where
  "strs syms is = map (\<lambda>i. sym_str (syms ! i)) is"

lemma live_distinct: "live_syms syms txt is \<Longrightarrow> distinct is"
  by (auto simp: live_syms_def strict_sorted_iff)

lemma live_chain:
  assumes "live_syms syms txt is" "is = xs @ l # r # ys"
  shows "l < length syms" "r < length syms" "l \<noteq> r" "s_n (syms ! l) \<noteq> 0" "s_n (syms ! r) \<noteq> 0"
    "s_text (syms ! r) = drop (s_n (syms ! l)) (s_text (syms ! l))" "s_n (syms ! l) \<le> length (s_text (syms ! l))"
    "s_n (syms ! r) \<le> length (s_text (syms ! r))" "s_prev (syms ! l) = last_or (-1) xs" "s_next (syms ! r) = head_or (-1) ys"
    "s_prev (syms ! r) = int l"
  using assms live_distinct [OF assms(1)] by (auto simp: live_syms_def chain_syms_append head_or_def)

lemma live_merge:
  assumes "live_syms syms txt (xs @ l # r # ys)"
  shows "live_syms (merge_symbols l r syms) txt (xs @ l # ys)"
    "strs (merge_symbols l r syms) (xs @ l # ys) = strs syms xs @ (sym_str (syms ! l) @ sym_str (syms ! r)) # strs syms ys"
proof -
  note d = live_distinct [OF assms] and c = live_chain [OF assms refl]
  have ch: "chain_syms syms (-1) txt (xs @ l # r # ys) [] (-1)" using assms by (simp add: live_syms_def)
  have "s_n (merge_symbols l r syms ! i) \<noteq> 0 \<longleftrightarrow> i \<in> set (xs @ l # ys)" if "i < length syms" for i
    using merge_symbols_nth(1) [OF c(1-3) that] c(3,4) assms that d by (auto simp: live_syms_def)
  moreover have "sorted_wrt (<) (xs @ l # ys)" using assms by (auto simp: live_syms_def sorted_wrt_append)
  ultimately show "live_syms (merge_symbols l r syms) txt (xs @ l # ys)"
    using merge_chain(1) [OF ch d] merge_symbols_nth(2) [OF c(1-3) c(1)] by (simp add: live_syms_def)
  show "strs (merge_symbols l r syms) (xs @ l # ys) = strs syms xs @ (sym_str (syms ! l) @ sym_str (syms ! r)) # strs syms ys"
    using merge_chain(2) [OF ch d] by (simp add: strs_def)
qed

lemma adjacent_cases:
  assumes "xs @ l # ys = us @ a # b # vs" "a \<noteq> l" "b \<noteq> l"
  shows "(\<exists>vs'. xs = us @ a # b # vs') \<or> (\<exists>us'. ys = us' @ a # b # vs)"
  using assms
proof (induction us arbitrary: xs)
  case Nil
  then show ?case by (cases xs; cases "tl xs") auto
next
  case (Cons u us)
  show ?case
  proof (cases xs)
    case Nil
    then show ?thesis using Cons.prems by auto
  next
    case (Cons x xs')
    then show ?thesis using Cons.IH [of xs'] Cons.prems by auto
  qed
qed

lemma split_unique: "xs @ l # ys = us @ l # vs \<Longrightarrow> distinct (xs @ l # ys) \<Longrightarrow> xs = us \<and> ys = vs"
proof (induction xs arbitrary: us)
  case Nil
  then show ?case by (cases us) auto
next
  case (Cons x xs)
  then show ?case by (cases us) auto
qed

lemma neighbours_nth: "Suc m < length is \<Longrightarrow> is = take m is @ is ! m # is ! Suc m # drop (Suc (Suc m)) is"
  by (metis Cons_nth_drop_Suc Suc_lessD append_take_drop_id)

text \<open>The symbols with a text, in their order, are the chain.\<close>

lemma live_filter:
  assumes "live_syms syms txt is"
  shows "filter (\<lambda>s. 0 < s_n s) syms = map (\<lambda>i. syms ! i) is"
proof -
  have mem: "i < length syms" if "i \<in> set is" for i using chain_lengths [of syms "-1" "txt" "is" "[]" "-1"] assms that by (auto simp: live_syms_def)
  have "is = filter (\<lambda>i. 0 < s_n (syms ! i)) [0 ..< length syms]"
  proof (rule sorted_distinct_set_unique)
    show "sorted is" "distinct is" using assms by (auto simp: live_syms_def strict_sorted_iff)
    show "set is = set (filter (\<lambda>i. 0 < s_n (syms ! i)) [0 ..< length syms])" using assms mem by (auto simp: live_syms_def)
  qed (simp_all add: sorted_filter [of id, simplified])
  then have "map (\<lambda>i. syms ! i) is = map (\<lambda>i. syms ! i) (filter (\<lambda>i. 0 < s_n (syms ! i)) [0 ..< length syms])" by simp
  also have "\<dots> = filter (\<lambda>s. 0 < s_n s) (map (\<lambda>i. syms ! i) [0 ..< length syms])" by (simp add: filter_map comp_def)
  finally show ?thesis by (simp add: map_nth)
qed

lemma chain_head: "chain_syms syms p txt is [] (-1) \<Longrightarrow> is = [] \<longleftrightarrow> txt = []"
  by (cases "is") auto

text \<open>The walk along the \<open>next\<close> links from a symbol on; an index outside the list has no value.\<close>

partial_function (option) walk_symbols :: "(bytes \<Rightarrow> 'a \<Rightarrow> 'a option) \<Rightarrow> llm_symbol list \<Rightarrow> int \<Rightarrow> 'a \<Rightarrow> 'a option" where
  "walk_symbols f syms i out =
     (if i = -1 then Some out
      else if i < 0 \<or> nat i \<ge> length syms then None
      else Option.bind (f (sym_str (syms ! nat i)) out) (walk_symbols f syms (s_next (syms ! nat i))))"

lemma walk_chain:
  "chain_syms syms p txt is [] (-1) \<Longrightarrow> walk_symbols f syms (head_or (-1) is) out = fold_opt f (strs syms is) out"
proof (induction "is" arbitrary: p "txt" out)
  case Nil
  then show ?case by (simp add: walk_symbols.simps strs_def)
next
  case (Cons i js)
  have "walk_symbols f syms (s_next (syms ! i)) t = fold_opt f (strs syms js) t" for t
    using Cons.IH [of "int i" "drop (s_n (syms ! i)) txt" t] Cons.prems by (simp add: head_or_def)
  then show ?case using Cons.prems by (subst walk_symbols.simps) (auto simp: strs_def split: option.splits)
qed

text \<open>The pieces a text is cut into.\<close>

definition utf8_pieces :: "bytes \<Rightarrow> bytes list" where
  "utf8_pieces txt = map sym_str (split_chars txt 0)"

lemma split_chars_live: "live_syms (split_chars txt 0) txt [0 ..< length (split_chars txt 0)]"
  using split_chars_chain [of "[]" 0 "txt"] by (auto simp: live_syms_def)

lemma strs_all: "strs syms [0 ..< length syms] = map sym_str syms"
  by (rule nth_equalityI) (simp_all add: strs_def)

lemma concat_pieces: "concat (utf8_pieces txt) = txt"
  using chain_strs [of "split_chars txt 0" "-1" "txt" _ "[]" "-1"] split_chars_live [of "txt"]
  by (simp add: live_syms_def utf8_pieces_def strs_all [symmetric] strs_def)

lemma concat_greedy: "concat (greedy_merge lookup better ps) = concat ps"
proof (induction lookup better ps rule: greedy_merge.induct)
  case (1 lookup better ps)
  show ?case
  proof (cases "best_pair lookup better 0 ps")
    case None
    then show ?thesis by (subst greedy_merge.simps) simp
  next
    case (Some ki)
    then obtain k i where ki: "best_pair lookup better 0 ps = Some (k, i)" by (cases ki) auto
    then have "Suc i < length ps" using best_pair_bound by fastforce
    then have "concat (join_at i ps) = concat ps"
      by (subst (2) neighbours_nth [of i ps]) (simp_all add: join_at_def)
    then show ?thesis using "1.IH" [OF ki refl] ki by (subst greedy_merge.simps) simp
  qed
qed

lemma greedy_all:
  assumes "\<And>a b k. lookup a b = Some k \<Longrightarrow> P a \<Longrightarrow> P b \<Longrightarrow> P (a @ b)"
  shows "\<forall>p \<in> set ps. P p \<Longrightarrow> \<forall>p \<in> set (greedy_merge lookup better ps). P p"
proof (induction "length ps" arbitrary: ps rule: less_induct)
  case less
  show ?case
  proof (cases "best_pair lookup better 0 ps")
    case None
    then show ?thesis using less.prems by (subst greedy_merge.simps) simp
  next
    case (Some ki)
    then obtain k i where ki: "best_pair lookup better 0 ps = Some (k, i)" by (cases ki) auto
    then have i: "Suc i < length ps" and lk: "lookup (ps ! i) (ps ! Suc i) = Some k" using best_pair_bound best_pair_lookup by fastforce+
    have "P (ps ! i @ ps ! Suc i)" using assms [OF lk] less.prems i by simp
    then have "\<forall>p \<in> set (join_at i ps). P p" using less.prems by (auto simp: join_at_def dest: in_set_takeD in_set_dropD)
    moreover have "length (join_at i ps) < length ps" using i by (simp add: join_at_def)
    ultimately have "\<forall>p \<in> set (greedy_merge lookup better (join_at i ps)). P p" using less.hyps by blast
    then show ?thesis using ki by (subst greedy_merge.simps) simp
  qed
qed

locale merging =
  fixes lookup :: "bytes \<Rightarrow> bytes \<Rightarrow> 'k option"
    and better :: "'k \<Rightarrow> 'k \<Rightarrow> bool"
    and stale :: "llm_symbol list \<Rightarrow> 'k bigram \<Rightarrow> bool"
    and add :: "int \<Rightarrow> int \<Rightarrow> ('k, 'e) mstate \<Rightarrow> ('k, 'e) mstate option"
    and clean :: "bytes \<Rightarrow> bool"
    and extra_ok :: "'e \<Rightarrow> bool"
  assumes better_irrefl: "\<not> better a a"
    and better_trans: "better a b \<Longrightarrow> better b c \<Longrightarrow> better a c"
    and better_total: "better a b \<or> a = b \<or> better b a"
    and clean_append: "clean s \<Longrightarrow> clean t \<Longrightarrow> clean (s @ t)"
    and stale_size: "item_ok lookup syms g \<Longrightarrow> s_n (syms ! bg_left g) \<noteq> 0 \<Longrightarrow> s_n (syms ! bg_right g) \<noteq> 0 \<Longrightarrow>
      s_n (syms ! bg_left g) \<le> length (s_text (syms ! bg_left g)) \<Longrightarrow> s_n (syms ! bg_right g) \<le> length (s_text (syms ! bg_right g)) \<Longrightarrow>
      stale syms g \<longleftrightarrow> s_n (syms ! bg_left g) + s_n (syms ! bg_right g) \<noteq> bg_size g"
    and add_none: "x = -1 \<or> y = -1 \<Longrightarrow> add x y st = Some st"
    and add_pair: "s_text (syms ! j) = drop (s_n (syms ! i)) (s_text (syms ! i)) \<Longrightarrow> s_n (syms ! i) \<le> length (s_text (syms ! i)) \<Longrightarrow>
      s_n (syms ! j) \<le> length (s_text (syms ! j)) \<Longrightarrow> clean (sym_str (syms ! i)) \<Longrightarrow> clean (sym_str (syms ! j)) \<Longrightarrow> extra_ok ex \<Longrightarrow>
      \<exists>ex'. add (int i) (int j) (syms, q, ex) = Some (syms, q @ (case lookup (sym_str (syms ! i)) (sym_str (syms ! j)) of None \<Rightarrow> []
        | Some k \<Rightarrow> [\<lparr>bg_left = i, bg_right = j, bg_text = sym_str (syms ! i) @ sym_str (syms ! j),
            bg_size = s_n (syms ! i) + s_n (syms ! j), bg_key = k\<rparr>]), ex') \<and> extra_ok ex'"
begin

lemma after_trans: "\<not> after better m b \<Longrightarrow> \<not> after better t m \<Longrightarrow> \<not> after better t b"
  using better_total [of "bg_key m" "bg_key b"] better_total [of "bg_key t" "bg_key m"] better_irrefl [of "bg_key m"]
    better_trans [of "bg_key m" "bg_key b" "bg_key t"] better_trans [of "bg_key b" "bg_key t" "bg_key m"] by (auto simp: after_def)

lemma after_asym: "after better m b \<Longrightarrow> \<not> after better b m"
  unfolding after_def by (metis better_irrefl better_trans less_asym)

lemma pq_top_best: "pq_top better m bs \<in> set (m # bs) \<and> (\<forall>b \<in> set (m # bs). \<not> after better (pq_top better m bs) b)"
proof (induction bs arbitrary: m)
  case Nil
  then show ?case using after_asym by auto
next
  case (Cons b bs)
  let ?m = "if after better m b then b else m"
  have "\<not> after better ?m c" if "c \<in> {m, b}" for c using that after_asym by auto
  then have "\<not> after better (pq_top better ?m bs) c" if "c \<in> {m, b}" for c using that Cons [of ?m] after_trans by (meson list.set_intros(1))
  then show ?case using Cons [of ?m] by auto
qed

lemma best_pairI:
  assumes "Suc m < length ps" "lookup (ps ! m) (ps ! Suc m) = Some k"
    "\<And>m' k'. Suc m' < length ps \<Longrightarrow> lookup (ps ! m') (ps ! Suc m') = Some k' \<Longrightarrow> \<not> better k' k \<and> (m' < m \<longrightarrow> k' \<noteq> k)"
  shows "best_pair lookup better i ps = Some (k, i + m)"
  using assms
proof (induction ps arbitrary: i m)
  case (Cons a ps)
  obtain b qs where ps: "ps = b # qs" using Cons.prems(1) by (cases ps) auto
  note first = Cons.prems(3) [of 0, simplified]
  show ?case
  proof (cases m)
    case 0
    have rest: "\<not> better k' k" if "best_pair lookup better (Suc i) ps = Some (k', j)" for k' j
    proof -
      have "\<exists>m'. Suc m' < length ps \<and> lookup (ps ! m') (ps ! Suc m') = Some k'"
        using that
      proof (induction lookup better "Suc i" ps arbitrary: i k' j rule: best_pair.induct)
        case (1 lookup better a b ps)
        then show ?case by (fastforce split: option.splits prod.splits if_splits)
      qed simp_all
      then show ?thesis using Cons.prems(3) [of "Suc _"] by fastforce
    qed
    then show ?thesis using Cons.prems(2) 0 by (auto simp: ps split: option.splits)
  next
    case (Suc m')
    have "best_pair lookup better (Suc i) ps = Some (k, Suc i + m')"
    proof (rule Cons.IH)
      show "Suc m' < length ps" "lookup (ps ! m') (ps ! Suc m') = Some k" using Cons.prems(1,2) Suc by simp_all
      show "\<not> better k' k \<and> (m'' < m' \<longrightarrow> k' \<noteq> k)" if "Suc m'' < length ps" "lookup (ps ! m'') (ps ! Suc m'') = Some k'" for m'' k'
        using Cons.prems(3) [of "Suc m''" k'] that Suc by simp
    qed
    moreover have "better k k'" if "lookup a b = Some k'" for k'
      using Cons.prems(3) [of 0 k'] that Suc ps better_total [of k k'] by auto
    ultimately show ?thesis using Suc ps by (auto split: option.splits)
  qed
qed simp

lemma best_pair_None: "(\<And>m. Suc m < length ps \<Longrightarrow> lookup (ps ! m) (ps ! Suc m) = None) \<Longrightarrow> best_pair lookup better i ps = None"
proof (induction ps arbitrary: i)
  case (Cons a ps)
  have "best_pair lookup better (Suc i) ps = None" by (rule Cons.IH) (use Cons.prems [of "Suc _"] in auto)
  then show ?case using Cons.prems [of 0] by (cases ps) auto
qed simp

text \<open>Adding the pair of two neighbours.\<close>

lemma add_neighbours:
  assumes live: "live_syms syms txt (xs @ l # r # ys)" and clean: "clean (sym_str (syms ! l))" "clean (sym_str (syms ! r))" and ex: "extra_ok ex"
  shows "\<exists>gs ex'. add (int l) (int r) (syms, q, ex) = Some (syms, q @ gs, ex') \<and> extra_ok ex' \<and> length gs \<le> 1 \<and>
    (\<forall>g \<in> set gs. item_ok lookup syms g) \<and> queued lookup syms (q @ gs) l r"
proof -
  note c = live_chain [OF live refl]
  let ?gs = "case lookup (sym_str (syms ! l)) (sym_str (syms ! r)) of None \<Rightarrow> []
        | Some k \<Rightarrow> [\<lparr>bg_left = l, bg_right = r, bg_text = sym_str (syms ! l) @ sym_str (syms ! r), bg_size = s_n (syms ! l) + s_n (syms ! r), bg_key = k\<rparr>]"
  obtain ex' where "add (int l) (int r) (syms, q, ex) = Some (syms, q @ ?gs, ex')" "extra_ok ex'"
    using add_pair [OF c(6,7,8) clean ex] by blast
  moreover have "\<forall>g \<in> set ?gs. item_ok lookup syms g"
  proof (cases "lookup (sym_str (syms ! l)) (sym_str (syms ! r))")
    case (Some k)
    have "sym_str (syms ! l) @ sym_str (syms ! r) = take (s_n (syms ! l) + s_n (syms ! r)) (s_text (syms ! l))"
      using c(6) by (simp add: sym_str_def take_add)
    moreover have "s_n (syms ! l) + s_n (syms ! r) \<le> length (s_text (syms ! l))" using c(6-8) by simp
    ultimately show ?thesis using Some c by (auto simp: item_ok_def Let_def sym_str_def drop_take intro!: exI [of _ "s_n (syms ! l)"])
  qed simp
  moreover have "queued lookup syms (q @ ?gs) l r" by (auto simp: queued_def)
  moreover have "length ?gs \<le> 1" by (simp split: option.splits)
  ultimately show ?thesis by blast
qed

lemma popped_merges:
  assumes inv: "merge_inv lookup clean extra_ok txt is (syms, q, ex)" and q: "q \<noteq> []"
    and g: "g = pq_top better (hd q) (tl q)" and lr: "s_n (syms ! bg_left g) \<noteq> 0" "s_n (syms ! bg_right g) \<noteq> 0" and fr: "\<not> stale syms g"
  shows "\<exists>xs ys. is = xs @ bg_left g # bg_right g # ys \<and> best_pair lookup better 0 (strs syms is) = Some (bg_key g, length xs)"
proof -
  have live: "live_syms syms txt is" and items: "\<forall>g \<in> set q. item_ok lookup syms g"
    and qd: "\<And>xs l r ys. is = xs @ l # r # ys \<Longrightarrow> queued lookup syms q l r" using inv unfolding merge_inv_def prod.case by blast+
  have hq: "hd q # tl q = q" using q by simp
  have top: "g \<in> set q" "\<And>b. b \<in> set q \<Longrightarrow> \<not> after better g b" using pq_top_best [of "hd q" "tl q"] unfolding g [symmetric] hq by auto
  have io: "item_ok lookup syms g" using items top(1) by blast
  have in_range: "bg_left g < length syms" "bg_right g < length syms" using io by (auto simp: item_ok_def Let_def)
  have len: "s_n (syms ! i) \<le> length (s_text (syms ! i))" if "i < length syms" "s_n (syms ! i) \<noteq> 0" for i
  proof -
    have "i \<in> set is" using live that by (auto simp: live_syms_def)
    then obtain xs ys where "is = xs @ i # ys" by (meson split_list)
    then show ?thesis using live by (auto simp: live_syms_def chain_syms_append)
  qed
  have "s_n (syms ! bg_left g) + s_n (syms ! bg_right g) = bg_size g"
    using stale_size [OF io lr len [OF in_range(1) lr(1)] len [OF in_range(2) lr(2)]] fr by simp
  then obtain xs ys where s: "is = xs @ bg_left g # bg_right g # ys" and lk: "lookup (sym_str (syms ! bg_left g)) (sym_str (syms ! bg_right g)) = Some (bg_key g)"
    using fresh_adjacent [OF live io lr] by blast
  have "best_pair lookup better 0 (strs syms is) = Some (bg_key g, 0 + length xs)"
  proof (rule best_pairI)
    show "Suc (length xs) < length (strs syms is)" by (simp add: strs_def s)
    show "lookup (strs syms is ! length xs) (strs syms is ! Suc (length xs)) = Some (bg_key g)" using lk by (simp add: strs_def s nth_append)
    show "\<not> better k' (bg_key g) \<and> (m' < length xs \<longrightarrow> k' \<noteq> bg_key g)"
      if m': "Suc m' < length (strs syms is)" "lookup (strs syms is ! m') (strs syms is ! Suc m') = Some k'" for m' k'
    proof -
      have m: "Suc m' < length is" using m'(1) by (simp add: strs_def)
      obtain g' where g': "g' \<in> set q" "bg_left g' = is ! m'" "bg_key g' = k'"
        using qd [OF neighbours_nth [OF m]] m'(2) m by (auto simp: queued_def strs_def)
      have "is ! m' < bg_left g" if "m' < length xs"
        using live that s sorted_wrt_nth_less [of "(<)" "is" m' "length xs"] by (auto simp: live_syms_def)
      then show ?thesis using top(2) [OF g'(1)] g' by (auto simp: after_def)
    qed
  qed
  then show ?thesis using s by auto
qed

lemma step_merged:
  assumes inv: "merge_inv lookup clean extra_ok txt (xs @ l # r # ys) (syms, q, ex)"
    and q': "set q' \<subseteq> set q" "\<And>g. g \<in> set q \<Longrightarrow> bg_left g \<noteq> l \<Longrightarrow> g \<in> set q'"
  shows "\<exists>st1 q2 ex2. add (s_prev (merge_symbols l r syms ! l)) (int l) (merge_symbols l r syms, q', ex) = Some st1 \<and>
    add (int l) (s_next (fst st1 ! l)) st1 = Some (merge_symbols l r syms, q2, ex2) \<and> length q2 \<le> length q' + 2 \<and>
    merge_inv lookup clean extra_ok txt (xs @ l # ys) (merge_symbols l r syms, q2, ex2)"
proof -
  let ?m = "merge_symbols l r syms"
  have live: "live_syms syms txt (xs @ l # r # ys)" and items: "\<forall>g \<in> set q. item_ok lookup syms g"
    and qd: "\<And>us a b vs. xs @ l # r # ys = us @ a # b # vs \<Longrightarrow> queued lookup syms q a b"
    and cl: "\<forall>i \<in> set (xs @ l # r # ys). clean (sym_str (syms ! i))" and ex: "extra_ok ex" using inv unfolding merge_inv_def prod.case by blast+
  note c = live_chain [OF live refl] and m = live_merge [OF live] and d = live_distinct [OF live]
  have str: "sym_str (?m ! i) = sym_str (syms ! i)" if "i \<in> set xs \<union> set ys" for i
    using m(2) d that by (auto simp: strs_def sym_str_def merge_symbols_nth(1) [OF c(1-3)] dest: chain_lengths [OF live [unfolded live_syms_def, THEN conjunct1], THEN conjunct2, rule_format])
  have strl: "sym_str (?m ! l) = sym_str (syms ! l) @ sym_str (syms ! r)" using m(2) by (simp add: strs_def)
  have cl': "\<forall>i \<in> set (xs @ l # ys). clean (sym_str (?m ! i))" using cl str strl clean_append by auto
  have nn: "s_n (?m ! i) = s_n (syms ! i)" if "i \<in> set xs \<union> set ys" for i
    using d that live by (auto simp: merge_symbols_nth(1) [OF c(1-3)] live_syms_def dest: chain_lengths [THEN conjunct2, rule_format])
  have items': "item_ok lookup ?m g" if "g \<in> set q" for g using item_merge items that c(1-4) by blast
  have old: "queued lookup ?m q' a b" if "xs @ l # ys = us @ a # b # vs" "a \<noteq> l" "b \<noteq> l" for us a b vs
  proof -
    have "\<exists>us' vs'. xs @ l # r # ys = us' @ a # b # vs'" using adjacent_cases [OF that]
      by (metis append.assoc append_Cons)
    then have "queued lookup syms q a b" using qd by blast
    moreover have "a \<in> set xs \<union> set ys" "b \<in> set xs \<union> set ys"
    proof -
      have "a \<in> set (xs @ l # ys)" "b \<in> set (xs @ l # ys)" unfolding that(1) by simp_all
      then show "a \<in> set xs \<union> set ys" "b \<in> set xs \<union> set ys" using that(2,3) by auto
    qed
    ultimately show ?thesis using str nn q'(2) that(2) by (fastforce simp: queued_def)
  qed
  obtain gs1 ex1 where a1: "add (s_prev (?m ! l)) (int l) (?m, q', ex) = Some (?m, q' @ gs1, ex1)" "extra_ok ex1" "length gs1 \<le> 1"
    "\<forall>g \<in> set gs1. item_ok lookup ?m g" "\<And>p xs'. xs = xs' @ [p] \<Longrightarrow> queued lookup ?m (q' @ gs1) p l"
  proof (cases xs rule: rev_cases)
    case Nil
    then show ?thesis using that [of "[]" ex] add_none [of "-1" "int l"] live_chain(9) [OF live refl] m(1) ex
      by (auto simp: live_syms_def)
  next
    case (snoc xs' p)
    have lv: "live_syms ?m txt (xs' @ p # l # ys)" using m(1) snoc by simp
    have "clean (sym_str (?m ! p))" "clean (sym_str (?m ! l))" using cl' snoc by auto
    then obtain gs ex' where "add (int p) (int l) (?m, q', ex) = Some (?m, q' @ gs, ex')" "extra_ok ex'" "length gs \<le> 1"
      "\<forall>g \<in> set gs. item_ok lookup ?m g" "queued lookup ?m (q' @ gs) p l" using add_neighbours [OF lv _ _ ex] by blast
    then show ?thesis using that [of gs ex'] live_chain(11) [OF lv refl] snoc by auto
  qed
  obtain gs2 ex2 where a2: "add (int l) (s_next (?m ! l)) (?m, q' @ gs1, ex1) = Some (?m, (q' @ gs1) @ gs2, ex2)" "extra_ok ex2" "length gs2 \<le> 1"
    "\<forall>g \<in> set gs2. item_ok lookup ?m g" "\<And>j js. ys = j # js \<Longrightarrow> queued lookup ?m ((q' @ gs1) @ gs2) l j"
  proof (cases ys)
    case Nil
    have "s_next (?m ! l) = -1" using m(1) Nil by (auto simp: live_syms_def chain_syms_append)
    then show ?thesis using that [of "[]" ex1] add_none [of "int l" "-1"] a1(2) Nil by auto
  next
    case (Cons j js)
    have lv: "live_syms ?m txt (xs @ l # j # js)" using m(1) Cons by simp
    have "s_next (?m ! l) = int j" using m(1) Cons by (auto simp: live_syms_def chain_syms_append)
    moreover have "clean (sym_str (?m ! l))" "clean (sym_str (?m ! j))" using cl' Cons by auto
    then obtain gs ex' where "add (int l) (int j) (?m, q' @ gs1, ex1) = Some (?m, (q' @ gs1) @ gs, ex')" "extra_ok ex'" "length gs \<le> 1"
      "\<forall>g \<in> set gs. item_ok lookup ?m g" "queued lookup ?m ((q' @ gs1) @ gs) l j" using add_neighbours [OF lv _ _ a1(2)] by blast
    ultimately show ?thesis using that [of gs ex'] Cons by auto
  qed
  have mono: "queued lookup ?m q1 a b \<Longrightarrow> set q1 \<subseteq> set q2 \<Longrightarrow> queued lookup ?m q2 a b" for q1 q2 a b
    by (fastforce simp: queued_def)
  have "queued lookup ?m ((q' @ gs1) @ gs2) a b" if e: "xs @ l # ys = us @ a # b # vs" for us a b vs
  proof -
    have dd: "distinct (xs @ l # ys)" using d by simp
    consider "a = l" | "b = l" | "a \<noteq> l" "b \<noteq> l" by blast
    then show ?thesis
    proof cases
      case 1
      then have "ys = b # vs" using split_unique [of xs l ys us "b # vs"] e dd by simp
      then show ?thesis using a2(5) 1 by simp
    next
      case 2
      then have "xs @ l # ys = (us @ [a]) @ l # vs" using e by simp
      then have "xs = us @ [a]" using split_unique [of xs l ys "us @ [a]" vs] dd by simp
      then show ?thesis unfolding 2 by (intro mono [OF a1(5)]) auto
    next
      case 3
      then show ?thesis using mono [OF old [OF e 3]] by auto
    qed
  qed
  then have "merge_inv lookup clean extra_ok txt (xs @ l # ys) (?m, (q' @ gs1) @ gs2, ex2)"
    using m(1) items' q'(1) a1(4) a2(2,4) cl' by (auto simp: merge_inv_def)
  then show ?thesis using a1(1,3) a2(1,3) by (intro exI conjI) (assumption | simp)+
qed

lemma stale_keeps:
  assumes inv: "merge_inv lookup clean extra_ok txt is (syms, q, ex)" and g: "g \<in> set q"
    and st: "s_n (syms ! bg_left g) = 0 \<or> s_n (syms ! bg_right g) = 0 \<or> stale syms g"
  shows "merge_inv lookup clean extra_ok txt is (syms, remove1 g q, ex)"
proof -
  have live: "live_syms syms txt is" and items: "\<forall>g \<in> set q. item_ok lookup syms g"
    and qd: "\<And>xs l r ys. is = xs @ l # r # ys \<Longrightarrow> queued lookup syms q l r"
    and rest: "\<forall>i \<in> set is. clean (sym_str (syms ! i))" "extra_ok ex" using inv unfolding merge_inv_def prod.case by blast+
  have "queued lookup syms (remove1 g q) l r" if s: "is = xs @ l # r # ys" for xs l r ys
    unfolding queued_def
  proof (intro allI impI)
    fix k
    assume "lookup (sym_str (syms ! l)) (sym_str (syms ! r)) = Some k"
    then obtain h where h: "h \<in> set q" "bg_left h = l" "bg_right h = r" "bg_key h = k" "bg_size h = s_n (syms ! l) + s_n (syms ! r)"
      using qd [OF s] by (auto simp: queued_def)
    note c = live_chain [OF live s]
    have "\<not> stale syms h" using stale_size [of syms h] items h c by auto
    then have "h \<noteq> g" using st h c by auto
    then show "\<exists>h \<in> set (remove1 g q). bg_left h = l \<and> bg_right h = r \<and> bg_key h = k \<and> bg_size h = s_n (syms ! l) + s_n (syms ! r)"
      using h by auto
  qed
  moreover have "\<forall>g \<in> set (remove1 g q). item_ok lookup syms g" using items set_remove1_subset [of g q] by blast
  ultimately show ?thesis using live rest unfolding merge_inv_def prod.case by blast
qed

lemma merge_loop_greedy:
  "merge_inv lookup clean extra_ok txt is (syms, q, ex) \<Longrightarrow> \<exists>syms' is' ex'. merge_loop better stale add (syms, q, ex) = Some (syms', [], ex') \<and>
     live_syms syms' txt is' \<and> head_or (-1) is' = head_or (-1) is \<and>
     strs syms' is' = greedy_merge lookup better (strs syms is) \<and> extra_ok ex'"
proof (induction "3 * length is + length q" arbitrary: "is" syms q ex rule: less_induct)
  case less
  note inv = less.prems
  show ?case
  proof (cases "q = []")
    case True
    have "best_pair lookup better 0 (strs syms is) = None"
    proof (rule best_pair_None)
      fix m
      assume "Suc m < length (strs syms is)"
      then have m: "Suc m < length is" by (simp add: strs_def)
      have "queued lookup syms q (is ! m) (is ! Suc m)" using inv neighbours_nth [OF m] unfolding merge_inv_def prod.case by blast
      then show "lookup (strs syms is ! m) (strs syms is ! Suc m) = None" using m True by (auto simp: queued_def strs_def)
    qed
    then have "strs syms is = greedy_merge lookup better (strs syms is)" by (subst greedy_merge.simps) simp
    then show ?thesis using inv True by (subst merge_loop.simps) (auto simp: merge_inv_def)
  next
    case False
    let ?g = "pq_top better (hd q) (tl q)" let ?q = "remove1 ?g q"
    have g: "?g \<in> set q" using pq_top_best [of "hd q" "tl q"] False by simp
    then have len: "length ?q < length q" using False by (simp add: length_remove1)
    show ?thesis
    proof (cases "s_n (syms ! bg_left ?g) = 0 \<or> s_n (syms ! bg_right ?g) = 0 \<or> stale syms ?g")
      case True
      have "merge_loop better stale add (syms, q, ex) = merge_loop better stale add (syms, ?q, ex)"
        using False True by (subst merge_loop.simps) (simp add: Let_def)
      then show ?thesis using less.hyps [OF _ stale_keeps [OF inv g True]] len by simp
    next
      case fresh: False
      have live: "s_n (syms ! bg_left ?g) \<noteq> 0" "s_n (syms ! bg_right ?g) \<noteq> 0" "\<not> stale syms ?g" using fresh by simp_all
      obtain xs ys where s: "is = xs @ bg_left ?g # bg_right ?g # ys" and best: "best_pair lookup better 0 (strs syms is) = Some (bg_key ?g, length xs)"
        using popped_merges [OF inv False refl live] by blast
      let ?l = "bg_left ?g" let ?m = "merge_symbols ?l (bg_right ?g) syms"
      have q': "set ?q \<subseteq> set q" "\<And>h. h \<in> set q \<Longrightarrow> bg_left h \<noteq> ?l \<Longrightarrow> h \<in> set ?q"
        by (rule set_remove1_subset) (metis in_set_remove1)
      obtain st1 q2 ex2 where a: "add (s_prev (?m ! ?l)) (int ?l) (?m, ?q, ex) = Some st1" "add (int ?l) (s_next (fst st1 ! ?l)) st1 = Some (?m, q2, ex2)"
        "length q2 \<le> length ?q + 2" "merge_inv lookup clean extra_ok txt (xs @ ?l # ys) (?m, q2, ex2)"
        using step_merged [OF inv [unfolded s] q'] by blast
      have "merge_loop better stale add (syms, q, ex) = merge_loop better stale add (?m, q2, ex2)"
        using False fresh a(1,2) by (subst merge_loop.simps) (simp add: Let_def)
      moreover have "greedy_merge lookup better (strs syms is) = greedy_merge lookup better (strs ?m (xs @ ?l # ys))"
      proof -
        have "live_syms syms txt (xs @ ?l # bg_right ?g # ys)" using inv s by (simp add: merge_inv_def)
        then have "strs ?m (xs @ ?l # ys) = join_at (length xs) (strs syms is)"
          using live_merge(2) s by (simp add: join_at_def strs_def nth_append)
        then show ?thesis using best by (subst greedy_merge.simps) simp
      qed
      moreover have "3 * length (xs @ ?l # ys) + length q2 < 3 * length is + length q" using a(3) len s by simp
      moreover have "head_or (-1) (xs @ ?l # ys) = head_or (-1) is" using s by (cases xs) simp_all
      ultimately show ?thesis using less.hyps [OF _ a(4)] by simp
    qed
  qed
qed

lemma seed_queue_inv:
  assumes live: "live_syms syms txt [0 ..< length syms]" and cl: "\<forall>s \<in> set syms. clean (sym_str s)" and ex: "extra_ok ex"
  shows "\<exists>q ex'. seed_queue add (syms, [], ex) = Some (syms, q, ex') \<and> merge_inv lookup clean extra_ok txt [0 ..< length syms] (syms, q, ex')"
proof -
  have step: "\<exists>q ex'. fold_opt (\<lambda>i. add (int i - 1) (int i)) [1 ..< n] (syms, [], ex) = Some (syms, q, ex') \<and>
      (\<forall>g \<in> set q. item_ok lookup syms g) \<and> (\<forall>i. Suc i < n \<longrightarrow> queued lookup syms q i (Suc i)) \<and> extra_ok ex'" if "n \<le> length syms" for n
    using that
  proof (induction n)
    case 0
    then show ?case using ex by simp
  next
    case (Suc n)
    then obtain q ex' where IH: "fold_opt (\<lambda>i. add (int i - 1) (int i)) [1 ..< n] (syms, [], ex) = Some (syms, q, ex')"
      "\<forall>g \<in> set q. item_ok lookup syms g" "\<forall>i. Suc i < n \<longrightarrow> queued lookup syms q i (Suc i)" "extra_ok ex'" by auto
    show ?case
    proof (cases n)
      case 0
      then show ?thesis using ex by simp
    next
      case n: (Suc m)
      have "Suc m < length [0 ..< length syms]" using Suc.prems n by simp
      have nth: "[0 ..< length syms] ! m = m" "[0 ..< length syms] ! Suc m = Suc m" using Suc.prems n by simp_all
      have s: "[0 ..< length syms] = take m [0 ..< length syms] @ m # Suc m # drop (Suc (Suc m)) [0 ..< length syms]"
        using neighbours_nth [OF \<open>Suc m < length [0 ..< length syms]\<close>] unfolding nth .
      have "clean (sym_str (syms ! m))" "clean (sym_str (syms ! Suc m))" using cl Suc.prems n by simp_all
      moreover have "live_syms syms txt (take m [0 ..< length syms] @ m # Suc m # drop (Suc (Suc m)) [0 ..< length syms])" using live s by metis
      ultimately obtain gs ex2 where gs: "add (int m) (int (Suc m)) (syms, q, ex') = Some (syms, q @ gs, ex2)" "extra_ok ex2" "\<forall>g \<in> set gs. item_ok lookup syms g"
        "queued lookup syms (q @ gs) m (Suc m)" using add_neighbours [OF _ _ _ IH(4)] by blast
      have "queued lookup syms (q @ gs) i (Suc i)" if "Suc i < n" for i
        using IH(3) that unfolding queued_def set_append by blast
      then have "\<forall>i. Suc i < Suc n \<longrightarrow> queued lookup syms (q @ gs) i (Suc i)" using gs(4) n by (metis Suc_inject less_SucE)
      moreover have "fold_opt (\<lambda>i. add (int i - 1) (int i)) [1 ..< Suc n] (syms, [], ex) = Some (syms, q @ gs, ex2)"
        using IH(1) gs(1) n by (simp add: fold_opt_append)
      ultimately show ?thesis using IH(2) gs(2,3) by auto
    qed
  qed
  obtain q ex' where q: "seed_queue add (syms, [], ex) = Some (syms, q, ex')" "\<forall>g \<in> set q. item_ok lookup syms g"
    "\<forall>i. Suc i < length syms \<longrightarrow> queued lookup syms q i (Suc i)" "extra_ok ex'" using step [OF order_refl] by (auto simp: seed_queue_def)
  have "queued lookup syms q l r" if e: "[0 ..< length syms] = xs @ l # r # ys" for xs l r ys
  proof -
    have "length xs + 2 \<le> length syms" using arg_cong [OF e, of length] by simp
    moreover from this have "l = length xs" "r = Suc (length xs)"
      using arg_cong [OF e, of "\<lambda>x. x ! length xs"] arg_cong [OF e, of "\<lambda>x. x ! Suc (length xs)"] by (simp_all add: nth_append)
    ultimately show ?thesis using q(3) by simp
  qed
  then show ?thesis using q live cl by (auto simp: merge_inv_def)
qed

text \<open>A whole session: cutting, seeding and merging.\<close>

lemma session_greedy:
  assumes "\<forall>p \<in> set (utf8_pieces txt). clean p" "extra_ok ex"
  shows "\<exists>syms' is' ex'. Option.bind (seed_queue add (split_chars txt 0, [], ex)) (merge_loop better stale add) = Some (syms', [], ex') \<and>
    live_syms syms' txt is' \<and> (txt \<noteq> [] \<longrightarrow> head_or (-1) is' = 0) \<and> strs syms' is' = greedy_merge lookup better (utf8_pieces txt) \<and> extra_ok ex'"
proof -
  let ?s = "split_chars txt 0"
  obtain q ex1 where q: "seed_queue add (?s, [], ex) = Some (?s, q, ex1)" "merge_inv lookup clean extra_ok txt [0 ..< length ?s] (?s, q, ex1)"
    using seed_queue_inv [OF split_chars_live [of "txt"] _ assms(2)] assms(1) by (auto simp: utf8_pieces_def)
  have "txt \<noteq> [] \<Longrightarrow> head_or (-1) [0 ..< length ?s] = 0"
    using split_chars_live [of "txt"] chain_head [of ?s "-1" "txt" "[0 ..< length ?s]"] by (auto simp: live_syms_def head_or_def upt_rec [of 0])
  moreover obtain syms' is' ex' where "merge_loop better stale add (?s, q, ex1) = Some (syms', [], ex')" "live_syms syms' txt is'"
    "head_or (-1) is' = head_or (-1) [0 ..< length ?s]" "strs syms' is' = greedy_merge lookup better (strs ?s [0 ..< length ?s])" "extra_ok ex'"
    using merge_loop_greedy [OF q(2)] by blast
  ultimately show ?thesis using q(1) unfolding strs_all utf8_pieces_def by fastforce
qed

end

end
