(* ===== verification/Vocab.thy ===== *)
theory Vocab
  imports Regex_Split
begin

text \<open>
  The vocabulary of \<open>llama-vocab.cpp\<close>: the table of tokens, the look-ups of \<open>llama_vocab\<close>, the text of a
  token (\<open>token_to_piece\<close>, with the cache of pieces) and \<open>detokenize\<close>, with the three passes that clean up
  spaces in place.  Token ids are natural numbers (\<open>int\<close> where \<open>LLAMA_TOKEN_NULL\<close> can occur), the scores of
  type \<open>'s\<close> are linearly ordered (they are floats that are not NaN).  A vocabulary without tokens (type
  \<open>NONE\<close>) is not a value of the model: every operation asserts that there is one.  \<open>None\<close> is a failed
  assertion or an exception.
\<close>

subsection \<open>The tables\<close>

datatype vocab_type = VOCAB_SPM | VOCAB_BPE | VOCAB_WPM | VOCAB_UGM | VOCAB_RWKV

type_synonym llama_token = int

abbreviation (input) LLAMA_TOKEN_NULL :: llama_token where "LLAMA_TOKEN_NULL \<equiv> -1"

abbreviation (input) ATTR_UNKNOWN :: u32 where "ATTR_UNKNOWN \<equiv> 0x001"
abbreviation (input) ATTR_NORMAL :: u32 where "ATTR_NORMAL \<equiv> 0x004"
abbreviation (input) ATTR_CONTROL :: u32 where "ATTR_CONTROL \<equiv> 0x008"
abbreviation (input) ATTR_USER_DEFINED :: u32 where "ATTR_USER_DEFINED \<equiv> 0x010"
abbreviation (input) ATTR_BYTE :: u32 where "ATTR_BYTE \<equiv> 0x020"
abbreviation (input) ATTR_LSTRIP :: u32 where "ATTR_LSTRIP \<equiv> 0x080"
abbreviation (input) ATTR_RSTRIP :: u32 where "ATTR_RSTRIP \<equiv> 0x100"

record 's token_data =
  td_text :: bytes
  td_score :: 's
  td_attr :: u32

record 's llama_vocab =
  v_type :: vocab_type
  special_bos_id :: llama_token
  special_eos_id :: llama_token
  special_unk_id :: llama_token
  special_sep_id :: llama_token
  add_space_prefix :: bool
  add_bos :: bool
  add_eos :: bool
  ignore_merges :: bool
  clean_spaces :: bool
  token_to_id :: "bytes \<rightharpoonup> nat"
  id_to_token :: "'s token_data list"
  cache_special_tokens :: "nat list"
  cache_token_to_piece :: "bytes list"
  bpe_ranks :: "bytes \<times> bytes \<rightharpoonup> nat"
  regex_exprs :: "bytes list"

subsection \<open>Look-ups\<close>

definition n_tokens :: "'s llama_vocab \<Rightarrow> nat" where
  "n_tokens v = length (id_to_token v)"

definition text_to_token :: "'s llama_vocab \<Rightarrow> bytes \<Rightarrow> llama_token" where
  "text_to_token v t = (case token_to_id v t of Some i \<Rightarrow> int i | None \<Rightarrow> LLAMA_TOKEN_NULL)"

definition get_token_data :: "'s llama_vocab \<Rightarrow> llama_token \<Rightarrow> 's token_data option" where
  "get_token_data v i = (if 0 \<le> i \<and> nat i < length (id_to_token v) then Some (id_to_token v ! nat i) else None)"

definition token_get_attr :: "'s llama_vocab \<Rightarrow> llama_token \<Rightarrow> u32 option" where
  "token_get_attr v i = map_option td_attr (get_token_data v i)"

definition hex_digit :: "nat \<Rightarrow> u8" where
  "hex_digit n = str_bytes ''0123456789ABCDEF'' ! n"

definition byte_token_text :: "u8 \<Rightarrow> bytes" where
  "byte_token_text ch = str_bytes ''<0x'' @ [hex_digit (unat ch div 16), hex_digit (unat ch mod 16)] @ str_bytes ''>''"

definition byte_to_token :: "'s llama_vocab \<Rightarrow> u8 \<Rightarrow> llama_token option" where
  "byte_to_token v ch = (case v_type v of
     VOCAB_RWKV \<Rightarrow> None
   | VOCAB_SPM \<Rightarrow> (case token_to_id v (byte_token_text ch) of Some i \<Rightarrow> Some (int i)
       | None \<Rightarrow> map_option int (token_to_id v (if ch = 0 then [] else [ch])))
   | VOCAB_UGM \<Rightarrow> (case token_to_id v (byte_token_text ch) of Some i \<Rightarrow> Some (int i)
       | None \<Rightarrow> map_option int (token_to_id v (if ch = 0 then [] else [ch])))
   | _ \<Rightarrow> (case unicode_byte_to_utf8 ch of Inl e \<Rightarrow> None | Inr s \<Rightarrow> map_option int (token_to_id v s)))"

definition find_bpe_rank :: "'s llama_vocab \<Rightarrow> bytes \<Rightarrow> bytes \<Rightarrow> int option" where
  "find_bpe_rank v token_left token_right =
     (if 0x20 \<in> set token_left \<or> 0x0A \<in> set token_left \<or> 0x20 \<in> set token_right \<or> 0x0A \<in> set token_right then None
      else Some (case bpe_ranks v (token_left, token_right) of None \<Rightarrow> -1 | Some rank \<Rightarrow> int rank))"

subsection \<open>The text of a token\<close>

definition is_space_char :: "u8 \<Rightarrow> bool" where
  "is_space_char c \<longleftrightarrow> c = 0x20 \<or> (0x09 \<le> c \<and> c \<le> 0x0D)"

definition hex_value :: "u8 \<Rightarrow> int option" where
  "hex_value c = (if 0x30 \<le> c \<and> c \<le> 0x39 then Some (uint c - 0x30)
     else if 0x41 \<le> c \<and> c \<le> 0x46 then Some (uint c - 0x41 + 10)
     else if 0x61 \<le> c \<and> c \<le> 0x66 then Some (uint c - 0x61 + 10) else None)"

fun hex_number :: "int \<Rightarrow> bytes \<Rightarrow> int" where
  "hex_number acc [] = acc"
| "hex_number acc (c # cs) = (case hex_value c of None \<Rightarrow> acc | Some d \<Rightarrow> hex_number (16 * acc + d) cs)"

text \<open>\<open>strtol\<close> with base 16.\<close>

definition strtol16 :: "bytes \<Rightarrow> int" where
  "strtol16 s =
     (let s1 = dropWhile is_space_char s;
          neg = (s1 \<noteq> [] \<and> hd s1 = 0x2D);
          s2 = (if s1 \<noteq> [] \<and> (hd s1 = 0x2D \<or> hd s1 = 0x2B) then tl s1 else s1);
          s3 = (if length s2 > 2 \<and> s2 ! 0 = 0x30 \<and> (s2 ! 1 = 0x78 \<or> s2 ! 1 = 0x58) \<and> hex_value (s2 ! 2) \<noteq> None then drop 2 s2 else s2)
      in if neg then - hex_number 0 s3 else hex_number 0 s3)"

definition token_to_byte :: "'s llama_vocab \<Rightarrow> llama_token \<Rightarrow> u8 option" where
  "token_to_byte v i = Option.bind (get_token_data v i) (\<lambda>d.
     if td_attr d AND ATTR_BYTE = 0 then None
     else if v_type v = VOCAB_SPM \<or> v_type v = VOCAB_UGM then
       (if length (td_text d) < 3 then None else Some (word_of_int (strtol16 (take 2 (drop 3 (td_text d))))))
     else None)"

text \<open>\<open>replace_all\<close>: the occurrences of \<open>search\<close>, from the left.\<close>

function replace_all :: "bytes \<Rightarrow> bytes \<Rightarrow> bytes \<Rightarrow> bytes" where
  "replace_all s search rep =
     (if search = [] \<or> s = [] then s
      else if take (length search) s = search then rep @ replace_all (drop (length search) s) search rep
      else hd s # replace_all (tl s) search rep)"
  by pat_completeness auto

termination by (relation "measure (\<lambda>(s, _, _). length s)") auto

declare replace_all.simps [simp del]

definition escaped_space :: bytes where
  "escaped_space = [0xE2, 0x96, 0x81]"

definition llama_escape_whitespace :: "bytes \<Rightarrow> bytes" where
  "llama_escape_whitespace t = replace_all t [0x20] escaped_space"

definition llama_unescape_whitespace :: "bytes \<Rightarrow> bytes" where
  "llama_unescape_whitespace t = replace_all t escaped_space [0x20]"

definition hex_lower :: "u8 \<Rightarrow> bytes" where
  "hex_lower b = [str_bytes ''0123456789abcdef'' ! (unat b div 16), str_bytes ''0123456789abcdef'' ! (unat b mod 16)]"

text \<open>A code point outside the byte alphabet is spelled out, followed by the whole text.\<close>

fun decode_cpts :: "bytes \<Rightarrow> u32 list \<Rightarrow> error + bytes" where
  "decode_cpts full [] = Inr []"
| "decode_cpts full (c # cpts) = (case unicode_cpt_to_utf8 c of Inl e \<Rightarrow> Inl e
     | Inr utf8 \<Rightarrow> (let d = (case unicode_utf8_to_byte utf8 of Inr b \<Rightarrow> [b]
           | Inl _ \<Rightarrow> str_bytes ''[UNK_BYTE_0x'' @ concat (map hex_lower utf8) @ full @ str_bytes '']'') in
         case decode_cpts full cpts of Inl e \<Rightarrow> Inl e | Inr ds \<Rightarrow> Inr (d @ ds)))"

definition llama_decode_text :: "bytes \<Rightarrow> error + bytes" where
  "llama_decode_text t = decode_cpts t (unicode_cpts_from_utf8 t)"

text \<open>The state of \<open>llama_unescape_rwkv_token\<close>: \<open>escaping\<close>, \<open>hex_remaining\<close>, \<open>hex_acc\<close> and the output.  Characters
  are signed: a byte from \<open>0x80\<close> on is below \<open>'a'\<close>.\<close>

definition rwkv_step :: "u8 \<Rightarrow> bool \<times> nat \<times> u8 \<times> bytes \<Rightarrow> bool \<times> nat \<times> u8 \<times> bytes" where
  "rwkv_step c = (\<lambda>(escaping, hex_remaining, hex_acc, out).
     if hex_remaining \<noteq> 0 then
       (let value = (if 0x61 \<le> c \<and> c < 0x80 then c - 0x61 + 10 else c - 0x30); acc = push_bit 4 hex_acc + value in
        if hex_remaining - 1 = 0 then (escaping, 0, 0, out @ [acc]) else (escaping, hex_remaining - 1, acc, out))
     else if escaping then
       (if c = 0x74 then (False, 0, hex_acc, out @ [0x09])
        else if c = 0x6E then (False, 0, hex_acc, out @ [0x0A])
        else if c = 0x72 then (False, 0, hex_acc, out @ [0x0D])
        else if c = 0x78 then (False, 2, hex_acc, out)
        else (False, 0, hex_acc, out @ [c]))
     else if c = 0x5C then (True, 0, hex_acc, out)
     else (False, 0, hex_acc, out @ [c]))"

definition llama_unescape_rwkv_token :: "bytes \<Rightarrow> bytes" where
  "llama_unescape_rwkv_token s = snd (snd (snd (fold rwkv_step s (False, 0, 0, []))))"

text \<open>The text of a token of the table.  A token of no kind has no text.\<close>

definition piece_text :: "'s llama_vocab \<Rightarrow> nat \<Rightarrow> bytes option" where
  "piece_text v i =
     (let d = id_to_token v ! i; attr = td_attr d; t = td_text d in
      case v_type v of
        VOCAB_RWKV \<Rightarrow> Some (llama_unescape_rwkv_token t)
      | VOCAB_BPE \<Rightarrow>
          if attr AND (ATTR_UNKNOWN OR ATTR_CONTROL OR ATTR_USER_DEFINED) \<noteq> 0 then Some t
          else if attr AND ATTR_NORMAL \<noteq> 0 then (case llama_decode_text t of Inl e \<Rightarrow> None | Inr result \<Rightarrow> Some result)
          else Some []
      | _ \<Rightarrow>
          if attr AND (ATTR_UNKNOWN OR ATTR_CONTROL OR ATTR_USER_DEFINED) \<noteq> 0 then Some t
          else if attr AND ATTR_NORMAL \<noteq> 0 then Some (llama_unescape_whitespace t)
          else if attr AND ATTR_BYTE \<noteq> 0 then map_option (\<lambda>b. [b]) (token_to_byte v (int i))
          else Some [])"

fun skip_spaces :: "nat \<Rightarrow> bytes \<Rightarrow> bytes" where
  "skip_spaces (Suc n) (c # cs) = (if c = 0x20 then skip_spaces n cs else c # cs)"
| "skip_spaces n cs = cs"

text \<open>The answer of a copy: the number of bytes and the bytes, or minus the number of bytes needed.\<close>

definition try_copy :: "int \<Rightarrow> nat \<Rightarrow> bytes \<Rightarrow> int \<times> bytes" where
  "try_copy len lstrip token = (let t = skip_spaces lstrip token in
     if len < int (length t) then (- int (length t), []) else (int (length t), t))"

definition token_to_piece :: "'s llama_vocab \<Rightarrow> llama_token \<Rightarrow> int \<Rightarrow> nat \<Rightarrow> bool \<Rightarrow> (int \<times> bytes) option" where
  "token_to_piece v token len lstrip special = Option.bind (token_get_attr v token) (\<lambda>attr.
     if \<not> special \<and> attr AND (ATTR_UNKNOWN OR ATTR_CONTROL) \<noteq> 0 then Some (0, [])
     else if cache_token_to_piece v \<noteq> [] then
       (if nat token < length (cache_token_to_piece v) then Some (try_copy len lstrip (cache_token_to_piece v ! nat token)) else None)
     else map_option (\<lambda>result.
       if v_type v = VOCAB_RWKV then
         (if 0 \<le> len \<and> len < int (length result) then (- int (length result), []) else (int (length result), result))
       else try_copy len lstrip result) (piece_text v (nat token)))"

text \<open>The cache: each piece is written to a string that has some room (\<open>capacity\<close>) and, when that is not
  enough, to one of the size asked for; the assertion is that the second answer is that size.\<close>

definition token_to_piece_for_cache :: "nat \<Rightarrow> 's llama_vocab \<Rightarrow> llama_token \<Rightarrow> bool \<Rightarrow> bytes option" where
  "token_to_piece_for_cache capacity v token special =
     Option.bind (token_to_piece v token (int capacity) 0 special) (\<lambda>(n_chars, piece).
     if n_chars < 0 then Option.bind (token_to_piece v token (- n_chars) 0 special) (\<lambda>(check, piece').
       if check = - n_chars then Some piece' else None)
     else Some piece)"

definition build_piece_cache :: "nat \<Rightarrow> 's llama_vocab \<Rightarrow> 's llama_vocab option" where
  "build_piece_cache capacity v =
     map_option (\<lambda>cache. v\<lparr>cache_token_to_piece := cache\<rparr>)
       (fold_opt (\<lambda>i cache. map_option (\<lambda>p. cache @ [p]) (token_to_piece_for_cache capacity v (int i) True)) [0 ..< n_tokens v] [])"

subsection \<open>Loading the table\<close>

text \<open>Token texts that are empty get a name; the assertion at the end makes the texts unique.  \<open>kinds\<close> are the
  scores and attributes of the file.\<close>

fun decimal :: "nat \<Rightarrow> string" where
  "decimal n = (if n < 10 then [char_of (48 + n)] else decimal (n div 10) @ [char_of (48 + n mod 10)])"

declare decimal.simps [simp del]

definition load_token :: "bytes \<times> 's \<times> u32 \<Rightarrow> 's llama_vocab \<Rightarrow> 's llama_vocab" where
  "load_token = (\<lambda>(word, score, attr) v.
     let i = length (id_to_token v);
         word' = (if word = [] then str_bytes ''[EMPTY_'' @ str_bytes (decimal i) @ str_bytes '']'' else word)
     in v\<lparr>token_to_id := (token_to_id v)(word' \<mapsto> i),
          id_to_token := id_to_token v @ [\<lparr>td_text = word', td_score = score, td_attr = attr\<rparr>]\<rparr>)"

definition load_tokens :: "(bytes \<times> 's \<times> u32) list \<Rightarrow> 's llama_vocab \<Rightarrow> 's llama_vocab option" where
  "load_tokens ws v =
     (let v' = fold load_token ws (v\<lparr>token_to_id := Map.empty, id_to_token := []\<rparr>) in
      if length (id_to_token v') = card (dom (token_to_id v')) then Some v' else None)"

definition special_token :: "'s token_data \<Rightarrow> bool" where
  "special_token d \<longleftrightarrow> td_attr d AND (ATTR_CONTROL OR ATTR_USER_DEFINED OR ATTR_UNKNOWN) \<noteq> 0"

text \<open>Special tokens, the longest texts first.\<close>

definition build_special_cache :: "'s llama_vocab \<Rightarrow> 's llama_vocab" where
  "build_special_cache v = v\<lparr>cache_special_tokens :=
     sort_key (\<lambda>i. - int (length (td_text (id_to_token v ! i))))
       (filter (\<lambda>i. special_token (id_to_token v ! i)) [0 ..< n_tokens v])\<rparr>"

subsection \<open>Detokenizing\<close>

text \<open>The passes work in place: \<open>t\<close> is the buffer, \<open>i\<close> the position read, \<open>tot\<close> the number of bytes kept.
  \<open>rm\<close> says at which character the space before it goes.\<close>

function clean_pass :: "(bytes \<Rightarrow> nat \<Rightarrow> nat \<Rightarrow> bool) \<Rightarrow> nat \<Rightarrow> nat \<Rightarrow> nat \<Rightarrow> bytes \<Rightarrow> bytes \<times> nat" where
  "clean_pass rm n i tot t =
     (if i < n then
        let x = t ! i; tot' = (if t ! (i - 1) = 0x20 \<and> rm t n i then tot - 1 else tot) in
        clean_pass rm n (i + 1) (tot' + 1) (t[tot' := x])
      else (t, tot))"
  by pat_completeness auto

termination by (relation "measure (\<lambda>(rm, n, i, tot, t). n - i)") auto

declare clean_pass.simps [simp del]

definition before_punctuation :: "bytes \<Rightarrow> nat \<Rightarrow> nat \<Rightarrow> bool" where
  "before_punctuation t n i \<longleftrightarrow> t ! i \<in> {0x3F, 0x21, 0x2E, 0x2C}"

definition before_contraction :: "bytes \<Rightarrow> nat \<Rightarrow> nat \<Rightarrow> bool" where
  "before_contraction t n i \<longleftrightarrow> t ! i = 0x27 \<and> i + 1 < n \<and>
     (t ! (i + 1) \<in> {0x73, 0x6D} \<or>
      (t ! (i + 1) \<notin> {0x74, 0x64} \<and> i + 2 < n \<and> t ! (i + 2) = 0x65 \<and> t ! (i + 1) \<in> {0x72, 0x76}))"

function apostrophe_pass :: "nat \<Rightarrow> nat \<Rightarrow> nat \<Rightarrow> bytes \<Rightarrow> bytes \<times> nat" where
  "apostrophe_pass n i tot t =
     (if i < n then
        let x = t ! i in
        if x = 0x27 \<and> i + 1 < n \<and> t ! (i - 1) = 0x20 \<and> t ! (i + 1) = 0x20 then
          apostrophe_pass n (i + 2) (tot - 1 + 1) (t[i + 1 := 0, tot - 1 := x])
        else apostrophe_pass n (i + 1) (tot + 1) (t[tot := x])
      else (t, tot))"
  by pat_completeness auto

termination by (relation "measure (\<lambda>(n, i, tot, t). n - i)") auto

declare apostrophe_pass.simps [simp del]

definition clean_up :: "bytes \<Rightarrow> bytes" where
  "clean_up t =
     (let (t1, n1) = clean_pass before_punctuation (length t) 1 (if t = [] then 0 else 1) t;
          (t2, n2) = apostrophe_pass n1 1 (if n1 = 0 then 0 else 1) t1;
          (t3, n3) = clean_pass before_contraction n2 1 (if n2 = 0 then 0 else 1) t2
      in take n3 t3)"

text \<open>The loop over the tokens: the room left, the number of bytes, the bytes written, and whether the
  leading space goes.\<close>

fun detok_loop :: "'s llama_vocab \<Rightarrow> bool \<Rightarrow> llama_token list \<Rightarrow> bool \<Rightarrow> int \<Rightarrow> int \<Rightarrow> bytes \<Rightarrow> (int \<times> bytes) option" where
  "detok_loop v special [] remove_space avail tot t = Some (tot, t)"
| "detok_loop v special (tok # toks) remove_space avail tot t =
     (if avail < 0 then None
      else Option.bind (token_to_piece v tok avail (if remove_space then 1 else 0) special) (\<lambda>(n_chars, piece).
        if n_chars < 0 then detok_loop v special toks False 0 (tot - n_chars) t
        else detok_loop v special toks False (avail - n_chars) (tot + n_chars) (t @ piece)))"

definition strip_bos :: "'s llama_vocab \<Rightarrow> bool \<Rightarrow> llama_token list \<Rightarrow> bool \<times> llama_token list" where
  "strip_bos v remove_special tokens =
     (if remove_special \<and> add_bos v \<and> tokens \<noteq> [] \<and> hd tokens = special_bos_id v then (False, tl tokens)
      else (add_space_prefix v, tokens))"

definition strip_eos :: "'s llama_vocab \<Rightarrow> bool \<Rightarrow> llama_token list \<Rightarrow> llama_token list" where
  "strip_eos v remove_special tokens =
     (if remove_special \<and> add_eos v \<and> tokens \<noteq> [] \<and> last tokens = special_eos_id v then butlast tokens else tokens)"

text \<open>The answer is the number of bytes, with the bytes, or minus the room that is needed.\<close>

definition detokenize :: "'s llama_vocab \<Rightarrow> llama_token list \<Rightarrow> int \<Rightarrow> bool \<Rightarrow> bool \<Rightarrow> (int \<times> bytes) option" where
  "detokenize v tokens text_len_max remove_special unparse_special =
     (let (remove_space, toks) = strip_bos v remove_special tokens in
      Option.bind (detok_loop v unparse_special (strip_eos v remove_special toks) remove_space text_len_max 0 []) (\<lambda>(tot, t).
        if tot > text_len_max then Some (- tot, [])
        else if clean_spaces v then (let c = clean_up t in Some (int (length c), c))
        else Some (tot, t)))"

end
