(* ===== verification/Detokenize.thy ===== *)
theory Detokenize
  imports Vocab
begin

text \<open>
  What the vocabulary promises: the table that \<open>load_tokens\<close> builds is a bijection between ids and texts;
  the cache of pieces answers as the table does; \<open>detokenize\<close> writes the texts of the tokens one after the
  other, or says exactly how much room they need; the three passes over the buffer remove the spaces that
  their description names.
\<close>

subsection \<open>The table\<close>

definition vocab_wf :: "'s llama_vocab \<Rightarrow> bool" where
  "vocab_wf v \<longleftrightarrow> (\<forall>i < n_tokens v. td_text (id_to_token v ! i) \<noteq> [] \<and> token_to_id v (td_text (id_to_token v ! i)) = Some i) \<and>
     (\<forall>t i. token_to_id v t = Some i \<longrightarrow> i < n_tokens v \<and> td_text (id_to_token v ! i) = t)"

definition table_inv :: "'s llama_vocab \<Rightarrow> bool" where
  "table_inv v \<longleftrightarrow> (\<forall>t i. token_to_id v t = Some i \<longrightarrow> i < length (id_to_token v) \<and> td_text (id_to_token v ! i) = t) \<and>
     dom (token_to_id v) = td_text ` set (id_to_token v) \<and> [] \<notin> td_text ` set (id_to_token v)"

lemma load_token_inv: "table_inv v \<Longrightarrow> table_inv (load_token w v) \<and> length (id_to_token (load_token w v)) = Suc (length (id_to_token v))"
  by (cases w) (auto simp: table_inv_def load_token_def Let_def nth_append less_Suc_eq str_bytes_def split: if_splits)

lemma load_fold: "table_inv v \<Longrightarrow> table_inv (fold load_token ws v) \<and> length (id_to_token (fold load_token ws v)) = length (id_to_token v) + length ws"
  by (induction ws arbitrary: v) (simp_all add: load_token_inv)

text \<open>
  C35: a table that \<open>load\<close> accepts is a bijection between the ids and the texts of the tokens, none of them
  empty.
\<close>

theorem loaded_table_is_bijective:
  assumes "load_tokens ws v = Some v'"
  shows "vocab_wf v' \<and> n_tokens v' = length ws"
proof -
  let ?v = "fold load_token ws (v\<lparr>token_to_id := Map.empty, id_to_token := []\<rparr>)"
  have v: "v' = ?v" and card: "length (id_to_token ?v) = card (dom (token_to_id ?v))" using assms by (auto simp: load_tokens_def Let_def split: if_splits)
  have "table_inv (v\<lparr>token_to_id := Map.empty, id_to_token := []\<rparr>)" by (simp add: table_inv_def)
  from load_fold [OF this] have inv: "\<forall>t i. token_to_id ?v t = Some i \<longrightarrow> i < length (id_to_token ?v) \<and> td_text (id_to_token ?v ! i) = t"
    "dom (token_to_id ?v) = td_text ` set (id_to_token ?v)" "[] \<notin> td_text ` set (id_to_token ?v)" "length (id_to_token ?v) = length ws"
    unfolding table_inv_def by (blast, blast, blast, simp)
  have "card (set (map td_text (id_to_token ?v))) = length (map td_text (id_to_token ?v))" using card inv(2) by simp
  then have dist: "distinct (map td_text (id_to_token ?v))" by (rule card_distinct)
  have "td_text (id_to_token ?v ! i) \<noteq> [] \<and> token_to_id ?v (td_text (id_to_token ?v ! i)) = Some i" if i: "i < length (id_to_token ?v)" for i
  proof -
    have mem: "td_text (id_to_token ?v ! i) \<in> td_text ` set (id_to_token ?v)" using i by simp
    then obtain j where "token_to_id ?v (td_text (id_to_token ?v ! i)) = Some j" using inv(2) by auto
    moreover from this have "j < length (id_to_token ?v)" "td_text (id_to_token ?v ! j) = td_text (id_to_token ?v ! i)" using inv(1) by blast+
    moreover have "td_text (id_to_token ?v ! i) \<noteq> []" using mem inv(3) by metis
    ultimately show ?thesis using dist i by (auto simp: distinct_conv_nth)
  qed
  then show ?thesis using inv v by (auto simp: vocab_wf_def n_tokens_def)
qed

subsection \<open>Pieces\<close>

text \<open>The text of a token when room does not matter.\<close>

definition shown_piece :: "'s llama_vocab \<Rightarrow> nat \<Rightarrow> bool \<Rightarrow> llama_token \<Rightarrow> bytes option" where
  "shown_piece v lstrip special token = Option.bind (token_get_attr v token) (\<lambda>attr.
     if \<not> special \<and> attr AND (ATTR_UNKNOWN OR ATTR_CONTROL) \<noteq> 0 then Some []
     else if cache_token_to_piece v \<noteq> [] then
       (if nat token < length (cache_token_to_piece v) then Some (skip_spaces lstrip (cache_token_to_piece v ! nat token)) else None)
     else map_option (\<lambda>result. if v_type v = VOCAB_RWKV then result else skip_spaces lstrip result) (piece_text v (nat token)))"

definition fit :: "int \<Rightarrow> bytes \<Rightarrow> int \<times> bytes" where
  "fit len t = (if len < int (length t) then (- int (length t), []) else (int (length t), t))"

lemma skip_none [simp]: "skip_spaces 0 t = t"
  by simp

lemma token_to_piece_fit: "0 \<le> len \<Longrightarrow> token_to_piece v token len lstrip special = map_option (fit len) (shown_piece v lstrip special token)"
  by (cases "token_get_attr v token"; cases "piece_text v (nat token)")
    (auto simp: token_to_piece_def shown_piece_def try_copy_def fit_def Let_def)

lemma for_cache_piece: "token_to_piece_for_cache capacity v token special = shown_piece v 0 special token"
  by (cases "shown_piece v 0 special token")
    (auto simp: token_to_piece_for_cache_def token_to_piece_fit fit_def)

lemma fold_opt_collect_pieces: "fold_opt (\<lambda>i acc. map_option (\<lambda>p. acc @ [p]) (f i)) xs acc =
    (if \<forall>x \<in> set xs. f x \<noteq> None then Some (acc @ map (\<lambda>x. the (f x)) xs) else None)"
  by (induction xs arbitrary: acc) (auto split: option.splits)

lemma cache_built:
  assumes "build_piece_cache capacity v = Some v'"
  shows "v' = v\<lparr>cache_token_to_piece := map (\<lambda>i. the (shown_piece v 0 True (int i))) [0 ..< n_tokens v]\<rparr>"
    "\<And>i. i < n_tokens v \<Longrightarrow> shown_piece v 0 True (int i) \<noteq> None"
  using assms by (auto simp: build_piece_cache_def for_cache_piece fold_opt_collect_pieces split: if_splits)

lemma cached_shown:
  assumes "cache_token_to_piece v = []" "build_piece_cache capacity v = Some v'" "v_type v \<noteq> VOCAB_RWKV \<or> lstrip = 0"
  shows "shown_piece v' lstrip special token = shown_piece v lstrip special token"
proof -
  note c = cache_built [OF assms(2)]
  have attr: "token_get_attr v' token = token_get_attr v token" by (simp add: c(1) token_get_attr_def get_token_data_def)
  show ?thesis
  proof (cases "0 \<le> token \<and> nat token < n_tokens v")
    case False
    then have "token_get_attr v token = None" by (auto simp: token_get_attr_def get_token_data_def n_tokens_def)
    then show ?thesis using attr by (simp add: shown_piece_def)
  next
    case True
    then obtain a where a: "token_get_attr v token = Some a" by (auto simp: token_get_attr_def get_token_data_def n_tokens_def)
    have "shown_piece v 0 True token = map_option (\<lambda>r. r) (piece_text v (nat token))" using a assms(1) True
      by (cases "piece_text v (nat token)") (auto simp: shown_piece_def)
    then have p: "shown_piece v 0 True token = piece_text v (nat token)" by (simp add: option.map_ident)
    moreover have "cache_token_to_piece v' ! nat token = the (shown_piece v 0 True token)" "length (cache_token_to_piece v') = n_tokens v"
      using True by (simp_all add: c(1))
    moreover have "shown_piece v 0 True token \<noteq> None" using c(2) [of "nat token"] True by simp
    ultimately show ?thesis using a attr True assms(1,3) by (auto simp: shown_piece_def)
  qed
qed

text \<open>
  The cache of pieces answers as the table does, except that RWKV ignores \<open>lstrip\<close> without the cache.
\<close>

theorem cached_pieces_agree:
  assumes "cache_token_to_piece v = []" "build_piece_cache capacity v = Some v'" "0 \<le> len" "v_type v \<noteq> VOCAB_RWKV \<or> lstrip = 0"
  shows "token_to_piece v' token len lstrip special = token_to_piece v token len lstrip special"
  using cached_shown [OF assms(1,2,4)] by (simp only: token_to_piece_fit [OF assms(3)])

text \<open>The cache of pieces as \<open>load\<close> leaves it, or still empty, as it is while \<open>load\<close> fills it.\<close>

definition pieces_ready :: "'s llama_vocab \<Rightarrow> bool" where
  "pieces_ready v \<longleftrightarrow> cache_token_to_piece v = [] \<or>
     (\<exists>capacity v0. cache_token_to_piece v0 = [] \<and> build_piece_cache capacity v0 = Some v)"

lemma ready_shown:
  assumes "pieces_ready v"
  shows "shown_piece v 0 special token = shown_piece (v\<lparr>cache_token_to_piece := []\<rparr>) 0 special token"
proof (cases "cache_token_to_piece v = []")
  case True
  then have "v\<lparr>cache_token_to_piece := []\<rparr> = v" by simp
  then show ?thesis by simp
next
  case False
  then obtain capacity v0 where v0: "cache_token_to_piece v0 = []" "build_piece_cache capacity v0 = Some v"
    using assms by (auto simp: pieces_ready_def)
  from cache_built(1) [OF v0(2)] have "v\<lparr>cache_token_to_piece := []\<rparr> = v0\<lparr>cache_token_to_piece := []\<rparr>" by simp
  then have "v\<lparr>cache_token_to_piece := []\<rparr> = v0" using v0(1) by simp
  then show ?thesis using cached_shown [OF v0, of 0] by simp
qed

subsection \<open>The passes over the buffer\<close>

text \<open>What the passes do: a space goes when \<open>look\<close> holds of the text after it; an apostrophe between two spaces
  loses both.\<close>

fun squeeze :: "(bytes \<Rightarrow> bool) \<Rightarrow> bytes \<Rightarrow> bytes" where
  "squeeze look [] = []"
| "squeeze look (c # cs) = (if c = 0x20 \<and> cs \<noteq> [] \<and> look cs then squeeze look cs else c # squeeze look cs)"

fun join_apostrophe :: "bytes \<Rightarrow> bytes" where
  "join_apostrophe [] = []"
| "join_apostrophe (c # cs) = (if c = 0x20 \<and> take 2 cs = [0x27, 0x20] then 0x27 # join_apostrophe (drop 2 cs) else c # join_apostrophe cs)"

declare squeeze.simps(2) [simp del] join_apostrophe.simps(2) [simp del]

definition punctuation :: "bytes \<Rightarrow> bool" where
  "punctuation cs \<longleftrightarrow> hd cs \<in> {0x3F, 0x21, 0x2E, 0x2C}"

definition short_form :: "bytes \<Rightarrow> bool" where
  "short_form cs \<longleftrightarrow> hd cs = 0x27 \<and> (take 1 (tl cs) \<in> {[0x73], [0x6D]} \<or> take 2 (tl cs) \<in> {[0x72, 0x65], [0x76, 0x65]})"

lemma drop_take_Cons: "i < n \<Longrightarrow> n \<le> length t \<Longrightarrow> drop i (take n t) = t ! i # drop (Suc i) (take n t)"
  by (simp add: Cons_nth_drop_Suc [symmetric])

lemma drop_take_update: "j \<le> i \<Longrightarrow> drop (Suc i) (take n (t[j := x])) = drop (Suc i) (take n t)"
  by (simp add: drop_take)

lemma take_tot: "0 < tot \<Longrightarrow> tot \<le> length t \<Longrightarrow> take tot t = take (tot - 1) t @ [t ! (tot - 1)]"
  by (metis Suc_pred' less_le_trans diff_Suc_1 lessI take_Suc_conv_app_nth)

lemma squeeze_two: "squeeze look (c # d # r) = (if c = 0x20 \<and> look (d # r) then squeeze look (d # r) else c # squeeze look (d # r))"
  by (simp add: squeeze.simps(2) [of look c])

lemma join_three: "join_apostrophe (0x20 # 0x27 # 0x20 # r) = 0x27 # join_apostrophe r"
  by (simp add: join_apostrophe.simps(2))

lemma clean_pass_squeeze:
  assumes "\<And>t n i. i < n \<Longrightarrow> n \<le> length t \<Longrightarrow> rm t n i = look (drop i (take n t))"
  shows "1 \<le> i \<Longrightarrow> i \<le> n \<Longrightarrow> n \<le> length t \<Longrightarrow> 1 \<le> tot \<Longrightarrow> tot \<le> i \<Longrightarrow> t ! (tot - 1) = t ! (i - 1) \<Longrightarrow>
    \<exists>t' k. clean_pass rm n i tot t = (t', k) \<and> k \<le> n \<and> length t' = length t \<and>
      take k t' = take (tot - 1) t @ squeeze look (t ! (i - 1) # drop i (take n t))"
proof (induction "n - i" arbitrary: i tot t)
  case 0
  then show ?case using take_tot [of tot t] by (subst clean_pass.simps) (simp add: squeeze.simps(2))
next
  case (Suc d)
  then have i: "i < n" by simp
  let ?r = "t ! (i - 1) = 0x20 \<and> rm t n i"
  let ?tot = "if ?r then tot - 1 else tot" let ?t = "t[?tot := t ! i]"
  note dt = drop_take_Cons [OF i Suc.prems(3)]
  have len: "?tot < length t" "?tot \<le> i" "i < length t" using Suc.prems i by auto
  have nth: "?t ! i = t ! i" by (cases ?r) (use len in \<open>auto simp: nth_list_update\<close>)
  have "\<exists>t' k. clean_pass rm n (i + 1) (?tot + 1) ?t = (t', k) \<and> k \<le> n \<and> length t' = length ?t \<and>
      take k t' = take (?tot + 1 - 1) ?t @ squeeze look (?t ! (i + 1 - 1) # drop (i + 1) (take n ?t))"
    by (rule Suc.hyps(1)) (use Suc.hyps(2) Suc.prems i len nth in auto)
  moreover have e: "drop (i + 1) (take n ?t) = drop (Suc i) (take n t)" "?t ! (i + 1 - 1) = t ! i" "take (?tot + 1 - 1) ?t = take ?tot t"
    "length ?t = length t" using drop_take_update [OF len(2), of n t "t ! i"] nth unfolding Suc_eq_plus1 by (assumption | simp)+
  ultimately obtain t' k where c: "clean_pass rm n (i + 1) (?tot + 1) ?t = (t', k)" "k \<le> n" "length t' = length t"
    "take k t' = take ?tot t @ squeeze look (t ! i # drop (Suc i) (take n t))" unfolding e by blast
  have "clean_pass rm n i tot t = (t', k)" using c(1) i by (subst clean_pass.simps) (simp add: Let_def)
  moreover have "take ?tot t @ squeeze look (t ! i # drop (Suc i) (take n t)) = take (tot - 1) t @ squeeze look (t ! (i - 1) # drop i (take n t))"
    using take_tot [of tot t] Suc.prems assms [OF i Suc.prems(3)] dt by (auto simp: squeeze_two)
  ultimately show ?case using c by auto
qed

lemma join_other: "c \<noteq> 0x20 \<or> take 2 cs \<noteq> [0x27, 0x20] \<Longrightarrow> join_apostrophe (c # cs) = c # join_apostrophe cs"
  by (auto simp: join_apostrophe.simps(2))

lemma join_single [simp]: "join_apostrophe [c] = [c]"
  by (simp add: join_apostrophe.simps(2))

lemma apostrophe_pass_join:
  "1 \<le> i \<Longrightarrow> i \<le> n \<Longrightarrow> n \<le> length t \<Longrightarrow> 1 \<le> tot \<Longrightarrow> tot \<le> i \<Longrightarrow> (t ! (i - 1) = 0x20 \<Longrightarrow> t ! (tot - 1) = 0x20) \<Longrightarrow>
    \<exists>t' k. apostrophe_pass n i tot t = (t', k) \<and> k \<le> n \<and> length t' = length t \<and>
      take k t' = (if t ! (i - 1) = 0x20 then take (tot - 1) t @ join_apostrophe (0x20 # drop i (take n t))
        else take tot t @ join_apostrophe (drop i (take n t)))"
proof (induction "n - i" arbitrary: i tot t rule: less_induct)
  case less
  show ?case
  proof (cases "i < n")
    case False
    then show ?thesis using less.prems take_tot [of tot t] by (subst apostrophe_pass.simps) auto
  next
    case i: True
    note dt = drop_take_Cons [OF i less.prems(3)]
    show ?thesis
    proof (cases "t ! i = 0x27 \<and> i + 1 < n \<and> t ! (i - 1) = 0x20 \<and> t ! (i + 1) = 0x20")
      case True
      let ?t = "t[i + 1 := 0, tot - 1 := 0x27]"
      have nth: "?t ! (i + 2 - 1) = 0" using less.prems True by (simp add: nth_list_update)
      have "\<exists>t' k. apostrophe_pass n (i + 2) (tot - 1 + 1) ?t = (t', k) \<and> k \<le> n \<and> length t' = length ?t \<and>
          take k t' = take tot ?t @ join_apostrophe (drop (i + 2) (take n ?t))"
        using less.hyps [of "i + 2" ?t "tot - 1 + 1"] less.prems i True nth by auto
      moreover have "take tot ?t = take (tot - 1) t @ [0x27]"
        using take_tot [of tot ?t] less.prems by (simp add: nth_list_update)
      moreover have "drop (i + 2) (take n ?t) = drop (i + 2) (take n t)" using less.prems by (simp add: drop_take)
      moreover have "drop i (take n t) = 0x27 # 0x20 # drop (i + 2) (take n t)"
        using dt drop_take_Cons [of "Suc i" n t] True less.prems by simp
      ultimately show ?thesis using True i by (subst apostrophe_pass.simps) (auto simp: Let_def join_three)
    next
      case False
      let ?t = "t[tot := t ! i]"
      have nth: "?t ! (i + 1 - 1) = t ! i" "?t ! (tot + 1 - 1) = t ! i" using less.prems i by (auto simp: nth_list_update)
      have "\<exists>t' k. apostrophe_pass n (i + 1) (tot + 1) ?t = (t', k) \<and> k \<le> n \<and> length t' = length ?t \<and>
          take k t' = (if t ! i = 0x20 then take tot ?t @ join_apostrophe (0x20 # drop (i + 1) (take n ?t))
            else take (tot + 1) ?t @ join_apostrophe (drop (i + 1) (take n ?t)))"
        using less.hyps [of "i + 1" ?t "tot + 1"] less.prems i nth by auto
      moreover have "take (tot + 1) ?t = take tot t @ [t ! i]" using less.prems i by (simp add: take_Suc_conv_app_nth)
      moreover have "drop (i + 1) (take n ?t) = drop (Suc i) (take n t)" using drop_take_update [of tot i n t] less.prems by simp
      moreover have "join_apostrophe (0x20 # drop i (take n t)) = 0x20 # join_apostrophe (drop i (take n t))" if "t ! (i - 1) = 0x20"
      proof -
        have "take 2 (drop i (take n t)) \<noteq> [0x27, 0x20]"
          using False that dt less.prems drop_take_Cons [of "Suc i" n t] by (cases "Suc i < n") auto
        then show ?thesis by (simp add: join_other)
      qed
      moreover have "take tot t = take (tot - 1) t @ [t ! (tot - 1)]" by (rule take_tot) (use less.prems in simp_all)
      moreover have "take tot t @ join_apostrophe (drop i (take n t)) = (if t ! i = 0x20 then take tot t @ join_apostrophe (0x20 # drop (Suc i) (take n t))
          else take tot t @ t ! i # join_apostrophe (drop (Suc i) (take n t)))" using dt by (auto simp: join_other)
      ultimately show ?thesis using False i less.prems(6) by (subst apostrophe_pass.simps) (auto simp: Let_def)
    qed
  qed
qed

lemma before_punctuation_look: "i < n \<Longrightarrow> n \<le> length t \<Longrightarrow> before_punctuation t n i = punctuation (drop i (take n t))"
  by (simp add: drop_take_Cons before_punctuation_def punctuation_def)

lemma before_contraction_look:
  assumes "i < n" "n \<le> length t"
  shows "before_contraction t n i = short_form (drop i (take n t))"
proof -
  note dt = drop_take_Cons [OF assms]
  consider "n = Suc i" | "n = Suc (Suc i)" | "Suc (Suc i) < n" using assms(1) by linarith
  then show ?thesis
  proof cases
    case 1
    then show ?thesis unfolding dt by (simp add: before_contraction_def short_form_def)
  next
    case 2
    then show ?thesis using drop_take_Cons [of "Suc i" n t] assms(2) unfolding dt by (auto simp: before_contraction_def short_form_def)
  next
    case 3
    then show ?thesis using drop_take_Cons [of "Suc i" n t] drop_take_Cons [of "Suc (Suc i)" n t] assms(2) unfolding dt
      by (auto simp: before_contraction_def short_form_def)
  qed
qed

lemma passes_nonempty: "squeeze look t = [] \<longleftrightarrow> t = []" "join_apostrophe t = [] \<longleftrightarrow> t = []"
  by (induction t) (auto simp: squeeze.simps(2) join_apostrophe.simps(2))

lemma split_first: "0 < n \<Longrightarrow> n \<le> length t \<Longrightarrow> t ! 0 # drop 1 (take n t) = take n t"
  using drop_take_Cons [of 0 n t] by simp

text \<open>
  C24: the three passes over the buffer remove exactly the spaces that their comments name: their result is that of
  three functions on lists, although they write into the buffer that they read (the pass for apostrophes even
  reads, as its previous character, the zero that it has written).
\<close>

theorem clean_up_removes_spaces:
  "clean_up t = squeeze short_form (join_apostrophe (squeeze punctuation t))"
proof (cases "t = []")
  case True
  then show ?thesis by (simp add: clean_up_def clean_pass.simps apostrophe_pass.simps)
next
  case False
  then have "1 \<le> length t" by (cases t) auto
  then obtain t1 k1 where p1: "clean_pass before_punctuation (length t) 1 1 t = (t1, k1)" "k1 \<le> length t1" "take k1 t1 = squeeze punctuation t"
    using clean_pass_squeeze [of before_punctuation punctuation 1 "length t" t 1, OF before_punctuation_look] split_first [of "length t" t] False by auto
  then have k1: "0 < k1" using False passes_nonempty(1) [of punctuation t] by (cases k1) auto
  obtain t2 k2 where p2: "apostrophe_pass k1 1 1 t1 = (t2, k2)" "k2 \<le> length t2"
    "take k2 t2 = (if t1 ! 0 = 0x20 then join_apostrophe (0x20 # drop 1 (take k1 t1)) else take 1 t1 @ join_apostrophe (drop 1 (take k1 t1)))"
    using apostrophe_pass_join [of 1 k1 t1 1] k1 p1(2) by auto
  have "take 1 t1 = [t1 ! 0]" using k1 p1(2) by (cases t1) auto
  then have j: "take k2 t2 = join_apostrophe (take k1 t1)" using p2(3) split_first [OF k1 p1(2)] by (metis append_Cons append_Nil join_other)
  then have k2: "0 < k2" using p1(3) False passes_nonempty by (cases k2) (auto dest: sym)
  obtain t3 k3 where "clean_pass before_contraction k2 1 1 t2 = (t3, k3)" "take k3 t3 = squeeze short_form (take k2 t2)"
    using clean_pass_squeeze [of before_contraction short_form 1 k2 t2 1, OF before_contraction_look] k2 p2(2) split_first [OF k2 p2(2)] by auto
  then show ?thesis using False p1 p2(1) j k1 k2 by (simp add: clean_up_def)
qed

subsection \<open>Detokenizing\<close>

fun shown_pieces :: "'s llama_vocab \<Rightarrow> bool \<Rightarrow> nat \<Rightarrow> llama_token list \<Rightarrow> bytes list option" where
  "shown_pieces v special lstrip [] = Some []"
| "shown_pieces v special lstrip (tok # toks) = Option.bind (shown_piece v lstrip special tok) (\<lambda>p.
     map_option (\<lambda>ps. p # ps) (shown_pieces v special 0 toks))"

lemma detok_loop_pieces:
  "0 \<le> avail \<Longrightarrow> (case shown_pieces v special (if rs then 1 else 0) toks of
     None \<Rightarrow> detok_loop v special toks rs avail tot t = None
   | Some ps \<Rightarrow> \<exists>t'. detok_loop v special toks rs avail tot t = Some (tot + int (length (concat ps)), t') \<and>
       (int (length (concat ps)) \<le> avail \<longrightarrow> t' = t @ concat ps))"
proof (induction toks arbitrary: rs avail tot t)
  case (Cons tok toks)
  have "detok_loop v special (tok # toks) rs avail tot t = Option.bind (map_option (fit avail) (shown_piece v (if rs then 1 else 0) special tok)) (\<lambda>(n_chars, piece).
        if n_chars < 0 then detok_loop v special toks False 0 (tot - n_chars) t
        else detok_loop v special toks False (avail - n_chars) (tot + n_chars) (t @ piece))"
    using Cons.prems by (simp add: token_to_piece_fit)
  moreover obtain p where "shown_piece v (if rs then 1 else 0) special tok = None \<or> shown_piece v (if rs then 1 else 0) special tok = Some p" by fastforce
  moreover have "case shown_pieces v special 0 toks of
     None \<Rightarrow> detok_loop v special toks False 0 (tot + int (length p)) t = None
   | Some ps \<Rightarrow> \<exists>t'. detok_loop v special toks False 0 (tot + int (length p)) t = Some (tot + int (length p) + int (length (concat ps)), t') \<and>
       (int (length (concat ps)) \<le> 0 \<longrightarrow> t' = t @ concat ps)"
    using Cons.IH [of 0 False "tot + int (length p)" t] by simp
  moreover have "case shown_pieces v special 0 toks of
     None \<Rightarrow> detok_loop v special toks False (avail - int (length p)) (tot + int (length p)) (t @ p) = None
   | Some ps \<Rightarrow> \<exists>t'. detok_loop v special toks False (avail - int (length p)) (tot + int (length p)) (t @ p) = Some (tot + int (length p) + int (length (concat ps)), t') \<and>
       (int (length (concat ps)) \<le> avail - int (length p) \<longrightarrow> t' = (t @ p) @ concat ps)" if "int (length p) \<le> avail"
    using Cons.IH [of "avail - int (length p)" False "tot + int (length p)" "t @ p"] that by simp
  ultimately show ?case using Cons.prems
    by (cases "shown_pieces v special 0 toks"; cases "int (length p) \<le> avail") (auto simp: fit_def)
qed simp

text \<open>
  C25: with enough room the answer is the text, cleaned up when the vocabulary says so; otherwise it is minus the
  room that the text needs.
\<close>

theorem detokenize_exact:
  assumes "0 \<le> text_len_max"
  shows "detokenize v tokens text_len_max remove_special unparse_special =
    (let (rs, toks) = strip_bos v remove_special tokens in
     map_option (\<lambda>ps. let t = concat ps in
       if int (length t) > text_len_max then (- int (length t), [])
       else let c = (if clean_spaces v then clean_up t else t) in (int (length c), c))
     (shown_pieces v unparse_special (if rs then 1 else 0) (strip_eos v remove_special toks)))"
proof -
  obtain rs toks where s: "strip_bos v remove_special tokens = (rs, toks)" by (cases "strip_bos v remove_special tokens") auto
  show ?thesis
    using detok_loop_pieces [OF assms, where v = v and special = unparse_special and rs = rs and toks = "strip_eos v remove_special toks" and tot = 0 and t = "[]"]
    by (cases "shown_pieces v unparse_special (if rs then 1 else 0) (strip_eos v remove_special toks)")
      (auto simp: detokenize_def s Let_def)
qed

lemma squeeze_shorter: "length (squeeze look t) \<le> length t"
  by (induction t) (auto simp: squeeze.simps(2))

lemma join_shorter: "length (join_apostrophe t) \<le> length t"
  by (induction t rule: join_apostrophe.induct) (auto simp: join_apostrophe.simps(2))

subsection \<open>A small vocabulary\<close>

definition tiny_words :: "(bytes \<times> int \<times> u32) list" where
  "tiny_words = [([0xE2, 0x96, 0x81, 0x68], 0, ATTR_NORMAL), (str_bytes ''<0x0A>'', 0, ATTR_BYTE), ([], 0, ATTR_CONTROL)]"

definition empty_vocab :: "int llama_vocab" where
  "empty_vocab = \<lparr>v_type = VOCAB_SPM, special_bos_id = 1, special_eos_id = 2, special_unk_id = 0, special_sep_id = -1,
     add_space_prefix = True, add_bos = False, add_eos = False, ignore_merges = False, clean_spaces = False,
     token_to_id = Map.empty, id_to_token = [], cache_special_tokens = [], cache_token_to_piece = [], bpe_ranks = Map.empty, regex_exprs = []\<rparr>"

definition tiny_vocab :: "int llama_vocab" where
  "tiny_vocab = empty_vocab\<lparr>
     token_to_id := [[0xE2, 0x96, 0x81, 0x68] \<mapsto> 0, str_bytes ''<0x0A>'' \<mapsto> 1, str_bytes ''[EMPTY_2]'' \<mapsto> 2],
     id_to_token := [\<lparr>td_text = [0xE2, 0x96, 0x81, 0x68], td_score = 0, td_attr = ATTR_NORMAL\<rparr>, \<lparr>td_text = str_bytes ''<0x0A>'', td_score = 0, td_attr = ATTR_BYTE\<rparr>,
       \<lparr>td_text = str_bytes ''[EMPTY_2]'', td_score = 0, td_attr = ATTR_CONTROL\<rparr>]\<rparr>"

lemma tiny_loaded: "load_tokens tiny_words empty_vocab = Some tiny_vocab"
proof -
  have two: "of_char (char_of (50 :: nat)) = (50 :: u8)" by (simp add: char_of_def of_char_def bit_0)
  have f: "fold load_token tiny_words (empty_vocab\<lparr>token_to_id := Map.empty, id_to_token := []\<rparr>) = tiny_vocab"
    by (simp add: tiny_words_def load_token_def tiny_vocab_def empty_vocab_def decimal.simps str_bytes_def Let_def two numeral_2_eq_2 [symmetric])
  have "dom (token_to_id tiny_vocab) = {[0xE2, 0x96, 0x81, 0x68], str_bytes ''<0x0A>'', str_bytes ''[EMPTY_2]''}"
    by (auto simp: tiny_vocab_def str_bytes_def split: if_splits)
  then have "card (dom (token_to_id tiny_vocab)) = 3" by (simp add: str_bytes_def)
  then show ?thesis unfolding load_tokens_def f by (simp add: tiny_vocab_def)
qed

lemma tiny_pieces: "shown_piece tiny_vocab l True 0 = Some (skip_spaces l [0x20, 0x68])" "shown_piece tiny_vocab 0 True 1 = Some [0x0A]"
    "shown_piece tiny_vocab 0 True 2 = Some (str_bytes ''[EMPTY_2]'')"
proof -
  have a: "piece_text tiny_vocab 0 = Some [0x20, 0x68]"
    by (simp add: piece_text_def tiny_vocab_def empty_vocab_def llama_unescape_whitespace_def escaped_space_def replace_all.simps)
  have b: "piece_text tiny_vocab 1 = Some [0x0A]"
    by (simp add: piece_text_def tiny_vocab_def empty_vocab_def token_to_byte_def get_token_data_def str_bytes_def strtol16_def hex_value_def is_space_char_def Let_def)
  have c: "piece_text tiny_vocab 2 = Some (str_bytes ''[EMPTY_2]'')" by (simp add: piece_text_def tiny_vocab_def empty_vocab_def)
  have "cache_token_to_piece tiny_vocab = []" "v_type tiny_vocab = VOCAB_SPM" "token_get_attr tiny_vocab 0 = Some ATTR_NORMAL"
    "token_get_attr tiny_vocab 1 = Some ATTR_BYTE" "token_get_attr tiny_vocab 2 = Some ATTR_CONTROL"
    by (simp_all add: tiny_vocab_def empty_vocab_def token_get_attr_def get_token_data_def)
  then show "shown_piece tiny_vocab l True 0 = Some (skip_spaces l [0x20, 0x68])" "shown_piece tiny_vocab 0 True 1 = Some [0x0A]"
    "shown_piece tiny_vocab 0 True 2 = Some (str_bytes ''[EMPTY_2]'')" using a b c by (simp_all add: shown_piece_def)
qed

theorem loaded_table_is_bijective_witness: "vocab_wf tiny_vocab \<and> n_tokens tiny_vocab = 3"
  using loaded_table_is_bijective [OF tiny_loaded] by (simp add: tiny_words_def)

theorem detokenize_exact_witness:
  "detokenize tiny_vocab [0, 1] 2 False True = Some (2, [0x68, 0x0A]) \<and> detokenize tiny_vocab [0, 1] 1 False True = Some (-2, [])"
  using detokenize_exact [of 2 tiny_vocab "[0, 1]" False True] detokenize_exact [of 1 tiny_vocab "[0, 1]" False True]
  by (simp add: strip_bos_def strip_eos_def tiny_pieces Let_def) (simp add: tiny_vocab_def empty_vocab_def tiny_pieces Let_def)

theorem cached_pieces_agree_witness:
  "\<exists>v'. build_piece_cache 15 tiny_vocab = Some v' \<and> token_to_piece v' 0 1 1 False = token_to_piece tiny_vocab 0 1 1 False"
proof -
  have "n_tokens tiny_vocab = Suc (Suc (Suc 0))" by (simp add: n_tokens_def tiny_vocab_def)
  then obtain v' where "build_piece_cache 15 tiny_vocab = Some v'"
    by (simp add: build_piece_cache_def for_cache_piece fold_opt_collect_pieces tiny_pieces upt_conv_Cons)
  moreover have "cache_token_to_piece tiny_vocab = []" "v_type tiny_vocab \<noteq> VOCAB_RWKV" by (simp_all add: tiny_vocab_def empty_vocab_def)
  ultimately show ?thesis using cached_pieces_agree [of tiny_vocab 15 v' 1 1 0 False] by auto
qed

end
