(* ===== verification/Spm.thy ===== *)
theory Spm
  imports Merge Vocab
begin

text \<open>
  The SPM tokenizer of \<open>llama-vocab.cpp\<close> (\<open>llm_tokenizer_spm_session\<close>): pairs of neighbours that form a token
  are merged, the highest score first; what is left is emitted as tokens or byte by byte.  It is an instance
  of the locale \<open>merging\<close>, so it computes the greedy merging of the characters.  The field \<open>bg_text\<close> of a
  pair is not used here.
\<close>

subsection \<open>The session\<close>

definition try_add_bigram :: "'s llama_vocab \<Rightarrow> int \<Rightarrow> int \<Rightarrow> ('s, bytes \<rightharpoonup> nat \<times> nat) mstate \<Rightarrow> ('s, bytes \<rightharpoonup> nat \<times> nat) mstate option" where
  "try_add_bigram v left right = (\<lambda>(syms, q, rev_merge).
     if left = -1 \<or> right = -1 then Some (syms, q, rev_merge)
     else let t = take (s_n (syms ! nat left) + s_n (syms ! nat right)) (s_text (syms ! nat left)); token = text_to_token v t in
       if token = LLAMA_TOKEN_NULL then Some (syms, q, rev_merge)
       else if int (n_tokens v) \<le> token then Some (syms, q, rev_merge)
       else Option.bind (get_token_data v token) (\<lambda>tok_data.
         Some (syms, q @ [\<lparr>bg_left = nat left, bg_right = nat right, bg_text = t, bg_size = length t, bg_key = td_score tok_data\<rparr>],
           rev_merge(t \<mapsto> (nat left, nat right)))))"

definition spm_stale :: "llm_symbol list \<Rightarrow> 's bigram \<Rightarrow> bool" where
  "spm_stale syms g \<longleftrightarrow> s_n (syms ! bg_left g) + s_n (syms ! bg_right g) \<noteq> bg_size g"

definition push_byte :: "'s llama_vocab \<Rightarrow> u8 \<Rightarrow> llama_token list \<Rightarrow> llama_token list option" where
  "push_byte v b out = map_option (\<lambda>i. out @ [i]) (byte_to_token v b)"

partial_function (option) resegment ::
  "'s llama_vocab \<Rightarrow> llm_symbol list \<Rightarrow> (bytes \<rightharpoonup> nat \<times> nat) \<Rightarrow> bytes \<Rightarrow> llama_token list \<Rightarrow> llama_token list option" where
  "resegment v syms rev_merge t out =
     (let token = text_to_token v t in
      if token \<noteq> LLAMA_TOKEN_NULL then Some (out @ [token])
      else case rev_merge t of
        None \<Rightarrow> fold_opt (push_byte v) t out
      | Some (l, r) \<Rightarrow> Option.bind (resegment v syms rev_merge (sym_str (syms ! l)) out)
          (\<lambda>out1. resegment v syms rev_merge (sym_str (syms ! r)) out1))"

definition spm_better :: "'s :: linorder \<Rightarrow> 's \<Rightarrow> bool" where
  "spm_better a b \<longleftrightarrow> b < a"

definition spm_tokenize :: "'s :: linorder llama_vocab \<Rightarrow> bytes \<Rightarrow> llama_token list \<Rightarrow> llama_token list option" where
  "spm_tokenize v t out =
     Option.bind (Option.bind (seed_queue (try_add_bigram v) (split_chars t 0, [], Map.empty))
       (merge_loop spm_better spm_stale (try_add_bigram v))) (\<lambda>(syms, q, rev_merge).
     walk_symbols (resegment v syms rev_merge) syms 0 out)"

subsection \<open>The session is a greedy merging\<close>

text \<open>The score of the token that two pieces form.\<close>

definition pair_score :: "'s llama_vocab \<Rightarrow> bytes \<Rightarrow> bytes \<Rightarrow> 's option" where
  "pair_score v a b = (let token = text_to_token v (a @ b) in
     if token = LLAMA_TOKEN_NULL \<or> int (n_tokens v) \<le> token then None else map_option td_score (get_token_data v token))"

definition rev_known :: "'s llama_vocab \<Rightarrow> (bytes \<rightharpoonup> nat \<times> nat) \<Rightarrow> bool" where
  "rev_known v rev_merge \<longleftrightarrow> (\<forall>t. rev_merge t \<noteq> None \<longrightarrow> text_to_token v t \<noteq> LLAMA_TOKEN_NULL)"

lemma known_token: "text_to_token v t \<noteq> LLAMA_TOKEN_NULL \<Longrightarrow> \<not> int (n_tokens v) \<le> text_to_token v t \<Longrightarrow>
    \<exists>d. get_token_data v (text_to_token v t) = Some d"
  by (auto simp: text_to_token_def get_token_data_def n_tokens_def split: option.splits)

interpretation spm: merging "pair_score v" spm_better spm_stale "try_add_bigram v" "\<lambda>_. True" "rev_known v"
  for v :: "'s :: linorder llama_vocab"
proof
  fix syms :: "llm_symbol list" and i j :: nat and q :: "'s bigram list" and ex
  assume next_text: "s_text (syms ! j) = drop (s_n (syms ! i)) (s_text (syms ! i))" and n: "s_n (syms ! i) \<le> length (s_text (syms ! i))"
    "s_n (syms ! j) \<le> length (s_text (syms ! j))" and ex: "rev_known v ex"
  have t: "take (s_n (syms ! i) + s_n (syms ! j)) (s_text (syms ! i)) = sym_str (syms ! i) @ sym_str (syms ! j)"
    using next_text by (simp add: sym_str_def take_add)
  have len: "length (sym_str (syms ! i) @ sym_str (syms ! j)) = s_n (syms ! i) + s_n (syms ! j)" using n by (simp add: sym_str_def)
  show "\<exists>ex'. try_add_bigram v (int i) (int j) (syms, q, ex) = Some (syms, q @ (case pair_score v (sym_str (syms ! i)) (sym_str (syms ! j)) of None \<Rightarrow> []
        | Some k \<Rightarrow> [\<lparr>bg_left = i, bg_right = j, bg_text = sym_str (syms ! i) @ sym_str (syms ! j),
            bg_size = s_n (syms ! i) + s_n (syms ! j), bg_key = k\<rparr>]), ex') \<and> rev_known v ex'"
  proof (cases "text_to_token v (sym_str (syms ! i) @ sym_str (syms ! j)) = LLAMA_TOKEN_NULL \<or>
      int (n_tokens v) \<le> text_to_token v (sym_str (syms ! i) @ sym_str (syms ! j))")
    case True
    then show ?thesis using ex by (auto simp: try_add_bigram_def pair_score_def Let_def t)
  next
    case False
    then obtain d where "get_token_data v (text_to_token v (sym_str (syms ! i) @ sym_str (syms ! j))) = Some d" using known_token by blast
    then show ?thesis using False ex len by (auto simp: try_add_bigram_def pair_score_def Let_def t rev_known_def)
  qed
qed (auto simp: spm_better_def spm_stale_def try_add_bigram_def)

text \<open>What one piece is emitted as.\<close>

definition emit_piece :: "'s llama_vocab \<Rightarrow> bytes \<Rightarrow> llama_token list \<Rightarrow> llama_token list option" where
  "emit_piece v p out = (if text_to_token v p \<noteq> LLAMA_TOKEN_NULL then Some (out @ [text_to_token v p]) else fold_opt (push_byte v) p out)"

lemma resegment_emits: "rev_known v rev_merge \<Longrightarrow> resegment v syms rev_merge = emit_piece v"
  by (intro ext, subst resegment.simps) (auto simp: emit_piece_def rev_known_def split: option.splits)

text \<open>
  C10: the SPM session returns what greedy merging of the characters gives, the highest score first and the
  leftmost pair among equals; each piece is emitted as its token or byte by byte.
\<close>

theorem spm_tokenizes_greedily:
  assumes "t \<noteq> []"
  shows "spm_tokenize v t out = fold_opt (emit_piece v) (greedy_merge (pair_score v) spm_better (utf8_pieces t)) out"
proof -
  have "rev_known v Map.empty" by (simp add: rev_known_def)
  then obtain syms "is" rev_merge where s: "Option.bind (seed_queue (try_add_bigram v) (split_chars t 0, [], Map.empty))
      (merge_loop spm_better spm_stale (try_add_bigram v)) = Some (syms, [], rev_merge)"
    "live_syms syms t is" "head_or (-1) is = 0" "strs syms is = greedy_merge (pair_score v) spm_better (utf8_pieces t)" "rev_known v rev_merge"
    using spm.session_greedy [of t v Map.empty] assms by auto
  have "walk_symbols f syms 0 out = fold_opt f (strs syms is) out" for f :: "bytes \<Rightarrow> llama_token list \<Rightarrow> llama_token list option"
    using walk_chain [of syms "-1" t "is" f out] s(2,3) by (simp add: live_syms_def)
  then show ?thesis using s(1,4) resegment_emits [OF s(5)] by (simp add: spm_tokenize_def)
qed

text \<open>A small vocabulary.\<close>

definition small_spm :: "int llama_vocab" where
  "small_spm = \<lparr>v_type = VOCAB_SPM, special_bos_id = 1, special_eos_id = 2, special_unk_id = 0, special_sep_id = -1,
     add_space_prefix = False, add_bos = False, add_eos = False, ignore_merges = False, clean_spaces = False,
     token_to_id = [[0x61] \<mapsto> 0, [0x61, 0x62] \<mapsto> 1, [0x61, 0x61, 0x62] \<mapsto> 2, str_bytes ''<0x62>'' \<mapsto> 3],
     id_to_token = [\<lparr>td_text = [0x61], td_score = 0, td_attr = ATTR_NORMAL\<rparr>, \<lparr>td_text = [0x61, 0x62], td_score = -1, td_attr = ATTR_NORMAL\<rparr>,
       \<lparr>td_text = [0x61, 0x61, 0x62], td_score = -2, td_attr = ATTR_NORMAL\<rparr>, \<lparr>td_text = str_bytes ''<0x62>'', td_score = 0, td_attr = ATTR_BYTE\<rparr>],
     cache_special_tokens = [], cache_token_to_piece = [], bpe_ranks = Map.empty, regex_exprs = []\<rparr>"

theorem spm_tokenizes_greedily_witness:
  "spm_tokenize small_spm [0x61, 0x61, 0x62, 0x62] [] = Some [2, 3]"
proof -
  have len: "unicode_len_utf8 0x61 = 1" "unicode_len_utf8 0x62 = 1" by (simp_all add: unicode_len_utf8_def)
  have p: "utf8_pieces [0x61, 0x61, 0x62, 0x62] = [[0x61], [0x61], [0x62], [0x62]]"
    by (simp add: utf8_pieces_def split_chars.simps Let_def sym_str_def len)
  have "greedy_merge (pair_score small_spm) spm_better [[0x61], [0x61], [0x62], [0x62]] = [[0x61, 0x61, 0x62], [0x62]]"
    by (simp add: greedy_merge.simps pair_score_def text_to_token_def small_spm_def spm_better_def join_at_def n_tokens_def get_token_data_def
      str_bytes_def)
  moreover have "fold_opt (emit_piece small_spm) [[0x61, 0x61, 0x62], [0x62]] [] = Some [2, 3]"
    by (simp add: emit_piece_def text_to_token_def small_spm_def str_bytes_def push_byte_def byte_to_token_def byte_token_text_def hex_digit_def)
  ultimately show ?thesis using spm_tokenizes_greedily [of "[0x61, 0x61, 0x62, 0x62]" small_spm "[]"] p by simp
qed

end
