(* ===== verification/Bpe.thy ===== *)
theory Bpe
  imports Merge Detokenize
begin

text \<open>
  The BPE tokenizer of \<open>llama-vocab.cpp\<close> (\<open>llm_tokenizer_bpe_session\<close>): the words of the pre-tokenizer are
  merged one by one, the lowest rank first, and the symbols of all words are chained and emitted.  It is an
  instance of the locale \<open>merging\<close>.  The words are in the byte alphabet, so no text is lost when the
  vocabulary has the byte alphabet and the results of its merges: \<open>detokenize\<close> gives the text back.
\<close>

subsection \<open>The byte alphabet\<close>

definition byte_char :: "u8 \<Rightarrow> bytes" where
  "byte_char b = bytes_of_cpt (slot (unat b))"

lemma len_bits: "unicode_len_utf8 b = (if \<not> bit b 7 \<or> \<not> bit b 6 then 1 else if \<not> bit b 5 then 2 else if \<not> bit b 4 then 3 else 4)"
proof -
  define m where "m = unat b div 16"
  have m: "m < 16" using unat_u8_less [of b] by (simp add: m_def)
  have bits: "bit b 7 = odd (m div 8)" "bit b 6 = odd (m div 4)" "bit b 5 = odd (m div 2)" "bit b 4 = odd m"
  proof -
    have "bit b n = odd (unat b div 2 ^ n)" for n using bit_unsigned_iff [of b n, where 'a = nat] by (simp add: bit_iff_odd)
    then show "bit b 7 = odd (m div 8)" "bit b 6 = odd (m div 4)" "bit b 5 = odd (m div 2)" "bit b 4 = odd m"
      by (simp_all add: m_def div_mult2_eq [symmetric])
  qed
  have "unicode_len_utf8 b = [1, 1, 1, 1, 1, 1, 1, 1, 1, 1, 1, 1, 2, 2, 3, 4] ! m"
    unfolding unicode_len_utf8_def m_def by (simp only: unat_drop_bit_eq) (simp add: drop_bit_eq_div)
  moreover have "m = 0 \<or> m = 1 \<or> m = 2 \<or> m = 3 \<or> m = 4 \<or> m = 5 \<or> m = 6 \<or> m = 7 \<or> m = 8 \<or> m = 9 \<or> m = 10 \<or> m = 11 \<or>
      m = 12 \<or> m = 13 \<or> m = 14 \<or> m = 15" using m by presburger
  ultimately show ?thesis unfolding bits by (elim disjE) simp_all
qed

lemma encoded_char_shape:
  assumes "unicode_cpt_to_utf8 c = Inr s"
  shows "s \<noteq> [] \<and> length s = unicode_len_utf8 (hd s)" "0x80 \<le> c \<Longrightarrow> b \<in> set s \<Longrightarrow> bit b 7"
proof -
  have cont: "bit (ucast (0x80 OR (x AND 0x3f) :: u32) :: u8) 7" for x by (simp add: bit_simps bits_int)
  have d: "c \<le> 0x7f \<and> s = [ucast c] \<or>
      0x80 \<le> c \<and> s = [ucast (0xc0 OR (drop_bit 6 c AND 0x1f)), ucast (0x80 OR (c AND 0x3f))] \<or>
      0x80 \<le> c \<and> s = [ucast (0xe0 OR (drop_bit 12 c AND 0x0f)), ucast (0x80 OR (drop_bit 6 c AND 0x3f)), ucast (0x80 OR (c AND 0x3f))] \<or>
      0x80 \<le> c \<and> s = [ucast (0xf0 OR (drop_bit 18 c AND 0x07)), ucast (0x80 OR (drop_bit 12 c AND 0x3f)),
             ucast (0x80 OR (drop_bit 6 c AND 0x3f)), ucast (0x80 OR (c AND 0x3f))]"
    using assms by (auto simp: unicode_cpt_to_utf8_def word_le_nat_alt split: if_splits)
  have "\<not> bit (ucast c :: u8) 7" if "c \<le> 0x7f" using that ascii_byte(1) [of c] by (simp add: word_le_nat_alt word_less_nat_alt)
  then show "s \<noteq> [] \<and> length s = unicode_len_utf8 (hd s)" using d by (elim disjE) (auto simp: len_bits lead_bits)
  show "bit b 7" if "0x80 \<le> c" "b \<in> set s"
    using d that lead_bits cont by (elim disjE conjE) (auto simp: word_le_nat_alt)
qed

lemma byte_char_facts:
  shows "unicode_byte_to_utf8 b = Inr (byte_char b)" "unicode_utf8_to_byte (byte_char b) = Inr b"
    "unicode_cpt_to_utf8 (of_nat (slot (unat b))) = Inr (byte_char b)" "unicode_cpts_from_utf8 (byte_char b) = [of_nat (slot (unat b))]"
proof -
  have b: "unat b < 256" by (rule unat_u8_less)
  let ?c = "of_nat (slot (unat b)) :: u32"
  have sl: "slot (unat b) < 512" by (rule slot_less [OF b])
  then have "?c \<le> 0x10ffff" by (simp add: word_le_nat_alt unat_of_nat)
  then obtain s where s: "unicode_cpt_to_utf8 ?c = Inr s" using cpt_to_utf8_ok [of ?c] by (metis not_le obj_sumE)
  then have s': "byte_char b = s" by (simp add: bytes_of_cpt_def byte_char_def)
  show "unicode_byte_to_utf8 b = Inr (byte_char b)" using fwd_map [OF b] by (simp add: unicode_byte_to_utf8_def byte_char_def)
  show "unicode_utf8_to_byte (byte_char b) = Inr b" using rev_map [OF b] by (simp add: unicode_utf8_to_byte_def byte_char_def)
  show "unicode_cpt_to_utf8 ?c = Inr (byte_char b)" using s s' by simp
  show "unicode_cpts_from_utf8 (byte_char b) = [?c]" using cpts_round_trip [of "[?c]" s] s s' by simp
qed

lemma byte_char_clean: "0x20 \<notin> set (byte_char b)" "0x0A \<notin> set (byte_char b)"
proof -
  let ?n = "slot (unat b)"
  have sl: "?n < 512" by (rule slot_less [OF unat_u8_less])
  have u: "unat (of_nat ?n :: u32) = ?n" using sl by (simp add: unat_of_nat)
  have "x \<noteq> 0x20 \<and> x \<noteq> 0x0A" if x: "x \<in> set (byte_char b)" for x
  proof (cases "?n < 0x80")
    case True
    then have "?n \<in> set printable_ranges" by (auto simp: slot_def split: if_splits)
    then have n: "0x21 \<le> ?n" by (auto simp: printable_ranges_def)
    have "byte_char b = [ucast (of_nat ?n :: u32)]"
      using byte_char_facts(3) [of b] True u by (auto simp: unicode_cpt_to_utf8_def word_le_nat_alt split: if_splits)
    then have "unat x = ?n" using x u True by (simp add: unsigned_ucast_eq take_bit_nat_eq_self)
    then show ?thesis using n by auto
  next
    case False
    then have "bit x 7" using encoded_char_shape(2) [OF byte_char_facts(3) _ x] u by (simp add: word_le_nat_alt)
    then show ?thesis by (auto simp: bits_int bit_simps)
  qed
  then show "0x20 \<notin> set (byte_char b)" "0x0A \<notin> set (byte_char b)" by blast+
qed

lemma encode_bytes_chars: "encode_bytes bs = Inr (concat (map byte_char bs))"
  by (induction bs) (simp_all add: byte_char_facts)

text \<open>Cutting an encoded text into characters gives back the characters.\<close>

lemma split_pieces: "s \<noteq> [] \<Longrightarrow> length s = unicode_len_utf8 (hd s) \<Longrightarrow> map sym_str (split_chars (s @ rest) i) = s # map sym_str (split_chars rest (i + 1))"
  by (subst split_chars.simps) (simp add: Let_def sym_str_def)

lemma pieces_chars: "map sym_str (split_chars (concat (map byte_char bs)) i) = map byte_char bs"
proof (induction bs arbitrary: i)
  case Nil
  then show ?case by (simp add: split_chars.simps)
next
  case (Cons b bs)
  then show ?case using split_pieces encoded_char_shape(1) [OF byte_char_facts(3)] by simp
qed

lemma decode_chars: "decode_cpts full (map (\<lambda>b. of_nat (slot (unat b))) bs) = Inr bs"
  by (induction bs) (simp_all add: byte_char_facts)

lemma decode_text_chars: "llama_decode_text (concat (map byte_char bs)) = Inr bs"
proof -
  have "unicode_cpts_to_utf8 (map (\<lambda>b. of_nat (slot (unat b))) bs) = Inr (concat (map byte_char bs))"
    by (induction bs) (simp_all add: byte_char_facts)
  from cpts_round_trip [OF this] show ?thesis by (simp add: llama_decode_text_def decode_chars)
qed

subsection \<open>The session\<close>

definition add_new_bigram :: "'s llama_vocab \<Rightarrow> int \<Rightarrow> int \<Rightarrow> (nat, unit) mstate \<Rightarrow> (nat, unit) mstate option" where
  "add_new_bigram v left right = (\<lambda>(syms, q, u).
     if left = -1 \<or> right = -1 then Some (syms, q, u)
     else let left_token = sym_str (syms ! nat left); right_token = sym_str (syms ! nat right) in
       Option.bind (find_bpe_rank v left_token right_token) (\<lambda>rank_found.
         if rank_found < 0 then Some (syms, q, u)
         else Some (syms, q @ [\<lparr>bg_left = nat left, bg_right = nat right, bg_text = left_token @ right_token,
             bg_size = length left_token + length right_token, bg_key = nat rank_found\<rparr>], u)))"

definition bpe_stale :: "llm_symbol list \<Rightarrow> nat bigram \<Rightarrow> bool" where
  "bpe_stale syms g \<longleftrightarrow> sym_str (syms ! bg_left g) @ sym_str (syms ! bg_right g) \<noteq> bg_text g"

definition bpe_better :: "nat \<Rightarrow> nat \<Rightarrow> bool" where
  "bpe_better a b \<longleftrightarrow> a < b"

text \<open>The symbols of a word: the whole word when it is a token and merges may be ignored.\<close>

definition word_symbols :: "'s llama_vocab \<Rightarrow> bytes \<Rightarrow> llm_symbol list" where
  "word_symbols v word = (if ignore_merges v \<and> text_to_token v word \<noteq> LLAMA_TOKEN_NULL
     then [\<lparr>s_prev = -1, s_next = -1, s_text = word, s_n = length word\<rparr>] else split_chars word 0)"

text \<open>The chain of the symbols of all words: \<open>symbols_final\<close> and \<open>final_prev_index\<close>.\<close>

definition append_final :: "llm_symbol \<Rightarrow> llm_symbol list \<times> int \<Rightarrow> llm_symbol list \<times> int" where
  "append_final symb = (\<lambda>(symbols_final, final_prev_index).
     if s_n symb > 0 then
       let linked = (if final_prev_index \<noteq> -1
             then symbols_final[nat final_prev_index := (symbols_final ! nat final_prev_index)\<lparr>s_next := int (length symbols_final)\<rparr>]
             else symbols_final) in
       (linked @ [symb\<lparr>s_prev := final_prev_index, s_next := -1\<rparr>], int (length symbols_final))
     else (symbols_final, final_prev_index))"

definition bpe_word :: "'s llama_vocab \<Rightarrow> bytes \<Rightarrow> llm_symbol list \<times> int \<Rightarrow> (llm_symbol list \<times> int) option" where
  "bpe_word v word st =
     Option.bind (Option.bind (seed_queue (add_new_bigram v) (word_symbols v word, [], ()))
       (merge_loop bpe_better bpe_stale (add_new_bigram v))) (\<lambda>(symbols, q, u). Some (fold append_final symbols st))"

definition emit_symbol :: "'s llama_vocab \<Rightarrow> bytes \<Rightarrow> llama_token list \<Rightarrow> llama_token list option" where
  "emit_symbol v str out = (if str = [] then Some out
     else let token = text_to_token v str in
       if token = LLAMA_TOKEN_NULL then
         Some (out @ filter (\<lambda>i. i \<noteq> LLAMA_TOKEN_NULL) (map (\<lambda>b. text_to_token v [b]) str))
       else Some (out @ [token]))"

definition bpe_tokenize :: "unicode_data \<Rightarrow> regex_lib \<Rightarrow> 's llama_vocab \<Rightarrow> bytes \<Rightarrow> llama_token list \<Rightarrow> llama_token list option" where
  "bpe_tokenize d rx v t out = (case unicode_regex_split d rx t (regex_exprs v) of Inl e \<Rightarrow> None
     | Inr word_collection \<Rightarrow> Option.bind (fold_opt (bpe_word v) word_collection ([], -1)) (\<lambda>(symbols, i).
         if symbols = [] then Some out else walk_symbols (emit_symbol v) symbols 0 out))"

subsection \<open>The session is a greedy merging\<close>

definition no_space :: "bytes \<Rightarrow> bool" where
  "no_space s \<longleftrightarrow> 0x20 \<notin> set s \<and> 0x0A \<notin> set s"

definition pair_rank :: "'s llama_vocab \<Rightarrow> bytes \<Rightarrow> bytes \<Rightarrow> nat option" where
  "pair_rank v a b = bpe_ranks v (a, b)"

interpretation bpe: merging "pair_rank v" bpe_better bpe_stale "add_new_bigram v" no_space "\<lambda>_. True"
  for v :: "'s llama_vocab"
proof
  fix syms and g :: "nat bigram"
  assume g: "item_ok (pair_rank v) syms g" and n: "s_n (syms ! bg_left g) \<noteq> 0" "s_n (syms ! bg_right g) \<noteq> 0"
    "s_n (syms ! bg_left g) \<le> length (s_text (syms ! bg_left g))" "s_n (syms ! bg_right g) \<le> length (s_text (syms ! bg_right g))"
  let ?t = "s_text (syms ! bg_left g)"
  obtain k where k: "bg_size g \<le> length ?t" "bg_text g = take (bg_size g) ?t" "k < bg_size g" "s_text (syms ! bg_right g) = drop k ?t"
    "k \<le> s_n (syms ! bg_left g)" "bg_size g - k \<le> s_n (syms ! bg_right g)"
    using g n(1,2) by (auto simp: item_ok_def Let_def)
  show "bpe_stale syms g \<longleftrightarrow> s_n (syms ! bg_left g) + s_n (syms ! bg_right g) \<noteq> bg_size g"
  proof
    show "s_n (syms ! bg_left g) + s_n (syms ! bg_right g) \<noteq> bg_size g \<Longrightarrow> bpe_stale syms g"
      using n(3,4) k(1,2) unfolding bpe_stale_def by (metis length_append length_take min.absorb2 sym_str_def)
    show "s_n (syms ! bg_left g) + s_n (syms ! bg_right g) \<noteq> bg_size g" if st: "bpe_stale syms g"
    proof
      assume s: "s_n (syms ! bg_left g) + s_n (syms ! bg_right g) = bg_size g"
      then have "s_n (syms ! bg_left g) = k" "s_n (syms ! bg_right g) = bg_size g - k" using k(3,5,6) by linarith+
      then have "sym_str (syms ! bg_left g) @ sym_str (syms ! bg_right g) = take (k + (bg_size g - k)) ?t"
        using k(4) by (simp add: sym_str_def take_add)
      then show False using st k(2,3) by (simp add: bpe_stale_def)
    qed
  qed
next
  fix syms :: "llm_symbol list" and i j :: nat and q :: "nat bigram list" and ex :: unit
  assume n: "s_n (syms ! i) \<le> length (s_text (syms ! i))" "s_n (syms ! j) \<le> length (s_text (syms ! j))"
    and clean: "no_space (sym_str (syms ! i))" "no_space (sym_str (syms ! j))"
  have len: "length (sym_str (syms ! i)) = s_n (syms ! i)" "length (sym_str (syms ! j)) = s_n (syms ! j)" using n by (simp_all add: sym_str_def)
  show "\<exists>ex'. add_new_bigram v (int i) (int j) (syms, q, ex) = Some (syms, q @ (case pair_rank v (sym_str (syms ! i)) (sym_str (syms ! j)) of None \<Rightarrow> []
        | Some k \<Rightarrow> [\<lparr>bg_left = i, bg_right = j, bg_text = sym_str (syms ! i) @ sym_str (syms ! j),
            bg_size = s_n (syms ! i) + s_n (syms ! j), bg_key = k\<rparr>]), ex') \<and> True"
    using clean by (auto simp: add_new_bigram_def find_bpe_rank_def no_space_def pair_rank_def Let_def len split: option.splits)
qed (auto simp: bpe_better_def add_new_bigram_def no_space_def)

text \<open>The pieces of a word.\<close>

definition word_pieces :: "'s llama_vocab \<Rightarrow> bytes \<Rightarrow> bytes list" where
  "word_pieces v word = (if ignore_merges v \<and> text_to_token v word \<noteq> LLAMA_TOKEN_NULL then filter (\<lambda>p. p \<noteq> []) [word]
     else greedy_merge (pair_rank v) bpe_better (utf8_pieces word))"

text \<open>\<open>final_ok\<close>: the chain holds these pieces, in order.\<close>

definition final_ok :: "bytes list \<Rightarrow> llm_symbol list \<times> int \<Rightarrow> bool" where
  "final_ok ps = (\<lambda>(fs, i). map sym_str fs = ps \<and> i = int (length fs) - 1 \<and>
     (\<forall>j < length fs. s_next (fs ! j) = (if Suc j < length fs then int (Suc j) else -1)))"

lemma append_final_ok:
  assumes "final_ok ps st" "s_n s > 0"
  shows "final_ok (ps @ [sym_str s]) (append_final s st)"
proof -
  obtain fs i where st: "st = (fs, i)" by (cases st)
  have f: "map sym_str fs = ps" "i = int (length fs) - 1" "\<And>j. j < length fs \<Longrightarrow> s_next (fs ! j) = (if Suc j < length fs then int (Suc j) else -1)"
    using assms(1) by (auto simp: final_ok_def st)
  have sym: "sym_str (s\<lparr>s_prev := x, s_next := y\<rparr>) = sym_str s" "sym_str (s\<lparr>s_next := y\<rparr>) = sym_str s" "sym_str (s\<lparr>s_prev := x\<rparr>) = sym_str s" for s x y by (simp_all add: sym_str_def)
  show ?thesis
  proof (cases "fs = []")
    case True
    then show ?thesis using f assms(2) by (simp add: final_ok_def append_final_def st sym)
  next
    case False
    let ?l = "fs[nat i := (fs ! nat i)\<lparr>s_next := int (length fs)\<rparr>]"
    have i: "i \<noteq> -1" "nat i = length fs - 1" "nat i < length fs" using f(2) False by (cases fs; simp)+
    have "map sym_str ?l = map sym_str fs" by (simp add: map_update sym list_update_id i) (metis i(3) list_update_id map_update nth_map)
    moreover have "s_next ((?l @ [s\<lparr>s_prev := i, s_next := -1\<rparr>]) ! j) = (if Suc j < Suc (length fs) then int (Suc j) else -1)" if "j < Suc (length fs)" for j
      using that f(3) [of j] i False by (auto simp: nth_append nth_list_update less_Suc_eq)
    ultimately show ?thesis using f(1) i assms(2) by (simp add: final_ok_def append_final_def st sym Let_def)
  qed
qed

lemma append_finals: "final_ok ps st \<Longrightarrow> final_ok (ps @ map sym_str (filter (\<lambda>s. 0 < s_n s) syms)) (fold append_final syms st)"
proof (induction syms arbitrary: ps st)
  case (Cons s syms)
  show ?case
  proof (cases "s_n s > 0")
    case True
    then show ?thesis using Cons.IH [OF append_final_ok [OF Cons.prems True]] by simp
  next
    case False
    then have "append_final s st = st" by (simp add: append_final_def split: prod.splits)
    then show ?thesis using Cons False by simp
  qed
qed simp

lemma bpe_word_pieces:
  assumes "no_space word" "final_ok ps st"
  shows "\<exists>st'. bpe_word v word st = Some st' \<and> final_ok (ps @ word_pieces v word) st'"
proof (cases "ignore_merges v \<and> text_to_token v word \<noteq> LLAMA_TOKEN_NULL")
  case True
  let ?s = "\<lparr>s_prev = -1, s_next = -1, s_text = word, s_n = length word\<rparr>"
  have "bpe_word v word st = Some (fold append_final [?s] st)"
    using True by (simp add: bpe_word_def word_symbols_def seed_queue_def merge_loop.simps)
  moreover have "map sym_str (filter (\<lambda>s. 0 < s_n s) [?s]) = word_pieces v word" using True by (simp add: word_pieces_def sym_str_def)
  ultimately show ?thesis using append_finals [OF assms(2), of "[?s]"] by simp
next
  case False
  have "no_space p" if "p \<in> set (utf8_pieces word)" for p
    using assms(1) concat_pieces [of word] that unfolding no_space_def by (metis UN_I set_concat)
  then obtain syms "is" where s: "Option.bind (seed_queue (add_new_bigram v) (split_chars word 0, [], ())) (merge_loop bpe_better bpe_stale (add_new_bigram v)) = Some (syms, [], ())"
    "live_syms syms word is" "strs syms is = greedy_merge (pair_rank v) bpe_better (utf8_pieces word)"
    using bpe.session_greedy [of word v "()"] by auto
  have "map sym_str (filter (\<lambda>s. 0 < s_n s) syms) = word_pieces v word"
    unfolding live_filter [OF s(2)] word_pieces_def if_not_P [OF False] s(3) [symmetric] by (simp add: strs_def)
  moreover have "bpe_word v word st = Some (fold append_final syms st)" unfolding bpe_word_def word_symbols_def if_not_P [OF False] s(1) by simp
  ultimately show ?thesis using append_finals [OF assms(2), of syms] by simp
qed

lemma bpe_words_pieces:
  "\<forall>w \<in> set words. no_space w \<Longrightarrow> final_ok ps st \<Longrightarrow>
     \<exists>st'. fold_opt (bpe_word v) words st = Some st' \<and> final_ok (ps @ concat (map (word_pieces v) words)) st'"
proof (induction words arbitrary: ps st)
  case (Cons w words)
  then obtain st' where "bpe_word v w st = Some st'" "final_ok (ps @ word_pieces v w) st'" using bpe_word_pieces by (metis list.set_intros(1))
  then show ?case using Cons.IH [of "ps @ word_pieces v w" st'] Cons.prems(1) by simp
qed simp

lemma walk_final:
  assumes "\<And>j. j < length fs \<Longrightarrow> s_next (fs ! j) = (if Suc j < length fs then int (Suc j) else -1)"
  shows "i < length fs \<Longrightarrow> walk_symbols f fs (int i) out = fold_opt f (map sym_str (drop i fs)) out"
proof (induction "length fs - i" arbitrary: i out)
  case (Suc n)
  have "walk_symbols f fs (s_next (fs ! i)) t = fold_opt f (map sym_str (drop (Suc i) fs)) t" for t
  proof (cases "Suc i < length fs")
    case True
    then show ?thesis using Suc.hyps(1) [of "Suc i"] Suc.hyps(2) assms [OF Suc.prems] by simp
  next
    case False
    then show ?thesis using assms [OF Suc.prems] by (simp add: walk_symbols.simps)
  qed
  then show ?case using Suc.prems by (subst walk_symbols.simps) (auto simp: Cons_nth_drop_Suc [symmetric] split: option.splits)
qed simp

text \<open>The words of the pre-tokenizer are encoded, so they hold no space and no line feed.\<close>

lemma split_words_encoded:
  "unicode_byte_encoding_process ws = Inr es \<Longrightarrow> \<forall>e \<in> set es. \<exists>bs. e = concat (map byte_char bs)"
  by (induction ws arbitrary: es) (fastforce split: sum.splits simp: encode_bytes_chars)+

lemma no_space_chars: "no_space (concat (map byte_char bs))"
  using byte_char_clean by (auto simp: no_space_def)

lemma bpe_session_pieces:
  assumes "unicode_regex_split d rx t (regex_exprs v) = Inr words"
  shows "bpe_tokenize d rx v t out = fold_opt (emit_symbol v) (concat (map (word_pieces v) words)) out"
proof -
  have "\<forall>w \<in> set words. no_space w"
    using assms split_words_encoded no_space_chars by (fastforce simp: unicode_regex_split_def Let_def split: sum.splits)
  moreover have "final_ok [] ([], -1)" by (simp add: final_ok_def)
  ultimately obtain fs i where f: "fold_opt (bpe_word v) words ([], -1) = Some (fs, i)" "final_ok (concat (map (word_pieces v) words)) (fs, i)"
    using bpe_words_pieces [of words "[]" "([], -1)" v] by auto
  then have m: "map sym_str fs = concat (map (word_pieces v) words)" and nx: "\<And>j. j < length fs \<Longrightarrow> s_next (fs ! j) = (if Suc j < length fs then int (Suc j) else -1)"
    by (auto simp: final_ok_def)
  show ?thesis
  proof (cases "fs = []")
    case True
    then have "concat (map (word_pieces v) words) = []" using m by simp
    then show ?thesis using assms f(1) True by (simp only: bpe_tokenize_def) simp
  next
    case False
    then show ?thesis using assms f(1) walk_final [OF nx, of 0 "emit_symbol v" out] m by (simp add: bpe_tokenize_def)
  qed
qed

text \<open>
  C9: when the pre-tokenisation of a text succeeds, the BPE session returns the tokens of the pieces of its
  words in order (\<open>word_pieces\<close>): the result of greedy merging of the characters of the word, the pair of lowest
  rank first and the leftmost among equals, except that a vocabulary with \<open>ignore_merges\<close> takes a word that is
  itself a token whole.
\<close>

theorem bpe_tokenizes_greedily:
  assumes "unicode_regex_split d rx t (regex_exprs v) = Inr words"
  shows "bpe_tokenize d rx v t out = fold_opt (emit_symbol v) (concat (map (word_pieces v) words)) out"
  using assms by (rule bpe_session_pieces)

subsection \<open>Detokenizing gives the text back\<close>

definition plain_token :: "'s llama_vocab \<Rightarrow> bytes \<Rightarrow> bool" where
  "plain_token v t \<longleftrightarrow> (case token_to_id v t of None \<Rightarrow> False
     | Some i \<Rightarrow> i < n_tokens v \<and> td_text (id_to_token v ! i) = t \<and>
         td_attr (id_to_token v ! i) AND (ATTR_UNKNOWN OR ATTR_CONTROL OR ATTR_USER_DEFINED) = 0 \<and>
         td_attr (id_to_token v ! i) AND ATTR_NORMAL \<noteq> 0)"

lemma fewer_bits: "a AND 25 = 0 \<Longrightarrow> a AND 9 = (0 :: u32)"
proof -
  assume "a AND 25 = 0"
  moreover have "a AND 9 = (a AND 25) AND 9" by (simp add: and.assoc)
  ultimately show ?thesis by simp
qed

text \<open>A piece that is a plain token and a text of the byte alphabet is shown as the bytes it stands for.\<close>

lemma plain_shown:
  assumes "v_type v = VOCAB_BPE" "pieces_ready v" "plain_token v (concat (map byte_char bs))"
  shows "shown_piece v 0 special (text_to_token v (concat (map byte_char bs))) = Some bs"
  unfolding ready_shown [OF assms(2)]
  using assms(1,3) by (auto simp: plain_token_def shown_piece_def text_to_token_def token_get_attr_def get_token_data_def n_tokens_def
    piece_text_def Let_def decode_text_chars fewer_bits split: option.splits)

lemma plain_emitted: "plain_token v p \<Longrightarrow> p \<noteq> [] \<Longrightarrow> emit_symbol v p out = Some (out @ [text_to_token v p])"
  by (auto simp: plain_token_def emit_symbol_def text_to_token_def split: option.splits)

lemma plain_pieces_shown:
  assumes "v_type v = VOCAB_BPE" "pieces_ready v"
  shows "\<forall>p \<in> set ps. plain_token v p \<and> p \<noteq> [] \<and> (\<exists>bs. p = concat (map byte_char bs)) \<Longrightarrow>
    \<exists>bss. fold_opt (emit_symbol v) ps out = Some (out @ map (text_to_token v) ps) \<and>
      shown_pieces v special 0 (map (text_to_token v) ps) = Some bss \<and> concat ps = concat (map byte_char (concat bss))"
proof (induction ps arbitrary: out)
  case (Cons p ps)
  then obtain bs where p: "p = concat (map byte_char bs)" "plain_token v p" "p \<noteq> []" by auto
  obtain bss where b: "fold_opt (emit_symbol v) ps (out @ [text_to_token v p]) = Some ((out @ [text_to_token v p]) @ map (text_to_token v) ps)"
    "shown_pieces v special 0 (map (text_to_token v) ps) = Some bss" "concat ps = concat (map byte_char (concat bss))"
    using Cons.IH [of "out @ [text_to_token v p]"] Cons.prems by auto
  have "shown_piece v 0 special (text_to_token v p) = Some bs" using plain_shown [OF assms] p by blast
  then show ?case using b plain_emitted [OF p(2,3)] p(1) by (intro exI [of _ "bs # bss"]) simp
qed simp

lemma chars_inj:
  assumes "concat (map byte_char xs) = concat (map byte_char ys)"
  shows "xs = ys"
  using arg_cong [OF assms, of llama_decode_text] unfolding decode_text_chars by simp

text \<open>The pieces of a word in the byte alphabet.\<close>

lemma word_pieces_plain:
  assumes ranks: "\<And>l r k. bpe_ranks v (l, r) = Some k \<Longrightarrow> plain_token v (l @ r)"
    and chars: "\<forall>b \<in> set bs. plain_token v (byte_char b)" and whole: "ignore_merges v \<Longrightarrow> token_to_id v (concat (map byte_char bs)) \<noteq> None \<Longrightarrow> plain_token v (concat (map byte_char bs))"
  shows "(\<forall>p \<in> set (word_pieces v (concat (map byte_char bs))). plain_token v p \<and> p \<noteq> [] \<and> (\<exists>bs. p = concat (map byte_char bs))) \<and>
    concat (word_pieces v (concat (map byte_char bs))) = concat (map byte_char bs)"
proof (cases "ignore_merges v \<and> text_to_token v (concat (map byte_char bs)) \<noteq> LLAMA_TOKEN_NULL")
  case True
  then have "token_to_id v (concat (map byte_char bs)) \<noteq> None" by (auto simp: text_to_token_def split: option.splits)
  then show ?thesis using True whole by (auto simp: word_pieces_def)
next
  case False
  let ?w = "concat (map byte_char bs)"
  let ?P = "\<lambda>p. plain_token v p \<and> p \<noteq> [] \<and> (\<exists>bs. p = concat (map byte_char bs))"
  have pieces: "utf8_pieces ?w = map byte_char bs" by (simp add: utf8_pieces_def pieces_chars)
  have "\<exists>xs. byte_char b = concat (map byte_char xs)" for b by (rule exI [of _ "[b]"]) simp
  then have "\<forall>p \<in> set (utf8_pieces ?w). ?P p" unfolding pieces using chars encoded_char_shape(1) [OF byte_char_facts(3)] by auto
  moreover have "?P (a @ b)" if "pair_rank v a b = Some k" "?P a" "?P b" for a b k
  proof -
    note ab = that
    obtain xs ys where "a = concat (map byte_char xs)" "b = concat (map byte_char ys)" using ab by blast
    then have "a @ b = concat (map byte_char (xs @ ys))" by simp
    moreover have "plain_token v (a @ b)" using ranks ab(1) by (simp add: pair_rank_def)
    ultimately show ?thesis using ab(2) by blast
  qed
  ultimately have "\<forall>p \<in> set (greedy_merge (pair_rank v) bpe_better (utf8_pieces ?w)). ?P p"
    using greedy_all [of "pair_rank v" ?P "utf8_pieces ?w" bpe_better] by blast
  then show ?thesis unfolding word_pieces_def if_not_P [OF False] by (simp add: concat_greedy concat_pieces)
qed

lemma bpe_text_shown:
  assumes v: "v_type v = VOCAB_BPE" "pieces_ready v"
    and ranks: "\<forall>l r. bpe_ranks v (l, r) \<noteq> None \<longrightarrow> plain_token v (l @ r)"
    and rx: "regex_documented rx" "split_offsets d rx t (regex_exprs v) [length (unicode_cpts_from_utf8 t)] = Inr offsets"
    and t: "unicode_cpts_to_utf8 (unicode_cpts_from_utf8 t) = Inr t" "\<forall>b \<in> set t. plain_token v (byte_char b)"
    and whole: "\<forall>ws. unicode_regex_split d rx t (regex_exprs v) = Inr ws \<longrightarrow> (\<forall>w \<in> set ws. ignore_merges v \<and> token_to_id v w \<noteq> None \<longrightarrow> plain_token v w)"
  shows "\<exists>toks bss. bpe_tokenize d rx v t out = Some (out @ toks) \<and> shown_pieces v special 0 toks = Some bss \<and> concat bss = t"
proof -
  have "\<forall>c \<in> set (unicode_cpts_from_utf8 t). c \<le> 0x10ffff" using t(1) cpts_to_utf8_ok by blast
  from split_words_concat [OF rx(1) this rx(2)] obtain ws where ws: "unicode_regex_split d rx t (regex_exprs v) = Inr ws"
    "encode_bytes t = Inr (concat ws)" using t(1) by auto
  then have whole_text: "concat ws = concat (map byte_char t)" by (simp add: encode_bytes_chars)
  have words: "\<forall>w \<in> set ws. \<exists>bs. w = concat (map byte_char bs)"
    using ws(1) split_words_encoded by (auto simp: unicode_regex_split_def Let_def split: sum.splits)
  have "\<forall>p \<in> set (concat (map (word_pieces v) ws)). plain_token v p \<and> p \<noteq> [] \<and> (\<exists>bs. p = concat (map byte_char bs))"
    and same: "concat (concat (map (word_pieces v) ws)) = concat ws"
  proof -
    have rank: "plain_token v (l @ r)" if "bpe_ranks v (l, r) = Some k" for l r k using ranks that by blast
    obtain bsf where f: "\<And>w. w \<in> set ws \<Longrightarrow> w = concat (map byte_char (bsf w))" using words by metis
    have "concat (map byte_char (concat (map bsf ws))) = concat ws" using f by (induction ws) auto
    then have "concat (map bsf ws) = t" using whole_text chars_inj by simp
    then have chars: "\<forall>b \<in> set (bsf w). plain_token v (byte_char b)" if "w \<in> set ws" for w using that t(2) by auto
    have wp: "(\<forall>p \<in> set (word_pieces v w). plain_token v p \<and> p \<noteq> [] \<and> (\<exists>bs. p = concat (map byte_char bs))) \<and> concat (word_pieces v w) = w" if w: "w \<in> set ws" for w
    proof -
      have "plain_token v (concat (map byte_char (bsf w)))" if "ignore_merges v" "token_to_id v (concat (map byte_char (bsf w))) \<noteq> None"
        using whole ws(1) w that unfolding f [OF w, symmetric] by blast
      from word_pieces_plain [of v "bsf w", OF rank chars [OF w] this] show ?thesis unfolding f [OF w, symmetric] .
    qed
    then show "\<forall>p \<in> set (concat (map (word_pieces v) ws)). plain_token v p \<and> p \<noteq> [] \<and> (\<exists>bs. p = concat (map byte_char bs))" by auto
    show "concat (concat (map (word_pieces v) ws)) = concat ws" using wp by (induction ws) auto
  qed
  from plain_pieces_shown [OF v(1,2) this(1)] obtain bss where b: "fold_opt (emit_symbol v) (concat (map (word_pieces v) ws)) out =
      Some (out @ map (text_to_token v) (concat (map (word_pieces v) ws)))"
    "shown_pieces v special 0 (map (text_to_token v) (concat (map (word_pieces v) ws))) = Some bss"
    "concat (concat (map (word_pieces v) ws)) = concat (map byte_char (concat bss))" by fastforce
  then have "concat bss = t" using same whole_text chars_inj by simp
  then show ?thesis using b(1,2) unfolding bpe_session_pieces [OF ws(1)] by blast
qed

lemma detokenize_shown:
  assumes "shown_pieces v special 0 toks = Some bss" "\<not> add_space_prefix v" "int (length (concat bss)) \<le> text_len_max"
  shows "detokenize v toks text_len_max False special =
    (let c = (if clean_spaces v then clean_up (concat bss) else concat bss) in Some (int (length c), c))"
proof -
  have "0 \<le> text_len_max" using assms(3) by linarith
  then show ?thesis using detok_loop_pieces [where avail = text_len_max and v = v and special = special and rs = False and tot = 0 and t = "[]" and toks = toks] assms
    by (auto simp: detokenize_def strip_bos_def strip_eos_def Let_def)
qed

theorem bpe_round_trip:
  assumes v: "v_type v = VOCAB_BPE" "pieces_ready v" "\<not> add_space_prefix v" "\<not> clean_spaces v"
    and ranks: "\<forall>l r. bpe_ranks v (l, r) \<noteq> None \<longrightarrow> plain_token v (l @ r)"
    and rx: "regex_documented rx" "split_offsets d rx t (regex_exprs v) [length (unicode_cpts_from_utf8 t)] = Inr offsets"
    and t: "unicode_cpts_to_utf8 (unicode_cpts_from_utf8 t) = Inr t" "\<forall>b \<in> set t. plain_token v (byte_char b)"
    and whole: "\<forall>ws. unicode_regex_split d rx t (regex_exprs v) = Inr ws \<longrightarrow> (\<forall>w \<in> set ws. ignore_merges v \<and> token_to_id v w \<noteq> None \<longrightarrow> plain_token v w)"
    and room: "int (length t) \<le> text_len_max"
  shows "\<exists>toks. bpe_tokenize d rx v t [] = Some toks \<and> detokenize v toks text_len_max False special = Some (int (length t), t)"
proof -
  obtain toks bss where "bpe_tokenize d rx v t [] = Some toks" "shown_pieces v special 0 toks = Some bss" "concat bss = t"
    using bpe_text_shown [where out = "[]" and special = special, OF v(1,2) ranks rx t whole] by auto
  then show ?thesis using detokenize_shown [of v special toks bss text_len_max] v(3,4) room by (auto simp: Let_def)
qed

text \<open>A small vocabulary: two letters and their pair.\<close>

definition small_bpe :: "int llama_vocab" where
  "small_bpe = \<lparr>v_type = VOCAB_BPE, special_bos_id = 11, special_eos_id = 11, special_unk_id = -1, special_sep_id = -1,
     add_space_prefix = False, add_bos = False, add_eos = False, ignore_merges = False, clean_spaces = False,
     token_to_id = [[0x68] \<mapsto> 0, [0x69] \<mapsto> 1, [0x68, 0x69] \<mapsto> 2],
     id_to_token = map (\<lambda>t. \<lparr>td_text = t, td_score = 0, td_attr = ATTR_NORMAL\<rparr>) [[0x68], [0x69], [0x68, 0x69]],
     cache_special_tokens = [], cache_token_to_piece = [], bpe_ranks = [([0x68], [0x69]) \<mapsto> 0], regex_exprs = [gpt2_regex]\<rparr>"

lemma small_chars: "byte_char 0x68 = [0x68]" "byte_char 0x69 = [0x69]"
  by (simp_all add: byte_char_def slot_def printable_ranges_def bytes_of_cpt_def unicode_cpt_to_utf8_def)

lemma small_bpe_plain: "plain_token small_bpe [0x68]" "plain_token small_bpe [0x69]" "plain_token small_bpe [0x68, 0x69]"
  by (simp_all add: plain_token_def small_bpe_def n_tokens_def)

lemma small_split: "\<exists>os. split_offsets no_data no_regex [0x68, 0x69] (regex_exprs small_bpe) [length (unicode_cpts_from_utf8 [0x68, 0x69])] = Inr os"
    "unicode_cpts_to_utf8 (unicode_cpts_from_utf8 [0x68, 0x69]) = Inr [0x68, 0x69]"
proof -
  have e: "unicode_cpts_to_utf8 [0x68, 0x69] = Inr [0x68, 0x69]" by (simp add: unicode_cpt_to_utf8_def)
  from cpts_round_trip [OF e] have c: "unicode_cpts_from_utf8 [0x68, 0x69] = [0x68, 0x69]" .
  show "\<exists>os. split_offsets no_data no_regex [0x68, 0x69] (regex_exprs small_bpe) [length (unicode_cpts_from_utf8 [0x68, 0x69])] = Inr os"
    using gpt2_split_succeeds [of "[0x68, 0x69]" no_data no_regex] by (simp add: c small_bpe_def)
  show "unicode_cpts_to_utf8 (unicode_cpts_from_utf8 [0x68, 0x69]) = Inr [0x68, 0x69]" unfolding c by (rule e)
qed

theorem bpe_round_trip_witness:
  "\<exists>toks. bpe_tokenize no_data no_regex small_bpe [0x68, 0x69] [] = Some toks \<and>
    detokenize small_bpe toks 2 False False = Some (int (length [0x68 :: u8, 0x69]), [0x68, 0x69])"
proof -
  obtain os where os: "split_offsets no_data no_regex [0x68, 0x69] (regex_exprs small_bpe) [length (unicode_cpts_from_utf8 [0x68, 0x69])] = Inr os"
    using small_split(1) by blast
  have "\<forall>l r. bpe_ranks small_bpe (l, r) \<noteq> None \<longrightarrow> plain_token small_bpe (l @ r)"
    using small_bpe_plain(3) by (simp add: small_bpe_def split: if_splits)
  moreover have "\<forall>b \<in> set [0x68, 0x69]. plain_token small_bpe (byte_char b)" using small_bpe_plain by (simp add: small_chars)
  ultimately show ?thesis
    by (intro bpe_round_trip [OF _ _ _ _ _ no_regex_documented os small_split(2)]) (simp_all add: small_bpe_def pieces_ready_def)
qed

theorem bpe_tokenizes_greedily_witness:
  "\<exists>words. unicode_regex_split no_data no_regex [0x68, 0x69] (regex_exprs small_bpe) = Inr words \<and>
    bpe_tokenize no_data no_regex small_bpe [0x68, 0x69] [] = fold_opt (emit_symbol small_bpe) (concat (map (word_pieces small_bpe) words)) []"
proof -
  have "\<forall>c \<in> set (unicode_cpts_from_utf8 [0x68, 0x69]). c \<le> 0x10ffff" using small_split(2) cpts_to_utf8_ok by blast
  then obtain words where "unicode_regex_split no_data no_regex [0x68, 0x69] (regex_exprs small_bpe) = Inr words"
    using split_words_concat [OF no_regex_documented] small_split(1) by blast
  then show ?thesis using bpe_tokenizes_greedily by blast
qed

end
