(* ===== verification/Partition.thy ===== *)
theory Partition
  imports Spm Bpe "HOL-Library.Sublist"
begin

text \<open>
  Special tokens in a prompt: \<open>tokenizer_st_partition\<close> cuts the text at every occurrence of a special token,
  the longest special tokens first, and \<open>tokenize\<close> feeds the rest to the tokenizer.  A fragment is a token or
  a range of the raw text.  The loop over one fragment does not end when the text of the token is empty, which
  is why it is a partial function; \<open>load_tokens\<close> renames empty texts.  Shown: the loop ends, nothing is lost
  but spaces next to tokens that say so, and no text of a special token is left over.
\<close>

subsection \<open>Fragments\<close>

datatype fragment = Frag_Token nat | Frag_Raw nat nat

text \<open>\<open>std::string_view::find\<close>: the first position from \<open>pos\<close> on.\<close>

definition find_from :: "bytes \<Rightarrow> bytes \<Rightarrow> nat \<Rightarrow> nat option" where
  "find_from s pat pos = find (\<lambda>m. take (length pat) (drop m s) = pat) [pos ..< length s - length pat + 1]"

text \<open>The spaces at the two ends of a remainder.\<close>

fun strip_left :: "bytes \<Rightarrow> nat \<Rightarrow> nat \<Rightarrow> nat" where
  "strip_left raw off 0 = 0"
| "strip_left raw off (Suc n) = (if is_space_char (raw ! (off + n)) then strip_left raw off n else Suc n)"

fun strip_right :: "bytes \<Rightarrow> nat \<Rightarrow> nat \<Rightarrow> nat \<times> nat" where
  "strip_right raw off 0 = (off, 0)"
| "strip_right raw off (Suc n) = (if is_space_char (raw ! off) then strip_right raw (off + 1) n else (off, Suc n))"

text \<open>What the loop over a fragment puts in its place.\<close>

partial_function (option) split_fragment :: "'s token_data \<Rightarrow> nat \<Rightarrow> bytes \<Rightarrow> nat \<Rightarrow> nat \<Rightarrow> fragment list option" where
  "split_fragment d special_id raw off len =
     (case find_from (take (off + len) raw) (td_text d) off of
        None \<Rightarrow> Some (if len = 0 then [] else [Frag_Raw off len])
      | Some m \<Rightarrow>
          let left_len = (if td_attr d AND ATTR_LSTRIP \<noteq> 0 then strip_left raw off (m - off) else m - off);
              left = (if m > off \<and> left_len > 0 then [Frag_Raw off left_len] else []);
              stop = m + length (td_text d)
          in if stop < off + len then
               (let (right_off, right_len) = (if td_attr d AND ATTR_RSTRIP \<noteq> 0 then strip_right raw stop (off + len - stop)
                      else (stop, off + len - stop)) in
                Option.bind (split_fragment d special_id raw right_off right_len) (\<lambda>rest. Some (left @ Frag_Token special_id # rest)))
             else Some (left @ [Frag_Token special_id]))"

definition split_all :: "'s token_data \<Rightarrow> nat \<Rightarrow> bytes \<Rightarrow> fragment list \<Rightarrow> fragment list option" where
  "split_all d special_id raw buf = fold_opt (\<lambda>f acc. case f of
       Frag_Token i \<Rightarrow> Some (acc @ [f])
     | Frag_Raw off len \<Rightarrow> map_option (\<lambda>fs. acc @ fs) (split_fragment d special_id raw off len)) buf []"

definition skipped :: "bool \<Rightarrow> 's token_data \<Rightarrow> bool" where
  "skipped parse_special d \<longleftrightarrow> \<not> parse_special \<and> td_attr d AND (ATTR_CONTROL OR ATTR_UNKNOWN) \<noteq> 0"

definition tokenizer_st_partition :: "'s llama_vocab \<Rightarrow> bool \<Rightarrow> bytes \<Rightarrow> fragment list \<Rightarrow> fragment list option" where
  "tokenizer_st_partition v parse_special raw buf = fold_opt (\<lambda>special_id b.
     Option.bind (get_token_data v (int special_id)) (\<lambda>d.
       if skipped parse_special d then Some b else split_all d special_id raw b)) (cache_special_tokens v) buf"

definition fragments :: "'s llama_vocab \<Rightarrow> bool \<Rightarrow> bytes \<Rightarrow> fragment list option" where
  "fragments v parse_special raw_text = (if raw_text = [] then Some []
     else tokenizer_st_partition v parse_special raw_text [Frag_Raw 0 (length raw_text)])"

subsection \<open>Tokenizing\<close>

text \<open>The cases of \<open>tokenize\<close> for SPM and BPE.\<close>

definition spm_fragment :: "'s :: linorder llama_vocab \<Rightarrow> bytes \<Rightarrow> fragment \<Rightarrow> bool \<times> llama_token list \<Rightarrow> (bool \<times> llama_token list) option" where
  "spm_fragment v raw_text f = (\<lambda>(is_prev_special, output). case f of
       Frag_Token i \<Rightarrow> Some (True, output @ [int i])
     | Frag_Raw off len \<Rightarrow>
         map_option (\<lambda>out. (False, out))
           (spm_tokenize v (llama_escape_whitespace ((if add_space_prefix v \<and> is_prev_special then [0x20] else []) @ take len (drop off raw_text))) output))"

definition tokenize_spm :: "'s :: linorder llama_vocab \<Rightarrow> bytes \<Rightarrow> bool \<Rightarrow> bool \<Rightarrow> llama_token list option" where
  "tokenize_spm v raw_text add_special parse_special =
     Option.bind (fragments v parse_special raw_text) (\<lambda>buf.
     Option.bind (if add_special \<and> add_bos v then (if special_bos_id v = LLAMA_TOKEN_NULL then None else Some [special_bos_id v]) else Some []) (\<lambda>out0.
     Option.bind (fold_opt (spm_fragment v raw_text) buf (True, out0)) (\<lambda>(is_prev_special, output).
     if add_special \<and> add_eos v then (if special_eos_id v = LLAMA_TOKEN_NULL then None else Some (output @ [special_eos_id v])) else Some output)))"

definition bpe_fragment :: "unicode_data \<Rightarrow> regex_lib \<Rightarrow> 's llama_vocab \<Rightarrow> bytes \<Rightarrow> fragment \<Rightarrow> llama_token list \<Rightarrow> llama_token list option" where
  "bpe_fragment d rx v raw_text f output = (case f of
       Frag_Token i \<Rightarrow> Some (output @ [int i])
     | Frag_Raw off len \<Rightarrow> bpe_tokenize d rx v (take len (drop off raw_text)) output)"

definition append_bos :: "'s llama_vocab \<Rightarrow> llama_token list \<Rightarrow> llama_token list option" where
  "append_bos v output = (if add_bos v then (if special_bos_id v = LLAMA_TOKEN_NULL then None else Some (output @ [special_bos_id v])) else Some output)"

definition append_eos :: "'s llama_vocab \<Rightarrow> llama_token list \<Rightarrow> llama_token list option" where
  "append_eos v output = (if add_eos v then (if special_eos_id v = LLAMA_TOKEN_NULL then None else Some (output @ [special_eos_id v])) else Some output)"

definition tokenize_bpe :: "unicode_data \<Rightarrow> regex_lib \<Rightarrow> 's llama_vocab \<Rightarrow> bytes \<Rightarrow> bool \<Rightarrow> bool \<Rightarrow> llama_token list option" where
  "tokenize_bpe d rx v raw_text add_special parse_special =
     Option.bind (fragments v parse_special raw_text) (\<lambda>buf.
     Option.bind (if add_special then append_bos v [] else Some []) (\<lambda>out0.
     Option.bind (fold_opt (bpe_fragment d rx v raw_text) buf out0) (\<lambda>output.
     if add_special then append_eos v output else Some output)))"

subsection \<open>The partition is exact\<close>

text \<open>\<open>gap_cover P s fs\<close>: the text \<open>s\<close> is the fragments \<open>fs\<close> in order, with gaps before, between and after them
  of which \<open>P\<close> holds.\<close>

inductive gap_cover :: "(bytes \<Rightarrow> bool) \<Rightarrow> bytes \<Rightarrow> bytes list \<Rightarrow> bool" for P where
  no_fragment: "P g \<Longrightarrow> gap_cover P g []"
| next_fragment: "P g \<Longrightarrow> gap_cover P s fs \<Longrightarrow> gap_cover P (g @ f @ s) (f # fs)"

inductive_cases gap_cover_nilE: "gap_cover P s []"
inductive_cases gap_cover_consE: "gap_cover P s (f # fs)"

definition gap_ok :: "bool \<Rightarrow> bytes \<Rightarrow> bool" where
  "gap_ok strip g \<longleftrightarrow> g = [] \<or> (strip \<and> list_all is_space_char g)"

lemma gap_ok_simps [simp]: "gap_ok strip []" "gap_ok strip g \<Longrightarrow> gap_ok strip h \<Longrightarrow> gap_ok strip (g @ h)"
  by (auto simp: gap_ok_def)

lemma cover_prepend: "gap_cover (gap_ok b) s fs \<Longrightarrow> gap_ok b g \<Longrightarrow> gap_cover (gap_ok b) (g @ s) fs"
proof (induction rule: gap_cover.induct)
  case (no_fragment h)
  then show ?case by (intro gap_cover.intros) simp
next
  case (next_fragment h s fs f)
  then show ?case using gap_cover.next_fragment [of "gap_ok b" "g @ h" s fs f] by simp
qed

lemma cover_append: "gap_cover (gap_ok b) s fs \<Longrightarrow> gap_cover (gap_ok b) t gs \<Longrightarrow> gap_cover (gap_ok b) (s @ t) (fs @ gs)"
proof (induction rule: gap_cover.induct)
  case (no_fragment g)
  then show ?case using cover_prepend by simp
next
  case (next_fragment g s fs f)
  then show ?case using gap_cover.next_fragment [of "gap_ok b" g "s @ t" "fs @ gs" f] by simp
qed

lemma cover_one: "gap_cover (gap_ok b) f [f]"
  using gap_cover.next_fragment [of "gap_ok b" "[]" "[]" "[]" f] by (simp add: no_fragment)

lemma cover_concat: "gap_cover (gap_ok b) s (map g xs) \<Longrightarrow> (\<And>x. x \<in> set xs \<Longrightarrow> gap_cover (gap_ok b) (g x) (map g (h x))) \<Longrightarrow>
    gap_cover (gap_ok b) s (map g (concat (map h xs)))"
proof (induction xs arbitrary: s)
  case (Cons x xs)
  obtain p t where s: "s = p @ g x @ t" "gap_ok b p" "gap_cover (gap_ok b) t (map g xs)"
    using Cons.prems(1) by (auto elim: gap_cover_consE)
  have "gap_cover (gap_ok b) t (map g (concat (map h xs)))" by (rule Cons.IH [OF s(3)]) (use Cons.prems(2) in simp)
  then have "gap_cover (gap_ok b) (g x @ t) (map g (h x) @ map g (concat (map h xs)))" using cover_append Cons.prems(2) [of x] by simp
  then show ?case using cover_prepend [OF _ s(2)] s(1) by simp
qed simp

text \<open>Finding and stripping.\<close>

lemma find_from_Some:
  assumes "find_from s pat pos = Some m"
  shows "pos \<le> m \<and> m + length pat \<le> length s \<and> take (length pat) (drop m s) = pat \<and>
    (\<forall>k. pos \<le> k \<longrightarrow> k < m \<longrightarrow> take (length pat) (drop k s) \<noteq> pat)"
proof -
  obtain j where j: "j < length [pos ..< length s - length pat + 1]" "take (length pat) (drop m s) = pat" "m = [pos ..< length s - length pat + 1] ! j"
    "\<forall>k < j. take (length pat) (drop ([pos ..< length s - length pat + 1] ! k) s) \<noteq> pat"
    using assms by (auto simp: find_from_def find_Some_iff)
  have m: "m = pos + j" "m < length s - length pat + 1" using j(1,3) by (auto simp del: upt_Suc)
  have "length pat \<le> length s - m" using arg_cong [OF j(2), of length] by simp
  then have "m + length pat \<le> length s" using m(2) by linarith
  moreover have "take (length pat) (drop k s) \<noteq> pat" if "pos \<le> k" "k < m" for k
  proof -
    have "[pos ..< length s - length pat + 1] ! (k - pos) = k" using that m(2) by (simp del: upt_Suc)
    moreover have "k - pos < j" using that m(1) by linarith
    ultimately show ?thesis using j(4) by metis
  qed
  ultimately show ?thesis using m(1) j(2) by simp
qed

lemma find_from_None: "find_from s pat pos = None \<Longrightarrow> pos \<le> k \<Longrightarrow> k + length pat \<le> length s \<Longrightarrow> take (length pat) (drop k s) \<noteq> pat"
  by (auto simp: find_from_def find_None_iff)

lemma sublist_position: "sublist pat (take n (drop off s)) \<Longrightarrow> off + n \<le> length s \<Longrightarrow>
    \<exists>k. off \<le> k \<and> k + length pat \<le> off + n \<and> take (length pat) (drop k s) = pat"
proof -
  assume "sublist pat (take n (drop off s))" "off + n \<le> length s"
  then obtain xs ys where e: "take n (drop off s) = xs @ pat @ ys" by (auto simp: sublist_def)
  have n: "n = length xs + length pat + length ys" using arg_cong [OF e, of length] \<open>off + n \<le> length s\<close> by simp
  have "drop off s = xs @ pat @ ys @ drop n (drop off s)" using e by (metis append.assoc append_take_drop_id)
  then have "drop (length xs) (drop off s) = pat @ ys @ drop n (drop off s)" by (metis append_eq_conv_conj)
  then have "take (length pat) (drop (off + length xs) s) = pat" by (simp add: add.commute)
  then show ?thesis using n by (intro exI [of _ "off + length xs"]) simp
qed

lemma strip_left_spaces: "strip_left raw off n \<le> n \<and> (\<forall>k. strip_left raw off n \<le> k \<and> k < n \<longrightarrow> is_space_char (raw ! (off + k)))"
  by (induction n) (auto simp: less_Suc_eq le_Suc_eq)

lemma strip_right_spaces: "strip_right raw off n = (o', l') \<Longrightarrow> off \<le> o' \<and> o' + l' = off + n \<and> (\<forall>k. off \<le> k \<and> k < o' \<longrightarrow> is_space_char (raw ! k))"
proof (induction n arbitrary: off)
  case (Suc n)
  show ?case
  proof (cases "is_space_char (raw ! off)")
    case True
    then have "off + 1 \<le> o' \<and> o' + l' = off + 1 + n \<and> (\<forall>k. off + 1 \<le> k \<and> k < o' \<longrightarrow> is_space_char (raw ! k))"
      using Suc.IH [of "off + 1"] Suc.prems by simp
    then show ?thesis using True by (metis Suc_eq_plus1 Suc_leD add_Suc add_Suc_right le_antisym not_less_eq_eq)
  next
    case False
    then have "o' = off \<and> l' = Suc n" using Suc.prems by simp
    then show ?thesis by auto
  qed
qed auto

definition shown :: "'s llama_vocab \<Rightarrow> bytes \<Rightarrow> fragment \<Rightarrow> bytes" where
  "shown v raw f = (case f of Frag_Token i \<Rightarrow> td_text (id_to_token v ! i) | Frag_Raw off len \<Rightarrow> take len (drop off raw))"

text \<open>\<open>piece_of raw off len pat f\<close>: \<open>f\<close> is the special token, or a part of the range in which \<open>pat\<close> does not occur.\<close>

definition part_ok :: "nat \<Rightarrow> bytes \<Rightarrow> bytes \<Rightarrow> nat \<Rightarrow> nat \<Rightarrow> fragment \<Rightarrow> bool" where
  "part_ok special_id pat raw off len f = (case f of Frag_Token i \<Rightarrow> i = special_id
     | Frag_Raw o' l' \<Rightarrow> 0 < l' \<and> off \<le> o' \<and> o' + l' \<le> off + len \<and> \<not> sublist pat (take l' (drop o' raw)))"

lemma part_ok_mono: "part_ok i pat raw off len f \<Longrightarrow> off' \<le> off \<Longrightarrow> off + len \<le> off' + len' \<Longrightarrow> part_ok i pat raw off' len' f"
  by (auto simp: part_ok_def split: fragment.splits)

lemma range_split: "off \<le> m \<Longrightarrow> m \<le> off + len \<Longrightarrow> take len (drop off s) = take (m - off) (drop off s) @ take (off + len - m) (drop m s)"
proof -
  assume "off \<le> m" "m \<le> off + len"
  then have "len = (m - off) + (off + len - m)" "drop m s = drop (m - off) (drop off s)" by simp_all
  then show ?thesis by (metis take_add)
qed

lemma range_spaces: "(\<And>k. off \<le> k \<Longrightarrow> k < off + n \<Longrightarrow> is_space_char (s ! k)) \<Longrightarrow> off + n \<le> length s \<Longrightarrow> list_all is_space_char (take n (drop off s))"
  by (auto simp: list_all_length)

text \<open>The text before the special token: what is kept and the spaces that go.\<close>

lemma left_part:
  assumes m: "off \<le> m" "m \<le> length raw" and keep: "keep = (if b then strip_left raw off (m - off) else m - off)"
  shows "gap_cover (gap_ok b) (take (m - off) (drop off raw)) (if m > off \<and> keep > 0 then [take keep (drop off raw)] else [])" "keep \<le> m - off"
proof -
  have k: "keep \<le> m - off" using keep strip_left_spaces [of raw off "m - off"] by (auto split: if_splits)
  then show "keep \<le> m - off" .
  let ?gap = "take (m - off - keep) (drop (off + keep) raw)"
  have split: "take (m - off) (drop off raw) = take keep (drop off raw) @ ?gap"
    using range_split [of off "off + keep" "m - off" raw] k m by (simp add: diff_diff_left)
  have "gap_ok b ?gap"
  proof (cases b)
    case True
    have "list_all is_space_char ?gap"
    proof (rule range_spaces)
      fix k
      assume "off + keep \<le> k" "k < off + keep + (m - off - keep)"
      then show "is_space_char (raw ! k)" using strip_left_spaces [of raw off "m - off"] keep True le_Suc_ex [of off k] by auto
    qed (use m k in simp)
    then show ?thesis using True by (simp add: gap_ok_def)
  qed (use keep in \<open>simp add: gap_ok_def\<close>)
  then have gap: "gap_cover (gap_ok b) ?gap []" by (rule no_fragment)
  have "gap_cover (gap_ok b) (take keep (drop off raw) @ ?gap) (if keep > 0 then [take keep (drop off raw)] else [])"
    using gap cover_append [OF cover_one gap] by auto
  moreover have "m > off" if "keep > 0" using k that by simp
  ultimately show "gap_cover (gap_ok b) (take (m - off) (drop off raw)) (if m > off \<and> keep > 0 then [take keep (drop off raw)] else [])"
    unfolding split [symmetric] by (auto split: if_splits)
qed

lemma split_fragment_step:
  "split_fragment d special_id raw off len = (case find_from (take (off + len) raw) (td_text d) off of
        None \<Rightarrow> Some (if len = 0 then [] else [Frag_Raw off len])
      | Some m \<Rightarrow>
          let left_len = (if td_attr d AND ATTR_LSTRIP \<noteq> 0 then strip_left raw off (m - off) else m - off);
              left = (if m > off \<and> left_len > 0 then [Frag_Raw off left_len] else []);
              stop = m + length (td_text d)
          in if stop < off + len then
               (let (right_off, right_len) = (if td_attr d AND ATTR_RSTRIP \<noteq> 0 then strip_right raw stop (off + len - stop)
                      else (stop, off + len - stop)) in
                map_option (\<lambda>rest. left @ Frag_Token special_id # rest) (split_fragment d special_id raw right_off right_len))
             else Some (left @ [Frag_Token special_id]))"
  by (subst split_fragment.simps) (auto simp: Let_def map_conv_bind_option comp_def split: option.splits prod.splits)

lemma cover_weaken: "gap_cover (gap_ok a) s fs \<Longrightarrow> (a \<Longrightarrow> b) \<Longrightarrow> gap_cover (gap_ok b) s fs"
  by (induction rule: gap_cover.induct) (auto intro!: gap_cover.intros simp: gap_ok_def)

lemma split_fragment_ok:
  assumes d: "td_text d \<noteq> []" and tok: "shown v raw (Frag_Token special_id) = td_text d"
    and strip: "td_attr d AND ATTR_LSTRIP \<noteq> 0 \<or> td_attr d AND ATTR_RSTRIP \<noteq> 0 \<Longrightarrow> strip"
  shows "off + len \<le> length raw \<Longrightarrow> \<exists>fs. split_fragment d special_id raw off len = Some fs \<and>
    gap_cover (gap_ok strip) (take len (drop off raw)) (map (shown v raw) fs) \<and> (\<forall>f \<in> set fs. part_ok special_id (td_text d) raw off len f)"
proof (induction len arbitrary: off rule: less_induct)
  case (less len)
  let ?pat = "td_text d" let ?s = "take (off + len) raw"
  have lens: "length ?s = off + len" using less.prems by simp
  have at: "take (length ?pat) (drop k ?s) = take (length ?pat) (drop k raw)" if "k + length ?pat \<le> off + len" for k
    using that by (simp add: drop_take min_def)
  show ?case
  proof (cases "find_from ?s ?pat off")
    case None
    have "\<not> sublist ?pat (take len (drop off raw))"
    proof
      assume "sublist ?pat (take len (drop off raw))"
      from sublist_position [OF this less.prems] obtain k where "off \<le> k" "k + length ?pat \<le> off + len" "take (length ?pat) (drop k raw) = ?pat" by blast
      then show False using find_from_None [OF None, of k] lens at [of k] less.prems by simp
    qed
    then have "part_ok special_id ?pat raw off len (Frag_Raw off len)" if "len \<noteq> 0" using that by (simp add: part_ok_def)
    then show ?thesis using None cover_one [of strip "take len (drop off raw)"] no_fragment [of "gap_ok strip" "[]"]
      by (subst split_fragment_step) (auto simp: shown_def)
  next
    case (Some m)
    note f = find_from_Some [OF Some, unfolded lens]
    let ?b = "td_attr d AND ATTR_LSTRIP \<noteq> 0" let ?stop = "m + length ?pat"
    define keep where "keep = (if ?b then strip_left raw off (m - off) else m - off)"
    let ?left = "if m > off \<and> keep > 0 then [Frag_Raw off keep] else []"
    have m: "off \<le> m" "m \<le> length raw" "?stop \<le> off + len" using f less.prems by auto
    have pat: "take (length ?pat) (drop m raw) = ?pat" using f at [of m] by simp
    note lp = left_part [OF m(1,2) keep_def]
    have left: "gap_cover (gap_ok strip) (take (m - off) (drop off raw)) (map (shown v raw) ?left)"
      using cover_weaken [OF lp(1), of strip] strip by (auto simp: shown_def)
    have left_ok: "\<forall>f \<in> set ?left. part_ok special_id ?pat raw off len f"
    proof -
      have "\<not> sublist ?pat (take keep (drop off raw))"
      proof
        assume "sublist ?pat (take keep (drop off raw))"
        moreover have "off + keep \<le> length raw" using lp(2) m by linarith
        ultimately obtain k where k: "off \<le> k" "k + length ?pat \<le> off + keep" "take (length ?pat) (drop k raw) = ?pat" using sublist_position by blast
        have "0 < length ?pat" using d by simp
        then have "k < m" using k(2) lp(2) m(1) by linarith
        then show False using f k at [of k] m(3) lp(2) by simp
      qed
      then show ?thesis using lp(2) m by (auto simp: part_ok_def)
    qed
    have token: "gap_cover (gap_ok strip) ?pat (map (shown v raw) [Frag_Token special_id])" using cover_one tok by simp
    have whole: "take len (drop off raw) = take (m - off) (drop off raw) @ ?pat @ take (off + len - ?stop) (drop ?stop raw)"
      using range_split [of off m len raw] range_split [of m ?stop "off + len - m" raw] m pat by simp
    have range: "part_ok special_id ?pat raw off len (Frag_Token special_id)" by (simp add: part_ok_def)
    show ?thesis
    proof (cases "?stop < off + len")
      case False
      then have "take len (drop off raw) = take (m - off) (drop off raw) @ ?pat" using whole by simp
      then have "gap_cover (gap_ok strip) (take len (drop off raw)) (map (shown v raw) (?left @ [Frag_Token special_id]))"
        using cover_append [OF left token] by simp
      moreover have "split_fragment d special_id raw off len = Some (?left @ [Frag_Token special_id])"
        using Some False by (subst split_fragment_step) (simp add: Let_def keep_def)
      ultimately show ?thesis using left_ok range by auto
    next
      case True
      obtain ro rl where r: "(if td_attr d AND ATTR_RSTRIP \<noteq> 0 then strip_right raw ?stop (off + len - ?stop) else (?stop, off + len - ?stop)) = (ro, rl)" by fastforce
      have ro: "?stop \<le> ro" "ro + rl = off + len" "\<And>k. ?stop \<le> k \<Longrightarrow> k < ro \<Longrightarrow> td_attr d AND ATTR_RSTRIP \<noteq> 0 \<and> is_space_char (raw ! k)"
        using r True strip_right_spaces [of raw ?stop "off + len - ?stop" ro rl] by (auto split: if_splits)
      have "0 < length ?pat" using d by simp
      then have "rl < len" using ro m by linarith
      then obtain rest where rest: "split_fragment d special_id raw ro rl = Some rest"
        "gap_cover (gap_ok strip) (take rl (drop ro raw)) (map (shown v raw) rest)" "\<forall>f \<in> set rest. part_ok special_id ?pat raw ro rl f"
        using less.IH [of rl ro] ro less.prems by auto
      have "gap_ok strip (take (ro - ?stop) (drop ?stop raw))"
      proof (cases "ro = ?stop")
        case False
        then have "strip" using ro(1) ro(3) [of ?stop] strip by auto
        moreover have "list_all is_space_char (take (ro - ?stop) (drop ?stop raw))"
          by (rule range_spaces) (use ro less.prems in auto)
        ultimately show ?thesis by (simp add: gap_ok_def)
      qed simp
      moreover have "take (off + len - ?stop) (drop ?stop raw) = take (ro - ?stop) (drop ?stop raw) @ take rl (drop ro raw)"
      proof -
        have "rl = off + len - ro" using ro(2) by simp
        then show ?thesis using range_split [of ?stop ro "off + len - ?stop" raw] ro(1,2) True by simp
      qed
      ultimately have "gap_cover (gap_ok strip) (take (off + len - ?stop) (drop ?stop raw)) (map (shown v raw) rest)"
        using cover_prepend [OF rest(2)] by simp
      then have "gap_cover (gap_ok strip) (take len (drop off raw)) (map (shown v raw) (?left @ Frag_Token special_id # rest))"
        using cover_append [OF left cover_append [OF token]] unfolding whole by fastforce
      moreover have "split_fragment d special_id raw off len = Some (?left @ Frag_Token special_id # rest)"
        using Some True r rest(1) by (subst split_fragment_step) (simp add: Let_def keep_def)
      moreover have "\<forall>f \<in> set rest. part_ok special_id ?pat raw off len f"
        using rest(3) part_ok_mono [of special_id ?pat raw ro rl _ off len] ro m by auto
      ultimately show ?thesis using left_ok range by auto
    qed
  qed
qed

text \<open>All fragments: \<open>buffer_ok v ids raw b\<close> says what holds when the special tokens \<open>ids\<close> have been looked for.\<close>

definition buffer_ok :: "'s llama_vocab \<Rightarrow> bool \<Rightarrow> nat set \<Rightarrow> bytes \<Rightarrow> fragment list \<Rightarrow> bool" where
  "buffer_ok v strip ids raw b \<longleftrightarrow> gap_cover (gap_ok strip) raw (map (shown v raw) b) \<and>
     (\<forall>f \<in> set b. case f of Frag_Token i \<Rightarrow> i \<in> ids
        | Frag_Raw off len \<Rightarrow> 0 < len \<and> off + len \<le> length raw \<and>
            (\<forall>i \<in> ids. \<not> sublist (td_text (id_to_token v ! i)) (take len (drop off raw))))"

lemma fold_append: "(\<And>x. x \<in> set xs \<Longrightarrow> g x \<noteq> None) \<Longrightarrow> (\<And>x acc. x \<in> set xs \<Longrightarrow> step x acc = map_option (\<lambda>r. acc @ r) (g x)) \<Longrightarrow>
    fold_opt step xs acc = Some (acc @ concat (map (\<lambda>x. the (g x)) xs))"
  by (induction xs arbitrary: acc) fastforce+

lemma part_sub: "off \<le> o' \<Longrightarrow> o' + l' \<le> off + len \<Longrightarrow> sublist (take l' (drop o' raw)) (take len (drop off raw))"
proof -
  assume a: "off \<le> o'" "o' + l' \<le> off + len"
  then have "take l' (drop o' raw) = take l' (drop (o' - off) (take len (drop off raw)))" by (simp add: drop_take min_def)
  then show ?thesis by (metis sublist_drop sublist_take sublist_order.order.trans)
qed

lemma split_buffer_ok:
  assumes b: "buffer_ok v strip ids raw b" and d: "d = id_to_token v ! special_id" "td_text d \<noteq> []"
    and strip: "td_attr d AND ATTR_LSTRIP \<noteq> 0 \<or> td_attr d AND ATTR_RSTRIP \<noteq> 0 \<Longrightarrow> strip"
  shows "\<exists>b'. split_all d special_id raw b = Some b' \<and> buffer_ok v strip (insert special_id ids) raw b'"
proof -
  let ?g = "\<lambda>f. case f of Frag_Token i \<Rightarrow> Some [f] | Frag_Raw off len \<Rightarrow> split_fragment d special_id raw off len"
  have tok: "shown v raw (Frag_Token special_id) = td_text d" by (simp add: shown_def d(1))
  note sf = split_fragment_ok [OF d(2) tok strip]
  have part: "\<exists>fs. ?g f = Some fs \<and> gap_cover (gap_ok strip) (shown v raw f) (map (shown v raw) fs) \<and>
      (\<forall>f \<in> set fs. case f of Frag_Token i \<Rightarrow> i \<in> insert special_id ids
        | Frag_Raw off len \<Rightarrow> 0 < len \<and> off + len \<le> length raw \<and>
            (\<forall>i \<in> insert special_id ids. \<not> sublist (td_text (id_to_token v ! i)) (take len (drop off raw))))" if f: "f \<in> set b" for f
  proof (cases f)
    case (Frag_Token i)
    then show ?thesis using b f cover_one by (auto simp: buffer_ok_def)
  next
    case (Frag_Raw off len)
    have r: "off + len \<le> length raw" "\<forall>i \<in> ids. \<not> sublist (td_text (id_to_token v ! i)) (take len (drop off raw))"
      using b f Frag_Raw by (auto simp: buffer_ok_def)
    obtain fs where fs: "split_fragment d special_id raw off len = Some fs" "gap_cover (gap_ok strip) (take len (drop off raw)) (map (shown v raw) fs)"
      "\<forall>f \<in> set fs. part_ok special_id (td_text d) raw off len f" using sf [OF _ r(1)] by blast
    have "case x of Frag_Token i \<Rightarrow> i \<in> insert special_id ids
        | Frag_Raw o' l' \<Rightarrow> 0 < l' \<and> o' + l' \<le> length raw \<and>
            (\<forall>i \<in> insert special_id ids. \<not> sublist (td_text (id_to_token v ! i)) (take l' (drop o' raw)))" if x: "x \<in> set fs" for x
    proof (cases x)
      case (Frag_Token i)
      then show ?thesis using fs(3) x by (auto simp: part_ok_def)
    next
      case raw': (Frag_Raw o' l')
      have p: "0 < l'" "off \<le> o'" "o' + l' \<le> off + len" "\<not> sublist (td_text d) (take l' (drop o' raw))" using fs(3) x raw' by (auto simp: part_ok_def)
      have "\<not> sublist (td_text (id_to_token v ! i)) (take l' (drop o' raw))" if "i \<in> ids" for i
        using r(2) that part_sub [OF p(2,3), of raw] sublist_order.order.trans by blast
      then show ?thesis using p r(1) raw' d(1) by auto
    qed
    then show ?thesis using fs Frag_Raw by (auto simp: shown_def)
  qed
  have "split_all d special_id raw b = Some ([] @ concat (map (\<lambda>f. the (?g f)) b))"
    unfolding split_all_def
  proof (rule fold_append)
    show "?g x \<noteq> None" if "x \<in> set b" for x using part [OF that] by blast
  qed (simp split: fragment.splits)
  moreover have "gap_cover (gap_ok strip) raw (map (shown v raw) (concat (map (\<lambda>f. the (?g f)) b)))"
  proof (rule cover_concat)
    show "gap_cover (gap_ok strip) raw (map (shown v raw) b)" using b by (simp add: buffer_ok_def)
    show "gap_cover (gap_ok strip) (shown v raw x) (map (shown v raw) (the (?g x)))" if "x \<in> set b" for x
      using part [OF that] by (metis option.sel)
  qed
  moreover have "case x of Frag_Token i \<Rightarrow> i \<in> insert special_id ids
        | Frag_Raw o' l' \<Rightarrow> 0 < l' \<and> o' + l' \<le> length raw \<and>
            (\<forall>i \<in> insert special_id ids. \<not> sublist (td_text (id_to_token v ! i)) (take l' (drop o' raw)))"
    if x: "x \<in> set (concat (map (\<lambda>f. the (?g f)) b))" for x
  proof -
    obtain f where f: "f \<in> set b" "x \<in> set (the (?g f))" using x by auto
    from part [OF f(1)] obtain fs where fs: "?g f = Some fs" "\<forall>f \<in> set fs. case f of Frag_Token i \<Rightarrow> i \<in> insert special_id ids
        | Frag_Raw off len \<Rightarrow> 0 < len \<and> off + len \<le> length raw \<and>
            (\<forall>i \<in> insert special_id ids. \<not> sublist (td_text (id_to_token v ! i)) (take len (drop off raw)))" by blast
    have "x \<in> set fs" using f(2) unfolding fs(1) by simp
    with fs(2) show ?thesis by (rule bspec)
  qed
  ultimately show ?thesis unfolding buffer_ok_def by auto
qed

definition strips :: "'s llama_vocab \<Rightarrow> bool" where
  "strips v \<longleftrightarrow> (\<exists>i \<in> set (cache_special_tokens v). td_attr (id_to_token v ! i) AND ATTR_LSTRIP \<noteq> 0 \<or> td_attr (id_to_token v ! i) AND ATTR_RSTRIP \<noteq> 0)"

definition looked_for :: "'s llama_vocab \<Rightarrow> bool \<Rightarrow> nat set" where
  "looked_for v parse_special = {i \<in> set (cache_special_tokens v). \<not> skipped parse_special (id_to_token v ! i)}"

lemma ball_tail: "\<forall>x \<in> set (y # ys). P x \<Longrightarrow> \<forall>x \<in> set ys. P x"
  by simp

lemma partition_fold:
  "\<forall>i \<in> set ids. (td_attr (id_to_token v ! i) AND ATTR_LSTRIP \<noteq> 0 \<or> td_attr (id_to_token v ! i) AND ATTR_RSTRIP \<noteq> 0) \<longrightarrow> strip \<Longrightarrow>
    \<forall>i \<in> set ids. i < n_tokens v \<and> td_text (id_to_token v ! i) \<noteq> [] \<Longrightarrow> buffer_ok v strip seen raw b \<Longrightarrow>
    \<exists>b'. fold_opt (\<lambda>special_id b. Option.bind (get_token_data v (int special_id)) (\<lambda>d.
       if skipped parse_special d then Some b else split_all d special_id raw b)) ids b = Some b' \<and>
      buffer_ok v strip (seen \<union> {i \<in> set ids. \<not> skipped parse_special (id_to_token v ! i)}) raw b'"
proof (induction ids arbitrary: b seen)
  case (Cons i ids)
  let ?d = "id_to_token v ! i"
  have d: "get_token_data v (int i) = Some ?d" "td_text ?d \<noteq> []" using Cons.prems(2) by (auto simp: get_token_data_def n_tokens_def)
  note IH = Cons.IH [OF ball_tail [OF Cons.prems(1)] ball_tail [OF Cons.prems(2)]]
  show ?case
  proof (cases "skipped parse_special ?d")
    case True
    then have "{j \<in> set (i # ids). \<not> skipped parse_special (id_to_token v ! j)} = {j \<in> set ids. \<not> skipped parse_special (id_to_token v ! j)}" by auto
    then show ?thesis using IH [OF Cons.prems(3)] d True by (simp del: list.set)
  next
    case False
    obtain b1 where b1: "split_all ?d i raw b = Some b1" "buffer_ok v strip (insert i seen) raw b1"
      using split_buffer_ok [OF Cons.prems(3) refl d(2)] Cons.prems(1) by auto
    obtain b' where "fold_opt (\<lambda>special_id b. Option.bind (get_token_data v (int special_id)) (\<lambda>d.
       if skipped parse_special d then Some b else split_all d special_id raw b)) ids b1 = Some b'"
      "buffer_ok v strip (insert i seen \<union> {i \<in> set ids. \<not> skipped parse_special (id_to_token v ! i)}) raw b'"
      using IH [OF b1(2)] by blast
    moreover have "insert i seen \<union> {i \<in> set ids. \<not> skipped parse_special (id_to_token v ! i)} =
        seen \<union> {j \<in> set (i # ids). \<not> skipped parse_special (id_to_token v ! j)}" using False by auto
    ultimately show ?thesis using d b1(1) False by (simp del: list.set)
  qed
qed simp

lemma partition_exact:
  assumes "\<forall>i \<in> set (cache_special_tokens v). i < n_tokens v \<and> td_text (id_to_token v ! i) \<noteq> []"
  shows "\<exists>fs. fragments v parse_special raw = Some fs \<and> gap_cover (gap_ok (strips v)) raw (map (shown v raw) fs) \<and>
    (\<forall>f \<in> set fs. case f of Frag_Token i \<Rightarrow> i \<in> looked_for v parse_special
       | Frag_Raw off len \<Rightarrow> 0 < len \<and> off + len \<le> length raw \<and>
           (\<forall>i \<in> looked_for v parse_special. \<not> sublist (td_text (id_to_token v ! i)) (take len (drop off raw))))"
proof (cases "raw = []")
  case True
  then show ?thesis using no_fragment [of "gap_ok (strips v)" "[]"] by (simp add: fragments_def)
next
  case False
  then have "buffer_ok v (strips v) {} raw [Frag_Raw 0 (length raw)]" using cover_one by (simp add: buffer_ok_def shown_def)
  from partition_fold [OF _ assms this, of parse_special] have "\<exists>b'. tokenizer_st_partition v parse_special raw [Frag_Raw 0 (length raw)] = Some b' \<and>
      buffer_ok v (strips v) (looked_for v parse_special) raw b'" by (auto simp: strips_def tokenizer_st_partition_def looked_for_def)
  then show ?thesis using False by (auto simp: fragments_def buffer_ok_def)
qed

text \<open>
  C20: the partition at special tokens ends and is exact: the fragments are the text, gaps are spaces that a strip
  attribute removes, and no special token that was looked for is left in the raw text.
\<close>

theorem special_tokens_partition:
  assumes "\<forall>i \<in> set (cache_special_tokens v). i < n_tokens v \<and> td_text (id_to_token v ! i) \<noteq> []"
  shows "\<exists>fs. fragments v parse_special raw = Some fs \<and> gap_cover (gap_ok (strips v)) raw (map (shown v raw) fs) \<and>
    (\<forall>f \<in> set fs. case f of Frag_Token i \<Rightarrow> i \<in> looked_for v parse_special
       | Frag_Raw off len \<Rightarrow> 0 < len \<and> off + len \<le> length raw \<and>
           (\<forall>i \<in> looked_for v parse_special. \<not> sublist (td_text (id_to_token v ! i)) (take len (drop off raw))))"
  using assms by (rule partition_exact)

subsection \<open>A prompt is given back\<close>

text \<open>Without stripping there are no gaps.\<close>

lemma cover_exact: "gap_cover (gap_ok False) s fs \<Longrightarrow> s = concat fs"
  by (induction rule: gap_cover.induct) (simp_all add: gap_ok_def)

lemma shown_append:
  assumes "shown_pieces v special 0 xs = Some ps" "shown_pieces v special 0 ys = Some qs"
  shows "shown_pieces v special 0 (xs @ ys) = Some (ps @ qs)"
  using assms(1) by (induction xs arbitrary: ps) (auto simp: assms(2) bind_eq_Some_conv)

text \<open>
  What a text fragment must be for the tokenizer to give it back: valid UTF-8 whose bytes all have a plain
  token, split successfully, and no word of it that is taken whole (\<open>ignore_merges\<close>) is a special token.
\<close>

definition good_text :: "unicode_data \<Rightarrow> regex_lib \<Rightarrow> 's llama_vocab \<Rightarrow> bytes \<Rightarrow> bool" where
  "good_text d rx v t \<longleftrightarrow> unicode_cpts_to_utf8 (unicode_cpts_from_utf8 t) = Inr t \<and> (\<forall>b \<in> set t. plain_token v (byte_char b)) \<and>
     (\<exists>offsets. split_offsets d rx t (regex_exprs v) [length (unicode_cpts_from_utf8 t)] = Inr offsets) \<and>
     (\<forall>ws. unicode_regex_split d rx t (regex_exprs v) = Inr ws \<longrightarrow>
        (\<forall>w \<in> set ws. ignore_merges v \<and> token_to_id v w \<noteq> None \<longrightarrow> plain_token v w))"

lemma special_shown:
  assumes "v_type v = VOCAB_BPE" "pieces_ready v" "i < n_tokens v"
    "td_attr (id_to_token v ! i) AND (ATTR_UNKNOWN OR ATTR_CONTROL OR ATTR_USER_DEFINED) \<noteq> 0"
  shows "shown_piece v 0 True (int i) = Some (td_text (id_to_token v ! i))"
  unfolding ready_shown [OF assms(2)]
  using assms(1,3,4) by (auto simp: shown_piece_def token_get_attr_def get_token_data_def n_tokens_def piece_text_def Let_def)

text \<open>
  C4: a prompt is given back.  Take a byte-level BPE vocabulary with the piece cache as \<open>load\<close> builds it (or empty),
  no space prefix, no special token that strips spaces, all special tokens of a special kind, and every merge result
  a plain token; and a prompt whose raw fragments are good texts (\<open>good_text\<close>), with a regex library as documented.
  Then \<open>tokenize\<close> succeeds and \<open>detokenize\<close> with room for the prompt, special tokens shown, returns the prompt byte
  for byte when the vocabulary does not clean up spaces, and what the clean-up makes of the prompt when it does.
\<close>

theorem prompt_round_trip:
  assumes v: "v_type v = VOCAB_BPE" "pieces_ready v" "\<not> add_space_prefix v" "\<not> strips v"
    and ranks: "\<forall>l r. bpe_ranks v (l, r) \<noteq> None \<longrightarrow> plain_token v (l @ r)"
    and special: "\<forall>i \<in> set (cache_special_tokens v). i < n_tokens v \<and> td_text (id_to_token v ! i) \<noteq> [] \<and>
      td_attr (id_to_token v ! i) AND (ATTR_UNKNOWN OR ATTR_CONTROL OR ATTR_USER_DEFINED) \<noteq> 0"
    and rx: "regex_documented rx"
    and frags: "fragments v parse_special raw = Some fs" "\<forall>f \<in> set fs. case f of Frag_Raw off len \<Rightarrow> good_text d rx v (take len (drop off raw)) | _ \<Rightarrow> True"
    and room: "int (length raw) \<le> text_len_max"
  shows "\<exists>toks. tokenize_bpe d rx v raw False parse_special = Some toks \<and>
    detokenize v toks text_len_max False True =
      (if clean_spaces v then Some (int (length (clean_up raw)), clean_up raw) else Some (int (length raw), raw))"
proof -
  have cover: "gap_cover (gap_ok (strips v)) raw (map (shown v raw) fs)"
    and tokens: "\<forall>f \<in> set fs. case f of Frag_Token i \<Rightarrow> i \<in> set (cache_special_tokens v) | _ \<Rightarrow> True"
  proof -
    obtain b where "fragments v parse_special raw = Some b" "gap_cover (gap_ok (strips v)) raw (map (shown v raw) b)"
      "\<forall>f \<in> set b. case f of Frag_Token i \<Rightarrow> i \<in> looked_for v parse_special | _ \<Rightarrow> True"
      using partition_exact [of v parse_special raw] special by (force split: fragment.splits)
    then show "gap_cover (gap_ok (strips v)) raw (map (shown v raw) fs)"
      "\<forall>f \<in> set fs. case f of Frag_Token i \<Rightarrow> i \<in> set (cache_special_tokens v) | _ \<Rightarrow> True"
      using frags(1) by (auto simp: looked_for_def split: fragment.splits)
  qed
  have all: "\<exists>toks bss. fold_opt (bpe_fragment d rx v raw) gs out = Some (out @ toks) \<and> shown_pieces v True 0 toks = Some bss \<and>
      concat bss = concat (map (shown v raw) gs)" if "set gs \<subseteq> set fs" for gs out
    using that
  proof (induction gs arbitrary: out)
    case (Cons f gs)
    have one: "\<exists>toks bss. bpe_fragment d rx v raw f out = Some (out @ toks) \<and> shown_pieces v True 0 toks = Some bss \<and> concat bss = shown v raw f"
    proof (cases f)
      case (Frag_Token i)
      then have "i \<in> set (cache_special_tokens v)" using tokens Cons.prems by fastforce
      then have "shown_piece v 0 True (int i) = Some (td_text (id_to_token v ! i))" using special_shown [OF v(1,2)] special by blast
      then show ?thesis using Frag_Token by (intro exI [of _ "[int i]"] exI [of _ "[td_text (id_to_token v ! i)]"]) (simp add: bpe_fragment_def shown_def)
    next
      case (Frag_Raw off len)
      then have "good_text d rx v (take len (drop off raw))" using frags(2) Cons.prems by fastforce
      then obtain offsets where g: "split_offsets d rx (take len (drop off raw)) (regex_exprs v) [length (unicode_cpts_from_utf8 (take len (drop off raw)))] = Inr offsets"
        "unicode_cpts_to_utf8 (unicode_cpts_from_utf8 (take len (drop off raw))) = Inr (take len (drop off raw))"
        "\<forall>b \<in> set (take len (drop off raw)). plain_token v (byte_char b)"
        "\<forall>ws. unicode_regex_split d rx (take len (drop off raw)) (regex_exprs v) = Inr ws \<longrightarrow>
          (\<forall>w \<in> set ws. ignore_merges v \<and> token_to_id v w \<noteq> None \<longrightarrow> plain_token v w)" unfolding good_text_def by blast
      show ?thesis using bpe_text_shown [where out = out and special = True, OF v(1,2) ranks rx g] Frag_Raw
        by (auto simp: bpe_fragment_def shown_def)
    qed
    then obtain toks bss where t: "bpe_fragment d rx v raw f out = Some (out @ toks)" "shown_pieces v True 0 toks = Some bss" "concat bss = shown v raw f" by blast
    obtain toks' bss' where "fold_opt (bpe_fragment d rx v raw) gs (out @ toks) = Some ((out @ toks) @ toks')" "shown_pieces v True 0 toks' = Some bss'"
      "concat bss' = concat (map (shown v raw) gs)" using Cons.IH [of "out @ toks"] Cons.prems by auto
    then show ?case using t shown_append [OF t(2)] by (intro exI [of _ "toks @ toks'"] exI [of _ "bss @ bss'"]) simp
  qed (auto intro: exI [of _ "[]"])
  obtain toks bss where "fold_opt (bpe_fragment d rx v raw) fs [] = Some toks" "shown_pieces v True 0 toks = Some bss" "concat bss = raw"
    using all [of fs "[]"] cover_exact cover v(4) by fastforce
  then show ?thesis using frags(1) detokenize_shown [of v True toks bss text_len_max] v(3) room by (auto simp: tokenize_bpe_def Let_def)
qed

text \<open>A small vocabulary with a control token, and the same with the cache of pieces.\<close>

definition small_prompt :: "int llama_vocab" where
  "small_prompt = small_bpe\<lparr>token_to_id := (token_to_id small_bpe)([0x7C] \<mapsto> 3),
     id_to_token := id_to_token small_bpe @ [\<lparr>td_text = [0x7C], td_score = 0, td_attr = ATTR_CONTROL\<rparr>], cache_special_tokens := [3]\<rparr>"

lemma small_prompt_fragments: "fragments small_prompt True [0x68, 0x69, 0x7C, 0x68] = Some [Frag_Raw 0 2, Frag_Token 3, Frag_Raw 3 1]"
proof -
  have d: "get_token_data small_prompt 3 = Some \<lparr>td_text = [0x7C], td_score = 0, td_attr = ATTR_CONTROL\<rparr>"
    by (simp add: get_token_data_def small_prompt_def small_bpe_def)
  have "find_from [0x68, 0x69, 0x7C, 0x68] [0x7C] 0 = Some 2" "find_from [0x68, 0x69, 0x7C, 0x68] [0x7C] 3 = None"
    by (simp_all add: find_from_def upt_conv_Cons)
  then have "split_fragment \<lparr>td_text = [0x7C], td_score = 0 :: int, td_attr = ATTR_CONTROL\<rparr> 3 [0x68, 0x69, 0x7C, 0x68] 0 4 = Some [Frag_Raw 0 2, Frag_Token 3, Frag_Raw 3 1]"
    by (simp add: split_fragment_step [of _ _ _ 0] split_fragment_step [of _ _ _ 3] Let_def)
  then have "split_all \<lparr>td_text = [0x7C], td_score = 0 :: int, td_attr = ATTR_CONTROL\<rparr> 3 [0x68, 0x69, 0x7C, 0x68] [Frag_Raw 0 4] =
      Some [Frag_Raw 0 2, Frag_Token 3, Frag_Raw 3 1]" by (simp add: split_all_def)
  moreover have "length [0x68 :: u8, 0x69, 0x7C, 0x68] = 4" by simp
  moreover have "cache_special_tokens small_prompt = [3]" by (simp add: small_prompt_def)
  ultimately show ?thesis using d unfolding fragments_def tokenizer_st_partition_def by (simp del: list.size add: skipped_def)
qed

definition small_loaded :: "int llama_vocab" where
  "small_loaded = small_prompt\<lparr>cache_token_to_piece := [[0x68], [0x69], [0x68, 0x69], [0x7C]]\<rparr>"

lemma small_prompt_plain: "plain_token small_prompt [0x68]" "plain_token small_prompt [0x69]" "plain_token small_prompt [0x68, 0x69]"
  by (simp_all add: plain_token_def small_prompt_def small_bpe_def n_tokens_def)

lemma small_good:
  assumes "unicode_cpts_to_utf8 cs = Inr t" "cs \<noteq> []" "\<forall>b \<in> set t. b \<in> {0x68, 0x69}"
  shows "good_text no_data no_regex small_prompt t"
proof -
  have c: "unicode_cpts_from_utf8 t = cs" by (rule cpts_round_trip [OF assms(1)])
  have "\<forall>b \<in> set t. plain_token small_prompt (byte_char b)" using assms(3) small_chars small_prompt_plain(1,2) by auto
  then show ?thesis using gpt2_split_succeeds [of t no_data no_regex] assms(1,2) c
    by (simp add: good_text_def small_prompt_def small_bpe_def)
qed

theorem special_tokens_partition_witness:
  "\<exists>fs. fragments small_prompt True [0x68, 0x69, 0x7C, 0x68] = Some fs \<and>
     gap_cover (gap_ok (strips small_prompt)) [0x68, 0x69, 0x7C, 0x68] (map (shown small_prompt [0x68, 0x69, 0x7C, 0x68]) fs)"
proof -
  have "\<forall>i \<in> set (cache_special_tokens small_prompt). i < n_tokens small_prompt \<and> td_text (id_to_token small_prompt ! i) \<noteq> []"
    by (simp add: small_prompt_def small_bpe_def n_tokens_def)
  from special_tokens_partition [OF this, of True "[0x68, 0x69, 0x7C, 0x68]"] show ?thesis by blast
qed

lemma small_loaded_ready: "pieces_ready small_loaded"
proof -
  have v: "v_type small_prompt = VOCAB_BPE" "cache_token_to_piece small_prompt = []" "pieces_ready small_prompt"
    by (simp_all add: small_prompt_def small_bpe_def pieces_ready_def)
  have t: "text_to_token small_prompt [0x68] = 0" "text_to_token small_prompt [0x69] = 1" "text_to_token small_prompt [0x68, 0x69] = 2"
    by (simp_all add: text_to_token_def small_prompt_def small_bpe_def)
  have p: "shown_piece small_prompt 0 True 0 = Some [0x68]" "shown_piece small_prompt 0 True 1 = Some [0x69]"
    "shown_piece small_prompt 0 True 2 = Some [0x68, 0x69]"
    using plain_shown [OF v(1,3), of "[0x68]" True] plain_shown [OF v(1,3), of "[0x69]" True]
      plain_shown [OF v(1,3), of "[0x68, 0x69]" True] small_prompt_plain by (simp_all add: small_chars t)
  have "shown_piece small_prompt 0 True (int 3) = Some (td_text (id_to_token small_prompt ! 3))"
    by (rule special_shown [OF v(1,3)]) (simp_all add: small_prompt_def small_bpe_def n_tokens_def)
  then have q: "shown_piece small_prompt 0 True 3 = Some [0x7C]" by (simp add: small_prompt_def small_bpe_def)
  have "n_tokens small_prompt = Suc (Suc (Suc (Suc 0)))" by (simp add: n_tokens_def small_prompt_def small_bpe_def)
  then have "build_piece_cache 15 small_prompt = Some small_loaded"
    by (simp add: build_piece_cache_def for_cache_piece fold_opt_collect_pieces p q upt_conv_Cons small_loaded_def)
  then show ?thesis using v(2) by (auto simp: pieces_ready_def)
qed

lemma loaded_same:
  "fragments small_loaded parse_special raw = fragments small_prompt parse_special raw"
  "plain_token small_loaded t = plain_token small_prompt t"
  "good_text d rx small_loaded t = good_text d rx small_prompt t"
proof -
  have i: "id_to_token small_loaded = id_to_token small_prompt" "cache_special_tokens small_loaded = cache_special_tokens small_prompt"
    by (simp_all add: small_loaded_def)
  show p: "plain_token small_loaded t = plain_token small_prompt t" for t
    by (simp add: plain_token_def small_loaded_def n_tokens_def cong: option.case_cong)
  show "fragments small_loaded parse_special raw = fragments small_prompt parse_special raw"
    by (simp add: fragments_def tokenizer_st_partition_def get_token_data_def i cong: if_cong)
  show "good_text d rx small_loaded t = good_text d rx small_prompt t"
    unfolding good_text_def p by (simp add: small_loaded_def)
qed

theorem prompt_round_trip_witness:
  "\<exists>toks. tokenize_bpe no_data no_regex small_loaded [0x68, 0x69, 0x7C, 0x68] False True = Some toks \<and>
     detokenize small_loaded toks 4 False True = Some (4, [0x68, 0x69, 0x7C, 0x68])"
proof -
  have ranks: "\<forall>l r. bpe_ranks small_loaded (l, r) \<noteq> None \<longrightarrow> plain_token small_loaded (l @ r)"
    using small_prompt_plain(3) unfolding loaded_same by (simp add: small_loaded_def small_prompt_def small_bpe_def split: if_splits)
  have "good_text no_data no_regex small_prompt [0x68, 0x69]" by (rule small_good [of "[0x68, 0x69]"]) (simp_all add: unicode_cpt_to_utf8_def)
  moreover have "good_text no_data no_regex small_prompt [0x68]" by (rule small_good [of "[0x68]"]) (simp_all add: unicode_cpt_to_utf8_def)
  ultimately have good: "\<forall>f \<in> set [Frag_Raw 0 2, Frag_Token 3, Frag_Raw 3 1]. case f of
      Frag_Raw off len \<Rightarrow> good_text no_data no_regex small_loaded (take len (drop off [0x68, 0x69, 0x7C, 0x68])) | _ \<Rightarrow> True"
    by (simp add: loaded_same)
  have "\<exists>toks. tokenize_bpe no_data no_regex small_loaded [0x68, 0x69, 0x7C, 0x68] False True = Some toks \<and>
     detokenize small_loaded toks 4 False True = (if clean_spaces small_loaded
       then Some (int (length (clean_up [0x68, 0x69, 0x7C, 0x68])), clean_up [0x68, 0x69, 0x7C, 0x68])
       else Some (int (length [0x68 :: u8, 0x69, 0x7C, 0x68]), [0x68, 0x69, 0x7C, 0x68]))"
    by (rule prompt_round_trip [OF _ small_loaded_ready _ _ ranks _ no_regex_documented
          small_prompt_fragments [folded loaded_same(1)] good])
      (simp_all add: small_loaded_def small_prompt_def small_bpe_def strips_def n_tokens_def)
  moreover have "\<not> clean_spaces small_loaded" by (simp add: small_loaded_def small_prompt_def small_bpe_def)
  ultimately show ?thesis by simp
qed

end
