(* ===== verification/Sparse_Mm.thy ===== *)
theory Sparse_Mm
  imports Prelude
begin

text \<open>
  The sparse matrix product of the CPU (\<open>ggml_compute_forward_mul_mat_sparse\<close> of \<open>ggml.c\<close>), the kernel
  that makes PowerInfer skip neurons.  Its workers run at the same time and take chunks of rows from one
  atomic counter.  A schedule is the list of the workers in the order in which they make their steps, so
  every interleaving is a list.  Loop counters are \<open>int64_t\<close> and the counter is an \<open>int\<close>; both stay below
  \<open>nr0 + (n_th + 1) * dr0\<close> and are modelled as \<open>nat\<close>.  \<open>vec_dot\<close> is the function that
  \<open>type_traits\<close> selects for the type of the weights.
\<close>

subsection \<open>Operands\<close>

text \<open>\<open>w_row i02 i03 ir0\<close> is a row of \<open>src0\<close>, \<open>x_col j\<close> column \<open>j\<close> of the converted \<open>src1\<close>, \<open>mm_pred\<close> the
  output of the predictor (\<open>src[2]\<close>) by column and neuron, \<open>gid\<close> the neurons that are on the GPU
  (\<open>src[3]\<close>).\<close>

record ('r, 'x, 'f) sparse_op =
  ne01 :: nat
  ne02 :: nat
  ne03 :: nat
  ne11 :: nat
  ne12 :: nat
  ne13 :: nat
  w_row :: "nat \<Rightarrow> nat \<Rightarrow> nat \<Rightarrow> 'r"
  x_col :: "nat \<Rightarrow> 'x"
  mm_pred :: "nat \<Rightarrow> nat \<Rightarrow> 'f"
  gid :: "nat \<Rightarrow> int"
  threshold :: 'f

definition nr0 :: "('r, 'x, 'f) sparse_op \<Rightarrow> nat" where "nr0 p = ne01 p"
definition nr1 :: "('r, 'x, 'f) sparse_op \<Rightarrow> nat" where "nr1 p = ne11 p * ne12 p * ne13 p"

subsection \<open>The share of a worker\<close>

definition nth0 :: "('r, 'x, 'f) sparse_op \<Rightarrow> nat \<Rightarrow> nat" where
  "nth0 p n_th = (if nr0 p > nr1 p then n_th else 1)"

definition nth1 :: "('r, 'x, 'f) sparse_op \<Rightarrow> nat \<Rightarrow> nat" where
  "nth1 p n_th = (if nr0 p > nr1 p then 1 else n_th)"

definition dr0 :: "('r, 'x, 'f) sparse_op \<Rightarrow> nat \<Rightarrow> nat" where
  "dr0 p n_th = (nr0 p + 8 * nth0 p n_th - 1) div (8 * nth0 p n_th)"

definition dr1 :: "('r, 'x, 'f) sparse_op \<Rightarrow> nat \<Rightarrow> nat" where
  "dr1 p n_th = (nr1 p + nth1 p n_th - 1) div nth1 p n_th"

definition ir110 :: "('r, 'x, 'f) sparse_op \<Rightarrow> nat \<Rightarrow> nat \<Rightarrow> nat" where
  "ir110 p n_th ith = dr1 p n_th * (ith div nth0 p n_th)"

definition ir111 :: "('r, 'x, 'f) sparse_op \<Rightarrow> nat \<Rightarrow> nat \<Rightarrow> nat" where
  "ir111 p n_th ith = min (ir110 p n_th ith + dr1 p n_th) (nr1 p)"

subsection \<open>One cell, one row\<close>

text \<open>A cell of \<open>dst\<close> is addressed by \<open>i1\<close>, \<open>i2\<close>, \<open>i3\<close> and the row.\<close>

type_synonym cell = "nat \<times> nat \<times> nat \<times> nat"

definition cell_of :: "('r, 'x, 'f) sparse_op \<Rightarrow> nat \<Rightarrow> nat \<Rightarrow> cell" where
  "cell_of p ir0 ir1 =
     (let i13 = ir1 div (ne12 p * ne11 p);
          i12 = (ir1 - i13 * ne12 p * ne11 p) div ne11 p;
          i11 = ir1 - i13 * ne12 p * ne11 p - i12 * ne11 p
      in (i11, i12, i13, ir0))"

definition cell_value :: "('r \<Rightarrow> 'x \<Rightarrow> 'f) \<Rightarrow> ('r, 'x, 'f :: {zero, ord}) sparse_op \<Rightarrow> cell \<Rightarrow> 'f" where
  "cell_value vec_dot p c =
     (case c of (i11, i12, i13, ir0) \<Rightarrow>
        let i03 = i13 div (ne13 p div ne03 p); i02 = i12 div (ne12 p div ne02 p);
            col = i11 + i12 * ne11 p + i13 * ne12 p * ne11 p
        in if gid p ir0 = 1 \<or> mm_pred p col ir0 < threshold p then 0
           else vec_dot (w_row p i02 i03 ir0) (x_col p col))"

definition blck_1 :: nat where "blck_1 = 16"

definition tile_starts :: "nat \<Rightarrow> nat \<Rightarrow> nat list" where
  "tile_starts a b = map (\<lambda>k. a + k * blck_1) [0 ..< (b - a + blck_1 - 1) div blck_1]"

definition do_tile :: "('r \<Rightarrow> 'x \<Rightarrow> 'f) \<Rightarrow> ('r, 'x, 'f :: {zero, ord}) sparse_op \<Rightarrow> nat \<Rightarrow> nat \<Rightarrow> nat \<Rightarrow> (cell \<Rightarrow> 'f) \<Rightarrow> cell \<Rightarrow> 'f" where
  "do_tile vec_dot p e ir0 iir1 dst =
     (if ir0 > nr0 p then dst
      else fold (\<lambda>ir1 dst. dst(cell_of p ir0 ir1 := cell_value vec_dot p (cell_of p ir0 ir1))) [iir1 ..< min (iir1 + blck_1) e] dst)"

definition do_row :: "('r \<Rightarrow> 'x \<Rightarrow> 'f) \<Rightarrow> ('r, 'x, 'f :: {zero, ord}) sparse_op \<Rightarrow> nat \<Rightarrow> nat \<Rightarrow> nat \<Rightarrow> (cell \<Rightarrow> 'f) \<Rightarrow> cell \<Rightarrow> 'f" where
  "do_row vec_dot p a e ir0 dst = fold (do_tile vec_dot p e ir0) (tile_starts a e) dst"

subsection \<open>Workers\<close>

text \<open>\<open>Rows a i e\<close>: the worker holds the chunk that starts at \<open>ir010 = a\<close> and ends at \<open>ir011 = e\<close>, and is at
  row \<open>i\<close>.\<close>

datatype worker = Fetch | Rows nat nat nat | Finished

record 'f mm_state =
  aic :: nat
  workers :: "worker list"
  dst :: "cell \<Rightarrow> 'f"

definition worker_step :: "('r \<Rightarrow> 'x \<Rightarrow> 'f) \<Rightarrow> ('r, 'x, 'f :: {zero, ord}) sparse_op \<Rightarrow> nat \<Rightarrow> nat \<Rightarrow> 'f mm_state \<Rightarrow> 'f mm_state option" where
  "worker_step vec_dot p n_th t s =
     (if \<not> t < length (workers s) then None
      else case workers s ! t of
        Fetch \<Rightarrow> Some (s\<lparr>aic := aic s + dr0 p n_th,
            workers := (workers s)[t := Rows (aic s) (aic s) (min (aic s + dr0 p n_th) (nr0 p))]\<rparr>)
      | Rows a i e \<Rightarrow>
          if i < e then Some (s\<lparr>workers := (workers s)[t := Rows a (Suc i) e],
            dst := do_row vec_dot p (ir110 p n_th t) (ir111 p n_th t) i (dst s)\<rparr>)
          else if a + dr0 p n_th \<ge> nr0 p then Some (s\<lparr>workers := (workers s)[t := Finished]\<rparr>)
          else Some (s\<lparr>workers := (workers s)[t := Fetch]\<rparr>)
      | Finished \<Rightarrow> None)"

text \<open>\<open>GGML_TASK_INIT\<close> resets the counter; it does not clear \<open>dst\<close>.\<close>

definition mm_init :: "nat \<Rightarrow> (cell \<Rightarrow> 'f) \<Rightarrow> 'f mm_state" where
  "mm_init n_th d = \<lparr>aic = 0, workers = replicate n_th Fetch, dst = d\<rparr>"

definition mm_run :: "('r \<Rightarrow> 'x \<Rightarrow> 'f) \<Rightarrow> ('r, 'x, 'f :: {zero, ord}) sparse_op \<Rightarrow> nat \<Rightarrow> nat list \<Rightarrow> (cell \<Rightarrow> 'f) \<Rightarrow> 'f mm_state option" where
  "mm_run vec_dot p n_th sched d = fold_opt (worker_step vec_dot p n_th) sched (mm_init n_th d)"

definition mm_finished :: "'f mm_state \<Rightarrow> bool" where
  "mm_finished s = list_all (\<lambda>w. w = Finished) (workers s)"

subsection \<open>Cells and rows\<close>

definition row_of :: "cell \<Rightarrow> nat" where "row_of k = snd (snd (snd k))"

lemma cell_col:
  assumes "cell_of p r c = (i11, i12, i13, l)"
  shows "i11 + i12 * ne11 p + i13 * ne12 p * ne11 p = c" "l = r"
proof -
  define q where "q = c div (ne12 p * ne11 p) * ne12 p * ne11 p"
  define u where "u = (c - q) div ne11 p * ne11 p"
  have 1: "q \<le> c" unfolding q_def mult.assoc by simp
  have 2: "u \<le> c - q" unfolding u_def by simp
  have "i11 = c - q - u" "i12 * ne11 p = u" "i13 * ne12 p * ne11 p = q" "l = r"
    using assms by (auto simp: cell_of_def Let_def q_def u_def)
  then show "i11 + i12 * ne11 p + i13 * ne12 p * ne11 p = c" "l = r" using 1 2 by simp_all
qed

lemma cell_of_eq_iff [simp]: "cell_of p r c = cell_of p r' c' \<longleftrightarrow> r = r' \<and> c = c'"
proof
  assume e: "cell_of p r c = cell_of p r' c'"
  obtain i j k l where k: "cell_of p r c = (i, j, k, l)" by (cases "cell_of p r c")
  show "r = r' \<and> c = c'" using cell_col [OF k] cell_col [OF k [unfolded e]] by simp
qed simp

lemma row_of_cell [simp]: "row_of (cell_of p r c) = r"
  by (simp add: row_of_def cell_of_def Let_def)

lemma fold_writes:
  "fold (\<lambda>x d. d(f x := g (f x))) xs d = (\<lambda>k. if k \<in> f ` set xs then g k else d k)"
  by (induction xs arbitrary: d) (auto simp: fun_eq_iff)

lemma tile_starts_cover:
  "(\<Union>s\<in>set (tile_starts a b). {s ..< min (s + blck_1) b}) = {a ..< b}"
proof -
  have "\<exists>k < (b - a + blck_1 - 1) div blck_1. a + k * blck_1 \<le> x \<and> x < a + k * blck_1 + blck_1" if "a \<le> x" "x < b" for x
  proof (intro exI conjI)
    let ?k = "(x - a) div blck_1"
    have pos: "0 < blck_1" by (simp add: blck_1_def)
    have m: "?k * blck_1 + (x - a) mod blck_1 = x - a" by simp
    show "a + ?k * blck_1 \<le> x" using m that by linarith
    show "x < a + ?k * blck_1 + blck_1" using m that mod_less_divisor [OF pos, of "x - a"] by linarith
    have "?k \<le> (b - a - 1) div blck_1" using that by (intro div_le_mono) linarith
    also have "\<dots> < (b - a - 1) div blck_1 + 1" by simp
    also have "\<dots> = (b - a + blck_1 - 1) div blck_1"
      using that pos by (simp add: blck_1_def)
    finally show "?k < (b - a + blck_1 - 1) div blck_1" .
  qed
  then show ?thesis by (auto simp: tile_starts_def Bex_def)
qed

lemma do_row_eq:
  assumes "ir0 \<le> nr0 p"
  shows "do_row vec_dot p a e ir0 d = (\<lambda>k. if k \<in> cell_of p ir0 ` {a ..< e} then cell_value vec_dot p k else d k)"
proof -
  have tile: "do_tile vec_dot p e ir0 st d = (\<lambda>k. if k \<in> cell_of p ir0 ` {st ..< min (st + blck_1) e} then cell_value vec_dot p k else d k)" for st d
    using assms by (simp add: do_tile_def fold_writes)
  have "fold (do_tile vec_dot p e ir0) xs d =
      (\<lambda>k. if k \<in> cell_of p ir0 ` (\<Union>s\<in>set xs. {s ..< min (s + blck_1) e}) then cell_value vec_dot p k else d k)" for xs
    by (induction xs arbitrary: d) (auto simp: tile fun_eq_iff image_iff)
  then show ?thesis by (simp add: do_row_def tile_starts_cover)
qed

subsection \<open>What the workers keep\<close>

text \<open>\<open>pending ws r\<close>: some worker holds row \<open>r\<close> and has not computed it yet.  A row below the counter that
  is not pending has been computed by one worker, on the columns of that worker; every other row of
  \<open>dst\<close> is as it was.\<close>

fun holds :: "worker \<Rightarrow> nat \<Rightarrow> bool" where
  "holds (Rows a i e) r = (i \<le> r \<and> r < e)"
| "holds w r = False"

definition pending :: "worker list \<Rightarrow> nat \<Rightarrow> bool" where
  "pending ws r \<longleftrightarrow> (\<exists>t < length ws. holds (ws ! t) r)"

definition share :: "('r \<Rightarrow> 'x \<Rightarrow> 'f) \<Rightarrow> ('r, 'x, 'f :: {zero, ord}) sparse_op \<Rightarrow> nat \<Rightarrow> nat \<Rightarrow> (cell \<Rightarrow> 'f) \<Rightarrow> cell \<Rightarrow> 'f" where
  "share vec_dot p n_th t d k =
     (if k \<in> cell_of p (row_of k) ` {ir110 p n_th t ..< ir111 p n_th t} then cell_value vec_dot p k else d k)"

definition computed :: "('r, 'x, 'f) sparse_op \<Rightarrow> 'f mm_state \<Rightarrow> nat \<Rightarrow> bool" where
  "computed p s r \<longleftrightarrow> r < nr0 p \<and> r < aic s \<and> \<not> pending (workers s) r"

definition rows_kept :: "('r \<Rightarrow> 'x \<Rightarrow> 'f) \<Rightarrow> ('r, 'x, 'f :: {zero, ord}) sparse_op \<Rightarrow> nat \<Rightarrow> (cell \<Rightarrow> 'f) \<Rightarrow> 'f mm_state \<Rightarrow> bool" where
  "rows_kept vec_dot p n_th d s \<longleftrightarrow>
     (\<forall>r. if computed p s r
          then \<exists>t < n_th. \<forall>k. row_of k = r \<longrightarrow> dst s k = share vec_dot p n_th t d k
          else \<forall>k. row_of k = r \<longrightarrow> dst s k = d k)"

definition worker_ok :: "('r, 'x, 'f) sparse_op \<Rightarrow> nat \<Rightarrow> nat \<Rightarrow> worker \<Rightarrow> bool" where
  "worker_ok p n_th c w =
     (case w of Rows a i e \<Rightarrow> a \<le> i \<and> e = min (a + dr0 p n_th) (nr0 p) \<and> a + dr0 p n_th \<le> c
      | Finished \<Rightarrow> nr0 p \<le> c
      | Fetch \<Rightarrow> True)"

fun chunk_start :: "worker \<Rightarrow> nat option" where
  "chunk_start (Rows a i e) = Some a"
| "chunk_start w = None"

definition chunks_apart :: "nat \<Rightarrow> worker list \<Rightarrow> bool" where
  "chunks_apart n ws \<longleftrightarrow> (\<forall>t u a b. t < length ws \<and> u < length ws \<and> t \<noteq> u \<and>
     chunk_start (ws ! t) = Some a \<and> chunk_start (ws ! u) = Some b \<longrightarrow> a + n \<le> b \<or> b + n \<le> a)"

definition mm_inv :: "('r \<Rightarrow> 'x \<Rightarrow> 'f) \<Rightarrow> ('r, 'x, 'f :: {zero, ord}) sparse_op \<Rightarrow> nat \<Rightarrow> (cell \<Rightarrow> 'f) \<Rightarrow> 'f mm_state \<Rightarrow> bool" where
  "mm_inv vec_dot p n_th d s \<longleftrightarrow> length (workers s) = n_th \<and>
     list_all (worker_ok p n_th (aic s)) (workers s) \<and> chunks_apart (dr0 p n_th) (workers s) \<and> rows_kept vec_dot p n_th d s"

lemma worker_ok_mono: "worker_ok p n c w \<Longrightarrow> c \<le> c' \<Longrightarrow> worker_ok p n c' w"
  by (auto simp: worker_ok_def split: worker.splits)

lemma list_all_update: "list_all P xs \<Longrightarrow> P v \<Longrightarrow> list_all P (xs[t := v])"
  by (auto simp: list_all_iff dest!: set_update_subset_insert [THEN subsetD])

lemma chunks_apart_update:
  assumes "chunks_apart n ws" "\<And>u a b. u < length ws \<Longrightarrow> u \<noteq> t \<Longrightarrow> chunk_start w = Some a \<Longrightarrow> chunk_start (ws ! u) = Some b \<Longrightarrow>
    a + n \<le> b \<or> b + n \<le> a"
  shows "chunks_apart n (ws[t := w])"
  unfolding chunks_apart_def
proof (intro allI impI, elim conjE)
  fix i j a b
  assume i: "i < length (ws[t := w])" "j < length (ws[t := w])" "i \<noteq> j"
    "chunk_start (ws[t := w] ! i) = Some a" "chunk_start (ws[t := w] ! j) = Some b"
  consider "i = t" | "j = t" | "i \<noteq> t" "j \<noteq> t" by blast
  then show "a + n \<le> b \<or> b + n \<le> a"
  proof cases
    case 1
    then show ?thesis using assms(2) [of j a b] i by auto
  next
    case 2
    then show ?thesis using assms(2) [of i b a] i by auto
  next
    case 3
    then show ?thesis using assms(1) i unfolding chunks_apart_def by auto
  qed
qed

definition others_hold :: "nat \<Rightarrow> worker list \<Rightarrow> nat \<Rightarrow> bool" where
  "others_hold t ws r \<longleftrightarrow> (\<exists>u < length ws. u \<noteq> t \<and> holds (ws ! u) r)"

lemma pending_at: "t < length ws \<Longrightarrow> pending ws r \<longleftrightarrow> holds (ws ! t) r \<or> others_hold t ws r"
  by (auto simp: pending_def others_hold_def)

lemma others_hold_update [simp]: "others_hold t (ws[t := w]) = others_hold t ws"
  by (auto simp: others_hold_def fun_eq_iff)

lemma pending_update: "t < length ws \<Longrightarrow> pending (ws[t := w]) r \<longleftrightarrow> holds w r \<or> others_hold t ws r"
  by (simp add: pending_at)

lemma rows_kept_cong: "dst s' = dst s \<Longrightarrow> (\<And>r. computed p s' r = computed p s r) \<Longrightarrow>
    rows_kept vec_dot p n_th d s' = rows_kept vec_dot p n_th d s"
  by (simp only: rows_kept_def)

lemma mm_inv_init: "mm_inv vec_dot p n_th d (mm_init n_th d)"
  by (auto simp: computed_def mm_inv_def mm_init_def list_all_iff worker_ok_def chunks_apart_def rows_kept_def)

subsection \<open>Every step keeps the invariant\<close>

lemma rows_kept_fetch:
  assumes "rows_kept vec_dot p n_th d s" "t < length (workers s)" "workers s ! t = Fetch"
  shows "rows_kept vec_dot p n_th d (s\<lparr>aic := aic s + n,
    workers := (workers s)[t := Rows (aic s) (aic s) (min (aic s + n) (nr0 p))]\<rparr>)" (is "rows_kept _ _ _ _ ?s")
proof -
  have "pending ((workers s)[t := Rows (aic s) (aic s) (min (aic s + n) (nr0 p))]) r \<longleftrightarrow>
      (aic s \<le> r \<and> r < min (aic s + n) (nr0 p)) \<or> pending (workers s) r" for r
    unfolding pending_update [OF assms(2)] pending_at [OF assms(2)] using assms(3) by simp
  then have "computed p ?s r = computed p s r" for r by (simp add: computed_def) linarith
  then have "rows_kept vec_dot p n_th d ?s = rows_kept vec_dot p n_th d s" by (intro rows_kept_cong) simp_all
  then show ?thesis using assms(1) by simp
qed

lemma rows_kept_leave:
  assumes "rows_kept vec_dot p n_th d s" "t < length (workers s)" "\<And>r. \<not> holds (workers s ! t) r" "\<And>r. \<not> holds w r"
  shows "rows_kept vec_dot p n_th d (s\<lparr>workers := (workers s)[t := w]\<rparr>)"
proof -
  have "pending ((workers s)[t := w]) = pending (workers s)"
    using assms(3,4) by (simp add: fun_eq_iff pending_update [OF assms(2)] pending_at [OF assms(2)])
  then have "rows_kept vec_dot p n_th d (s\<lparr>workers := (workers s)[t := w]\<rparr>) = rows_kept vec_dot p n_th d s"
    by (intro rows_kept_cong) (simp_all add: computed_def)
  then show ?thesis using assms(1) by simp
qed

lemma only_holder:
  assumes inv: "mm_inv vec_dot p n_th d s" and t: "t < n_th" "workers s ! t = Rows a i e" "i < e"
  shows "\<not> others_hold t (workers s) i"
proof
  assume "others_hold t (workers s) i"
  then obtain u where u: "u < length (workers s)" "u \<noteq> t" "holds (workers s ! u) i" by (auto simp: others_hold_def)
  then obtain a' i' e' where w: "workers s ! u = Rows a' i' e'" "i' \<le> i" "i < e'" by (cases "workers s ! u") auto
  have "worker_ok p n_th (aic s) (workers s ! u)" "worker_ok p n_th (aic s) (workers s ! t)"
    using inv u(1) t(1) by (auto simp: mm_inv_def list_all_length)
  moreover have "a' + dr0 p n_th \<le> a \<or> a + dr0 p n_th \<le> a'"
    using inv u(1,2) t w unfolding mm_inv_def chunks_apart_def by (metis chunk_start.simps(1))
  ultimately show False using w t by (auto simp: worker_ok_def)
qed

lemma rows_kept_row:
  assumes inv: "mm_inv vec_dot p n_th d s" and t: "t < n_th" "workers s ! t = Rows a i e" "i < e"
  shows "rows_kept vec_dot p n_th d (s\<lparr>workers := (workers s)[t := Rows a (Suc i) e],
    dst := do_row vec_dot p (ir110 p n_th t) (ir111 p n_th t) i (dst s)\<rparr>)" (is "rows_kept _ _ _ _ ?s")
proof -
  have t': "t < length (workers s)" and kept: "rows_kept vec_dot p n_th d s" and ok: "worker_ok p n_th (aic s) (workers s ! t)"
    using inv t(1) by (auto simp: mm_inv_def list_all_length)
  have i: "i < nr0 p" "i < aic s" using ok t by (auto simp: worker_ok_def)
  have pend: "pending (workers ?s) r \<longleftrightarrow> pending (workers s) r \<and> r \<noteq> i" for r
    using only_holder [OF inv t] t by (auto simp: pending_update [OF t'] pending_at [OF t'])
  have pi: "pending (workers s) i" using t by (simp add: pending_at [OF t'])
  have dst: "dst ?s k = (if row_of k = i then share vec_dot p n_th t (dst s) k else dst s k)" for k
    using i by (auto simp: do_row_eq share_def)
  show ?thesis unfolding rows_kept_def
  proof
    fix r
    show "if computed p ?s r
      then \<exists>t < n_th. \<forall>k. row_of k = r \<longrightarrow> dst ?s k = share vec_dot p n_th t d k else \<forall>k. row_of k = r \<longrightarrow> dst ?s k = d k"
    proof (cases "r = i")
      case True
      then have "\<forall>k. row_of k = r \<longrightarrow> dst s k = d k" using kept pi unfolding rows_kept_def computed_def by (metis (full_types))
      then have "\<forall>k. row_of k = r \<longrightarrow> dst ?s k = share vec_dot p n_th t d k" using True unfolding dst by (auto simp: share_def)
      moreover have "computed p ?s r" using True i unfolding computed_def pend by simp
      ultimately show ?thesis using t(1) by auto
    next
      case False
      have same: "dst ?s k = dst s k" if "row_of k = r" for k using that False unfolding dst by simp
      have "computed p ?s r = computed p s r" using False unfolding computed_def pend by simp
      moreover have "if computed p s r
        then \<exists>t < n_th. \<forall>k. row_of k = r \<longrightarrow> dst s k = share vec_dot p n_th t d k else \<forall>k. row_of k = r \<longrightarrow> dst s k = d k"
        using kept unfolding rows_kept_def by blast
      ultimately show ?thesis using same by presburger
    qed
  qed
qed

lemma mm_inv_step:
  assumes inv: "mm_inv vec_dot p n_th d s" and step: "worker_step vec_dot p n_th t s = Some s'"
  shows "mm_inv vec_dot p n_th d s'"
proof -
  have len: "length (workers s) = n_th" and kept: "rows_kept vec_dot p n_th d s"
    and ok: "list_all (worker_ok p n_th (aic s)) (workers s)" and apart: "chunks_apart (dr0 p n_th) (workers s)"
    using inv by (auto simp: mm_inv_def)
  have t: "t < n_th" using step len by (auto simp: worker_step_def split: if_splits)
  have okt: "worker_ok p n_th (aic s) (workers s ! t)" using ok t len by (simp add: list_all_length)
  have grow: "list_all (worker_ok p n_th (aic s + m)) (workers s)" for m
    using ok by (auto simp: list_all_iff intro: worker_ok_mono)
  have below: "a + dr0 p n_th \<le> aic s" if "u < length (workers s)" "chunk_start (workers s ! u) = Some a" for u a
    using ok that by (cases "workers s ! u") (auto simp: list_all_length worker_ok_def split: worker.splits)
  show ?thesis
  proof (cases "workers s ! t")
    case Fetch
    then have s': "s' = s\<lparr>aic := aic s + dr0 p n_th, workers := (workers s)[t := Rows (aic s) (aic s) (min (aic s + dr0 p n_th) (nr0 p))]\<rparr>"
      using step t len by (simp add: worker_step_def)
    have "chunks_apart (dr0 p n_th) (workers s')" unfolding s'
      by simp (rule chunks_apart_update [OF apart], use below in auto)
    moreover have "list_all (worker_ok p n_th (aic s')) (workers s')" unfolding s'
      by simp (rule list_all_update [OF grow], simp add: worker_ok_def)
    moreover have "rows_kept vec_dot p n_th d s'" unfolding s' using rows_kept_fetch [OF kept _ Fetch] t len by simp
    ultimately show ?thesis using len s' by (simp add: mm_inv_def)
  next
    case (Rows a i e)
    show ?thesis
    proof (cases "i < e")
      case True
      then have s': "s' = s\<lparr>workers := (workers s)[t := Rows a (Suc i) e], dst := do_row vec_dot p (ir110 p n_th t) (ir111 p n_th t) i (dst s)\<rparr>"
        using step t len Rows by (simp add: worker_step_def)
      have "u < length (workers s) \<Longrightarrow> u \<noteq> t \<Longrightarrow> chunk_start (workers s ! u) = Some b \<Longrightarrow> a + dr0 p n_th \<le> b \<or> b + dr0 p n_th \<le> a" for u b
        using apart Rows t len unfolding chunks_apart_def by (metis chunk_start.simps(1))
      then have "chunks_apart (dr0 p n_th) (workers s')" unfolding s'
        by simp (rule chunks_apart_update [OF apart], use Rows in auto)
      then show ?thesis unfolding mm_inv_def s'
        using rows_kept_row [OF inv t Rows True] len ok okt Rows
        by (auto intro!: list_all_update simp: worker_ok_def)
    next
      case False
      then obtain w where s': "s' = s\<lparr>workers := (workers s)[t := w]\<rparr>" and w: "w = Fetch \<or> w = Finished \<and> nr0 p \<le> a + dr0 p n_th"
        using step t len Rows by (auto simp: worker_step_def split: if_splits)
      have "rows_kept vec_dot p n_th d s'" unfolding s'
        by (rule rows_kept_leave [OF kept]) (use t len Rows False w in auto)
      moreover have "chunks_apart (dr0 p n_th) (workers s')" unfolding s'
        by simp (rule chunks_apart_update [OF apart], use w in auto)
      ultimately show ?thesis unfolding mm_inv_def s' using w len ok okt Rows
        by (auto intro!: list_all_update simp: worker_ok_def)
    qed
  next
    case Finished
    then show ?thesis using step t len by (simp add: worker_step_def)
  qed
qed

lemma mm_inv_run: "mm_run vec_dot p n_th sched d = Some s \<Longrightarrow> mm_inv vec_dot p n_th d s"
  unfolding mm_run_def by (erule fold_opt_invariant [where P = "mm_inv vec_dot p n_th d"]) (auto intro: mm_inv_init mm_inv_step)

subsection \<open>What a complete run leaves in \<open>dst\<close>\<close>

lemma mm_result:
  assumes run: "mm_run vec_dot p n_th sched d = Some s" and fin: "mm_finished s" and n: "0 < n_th"
  shows "r < nr0 p \<Longrightarrow> \<exists>t < n_th. \<forall>k. row_of k = r \<longrightarrow> dst s k = share vec_dot p n_th t d k"
    and "\<not> r < nr0 p \<Longrightarrow> row_of k = r \<Longrightarrow> dst s k = d k"
proof -
  have inv: "mm_inv vec_dot p n_th d s" by (rule mm_inv_run [OF run])
  have none: "\<not> pending (workers s) r" for r using fin by (auto simp: mm_finished_def pending_def list_all_length)
  have "0 < length (workers s)" using inv n by (simp add: mm_inv_def)
  then have "workers s ! 0 = Finished" "worker_ok p n_th (aic s) (workers s ! 0)"
    using inv fin by (auto simp: mm_inv_def mm_finished_def list_all_length)
  then have "nr0 p \<le> aic s" by (simp add: worker_ok_def)
  then have c: "computed p s r \<longleftrightarrow> r < nr0 p" for r using none by (auto simp: computed_def)
  have "if computed p s r then \<exists>t < n_th. \<forall>k. row_of k = r \<longrightarrow> dst s k = share vec_dot p n_th t d k
     else \<forall>k. row_of k = r \<longrightarrow> dst s k = d k" for r
    using inv unfolding mm_inv_def rows_kept_def by blast
  then show "r < nr0 p \<Longrightarrow> \<exists>t < n_th. \<forall>k. row_of k = r \<longrightarrow> dst s k = share vec_dot p n_th t d k"
    and "\<not> r < nr0 p \<Longrightarrow> row_of k = r \<Longrightarrow> dst s k = d k" unfolding c by (metis (full_types))+
qed

lemma share_cell:
  "share vec_dot p n_th t d (cell_of p r c) =
     (if c \<in> {ir110 p n_th t ..< ir111 p n_th t} then cell_value vec_dot p (cell_of p r c) else d (cell_of p r c))"
  by (auto simp: share_def image_iff)

lemma whole_range: "nr1 p < nr0 p \<Longrightarrow> t < n_th \<Longrightarrow> {ir110 p n_th t ..< ir111 p n_th t} = {0 ..< nr1 p}"
  by (simp add: ir110_def ir111_def dr1_def nth0_def nth1_def)

text \<open>The steps that are left: a worker that is about to take a chunk may make \<open>dr0 + 2\<close> more before it
  takes the next.\<close>

definition worker_left :: "('r, 'x, 'f) sparse_op \<Rightarrow> nat \<Rightarrow> worker \<Rightarrow> nat" where
  "worker_left p n_th w = (case w of Finished \<Rightarrow> 0 | Fetch \<Rightarrow> dr0 p n_th + 2
     | Rows a i e \<Rightarrow> (e - i) + 1 + (if nr0 p \<le> a + dr0 p n_th then 0 else dr0 p n_th + 2))"

definition steps_left :: "('r, 'x, 'f) sparse_op \<Rightarrow> nat \<Rightarrow> 'f mm_state \<Rightarrow> nat" where
  "steps_left p n_th s = (nr0 p - aic s) * (dr0 p n_th + 2) + sum_list (map (worker_left p n_th) (workers s))"

lemma sum_list_upd: "t < length ws \<Longrightarrow> sum_list (map f (ws[t := w])) + f (ws ! t) = sum_list (map f ws) + (f w :: nat)"
proof (induction ws arbitrary: t)
  case (Cons a ws)
  show ?case
  proof (cases t)
    case (Suc u)
    then show ?thesis using Cons.IH [of u] Cons.prems by simp
  qed simp
qed simp

lemma step_decreases:
  assumes inv: "mm_inv vec_dot p n_th d s" and step: "worker_step vec_dot p n_th t s = Some s'" and n: "0 < n_th"
  shows "steps_left p n_th s' < steps_left p n_th s"
proof -
  let ?n = "dr0 p n_th" and ?W = "\<lambda>ws. sum_list (map (worker_left p n_th) ws)"
  have t: "t < length (workers s)" using step by (auto simp: worker_step_def split: if_splits)
  have upd: "?W ((workers s)[t := w]) + worker_left p n_th (workers s ! t) = ?W (workers s) + worker_left p n_th w" for w
    by (rule sum_list_upd [OF t])
  show ?thesis
  proof (cases "workers s ! t")
    case Fetch
    let ?w = "Rows (aic s) (aic s) (min (aic s + ?n) (nr0 p))"
    have s': "s' = s\<lparr>aic := aic s + ?n, workers := (workers s)[t := ?w]\<rparr>" using step t Fetch by (simp add: worker_step_def)
    define A where "A = (nr0 p - aic s) * (?n + 2)"
    define B where "B = (nr0 p - aic s') * (?n + 2)"
    have left: "steps_left p n_th s = A + ?W (workers s)" "steps_left p n_th s' = B + ?W ((workers s)[t := ?w])"
      by (simp_all add: steps_left_def A_def B_def s')
    show ?thesis
    proof (cases "nr0 p \<le> aic s + ?n")
      case True
      have "B \<le> A" unfolding A_def B_def s' by (intro mult_le_mono1) simp
      moreover have "worker_left p n_th ?w < worker_left p n_th Fetch" using True by (auto simp: worker_left_def)
      ultimately show ?thesis using upd [of ?w] unfolding left Fetch by linarith
    next
      case False
      then have "0 < ?n" using n by (auto simp: dr0_def nth0_def div_greater_zero_iff)
      have "nr0 p - aic s = (nr0 p - aic s') + ?n" unfolding s' using False by simp
      then have "A = B + ?n * (?n + 2)" unfolding A_def B_def by (simp only: add_mult_distrib)
      moreover have "?n + 2 \<le> ?n * (?n + 2)" using \<open>0 < ?n\<close> by (cases ?n) auto
      moreover have "worker_left p n_th ?w < worker_left p n_th Fetch + (?n + 2)" using False by (auto simp: worker_left_def)
      ultimately show ?thesis using upd [of ?w] unfolding left Fetch by linarith
    qed
  next
    case (Rows a i e)
    define w where "w = (if i < e then Rows a (Suc i) e else if nr0 p \<le> a + ?n then Finished else Fetch)"
    have "aic s' = aic s" "workers s' = (workers s)[t := w]"
      using step t Rows by (auto simp: worker_step_def w_def split: if_splits)
    moreover have "worker_left p n_th w < worker_left p n_th (workers s ! t)" by (auto simp: worker_left_def w_def Rows)
    ultimately show ?thesis using upd [of w] by (simp add: steps_left_def)
  next
    case Finished
    then show ?thesis using step t by (simp add: worker_step_def)
  qed
qed

lemma steps_bounded:
  assumes "mm_run vec_dot p n_th sched d = Some s" "0 < n_th"
  shows "length sched + steps_left p n_th s \<le> steps_left p n_th (mm_init n_th d)"
proof -
  have "fold_opt (worker_step vec_dot p n_th) xs s0 = Some s \<Longrightarrow> mm_inv vec_dot p n_th d s0 \<Longrightarrow>
      length xs + steps_left p n_th s \<le> steps_left p n_th s0" for xs s0
  proof (induction xs arbitrary: s0)
    case (Cons x xs)
    then obtain s1 where s1: "worker_step vec_dot p n_th x s0 = Some s1" "fold_opt (worker_step vec_dot p n_th) xs s1 = Some s"
      by (auto split: option.splits)
    show ?case using Cons.IH [OF s1(2) mm_inv_step [OF Cons.prems(2) s1(1)]] step_decreases [OF Cons.prems(2) s1(1) assms(2)] by simp
  qed simp
  then show ?thesis using assms(1) mm_inv_init unfolding mm_run_def by blast
qed

lemma steps_left_init: "steps_left p n_th (mm_init n_th d) = (nr0 p + n_th) * (dr0 p n_th + 2)"
  by (simp add: steps_left_def mm_init_def worker_left_def sum_list_replicate add_mult_distrib)

lemma some_step:
  assumes "mm_inv vec_dot p n_th d s" "\<not> mm_finished s"
  shows "\<exists>t < n_th. worker_step vec_dot p n_th t s \<noteq> None"
proof -
  obtain t where t: "t < length (workers s)" "workers s ! t \<noteq> Finished" using assms(2) by (auto simp: mm_finished_def list_all_length)
  then have "worker_step vec_dot p n_th t s \<noteq> None" by (cases "workers s ! t") (auto simp: worker_step_def)
  then show ?thesis using t assms(1) by (auto simp: mm_inv_def)
qed

lemma mm_can_finish:
  assumes "0 < n_th"
  shows "\<exists>sched s. mm_run vec_dot p n_th sched d = Some s \<and> mm_finished s"
proof -
  have "\<exists>sched s'. fold_opt (worker_step vec_dot p n_th) sched s = Some s' \<and> mm_finished s'" if "mm_inv vec_dot p n_th d s" for s
    using that
  proof (induction "steps_left p n_th s" arbitrary: s rule: less_induct)
    case less
    show ?case
    proof (cases "mm_finished s")
      case True
      then show ?thesis by (intro exI [of _ "[]"]) simp
    next
      case False
      then obtain t s1 where s1: "worker_step vec_dot p n_th t s = Some s1" using some_step [OF less.prems] by blast
      then obtain sched s' where "fold_opt (worker_step vec_dot p n_th) sched s1 = Some s'" "mm_finished s'"
        using less.hyps [OF step_decreases [OF less.prems s1 assms] mm_inv_step [OF less.prems s1]] by blast
      then show ?thesis using s1 by (intro exI [of _ "t # sched"]) simp
    qed
  qed
  then show ?thesis using mm_inv_init unfolding mm_run_def by blast
qed

text \<open>C16: every run of the sparse product is at most \<open>(nr0 + nth) * (dr0 + 2)\<close> steps long, whatever the
  interleaving, and as long as a worker has not finished some worker can make a step: the loops over the
  shared counter all end.\<close>

theorem sparse_mul_mat_terminates:
  assumes "0 < n_th" "mm_run vec_dot p n_th sched d = Some s"
  shows "length sched \<le> (nr0 p + n_th) * (dr0 p n_th + 2) \<and> (mm_finished s \<or> (\<exists>t < n_th. worker_step vec_dot p n_th t s \<noteq> None))"
  using steps_bounded [OF assms(2,1)] some_step [OF mm_inv_run [OF assms(2)]] by (auto simp: steps_left_init)

lemma complete_cell:
  assumes "0 < n_th" "nr1 p < nr0 p" "mm_run vec_dot p n_th sched d = Some s" "mm_finished s"
  shows "dst s k = (if row_of k < nr0 p \<and> (\<exists>c < nr1 p. k = cell_of p (row_of k) c) then cell_value vec_dot p k else d k)"
proof (cases "row_of k < nr0 p")
  case True
  then obtain t where t: "t < n_th" "dst s k = share vec_dot p n_th t d k"
    using mm_result(1) [OF assms(3,4,1)] by blast
  then show ?thesis using True whole_range [OF assms(2) t(1)] by (auto simp: share_def image_iff)
next
  case False
  then show ?thesis using mm_result(2) [OF assms(3,4,1)] by simp
qed

text \<open>C8: when \<open>src0\<close> has more rows than \<open>src1\<close> has columns, every complete run of the workers, in any
  interleaving, writes every cell of \<open>dst\<close>: zero where the neuron is on the GPU or below the threshold of
  the predictor, the dot product otherwise.  Cells outside the matrix are not written.\<close>

theorem sparse_mul_mat_complete:
  assumes "0 < n_th" "nr1 p < nr0 p" "mm_run vec_dot p n_th sched d = Some s" "mm_finished s"
  shows "dst s k = (if row_of k < nr0 p \<and> (\<exists>c < nr1 p. k = cell_of p (row_of k) c) then cell_value vec_dot p k else d k)"
  using assms by (rule complete_cell)

text \<open>C26: when \<open>src1\<close> has at least as many columns as \<open>src0\<close> has rows, and there are two workers or more,
  the work is split by columns but the rows still come from one counter: every complete run leaves
  in every row some column that no worker has computed, with the old contents of \<open>dst\<close>.\<close>

theorem sparse_mul_mat_loses_columns:
  assumes "1 < n_th" "nr0 p \<le> nr1 p" "1 < nr1 p" "mm_run vec_dot p n_th sched d = Some s" "mm_finished s" "r < nr0 p"
  shows "\<exists>c < nr1 p. dst s (cell_of p r c) = d (cell_of p r c)"
proof -
  have "0 < n_th" using assms(1) by simp
  from mm_result(1) [OF assms(4,5) this assms(6)]
  obtain t where t: "\<forall>k. row_of k = r \<longrightarrow> dst s k = share vec_dot p n_th t d k" by blast
  have dr: "dr1 p n_th = (nr1 p + n_th - 1) div n_th" using assms(2) by (simp add: dr1_def nth1_def)
  have "(nr1 p + n_th - 1) div n_th < nr1 p"
  proof -
    have "nr1 p + n_th - 1 < nr1 p * n_th"
    proof -
      obtain m where m: "nr1 p = m + 2" using assms(3) by (metis add.commute le_Suc_ex Suc_leI one_add_one plus_1_eq_Suc)
      obtain n where n: "n_th = n + 2" using assms(1) by (metis add.commute le_Suc_ex Suc_leI one_add_one plus_1_eq_Suc)
      show ?thesis unfolding m n by (simp add: algebra_simps)
    qed
    then show ?thesis using assms(1) by (simp add: div_less_iff_less_mult)
  qed
  then have short: "ir111 p n_th t < ir110 p n_th t + nr1 p" unfolding ir111_def dr [symmetric] by simp
  obtain c where "c < nr1 p" "c \<notin> {ir110 p n_th t ..< ir111 p n_th t}"
  proof (cases "ir110 p n_th t = 0")
    case True
    then show thesis using that [of "ir111 p n_th t"] short by simp
  next
    case False
    then show thesis using that [of 0] assms(3) by simp
  qed
  moreover have "dst s (cell_of p r c) = share vec_dot p n_th t d (cell_of p r c)" by (rule t [rule_format]) simp
  ultimately show ?thesis unfolding share_cell by auto
qed

subsection \<open>Two small runs\<close>

text \<open>Two workers on a matrix of \<open>rows\<close> rows and an input of \<open>cols\<close> columns; the neuron 1 is on the GPU.\<close>

definition tiny_op :: "nat \<Rightarrow> nat \<Rightarrow> (int, int, int) sparse_op" where
  "tiny_op rows cols = \<lparr>ne01 = rows, ne02 = 1, ne03 = 1, ne11 = cols, ne12 = 1, ne13 = 1,
     w_row = (\<lambda>_ _ r. int r + 2), x_col = (\<lambda>c. int c + 5), mm_pred = (\<lambda>_ r. if r = 2 then -1 else 1),
     gid = (\<lambda>r. if r = 1 then 1 else 0), threshold = 0\<rparr>"

definition tiny_run :: "nat \<Rightarrow> nat \<Rightarrow> nat list \<Rightarrow> int mm_state option" where
  "tiny_run rows cols sched = mm_run (*) (tiny_op rows cols) 2 sched (\<lambda>_. 99)"

lemmas tiny_eval = mm_run_def mm_init_def worker_step_def do_row_def do_tile_def tile_starts_def blck_1_def
  dr0_def dr1_def nth0_def nth1_def ir110_def ir111_def nr0_def nr1_def tiny_op_def numeral_2_eq_2

lemma tiny_complete: "\<exists>s. tiny_run 2 1 [0, 1, 0, 1, 0, 1, 0, 0] = Some s \<and> mm_finished s"
  by (simp add: tiny_run_def tiny_eval mm_finished_def)

lemma tiny_short: "\<exists>s. tiny_run 1 2 [0, 0, 0, 1, 1] = Some s \<and> mm_finished s"
  by (simp add: tiny_run_def tiny_eval mm_finished_def)

lemma sparse_mul_mat_terminates_witness:
  "\<exists>s. tiny_run 2 1 [0, 1, 0, 1, 0, 1, 0, 0] = Some s \<and> 8 \<le> (nr0 (tiny_op 2 1) + 2) * (dr0 (tiny_op 2 1) 2 + 2)"
proof -
  obtain s where "tiny_run 2 1 [0, 1, 0, 1, 0, 1, 0, 0] = Some s" using tiny_complete by blast
  with sparse_mul_mat_terminates [OF _ this [unfolded tiny_run_def]] show ?thesis by auto
qed

lemma sparse_mul_mat_complete_witness:
  "\<exists>s. tiny_run 2 1 [0, 1, 0, 1, 0, 1, 0, 0] = Some s \<and> dst s (0, 0, 0, 0) = 10 \<and> dst s (0, 0, 0, 1) = 0 \<and> dst s (0, 0, 0, 2) = 99"
proof -
  obtain s where s: "tiny_run 2 1 [0, 1, 0, 1, 0, 1, 0, 0] = Some s" "mm_finished s" using tiny_complete by blast
  have "dst s k = (if row_of k < 2 \<and> (\<exists>c < nr1 (tiny_op 2 1). k = cell_of (tiny_op 2 1) (row_of k) c)
      then cell_value (*) (tiny_op 2 1) k else 99)" for k
    using sparse_mul_mat_complete [OF _ _ s(1) [unfolded tiny_run_def] s(2), of k] by (simp add: nr0_def nr1_def tiny_op_def)
  then show ?thesis using s(1) by (simp add: row_of_def cell_of_def cell_value_def nr1_def tiny_op_def)
qed

lemma sparse_mul_mat_loses_columns_witness:
  "\<exists>s. tiny_run 1 2 [0, 0, 0, 1, 1] = Some s \<and> (\<exists>c < 2. dst s (cell_of (tiny_op 1 2) 0 c) = 99)"
proof -
  obtain s where s: "tiny_run 1 2 [0, 0, 0, 1, 1] = Some s" "mm_finished s" using tiny_short by blast
  have "\<exists>c < nr1 (tiny_op 1 2). dst s (cell_of (tiny_op 1 2) 0 c) = 99"
    by (rule sparse_mul_mat_loses_columns [OF _ _ _ s(1) [unfolded tiny_run_def] s(2)]) (simp_all add: nr0_def nr1_def tiny_op_def)
  then show ?thesis using s(1) by (auto simp: nr1_def tiny_op_def)
qed

end
