(* ===== verification/Sparse_Axpy.thy ===== *)
theory Sparse_Axpy
  imports Packed_Kernel
begin

text \<open>
  The second half of a sparse FFN on the CPU (\<open>ggml_compute_forward_mul_mat_axpy\<close> and its Q4_0
  variant of \<open>ggml.c\<close>): the rows of the transposed down projection are added up, weighted with the
  activations, over the neurons that the predictor selects and that are not on the GPU.  Every worker sums
  its rows in a local vector and then adds the vector to \<open>dst\<close>, element by element, without a lock.
  The portable branches are modelled, not the AVX2 ones.  Numbers are an ordered ring: rounding is not
  modelled; \<open>cvt\<close> is \<open>GGML_FP16_TO_FP32\<close>.
\<close>

subsection \<open>The rows of one worker\<close>

text \<open>\<open>w_rows\<close> are the rows of \<open>src0\<close>, \<open>x_cols\<close> the columns of the converted \<open>src1\<close>, \<open>sparse_idx\<close> the predictor's
  output by column and neuron, \<open>gpu_idx\<close> is \<open>src[3]\<close>, which may be a null pointer.\<close>

record ('r, 'x, 'f) axpy_op =
  ne00 :: nat
  n_rows :: nat
  n_cols :: nat
  w_rows :: "nat \<Rightarrow> 'r"
  x_cols :: "nat \<Rightarrow> 'x"
  sparse_idx :: "nat \<Rightarrow> nat \<Rightarrow> 'f"
  gpu_idx :: "(nat \<Rightarrow> int) option"
  cutoff :: 'f

definition ggml_axpy_f16 :: "(u16 \<Rightarrow> 'f :: linordered_idom) \<Rightarrow> nat \<Rightarrow> u16 list \<Rightarrow> 'f list \<Rightarrow> u16 \<Rightarrow> 'f list" where
  "ggml_axpy_f16 cvt n vx vz alpha = fold (\<lambda>i res. res[i := res ! i + cvt (vx ! i) * cvt alpha]) [0 ..< n] vz"

definition axpy_row_f16 :: "(u16 \<Rightarrow> 'f :: linordered_idom) \<Rightarrow> (u16 list, u16 list, 'f) axpy_op \<Rightarrow> nat \<Rightarrow> nat \<Rightarrow> 'f list \<Rightarrow> 'f list" where
  "axpy_row_f16 cvt p col ir1 vy =
     (if x_cols p col ! ir1 = 0 then vy
      else if (case gpu_idx p of None \<Rightarrow> True | Some g \<Rightarrow> g ir1 = 1) then vy
      else if sparse_idx p col ir1 < cutoff p then vy
      else ggml_axpy_f16 cvt (ne00 p) (w_rows p ir1) vy (x_cols p col ! ir1))"

text \<open>The Q4_0 variant takes the activation from a block of \<open>block_q8_0\<close>; \<open>src[3]\<close> is not checked
  there.\<close>

definition axpy_half :: "(u16 \<Rightarrow> 'f :: linordered_idom) \<Rightarrow> block_q4_0 \<Rightarrow> int \<Rightarrow> 'f \<Rightarrow> nat \<Rightarrow> nat \<Rightarrow> 'f list \<Rightarrow> 'f list" where
  "axpy_half cvt b alpha scale off j res =
     (let rs = cvt (q4_d b) * scale;
          v0 = uint (q4_qs b ! j AND 0x0F) - 8; v1 = uint (drop_bit 4 (q4_qs b ! j)) - 8;
          res1 = res[off + j := res ! (off + j) + of_int (v0 * alpha) * rs]
      in res1[off + j + QK div 2 := res1 ! (off + j + QK div 2) + of_int (v1 * alpha) * rs])"

definition ggml_axpy_q4_0_q8_0 :: "(u16 \<Rightarrow> 'f :: linordered_idom) \<Rightarrow> nat \<Rightarrow> block_q4_0 list \<Rightarrow> 'f list \<Rightarrow> int \<Rightarrow> u16 \<Rightarrow> 'f list" where
  "ggml_axpy_q4_0_q8_0 cvt n vx vz alpha scale =
     fold (\<lambda>i. fold (axpy_half cvt (vx ! i) alpha (cvt scale) (i * QK)) [0 ..< QK div 2]) [0 ..< n div QK] vz"

definition axpy_row_q4_0 :: "(u16 \<Rightarrow> 'f :: linordered_idom) \<Rightarrow> (block_q4_0 list, block_q8_0 list, 'f) axpy_op \<Rightarrow> nat \<Rightarrow> nat \<Rightarrow> 'f list \<Rightarrow> 'f list" where
  "axpy_row_q4_0 cvt p col ir1 vy =
     (if (case gpu_idx p of None \<Rightarrow> True | Some g \<Rightarrow> g ir1 = 1) then vy
      else if sparse_idx p col ir1 < cutoff p then vy
      else let blk = x_cols p col ! (ir1 div QK); b = sint (q8_qs blk ! (ir1 mod QK))
           in if b = 0 then vy else ggml_axpy_q4_0_q8_0 cvt (ne00 p) (w_rows p ir1) vy b (q8_d blk))"

definition axpy_dr :: "('r, 'x, 'f) axpy_op \<Rightarrow> nat \<Rightarrow> nat" where
  "axpy_dr p n_th = (n_rows p + n_th - 1) div n_th"

text \<open>The loop of worker \<open>ith\<close> for one column, over a kernel for one row; it breaks at the last row.\<close>

definition worker_sum :: "(nat \<Rightarrow> nat \<Rightarrow> 'f list \<Rightarrow> 'f list) \<Rightarrow> ('r, 'x, 'f :: zero) axpy_op \<Rightarrow> nat \<Rightarrow> nat \<Rightarrow> nat \<Rightarrow> 'f list" where
  "worker_sum row p n_th ith col =
     (let ir10 = axpy_dr p n_th * ith
      in fold (row col) (takeWhile (\<lambda>ir1. ir1 < n_rows p) [ir10 ..< ir10 + axpy_dr p n_th]) (replicate (ne00 p) 0))"

subsection \<open>Adding the sums to \<open>dst\<close>\<close>

text \<open>\<open>At c i\<close>: the worker is about to read element \<open>i\<close> of column \<open>c\<close>; \<open>Loaded c i v\<close>: it has read \<open>v\<close> and is
  about to write \<open>v\<close> plus its own sum.\<close>

datatype 'f merger = At nat nat | Loaded nat nat 'f | Merged

record 'f axpy_state =
  mergers :: "'f merger list"
  acc_out :: "nat \<Rightarrow> nat \<Rightarrow> 'f"

definition set_out :: "nat \<Rightarrow> nat \<Rightarrow> 'f \<Rightarrow> (nat \<Rightarrow> nat \<Rightarrow> 'f) \<Rightarrow> nat \<Rightarrow> nat \<Rightarrow> 'f" where
  "set_out c i v d = d(c := (d c)(i := v))"

definition merge_step :: "(nat \<Rightarrow> nat \<Rightarrow> 'f list) \<Rightarrow> nat \<Rightarrow> nat \<Rightarrow> nat \<Rightarrow> 'f :: plus axpy_state \<Rightarrow> 'f axpy_state option" where
  "merge_step tmp ncol n t s =
     (if \<not> t < length (mergers s) then None
      else case mergers s ! t of
        At c i \<Rightarrow>
          if \<not> c < ncol then Some (s\<lparr>mergers := (mergers s)[t := Merged]\<rparr>)
          else if i < n then Some (s\<lparr>mergers := (mergers s)[t := Loaded c i (acc_out s c i)]\<rparr>)
          else Some (s\<lparr>mergers := (mergers s)[t := At (Suc c) 0]\<rparr>)
      | Loaded c i v \<Rightarrow> Some (s\<lparr>mergers := (mergers s)[t := At c (Suc i)], acc_out := set_out c i (v + tmp t c ! i) (acc_out s)\<rparr>)
      | Merged \<Rightarrow> None)"

text \<open>\<open>GGML_TASK_INIT\<close> clears \<open>dst\<close>.\<close>

definition axpy_init :: "nat \<Rightarrow> 'f :: zero axpy_state" where
  "axpy_init n_th = \<lparr>mergers = replicate n_th (At 0 0), acc_out = (\<lambda>_ _. 0)\<rparr>"

definition axpy_run :: "(nat \<Rightarrow> nat \<Rightarrow> 'f list \<Rightarrow> 'f list) \<Rightarrow> ('r, 'x, 'f :: {zero, plus}) axpy_op \<Rightarrow> nat \<Rightarrow> nat list \<Rightarrow> 'f axpy_state option" where
  "axpy_run row p n_th sched = fold_opt (merge_step (worker_sum row p n_th) (n_cols p) (ne00 p)) sched (axpy_init n_th)"

definition axpy_finished :: "'f axpy_state \<Rightarrow> bool" where
  "axpy_finished s = list_all (\<lambda>m. m = Merged) (mergers s)"

text \<open>A run is quiet when every worker writes onto the value that it has read.\<close>

definition quiet_step :: "(nat \<Rightarrow> nat \<Rightarrow> 'f list) \<Rightarrow> nat \<Rightarrow> nat \<Rightarrow> nat \<Rightarrow> 'f :: plus axpy_state \<Rightarrow> 'f axpy_state option" where
  "quiet_step tmp ncol n t s =
     (case (if t < length (mergers s) then mergers s ! t else Merged) of
        Loaded c i v \<Rightarrow> if acc_out s c i = v then merge_step tmp ncol n t s else None
      | _ \<Rightarrow> merge_step tmp ncol n t s)"

definition quiet_run :: "(nat \<Rightarrow> nat \<Rightarrow> 'f list \<Rightarrow> 'f list) \<Rightarrow> ('r, 'x, 'f :: {zero, plus}) axpy_op \<Rightarrow> nat \<Rightarrow> nat list \<Rightarrow> 'f axpy_state option" where
  "quiet_run row p n_th sched = fold_opt (quiet_step (worker_sum row p n_th) (n_cols p) (ne00 p)) sched (axpy_init n_th)"

text \<open>Two workers collide when one stores to an element that another has loaded and not yet stored.  Whether a
  schedule has a collision does not depend on the numbers, so it is defined on a run over zeros.\<close>

definition collides :: "nat \<Rightarrow> 'f merger list \<Rightarrow> bool" where
  "collides t ms \<longleftrightarrow> (case ms ! t of Loaded c i v \<Rightarrow>
      list_ex (\<lambda>u. u \<noteq> t \<and> (case ms ! u of Loaded c' i' v' \<Rightarrow> c' = c \<and> i' = i | _ \<Rightarrow> False)) [0 ..< length ms] | _ \<Rightarrow> False)"

definition careful_step :: "(nat \<Rightarrow> nat \<Rightarrow> 'f list) \<Rightarrow> nat \<Rightarrow> nat \<Rightarrow> nat \<Rightarrow> 'f :: plus axpy_state \<Rightarrow> 'f axpy_state option" where
  "careful_step tmp ncol n t s = (if collides t (mergers s) then None else merge_step tmp ncol n t s)"

definition collision_free :: "nat \<Rightarrow> nat \<Rightarrow> nat \<Rightarrow> nat list \<Rightarrow> bool" where
  "collision_free n_th ncol n sched \<longleftrightarrow>
     fold_opt (careful_step (\<lambda>_ _. replicate n (0 :: nat)) ncol n) sched (axpy_init n_th) \<noteq> None"

subsection \<open>Kernels that add to a row\<close>

lemma list_all_update_at: "list_all P xs \<Longrightarrow> P v \<Longrightarrow> list_all P (xs[t := v])"
  by (auto simp: list_all_iff dest!: set_update_subset_insert [THEN subsetD])

lemma takeWhile_upt: "takeWhile (\<lambda>r. r < m) [a ..< b] = [a ..< min b m]"
proof (induction "b - a" arbitrary: a)
  case (Suc k)
  then have "takeWhile (\<lambda>r. r < m) [Suc a ..< b] = [Suc a ..< min b m]" by simp
  then show ?case using Suc.hyps(2) by (simp add: upt_conv_Cons)
qed simp

text \<open>The contract of a kernel for one row: it adds \<open>contrib col r i\<close> to element \<open>i\<close> of the vector.\<close>

locale axpy_kernel =
  fixes row :: "nat \<Rightarrow> nat \<Rightarrow> 'f :: linordered_idom list \<Rightarrow> 'f list"
    and n :: nat
    and contrib :: "nat \<Rightarrow> nat \<Rightarrow> nat \<Rightarrow> 'f"
  assumes row_length: "length vy = n \<Longrightarrow> length (row col r vy) = n"
    and row_nth: "length vy = n \<Longrightarrow> i < n \<Longrightarrow> row col r vy ! i = vy ! i + contrib col r i"
begin

lemma fold_rows:
  assumes "length vy = n"
  shows "length (fold (row col) rs vy) = n \<and> (\<forall>i < n. fold (row col) rs vy ! i = vy ! i + (\<Sum>r\<leftarrow>rs. contrib col r i))"
  using assms by (induction rs arbitrary: vy) (auto simp: row_length row_nth add.assoc)

lemma worker_sum_nth:
  fixes p :: "('r, 'x, 'f) axpy_op"
  assumes "ne00 p = n" "i < n"
  shows "worker_sum row p n_th t col ! i =
    (\<Sum>r = t * axpy_dr p n_th ..< t * axpy_dr p n_th + axpy_dr p n_th. if r < n_rows p then contrib col r i else 0)"
proof -
  let ?a = "axpy_dr p n_th * t" and ?b = "axpy_dr p n_th * t + axpy_dr p n_th"
  have "worker_sum row p n_th t col ! i = (\<Sum>r\<leftarrow>[?a ..< min ?b (n_rows p)]. contrib col r i)"
    using fold_rows [of "replicate n 0" col "[?a ..< min ?b (n_rows p)]"] assms by (simp add: worker_sum_def takeWhile_upt Let_def)
  also have "\<dots> = (\<Sum>r\<in>{?a ..< min ?b (n_rows p)}. contrib col r i)" by (simp add: interv_sum_list_conv_sum_set_nat)
  also have "\<dots> = (\<Sum>r = ?a ..< ?b. if r < n_rows p then contrib col r i else 0)"
    by (rule sum.mono_neutral_cong_left) auto
  finally show ?thesis by (simp add: mult.commute)
qed

lemma worker_sums_total:
  fixes p :: "('r, 'x, 'f) axpy_op"
  assumes "ne00 p = n" "i < n" "0 < n_th"
  shows "(\<Sum>t < n_th. worker_sum row p n_th t col ! i) = (\<Sum>r < n_rows p. contrib col r i)"
proof -
  let ?k = "axpy_dr p n_th"
  have "n_rows p + n_th - 1 < n_th + ((n_rows p + n_th - 1) div n_th) * n_th"
    using div_mult_mod_eq [of "n_rows p + n_th - 1" n_th] mod_less_divisor [OF assms(3), of "n_rows p + n_th - 1"] by linarith
  then have cover: "n_rows p \<le> n_th * ?k" using assms(3) by (simp add: axpy_dr_def mult.commute)
  have "(\<Sum>t < n_th. worker_sum row p n_th t col ! i) = (\<Sum>r < n_th * ?k. if r < n_rows p then contrib col r i else 0)"
    unfolding sum.nat_group [symmetric] by (intro sum.cong refl worker_sum_nth assms(1,2))
  also have "\<dots> = (\<Sum>r < n_rows p. contrib col r i)"
    using cover by (intro sum.mono_neutral_cong_right) auto
  finally show ?thesis .
qed

end

subsection \<open>Quiet runs\<close>

definition passed :: "nat \<Rightarrow> nat \<Rightarrow> 'f merger \<Rightarrow> nat \<Rightarrow> nat \<Rightarrow> bool" where
  "passed ncol n m c i \<longleftrightarrow> c < ncol \<and> i < n \<and>
     (case m of At c' i' \<Rightarrow> c < c' \<or> c = c' \<and> i < i' | Loaded c' i' v \<Rightarrow> c < c' \<or> c = c' \<and> i < i' | Merged \<Rightarrow> True)"

definition merger_ok :: "nat \<Rightarrow> nat \<Rightarrow> 'f merger \<Rightarrow> bool" where
  "merger_ok ncol n m = (case m of Loaded c i v \<Rightarrow> c < ncol \<and> i < n | _ \<Rightarrow> True)"

definition quiet_inv :: "(nat \<Rightarrow> nat \<Rightarrow> 'f list) \<Rightarrow> nat \<Rightarrow> nat \<Rightarrow> nat \<Rightarrow> 'f :: linordered_idom axpy_state \<Rightarrow> bool" where
  "quiet_inv tmp ncol n n_th s \<longleftrightarrow> length (mergers s) = n_th \<and> list_all (merger_ok ncol n) (mergers s) \<and>
     (\<forall>c i. acc_out s c i = (\<Sum>t < n_th. if passed ncol n (mergers s ! t) c i then tmp t c ! i else 0))"

lemma sum_update:
  fixes f :: "nat \<Rightarrow> 'a \<Rightarrow> 'b :: ab_group_add"
  assumes "t < length ms"
  shows "(\<Sum>u < length ms. f u (ms[t := m] ! u)) = (\<Sum>u < length ms. f u (ms ! u)) - f t (ms ! t) + f t m"
proof -
  have rest: "(\<Sum>u \<in> {..< length ms} - {t}. f u (ms[t := m] ! u)) = (\<Sum>u \<in> {..< length ms} - {t}. f u (ms ! u))"
    by (intro sum.cong) auto
  show ?thesis
    using sum.remove [of "{..< length ms}" t "\<lambda>u. f u (ms[t := m] ! u)"] sum.remove [of "{..< length ms}" t "\<lambda>u. f u (ms ! u)"]
      assms rest by simp
qed

lemma quiet_inv_step:
  assumes inv: "quiet_inv tmp ncol n n_th s" and step: "quiet_step tmp ncol n t s = Some s'"
  shows "quiet_inv tmp ncol n n_th s'"
proof -
  have len: "length (mergers s) = n_th" and ok: "list_all (merger_ok ncol n) (mergers s)"
    and sums: "\<And>c i. acc_out s c i = (\<Sum>t < n_th. if passed ncol n (mergers s ! t) c i then tmp t c ! i else 0)"
    using inv by (auto simp: quiet_inv_def)
  have t: "t < length (mergers s)" using step by (auto simp: quiet_step_def merge_step_def split: if_splits)
  have upd: "(\<Sum>u < n_th. if passed ncol n ((mergers s)[t := m] ! u) c i then tmp u c ! i else 0) =
      acc_out s c i - (if passed ncol n (mergers s ! t) c i then tmp t c ! i else 0) + (if passed ncol n m c i then tmp t c ! i else 0)" for m c i
    using sum_update [OF t, of "\<lambda>u m. if passed ncol n m c i then tmp u c ! i else 0" m] len by (simp add: sums)
  show ?thesis
  proof (cases "mergers s ! t")
    case (At c i)
    define m where "m = (if \<not> c < ncol then Merged else if i < n then Loaded c i (acc_out s c i) else At (Suc c) 0)"
    have s': "s' = s\<lparr>mergers := (mergers s)[t := m]\<rparr>"
      using step t At by (auto simp: quiet_step_def merge_step_def m_def split: if_splits)
    have m: "merger_ok ncol n m" and same: "passed ncol n m c' i' = passed ncol n (mergers s ! t) c' i'" for c' i'
      unfolding At by (auto simp: m_def merger_ok_def passed_def)
    show ?thesis unfolding quiet_inv_def s' using len ok m upd [of m] same by (simp add: list_all_update_at)
  next
    case (Loaded c i v)
    then have s': "s' = s\<lparr>mergers := (mergers s)[t := At c (Suc i)], acc_out := set_out c i (v + tmp t c ! i) (acc_out s)\<rparr>" "acc_out s c i = v"
      using step t by (auto simp: quiet_step_def merge_step_def split: if_splits)
    have b: "c < ncol" "i < n" using ok t Loaded by (auto simp: list_all_length merger_ok_def)
    have p: "passed ncol n (At c (Suc i)) c' i' \<longleftrightarrow> passed ncol n (Loaded c i v) c' i' \<or> c' = c \<and> i' = i" for c' i'
      using b by (auto simp: passed_def)
    have np: "\<not> passed ncol n (Loaded c i v) c i" by (simp add: passed_def)
    have "set_out c i (v + tmp t c ! i) (acc_out s) c' i' =
        (\<Sum>u < n_th. if passed ncol n ((mergers s)[t := At c (Suc i)] ! u) c' i' then tmp u c' ! i' else 0)" for c' i'
      unfolding upd p Loaded using np s'(2) by (auto simp: set_out_def)
    then show ?thesis unfolding quiet_inv_def s' using len ok by (simp add: list_all_update_at merger_ok_def)
  next
    case Merged
    then show ?thesis using step t by (simp add: quiet_step_def merge_step_def)
  qed
qed

lemma quiet_result:
  fixes p :: "('r, 'x, 'f :: linordered_idom) axpy_op"
  assumes "quiet_run row p n_th sched = Some s" "axpy_finished s"
  shows "acc_out s c i = (if c < n_cols p \<and> i < ne00 p then \<Sum>t < n_th. worker_sum row p n_th t c ! i else 0)"
proof -
  have "quiet_inv (worker_sum row p n_th) (n_cols p) (ne00 p) n_th (axpy_init n_th)"
    by (auto simp: quiet_inv_def axpy_init_def list_all_iff merger_ok_def passed_def)
  with assms(1) have "quiet_inv (worker_sum row p n_th) (n_cols p) (ne00 p) n_th s"
    unfolding quiet_run_def by (rule fold_opt_invariant) (rule quiet_inv_step)
  then show ?thesis using assms(2) by (auto simp: quiet_inv_def axpy_finished_def list_all_length passed_def intro!: sum.cong sum.neutral)
qed

lemma quiet_step_is_step: "quiet_step tmp ncol n t s = Some s' \<Longrightarrow> merge_step tmp ncol n t s = Some s'"
  by (auto simp: quiet_step_def split: merger.splits if_splits)

lemma quiet_run_is_run: "quiet_run row p n_th sched = Some s \<Longrightarrow> axpy_run row p n_th sched = Some s"
proof -
  have "fold_opt (quiet_step tmp ncol n) xs s0 = Some s \<Longrightarrow> fold_opt (merge_step tmp ncol n) xs s0 = Some s" for tmp ncol n xs s0
    by (induction xs arbitrary: s0) (auto dest: quiet_step_is_step split: option.splits)
  then show "quiet_run row p n_th sched = Some s \<Longrightarrow> axpy_run row p n_th sched = Some s"
    by (simp add: quiet_run_def axpy_run_def)
qed

subsection \<open>The two kernels\<close>

definition skips :: "('r, 'x, 'f :: ord) axpy_op \<Rightarrow> nat \<Rightarrow> nat \<Rightarrow> bool" where
  "skips p col r \<longleftrightarrow> (case gpu_idx p of None \<Rightarrow> True | Some g \<Rightarrow> g r = 1) \<or> sparse_idx p col r < cutoff p"

definition contrib_f16 :: "(u16 \<Rightarrow> 'f :: linordered_idom) \<Rightarrow> (u16 list, u16 list, 'f) axpy_op \<Rightarrow> nat \<Rightarrow> nat \<Rightarrow> nat \<Rightarrow> 'f" where
  "contrib_f16 cvt p col r i = (if x_cols p col ! r = 0 \<or> skips p col r then 0 else cvt (w_rows p r ! i) * cvt (x_cols p col ! r))"

definition contrib_q4_0 :: "(u16 \<Rightarrow> 'f :: linordered_idom) \<Rightarrow> (block_q4_0 list, block_q8_0 list, 'f) axpy_op \<Rightarrow> nat \<Rightarrow> nat \<Rightarrow> nat \<Rightarrow> 'f" where
  "contrib_q4_0 cvt p col r i =
     (if skips p col r \<or> \<not> i div QK < ne00 p div QK then 0
      else let blk = x_cols p col ! (r div QK); b = w_rows p r ! (i div QK)
           in of_int (q4_quant b (i mod QK) * sint (q8_qs blk ! (r mod QK))) * (cvt (q4_d b) * cvt (q8_d blk)))"

lemma fold_add_upto:
  assumes "k \<le> length (vz :: 'f :: linordered_idom list)"
  shows "length (fold (\<lambda>i res. res[i := res ! i + g i]) [0 ..< k] vz) = length vz \<and>
    (\<forall>j < length vz. fold (\<lambda>i res. res[i := res ! i + g i]) [0 ..< k] vz ! j = vz ! j + (if j < k then g j else 0))"
  using assms by (induction k) (auto simp: nth_list_update less_Suc_eq)

interpretation f16: axpy_kernel "axpy_row_f16 cvt p" "ne00 p" "contrib_f16 cvt p"
  for cvt :: "u16 \<Rightarrow> 'f :: linordered_idom" and p
proof
  fix vy :: "'f list" and col r i
  assume "length vy = ne00 p"
  then have "ne00 p \<le> length vy" by simp
  from fold_add_upto [OF this, of "\<lambda>i. cvt (w_rows p r ! i) * cvt (x_cols p col ! r)"] \<open>length vy = ne00 p\<close>
  show "length (axpy_row_f16 cvt p col r vy) = ne00 p"
    and "i < ne00 p \<Longrightarrow> axpy_row_f16 cvt p col r vy ! i = vy ! i + contrib_f16 cvt p col r i"
    by (auto simp: axpy_row_f16_def ggml_axpy_f16_def contrib_f16_def skips_def)
qed

definition block_term :: "(u16 \<Rightarrow> 'f :: linordered_idom) \<Rightarrow> block_q4_0 \<Rightarrow> int \<Rightarrow> 'f \<Rightarrow> nat \<Rightarrow> 'f" where
  "block_term cvt b alpha scale e = of_int (q4_quant b e * alpha) * (cvt (q4_d b) * scale)"

lemma half_fold:
  assumes "off + QK \<le> length vz" "m \<le> QK div 2"
  shows "length (fold (axpy_half cvt b alpha scale off) [0 ..< m] vz) = length vz \<and>
    (\<forall>e < length vz. fold (axpy_half cvt b alpha scale off) [0 ..< m] vz ! e =
       vz ! e + (if off \<le> e \<and> (e < off + m \<or> off + QK div 2 \<le> e \<and> e < off + QK div 2 + m) then block_term cvt b alpha scale (e - off) else 0))"
  using assms(2)
proof (induction m)
  case (Suc m)
  let ?f = "fold (axpy_half cvt b alpha scale off) [0 ..< m] vz"
  have IH: "length ?f = length vz" "e < length vz \<Longrightarrow> ?f ! e = vz ! e +
      (if off \<le> e \<and> (e < off + m \<or> off + QK div 2 \<le> e \<and> e < off + QK div 2 + m) then block_term cvt b alpha scale (e - off) else 0)" for e
    using Suc by auto
  have q: "QK div 2 = 16" "QK = 32" by (simp_all add: QK_def)
  have step: "fold (axpy_half cvt b alpha scale off) [0 ..< Suc m] vz = axpy_half cvt b alpha scale off m ?f" by simp
  have b: "off + m < length ?f" "off + m + 16 < length ?f" using assms(1) Suc.prems IH(1) q by auto
  show ?case unfolding step
    using b IH Suc.prems
    by (auto simp: axpy_half_def Let_def q nth_list_update block_term_def q4_quant_def)
qed auto

lemma block_fold:
  assumes "off + QK \<le> length vz"
  shows "length (fold (axpy_half cvt b alpha scale off) [0 ..< QK div 2] vz) = length vz"
    and "e < length vz \<Longrightarrow> fold (axpy_half cvt b alpha scale off) [0 ..< QK div 2] vz ! e =
       vz ! e + (if off \<le> e \<and> e < off + QK then block_term cvt b alpha scale (e - off) else 0)"
  using half_fold [OF assms order_refl, of cvt b alpha scale] by (auto simp: QK_def)

lemma axpy_q4_0_nth:
  assumes "nb * QK \<le> length vz"
  shows "length (fold (\<lambda>i. fold (axpy_half cvt (vx ! i) alpha scale (i * QK)) [0 ..< QK div 2]) [0 ..< nb] vz) = length vz \<and>
    (\<forall>e < length vz. fold (\<lambda>i. fold (axpy_half cvt (vx ! i) alpha scale (i * QK)) [0 ..< QK div 2]) [0 ..< nb] vz ! e =
       vz ! e + (if e div QK < nb then block_term cvt (vx ! (e div QK)) alpha scale (e mod QK) else 0))"
  using assms
proof (induction nb)
  case (Suc nb)
  let ?f = "fold (\<lambda>i. fold (axpy_half cvt (vx ! i) alpha scale (i * QK)) [0 ..< QK div 2]) [0 ..< nb] vz"
  have IH: "length ?f = length vz" "e < length vz \<Longrightarrow> ?f ! e = vz ! e +
      (if e div QK < nb then block_term cvt (vx ! (e div QK)) alpha scale (e mod QK) else 0)" for e
    using Suc by auto
  have b: "nb * QK + QK \<le> length ?f" using Suc.prems IH(1) by simp
  have e: "nb * QK \<le> e \<and> e < nb * QK + QK \<longleftrightarrow> e div QK = nb" for e by (auto simp: QK_def)
  have m: "e div QK = nb \<Longrightarrow> e - nb * QK = e mod QK" for e by (auto simp: minus_div_mult_eq_mod)
  show ?case using block_fold [OF b, where cvt = cvt and b = "vx ! nb" and alpha = alpha and scale = scale] IH by (auto simp: e m less_Suc_eq)
qed simp

interpretation q4: axpy_kernel "axpy_row_q4_0 cvt p" "ne00 p" "contrib_q4_0 cvt p"
  for cvt :: "u16 \<Rightarrow> 'f :: linordered_idom" and p
proof
  fix vy :: "'f list" and col r i
  assume "length vy = ne00 p"
  then have n: "ne00 p div QK * QK \<le> length vy" by simp
  define blk where "blk = x_cols p col ! (r div QK)"
  define B where "B = sint (q8_qs blk ! (r mod QK))"
  have row: "axpy_row_q4_0 cvt p col r vy = (if skips p col r \<or> B = 0 then vy else ggml_axpy_q4_0_q8_0 cvt (ne00 p) (w_rows p r) vy B (q8_d blk))"
    by (simp add: axpy_row_q4_0_def skips_def Let_def blk_def B_def)
  have contrib: "contrib_q4_0 cvt p col r i = (if skips p col r \<or> \<not> i div QK < ne00 p div QK then 0
      else block_term cvt (w_rows p r ! (i div QK)) B (cvt (q8_d blk)) (i mod QK))"
    by (simp only: contrib_q4_0_def Let_def block_term_def blk_def [symmetric] B_def [symmetric])
  have zero: "block_term cvt b 0 sc e = 0" for b sc e by (simp add: block_term_def)
  show "length (axpy_row_q4_0 cvt p col r vy) = ne00 p"
    and "i < ne00 p \<Longrightarrow> axpy_row_q4_0 cvt p col r vy ! i = vy ! i + contrib_q4_0 cvt p col r i"
    unfolding row contrib using \<open>length vy = ne00 p\<close>
      axpy_q4_0_nth [OF n, where cvt = cvt and vx = "w_rows p r" and alpha = B and scale = "cvt (q8_d blk)"]
    by (auto simp: ggml_axpy_q4_0_q8_0_def zero)
qed

lemma axpy_q4_0_quiet:
  assumes "quiet_run (axpy_row_q4_0 cvt p) p n_th sched = Some s" "axpy_finished s" "0 < n_th" "c < n_cols p" "i < ne00 p"
  shows "acc_out s c i = (\<Sum>r < n_rows p. contrib_q4_0 cvt p c r i)"
  using quiet_result [OF assms(1,2), of c i] q4.worker_sums_total [OF refl assms(5,3), where col = c] assms(4,5) by simp

lemma axpy_f16_cell:
  assumes "quiet_run (axpy_row_f16 cvt p) p n_th sched = Some s" "axpy_finished s" "0 < n_th" "c < n_cols p" "i < ne00 p"
  shows "acc_out s c i = (\<Sum>r < n_rows p. contrib_f16 cvt p c r i)"
  using quiet_result [OF assms(1,2), of c i] f16.worker_sums_total [OF refl assms(5,3), where col = c] assms(4,5) by simp

text \<open>Runs without collisions exist: the workers one after the other.\<close>

definition merge_left :: "nat \<Rightarrow> nat \<Rightarrow> 'f merger \<Rightarrow> nat" where
  "merge_left ncol n m = (case m of At c i \<Rightarrow> Suc ((ncol - c) * (n + 2) + (n - i)) | _ \<Rightarrow> 0)"

definition none_loaded :: "'f merger list \<Rightarrow> bool" where
  "none_loaded ms = list_all (\<lambda>m. case m of Loaded c i v \<Rightarrow> False | _ \<Rightarrow> True) ms"

lemma careful_advance:
  assumes "none_loaded (mergers s)" "\<not> axpy_finished s"
  shows "\<exists>sched s'. fold_opt (careful_step tmp ncol n) sched s = Some s' \<and> none_loaded (mergers s') \<and>
    sum_list (map (merge_left ncol n) (mergers s')) < sum_list (map (merge_left ncol n) (mergers s))"
proof -
  obtain t where t: "t < length (mergers s)" "mergers s ! t \<noteq> Merged" using assms(2) by (auto simp: axpy_finished_def list_all_length)
  then obtain c i where at: "mergers s ! t = At c i"
    using assms(1) by (cases "mergers s ! t") (auto simp: none_loaded_def list_all_length)
  have upd: "none_loaded ((mergers s)[t := m]) \<and>
      sum_list (map (merge_left ncol n) ((mergers s)[t := m])) < sum_list (map (merge_left ncol n) (mergers s))"
    if "merge_left ncol n m < merge_left ncol n (At c i :: 'a merger)" "\<And>c i v. m \<noteq> Loaded c i v" for m
  proof -
    have "none_loaded ((mergers s)[t := m])"
      using assms(1) that(2) unfolding none_loaded_def by (intro list_all_update_at) (auto split: merger.split)
    moreover have "merge_left ncol n (mergers s ! t) \<le> sum_list (map (merge_left ncol n) (mergers s))"
      using t(1) by (intro member_le_sum_list) simp_all
    ultimately show ?thesis using that(1) t(1) at by (simp add: map_update sum_list_update)
  qed
  have quiet: "\<not> collides t (mergers s)" "\<not> collides t ((mergers s)[t := Loaded c i v])" for v
  proof -
    have "mergers s ! u \<noteq> Loaded c' i' v'" if "u < length (mergers s)" for u c' i' v'
      using assms(1) that by (force simp: none_loaded_def list_all_length)
    then show "\<not> collides t (mergers s)" "\<not> collides t ((mergers s)[t := Loaded c i v])"
      using at t(1) by (auto simp: collides_def list_ex_iff split: merger.splits)
  qed
  show ?thesis
  proof (cases "c < ncol \<and> i < n")
    case False
    define m where "m = (if c < ncol then At (Suc c) 0 else Merged :: 'a merger)"
    have "careful_step tmp ncol n t s = Some (s\<lparr>mergers := (mergers s)[t := m]\<rparr>)"
      using False t(1) at by (auto simp: careful_step_def merge_step_def quiet m_def)
    moreover have "merge_left ncol n m < merge_left ncol n (At c i :: 'a merger)"
    proof (cases "ncol - c")
      case 0
      then show ?thesis by (simp add: merge_left_def m_def)
    next
      case (Suc k)
      then have "ncol - Suc c = k" "c < ncol" by simp_all
      then show ?thesis unfolding merge_left_def m_def by (simp add: Suc del: diff_is_0_eq)
    qed
    ultimately show ?thesis using upd [of m] by (intro exI [of _ "[t]"]) (auto simp: m_def)
  next
    case True
    let ?s1 = "s\<lparr>mergers := (mergers s)[t := Loaded c i (acc_out s c i)]\<rparr>"
    have "careful_step tmp ncol n t s = Some ?s1" using True t(1) at by (simp add: careful_step_def merge_step_def quiet)
    moreover have "careful_step tmp ncol n t ?s1 = Some (s\<lparr>mergers := (mergers s)[t := At c (Suc i)],
        acc_out := set_out c i (acc_out s c i + tmp t c ! i) (acc_out s)\<rparr>)"
      using t(1) by (simp add: careful_step_def merge_step_def quiet)
    moreover have "merge_left ncol n (At c (Suc i) :: 'a merger) < merge_left ncol n (At c i :: 'a merger)"
      using True by (auto simp: merge_left_def)
    ultimately show ?thesis using upd [of "At c (Suc i)"] by (intro exI [of _ "[t, t]"]) auto
  qed
qed

lemma careful_can_finish:
  "\<exists>sched s. fold_opt (careful_step tmp ncol n) sched (axpy_init n_th) = Some s \<and> axpy_finished s"
proof -
  have "\<exists>sched s'. fold_opt (careful_step tmp ncol n) sched s = Some s' \<and> axpy_finished s'" if "none_loaded (mergers s)" for s
    using that
  proof (induction "sum_list (map (merge_left ncol n) (mergers s))" arbitrary: s rule: less_induct)
    case less
    show ?case
    proof (cases "axpy_finished s")
      case True
      then show ?thesis by (intro exI [of _ "[]"]) simp
    next
      case False
      obtain xs s1 where s1: "fold_opt (careful_step tmp ncol n) xs s = Some s1" "none_loaded (mergers s1)"
          "sum_list (map (merge_left ncol n) (mergers s1)) < sum_list (map (merge_left ncol n) (mergers s))"
        using careful_advance [OF less.prems False] by blast
      then obtain sched s' where "fold_opt (careful_step tmp ncol n) sched s1 = Some s'" "axpy_finished s'" using less.hyps [of s1] by blast
      then show ?thesis using s1(1) by (intro exI [of _ "xs @ sched"]) (simp add: fold_opt_append)
    qed
  qed
  moreover have "none_loaded (mergers (axpy_init n_th))" by (simp add: none_loaded_def axpy_init_def list_all_iff)
  ultimately show ?thesis by blast
qed

text \<open>Where the workers are does not depend on the numbers.\<close>

definition places :: "'f axpy_state \<Rightarrow> unit merger list" where
  "places s = map (map_merger (\<lambda>_. ())) (mergers s)"

lemma places_length: "places s = places s' \<Longrightarrow> length (mergers s) = length (mergers s')"
  unfolding places_def by (metis length_map)

lemma places_at: "places s = places s' \<Longrightarrow> t < length (mergers s) \<Longrightarrow> map_merger (\<lambda>_. ()) (mergers s ! t) = map_merger (\<lambda>_. ()) (mergers s' ! t)"
  using places_length [of s s'] unfolding places_def by (metis nth_map)

lemma merge_step_places:
  assumes "places s = places s'"
  shows "rel_option (\<lambda>a b. places a = places b) (merge_step tmp ncol n t s) (merge_step tmp' ncol n t s')"
proof (cases "t < length (mergers s)")
  case True
  note len = places_length [OF assms] and here = places_at [OF assms True]
  have upd: "map_merger (\<lambda>_. ()) m = map_merger (\<lambda>_. ()) m' \<Longrightarrow>
      map (map_merger (\<lambda>_. ())) ((mergers s)[t := m]) = map (map_merger (\<lambda>_. ())) ((mergers s')[t := m'])" for m m'
    using assms by (simp add: map_update places_def)
  show ?thesis
  proof (cases "mergers s ! t")
    case (At c i)
    then have "mergers s' ! t = At c i" using here by (cases "mergers s' ! t") auto
    then show ?thesis using At True len by (auto simp: merge_step_def places_def intro!: upd)
  next
    case (Loaded c i v)
    then obtain v' where "mergers s' ! t = Loaded c i v'" using here by (cases "mergers s' ! t") auto
    then show ?thesis using Loaded True len by (auto simp: merge_step_def places_def intro!: upd)
  next
    case Merged
    then have "mergers s' ! t = Merged" using here by (cases "mergers s' ! t") auto
    then show ?thesis using Merged True len by (simp add: merge_step_def)
  qed
next
  case False
  then show ?thesis using places_length [OF assms] by (simp add: merge_step_def)
qed

lemma collides_places:
  assumes "places s = places s'" "t < length (mergers s)"
  shows "collides t (mergers s) = collides t (mergers s')"
proof -
  have l: "(case m of Loaded c' i' v' \<Rightarrow> c' = c \<and> i' = i | _ \<Rightarrow> False) \<longleftrightarrow> map_merger (\<lambda>_. ()) m = Loaded c i ()" for m c i
    by (cases m) auto
  have c: "collides t ms \<longleftrightarrow> (\<exists>c i. map_merger (\<lambda>_. ()) (ms ! t) = Loaded c i () \<and>
      (\<exists>u < length ms. u \<noteq> t \<and> map_merger (\<lambda>_. ()) (ms ! u) = Loaded c i ()))" for ms
    by (cases "ms ! t") (auto simp: collides_def list_ex_iff l)
  show ?thesis unfolding c using places_at [OF assms(1)] places_length [OF assms(1)] assms(2) by metis
qed

lemma careful_step_places:
  assumes "places s = places s'"
  shows "rel_option (\<lambda>a b. places a = places b) (careful_step tmp ncol n t s) (careful_step tmp' ncol n t s')"
proof (cases "t < length (mergers s)")
  case True
  then show ?thesis using collides_places [OF assms True] merge_step_places [OF assms] by (simp add: careful_step_def)
next
  case False
  then show ?thesis using places_length [OF assms] by (simp add: careful_step_def merge_step_def)
qed

lemma careful_run_places:
  assumes "places s = places s'"
  shows "rel_option (\<lambda>a b. places a = places b) (fold_opt (careful_step tmp ncol n) sched s) (fold_opt (careful_step tmp' ncol n) sched s')"
  using assms
proof (induction sched arbitrary: s s')
  case (Cons t sched)
  show ?case using careful_step_places [OF Cons.prems, of tmp ncol n t tmp'] Cons.IH by (auto elim!: option.rel_cases)
qed simp

lemma places_init: "places (axpy_init n_th :: 'f :: zero axpy_state) = places (axpy_init n_th :: 'g :: zero axpy_state)"
  by (simp add: places_def axpy_init_def)

lemma collision_free_run:
  "collision_free n_th ncol n sched \<longleftrightarrow> fold_opt (careful_step tmp ncol n) sched (axpy_init n_th) \<noteq> None"
  using careful_run_places [OF places_init, of "\<lambda>_ _. replicate n (0 :: nat)" ncol n sched n_th tmp]
  by (auto simp: collision_free_def elim!: option.rel_cases)

text \<open>A run of a schedule without collisions is quiet.\<close>

definition loads_current :: "'f axpy_state \<Rightarrow> bool" where
  "loads_current s \<longleftrightarrow> (\<forall>u < length (mergers s). \<forall>c i v. mergers s ! u = Loaded c i v \<longrightarrow> acc_out s c i = v)"

lemma careful_quiet:
  assumes "careful_step tmp ncol n t s = Some s'" "loads_current s"
  shows "quiet_step tmp ncol n t s = Some s' \<and> loads_current s'"
proof -
  have nc: "\<not> collides t (mergers s)" and st: "merge_step tmp ncol n t s = Some s'"
    using assms(1) by (auto simp: careful_step_def split: if_splits)
  have t: "t < length (mergers s)" using st by (auto simp: merge_step_def split: if_splits)
  show ?thesis
  proof (cases "mergers s ! t")
    case (At c i)
    then show ?thesis using st t assms(2) by (auto simp: quiet_step_def merge_step_def loads_current_def nth_list_update split: if_splits)
  next
    case (Loaded c i v)
    have other: "\<not> (c' = c \<and> i' = i)" if "u < length (mergers s)" "u \<noteq> t" "mergers s ! u = Loaded c' i' v'" for u c' i' v'
      using nc Loaded that by (force simp: collides_def list_ex_iff)
    have v: "acc_out s c i = v" using assms(2) t Loaded by (simp add: loads_current_def)
    have "s' = s\<lparr>mergers := (mergers s)[t := At c (Suc i)], acc_out := set_out c i (v + tmp t c ! i) (acc_out s)\<rparr>"
      using st t Loaded by (simp add: merge_step_def)
    then show ?thesis using st t Loaded v assms(2) other
      by (auto simp: quiet_step_def loads_current_def nth_list_update set_out_def split: if_splits)
  next
    case Merged
    then show ?thesis using st t by (simp add: merge_step_def)
  qed
qed

lemma collision_free_quiet:
  assumes "axpy_run row p n_th sched = Some s" "collision_free n_th (n_cols p) (ne00 p) sched"
  shows "quiet_run row p n_th sched = Some s"
proof -
  let ?tmp = "worker_sum row p n_th"
  have "fold_opt (careful_step ?tmp (n_cols p) (ne00 p)) xs s0 \<noteq> None \<Longrightarrow> fold_opt (merge_step ?tmp (n_cols p) (ne00 p)) xs s0 = Some s \<Longrightarrow>
      loads_current s0 \<Longrightarrow> fold_opt (quiet_step ?tmp (n_cols p) (ne00 p)) xs s0 = Some s" for xs s0
  proof (induction xs arbitrary: s0)
    case (Cons x xs)
    then obtain s1 where s1: "careful_step ?tmp (n_cols p) (ne00 p) x s0 = Some s1" by (auto split: option.splits)
    then have "merge_step ?tmp (n_cols p) (ne00 p) x s0 = Some s1" by (simp add: careful_step_def split: if_splits)
    then show ?case using Cons.IH [of s1] Cons.prems(1,2) s1 careful_quiet [OF s1 Cons.prems(3)] by simp
  qed simp
  moreover have "loads_current (axpy_init n_th)" by (simp add: loads_current_def axpy_init_def)
  moreover have "fold_opt (careful_step ?tmp (n_cols p) (ne00 p)) sched (axpy_init n_th) \<noteq> None"
    using assms(2) unfolding collision_free_run [of n_th "n_cols p" "ne00 p" sched ?tmp] .
  ultimately show ?thesis using assms(1) unfolding axpy_run_def quiet_run_def by blast
qed

text \<open>One worker alone has no collisions.\<close>

lemma one_worker_collision_free:
  assumes "axpy_run row p 1 sched = Some s"
  shows "collision_free 1 (n_cols p) (ne00 p) sched"
proof -
  let ?tmp = "worker_sum row p 1"
  have "length (mergers s0) = 1 \<Longrightarrow> fold_opt (merge_step ?tmp (n_cols p) (ne00 p)) xs s0 = Some s \<Longrightarrow>
      fold_opt (careful_step ?tmp (n_cols p) (ne00 p)) xs s0 = Some s" for xs s0
  proof (induction xs arbitrary: s0)
    case (Cons x xs)
    from Cons.prems(2) obtain s1 where s1: "merge_step ?tmp (n_cols p) (ne00 p) x s0 = Some s1"
        "fold_opt (merge_step ?tmp (n_cols p) (ne00 p)) xs s1 = Some s" by (auto split: option.splits)
    have "x < length (mergers s0)" using s1(1) by (auto simp: merge_step_def split: if_splits)
    then have "\<not> collides x (mergers s0)" using Cons.prems(1) by (auto simp: collides_def list_ex_iff split: merger.splits)
    moreover have "length (mergers s1) = 1" using s1(1) Cons.prems(1) by (auto simp: merge_step_def split: if_splits merger.splits)
    ultimately show ?case using Cons.IH [of s1] s1 by (simp add: careful_step_def)
  qed simp
  from this [of "axpy_init 1" sched] assms show ?thesis
    unfolding collision_free_run [of 1 "n_cols p" "ne00 p" sched ?tmp] by (simp add: axpy_run_def axpy_init_def)
qed

text \<open>A complete run without collisions.\<close>

lemma calm_run_exists:
  "\<exists>sched s. axpy_run row p n_th sched = Some s \<and> axpy_finished s \<and> collision_free n_th (n_cols p) (ne00 p) sched"
proof -
  let ?tmp = "worker_sum row p n_th"
  obtain sched s where s: "fold_opt (careful_step ?tmp (n_cols p) (ne00 p)) sched (axpy_init n_th) = Some s" "axpy_finished s"
    using careful_can_finish by blast
  have "fold_opt (careful_step ?tmp (n_cols p) (ne00 p)) xs s0 = Some s \<Longrightarrow> fold_opt (merge_step ?tmp (n_cols p) (ne00 p)) xs s0 = Some s" for xs s0
    by (induction xs arbitrary: s0) (auto simp: careful_step_def split: option.splits if_splits)
  from this [OF s(1)] s show ?thesis unfolding axpy_run_def collision_free_run [of n_th "n_cols p" "ne00 p" _ ?tmp] by blast
qed

text \<open>In a quiet run, where every worker stores onto the value it has loaded, the F16 kernel leaves in
  every cell of \<open>dst\<close> the sum, over the neurons that are not on the GPU and not below the threshold, of the
  weight times the activation, however the rows are shared out among the workers.  A quiet run is a run of
  the code.\<close>

theorem axpy_f16_quiet:
  assumes "quiet_run (axpy_row_f16 cvt p) p n_th sched = Some s" "axpy_finished s" "0 < n_th" "c < n_cols p" "i < ne00 p"
  shows "axpy_run (axpy_row_f16 cvt p) p n_th sched = Some s \<and> acc_out s c i = (\<Sum>r < n_rows p. contrib_f16 cvt p c r i)"
  using axpy_f16_cell [OF assms] quiet_run_is_run [OF assms(1)] by simp

text \<open>Two workers, two neurons, one element: the workers one after the other, and interleaved.\<close>

definition tiny_axpy :: "(u16 list, u16 list, int) axpy_op" where
  "tiny_axpy = \<lparr>ne00 = 1, n_rows = 2, n_cols = 1, w_rows = (\<lambda>r. if r = 0 then [3] else [5]), x_cols = (\<lambda>_. [10, 100]),
     sparse_idx = (\<lambda>_ _. 1), gpu_idx = Some (\<lambda>_. 0), cutoff = 0\<rparr>"

lemmas tiny_axpy_eval = axpy_run_def quiet_run_def quiet_step_def merge_step_def axpy_init_def worker_sum_def axpy_dr_def
  axpy_row_f16_def ggml_axpy_f16_def set_out_def tiny_axpy_def axpy_finished_def numeral_2_eq_2

lemma tiny_serial: "\<exists>s. quiet_run (axpy_row_f16 uint tiny_axpy) tiny_axpy 2 [0, 0, 0, 0, 1, 1, 1, 1] = Some s \<and> axpy_finished s"
  by (simp add: tiny_axpy_eval)

lemma axpy_f16_quiet_witness:
  "\<exists>s. axpy_run (axpy_row_f16 uint tiny_axpy) tiny_axpy 2 [0, 0, 0, 0, 1, 1, 1, 1] = Some s \<and> acc_out s 0 0 = 530"
proof -
  obtain s where s: "quiet_run (axpy_row_f16 uint tiny_axpy) tiny_axpy 2 [0, 0, 0, 0, 1, 1, 1, 1] = Some s" "axpy_finished s"
    using tiny_serial by blast
  have "(\<Sum>r < n_rows tiny_axpy. contrib_f16 uint tiny_axpy 0 r 0) = 530"
    by (simp add: tiny_axpy_def contrib_f16_def skips_def lessThan_nat_numeral)
  with axpy_f16_quiet [OF s, of 0 0] show ?thesis by (auto simp: tiny_axpy_def)
qed

subsection \<open>A run that loses an update\<close>

text \<open>\<open>alone t s s'\<close>: worker \<open>t\<close> gets from \<open>s\<close> to \<open>s'\<close> by itself.\<close>

definition alone :: "(nat \<Rightarrow> nat \<Rightarrow> 'f list) \<Rightarrow> nat \<Rightarrow> nat \<Rightarrow> nat \<Rightarrow> 'f :: plus axpy_state \<Rightarrow> 'f axpy_state \<Rightarrow> bool" where
  "alone tmp ncol n t s s' \<longleftrightarrow> (\<exists>k. fold_opt (merge_step tmp ncol n) (replicate k t) s = Some s')"

lemma alone_refl: "alone tmp ncol n t s s"
  unfolding alone_def by (rule exI [of _ 0]) simp

lemma alone_step: "merge_step tmp ncol n t s = Some s1 \<Longrightarrow> alone tmp ncol n t s1 s' \<Longrightarrow> alone tmp ncol n t s s'"
  unfolding alone_def by (elim exE, rule_tac x = "Suc k" in exI) simp

lemma alone_column:
  assumes "t < length (mergers s)" "mergers s ! t = At c i" "c < ncol" "i \<le> n"
  shows "\<exists>s'. alone tmp ncol n t s s' \<and> mergers s' = (mergers s)[t := At (Suc c) 0] \<and>
    (\<forall>c' i'. c' \<noteq> c \<or> i' < i \<longrightarrow> acc_out s' c' i' = acc_out s c' i')"
  using assms
proof (induction "n - i" arbitrary: i s)
  case 0
  have "merge_step tmp ncol n t s = Some (s\<lparr>mergers := (mergers s)[t := At (Suc c) 0]\<rparr>)" using 0 by (simp add: merge_step_def)
  from alone_step [OF this alone_refl] show ?case by force
next
  case (Suc k)
  let ?s1 = "s\<lparr>mergers := (mergers s)[t := Loaded c i (acc_out s c i)]\<rparr>"
  let ?s2 = "s\<lparr>mergers := (mergers s)[t := At c (Suc i)], acc_out := set_out c i (acc_out s c i + tmp t c ! i) (acc_out s)\<rparr>"
  have 1: "merge_step tmp ncol n t s = Some ?s1" using Suc by (simp add: merge_step_def)
  have 2: "merge_step tmp ncol n t ?s1 = Some ?s2" using Suc by (simp add: merge_step_def)
  have "\<exists>s'. alone tmp ncol n t ?s2 s' \<and> mergers s' = (mergers ?s2)[t := At (Suc c) 0] \<and>
      (\<forall>c' i'. c' \<noteq> c \<or> i' < Suc i \<longrightarrow> acc_out s' c' i' = acc_out ?s2 c' i')"
    by (rule Suc.hyps(1)) (use Suc.hyps(2) Suc.prems in auto)
  then obtain s' where s': "alone tmp ncol n t ?s2 s'" "mergers s' = (mergers s)[t := At (Suc c) 0]"
      "\<And>c' i'. c' \<noteq> c \<or> i' < Suc i \<Longrightarrow> acc_out s' c' i' = acc_out ?s2 c' i'"
    by auto
  have "acc_out s' c' i' = acc_out s c' i'" if "c' \<noteq> c \<or> i' < i" for c' i'
    using s'(3) [of c' i'] that by (auto simp: set_out_def)
  then show ?case using alone_step [OF 1 alone_step [OF 2 s'(1)]] s'(2) by blast
qed

lemma alone_trans: "alone tmp ncol n t s s1 \<Longrightarrow> alone tmp ncol n t s1 s2 \<Longrightarrow> alone tmp ncol n t s s2"
  unfolding alone_def by (elim exE, rule_tac x = "k + ka" in exI) (simp add: replicate_add fold_opt_append)

lemma alone_to_the_end:
  assumes "t < length (mergers s)" "mergers s ! t = At c i" "i \<le> n" "c < ncol \<or> i = 0"
  shows "\<exists>s'. alone tmp ncol n t s s' \<and> mergers s' = (mergers s)[t := Merged] \<and>
    (\<forall>c' i'. c' < c \<or> c' = c \<and> i' < i \<longrightarrow> acc_out s' c' i' = acc_out s c' i')"
  using assms
proof (induction "ncol - c" arbitrary: c i s)
  case 0
  have "merge_step tmp ncol n t s = Some (s\<lparr>mergers := (mergers s)[t := Merged]\<rparr>)" using 0 by (simp add: merge_step_def)
  from alone_step [OF this alone_refl] show ?case by force
next
  case (Suc k)
  obtain s1 where s1: "alone tmp ncol n t s s1" "mergers s1 = (mergers s)[t := At (Suc c) 0]"
      "\<And>c' i'. c' \<noteq> c \<or> i' < i \<Longrightarrow> acc_out s1 c' i' = acc_out s c' i'"
    using alone_column [of t s c i ncol n tmp] Suc.prems Suc.hyps(2) by (metis less_imp_Suc_add zero_less_Suc zero_less_diff)
  have "\<exists>s'. alone tmp ncol n t s1 s' \<and> mergers s' = (mergers s1)[t := Merged] \<and>
      (\<forall>c' i'. c' < Suc c \<or> c' = Suc c \<and> i' < 0 \<longrightarrow> acc_out s' c' i' = acc_out s1 c' i')"
    by (rule Suc.hyps(1)) (use Suc s1 in auto)
  then obtain s' where s': "alone tmp ncol n t s1 s'" "mergers s' = (mergers s)[t := Merged]"
      "\<And>c' i'. c' < Suc c \<Longrightarrow> acc_out s' c' i' = acc_out s1 c' i'"
    using s1(2) by auto
  have "acc_out s' c' i' = acc_out s c' i'" if "c' < c \<or> c' = c \<and> i' < i" for c' i'
    using s'(3) [of c' i'] s1(3) [of c' i'] that by auto
  then show ?case using alone_trans [OF s1(1) s'(1)] s'(2) by blast
qed

lemma others_to_the_end:
  assumes "distinct ts" "\<And>t. t \<in> set ts \<Longrightarrow> t < length (mergers s) \<and> mergers s ! t = At 0 0"
  shows "\<exists>sched s'. fold_opt (merge_step tmp ncol n) sched s = Some s' \<and> length (mergers s') = length (mergers s) \<and>
    (\<forall>t < length (mergers s). mergers s' ! t = (if t \<in> set ts then Merged else mergers s ! t))"
  using assms
proof (induction ts arbitrary: s)
  case Nil
  then show ?case by (intro exI [of _ "[]"]) simp
next
  case (Cons t ts)
  obtain s1 where s1: "alone tmp ncol n t s s1" "mergers s1 = (mergers s)[t := Merged]"
    using alone_to_the_end [of t s 0 0 n ncol tmp] Cons.prems by auto
  have "\<And>u. u \<in> set ts \<Longrightarrow> u < length (mergers s1) \<and> mergers s1 ! u = At 0 0"
    using Cons.prems s1(2) by (auto simp: nth_list_update)
  then obtain sched s' where s': "fold_opt (merge_step tmp ncol n) sched s1 = Some s'" "length (mergers s') = length (mergers s1)"
      "\<And>u. u < length (mergers s1) \<Longrightarrow> mergers s' ! u = (if u \<in> set ts then Merged else mergers s1 ! u)"
    using Cons.IH [of s1] Cons.prems(1) by (metis distinct.simps(2))
  obtain k where "fold_opt (merge_step tmp ncol n) (replicate k t) s = Some s1" using s1(1) by (auto simp: alone_def)
  then have "fold_opt (merge_step tmp ncol n) (replicate k t @ sched) s = Some s'" using s'(1) by (simp add: fold_opt_append)
  moreover have "length (mergers s') = length (mergers s)" using s'(2) s1(2) by simp
  moreover have "\<forall>u < length (mergers s). mergers s' ! u = (if u \<in> set (t # ts) then Merged else mergers s ! u)"
    using s'(3) s1(2) by (auto simp: nth_list_update)
  ultimately show ?case by blast
qed

text \<open>C27: nothing protects the additions to \<open>dst\<close>: whenever there are two workers or more there is a run
  after which the first element of \<open>dst\<close> is the sum of worker 0 alone; what all other workers added is lost.\<close>

theorem axpy_loses_updates:
  assumes "0 < n_th" "0 < n_cols p" "0 < ne00 p"
  shows "\<exists>sched s. axpy_run row p n_th sched = Some s \<and> axpy_finished s \<and> acc_out s 0 0 = 0 + worker_sum row p n_th 0 0 ! 0"
proof -
  let ?tmp = "worker_sum row p n_th" and ?step = "merge_step (worker_sum row p n_th) (n_cols p) (ne00 p)"
  let ?s0 = "axpy_init n_th :: 'c axpy_state"
  let ?s1 = "?s0\<lparr>mergers := (mergers ?s0)[0 := Loaded 0 0 0]\<rparr>"
  have 1: "?step 0 ?s0 = Some ?s1" using assms by (simp add: merge_step_def axpy_init_def)
  have len: "length (mergers ?s1) = n_th" by (simp add: axpy_init_def)
  have start: "t < n_th \<Longrightarrow> mergers ?s1 ! t = (if 0 < t then At 0 0 else Loaded 0 0 0)" for t
    by (simp add: axpy_init_def nth_list_update)
  have "\<exists>sched s'. fold_opt ?step sched ?s1 = Some s' \<and> length (mergers s') = length (mergers ?s1) \<and>
      (\<forall>t < length (mergers ?s1). mergers s' ! t = (if t \<in> set [1 ..< n_th] then Merged else mergers ?s1 ! t))"
    by (rule others_to_the_end) (auto simp: axpy_init_def)
  then obtain sched s2 where s2: "fold_opt ?step sched ?s1 = Some s2" "length (mergers s2) = n_th"
      "\<And>t. t < n_th \<Longrightarrow> mergers s2 ! t = (if t \<in> set [1 ..< n_th] then Merged else mergers ?s1 ! t)"
    unfolding len by blast
  have at: "t < n_th \<Longrightarrow> mergers s2 ! t = (if 0 < t then Merged else Loaded 0 0 0)" for t
    using s2(3) [of t] start [of t] by auto
  let ?s3 = "s2\<lparr>mergers := (mergers s2)[0 := At 0 1], acc_out := set_out 0 0 (0 + ?tmp 0 0 ! 0) (acc_out s2)\<rparr>"
  have 3: "?step 0 s2 = Some ?s3" using s2(2) at [OF assms(1)] assms(1) by (simp add: merge_step_def)
  obtain s4 where s4: "alone ?tmp (n_cols p) (ne00 p) 0 ?s3 s4" "mergers s4 = (mergers ?s3)[0 := Merged]" "acc_out s4 0 0 = acc_out ?s3 0 0"
    using alone_to_the_end [of 0 ?s3 0 1 "ne00 p" "n_cols p" ?tmp] s2(2) assms by auto
  then obtain k where k: "fold_opt ?step (replicate k 0) ?s3 = Some s4" by (auto simp: alone_def)
  have "axpy_run row p n_th (0 # sched @ 0 # replicate k 0) = Some s4"
    using 1 s2(1) 3 k by (simp add: axpy_run_def fold_opt_append)
  moreover have "axpy_finished s4" using s4(2) s2(2) at by (auto simp: axpy_finished_def list_all_length nth_list_update)
  moreover have "acc_out s4 0 0 = 0 + ?tmp 0 0 ! 0" using s4(3) by (simp add: set_out_def)
  ultimately show ?thesis by blast
qed

lemma axpy_loses_updates_witness:
  "\<exists>sched s. axpy_run (axpy_row_f16 uint tiny_axpy) tiny_axpy 2 sched = Some s \<and> axpy_finished s \<and> acc_out s 0 0 = 30"
proof -
  have "\<exists>sched s. axpy_run (axpy_row_f16 uint tiny_axpy) tiny_axpy 2 sched = Some s \<and> axpy_finished s \<and>
      acc_out s 0 0 = 0 + worker_sum (axpy_row_f16 uint tiny_axpy) tiny_axpy 2 0 0 ! 0"
    by (rule axpy_loses_updates) (simp_all add: tiny_axpy_def)
  moreover have "worker_sum (axpy_row_f16 uint tiny_axpy) tiny_axpy 2 0 0 ! 0 = 30"
    by (simp add: worker_sum_def axpy_dr_def axpy_row_f16_def ggml_axpy_f16_def tiny_axpy_def Let_def)
  ultimately show ?thesis by simp
qed

end
