(* ===== verification/Sparse_Cuda.thy ===== *)
theory Sparse_Cuda
  imports Packed_Kernel
begin

text \<open>
  The sparse kernels of the GPU (\<open>ggml-cuda.cu\<close>): the neurons of a layer that were offloaded are rows of a
  smaller matrix, and \<open>lst\<close> (the \<open>gpu_bucket\<close>) gives the neuron of each row.  A launch is the list of the
  blocks in the order in which the device runs them.  Blocks add to \<open>dst\<close> atomically.  Inside a block the 32
  lanes of the warp run in lockstep, up to the exchange of the partial sums, which is modelled as it is
  written.  Numbers are an ordered ring; \<open>cvt\<close> converts a half.  Memory is a function from indices, so a
  read past a row sees what comes next.
\<close>

definition WARP_SIZE :: nat where "WARP_SIZE = 32"
definition GGML_CUDA_DMMV_X :: nat where "GGML_CUDA_DMMV_X = 32"

subsection \<open>The exchange of partial sums\<close>

definition warp_step :: "nat \<Rightarrow> 'f :: plus list \<Rightarrow> 'f list" where
  "warp_step lmask tmp = map (\<lambda>lane. tmp ! lane + tmp ! (lane XOR lmask)) [0 ..< WARP_SIZE]"

definition warp_reduce :: "'f :: plus list \<Rightarrow> 'f list" where
  "warp_reduce tmp = fold warp_step [16, 8, 4, 2, 1] tmp"

subsection \<open>The partial sum of a lane\<close>

definition iter_stride :: nat where "iter_stride = 2 * GGML_CUDA_DMMV_X"
definition vals_per_iter :: nat where "vals_per_iter = iter_stride div WARP_SIZE"

definition deq_f16 :: "(u16 \<Rightarrow> 'f) \<Rightarrow> (nat \<Rightarrow> u16) \<Rightarrow> nat \<Rightarrow> nat \<Rightarrow> 'f \<times> 'f" where
  "deq_f16 cvt vx ib iqs = (cvt (vx (ib + iqs + 0)), cvt (vx (ib + iqs + 1)))"

definition deq_q4_0 :: "(u16 \<Rightarrow> 'f :: linordered_idom) \<Rightarrow> (nat \<Rightarrow> block_q4_0) \<Rightarrow> nat \<Rightarrow> nat \<Rightarrow> 'f \<times> 'f" where
  "deq_q4_0 cvt vx ib iqs =
     (let d = cvt (q4_d (vx ib)); vui = q4_qs (vx ib) ! iqs
      in ((of_int (uint (vui AND 0x0F)) - 8) * d, (of_int (uint (drop_bit 4 vui)) - 8) * d))"

text \<open>The loops over \<open>i\<close> take \<open>iter_stride\<close> columns at a time; \<open>vals_per_iter\<close> is 2, so the loop over \<open>j\<close>
  runs once, with \<open>j = 0\<close>.\<close>

definition iters :: "nat \<Rightarrow> nat list" where
  "iters ncols = map (\<lambda>k. k * iter_stride) [0 ..< (ncols + iter_stride - 1) div iter_stride]"

definition x_index :: "nat \<Rightarrow> nat \<Rightarrow> nat \<Rightarrow> nat \<Rightarrow> nat" where
  "x_index qk ncols gpu_row col = (gpu_row * ncols + col) div qk"

definition y_index :: "nat \<Rightarrow> nat \<Rightarrow> nat \<Rightarrow> nat" where
  "y_index qk qr col = (col - col mod qk) + (col mod qk) div qr"

definition y_offset :: "nat \<Rightarrow> nat \<Rightarrow> nat" where "y_offset qk qr = (if qr = 1 then 1 else qk div 2)"

text \<open>The loop over the columns, from the sum \<open>tmp\<close>.\<close>

definition dmv_acc :: "(nat \<Rightarrow> nat \<Rightarrow> 'f \<times> 'f :: linordered_idom) \<Rightarrow> nat \<Rightarrow> nat \<Rightarrow> nat \<Rightarrow> (nat \<Rightarrow> 'f) \<Rightarrow> nat \<Rightarrow> nat \<Rightarrow> 'f \<Rightarrow> 'f" where
  "dmv_acc deq qk qr ncols y gpu_row tid tmp =
     fold (\<lambda>i tmp.
       let col = i + vals_per_iter * tid; v = deq (x_index qk ncols gpu_row col) ((col mod qk) div qr)
       in tmp + fst v * y (y_index qk qr col) + snd v * y (y_index qk qr col + y_offset qk qr)) (iters ncols) tmp"

definition dmv_lane :: "(nat \<Rightarrow> nat \<Rightarrow> 'f \<times> 'f :: linordered_idom) \<Rightarrow> nat \<Rightarrow> nat \<Rightarrow> nat \<Rightarrow> (nat \<Rightarrow> 'f) \<Rightarrow> nat \<Rightarrow> nat \<Rightarrow> 'f" where
  "dmv_lane deq qk qr ncols y gpu_row tid = dmv_acc deq qk qr ncols y gpu_row tid 0"

subsection \<open>The matrix-vector kernels\<close>

definition row_of_block :: "(nat \<Rightarrow> nat) option \<Rightarrow> nat \<Rightarrow> nat" where
  "row_of_block lst gpu_row = (case lst of None \<Rightarrow> gpu_row | Some l \<Rightarrow> l gpu_row)"

text \<open>\<open>lane\<close> gives the partial sum of a lane for a row.\<close>

definition warp_sum :: "(nat \<Rightarrow> nat \<Rightarrow> 'f :: plus) \<Rightarrow> nat \<Rightarrow> 'f" where
  "warp_sum lane gpu_row = warp_reduce (map (lane gpu_row) [0 ..< WARP_SIZE]) ! 0"

definition vec_sparse_block :: "(nat \<Rightarrow> nat \<Rightarrow> 'f :: linordered_idom) \<Rightarrow> (nat \<Rightarrow> nat) option \<Rightarrow> (nat \<Rightarrow> 'f) \<Rightarrow> 'f \<Rightarrow> nat \<Rightarrow> nat \<Rightarrow> (nat \<Rightarrow> 'f) \<Rightarrow> nat \<Rightarrow> 'f" where
  "vec_sparse_block lane lst idx thr nrows gpu_row dst =
     (if gpu_row \<ge> nrows then dst
      else let row = row_of_block lst gpu_row
           in if idx row < thr then dst else dst(row := warp_sum lane gpu_row))"

text \<open>The kernel for quantised activations, with the block product a parameter (\<open>vec_dot_q_cuda\<close>); \<open>qk\<close>
  is 32, \<open>qi\<close> is 4 and \<open>vdr\<close> is 2.\<close>

definition vec_q_lane :: "(nat \<Rightarrow> nat \<Rightarrow> nat \<Rightarrow> 'f :: linordered_idom) \<Rightarrow> nat \<Rightarrow> nat \<Rightarrow> nat \<Rightarrow> 'f" where
  "vec_q_lane vec_dot_q ncols gpu_row tid =
     (let blocks_per_row = ncols div 32; blocks_per_warp = 2 * WARP_SIZE div 4
      in fold (\<lambda>k tmp. let i = k * blocks_per_warp in
           tmp + vec_dot_q (gpu_row * blocks_per_row + i + tid div (4 div 2)) (i + tid div (4 div 2)) (2 * (tid mod (4 div 2))))
         [0 ..< (blocks_per_row + blocks_per_warp - 1) div blocks_per_warp] 0)"

definition vec_q_block :: "(nat \<Rightarrow> nat \<Rightarrow> 'f :: linordered_idom) \<Rightarrow> (nat \<Rightarrow> nat) option \<Rightarrow> (nat \<Rightarrow> 'f) \<Rightarrow> 'f \<Rightarrow> nat \<Rightarrow> (nat \<Rightarrow> 'f) \<Rightarrow> nat \<Rightarrow> 'f" where
  "vec_q_block lane lst idx thr gpu_row dst =
     (let row = row_of_block lst gpu_row
      in if idx row < thr then dst(gpu_row := 0) else dst(row := warp_sum lane gpu_row))"

text \<open>The kernel for a batch.  \<open>b_tmp\<close> is the sum of each lane; \<open>b_idx\<close>, \<open>b_y\<close> and \<open>b_dst\<close> are the distances that
  \<open>loop_idx\<close>, \<open>loop_y\<close> and \<open>loop_dst\<close> have moved.  Every lane adds its sum to \<open>dst\<close> atomically.\<close>

record 'f batch_state =
  b_tmp :: "nat \<Rightarrow> 'f"
  b_idx :: nat
  b_y :: nat
  b_dst :: nat
  b_out :: "nat \<Rightarrow> 'f"

definition batch_next :: "nat \<Rightarrow> nat \<Rightarrow> 'f batch_state \<Rightarrow> 'f batch_state" where
  "batch_next ncols dst_ne0 s = s\<lparr>b_dst := b_dst s + dst_ne0, b_idx := b_idx s + dst_ne0, b_y := b_y s + ncols\<rparr>"

definition batch_col :: "(nat \<Rightarrow> nat \<Rightarrow> 'f \<times> 'f :: linordered_idom) \<Rightarrow> nat \<Rightarrow> nat \<Rightarrow> nat \<Rightarrow> nat \<Rightarrow> (nat \<Rightarrow> 'f) \<Rightarrow> (nat \<Rightarrow> 'f) \<Rightarrow> 'f \<Rightarrow> nat \<Rightarrow> nat \<Rightarrow> 'f batch_state \<Rightarrow> 'f batch_state" where
  "batch_col deq qk qr ncols dst_ne0 y idx thr row gpu_row s =
     (let s = s\<lparr>b_tmp := (\<lambda>_. 0)\<rparr>
      in if idx (b_idx s + row) < thr then batch_next ncols dst_ne0 s
         else let s = s\<lparr>b_tmp := (\<lambda>tid. dmv_acc deq qk qr ncols (\<lambda>i. y (b_y s + i)) gpu_row tid (b_tmp s tid))\<rparr>;
                  s = s\<lparr>b_out := fold (\<lambda>tid d. d(b_dst s + row := d (b_dst s + row) + b_tmp s tid)) [0 ..< WARP_SIZE] (b_out s)\<rparr>
              in batch_next ncols dst_ne0 s)"

definition batch_block :: "(nat \<Rightarrow> nat \<Rightarrow> 'f \<times> 'f :: linordered_idom) \<Rightarrow> nat \<Rightarrow> nat \<Rightarrow> nat \<Rightarrow> nat \<Rightarrow> nat \<Rightarrow> nat \<Rightarrow> (nat \<Rightarrow> 'f) \<Rightarrow> (nat \<Rightarrow> nat) option \<Rightarrow> (nat \<Rightarrow> 'f) \<Rightarrow> 'f \<Rightarrow> nat \<Rightarrow> (nat \<Rightarrow> 'f) \<Rightarrow> nat \<Rightarrow> 'f" where
  "batch_block deq qk qr ncols nrows src1_cols dst_ne0 y lst idx thr gpu_row dst =
     (if gpu_row \<ge> nrows then dst
      else let row = row_of_block lst gpu_row
           in b_out ((batch_col deq qk qr ncols dst_ne0 y idx thr row gpu_row ^^ src1_cols)
                \<lparr>b_tmp = (\<lambda>_. 0), b_idx = 0, b_y = 0, b_dst = 0, b_out = dst\<rparr>))"

subsection \<open>The axpy kernels\<close>

text \<open>The block writes the products of its row to shared memory and then adds shared memory to \<open>dst\<close>; what
  shared memory holds before is \<open>junk\<close>.  The launch allocates \<open>ncols\<close> numbers.  The model has no such limit, so
  it stands for the code only where the writes stay below \<open>ncols\<close>: that is when \<open>ncols\<close> is a multiple of 64
  (lemma \<open>shared_fill_in_bounds\<close>), and every statement on the kernel below assumes that.\<close>

definition shared_clear :: "nat \<Rightarrow> (nat \<Rightarrow> 'f :: zero) \<Rightarrow> nat \<Rightarrow> 'f" where
  "shared_clear ncols junk = fold (\<lambda>k. fold (\<lambda>tid sh. sh(k * GGML_CUDA_DMMV_X + tid := 0)) [0 ..< WARP_SIZE])
     [0 ..< (ncols + GGML_CUDA_DMMV_X - 1) div GGML_CUDA_DMMV_X] junk"

definition shared_fill :: "(nat \<Rightarrow> nat \<Rightarrow> 'f \<times> 'f :: linordered_idom) \<Rightarrow> nat \<Rightarrow> nat \<Rightarrow> nat \<Rightarrow> 'f \<Rightarrow> nat \<Rightarrow> (nat \<Rightarrow> 'f) \<Rightarrow> nat \<Rightarrow> 'f" where
  "shared_fill deq qk qr ncols yr gpu_row sh =
     fold (\<lambda>i. fold (\<lambda>tid sh.
       let col = i + vals_per_iter * tid; v = deq (x_index qk ncols gpu_row col) ((col mod qk) div qr)
       in sh(y_index qk qr col := fst v * yr, y_index qk qr col + y_offset qk qr := snd v * yr)) [0 ..< WARP_SIZE]) (iters ncols) sh"

definition shared_add :: "nat \<Rightarrow> (nat \<Rightarrow> 'f) \<Rightarrow> (nat \<Rightarrow> 'f :: plus) \<Rightarrow> nat \<Rightarrow> 'f" where
  "shared_add ncols sh dst = fold (\<lambda>k. fold (\<lambda>tid dst.
       let c = k * GGML_CUDA_DMMV_X + tid in dst(c := dst c + sh c)) [0 ..< WARP_SIZE])
     [0 ..< (ncols + GGML_CUDA_DMMV_X - 1) div GGML_CUDA_DMMV_X] dst"

definition axpy_sparse_block :: "(nat \<Rightarrow> nat \<Rightarrow> 'f \<times> 'f :: linordered_idom) \<Rightarrow> nat \<Rightarrow> nat \<Rightarrow> nat \<Rightarrow> nat \<Rightarrow> (nat \<Rightarrow> nat) option \<Rightarrow> (nat \<Rightarrow> 'f) \<Rightarrow> (nat \<Rightarrow> 'f) \<Rightarrow> 'f \<Rightarrow> (nat \<Rightarrow> 'f) \<Rightarrow> nat \<Rightarrow> (nat \<Rightarrow> 'f) \<Rightarrow> nat \<Rightarrow> 'f" where
  "axpy_sparse_block deq qk qr ncols nrows lst idx y thr junk gpu_row dst =
     (if gpu_row \<ge> nrows then dst
      else let row = row_of_block lst gpu_row
           in if y row = 0 then dst else if idx row < thr then dst
              else shared_add ncols (shared_fill deq qk qr ncols (y row) gpu_row (shared_clear ncols junk)) dst)"

definition AXPY_BLOCK_X :: nat where "AXPY_BLOCK_X = 512"
definition AXPY_BLOCK_Z :: nat where "AXPY_BLOCK_Z = 256"

text \<open>The kernel for one token with Q4_0 weights.  A block has 512 threads, each with two columns, and
  256 rows; \<open>AXPY_BLOCK_Y\<close> is 1, so the loop over \<open>offset\<close> does not run.  Threads beyond the last column have
  left before the activations are copied to \<open>y_tmp\<close>.\<close>

definition pro_y_tmp :: "nat \<Rightarrow> (nat \<Rightarrow> nat) option \<Rightarrow> (nat \<Rightarrow> 'f) \<Rightarrow> (nat \<Rightarrow> 'f) \<Rightarrow> nat \<Rightarrow> nat \<Rightarrow> nat \<Rightarrow> 'f" where
  "pro_y_tmp ncols lst y junk bi bz i =
     (if 2 * (bi * AXPY_BLOCK_X + i) \<ge> ncols then junk i else y (row_of_block lst (i + bz * AXPY_BLOCK_Z)))"

definition pro_thread :: "(nat \<Rightarrow> nat \<Rightarrow> 'f \<times> 'f :: linordered_idom) \<Rightarrow> nat \<Rightarrow> nat \<Rightarrow> nat \<Rightarrow> (nat \<Rightarrow> 'f) \<Rightarrow> nat \<Rightarrow> nat \<Rightarrow> nat \<Rightarrow> (nat \<Rightarrow> 'f) \<Rightarrow> nat \<Rightarrow> 'f" where
  "pro_thread deq qk qr ncols y_tmp bi bz tid dst =
     (let col = 2 * (bi * AXPY_BLOCK_X + tid); iqs = (col mod qk) div qr
      in if col \<ge> ncols then dst
         else let acc = fold (\<lambda>r acc. if y_tmp r = 0 then acc
                    else let v = deq (x_index qk ncols (r + bz * AXPY_BLOCK_Z) col) iqs
                         in (fst acc + fst v * y_tmp r, snd acc + snd v * y_tmp r)) [0 ..< AXPY_BLOCK_Z] (0, 0);
                  d1 = dst(y_index qk qr col := dst (y_index qk qr col) + fst acc)
              in d1(y_index qk qr col + y_offset qk qr := d1 (y_index qk qr col + y_offset qk qr) + snd acc))"

definition pro_block :: "(nat \<Rightarrow> nat \<Rightarrow> 'f \<times> 'f :: linordered_idom) \<Rightarrow> nat \<Rightarrow> nat \<Rightarrow> nat \<Rightarrow> (nat \<Rightarrow> nat) option \<Rightarrow> (nat \<Rightarrow> 'f) \<Rightarrow> (nat \<Rightarrow> 'f) \<Rightarrow> nat \<times> nat \<Rightarrow> (nat \<Rightarrow> 'f) \<Rightarrow> nat \<Rightarrow> 'f" where
  "pro_block deq qk qr ncols lst y junk b dst =
     fold (pro_thread deq qk qr ncols (pro_y_tmp ncols lst y junk (fst b) (snd b)) (fst b) (snd b)) [0 ..< AXPY_BLOCK_X] dst"

text \<open>The grid of \<open>dequantize_axpy_sparse_vec_q4_0_cuda\<close>.\<close>

definition pro_grid :: "nat \<Rightarrow> nat \<Rightarrow> (nat \<times> nat) list" where
  "pro_grid ncols nrows = List.product [0 ..< (ncols + AXPY_BLOCK_X * 2 - 1) div AXPY_BLOCK_X div 2] [0 ..< nrows div AXPY_BLOCK_Z]"

text \<open>A launch on a \<open>dst\<close> that \<open>cudaMemsetAsync\<close> has cleared.\<close>

definition launch :: "('b \<Rightarrow> 'd \<Rightarrow> 'd) \<Rightarrow> 'b list \<Rightarrow> 'd \<Rightarrow> 'd" where
  "launch block order cleared = fold block order cleared"

subsection \<open>The warp adds up its lanes\<close>

lemma warp_step_nth: "l < 32 \<Longrightarrow> warp_step m tmp ! l = tmp ! l + tmp ! (l XOR m)"
  by (simp add: warp_step_def WARP_SIZE_def)

lemma warp_reduce_sum:
  fixes tmp :: "'f :: comm_monoid_add list"
  assumes "length tmp = 32"
  shows "warp_reduce tmp ! 0 = sum_list tmp"
proof -
  have "sum_list tmp = (\<Sum>i < 32. tmp ! i)" by (simp add: sum_list_sum_nth assms atLeast0LessThan)
  also have "\<dots> = warp_reduce tmp ! 0"
    by (simp add: warp_reduce_def warp_step_nth lessThan_nat_numeral lessThan_Suc ac_simps)
  finally show ?thesis by simp
qed

lemma warp_sum_lanes:
  fixes lane :: "nat \<Rightarrow> nat \<Rightarrow> 'f :: comm_monoid_add"
  shows "warp_sum lane g = (\<Sum>tid < WARP_SIZE. lane g tid)"
  by (simp add: warp_sum_def warp_reduce_sum WARP_SIZE_def interv_sum_list_conv_sum_set_nat atLeast0LessThan)

lemma fold_add2: "fold (\<lambda>i t. t + a i + b i) xs (z :: 'f :: comm_monoid_add) = z + (\<Sum>i\<leftarrow>xs. a i + b i)"
  by (induction xs arbitrary: z) (auto simp: ac_simps)

lemma sum_groups:
  fixes g :: "nat \<Rightarrow> 'f :: comm_monoid_add"
  shows "(\<Sum>k < n. \<Sum>i < m. g (k * m + i)) = (\<Sum>c < n * m. g c)"
proof -
  have "(\<Sum>i < l. g (a + i)) = sum g {a ..< a + l}" for a l by (induction l) (auto simp: add.assoc)
  then show ?thesis by (simp add: sum.nat_group)
qed

text \<open>The number of columns that the lanes visit.\<close>

definition span :: "nat \<Rightarrow> nat" where "span ncols = 64 * ((ncols + 63) div 64)"

lemma dmv_warp:
  "(\<Sum>tid < WARP_SIZE. dmv_lane deq qk qr ncols y g tid) =
   (\<Sum>j < 32 * ((ncols + 63) div 64). fst (deq (x_index qk ncols g (2 * j)) ((2 * j) mod qk div qr)) * y (y_index qk qr (2 * j)) +
      snd (deq (x_index qk ncols g (2 * j)) ((2 * j) mod qk div qr)) * y (y_index qk qr (2 * j) + y_offset qk qr))" (is "_ = sum ?T _")
proof -
  let ?n = "(ncols + 63) div 64"
  have lane: "dmv_lane deq qk qr ncols y g tid = (\<Sum>k < ?n. ?T (k * 32 + tid))" for tid
  proof -
    have i: "k * 64 + 2 * tid = 2 * (k * 32 + tid)" for k by simp
    have "dmv_lane deq qk qr ncols y g tid = (\<Sum>k\<leftarrow>[0 ..< ?n]. ?T (k * 32 + tid))"
      unfolding dmv_lane_def dmv_acc_def iters_def Let_def fold_map comp_def fold_add2
      by (simp add: iter_stride_def vals_per_iter_def GGML_CUDA_DMMV_X_def WARP_SIZE_def i add.commute [of 63])
    then show ?thesis by (simp add: interv_sum_list_conv_sum_set_nat atLeast0LessThan)
  qed
  have "(\<Sum>tid < 32. \<Sum>k < ?n. ?T (k * 32 + tid)) = (\<Sum>k < ?n. \<Sum>tid < 32. ?T (k * 32 + tid))" by (rule sum.swap)
  also have "\<dots> = sum ?T {..< ?n * 32}" by (rule sum_groups)
  finally show ?thesis by (simp add: lane WARP_SIZE_def mult.commute)
qed

definition weight_f16 :: "(u16 \<Rightarrow> 'f) \<Rightarrow> (nat \<Rightarrow> u16) \<Rightarrow> nat \<Rightarrow> nat \<Rightarrow> nat \<Rightarrow> 'f" where
  "weight_f16 cvt vx ncols g c = cvt (vx (g * ncols + c))"

definition weight_q4_0 :: "(u16 \<Rightarrow> 'f :: linordered_idom) \<Rightarrow> (nat \<Rightarrow> block_q4_0) \<Rightarrow> nat \<Rightarrow> nat \<Rightarrow> nat \<Rightarrow> 'f" where
  "weight_q4_0 cvt vx ncols g c =
     (let b = vx ((g * ncols + c) div QK) in of_int (q4_quant b ((g * ncols + c) mod QK)) * cvt (q4_d b))"

lemma pairs: "(\<Sum>j < 32 * n. h (2 * j) + h (Suc (2 * j))) = (\<Sum>c < 64 * n. (h c :: 'f :: comm_monoid_add))"
  using sum_groups [of "\<lambda>c. h c" "2" "32 * n"] by (simp add: lessThan_nat_numeral lessThan_Suc mult.commute add.commute)

lemma halves: "(\<Sum>j < 32 * n. h (QK * (j div 16) + j mod 16) + h (QK * (j div 16) + j mod 16 + 16)) = (\<Sum>c < 64 * n. (h c :: 'f :: comm_monoid_add))"
proof -
  have "(\<Sum>j < 2 * n * 16. h (QK * (j div 16) + j mod 16) + h (QK * (j div 16) + j mod 16 + 16)) =
      (\<Sum>k < 2 * n. \<Sum>i < 16. h (QK * ((k * 16 + i) div 16) + (k * 16 + i) mod 16) + h (QK * ((k * 16 + i) div 16) + (k * 16 + i) mod 16 + 16))"
    by (rule sum_groups [symmetric])
  also have "\<dots> = (\<Sum>k < 2 * n. \<Sum>i < 16. h (32 * k + i) + h (32 * k + i + 16))"
    by (intro sum.cong refl) (simp add: QK_def)
  also have "\<dots> = (\<Sum>k < 2 * n. \<Sum>i < 32. h (k * 32 + i))"
    by (rule sum.cong [OF refl]) (simp add: lessThan_nat_numeral lessThan_Suc ac_simps)
  also have "\<dots> = (\<Sum>c < 2 * n * 32. h c)" by (rule sum_groups)
  finally show ?thesis by (simp add: mult.commute)
qed

lemma warp_dot_f16: "warp_sum (dmv_lane (deq_f16 cvt vx) 1 1 n y) g = (\<Sum>c < span n. weight_f16 cvt vx n g c * y c)"
proof -
  have "warp_sum (dmv_lane (deq_f16 cvt vx) 1 1 n y) g =
      (\<Sum>j < 32 * ((n + 63) div 64). weight_f16 cvt vx n g (2 * j) * y (2 * j) + weight_f16 cvt vx n g (Suc (2 * j)) * y (Suc (2 * j)))"
    by (simp add: warp_sum_lanes dmv_warp deq_f16_def weight_f16_def x_index_def y_index_def y_offset_def)
  then show "warp_sum (dmv_lane (deq_f16 cvt vx) 1 1 n y) g = (\<Sum>c < span n. weight_f16 cvt vx n g c * y c)"
    by (simp add: pairs [of "\<lambda>c. weight_f16 cvt vx n g c * y c"] span_def)
qed

lemma warp_dot_q4_0:
  assumes "QK dvd ncols"
  shows "warp_sum (dmv_lane (deq_q4_0 cvt bx) QK 2 ncols y) g = (\<Sum>c < span ncols. weight_q4_0 cvt bx ncols g c * y c)"
proof -
  let ?h = "\<lambda>c. weight_q4_0 cvt bx ncols g c * y c"
  have m: "2 * j mod 32 = 2 * (j mod 16)" for j :: nat using mult_mod_right [of 2 j 16] by simp
  have two: "2 * j div 32 = j div 16" "2 * j mod 32 div 2 = j mod 16" for j :: nat
    using div_mult_mult1 [of 2 j 16] by (simp_all add: m)
  obtain q where q: "ncols = 32 * q" using assms by (auto simp: QK_def)
  have flat: "g * ncols + c = c + g * q * 32" for c unfolding q by simp
  have ix: "(g * ncols + c) div 32 = g * (ncols div 32) + c div 32" "(g * ncols + c) mod 32 = c mod 32" for c
    unfolding flat by (simp_all add: q)
  have y: "2 * j - 2 * j mod 32 = 32 * (j div 16)" for j :: nat
    using minus_mod_eq_mult_div [of "2 * j" 32] by (simp add: two)
  have hi: "(32 * a + b + 16) div 32 = a" "(32 * a + b + 16) mod 32 = b + 16" if "b < 16" for a b :: nat
  proof -
    have "32 * a + b + 16 = (b + 16) + a * 32" by simp
    then show "(32 * a + b + 16) div 32 = a" "(32 * a + b + 16) mod 32 = b + 16" using that by (simp_all only: div_mult_self1 mod_mult_self1) auto
  qed
  have "fst (deq_q4_0 cvt bx (x_index QK ncols g (2 * j)) (2 * j mod QK div 2)) * y (y_index QK 2 (2 * j)) +
      snd (deq_q4_0 cvt bx (x_index QK ncols g (2 * j)) (2 * j mod QK div 2)) * y (y_index QK 2 (2 * j) + y_offset QK 2) =
      ?h (QK * (j div 16) + j mod 16) + ?h (QK * (j div 16) + j mod 16 + 16)" for j
    by (simp add: deq_q4_0_def Let_def x_index_def y_index_def y_offset_def weight_q4_0_def q4_quant_def QK_def two ix y hi)
  then have "warp_sum (dmv_lane (deq_q4_0 cvt bx) QK 2 ncols y) g =
      (\<Sum>j < 32 * ((ncols + 63) div 64). ?h (QK * (j div 16) + j mod 16) + ?h (QK * (j div 16) + j mod 16 + 16))"
    by (simp add: warp_sum_lanes dmv_warp)
  then show "warp_sum (dmv_lane (deq_q4_0 cvt bx) QK 2 ncols y) g = (\<Sum>c < span ncols. ?h c)"
    by (simp only: halves [of ?h] span_def)
qed

text \<open>The 32 lanes of a warp together compute the dot product of a row with the input, for F16 rows
  and for Q4_0 rows, over the columns rounded up to a multiple of 64.  For a row whose length is a multiple of
  64 this is the row; the assertion of the launch asks for a multiple of 32 only, and for an odd multiple
  the last lanes read the first weights of the next row and 32 values past the input.\<close>

theorem warp_dot_product:
  assumes "QK dvd ncols"
  shows "warp_sum (dmv_lane (deq_f16 cvt vx) 1 1 n y) g = (\<Sum>c < span n. weight_f16 cvt vx n g c * y c) \<and>
    warp_sum (dmv_lane (deq_q4_0 cvt bx) QK 2 ncols y) g = (\<Sum>c < span ncols. weight_q4_0 cvt bx ncols g c * y c)"
  using warp_dot_f16 warp_dot_q4_0 [OF assms] by blast

subsection \<open>Launches of the matrix-vector kernel\<close>

text \<open>Blocks that write to different places: the order does not matter.\<close>

lemma fold_point_writes:
  assumes "inj_on f (set xs)" "distinct xs"
  shows "a \<in> set xs \<Longrightarrow> fold (\<lambda>x d. if P x then d(f x := v x) else d) xs d (f a) = (if P a then v a else d (f a))"
    and "k \<notin> f ` set xs \<Longrightarrow> fold (\<lambda>x d. if P x then d(f x := v x) else d) xs d k = d k"
proof -
  have out: "k \<notin> f ` set ys \<Longrightarrow> fold (\<lambda>x d. if P x then d(f x := v x) else d) ys d k = d k" for ys k d
    by (induction ys arbitrary: d) auto
  then show "k \<notin> f ` set xs \<Longrightarrow> fold (\<lambda>x d. if P x then d(f x := v x) else d) xs d k = d k" by blast
  show "a \<in> set xs \<Longrightarrow> fold (\<lambda>x d. if P x then d(f x := v x) else d) xs d (f a) = (if P a then v a else d (f a))"
    using assms
  proof (induction xs arbitrary: d)
    case (Cons b bs)
    show ?case
    proof (cases "a = b")
      case True
      then have "f a \<notin> f ` set bs" using Cons.prems by auto
      then show ?thesis using True by (simp add: out)
    next
      case False
      then have "f a \<noteq> f b" using Cons.prems by (auto simp: inj_on_def)
      then show ?thesis using Cons False by auto
    qed
  qed simp
qed

definition bucket_ok :: "(nat \<Rightarrow> nat) option \<Rightarrow> nat \<Rightarrow> bool" where
  "bucket_ok lst nrows \<longleftrightarrow> inj_on (row_of_block lst) {..< nrows}"

lemma vec_sparse_launch:
  assumes "distinct order" "set order = {..< nrows}" "bucket_ok lst nrows"
  shows "g < nrows \<Longrightarrow> launch (vec_sparse_block lane lst idx thr nrows) order (\<lambda>_. 0) (row_of_block lst g) =
      (if idx (row_of_block lst g) < thr then 0 else warp_sum lane g)"
    and "k \<notin> row_of_block lst ` {..< nrows} \<Longrightarrow> launch (vec_sparse_block lane lst idx thr nrows) order (\<lambda>_. 0) k = 0"
proof -
  let ?P = "\<lambda>g. \<not> (nrows \<le> g \<or> idx (row_of_block lst g) < thr)"
  have block: "vec_sparse_block lane lst idx thr nrows =
      (\<lambda>g d. if ?P g then d(row_of_block lst g := warp_sum lane g) else d)"
    by (auto simp: vec_sparse_block_def fun_eq_iff Let_def)
  have inj: "inj_on (row_of_block lst) (set order)" using assms by (simp add: bucket_ok_def)
  show "g < nrows \<Longrightarrow> launch (vec_sparse_block lane lst idx thr nrows) order (\<lambda>_. 0) (row_of_block lst g) =
      (if idx (row_of_block lst g) < thr then 0 else warp_sum lane g)"
    unfolding launch_def block using fold_point_writes(1) [OF inj assms(1), of g ?P "warp_sum lane" "\<lambda>_. 0"] assms(2) by auto
  show "k \<notin> row_of_block lst ` {..< nrows} \<Longrightarrow> launch (vec_sparse_block lane lst idx thr nrows) order (\<lambda>_. 0) k = 0"
    unfolding launch_def block using fold_point_writes(2) [OF inj assms(1), of k ?P "warp_sum lane" "\<lambda>_. 0"] assms(2) by simp
qed

lemma add_lanes:
  "fold (\<lambda>tid d. d(k := d k + a tid)) xs d = d(k := d k + (\<Sum>tid\<leftarrow>xs. a tid :: 'f :: comm_monoid_add))"
  by (induction xs arbitrary: d) (auto simp: add.assoc fun_eq_iff)

lemma batch_cols:
  fixes y idx :: "nat \<Rightarrow> 'f :: linordered_idom"
  assumes "row < dst_ne0"
  defines "start \<equiv> \<lambda>d. \<lparr>b_tmp = (\<lambda>_. 0), b_idx = 0, b_y = 0, b_dst = 0, b_out = d\<rparr>"
  shows "(let s = (batch_col deq qk qr ncols dst_ne0 y idx thr row g ^^ k) (start d)
    in b_idx s = k * dst_ne0 \<and> b_y s = k * ncols \<and> b_dst s = k * dst_ne0 \<and>
      (\<forall>c r. r < dst_ne0 \<longrightarrow> b_out s (c * dst_ne0 + r) =
        (if r = row \<and> c < k \<and> \<not> idx (c * dst_ne0 + r) < thr
         then d (c * dst_ne0 + r) + warp_sum (dmv_lane deq qk qr ncols (\<lambda>i. y (c * ncols + i))) g else d (c * dst_ne0 + r))))"
proof (induction k)
  case 0
  then show ?case by (simp add: start_def)
next
  case (Suc k)
  let ?s = "(batch_col deq qk qr ncols dst_ne0 y idx thr row g ^^ k) (start d)"
  let ?w = "warp_sum (dmv_lane deq qk qr ncols (\<lambda>i. y (k * ncols + i))) g"
  have at: "b_idx ?s = k * dst_ne0" "b_y ?s = k * ncols" "b_dst ?s = k * dst_ne0" using Suc by (auto simp: Let_def)
  have same: "c * dst_ne0 + r = k * dst_ne0 + row \<longleftrightarrow> c = k \<and> r = row" if "r < dst_ne0" for c r
  proof
    assume e: "c * dst_ne0 + r = k * dst_ne0 + row"
    then have "(r + c * dst_ne0) div dst_ne0 = (row + k * dst_ne0) div dst_ne0" "(r + c * dst_ne0) mod dst_ne0 = (row + k * dst_ne0) mod dst_ne0"
      by (simp_all add: add.commute)
    then show "c = k \<and> r = row" using that assms(1) by simp
  qed simp
  have out: "b_out (batch_col deq qk qr ncols dst_ne0 y idx thr row g ?s) =
      (if idx (k * dst_ne0 + row) < thr then b_out ?s else (b_out ?s)(k * dst_ne0 + row := b_out ?s (k * dst_ne0 + row) + ?w))"
    by (simp add: batch_col_def batch_next_def Let_def at add_lanes warp_sum_lanes dmv_lane_def interv_sum_list_conv_sum_set_nat atLeast0LessThan)
  have "b_out (batch_col deq qk qr ncols dst_ne0 y idx thr row g ?s) (c * dst_ne0 + r) =
      (if r = row \<and> c < Suc k \<and> \<not> idx (c * dst_ne0 + r) < thr
       then d (c * dst_ne0 + r) + warp_sum (dmv_lane deq qk qr ncols (\<lambda>i. y (c * ncols + i))) g else d (c * dst_ne0 + r))" if r: "r < dst_ne0" for c r
    using Suc same [OF r, of c] r unfolding out Let_def by (auto simp: less_Suc_eq)
  moreover have "b_idx (batch_col deq qk qr ncols dst_ne0 y idx thr row g ?s) = Suc k * dst_ne0"
      "b_y (batch_col deq qk qr ncols dst_ne0 y idx thr row g ?s) = Suc k * ncols"
      "b_dst (batch_col deq qk qr ncols dst_ne0 y idx thr row g ?s) = Suc k * dst_ne0"
    using at by (simp_all add: batch_col_def batch_next_def Let_def)
  ultimately show ?case unfolding funpow.simps o_apply Let_def by blast
qed

lemma batch_block_cell:
  assumes "g < nrows" "row_of_block lst g < dst_ne0" "c < m" "r < dst_ne0"
  shows "batch_block deq qk qr ncols nrows m dst_ne0 y lst idx thr g d (c * dst_ne0 + r) = d (c * dst_ne0 + r) +
    (if r = row_of_block lst g \<and> \<not> idx (c * dst_ne0 + r) < thr
     then warp_sum (dmv_lane deq qk qr ncols (\<lambda>i. y (c * ncols + i))) g else 0)"
  using batch_cols [OF assms(2), where deq = deq and qk = qk and qr = qr and ncols = ncols and y = y and idx = idx and thr = thr and g = g
      and k = m and d = d] assms(1,3,4) by (auto simp: batch_block_def Let_def)

text \<open>Blocks that add to a place of \<open>dst\<close>: what a launch leaves there is the sum, in any order.\<close>

lemma launch_adds_at:
  assumes "\<And>b d. b \<in> set order \<Longrightarrow> sel (block b d) = sel d + (h b :: 'f :: comm_monoid_add)" "distinct order"
  shows "sel (launch block order d) = sel d + (\<Sum>b \<in> set order. h b)"
proof -
  have "set bs \<subseteq> set order \<Longrightarrow> sel (fold block bs d) = sel d + (\<Sum>b\<leftarrow>bs. h b)" for bs d
    by (induction bs arbitrary: d) (auto simp: assms(1) add.assoc)
  then show ?thesis by (simp add: launch_def sum_list_distinct_conv_sum_set assms(2))
qed

text \<open>C17: for F16 weights, on every batch, the kernel for a batch leaves in row \<open>r\<close> of column \<open>c\<close> of \<open>dst\<close> what the
  kernel for a single token leaves in row \<open>r\<close> when it is given column \<open>c\<close> of the activations and of the
  predictor: the pointers are moved on for skipped columns too and no sum is carried into the next
  column.  This holds for every order of the blocks of either launch, when the rows have different neurons
  and these are rows of \<open>dst\<close>.\<close>

theorem batch_agrees_with_vec:
  assumes "distinct order" "set order = {..< nrows}" "distinct order'" "set order' = {..< nrows}"
    and "bucket_ok lst nrows" "row_of_block lst ` {..< nrows} \<subseteq> {..< dst_ne0}" "c < src1_cols" "r < dst_ne0"
  shows "launch (batch_block (deq_f16 cvt vx) 1 1 ncols nrows src1_cols dst_ne0 y lst idx thr) order (\<lambda>_. 0) (c * dst_ne0 + r) =
    launch (vec_sparse_block (dmv_lane (deq_f16 cvt vx) 1 1 ncols (\<lambda>i. y (c * ncols + i))) lst (\<lambda>row. idx (c * dst_ne0 + row)) thr nrows)
      order' (\<lambda>_. 0) r"
proof -
  let ?lane = "dmv_lane (deq_f16 cvt vx) 1 1 ncols (\<lambda>i. y (c * ncols + i))" and ?idx = "\<lambda>row. idx (c * dst_ne0 + row)"
  let ?h = "\<lambda>g. if r = row_of_block lst g \<and> \<not> ?idx r < thr then warp_sum ?lane g else 0"
  have "launch (batch_block (deq_f16 cvt vx) 1 1 ncols nrows src1_cols dst_ne0 y lst idx thr) order (\<lambda>_. 0) (c * dst_ne0 + r) =
      (\<lambda>_. 0) (c * dst_ne0 + r) + (\<Sum>g \<in> set order. ?h g)"
    by (rule launch_adds_at [where sel = "\<lambda>d. d (c * dst_ne0 + r)"], rule batch_block_cell) (use assms in auto)
  also have "\<dots> = (\<Sum>g < nrows. ?h g)" by (simp add: assms(2))
  also have "\<dots> = launch (vec_sparse_block ?lane lst ?idx thr nrows) order' (\<lambda>_. 0) r"
  proof (cases "r \<in> row_of_block lst ` {..< nrows}")
    case True
    then obtain g where g: "g < nrows" "r = row_of_block lst g" by auto
    have "g' = g" if "g' < nrows" "r = row_of_block lst g'" for g' using assms(5) g that by (auto simp: bucket_ok_def inj_on_def)
    then have "(\<Sum>g' < nrows. ?h g') = (\<Sum>g' < nrows. if g' = g then (if \<not> ?idx r < thr then warp_sum ?lane g else 0) else 0)"
      by (intro sum.cong refl) (use g in auto)
    also have "\<dots> = (if \<not> ?idx r < thr then warp_sum ?lane g else 0)" using g(1) by simp
    finally show ?thesis using vec_sparse_launch(1) [OF assms(3,4,5) g(1), of ?lane ?idx thr] g(2) by simp
  next
    case False
    then have "(\<Sum>g' < nrows. ?h g') = 0" by (intro sum.neutral) auto
    then show ?thesis using vec_sparse_launch(2) [OF assms(3,4,5) False] by simp
  qed
  finally show ?thesis .
qed

subsection \<open>The quantised kernel clears a neuron of another block\<close>

lemma vec_q_full_gpu:
  assumes "order = [0 ..< nrows]"
  shows "launch (vec_q_block lane None idx thr) order (\<lambda>_. 0) = launch (vec_sparse_block lane None idx thr nrows) order (\<lambda>_. 0)"
proof -
  have q: "vec_q_block lane None idx thr k d = (if idx k < thr then d(k := 0) else d(k := warp_sum lane k))" for k d
    by (simp add: vec_q_block_def row_of_block_def Let_def)
  have v: "vec_sparse_block lane None idx thr nrows k d = (if idx k < thr then d else d(k := warp_sum lane k))" if "k < nrows" for k d
    using that by (simp add: vec_sparse_block_def row_of_block_def Let_def)
  have zero: "k \<le> r \<Longrightarrow> fold (vec_q_block lane None idx thr) [0 ..< k] (\<lambda>_. 0) r = 0" for k r
    by (induction k) (auto simp: q)
  have "k \<le> nrows \<Longrightarrow> fold (vec_q_block lane None idx thr) [0 ..< k] (\<lambda>_. 0) =
      fold (vec_sparse_block lane None idx thr nrows) [0 ..< k] (\<lambda>_. 0)" for k
  proof (induction k)
    case (Suc k)
    let ?d = "fold (vec_q_block lane None idx thr) [0 ..< k] (\<lambda>_. 0)"
    have "?d(k := 0) = ?d" using zero [of k k] by (auto simp: fun_eq_iff)
    then show ?case using Suc q [of k ?d] v [of k ?d] by (simp add: fun_upd_def)
  qed simp
  then show ?thesis by (simp add: launch_def assms)
qed

text \<open>C28: the quantised kernel writes zero to \<open>dst[gpu_row]\<close>, not to \<open>dst[row]\<close>, when its neuron is
  inactive.  Under a sorted bucket, if row \<open>j\<close> of the GPU matrix is the active neuron \<open>g\<close> and row \<open>g\<close> is an
  inactive neuron, then after the blocks have run in order neuron \<open>g\<close> is zero, where the F16 kernel leaves
  its dot product.\<close>

theorem vec_q_clears_active_neuron:
  assumes sorted: "strict_mono_on {..< nrows} l" and j: "j < g" "g < nrows" "l j = g"
    and act: "\<not> idx g < thr" "idx (l g) < thr"
  shows "launch (vec_q_block lane (Some l) idx thr) [0 ..< nrows] (\<lambda>_. 0) g = 0 \<and>
    launch (vec_sparse_block lane (Some l) idx thr nrows) [0 ..< nrows] (\<lambda>_. 0) g = warp_sum lane j"
proof
  have above: "g < l h" if "g \<le> h" "h < nrows" for h
    using strict_mono_onD [OF sorted, of j h] that j by auto
  have later: "fold (vec_q_block lane (Some l) idx thr) hs d g = d g" if "\<forall>h \<in> set hs. g < h \<and> h < nrows" for hs d
    using that
  proof (induction hs arbitrary: d)
    case (Cons h hs)
    then have "l h \<noteq> g" "h \<noteq> g" using above [of h] by auto
    then have "vec_q_block lane (Some l) idx thr h d g = d g" by (simp add: vec_q_block_def row_of_block_def Let_def)
    then show ?case using Cons by simp
  qed simp
  have "[0 ..< nrows] = [0 ..< g] @ g # [Suc g ..< nrows]"
    using upt_add_eq_append [of 0 g "nrows - g"] j(2) by (simp add: upt_conv_Cons)
  then show "launch (vec_q_block lane (Some l) idx thr) [0 ..< nrows] (\<lambda>_. 0) g = 0"
    using act(2) by (simp add: launch_def later) (simp add: vec_q_block_def row_of_block_def)
  have "inj_on l {..< nrows}" using sorted by (rule strict_mono_on_imp_inj_on)
  then have "bucket_ok (Some l) nrows" by (simp add: bucket_ok_def row_of_block_def inj_on_def)
  from vec_sparse_launch(1) [OF _ _ this, of "[0 ..< nrows]" j lane idx thr]
  show "launch (vec_sparse_block lane (Some l) idx thr nrows) [0 ..< nrows] (\<lambda>_. 0) g = warp_sum lane j"
    using j act(1) by (simp add: row_of_block_def atLeast0LessThan)
qed

subsection \<open>The axpy kernel for F16 rows\<close>

lemma fold_sets:
  assumes "\<And>a sh. step a sh = (\<lambda>k. if k \<in> T a then f k else sh k)"
  shows "fold step xs sh = (\<lambda>k. if k \<in> (\<Union>a \<in> set xs. T a) then f k else sh k)"
  by (induction xs arbitrary: sh) (auto simp: assms fun_eq_iff)

lemma shared_fill_f16:
  assumes "c < span ncols"
  shows "shared_fill (deq_f16 cvt vx) 1 1 ncols yr g sh c = weight_f16 cvt vx ncols g c * yr"
proof -
  let ?f = "\<lambda>c. weight_f16 cvt vx ncols g c * yr"
  have "shared_fill (deq_f16 cvt vx) 1 1 ncols yr g sh =
      (\<lambda>k. if k \<in> (\<Union>i \<in> set (iters ncols). \<Union>tid \<in> set [0 ..< WARP_SIZE]. {i + 2 * tid, Suc (i + 2 * tid)}) then ?f k else sh k)"
    unfolding shared_fill_def
    by (intro fold_sets)
      (auto simp: Let_def vals_per_iter_def iter_stride_def GGML_CUDA_DMMV_X_def WARP_SIZE_def deq_f16_def x_index_def
        y_index_def y_offset_def weight_f16_def fun_eq_iff)
  moreover have "\<exists>i \<in> set (iters ncols). \<exists>tid \<in> set [0 ..< WARP_SIZE]. c = i + 2 * tid \<or> c = Suc (i + 2 * tid)"
  proof (intro bexI)
    let ?i = "c div 64 * 64" and ?t = "c mod 64 div 2"
    have "c mod 64 = 2 * ?t \<or> c mod 64 = Suc (2 * ?t)" by presburger
    then show "c = ?i + 2 * ?t \<or> c = Suc (?i + 2 * ?t)" using div_mult_mod_eq [of c 64] by linarith
    show "?t \<in> set [0 ..< WARP_SIZE]" by (simp add: WARP_SIZE_def div_less_iff_less_mult)
    have "c div 64 < (ncols + 63) div 64" using assms by (simp add: span_def div_less_iff_less_mult mult.commute)
    then show "?i \<in> set (iters ncols)" by (auto simp: iters_def iter_stride_def GGML_CUDA_DMMV_X_def add.commute)
  qed
  ultimately show ?thesis by auto
qed

text \<open>With a multiple of 64 columns no write goes beyond the columns, for F16 and for Q4_0 rows.\<close>

lemma shared_fill_in_bounds:
  assumes "64 dvd ncols" "qk = 1 \<and> qr = 1 \<or> qk = QK \<and> qr = 2" "ncols \<le> k"
  shows "shared_fill deq qk qr ncols yr g sh k = sh k"
proof -
  have below: "y_index qk qr (i + vals_per_iter * tid) < ncols \<and> y_index qk qr (i + vals_per_iter * tid) + y_offset qk qr < ncols"
    if i: "i \<in> set (iters ncols)" and tid: "tid < 32" for i tid
  proof -
    obtain n where n: "ncols = 64 * n" using assms(1) by (auto elim: dvdE)
    obtain m where m: "i = 64 * m" "m < n" using i by (auto simp: iters_def iter_stride_def GGML_CUDA_DMMV_X_def n)
    then have room: "i + 64 \<le> ncols" by (simp add: n)
    have v: "vals_per_iter = 2" by (simp add: vals_per_iter_def iter_stride_def GGML_CUDA_DMMV_X_def WARP_SIZE_def)
    from assms(2) show ?thesis
    proof
      assume "qk = 1 \<and> qr = 1"
      then show ?thesis using room tid by (simp add: y_index_def y_offset_def v)
    next
      assume q: "qk = QK \<and> qr = 2"
      have r: "(i + 2 * tid) mod 32 = 2 * tid mod 32"
      proof -
        have "i + 2 * tid = 32 * (2 * m) + 2 * tid" using m(1) by simp
        then show ?thesis by (simp only: mod_mult_self4)
      qed
      have "2 * tid div 32 \<le> 1" using tid by simp
      then have "2 * tid \<le> 2 * tid mod 32 + 32" using div_mult_mod_eq [of "2 * tid" 32] by linarith
      moreover have "2 * tid mod 32 div 2 \<le> 15" using mod_less_divisor [of 32 "2 * tid"] by simp
      moreover have "2 * tid mod 32 \<le> 2 * tid" by simp
      ultimately show ?thesis using q room by (simp add: y_index_def y_offset_def v QK_def r) linarith
    qed
  qed
  show ?thesis unfolding shared_fill_def
  proof (rule fold_invariant [where P = "\<lambda>sh'. sh' k = sh k" and Q = "\<lambda>i. i \<in> set (iters ncols)"])
    fix i sh' assume i: "i \<in> set (iters ncols)" and sh': "sh' k = sh k"
    show "fold (\<lambda>tid sh. let col = i + vals_per_iter * tid; v = deq (x_index qk ncols g col) ((col mod qk) div qr)
        in sh(y_index qk qr col := fst v * yr, y_index qk qr col + y_offset qk qr := snd v * yr)) [0 ..< WARP_SIZE] sh' k = sh k"
      by (rule fold_invariant [where P = "\<lambda>sh'. sh' k = sh k" and Q = "\<lambda>tid. tid < 32"])
        (use below [OF i] assms(3) sh' in \<open>force simp: Let_def WARP_SIZE_def\<close>)+
  qed simp_all
qed

lemma shared_add_eq:
  "shared_add ncols sh dst = (\<lambda>c. if c < 32 * ((ncols + 31) div 32) then dst c + sh c else dst c)"
proof -
  have line: "fold (\<lambda>tid dst. let c = k * GGML_CUDA_DMMV_X + tid in dst(c := dst c + sh c)) [0 ..< n] d =
      (\<lambda>c. if k * 32 \<le> c \<and> c < k * 32 + n then d c + sh c else d c)" for k n d
    by (induction n) (auto simp: GGML_CUDA_DMMV_X_def Let_def fun_eq_iff)
  define add32 where "add32 k = fold (\<lambda>tid dst. let c = k * GGML_CUDA_DMMV_X + tid in dst(c := dst c + sh c)) [0 ..< WARP_SIZE]" for k
  have add32: "add32 k d = (\<lambda>c. if k * 32 \<le> c \<and> c < k * 32 + 32 then d c + sh c else d c)" for k d
    by (simp add: add32_def line WARP_SIZE_def)
  have "fold add32 [0 ..< m] dst = (\<lambda>c. if c < 32 * m then dst c + sh c else dst c)" for m
    by (induction m) (auto simp: add32 fun_eq_iff)
  then show ?thesis by (simp add: shared_add_def GGML_CUDA_DMMV_X_def add32_def [abs_def] add.commute [of 31])
qed

definition axpy_active :: "(nat \<Rightarrow> nat) option \<Rightarrow> (nat \<Rightarrow> 'f :: {zero, ord}) \<Rightarrow> (nat \<Rightarrow> 'f) \<Rightarrow> 'f \<Rightarrow> nat \<Rightarrow> bool" where
  "axpy_active lst idx y thr g \<longleftrightarrow> y (row_of_block lst g) \<noteq> 0 \<and> \<not> idx (row_of_block lst g) < thr"

lemma axpy_sparse_block_cell:
  assumes "64 dvd ncols" "c < ncols" "g < nrows"
  shows "axpy_sparse_block (deq_f16 cvt vx) 1 1 ncols nrows lst idx y thr junk g d c =
    d c + (if axpy_active lst idx y thr g then weight_f16 cvt vx ncols g c * y (row_of_block lst g) else 0)"
proof -
  have "c < span ncols" using assms(2) div_mult_mod_eq [of "ncols + 63" 64] mod_less_divisor [of 64 "ncols + 63"] unfolding span_def by linarith
  moreover have "32 * ((ncols + 31) div 32) = ncols" using dvd_trans [of 32 64 ncols] assms(1) by (auto elim!: dvdE)
  ultimately show ?thesis using assms
    by (auto simp: axpy_sparse_block_def Let_def shared_add_eq shared_fill_f16 axpy_active_def simp del: One_nat_def)
qed

lemma launch_adds:
  assumes "\<And>b d. b \<in> set order \<Longrightarrow> block b d c = d c + (h b :: 'f :: comm_monoid_add)" "distinct order"
  shows "launch block order d c = d c + (\<Sum>b \<in> set order. h b)"
  using launch_adds_at [of order "\<lambda>d. d c"] assms by blast

lemma axpy_sparse_launch:
  assumes "64 dvd ncols" "c < ncols" "distinct order" "set order = {..< nrows}"
  shows "launch (axpy_sparse_block (deq_f16 cvt vx) 1 1 ncols nrows lst idx y thr junk) order (\<lambda>_. 0) c =
    (\<Sum>g < nrows. if \<not> idx (row_of_block lst g) < thr then weight_f16 cvt vx ncols g c * y (row_of_block lst g) else 0)"
proof -
  have "launch (axpy_sparse_block (deq_f16 cvt vx) 1 1 ncols nrows lst idx y thr junk) order (\<lambda>_. 0) c =
      (\<Sum>g < nrows. if axpy_active lst idx y thr g then weight_f16 cvt vx ncols g c * y (row_of_block lst g) else 0)"
    using launch_adds [where block = "axpy_sparse_block (deq_f16 cvt vx) 1 1 ncols nrows lst idx y thr junk" and order = order
      and c = c and d = "\<lambda>_. 0", OF axpy_sparse_block_cell [OF assms(1,2)] assms(3)] assms(4) by simp
  also have "\<dots> = (\<Sum>g < nrows. if \<not> idx (row_of_block lst g) < thr then weight_f16 cvt vx ncols g c * y (row_of_block lst g) else 0)"
    by (intro sum.cong refl) (auto simp: axpy_active_def)
  finally show ?thesis .
qed

subsection \<open>The axpy kernel for Q4_0 rows\<close>

lemma pro_acc:
  "fold (\<lambda>r acc. if yt r = 0 then acc else let v = deq (ix r) iqs in (fst acc + fst v * yt r, snd acc + snd v * yt r)) rs (a, b) =
   (a + (\<Sum>r\<leftarrow>rs. fst (deq (ix r) iqs) * yt r), b + (\<Sum>r\<leftarrow>rs. snd (deq (ix r) iqs) * (yt r :: 'f :: linordered_idom)))"
  by (induction rs arbitrary: a b) (auto simp: Let_def add.assoc)

lemma divmod32: "e = b + a * 32 \<Longrightarrow> b < 32 \<Longrightarrow> e div 32 = a \<and> e mod 32 = (b :: nat)"
  by simp

text \<open>What thread \<open>T = bi * 512 + tid\<close> adds to column \<open>c\<close>.\<close>

definition pro_term :: "(u16 \<Rightarrow> 'f :: linordered_idom) \<Rightarrow> (nat \<Rightarrow> block_q4_0) \<Rightarrow> nat \<Rightarrow> (nat \<Rightarrow> 'f) \<Rightarrow> nat \<Rightarrow> nat \<Rightarrow> nat \<Rightarrow> 'f" where
  "pro_term cvt vx ncols yt bz c T =
     (if T = c div 32 * 16 + c mod 16 \<and> 2 * T < ncols
      then \<Sum>r < AXPY_BLOCK_Z. weight_q4_0 cvt vx ncols (bz * AXPY_BLOCK_Z + r) c * yt r else 0)"

lemma pro_thread_cell:
  assumes "32 dvd ncols" "c < ncols"
  shows "pro_thread (deq_q4_0 cvt vx) 32 2 ncols yt bi bz tid d c = d c + pro_term cvt vx ncols yt bz c (bi * AXPY_BLOCK_X + tid)"
proof (cases "ncols \<le> 2 * (bi * AXPY_BLOCK_X + tid)")
  case True
  then show ?thesis by (simp add: pro_thread_def pro_term_def Let_def)
next
  case False
  define T where "T = bi * AXPY_BLOCK_X + tid"
  define lo where "lo = 32 * (T div 16) + T mod 16"
  have m: "2 * T mod 32 = 2 * (T mod 16)" using mult_mod_right [of 2 T 16] by simp
  have half: "2 * T mod 32 div 2 = T mod 16" by (simp add: m)
  have ylo: "y_index 32 2 (2 * T) = lo"
    using minus_mod_eq_mult_div [of "2 * T" 32] div_mult_mult1 [of 2 T 16] by (simp add: y_index_def lo_def half)
  obtain q where q: "ncols = 32 * q" using assms(1) by (elim dvdE)
  have ix: "x_index 32 ncols g (2 * T) = g * q + T div 16" for g
  proof -
    have e: "g * ncols + 2 * T = 2 * T + g * q * 32" unfolding q by simp
    show ?thesis using div_mult_mult1 [of 2 T 16] unfolding x_index_def e by simp
  qed
  have small: "T mod 16 < 16" "lo = T mod 16 + (T div 16) * 32" "lo + 16 = (T mod 16 + 16) + (T div 16) * 32" by (simp_all add: lo_def)
  have w: "weight_q4_0 cvt vx ncols g lo = fst (deq_q4_0 cvt vx (g * q + T div 16) (T mod 16))"
      "weight_q4_0 cvt vx ncols g (lo + 16) = snd (deq_q4_0 cvt vx (g * q + T div 16) (T mod 16))" for g
  proof -
    have 1: "(g * ncols + lo) div 32 = g * q + T div 16 \<and> (g * ncols + lo) mod 32 = T mod 16"
      by (rule divmod32) (use small(1) in \<open>simp_all add: q lo_def algebra_simps\<close>)
    have 2: "(g * ncols + (lo + 16)) div 32 = g * q + T div 16 \<and> (g * ncols + (lo + 16)) mod 32 = T mod 16 + 16"
      by (rule divmod32) (use small(1) in \<open>simp_all add: q lo_def algebra_simps\<close>)
    show "weight_q4_0 cvt vx ncols g lo = fst (deq_q4_0 cvt vx (g * q + T div 16) (T mod 16))"
      using 1 small(1) by (simp add: weight_q4_0_def deq_q4_0_def Let_def QK_def q4_quant_def)
    show "weight_q4_0 cvt vx ncols g (lo + 16) = snd (deq_q4_0 cvt vx (g * q + T div 16) (T mod 16))"
      using 2 by (simp add: weight_q4_0_def deq_q4_0_def Let_def QK_def q4_quant_def)
  qed
  have hit: "T = c div 32 * 16 + c mod 16 \<longleftrightarrow> c = lo \<or> c = lo + 16"
  proof
    assume e: "T = c div 32 * 16 + c mod 16"
    have "c mod 16 = c mod 32 mod 16" by (simp add: mod_mod_cancel)
    moreover have "m mod 16 = (if m < 16 then m else m - 16)" if "m < 32" for m :: nat using that by (simp add: le_mod_geq)
    from this [of "c mod 32"] have "c mod 32 mod 16 = (if c mod 32 < 16 then c mod 32 else c mod 32 - 16)" by simp
    ultimately have "c mod 32 = c mod 16 \<or> c mod 32 = c mod 16 + 16" by (auto split: if_splits)
    moreover have "T div 16 = c div 32" "T mod 16 = c mod 16" unfolding e by simp_all
    ultimately show "c = lo \<or> c = lo + 16" using div_mult_mod_eq [of c 32] unfolding lo_def by linarith
  next
    assume "c = lo \<or> c = lo + 16"
    then have "c div 32 = T div 16 \<and> (c mod 32 = T mod 16 \<or> c mod 32 = T mod 16 + 16)"
      using divmod32 [OF small(2)] divmod32 [OF small(3)] small(1) by auto
    moreover have "c mod 16 = c mod 32 mod 16" by (simp add: mod_mod_cancel)
    ultimately show "T = c div 32 * 16 + c mod 16" by auto
  qed
  show ?thesis
    using False unfolding pro_thread_def Let_def T_def [symmetric] pro_term_def hit
      pro_acc [where deq = "deq_q4_0 cvt vx" and ix = "\<lambda>r. x_index 32 ncols (r + bz * AXPY_BLOCK_Z) (2 * T)", unfolded Let_def]
    by (auto simp: ylo half ix w y_offset_def interv_sum_list_conv_sum_set_nat atLeast0LessThan add.commute)
qed

lemma pro_y_tmp_full:
  assumes "ncols mod 1024 = 0 \<or> 512 \<le> ncols mod 1024" "bi < (ncols + 1023) div 512 div 2" "r < AXPY_BLOCK_Z"
  shows "pro_y_tmp ncols lst y junk bi bz r = y (row_of_block lst (bz * AXPY_BLOCK_Z + r))"
proof -
  have "bi < (ncols + 1023) div 1024" using assms(2) by (simp add: div_mult2_eq [symmetric])
  then have "bi * 1024 + 1024 \<le> ncols + 1023" using div_mult_mod_eq [of "ncols + 1023" 1024] by linarith
  moreover have "b * 1024 + 512 \<le> n * 1024 + m"
    if "b * 1024 + 1024 \<le> n * 1024 + m + 1023" "m < 1024" "m = 0 \<or> 512 \<le> m" for b n m :: nat
  proof -
    consider "Suc b \<le> n" | "b = n" | "Suc n \<le> b" by linarith
    then show ?thesis using that mult_le_mono1 [of "Suc b" n 1024] mult_le_mono1 [of "Suc n" b 1024] by cases auto
  qed
  note this [of bi "ncols div 1024" "ncols mod 1024"]
  ultimately have "bi * 1024 + 512 \<le> ncols" using assms(1) by simp
  then show ?thesis using assms(3) by (simp add: pro_y_tmp_def AXPY_BLOCK_X_def AXPY_BLOCK_Z_def add.commute)
qed

text \<open>C29: the kernel that adds up the down projection for one token with Q4_0 weights covers only whole
  groups of 256 rows: the neurons from \<open>nrows div 256 * 256\<close> on do not contribute, whatever their
  activations.  (The length of a row is a multiple of 32; when its last 1024 columns are less than half
  there, the kernel also reads activations that no thread has copied.)\<close>

theorem axpy_pro_drops_tail:
  assumes "32 dvd ncols" "ncols mod 1024 = 0 \<or> 512 \<le> ncols mod 1024" "c < ncols"
    and "distinct order" "set order = set (pro_grid ncols nrows)"
  shows "launch (pro_block (deq_q4_0 cvt vx) 32 2 ncols lst y junk) order (\<lambda>_. 0) c =
    (\<Sum>g < nrows div AXPY_BLOCK_Z * AXPY_BLOCK_Z. weight_q4_0 cvt vx ncols g c * y (row_of_block lst g))"
proof -
  let ?ny = "(ncols + 1023) div 512 div 2" and ?nz = "nrows div AXPY_BLOCK_Z"
  let ?yt = "\<lambda>b. pro_y_tmp ncols lst y junk (fst b) (snd b)"
  let ?h = "\<lambda>b. \<Sum>tid < 512. pro_term cvt vx ncols (?yt b) (snd b) c (fst b * 512 + tid)"
  let ?W = "\<lambda>bz. \<Sum>r < AXPY_BLOCK_Z. weight_q4_0 cvt vx ncols (bz * AXPY_BLOCK_Z + r) c * y (row_of_block lst (bz * AXPY_BLOCK_Z + r))"
  let ?T = "c div 32 * 16 + c mod 16"
  have threads: "fold (pro_thread (deq_q4_0 cvt vx) 32 2 ncols yt bi bz) ts d c =
      d c + (\<Sum>tid\<leftarrow>ts. pro_term cvt vx ncols yt bz c (bi * AXPY_BLOCK_X + tid))" for yt bi bz ts d
    by (induction ts arbitrary: d) (auto simp: pro_thread_cell [OF assms(1,3)] add.assoc)
  have "pro_block (deq_q4_0 cvt vx) 32 2 ncols lst y junk b d c = d c + ?h b" for b d
    by (simp add: pro_block_def threads AXPY_BLOCK_X_def interv_sum_list_conv_sum_set_nat atLeast0LessThan)
  then have "launch (pro_block (deq_q4_0 cvt vx) 32 2 ncols lst y junk) order (\<lambda>_. 0) c = (\<Sum>b \<in> set (pro_grid ncols nrows). ?h b)"
    using launch_adds [of order "pro_block (deq_q4_0 cvt vx) 32 2 ncols lst y junk" c ?h "\<lambda>_. 0"] assms(4,5) by simp
  also have "\<dots> = (\<Sum>bz < ?nz. \<Sum>bi < ?ny. ?h (bi, bz))"
    unfolding sum.swap [of _ "{..< ?ny}"]
    by (simp add: pro_grid_def AXPY_BLOCK_X_def set_product sum.cartesian_product' atLeast0LessThan add.commute [of 1023])
  also have "\<dots> = (\<Sum>bz < ?nz. ?W bz)"
  proof (rule sum.cong [OF refl])
    fix bz
    have "c div 32 < ncols div 32" using assms(1,3) by (auto elim!: dvdE simp: div_less_iff_less_mult mult.commute)
    moreover have "c mod 16 < 16" "ncols div 32 * 32 = ncols" using assms(1) by simp_all
    moreover have "d < n \<Longrightarrow> m < 16 \<Longrightarrow> n * 32 = k \<Longrightarrow> 2 * (d * 16 + m) < k" for d m n k :: nat by arith
    ultimately have T: "2 * ?T < ncols" by blast
    have "(ncols + 1023) div 512 div 2 = (ncols + 1023) div 1024" by (simp add: div_mult2_eq [symmetric])
    moreover have "2 * t < n \<Longrightarrow> k * 1024 + r = n + 1023 \<Longrightarrow> r < 1024 \<Longrightarrow> t < k * 512" for t n k r :: nat by linarith
    note this [OF T div_mult_mod_eq [of "ncols + 1023" 1024]]
    ultimately have grid: "?T < ?ny * 512" by simp
    have F: "pro_term cvt vx ncols (?yt (bi, bz)) bz c t = (if t = ?T then ?W bz else 0)" if "bi < ?ny" for bi t
      using T pro_y_tmp_full [OF assms(2) that, where lst = lst and y = y and junk = junk and bz = bz] by (auto simp: pro_term_def intro!: sum.cong)
    have "(\<Sum>bi < ?ny. ?h (bi, bz)) = (\<Sum>bi < ?ny. \<Sum>tid < 512. if bi * 512 + tid = ?T then ?W bz else 0)"
      by (intro sum.cong refl) (simp add: F [simplified])
    also have "\<dots> = (\<Sum>t < ?ny * 512. if t = ?T then ?W bz else 0)" by (rule sum_groups)
    also have "\<dots> = ?W bz" using grid by simp
    finally show "(\<Sum>bi < ?ny. ?h (bi, bz)) = ?W bz" .
  qed
  also have "\<dots> = (\<Sum>g < ?nz * AXPY_BLOCK_Z. weight_q4_0 cvt vx ncols g c * y (row_of_block lst g))" by (rule sum_groups)
  finally show ?thesis .
qed

subsection \<open>Small launches\<close>

lemma warp_dot_product_witness:
  "warp_sum (dmv_lane (deq_f16 uint (\<lambda>_. 3)) 1 1 32 (\<lambda>c. if c = 40 then 2 else 0)) 7 = 6 \<and>
   warp_sum (dmv_lane (deq_q4_0 uint (\<lambda>_. \<lparr>q4_d = 1, q4_qs = replicate 16 0\<rparr>)) QK 2 64 (\<lambda>c. if c = 63 then 2 else 0)) 7 = -16"
proof -
  have "QK dvd 64" by (simp add: QK_def)
  from warp_dot_product [OF this, where cvt = uint and vx = "\<lambda>_. 3" and n = 32 and y = "\<lambda>c. if c = 40 then 2 else 0" and g = 7]
    warp_dot_product [OF this, where cvt = uint and bx = "\<lambda>_. \<lparr>q4_d = 1, q4_qs = replicate 16 0\<rparr>" and y = "\<lambda>c. if c = 63 then 2 else 0" and g = 7]
  show ?thesis by (simp add: span_def weight_f16_def weight_q4_0_def Let_def QK_def q4_quant_def if_distrib [of "\<lambda>t. _ * t"] cong: if_cong)
qed

text \<open>Two rows of 64 weights for the neurons 1 and 2; two columns.  The second column of neuron 2 is
  1 * 3 + ... + 64 * 3 with the activations 1 of column 1.\<close>

lemma batch_agrees_with_vec_witness:
  "launch (batch_block (deq_f16 uint (\<lambda>i. if i < 64 then 2 else 3)) 1 1 64 2 2 3 (\<lambda>i. if i < 64 then 7 else 1) (Some Suc)
     (\<lambda>_. 1) (0 :: int)) [1, 0] (\<lambda>_. 0) 5 = 192"
proof -
  let ?vx = "\<lambda>i :: nat. if i < 64 then 2 else 3 :: u16" and ?y = "\<lambda>i :: nat. if i < 64 then 7 else 1 :: int"
  let ?lane = "dmv_lane (deq_f16 uint ?vx) 1 1 64 (\<lambda>i. ?y (1 * 64 + i))"
  have "launch (batch_block (deq_f16 uint ?vx) 1 1 64 2 2 3 ?y (Some Suc) (\<lambda>_. 1) (0 :: int)) [1, 0] (\<lambda>_. 0) (1 * 3 + 2) =
      launch (vec_sparse_block ?lane (Some Suc) (\<lambda>row. 1) 0 2) [0, 1] (\<lambda>_. 0) 2"
    by (rule batch_agrees_with_vec) (auto simp: bucket_ok_def row_of_block_def inj_on_def)
  also have "\<dots> = warp_sum ?lane 1"
    by (simp add: launch_def vec_sparse_block_def row_of_block_def)
  also have "\<dots> = (\<Sum>c < 64. uint (?vx (64 + c)) * ?y (64 + c))"
    by (simp add: warp_dot_f16 span_def weight_f16_def del: One_nat_def)
  also have "\<dots> = 192" by simp
  finally show ?thesis by simp
qed

lemma vec_q_clears_active_neuron_witness:
  "launch (vec_q_block (\<lambda>_ _. 1) (Some Suc) (\<lambda>r. if r = 1 then 1 else -1) (0 :: int)) [0 ..< 2] (\<lambda>_. 0) 1 = 0 \<and>
   launch (vec_sparse_block (\<lambda>_ _. 1) (Some Suc) (\<lambda>r. if r = 1 then 1 else -1) (0 :: int) 2) [0 ..< 2] (\<lambda>_. 0) 1 = 32"
proof -
  have sm: "strict_mono_on {..< 2} Suc" by (simp add: strict_mono_on_def)
  have w: "warp_sum (\<lambda>_ _. 1) 0 = (32 :: int)" by (simp add: warp_sum_lanes WARP_SIZE_def)
  show ?thesis unfolding w [symmetric] by (rule vec_q_clears_active_neuron [OF sm]) simp_all
qed

lemma axpy_pro_drops_tail_witness:
  "launch (pro_block (deq_q4_0 uint (\<lambda>_. \<lparr>q4_d = 1, q4_qs = replicate 16 0\<rparr>)) 32 2 1024 None (\<lambda>g. if g = 299 then 1 else 0) (\<lambda>_. 0))
     (pro_grid 1024 300) (\<lambda>_. 0) 0 = 0"
proof -
  have "distinct (pro_grid 1024 300)" by (simp add: pro_grid_def distinct_product)
  then have "launch (pro_block (deq_q4_0 uint (\<lambda>_. \<lparr>q4_d = 1, q4_qs = replicate 16 0\<rparr>)) 32 2 1024 None (\<lambda>g. if g = 299 then 1 else 0) (\<lambda>_. 0))
      (pro_grid 1024 300) (\<lambda>_. 0) 0 = (\<Sum>g < 300 div AXPY_BLOCK_Z * AXPY_BLOCK_Z.
        weight_q4_0 uint (\<lambda>_. \<lparr>q4_d = 1, q4_qs = replicate 16 0\<rparr>) 1024 g 0 * (if row_of_block None g = 299 then 1 else 0))"
    by (intro axpy_pro_drops_tail) (simp_all only: refl, simp_all)
  also have "\<dots> = 0" by (rule sum.neutral) (simp add: AXPY_BLOCK_Z_def row_of_block_def)
  finally show ?thesis .
qed

end
