(* ===== verification/Sparse_Ffn.thy ===== *)
theory Sparse_Ffn
  imports Sparse_Mm Sparse_Axpy Sparse_Cuda
begin

text \<open>
  The feed-forward block of PowerInfer (\<open>llm_build_ffn_sparse\<close> of \<open>llama.cpp\<close>) for one token and F16
  weights: the graph that the builder makes, evaluated with the kernels of the CPU and of the GPU.  A
  \<open>plan\<close> is one execution: the schedules of the workers and the orders of the blocks.  The split of the
  neurons (\<open>export_split.py\<close>, the loaders of \<open>llama.cpp\<close>) comes first.  \<open>rnd16\<close> is the conversion of an
  activation to F16 that the CPU makes and the GPU does not; \<open>cvt\<close> is the conversion back.
\<close>

subsection \<open>The split of a layer\<close>

text \<open>\<open>append_gpu_idx\<close> of \<open>export_split.py\<close>, from the indices that \<open>torch.topk\<close> returns.\<close>

definition export_idx :: "nat \<Rightarrow> nat list \<Rightarrow> int list" where
  "export_idx n indices = fold (\<lambda>i idx. idx[i := 1]) indices (replicate n 0)"

definition export_bucket :: "nat list \<Rightarrow> nat list" where
  "export_bucket indices = sort indices"

record split =
  s_idx :: "int list"
  s_bucket :: "nat list option"
  s_neurons :: int

text \<open>The end of \<open>load_gpu_idx_for_model\<close>; \<open>gpu_offload_ratio\<close> is \<open>s_neurons / ne[0]\<close>, so that
  comparing it with 0 and with 1 compares \<open>s_neurons\<close> with 0 and with \<open>ne[0]\<close>.\<close>

definition load_split :: "int list \<Rightarrow> nat list \<Rightarrow> split" where
  "load_split idx bucket =
     (let gpu_neurons = sum_list idx
      in \<lparr>s_idx = idx, s_bucket = (if gpu_neurons = 0 \<or> gpu_neurons = int (length idx) then None else Some bucket),
         s_neurons = gpu_neurons\<rparr>)"

definition full_gpu :: "split \<Rightarrow> bool" where
  "full_gpu s \<longleftrightarrow> s_neurons s \<ge> int (length (s_idx s))"

text \<open>The rows that go to the GPU, as one array.  Without a bucket the whole tensor goes.  \<open>None\<close>
  is the failed assertion.\<close>

definition create_striped_mat_to_gpu :: "u16 list list \<Rightarrow> nat list option \<Rightarrow> u16 list option" where
  "create_striped_mat_to_gpu src bucket =
     (case bucket of None \<Rightarrow> Some (concat src)
      | Some b \<Rightarrow> if 0 < length b \<and> length b \<le> length src
                  then Some (concat (map (\<lambda>i. src ! (b ! i)) [0 ..< length b])) else None)"

text \<open>The matrices of a layer: on the host, and on the GPU when some of its neurons are there.\<close>

record weights =
  host :: "u16 list list"
  device :: "u16 list option"

text \<open>\<open>slice_ffn_mat_to_gpu\<close> for one matrix; a null \<open>device\<close> stays null when the ratio is 0.\<close>

definition slice_mat :: "split \<Rightarrow> u16 list list \<Rightarrow> weights option" where
  "slice_mat s src =
     (if s_neurons s = 0 then Some \<lparr>host = src, device = None\<rparr>
      else if (s_bucket s \<noteq> None) \<noteq> (s_neurons s < int (length (s_idx s))) then None
      else map_option (\<lambda>d. \<lparr>host = src, device = Some d\<rparr>) (create_striped_mat_to_gpu src (s_bucket s)))"

subsection \<open>The sparse products\<close>

record 'f env =
  cvt :: "u16 \<Rightarrow> 'f"
  rnd16 :: "'f \<Rightarrow> u16"
  thr :: 'f
  n_threads :: nat

text \<open>\<open>ggml_vec_dot_f16\<close>.\<close>

definition vec_dot_f16 :: "(u16 \<Rightarrow> 'f :: linordered_idom) \<Rightarrow> nat \<Rightarrow> u16 list \<Rightarrow> u16 list \<Rightarrow> 'f" where
  "vec_dot_f16 cv n xs ys = fold (\<lambda>i s. s + cv (xs ! i) * cv (ys ! i)) [0 ..< n] 0"

definition cpu_op :: "'f env \<Rightarrow> split \<Rightarrow> nat \<Rightarrow> u16 list list \<Rightarrow> (nat \<Rightarrow> 'f) \<Rightarrow> (nat \<Rightarrow> 'f) \<Rightarrow> (u16 list, u16 list, 'f) sparse_op" where
  "cpu_op E s n_in W inp idx = \<lparr>ne01 = length W, ne02 = 1, ne03 = 1, ne11 = 1, ne12 = 1, ne13 = 1,
     w_row = (\<lambda>_ _ r. W ! r), x_col = (\<lambda>_. map (\<lambda>c. rnd16 E (inp c)) [0 ..< n_in]), mm_pred = (\<lambda>_. idx),
     gid = (\<lambda>r. s_idx s ! r), threshold = thr E\<rparr>"

definition lookup :: "split \<Rightarrow> (nat \<Rightarrow> nat) option" where
  "lookup s = map_option (\<lambda>b i. b ! i) (s_bucket s)"

definition gpu_rows :: "split \<Rightarrow> nat" where
  "gpu_rows s = (case s_bucket s of None \<Rightarrow> length (s_idx s) | Some b \<Rightarrow> length b)"

definition gpu_mul_mat :: "'f :: linordered_idom env \<Rightarrow> (nat \<Rightarrow> nat) option \<Rightarrow> nat \<Rightarrow> nat \<Rightarrow> nat list \<Rightarrow> u16 list \<Rightarrow> (nat \<Rightarrow> 'f) \<Rightarrow> (nat \<Rightarrow> 'f) \<Rightarrow> nat \<Rightarrow> 'f" where
  "gpu_mul_mat E lst n_in nrows order mem inp idx =
     launch (vec_sparse_block (dmv_lane (deq_f16 (cvt E) (\<lambda>k. mem ! k)) 1 1 n_in inp) lst idx (thr E) nrows) order (\<lambda>_. 0)"

text \<open>\<open>llm_build_sparse_mul_mat\<close>; \<open>junk\<close> is what the output tensor holds before.\<close>

definition llm_build_sparse_mul_mat ::
  "'f :: linordered_idom env \<Rightarrow> split \<Rightarrow> nat list \<times> nat list \<Rightarrow> (cell \<Rightarrow> 'f) \<Rightarrow> nat \<Rightarrow> weights \<Rightarrow> (nat \<Rightarrow> 'f) \<Rightarrow> (nat \<Rightarrow> 'f) \<Rightarrow> (nat \<Rightarrow> 'f) option" where
  "llm_build_sparse_mul_mat E s plan junk n_in W inp idx =
     (if full_gpu s then map_option (\<lambda>m. gpu_mul_mat E None n_in (length (s_idx s)) (snd plan) m inp idx) (device W)
      else case mm_run (vec_dot_f16 (cvt E) n_in) (cpu_op E s n_in (host W) inp idx) (n_threads E) (fst plan) junk of
        None \<Rightarrow> None
      | Some st \<Rightarrow>
          if \<not> mm_finished st then None
          else Some (case device W of None \<Rightarrow> (\<lambda>r. dst st (0, 0, 0, r))
            | Some m \<Rightarrow> (\<lambda>r. dst st (0, 0, 0, r) + gpu_mul_mat E (lookup s) n_in (gpu_rows s) (snd plan) m inp idx r)))"

definition cpu_axpy :: "'f env \<Rightarrow> split \<Rightarrow> nat \<Rightarrow> u16 list list \<Rightarrow> (nat \<Rightarrow> 'f) \<Rightarrow> (nat \<Rightarrow> 'f) \<Rightarrow> (u16 list, u16 list, 'f) axpy_op" where
  "cpu_axpy E s n_out W h idx = \<lparr>ne00 = n_out, n_rows = length W, n_cols = 1, w_rows = (\<lambda>r. W ! r),
     x_cols = (\<lambda>_. map (\<lambda>r. rnd16 E (h r)) [0 ..< length W]), sparse_idx = (\<lambda>_. idx), gpu_idx = Some (\<lambda>r. s_idx s ! r), cutoff = thr E\<rparr>"

definition gpu_axpy :: "'f :: linordered_idom env \<Rightarrow> (nat \<Rightarrow> nat) option \<Rightarrow> nat \<Rightarrow> nat \<Rightarrow> nat list \<Rightarrow> u16 list \<Rightarrow> (nat \<Rightarrow> 'f) \<Rightarrow> (nat \<Rightarrow> 'f) \<Rightarrow> nat \<Rightarrow> 'f" where
  "gpu_axpy E lst n_out nrows order mem h idx =
     launch (axpy_sparse_block (deq_f16 (cvt E) (\<lambda>k. mem ! k)) 1 1 n_out nrows lst idx h (thr E) (\<lambda>_. 0)) order (\<lambda>_. 0)"

text \<open>\<open>llm_build_sparse_axpy\<close>.  Every schedule of the workers is an execution, also one that loses additions.\<close>

definition llm_build_sparse_axpy ::
  "'f :: linordered_idom env \<Rightarrow> split \<Rightarrow> nat list \<times> nat list \<Rightarrow> nat \<Rightarrow> weights \<Rightarrow> (nat \<Rightarrow> 'f) \<Rightarrow> (nat \<Rightarrow> 'f) \<Rightarrow> (nat \<Rightarrow> 'f) option" where
  "llm_build_sparse_axpy E s plan n_out W h idx =
     (if full_gpu s then map_option (\<lambda>m. gpu_axpy E None n_out (length (s_idx s)) (snd plan) m h idx) (device W)
      else let p = cpu_axpy E s n_out (host W) h idx
      in case axpy_run (axpy_row_f16 (cvt E) p) p (n_threads E) (fst plan) of
        None \<Rightarrow> None
      | Some st \<Rightarrow>
          if \<not> axpy_finished st then None
          else Some (case device W of None \<Rightarrow> acc_out st 0
            | Some m \<Rightarrow> (\<lambda>c. acc_out st 0 c + gpu_axpy E (lookup s) n_out (gpu_rows s) (snd plan) m h idx c)))"

subsection \<open>The block\<close>

datatype llm_ffn_gate_type = LLM_FFN_SEQ | LLM_FFN_PAR | LLM_FFN_SYM

definition relu :: "'f :: linordered_idom \<Rightarrow> 'f" where "relu v = (if v > 0 then v else 0)"

definition add_bias :: "(nat \<Rightarrow> 'f :: plus) option \<Rightarrow> (nat \<Rightarrow> 'f) \<Rightarrow> nat \<Rightarrow> 'f" where
  "add_bias b v = (case b of None \<Rightarrow> v | Some b \<Rightarrow> (\<lambda>r. v r + b r))"

record 'f ffn =
  up :: weights
  up_b :: "(nat \<Rightarrow> 'f) option"
  gate :: "weights option"
  gate_b :: "(nat \<Rightarrow> 'f) option"
  down_t :: weights
  down_b :: "(nat \<Rightarrow> 'f) option"

record plan =
  up_plan :: "nat list \<times> nat list"
  gate_plan :: "nat list \<times> nat list"
  down_plan :: "nat list \<times> nat list"

text \<open>The activation in front of the down projection, from the outputs of the up and gate products.\<close>

definition ffn_act :: "llm_ffn_gate_type \<Rightarrow> (nat \<Rightarrow> 'f :: linordered_idom) \<Rightarrow> (nat \<Rightarrow> 'f) option \<Rightarrow> nat \<Rightarrow> 'f" where
  "ffn_act gt up_out gate_out r =
     (case gate_out of None \<Rightarrow> relu (up_out r)
      | Some g \<Rightarrow> (case gt of LLM_FFN_PAR \<Rightarrow> relu (g r) * up_out r
                   | LLM_FFN_SYM \<Rightarrow> relu (g r) * relu (up_out r)
                   | LLM_FFN_SEQ \<Rightarrow> relu (g r)))"

definition llm_build_ffn_sparse ::
  "'f :: linordered_idom env \<Rightarrow> split \<Rightarrow> plan \<Rightarrow> (cell \<Rightarrow> 'f) \<Rightarrow> llm_ffn_gate_type \<Rightarrow> nat \<Rightarrow> 'f ffn \<Rightarrow> (nat \<Rightarrow> 'f) \<Rightarrow> (nat \<Rightarrow> 'f) \<Rightarrow> (nat \<Rightarrow> 'f) option" where
  "llm_build_ffn_sparse E s plan junk gt n_embd F cur idx =
     Option.bind (llm_build_sparse_mul_mat E s (up_plan plan) junk n_embd (up F) cur idx) (\<lambda>u.
       let up_out = add_bias (up_b F) u
       in Option.bind (case gate F of None \<Rightarrow> Some None
            | Some g \<Rightarrow>
                let (n_in, inp) = (if gt = LLM_FFN_PAR \<or> gt = LLM_FFN_SYM then (n_embd, cur) else (length (host (up F)), up_out))
                in map_option (\<lambda>v. Some (add_bias (gate_b F) v)) (llm_build_sparse_mul_mat E s (gate_plan plan) junk n_in g inp idx))
          (\<lambda>gate_out. map_option (add_bias (down_b F))
             (llm_build_sparse_axpy E s (down_plan plan) n_embd (down_t F) (ffn_act gt up_out gate_out) idx)))"

subsection \<open>The split\<close>

text \<open>What the exporter writes and the loader reads, for some choice of distinct neurons.\<close>

definition split_ok :: "nat \<Rightarrow> split \<Rightarrow> bool" where
  "split_ok n s \<longleftrightarrow> (\<exists>indices. distinct indices \<and> set indices \<subseteq> {..< n} \<and> s = load_split (export_idx n indices) (export_bucket indices))"

definition on_gpu :: "split \<Rightarrow> nat \<Rightarrow> bool" where "on_gpu s r \<longleftrightarrow> s_idx s ! r = 1"

lemma export_idx_props:
  assumes "set indices \<subseteq> {..< n}"
  shows "length (export_idx n indices) = n \<and> (\<forall>r < n. export_idx n indices ! r = (if r \<in> set indices then 1 else 0))"
proof -
  have "length (fold (\<lambda>i idx. idx[i := 1]) xs v) = length v \<and>
      (\<forall>r < length v. fold (\<lambda>i idx. idx[i := 1]) xs v ! r = (if r \<in> set xs then 1 else v ! r))" for xs and v :: "int list"
    by (induction xs arbitrary: v) (auto simp: nth_list_update)
  from this [of indices "replicate n 0"] show ?thesis by (simp add: export_idx_def)
qed

lemma export_idx_sum:
  assumes "distinct indices" "set indices \<subseteq> {..< n}"
  shows "sum_list (export_idx n indices) = int (length indices)"
proof -
  have "sum_list (export_idx n indices) = (\<Sum>r < n. if r \<in> set indices then 1 else 0)"
    using export_idx_props [OF assms(2)] by (simp add: sum_list_sum_nth atLeast0LessThan)
  also have "\<dots> = int (card (set indices))"
    using assms(2) by (simp add: sum.If_cases Int_absorb1)
  finally show ?thesis by (simp add: distinct_card assms(1))
qed

text \<open>The three shapes of a layer: nothing on the GPU, everything, or the neurons of a bucket.\<close>

lemma split_cases:
  assumes "split_ok n s" "0 < n"
  obtains (none) "s_neurons s = 0" "s_bucket s = None" "\<not> full_gpu s" "length (s_idx s) = n" "\<And>r. r < n \<Longrightarrow> \<not> on_gpu s r"
  | (full) "s_neurons s = int n" "s_bucket s = None" "full_gpu s" "length (s_idx s) = n" "\<And>r. r < n \<Longrightarrow> on_gpu s r"
  | (hybrid) b where "s_bucket s = Some b" "0 < s_neurons s" "s_neurons s < int n" "\<not> full_gpu s" "length (s_idx s) = n"
      "distinct b" "b \<noteq> []" "length b \<le> n" "\<And>r. r < n \<Longrightarrow> on_gpu s r \<longleftrightarrow> r \<in> set b" "set b \<subseteq> {..< n}"
proof -
  from assms(1) obtain indices where i: "distinct indices" "set indices \<subseteq> {..< n}"
      and s: "s = load_split (export_idx n indices) (export_bucket indices)" by (auto simp: split_ok_def)
  have len: "length (export_idx n indices) = n" and at: "\<And>r. r < n \<Longrightarrow> export_idx n indices ! r = (if r \<in> set indices then 1 else 0)"
    using export_idx_props [OF i(2)] by auto
  have card: "length indices = card (set indices)" "card (set indices) \<le> n"
    using i card_mono [of "{..< n}" "set indices"] by (simp_all add: distinct_card)
  note sum = export_idx_sum [OF i]
  consider "length indices = 0" | "length indices = n" "0 < length indices" | "0 < length indices" "length indices < n"
    using card by linarith
  then show thesis
  proof cases
    case 1
    have "s_idx s = export_idx n indices" "s_neurons s = 0" "s_bucket s = None"
      using 1 sum by (simp_all add: s load_split_def Let_def)
    moreover have "export_idx n indices ! r = 0" if "r < n" for r using at [OF that] 1 by simp
    ultimately show thesis using none assms(2) len by (simp add: full_gpu_def on_gpu_def)
  next
    case 2
    then have "set indices = {..< n}" using i(2) card by (intro card_subset_eq) auto
    then show thesis using full 2 len at by (simp add: s load_split_def sum Let_def full_gpu_def on_gpu_def)
  next
    case 3
    have eq: "s_idx s = export_idx n indices" "s_neurons s = int (length indices)" "s_bucket s = Some (sort indices)"
      using 3 len unfolding s load_split_def Let_def sum export_bucket_def by simp_all
    have "sort indices \<noteq> []" using 3(1) by (metis length_sort less_irrefl list.size(3))
    moreover have "on_gpu s r \<longleftrightarrow> r \<in> set (sort indices)" if "r < n" for r using at [OF that] by (simp add: on_gpu_def eq)
    moreover have "\<not> full_gpu s" using 3(2) len by (simp add: eq full_gpu_def)
    ultimately show thesis using hybrid [OF eq(3)] 3 i len by (simp add: eq)
  qed
qed

lemma nth_concat_rows:
  assumes "\<forall>row \<in> set xs. length row = m" "g < length xs" "c < m"
  shows "concat xs ! (g * m + c) = xs ! g ! c"
  using assms
proof (induction xs arbitrary: g)
  case (Cons x xs)
  then show ?case by (cases g) (auto simp: nth_append)
qed simp

definition weights_ok :: "nat \<Rightarrow> nat \<Rightarrow> split \<Rightarrow> weights \<Rightarrow> bool" where
  "weights_ok n m s W \<longleftrightarrow> length (host W) = n \<and> (\<forall>row \<in> set (host W). length row = m) \<and> slice_mat s (host W) = Some W"

definition neuron :: "split \<Rightarrow> nat \<Rightarrow> nat" where
  "neuron s g = row_of_block (lookup s) g"

text \<open>Row \<open>g\<close> on the GPU is the row of neuron \<open>neuron s g\<close>, and these are the neurons that \<open>gpu_idx\<close> marks.\<close>

lemma device_rows:
  assumes s: "split_ok n s" "0 < n" and W: "weights_ok n m s W" and m: "device W = Some mem"
  shows "g < gpu_rows s \<Longrightarrow> c < m \<Longrightarrow> mem ! (g * m + c) = host W ! neuron s g ! c"
    and "bij_betw (neuron s) {..< gpu_rows s} {r. r < n \<and> on_gpu s r}"
    and "gpu_rows s \<le> n"
proof -
  have len: "length (host W) = n" "\<forall>row \<in> set (host W). length row = m" "slice_mat s (host W) = Some W"
    using W by (auto simp: weights_ok_def)
  show "g < gpu_rows s \<Longrightarrow> c < m \<Longrightarrow> mem ! (g * m + c) = host W ! neuron s g ! c"
    and "bij_betw (neuron s) {..< gpu_rows s} {r. r < n \<and> on_gpu s r}" and "gpu_rows s \<le> n"
  proof (atomize (full), cases rule: split_cases [OF s])
    case 1
    then have "W = \<lparr>host = host W, device = None\<rparr>" using len(3) by (simp add: slice_mat_def)
    then have "device W = None" by (metis weights.select_convs(2))
    then show "(g < gpu_rows s \<longrightarrow> c < m \<longrightarrow> mem ! (g * m + c) = host W ! neuron s g ! c) \<and>
        bij_betw (neuron s) {..< gpu_rows s} {r. r < n \<and> on_gpu s r} \<and> gpu_rows s \<le> n"
      using m by simp
  next
    case 2
    then have "W = \<lparr>host = host W, device = Some (concat (host W))\<rparr>"
      using len s(2) by (simp add: slice_mat_def create_striped_mat_to_gpu_def)
    then have "mem = concat (host W)" using m by (metis option.inject weights.select_convs(2))
    moreover have "neuron s = id" using 2 by (auto simp: neuron_def lookup_def row_of_block_def fun_eq_iff)
    moreover have "{r. r < n \<and> on_gpu s r} = {..< n}" using 2 by auto
    ultimately show "(g < gpu_rows s \<longrightarrow> c < m \<longrightarrow> mem ! (g * m + c) = host W ! neuron s g ! c) \<and>
        bij_betw (neuron s) {..< gpu_rows s} {r. r < n \<and> on_gpu s r} \<and> gpu_rows s \<le> n"
      using 2 nth_concat_rows [OF len(2)] len(1) by (simp add: gpu_rows_def)
  next
    case (3 b)
    then have "W = \<lparr>host = host W, device = Some (concat (map (\<lambda>i. host W ! (b ! i)) [0 ..< length b]))\<rparr>"
      using len by (simp add: slice_mat_def create_striped_mat_to_gpu_def)
    then have mem: "mem = concat (map (\<lambda>i. host W ! (b ! i)) [0 ..< length b])"
      using m by (metis option.inject weights.select_convs(2))
    have rows: "\<forall>row \<in> set (map (\<lambda>i. host W ! (b ! i)) [0 ..< length b]). length row = m"
      using len(1,2) 3(10) by (auto simp: nth_mem subset_iff)
    have "neuron s = (\<lambda>g. b ! g)" using 3 by (auto simp: neuron_def lookup_def row_of_block_def fun_eq_iff)
    moreover have "bij_betw (\<lambda>g. b ! g) {..< length b} (set b)" using 3(6) by (rule bij_betw_nth) auto
    moreover have "{r. r < n \<and> on_gpu s r} = set b" using 3 by auto
    ultimately show "(g < gpu_rows s \<longrightarrow> c < m \<longrightarrow> mem ! (g * m + c) = host W ! neuron s g ! c) \<and>
        bij_betw (neuron s) {..< gpu_rows s} {r. r < n \<and> on_gpu s r} \<and> gpu_rows s \<le> n"
      using nth_concat_rows [OF rows, of g c] 3 by (simp add: gpu_rows_def mem)
  qed
qed

subsection \<open>The products against a reference\<close>

text \<open>The reference works neuron by neuron on the original matrices: a neuron below the threshold is skipped;
  a neuron on the GPU sees the activations as they are, one on the CPU sees them rounded to F16.\<close>

definition seen :: "'f env \<Rightarrow> split \<Rightarrow> nat \<Rightarrow> 'f \<Rightarrow> 'f" where
  "seen E s r v = (if on_gpu s r then v else cvt E (rnd16 E v))"

definition ref_mul_mat :: "'f :: linordered_idom env \<Rightarrow> split \<Rightarrow> nat \<Rightarrow> u16 list list \<Rightarrow> (nat \<Rightarrow> 'f) \<Rightarrow> (nat \<Rightarrow> 'f) \<Rightarrow> nat \<Rightarrow> 'f" where
  "ref_mul_mat E s n_in W inp idx r =
     (if idx r < thr E then 0 else \<Sum>c < n_in. cvt E (W ! r ! c) * seen E s r (inp c))"

definition ref_axpy :: "'f :: linordered_idom env \<Rightarrow> split \<Rightarrow> u16 list list \<Rightarrow> (nat \<Rightarrow> 'f) \<Rightarrow> (nat \<Rightarrow> 'f) \<Rightarrow> nat \<Rightarrow> 'f" where
  "ref_axpy E s W h idx c = (\<Sum>r < length W. if idx r < thr E then 0 else cvt E (W ! r ! c) * seen E s r (h r))"

definition order_ok :: "split \<Rightarrow> nat list \<times> nat list \<Rightarrow> bool" where
  "order_ok s plan \<longleftrightarrow> distinct (snd plan) \<and> set (snd plan) = {..< gpu_rows s}"

lemma span_id: "64 dvd m \<Longrightarrow> span m = m"
  by (auto simp: span_def elim!: dvdE)

lemma gpu_mul_mat_cell:
  assumes s: "split_ok n s" "0 < n" and W: "weights_ok n m s W" "device W = Some mem" and m: "64 dvd m"
    and order: "order_ok s plan" and r: "r < n"
  shows "gpu_mul_mat E (lookup s) m (gpu_rows s) (snd plan) mem inp idx r =
    (if on_gpu s r then ref_mul_mat E s m (host W) inp idx r else 0)"
proof -
  note dev = device_rows [OF s W]
  have ord: "distinct (snd plan)" "set (snd plan) = {..< gpu_rows s}" using order by (simp_all add: order_ok_def)
  have bucket: "bucket_ok (lookup s) (gpu_rows s)"
    using dev(2) unfolding bucket_ok_def neuron_def [abs_def] bij_betw_def by blast
  show ?thesis
  proof (cases "on_gpu s r")
    case True
    then have "r \<in> neuron s ` {..< gpu_rows s}" using dev(2) r unfolding bij_betw_def by simp
    then obtain g where g: "g < gpu_rows s" "neuron s g = r" by blast
    have "warp_sum (dmv_lane (deq_f16 (cvt E) (\<lambda>k. mem ! k)) 1 1 m inp) g = (\<Sum>c < m. cvt E (host W ! r ! c) * inp c)"
      unfolding warp_dot_f16 span_id [OF m] weight_f16_def using dev(1) [OF g(1)] g(2) by simp
    then show ?thesis
      using vec_sparse_launch(1) [OF ord bucket g(1), where idx = idx and thr = "thr E"] g True
      by (simp add: gpu_mul_mat_def neuron_def ref_mul_mat_def seen_def)
  next
    case False
    then have "r \<notin> row_of_block (lookup s) ` {..< gpu_rows s}"
      using dev(2) unfolding bij_betw_def neuron_def [abs_def] by auto
    then show ?thesis using vec_sparse_launch(2) [OF ord bucket] False by (simp add: gpu_mul_mat_def)
  qed
qed

lemma vec_dot_f16_sum:
  "vec_dot_f16 cv m xs ys = (\<Sum>c < m. cv (xs ! c) * cv (ys ! c))"
  unfolding vec_dot_f16_def by (induction m) simp_all

lemma cpu_mul_mat_cell:
  assumes "mm_run (vec_dot_f16 (cvt E) m) (cpu_op E s m W inp idx) (n_threads E) sched junk = Some st" "mm_finished st"
    and "0 < n_threads E" "1 < length W" "r < length W"
  shows "dst st (0, 0, 0, r) = (if on_gpu s r then 0 else ref_mul_mat E s m W inp idx r)"
proof -
  let ?p = "cpu_op E s m W inp idx"
  have sizes: "nr1 ?p = 1" "nr0 ?p = length W" by (simp_all add: nr1_def nr0_def cpu_op_def)
  have cell: "cell_of ?p r 0 = (0, 0, 0, r)" by (simp add: cell_of_def cpu_op_def)
  have "dst st (0, 0, 0, r) = cell_value (vec_dot_f16 (cvt E) m) ?p (0, 0, 0, r)"
    using complete_cell [OF assms(3) _ assms(1,2), of "(0, 0, 0, r)"] assms(4,5) cell by (auto simp: sizes row_of_def)
  then show ?thesis
    by (simp add: cell_value_def cpu_op_def vec_dot_f16_sum ref_mul_mat_def seen_def on_gpu_def)
qed

lemma slice_device: "slice_mat s src = Some W \<Longrightarrow> device W = None \<longleftrightarrow> s_neurons s = 0"
  by (cases W) (auto simp: slice_mat_def split: if_splits)

lemma mul_mat_result:
  assumes s: "split_ok n s" "1 < n" and W: "weights_ok n m s W" and m: "64 dvd m" and order: "order_ok s plan"
    and E: "0 < n_threads E" and out: "llm_build_sparse_mul_mat E s plan junk m W inp idx = Some out" and r: "r < n"
  shows "out r = ref_mul_mat E s m (host W) inp idx r"
proof -
  have s0: "0 < n" using s(2) by simp
  have len: "length (host W) = n" using W by (simp add: weights_ok_def)
  note gpu = gpu_mul_mat_cell [OF s(1) s0 W _ m order r]
  have dev: "device W = None \<longleftrightarrow> s_neurons s = 0" using W slice_device [of s "host W" W] by (simp add: weights_ok_def)
  show ?thesis
  proof (cases "full_gpu s")
    case True
    then have full: "lookup s = None" "gpu_rows s = length (s_idx s)" "on_gpu s r"
      using r by (auto intro: split_cases [OF s(1) s0] simp: lookup_def gpu_rows_def)
    from out True obtain mem where "device W = Some mem" "out = gpu_mul_mat E None m (length (s_idx s)) (snd plan) mem inp idx"
      by (auto simp: llm_build_sparse_mul_mat_def)
    then show ?thesis using gpu [of mem E inp idx] full by simp
  next
    case False
    from out False obtain st where st: "mm_run (vec_dot_f16 (cvt E) m) (cpu_op E s m (host W) inp idx) (n_threads E) (fst plan) junk = Some st"
        "mm_finished st"
      and o: "out = (case device W of None \<Rightarrow> (\<lambda>r. dst st (0, 0, 0, r))
        | Some mem \<Rightarrow> (\<lambda>r. dst st (0, 0, 0, r) + gpu_mul_mat E (lookup s) m (gpu_rows s) (snd plan) mem inp idx r))"
      by (auto simp: llm_build_sparse_mul_mat_def split: option.splits if_splits)
    note cpu = cpu_mul_mat_cell [OF st E, of r, unfolded len, OF s(2) r]
    show ?thesis
    proof (cases "device W")
      case None
      have "\<not> on_gpu s r" by (rule split_cases [OF s(1) s0]) (use dev None r s0 in auto)
      then show ?thesis using o None cpu by simp
    next
      case (Some mem)
      then show ?thesis using o gpu [of mem E inp idx] cpu by simp
    qed
  qed
qed

lemma gpu_axpy_cell:
  assumes s: "split_ok n s" "0 < n" and W: "weights_ok n m s W" "device W = Some mem" and m: "64 dvd m" "c < m"
    and order: "order_ok s plan"
  shows "gpu_axpy E (lookup s) m (gpu_rows s) (snd plan) mem h idx c =
    (\<Sum>r < n. if on_gpu s r then if idx r < thr E then 0 else cvt E (host W ! r ! c) * h r else 0)"
proof -
  note dev = device_rows [OF s W]
  have ord: "distinct (snd plan)" "set (snd plan) = {..< gpu_rows s}" using order by (simp_all add: order_ok_def)
  let ?t = "\<lambda>r. if idx r < thr E then 0 else cvt E (host W ! r ! c) * h r"
  have "gpu_axpy E (lookup s) m (gpu_rows s) (snd plan) mem h idx c = (\<Sum>g < gpu_rows s. ?t (neuron s g))"
    unfolding gpu_axpy_def axpy_sparse_launch [OF m ord] weight_f16_def neuron_def [symmetric]
    using dev(1) m(2) by (intro sum.cong) auto
  also have "\<dots> = (\<Sum>r \<in> {r. r < n \<and> on_gpu s r}. ?t r)" by (rule sum.reindex_bij_betw [OF dev(2)])
  also have "\<dots> = (\<Sum>r < n. if on_gpu s r then ?t r else 0)" by (rule sum.mono_neutral_cong_left) auto
  finally show ?thesis .
qed

lemma cpu_axpy_cell:
  assumes "quiet_run (axpy_row_f16 (cvt E) p) p (n_threads E) sched = Some st" "axpy_finished st" "p = cpu_axpy E s m W h idx"
    and "0 < n_threads E" "c < m" "cvt E 0 = 0"
  shows "acc_out st 0 c = (\<Sum>r < length W. if on_gpu s r then 0 else if idx r < thr E then 0 else cvt E (W ! r ! c) * cvt E (rnd16 E (h r)))"
proof -
  have "acc_out st 0 c = (\<Sum>r < n_rows p. contrib_f16 (cvt E) p 0 r c)"
    by (rule axpy_f16_cell [OF assms(1,2,4)]) (use assms(3,5) in \<open>simp_all add: cpu_axpy_def\<close>)
  also have "\<dots> = (\<Sum>r < length W. if on_gpu s r then 0 else if idx r < thr E then 0 else cvt E (W ! r ! c) * cvt E (rnd16 E (h r)))"
    unfolding assms(3) by (rule sum.cong) (auto simp: cpu_axpy_def contrib_f16_def skips_def on_gpu_def assms(6))
  finally show ?thesis .
qed

text \<open>No two workers collide on an element of \<open>dst\<close>.\<close>

definition calm :: "'f env \<Rightarrow> nat \<Rightarrow> nat list \<Rightarrow> bool" where
  "calm E n_out sched \<longleftrightarrow> n_threads E = 1 \<or> collision_free (n_threads E) 1 n_out sched"

lemma calm_quiet:
  assumes "axpy_run row p (n_threads E) sched = Some st" "calm E (ne00 p) sched" "n_cols p = 1"
  shows "quiet_run row p (n_threads E) sched = Some st"
proof -
  have "collision_free (n_threads E) (n_cols p) (ne00 p) sched"
  proof (cases "n_threads E = 1")
    case True
    then show ?thesis using one_worker_collision_free [of row p sched st] assms(1) by (simp only: True)
  next
    case False
    then show ?thesis using assms(2,3) by (simp add: calm_def)
  qed
  then show ?thesis by (rule collision_free_quiet [OF assms(1)])
qed

lemma axpy_result:
  assumes s: "split_ok n s" "0 < n" and W: "weights_ok n m s W" and m: "64 dvd m" "c < m" and order: "order_ok s plan"
    and E: "0 < n_threads E" "cvt E 0 = 0" and calm: "full_gpu s \<or> calm E m (fst plan)" and out: "llm_build_sparse_axpy E s plan m W h idx = Some out"
  shows "out c = ref_axpy E s (host W) h idx c"
proof -
  have len: "length (host W) = n" using W by (simp add: weights_ok_def)
  note gpu = gpu_axpy_cell [OF s W _ m order]
  have dev: "device W = None \<longleftrightarrow> s_neurons s = 0" using W slice_device [of s "host W" W] by (simp add: weights_ok_def)
  show ?thesis
  proof (cases "full_gpu s")
    case True
    then have full: "lookup s = None" "gpu_rows s = length (s_idx s)" "\<forall>r < n. on_gpu s r"
      by (auto intro: split_cases [OF s] simp: lookup_def gpu_rows_def)
    from out True obtain mem where "device W = Some mem" "out = gpu_axpy E None m (length (s_idx s)) (snd plan) mem h idx"
      by (auto simp: llm_build_sparse_axpy_def)
    then have "out c = (\<Sum>r < n. if on_gpu s r then if idx r < thr E then 0 else cvt E (host W ! r ! c) * h r else 0)"
      using gpu [of mem E h idx] full by simp
    also have "\<dots> = ref_axpy E s (host W) h idx c"
      unfolding ref_axpy_def len by (rule sum.cong) (use full(3) in \<open>auto simp: seen_def\<close>)
    finally show ?thesis .
  next
    case False
    let ?p = "cpu_axpy E s m (host W) h idx"
    from out False obtain st where run: "axpy_run (axpy_row_f16 (cvt E) ?p) ?p (n_threads E) (fst plan) = Some st" "axpy_finished st"
      and o: "out = (case device W of None \<Rightarrow> acc_out st 0
        | Some mem \<Rightarrow> (\<lambda>c. acc_out st 0 c + gpu_axpy E (lookup s) m (gpu_rows s) (snd plan) mem h idx c))"
      by (auto simp: llm_build_sparse_axpy_def Let_def split: option.splits if_splits)
    have st: "quiet_run (axpy_row_f16 (cvt E) ?p) ?p (n_threads E) (fst plan) = Some st" "axpy_finished st"
      using calm_quiet [OF run(1)] calm False run(2) by (simp_all add: cpu_axpy_def)
    note cpu = cpu_axpy_cell [OF st refl E(1) m(2) E(2), unfolded len]
    show ?thesis
    proof (cases "device W")
      case None
      have "\<forall>r < n. \<not> on_gpu s r" by (rule split_cases [OF s]) (use dev None s in auto)
      then have "out c = (\<Sum>r < n. if idx r < thr E then 0 else cvt E (host W ! r ! c) * cvt E (rnd16 E (h r)))"
        using o None cpu by simp
      also have "\<dots> = ref_axpy E s (host W) h idx c"
        unfolding ref_axpy_def len by (rule sum.cong) (use \<open>\<forall>r < n. \<not> on_gpu s r\<close> in \<open>auto simp: seen_def\<close>)
      finally show ?thesis .
    next
      case (Some mem)
      then show ?thesis
        unfolding o using gpu [of mem E h idx] cpu
        by (auto simp: ref_axpy_def seen_def len sum.distrib [symmetric] intro!: sum.cong)
    qed
  qed
qed

subsection \<open>The block against a reference\<close>

definition ref_ffn_act :: "'f :: linordered_idom env \<Rightarrow> split \<Rightarrow> llm_ffn_gate_type \<Rightarrow> nat \<Rightarrow> 'f ffn \<Rightarrow> (nat \<Rightarrow> 'f) \<Rightarrow> (nat \<Rightarrow> 'f) \<Rightarrow> nat \<Rightarrow> 'f" where
  "ref_ffn_act E s gt n_embd F cur idx =
     (let up_out = add_bias (up_b F) (ref_mul_mat E s n_embd (host (up F)) cur idx)
      in ffn_act gt up_out (map_option (\<lambda>g. add_bias (gate_b F) (ref_mul_mat E s n_embd (host g) cur idx)) (gate F)))"

definition ref_ffn :: "'f :: linordered_idom env \<Rightarrow> split \<Rightarrow> llm_ffn_gate_type \<Rightarrow> nat \<Rightarrow> 'f ffn \<Rightarrow> (nat \<Rightarrow> 'f) \<Rightarrow> (nat \<Rightarrow> 'f) \<Rightarrow> nat \<Rightarrow> 'f" where
  "ref_ffn E s gt n_embd F cur idx =
     add_bias (down_b F) (ref_axpy E s (host (down_t F)) (ref_ffn_act E s gt n_embd F cur idx) idx)"

definition ffn_ok :: "nat \<Rightarrow> nat \<Rightarrow> split \<Rightarrow> 'f ffn \<Rightarrow> bool" where
  "ffn_ok n n_embd s F \<longleftrightarrow> weights_ok n n_embd s (up F) \<and> weights_ok n n_embd s (down_t F) \<and> pred_option (weights_ok n n_embd s) (gate F)"

definition orders_ok :: "split \<Rightarrow> plan \<Rightarrow> bool" where
  "orders_ok s plan \<longleftrightarrow> order_ok s (up_plan plan) \<and> order_ok s (gate_plan plan) \<and> order_ok s (down_plan plan)"

lemma ref_axpy_cong: "(\<And>r. r < length W \<Longrightarrow> h r = h' r) \<Longrightarrow> ref_axpy E s W h idx c = ref_axpy E s W h' idx c"
  unfolding ref_axpy_def by (rule sum.cong) auto

lemma ffn_result:
  assumes s: "split_ok n s" "1 < n" and F: "ffn_ok n n_embd s F" and m: "64 dvd n_embd" and orders: "orders_ok s plan"
    and E: "0 < n_threads E" "cvt E 0 = 0" and calm: "full_gpu s \<or> calm E n_embd (fst (down_plan plan))"
    and gt: "gt \<noteq> LLM_FFN_SEQ \<or> gate F = None" and out: "llm_build_ffn_sparse E s plan junk gt n_embd F cur idx = Some out" and c: "c < n_embd"
  shows "out c = ref_ffn E s gt n_embd F cur idx c"
proof -
  have W: "weights_ok n n_embd s (up F)" "weights_ok n n_embd s (down_t F)" "gate F = Some g \<Longrightarrow> weights_ok n n_embd s g" for g
    using F by (auto simp: ffn_ok_def)
  have ord: "order_ok s (up_plan plan)" "order_ok s (gate_plan plan)" "order_ok s (down_plan plan)" using orders by (simp_all add: orders_ok_def)
  obtain u where u: "llm_build_sparse_mul_mat E s (up_plan plan) junk n_embd (up F) cur idx = Some u"
    using out by (auto simp: llm_build_ffn_sparse_def bind_eq_Some_conv)
  let ?gate = "case gate F of None \<Rightarrow> Some None
    | Some g \<Rightarrow> let (n_in, inp) = (if gt = LLM_FFN_PAR \<or> gt = LLM_FFN_SYM then (n_embd, cur) else (length (host (up F)), add_bias (up_b F) u))
        in map_option (\<lambda>v. Some (add_bias (gate_b F) v)) (llm_build_sparse_mul_mat E s (gate_plan plan) junk n_in g inp idx)"
  have "Option.bind ?gate (\<lambda>gate_out. map_option (add_bias (down_b F))
      (llm_build_sparse_axpy E s (down_plan plan) n_embd (down_t F) (ffn_act gt (add_bias (up_b F) u) gate_out) idx)) = Some out"
    using out unfolding llm_build_ffn_sparse_def u bind.bind_lunit Let_def .
  then obtain go o' where go: "?gate = Some go"
      and down: "llm_build_sparse_axpy E s (down_plan plan) n_embd (down_t F) (ffn_act gt (add_bias (up_b F) u) go) idx = Some o'"
      and o: "add_bias (down_b F) o' = out"
    unfolding bind_eq_Some_conv map_option_eq_Some by (elim exE conjE, intro that)
  have up: "add_bias (up_b F) u r = add_bias (up_b F) (ref_mul_mat E s n_embd (host (up F)) cur idx) r" if "r < n" for r
    using mul_mat_result [OF s W(1) m ord(1) E(1) u that] by (simp add: add_bias_def split: option.splits)
  have act: "ffn_act gt (add_bias (up_b F) u) go r = ref_ffn_act E s gt n_embd F cur idx r" if r: "r < n" for r
  proof (cases "gate F")
    case None
    then show ?thesis using go up [OF r] by (simp add: ref_ffn_act_def ffn_act_def)
  next
    case (Some g)
    then have "gt = LLM_FFN_PAR \<or> gt = LLM_FFN_SYM" using gt by (cases gt) auto
    then obtain v where v: "llm_build_sparse_mul_mat E s (gate_plan plan) junk n_embd g cur idx = Some v"
      "go = Some (add_bias (gate_b F) v)" using go Some by auto
    have "add_bias (gate_b F) v r = add_bias (gate_b F) (ref_mul_mat E s n_embd (host g) cur idx) r"
      using mul_mat_result [OF s W(3) [OF Some] m ord(2) E(1) v(1) r] by (simp add: add_bias_def split: option.splits)
    then show ?thesis using Some v(2) up [OF r] by (simp add: ref_ffn_act_def ffn_act_def split: llm_ffn_gate_type.split)
  qed
  have len: "length (host (down_t F)) = n" using W(2) by (simp add: weights_ok_def)
  have "o' c = ref_axpy E s (host (down_t F)) (ffn_act gt (add_bias (up_b F) u) go) idx c"
    using axpy_result [OF s(1) _ W(2) m c ord(3) E calm down] s(2) by simp
  also have "\<dots> = ref_axpy E s (host (down_t F)) (ref_ffn_act E s gt n_embd F cur idx) idx c"
    by (rule ref_axpy_cong) (simp only: len act)
  finally have "o' c = ref_axpy E s (host (down_t F)) (ref_ffn_act E s gt n_embd F cur idx) idx c" .
  then show ?thesis unfolding o [symmetric] by (simp add: ref_ffn_def add_bias_def split: option.splits)
qed

subsection \<open>Executions exist\<close>

lemma full_gpu_device:
  assumes "split_ok n s" "0 < n" "weights_ok n m s W" "full_gpu s"
  shows "device W \<noteq> None"
proof -
  have "s_neurons s \<noteq> 0" by (rule split_cases [OF assms(1,2)]) (use assms(2,4) in auto)
  then show ?thesis using assms(3) slice_device [of s "host W" W] by (simp add: weights_ok_def)
qed

lemma mul_mat_runs:
  assumes "split_ok n s" "0 < n" "weights_ok n m s W" "0 < n_threads E"
  shows "\<exists>plan. order_ok s plan \<and> llm_build_sparse_mul_mat E s plan junk n_in W inp idx \<noteq> None"
proof -
  obtain sched st where "mm_run (vec_dot_f16 (cvt E) n_in) (cpu_op E s n_in (host W) inp idx) (n_threads E) sched junk = Some st" "mm_finished st"
    using mm_can_finish [OF assms(4)] by blast
  then have "llm_build_sparse_mul_mat E s (sched, [0 ..< gpu_rows s]) junk n_in W inp idx \<noteq> None"
    using full_gpu_device [OF assms(1-3)] by (simp add: llm_build_sparse_mul_mat_def)
  moreover have "order_ok s (sched, [0 ..< gpu_rows s])" by (simp add: order_ok_def atLeast0LessThan)
  ultimately show ?thesis by blast
qed

lemma axpy_runs:
  assumes "split_ok n s" "0 < n" "weights_ok n m s W"
  shows "\<exists>plan. order_ok s plan \<and> calm E n_out (fst plan) \<and> llm_build_sparse_axpy E s plan n_out W h idx \<noteq> None"
proof -
  let ?p = "cpu_axpy E s n_out (host W) h idx"
  have p: "n_cols ?p = 1" "ne00 ?p = n_out" by (simp_all add: cpu_axpy_def)
  obtain sched st where run: "axpy_run (axpy_row_f16 (cvt E) ?p) ?p (n_threads E) sched = Some st" "axpy_finished st"
      and free: "collision_free (n_threads E) 1 n_out sched"
    using calm_run_exists [of "axpy_row_f16 (cvt E) ?p" ?p "n_threads E"] unfolding p by blast
  have "llm_build_sparse_axpy E s (sched, [0 ..< gpu_rows s]) n_out W h idx \<noteq> None"
    using full_gpu_device [OF assms(1-3)] run by (simp add: llm_build_sparse_axpy_def Let_def)
  moreover have "order_ok s (sched, [0 ..< gpu_rows s])" by (simp add: order_ok_def atLeast0LessThan)
  ultimately show ?thesis using free by (intro exI [of _ "(sched, [0 ..< gpu_rows s])"]) (simp add: calm_def)
qed

lemma ffn_runs:
  assumes s: "split_ok n s" "0 < n" and F: "ffn_ok n n_embd s F" and E: "0 < n_threads E"
  shows "\<exists>plan out. orders_ok s plan \<and> calm E n_embd (fst (down_plan plan)) \<and> llm_build_ffn_sparse E s plan junk gt n_embd F cur idx = Some out"
proof -
  have W: "weights_ok n n_embd s (up F)" "weights_ok n n_embd s (down_t F)" "gate F = Some g \<Longrightarrow> weights_ok n n_embd s g" for g
    using F by (auto simp: ffn_ok_def)
  obtain pu u where u: "order_ok s pu" "llm_build_sparse_mul_mat E s pu junk n_embd (up F) cur idx = Some u"
    using mul_mat_runs [OF s W(1) E] by blast
  obtain pg go where g: "order_ok s pg" "(case gate F of None \<Rightarrow> Some None
      | Some g \<Rightarrow> let (n_in, inp) = (if gt = LLM_FFN_PAR \<or> gt = LLM_FFN_SYM then (n_embd, cur) else (length (host (up F)), add_bias (up_b F) u))
          in map_option (\<lambda>v. Some (add_bias (gate_b F) v)) (llm_build_sparse_mul_mat E s pg junk n_in g inp idx)) = Some go"
  proof (cases "gate F")
    case None
    then show thesis using u(1) that [of pu None] by simp
  next
    case (Some g)
    let ?in = "if gt = LLM_FFN_PAR \<or> gt = LLM_FFN_SYM then (n_embd, cur) else (length (host (up F)), add_bias (up_b F) u)"
    obtain pg v where "order_ok s pg" "llm_build_sparse_mul_mat E s pg junk (fst ?in) g (snd ?in) idx = Some v"
      using mul_mat_runs [OF s W(3) [OF Some] E, of junk "fst ?in" "snd ?in" idx] by blast
    then show thesis using that [of pg "Some (add_bias (gate_b F) v)"] by (simp add: Some case_prod_beta)
  qed
  obtain pd d where d: "order_ok s pd" "calm E n_embd (fst pd)" "llm_build_sparse_axpy E s pd n_embd (down_t F) (ffn_act gt (add_bias (up_b F) u) go) idx = Some d"
    using axpy_runs [OF s W(2)] by blast
  have "llm_build_ffn_sparse E s \<lparr>up_plan = pu, gate_plan = pg, down_plan = pd\<rparr> junk gt n_embd F cur idx = Some (add_bias (down_b F) d)"
    unfolding llm_build_ffn_sparse_def plan.select_convs u(2) Let_def bind.bind_lunit g(2) [unfolded Let_def] d(3) by simp
  moreover have "orders_ok s \<lparr>up_plan = pu, gate_plan = pg, down_plan = pd\<rparr>" using u(1) g(1) d(1) by (simp add: orders_ok_def)
  ultimately show ?thesis using d(2)
    by (intro exI [of _ "\<lparr>up_plan = pu, gate_plan = pg, down_plan = pd\<rparr>"] exI [of _ "add_bias (down_b F) d"]) simp
qed

subsection \<open>The dense block\<close>

text \<open>\<open>llm_build_ffn\<close> on one token, with exact arithmetic; \<open>down\<close> is not transposed.  SILU and GELU are functions
  on floats and are parameters.\<close>

datatype llm_ffn_op_type = LLM_FFN_SILU | LLM_FFN_GELU | LLM_FFN_RELU | LLM_FFN_RELU_SQR

definition act_fn :: "('f \<Rightarrow> 'f) \<Rightarrow> ('f \<Rightarrow> 'f) \<Rightarrow> llm_ffn_op_type \<Rightarrow> 'f :: linordered_idom \<Rightarrow> 'f" where
  "act_fn silu gelu type_op v =
     (case type_op of LLM_FFN_SILU \<Rightarrow> silu v | LLM_FFN_GELU \<Rightarrow> gelu v
      | LLM_FFN_RELU \<Rightarrow> relu v | LLM_FFN_RELU_SQR \<Rightarrow> relu v * relu v)"

definition mul_mat :: "(u16 \<Rightarrow> 'f :: linordered_idom) \<Rightarrow> nat \<Rightarrow> u16 list list \<Rightarrow> (nat \<Rightarrow> 'f) \<Rightarrow> nat \<Rightarrow> 'f" where
  "mul_mat cv n_in W inp r = (\<Sum>c < n_in. cv (W ! r ! c) * inp c)"

record 'f dense_ffn =
  d_up :: "u16 list list"
  d_up_b :: "(nat \<Rightarrow> 'f) option"
  d_gate :: "u16 list list option"
  d_gate_b :: "(nat \<Rightarrow> 'f) option"
  d_down :: "u16 list list"
  d_down_b :: "(nat \<Rightarrow> 'f) option"

text \<open>The tensor that enters the down projection.\<close>

definition dense_act :: "(u16 \<Rightarrow> 'f :: linordered_idom) \<Rightarrow> ('f \<Rightarrow> 'f) \<Rightarrow> ('f \<Rightarrow> 'f) \<Rightarrow> llm_ffn_op_type \<Rightarrow> llm_ffn_gate_type \<Rightarrow> nat \<Rightarrow> 'f dense_ffn \<Rightarrow> (nat \<Rightarrow> 'f) \<Rightarrow> nat \<Rightarrow> 'f" where
  "dense_act cv silu gelu op gt n_embd D cur =
     (let tmp = add_bias (d_up_b D) (mul_mat cv n_embd (d_up D) cur);
          cur = (case d_gate D of None \<Rightarrow> tmp
            | Some g \<Rightarrow> add_bias (d_gate_b D)
                (if gt = LLM_FFN_SEQ then mul_mat cv (length (d_up D)) g tmp else mul_mat cv n_embd g cur));
          cur = (\<lambda>r. act_fn silu gelu op (cur r));
          tmp = (if gt = LLM_FFN_SYM then (\<lambda>r. act_fn silu gelu op (tmp r)) else tmp)
      in if gt = LLM_FFN_PAR \<or> gt = LLM_FFN_SYM then (\<lambda>r. cur r * tmp r) else cur)"

definition llm_build_ffn :: "(u16 \<Rightarrow> 'f :: linordered_idom) \<Rightarrow> ('f \<Rightarrow> 'f) \<Rightarrow> ('f \<Rightarrow> 'f) \<Rightarrow> llm_ffn_op_type \<Rightarrow> llm_ffn_gate_type \<Rightarrow> nat \<Rightarrow> 'f dense_ffn \<Rightarrow> (nat \<Rightarrow> 'f) \<Rightarrow> nat \<Rightarrow> 'f" where
  "llm_build_ffn cv silu gelu op gt n_embd D cur =
     add_bias (d_down_b D) (mul_mat cv (length (d_up D)) (d_down D) (dense_act cv silu gelu op gt n_embd D cur))"

text \<open>The dense block of the same weights; \<open>ffn_down_t\<close> is the transposed \<open>ffn_down\<close>.\<close>

definition dense_of :: "nat \<Rightarrow> 'f ffn \<Rightarrow> 'f dense_ffn" where
  "dense_of n_embd F = \<lparr>d_up = host (up F), d_up_b = up_b F, d_gate = map_option host (gate F), d_gate_b = gate_b F,
     d_down = map (\<lambda>c. map (\<lambda>row. row ! c) (host (down_t F))) [0 ..< n_embd], d_down_b = down_b F\<rparr>"

text \<open>The predictor is sound when the neurons that it skips have no activation.\<close>

definition predictor_sound :: "'f :: linordered_idom env \<Rightarrow> nat \<Rightarrow> (nat \<Rightarrow> 'f) \<Rightarrow> (nat \<Rightarrow> 'f) \<Rightarrow> bool" where
  "predictor_sound E n idx act \<longleftrightarrow> (\<forall>r < n. idx r < thr E \<longrightarrow> act r = 0)"

definition exact_on :: "'f env \<Rightarrow> split \<Rightarrow> nat \<Rightarrow> (nat \<Rightarrow> 'f) \<Rightarrow> bool" where
  "exact_on E s n v \<longleftrightarrow> (\<forall>i < n. full_gpu s \<or> cvt E (rnd16 E (v i)) = v i)"

lemma full_gpu_on: "split_ok n s \<Longrightarrow> 0 < n \<Longrightarrow> full_gpu s \<Longrightarrow> r < n \<Longrightarrow> on_gpu s r"
  by (rule split_cases) auto

lemma seen_exact:
  assumes "split_ok n s" "0 < n" "exact_on E s m v" "r < n" "i < m"
  shows "seen E s r (v i) = v i"
  using assms full_gpu_on [OF assms(1,2) _ assms(4)] by (auto simp: seen_def exact_on_def)

lemma ref_ffn_dense:
  assumes s: "split_ok n s" "0 < n" and F: "ffn_ok n n_embd s F" and gt: "gate F = None \<longleftrightarrow> gt = LLM_FFN_SEQ"
    and cur: "exact_on E s n_embd cur"
    and act: "exact_on E s n (dense_act (cvt E) silu gelu LLM_FFN_RELU gt n_embd (dense_of n_embd F) cur)"
    and sound: "predictor_sound E n idx (dense_act (cvt E) silu gelu LLM_FFN_RELU gt n_embd (dense_of n_embd F) cur)"
    and c: "c < n_embd"
  shows "ref_ffn E s gt n_embd F cur idx c = llm_build_ffn (cvt E) silu gelu LLM_FFN_RELU gt n_embd (dense_of n_embd F) cur c"
proof -
  let ?a = "dense_act (cvt E) silu gelu LLM_FFN_RELU gt n_embd (dense_of n_embd F) cur"
  have len: "length (host (up F)) = n" "length (host (down_t F)) = n" using F by (auto simp: ffn_ok_def weights_ok_def)
  have mm: "ref_mul_mat E s n_embd W cur idx r = mul_mat (cvt E) n_embd W cur r" if "r < n" "\<not> idx r < thr E" for W r
    using that seen_exact [OF s cur] by (simp add: ref_mul_mat_def mul_mat_def)
  have h: "ref_ffn_act E s gt n_embd F cur idx r = ?a r" if r: "r < n" "\<not> idx r < thr E" for r
    using gt mm [OF r]
    by (cases "gate F"; cases gt)
      (auto simp: ref_ffn_act_def dense_act_def dense_of_def ffn_act_def act_fn_def add_bias_def Let_def split: option.split)
  have "ref_axpy E s (host (down_t F)) (ref_ffn_act E s gt n_embd F cur idx) idx c
      = (\<Sum>r < n. cvt E (host (down_t F) ! r ! c) * ?a r)"
    unfolding ref_axpy_def len
  proof (rule sum.cong)
    fix r assume "r \<in> {..< n}"
    then have r: "r < n" by simp
    show "(if idx r < thr E then 0 else cvt E (host (down_t F) ! r ! c) * seen E s r (ref_ffn_act E s gt n_embd F cur idx r)) =
        cvt E (host (down_t F) ! r ! c) * ?a r"
      using sound r h [OF r] seen_exact [OF s act r r] by (simp add: predictor_sound_def)
  qed simp
  moreover have "mul_mat (cvt E) n (d_down (dense_of n_embd F)) ?a c = (\<Sum>r < n. cvt E (host (down_t F) ! r ! c) * ?a r)"
    unfolding mul_mat_def using c len(2) by (intro sum.cong) (simp_all add: dense_of_def)
  moreover have "length (d_up (dense_of n_embd F)) = n" "d_down_b (dense_of n_embd F) = down_b F" using len by (simp_all add: dense_of_def)
  ultimately show ?thesis by (simp add: ref_ffn_def llm_build_ffn_def add_bias_def split: option.split)
qed

subsection \<open>Properties\<close>

text \<open>C2: for one token and F16 weights whose rows are a multiple of 64 long, more than one neuron, a PAR or SYM
  gate or no gate, and every split that the exporter can write (no neuron, some or all on the GPU), the
  hybrid FFN computes the reference sparse FFN on the unsplit matrices: each selected neuron is counted
  exactly once, on the device that holds it, and what the output tensors held before does not matter.
  The order of the GPU blocks and the schedule of the workers of the two products are arbitrary.  The
  workers of the axpy add to \<open>dst\<close> without a lock; their schedule is any one in which no worker stores to an
  element that another has loaded and not yet stored (with one worker, any schedule).\<close>

theorem hybrid_ffn_correct:
  assumes "split_ok n s" "1 < n" "ffn_ok n n_embd s F" "64 dvd n_embd" "orders_ok s plan"
    and "0 < n_threads E" "cvt E 0 = 0" "full_gpu s \<or> calm E n_embd (fst (down_plan plan))" "gt \<noteq> LLM_FFN_SEQ \<or> gate F = None"
    and "llm_build_ffn_sparse E s plan junk gt n_embd F cur idx = Some out" "c < n_embd"
  shows "out c = ref_ffn E s gt n_embd F cur idx c"
  using assms by (rule ffn_result)

text \<open>C15: the hybrid FFN always has an execution that ends with a result, whatever the split, the gate type
  and the predictor say: the workers of each of its products can be scheduled to the end, those of the axpy
  without a collision, and no assertion of the builder fails on the matrices that the loader has sliced.\<close>

theorem hybrid_ffn_runs:
  assumes "split_ok n s" "0 < n" "ffn_ok n n_embd s F" "0 < n_threads E"
  shows "\<exists>plan out. orders_ok s plan \<and> calm E n_embd (fst (down_plan plan)) \<and>
    llm_build_ffn_sparse E s plan junk gt n_embd F cur idx = Some out"
  using assms by (rule ffn_runs)

text \<open>C7: when the predictor is sound, that is, the dense activation of every neuron it skips is zero, and the
  activations are F16 values wherever the CPU has to convert them, the sparse FFN on the split layer equals
  the dense FFN (\<open>llm_build_ffn\<close> with RELU) of the same weights.  As for the reference: one token, F16 rows
  that are a multiple of 64 long, more than one neuron, a PAR or SYM gate or SEQ without a gate, any order of
  the blocks, any schedule in which the workers of the axpy do not collide.\<close>

theorem sparse_ffn_is_dense:
  assumes "split_ok n s" "1 < n" "ffn_ok n n_embd s F" "64 dvd n_embd" "orders_ok s plan"
    and "0 < n_threads E" "cvt E 0 = 0" "full_gpu s \<or> calm E n_embd (fst (down_plan plan))" "gate F = None \<longleftrightarrow> gt = LLM_FFN_SEQ"
    and "exact_on E s n_embd cur"
    and "exact_on E s n (dense_act (cvt E) silu gelu LLM_FFN_RELU gt n_embd (dense_of n_embd F) cur)"
    and "predictor_sound E n idx (dense_act (cvt E) silu gelu LLM_FFN_RELU gt n_embd (dense_of n_embd F) cur)"
    and "llm_build_ffn_sparse E s plan junk gt n_embd F cur idx = Some out" "c < n_embd"
  shows "out c = llm_build_ffn (cvt E) silu gelu LLM_FFN_RELU gt n_embd (dense_of n_embd F) cur c"
proof -
  have "out c = ref_ffn E s gt n_embd F cur idx c"
    by (rule ffn_result [OF assms(1-8) _ assms(13,14)]) (use assms(9) in blast)
  also have "\<dots> = llm_build_ffn (cvt E) silu gelu LLM_FFN_RELU gt n_embd (dense_of n_embd F) cur c"
    by (rule ref_ffn_dense [OF assms(1) _ assms(3,9-12,14)]) (use assms(2) in simp)
  finally show ?thesis .
qed

text \<open>Three neurons, one of them on the GPU, one of the others skipped.\<close>

definition tiny_env :: "int env" where
  "tiny_env = \<lparr>cvt = uint, rnd16 = of_int, thr = 1, n_threads = 2\<rparr>"

definition tiny_split :: split where
  "tiny_split = load_split (export_idx 3 [1]) (export_bucket [1])"

definition tiny_rows :: "u16 list list" where
  "tiny_rows = [replicate 64 1, replicate 64 2, replicate 64 3]"

definition tiny_weights :: weights where
  "tiny_weights = \<lparr>host = tiny_rows, device = Some (replicate 64 2)\<rparr>"

definition tiny_ffn :: "int ffn" where
  "tiny_ffn = \<lparr>up = tiny_weights, up_b = Some (\<lambda>r. if r = 2 then -192 else 0), gate = None, gate_b = None,
     down_t = tiny_weights, down_b = Some (\<lambda>_. 7)\<rparr>"

definition tiny_idx :: "nat \<Rightarrow> int" where "tiny_idx r = (if r = 2 then 0 else 1)"

lemma tiny_split_eq: "tiny_split = \<lparr>s_idx = [0, 1, 0], s_bucket = Some [1], s_neurons = 1\<rparr>"
  by (simp add: tiny_split_def load_split_def export_idx_def export_bucket_def numeral_3_eq_3)

lemma tiny_ok: "split_ok 3 tiny_split" "ffn_ok 3 64 tiny_split tiny_ffn"
proof -
  show "split_ok 3 tiny_split" unfolding split_ok_def tiny_split_def by (intro exI [of _ "[1]"]) simp
  have "slice_mat tiny_split tiny_rows = Some tiny_weights"
    by (simp add: slice_mat_def tiny_split_eq create_striped_mat_to_gpu_def tiny_weights_def tiny_rows_def)
  then have "weights_ok 3 64 tiny_split tiny_weights" by (simp add: weights_ok_def tiny_weights_def tiny_rows_def)
  then show "ffn_ok 3 64 tiny_split tiny_ffn" by (simp add: ffn_ok_def tiny_ffn_def)
qed

lemma tiny_runs:
  "\<exists>plan out. orders_ok tiny_split plan \<and> calm tiny_env 64 (fst (down_plan plan)) \<and>
     llm_build_ffn_sparse tiny_env tiny_split plan (\<lambda>_. 9) LLM_FFN_SEQ 64 tiny_ffn (\<lambda>_. 1) tiny_idx = Some out"
  by (rule ffn_runs [OF tiny_ok(1) _ tiny_ok(2)]) (simp_all add: tiny_env_def)

lemma hybrid_ffn_runs_witness:
  "\<exists>plan out. orders_ok tiny_split plan \<and> calm tiny_env 64 (fst (down_plan plan)) \<and>
     llm_build_ffn_sparse tiny_env tiny_split plan (\<lambda>_. 9) LLM_FFN_SEQ 64 tiny_ffn (\<lambda>_. 1) tiny_idx = Some out"
  by (rule hybrid_ffn_runs [OF tiny_ok(1) _ tiny_ok(2)]) (simp_all add: tiny_env_def)

text \<open>64 for neuron 0 and 128 for neuron 1, weighted with 1 and 2, and the bias.\<close>

lemma hybrid_ffn_correct_witness:
  "\<exists>plan out. llm_build_ffn_sparse tiny_env tiny_split plan (\<lambda>_. 9) LLM_FFN_SEQ 64 tiny_ffn (\<lambda>_. 1) tiny_idx = Some out \<and> out 5 = 327"
proof -
  obtain plan out where p: "orders_ok tiny_split plan" "calm tiny_env 64 (fst (down_plan plan))"
      "llm_build_ffn_sparse tiny_env tiny_split plan (\<lambda>_. 9) LLM_FFN_SEQ 64 tiny_ffn (\<lambda>_. 1) tiny_idx = Some out"
    using tiny_runs by blast
  have "out 5 = ref_ffn tiny_env tiny_split LLM_FFN_SEQ 64 tiny_ffn (\<lambda>_. 1) tiny_idx 5"
    by (rule hybrid_ffn_correct [OF tiny_ok(1) _ tiny_ok(2) _ p(1) _ _ _ _ p(3)]) (use p(2) in \<open>simp_all add: tiny_env_def tiny_ffn_def\<close>)
  also have "\<dots> = 327"
    by (simp add: ref_ffn_def ref_ffn_act_def ref_axpy_def ref_mul_mat_def add_bias_def ffn_act_def relu_def seen_def on_gpu_def
        tiny_ffn_def tiny_weights_def tiny_rows_def tiny_env_def tiny_idx_def tiny_split_eq lessThan_nat_numeral)
  finally show ?thesis using p(3) by blast
qed

lemma sparse_ffn_is_dense_witness:
  "\<exists>plan out. llm_build_ffn_sparse tiny_env tiny_split plan (\<lambda>_. 9) LLM_FFN_SEQ 64 tiny_ffn (\<lambda>_. 1) tiny_idx = Some out \<and>
     out 5 = llm_build_ffn uint id id LLM_FFN_RELU LLM_FFN_SEQ 64 (dense_of 64 tiny_ffn) (\<lambda>_. 1) 5"
proof -
  obtain plan out where p: "orders_ok tiny_split plan" "calm tiny_env 64 (fst (down_plan plan))"
      "llm_build_ffn_sparse tiny_env tiny_split plan (\<lambda>_. 9) LLM_FFN_SEQ 64 tiny_ffn (\<lambda>_. 1) tiny_idx = Some out"
    using tiny_runs by blast
  have env: "cvt tiny_env = uint" "thr tiny_env = 1" "rnd16 tiny_env = of_int" by (simp_all add: tiny_env_def)
  have cases: "r < 3 \<longleftrightarrow> r = 0 \<or> r = 1 \<or> r = (2 :: nat)" for r by linarith
  have act: "r < 3 \<Longrightarrow> dense_act uint id id LLM_FFN_RELU LLM_FFN_SEQ 64 (dense_of 64 tiny_ffn) (\<lambda>_. 1) r =
      (if r = 0 then 64 else if r = 1 then 128 else (0 :: int))" for r
    unfolding cases by (auto simp: dense_act_def dense_of_def tiny_ffn_def tiny_weights_def tiny_rows_def act_fn_def relu_def
        add_bias_def mul_mat_def)
  have "out 5 = llm_build_ffn (cvt tiny_env) id id LLM_FFN_RELU LLM_FFN_SEQ 64 (dense_of 64 tiny_ffn) (\<lambda>_. 1) 5"
  proof (rule sparse_ffn_is_dense [OF tiny_ok(1) _ tiny_ok(2) _ p(1) _ _ _ _ _ _ _ p(3)])
    show "exact_on tiny_env tiny_split 3 (dense_act (cvt tiny_env) id id LLM_FFN_RELU LLM_FFN_SEQ 64 (dense_of 64 tiny_ffn) (\<lambda>_. 1))"
      unfolding env exact_on_def by (auto simp: act)
    show "predictor_sound tiny_env 3 tiny_idx (dense_act (cvt tiny_env) id id LLM_FFN_RELU LLM_FFN_SEQ 64 (dense_of 64 tiny_ffn) (\<lambda>_. 1))"
      unfolding env predictor_sound_def by (auto simp: act tiny_idx_def)
  qed (use p(2) in \<open>simp_all add: tiny_env_def tiny_ffn_def exact_on_def\<close>)
  then show ?thesis using p(3) unfolding env by blast
qed

end
