(* ===== verification/Spec2Isabelle.thy ===== *)
theory Spec2Isabelle
  imports Az_List Az_Core Az_Tasks Disk_Queue Chat_Template Unicode Regex_Split Grammar Grammar_Lang Grammar_Sample Grammar_Parse Grammar_Text Kv_Cells Batch Batch_Split Kv_Cache Kv_Ops Kv_Slot Kv_Prepare Kv_State Expert_Cache Expert_Safety Packed_Kernel Expert_Bundle Merge Vocab Detokenize Spm Bpe Partition Sparse_Mm Sparse_Axpy Sparse_Cuda Sparse_Ffn
begin

text \<open>
  Verification library for PowerInfer: the parts of the inference engine (the \<open>smallthinker\<close> tree) that decide
  which bytes, cells, buffers and tasks are used, and the sparse feed-forward block of the root tree, which
  skips neurons and splits the others between the CPU and the GPU.  Rounding and input/output are outside.

  The program.  A prompt is rendered by a chat template (\<open>src/llama-chat.cpp\<close>) and tokenized
  (\<open>src/llama-vocab.cpp\<close>, \<open>src/unicode.cpp\<close>): it is partitioned at special tokens, the text between them is cut
  into words by \<open>unicode_regex_split\<close> and the characters of a word are merged into tokens.  The tokens form a
  batch (\<open>src/llama-batch.cpp\<close>), which is split into micro-batches; each gets cells of the KV cache
  (\<open>src/llama-kv-cells.h\<close>, \<open>src/llama-kv-cache-unified.cpp\<close>).  A layer of experts is computed by a graph of tasks
  (\<open>powerinfer/libaz/az/pipeline\<close>) whose weights an I/O thread reads into a cache of buffers
  (\<open>powerinfer/moe_sparse_pipeline/expert_cache.cpp\<close>) from the file that \<open>expert_bundle.cpp\<close> wrote.  The sampled
  token may be constrained by a grammar (\<open>src/llama-grammar.cpp\<close>); the answer is detokenized.  In the root tree
  a predictor says for each token which neurons of a layer matter; \<open>llm_build_ffn_sparse\<close> (\<open>llama.cpp\<close>) computes
  these, the offloaded ones with the kernels of \<open>ggml-cuda.cu\<close>, the others with those of \<open>ggml.c\<close>.

  Theories, in the order of their imports, with the code they model and what their lemmas show.

  \<^item> \<open>Prelude\<close>: word types, \<open>fold_opt\<close> (a loop whose body may fail), list lemmas, hint collections.
  \<^item> \<open>Az_List\<close> (\<open>libaz/az/core/list.hpp\<close>, \<open>lru.cpp\<close>): nodes are addresses, their fields maps from addresses to
    addresses; the LRU list refines a list of nodes in the order of their last use and leaves the pointers of all
    other nodes alone.  \<open>Az_Core\<close> (\<open>utils.cpp\<close>,
    \<open>layout.hpp\<close>, \<open>aligned_alloc.cpp\<close>, \<open>spin_barrier.cpp\<close>): the distribution of items, indices, and the spin
    barrier as a step relation in which no thread passes before all arrived.
  \<^item> \<open>Disk_Queue\<close> (\<open>powerinfer-disk-queue.hpp\<close>, \<open>SimpleTaskQueue\<close> of \<open>task.hpp\<close>): a bounded and an unbounded queue,
    both interpretations of one locale of first-in-first-out queues; every sequence of calls on the ring buffer
    has the outcomes that a list of bounded length gives.
  \<^item> \<open>Az_Tasks\<close> (\<open>task.cpp\<close>, \<open>pipeline.cpp\<close>, \<open>spin_lock.hpp\<close>): the task graph, once as functions per method, once
    as a step relation split at the atomic accesses; every task runs once and after its predecessors, the
    graph completes, no assertion fails.
  \<^item> \<open>Expert_Cache\<close>, \<open>Expert_Safety\<close> (\<open>expert_cache.cpp\<close>, \<open>iou.cpp\<close>, \<open>pipeline.cpp\<close>): buffers, eviction, prefetch and
    the I/O thread over two queues; a matrix marked present holds its block of the file, unless an eviction
    hits a matrix that is still being read (a run shows it).  \<open>Packed_Kernel\<close> (\<open>packed_kernel.cpp\<close>): the
    interleaved rows and the product that reads them; \<open>Expert_Bundle\<close> (\<open>expert_bundle.cpp\<close>,
    \<open>llama_model::load_tensors\<close>): the file, and that the offsets the cache reads are those that were written.
  \<^item> \<open>Chat_Template\<close> (\<open>llama-chat.cpp\<close>): the table, the detection and one definition per branch; the
    conversations that seven of the templates write can be read back.
  \<^item> \<open>Unicode\<close>, \<open>Regex_Split\<close> (\<open>unicode.cpp\<close>): UTF-8 and the byte alphabet and their round trips; the splitters,
    written against a locale that makes each step advance, so that no text is lost.
  \<^item> \<open>Vocab\<close>, \<open>Detokenize\<close> (\<open>llama_vocab::impl\<close>): the table of tokens as a record (fields that no modelled
    operation reads are left out), \<open>token_to_piece\<close> with its cache, \<open>detokenize\<close> with its in-place passes.
  \<^item> \<open>Merge\<close>: the symbol chain and work queue that the SPM and BPE sessions share, as a locale with the laws of
    adding a pair, of recognising an outdated one and of the order; it proves that the loop ends and computes the
    greedy merging.  \<open>Spm\<close> and \<open>Bpe\<close> (\<open>llm_tokenizer_spm_session\<close>, \<open>llm_tokenizer_bpe_session\<close>) interpret it.
    \<open>Partition\<close> (\<open>tokenizer_st_partition\<close>, the SPM and BPE cases of \<open>tokenize\<close>) composes them: a prompt is given
    back by \<open>detokenize\<close> when the vocabulary adds no space prefix and strips nothing, its bytes and merge results
    are plain tokens and the pre-tokenisation succeeds.
  \<^item> \<open>Grammar\<close>, \<open>Grammar_Lang\<close>, \<open>Grammar_Sample\<close>, \<open>Grammar_Parse\<close>, \<open>Grammar_Text\<close> (\<open>llama-grammar.cpp\<close>): the pushdown
    stacks against the language of the grammar, the masking of candidates (against a definition of what a stack can
    consume that does not use the code's test of partial code points), the parser of the notation, its termination, and that the grammars it builds meet the hypotheses of the sampling theorems.
  \<^item> \<open>Kv_Cells\<close>, \<open>Kv_Cache\<close>, \<open>Kv_Ops\<close>, \<open>Kv_Slot\<close>, \<open>Kv_Prepare\<close>, \<open>Kv_State\<close>: cells with positions and sequences, and the
    operations of the cache; the tracked positions are exact, the operations on sequences refine operations on
    a set of entries, a slot is safe and found when there is one, \<open>prepare\<close> places every micro-batch or shows that one
    does not fit, and restores the cache.  \<open>Kv_State\<close> adds the tensor data of the layers: a saved cache is restored
    with its keys and values.  \<open>Batch\<close>, \<open>Batch_Split\<close>: the micro-batches are a partition of the batch.

  \<^item> \<open>Sparse_Mm\<close> (\<open>ggml_compute_forward_mul_mat_sparse\<close>): workers take chunks of rows from an atomic counter; a
    schedule is a list of workers.  All runs end, and compute every cell if there are more rows than columns.
    \<open>Sparse_Axpy\<close> (\<open>ggml_compute_forward_mul_mat_axpy\<close> and its Q4_0 variant): the workers add to \<open>dst\<close> without a
    lock, a load and a store as separate steps; a schedule without collisions (\<open>collision_free\<close>, a condition on
    the schedule alone) computes the sum, another one loses additions.  A locale states what a kernel for one row
    does; the F16 and the Q4_0 kernel interpret it.  \<open>Sparse_Cuda\<close> (\<open>ggml-cuda.cu\<close>): blocks in any order, the warp
    and its exchange of partial sums, the kernels for one token and the product kernel for a batch with its
    moving pointers, what each computes, and which rows some of them miss.
  \<^item> \<open>Sparse_Ffn\<close> (\<open>export_split.py\<close>, the loaders and graph builders of \<open>llama.cpp\<close>, in a build with CUBLAS): the
    split of the neurons, the sliced matrices, the block.  For one token and F16 weights the hybrid block refines
    a reference that works neuron by neuron, for every schedule of its product and every schedule of its CPU
    axpy without collisions; it always has such an execution, and with a sound predictor it equals the dense
    block.

  Conventions.  A structure is a record, an enumeration a datatype, a pointer the part of the data that is read
  through it or an index.  A failed assertion, an exception that leaves the function, or an access out of range
  is \<open>None\<close> (the left part of a sum where the kind matters).  Bytes and code points are words; sizes, ids and
  positions are unbounded numbers, except where the code relies on wrapping (\<open>Az_Core\<close>).  A loop that may run
  forever is a \<open>partial_function (option)\<close> (the merging, the partition, the slot search) or has fuel; that it
  returns is part of the theorems: the merging needs at most \<open>3 * symbols + pairs\<close> rounds, the recursion of
  \<open>llama_grammar_advance_stack\<close> is bounded for grammars without left recursion, the grammar parser needs at most four
  levels or rounds per byte of its text (copies made by a repetition not counted), a splitter makes at most one step per code point.

  Numbers of the sparse kernels are an ordered ring, so additions are exact and can be reordered; the conversions
  from and to F16 are the parameters \<open>cvt\<close> and \<open>rnd16\<close>, of which only \<open>cvt 0 = 0\<close> is used.

  Parameters: the generated tables of \<open>unicode-data.cpp\<close>, \<open>std::regex\<close>, \<open>std::sort\<close>, the sum in floating point, the
  compute bodies of tasks, the kernel's choice of the next completed read.  Their documented behaviour is a
  named hypothesis (\<open>regex_documented\<close>, a sorted permutation), met by concrete functions in the witnesses.

  Not modelled: the other operators of ggml and the SIMD kernels (arithmetic on floats, intrinsics), among them the
  AVX2 branches of the sparse kernels, the axpy kernels for heads, the axpy kernel for a batch (the barrier between
  filling and reading shared memory is commented out) and the cuBLAS path for large batches;
  the choice between kernels by shape, the VRAM budget and the solver that chooses the neurons; model loading
  and compute graphs (\<open>llama-model.cpp\<close>, \<open>llama-graph.cpp\<close>), bound to ggml; the recurrent KV cache; the WPM and UGM
  tokenizers (UGM adds floating-point scores); the configuration of special ids from the model file; tracing,
  CPU affinity and logging (operating system, third party); tools, server and argument parsing (input and
  output); the rest of the root tree, an older code base of the same structure.
\<close>

end
